(* ===== verification/Prelude.thy ===== *)
theory Prelude
  imports Main "HOL-Library.Word"
begin

text \<open>
  Vocabulary shared by every theory of the development: the machine integer types and
  their limits, division rounded up, the model of \<open>std::map\<close> (an ordered association list)
  with the interface its clients rely on, and the named collections the component proofs
  draw on.

  \<^item> \<open>u8\<close>, \<open>u32\<close>, \<open>u64\<close> are the C++ unsigned types, with their wrap-around.
  \<^item> A C++ \<open>std::int64_t\<close> is an \<open>int\<close>; the code's own guards against overflow are kept in
    the definitions, and the places where an overflow would be undefined behaviour are
    covered by range lemmas over \<open>in_int64\<close>.
\<close>

unbundle bit_operations_syntax

named_theorems limits "machine integer limits as numerals"
named_theorems inv_intros "introduction rules that establish a component's invariant"
named_theorems spec_simps "what an operation computes, stated on the abstract level"

type_synonym u8 = "8 word"
type_synonym u32 = "32 word"
type_synonym u64 = "64 word"

definition int64_max :: int where
  "int64_max = 9223372036854775807"

definition int64_min :: int where
  "int64_min = - 9223372036854775808"

definition in_int64 :: "int \<Rightarrow> bool" where
  "in_int64 x \<longleftrightarrow> int64_min \<le> x \<and> x \<le> int64_max"

definition uint64_max :: u64 where
  "uint64_max = 18446744073709551615"

declare int64_max_def [limits] int64_min_def [limits] in_int64_def [limits] uint64_max_def [limits]

lemma unat_u64_bound: "unat (w :: u64) < 18446744073709551616"
  by (rule order_less_le_trans [OF unsigned_less]) simp

lemma unat_u32_bound: "unat (w :: u32) < 4294967296"
  by (rule order_less_le_trans [OF unsigned_less]) simp


subsection \<open>Division rounded up\<close>

definition ceil_div :: "nat \<Rightarrow> nat \<Rightarrow> nat" where
  "ceil_div n d = n div d + (if n mod d = 0 then 0 else 1)"

lemma ceil_div_0 [simp]: "ceil_div 0 d = 0"
  by (simp add: ceil_div_def)

lemma ceil_div_ge: "0 < d \<Longrightarrow> n \<le> ceil_div n d * d"
proof -
  assume d: "0 < d"
  have n: "n = n div d * d + n mod d" by simp
  have "n mod d \<le> (if n mod d = 0 then 0 else 1) * d"
    using d by (auto simp: less_imp_le)
  then show ?thesis
    by (subst n) (simp only: ceil_div_def add_mult_distrib add_le_mono order_refl)
qed

lemma ceil_div_lt: "0 < d \<Longrightarrow> ceil_div n d * d < n + d"
proof -
  assume d: "0 < d"
  have n: "n = n div d * d + n mod d" by simp
  have "(if n mod d = 0 then 0 else 1) * d < n mod d + d"
    using d by auto
  then show ?thesis
    by (subst (2) n) (simp only: ceil_div_def add_mult_distrib add.assoc nat_add_left_cancel_less)
qed

lemma ceil_div_least: "0 < d \<Longrightarrow> ceil_div n d \<le> k \<longleftrightarrow> n \<le> k * d"
proof
  assume d: "0 < d" and "ceil_div n d \<le> k"
  then have "ceil_div n d * d \<le> k * d" by simp
  with ceil_div_ge [OF d, of n] show "n \<le> k * d" by linarith
next
  assume d: "0 < d" and "n \<le> k * d"
  with ceil_div_lt [OF d, of n] have "ceil_div n d * d < (k + 1) * d" by simp
  then show "ceil_div n d \<le> k" using d by (metis mult_less_cancel2 less_Suc_eq_le Suc_eq_plus1)
qed

lemma ceil_div_mono: "n \<le> m \<Longrightarrow> ceil_div n d \<le> ceil_div m d"
proof (cases "d = 0")
  case False
  assume "n \<le> m"
  also have "m \<le> ceil_div m d * d" using False by (intro ceil_div_ge) simp
  finally show ?thesis using False by (subst ceil_div_least) auto
qed (simp add: ceil_div_def)

text \<open>The guards \<open>x > max / y\<close> of the code test a product against the maximum.\<close>

lemma int_le_div_iff: "0 < b \<Longrightarrow> (w :: int) \<le> a div b \<longleftrightarrow> w * b \<le> a"
proof
  assume b: "0 < b" and "w \<le> a div b"
  then have "w * b \<le> a div b * b" by (simp add: mult_right_mono)
  also have "\<dots> \<le> a" using b by (simp add: minus_mod_eq_div_mult [symmetric])
  finally show "w * b \<le> a" .
next
  assume b: "0 < b" and "w * b \<le> a"
  then have "w * b div b \<le> a div b" by (intro zdiv_mono1) auto
  with b show "w \<le> a div b" by simp
qed

lemma int_div_less_iff: "0 < b \<Longrightarrow> a div b < (w :: int) \<longleftrightarrow> a < w * b"
  using int_le_div_iff [of b w a] by auto

lemma nat_le_div_iff: "0 < b \<Longrightarrow> (w :: nat) \<le> a div b \<longleftrightarrow> w * b \<le> a"
  by (simp add: less_eq_div_iff_mult_less_eq)

lemma nat_div_less_iff: "0 < b \<Longrightarrow> a div b < (w :: nat) \<longleftrightarrow> a < w * b"
  using nat_le_div_iff [of b w a] by auto


subsection \<open>\<open>std::map\<close> as an ordered association list\<close>

text \<open>
  A \<open>std::map\<close> iterates in ascending key order. It is modelled by the list of its entries in
  that order; \<open>omap_ok\<close> is the container's own invariant. Lookup is the library's \<open>map_of\<close>.
\<close>

definition omap_ok :: "('k::linorder \<times> 'v) list \<Rightarrow> bool" where
  "omap_ok m \<longleftrightarrow> sorted_wrt (<) (map fst m)"

fun omap_put :: "'k::linorder \<Rightarrow> 'v \<Rightarrow> ('k \<times> 'v) list \<Rightarrow> ('k \<times> 'v) list" where
  "omap_put k v [] = [(k, v)]"
| "omap_put k v (e # es) =
     (if fst e < k then e # omap_put k v es
      else if fst e = k then (k, v) # es
      else (k, v) # e # es)"

fun omap_erase :: "'k::linorder \<Rightarrow> ('k \<times> 'v) list \<Rightarrow> ('k \<times> 'v) list" where
  "omap_erase k [] = []"
| "omap_erase k (e # es) = (if fst e = k then es else e # omap_erase k es)"

text \<open>\<open>emplace\<close> never overwrites: \<open>None\<close> stands for \<open>inserted == false\<close>.\<close>

definition omap_emplace :: "'k::linorder \<Rightarrow> 'v \<Rightarrow> ('k \<times> 'v) list \<Rightarrow> ('k \<times> 'v) list option" where
  "omap_emplace k v m = (case map_of m k of None \<Rightarrow> Some (omap_put k v m) | Some _ \<Rightarrow> None)"

lemma omap_ok_Nil [simp]: "omap_ok []"
  by (simp add: omap_ok_def)

lemma omap_ok_Cons: "omap_ok (e # es) \<longleftrightarrow> (\<forall>x \<in> set es. fst e < fst x) \<and> omap_ok es"
  by (auto simp: omap_ok_def)

lemma omap_keys_put: "fst ` set (omap_put k v m) = insert k (fst ` set m)"
  by (induction m) auto

lemma omap_set_put: "set (omap_put k v m) \<subseteq> insert (k, v) (set m)"
  by (induction m) auto

lemma omap_set_erase: "set (omap_erase k m) \<subseteq> set m"
  by (induction m) auto

lemma omap_ok_put: "omap_ok m \<Longrightarrow> omap_ok (omap_put k v m)"
proof (induction m)
  case Nil
  then show ?case by (simp add: omap_ok_def)
next
  case (Cons e es)
  then have "omap_ok (omap_put k v es)" by (simp add: omap_ok_Cons)
  moreover have "\<forall>x \<in> set (omap_put k v es). fst x \<in> insert k (fst ` set es)"
    using omap_keys_put [of k v es] by blast
  ultimately show ?case using Cons.prems by (fastforce simp: omap_ok_Cons)
qed

lemma omap_ok_erase: "omap_ok m \<Longrightarrow> omap_ok (omap_erase k m)"
proof (induction m)
  case (Cons e es)
  then show ?case using omap_set_erase [of k es] by (auto simp: omap_ok_Cons)
qed simp

lemma omap_find_put [simp]: "map_of (omap_put k v m) = (map_of m)(k \<mapsto> v)"
  by (induction m) (auto simp: fun_eq_iff)

lemma omap_find_None: "\<forall>x \<in> set m. (k::'k::linorder) < fst x \<Longrightarrow> map_of m k = None"
  by (induction m) auto

lemma omap_find_erase: "omap_ok m \<Longrightarrow> map_of (omap_erase k m) = (map_of m)(k := None)"
proof (induction m)
  case (Cons e es)
  then show ?case by (auto simp: omap_ok_Cons fun_eq_iff omap_find_None)
qed simp

lemma omap_erase_absent: "map_of m k = None \<Longrightarrow> omap_erase k m = m"
  by (induction m) (auto split: if_splits)

lemma omap_emplace_Some: "omap_emplace k v m = Some m' \<longleftrightarrow> map_of m k = None \<and> m' = omap_put k v m"
  by (auto simp: omap_emplace_def split: option.splits)

lemma omap_ok_distinct: "omap_ok m \<Longrightarrow> distinct (map fst m)"
  by (simp add: omap_ok_def strict_sorted_iff)

lemma omap_find_mem: "omap_ok m \<Longrightarrow> map_of m k = Some v \<longleftrightarrow> (k, v) \<in> set m"
  by (simp add: omap_ok_distinct)

lemma omap_ext: "omap_ok m \<Longrightarrow> omap_ok m' \<Longrightarrow> map_of m = map_of m' \<Longrightarrow> m = m'"
proof -
  assume ok: "omap_ok m" "omap_ok m'" and eq: "map_of m = map_of m'"
  have "set m = set m'" using ok eq
    by (auto simp flip: omap_find_mem)
  moreover have "sorted (map fst m)" "distinct (map fst m)" "sorted (map fst m')" "distinct (map fst m')"
    using ok by (auto simp: omap_ok_def strict_sorted_iff)
  ultimately show ?thesis
    using map_sorted_distinct_set_unique [of fst m m'] by (simp add: distinct_map)
qed


subsection \<open>The interface of an ordered map\<close>

text \<open>
  What the components rely on when they keep quantities by key: the lookup after each
  operation, and that the operations keep the container's invariant. The lemmas of the
  locale are about the two idioms of the code: replace or drop an entry according to its new
  quantity, and add to a counter that starts at zero.
\<close>

locale ordered_map =
  fixes find :: "'m \<Rightarrow> 'k \<Rightarrow> 'v option"
    and put :: "'k \<Rightarrow> 'v \<Rightarrow> 'm \<Rightarrow> 'm"
    and erase :: "'k \<Rightarrow> 'm \<Rightarrow> 'm"
    and ok :: "'m \<Rightarrow> bool"
  assumes find_put: "find (put k v m) = (find m)(k \<mapsto> v)"
    and find_erase: "ok m \<Longrightarrow> find (erase k m) = (find m)(k := None)"
    and ok_put: "ok m \<Longrightarrow> ok (put k v m)"
    and ok_erase: "ok m \<Longrightarrow> ok (erase k m)"
begin

lemma find_replace:
  "ok m \<Longrightarrow> find (if gone then erase k m else put k v m) = (find m)(k := if gone then None else Some v)"
  by (simp add: find_put find_erase)

lemma ok_replace: "ok m \<Longrightarrow> ok (if gone then erase k m else put k v m)"
  by (simp add: ok_put ok_erase)

lemma values_replace:
  assumes "ok m" and "\<And>j w. find m j = Some w \<Longrightarrow> P j w" and "\<not> gone \<Longrightarrow> P k v"
    and "find (if gone then erase k m else put k v m) j = Some w"
  shows "P j w"
  using assms by (cases "j = k") (auto simp: find_replace split: if_splits)

end

interpretation omap: ordered_map map_of omap_put omap_erase omap_ok
  by unfold_locales (simp_all add: omap_find_erase omap_ok_put omap_ok_erase)


subsection \<open>Lists\<close>

lemma sum_list_map_cong_count:
  "(\<And>x. x \<in> set xs \<Longrightarrow> f x = g x) \<Longrightarrow> sum_list (map f xs) = sum_list (map g xs)"
  by (simp cong: map_cong)

end
