(* ===== verification/Fixed_Point.thy ===== *)
theory Fixed_Point
  imports Prelude
begin

text \<open>
  Exact decimal quantities, after \<open>include/eme/core/fixed_point.hpp\<close>: the parser
  \<open>detail::parse_scaled_nonnegative\<close> and the four value classes \<open>Price\<close>, \<open>Quantity\<close>,
  \<open>QuantityDelta\<close> and \<open>Cash\<close>. The constructors of the classes are private and their only
  factories check the range, so each class is a type of exactly the raw values that its
  factory accepts; \<open>of_raw\<close> functions stand for the private constructors and are used
  where the code dereferences a factory's result.
\<close>

subsection \<open>The classes\<close>

definition price_scale :: int where "price_scale = 10000"
definition quantity_scale :: int where "quantity_scale = 100"
definition cash_scale :: int where "cash_scale = 1000000"

declare price_scale_def [limits] quantity_scale_def [limits] cash_scale_def [limits]

typedef price = "{r :: int. 0 \<le> r \<and> r \<le> 10000}" morphisms price_rep Price
  by (rule exI [of _ 0]) simp

typedef quantity = "{r :: int. 0 \<le> r \<and> r \<le> 9223372036854775807}" morphisms quantity_rep Quantity
  by (rule exI [of _ 0]) simp

typedef quantity_delta =
    "{r :: int. - 9223372036854775808 \<le> r \<and> r \<le> 9223372036854775807}" morphisms delta_rep Quantity_Delta
  by (rule exI [of _ 0]) simp

typedef cash = "{r :: int. 0 \<le> r \<and> r \<le> 9223372036854775807}" morphisms cash_rep Cash
  by (rule exI [of _ 0]) simp

setup_lifting type_definition_price
setup_lifting type_definition_quantity
setup_lifting type_definition_quantity_delta
setup_lifting type_definition_cash

text \<open>\<open>raw()\<close>.\<close>

lift_definition price_raw :: "price \<Rightarrow> int" is "\<lambda>r. r" .
lift_definition quantity_raw :: "quantity \<Rightarrow> int" is "\<lambda>r. r" .
lift_definition delta_raw :: "quantity_delta \<Rightarrow> int" is "\<lambda>r. r" .
lift_definition cash_raw :: "cash \<Rightarrow> int" is "\<lambda>r. r" .

text \<open>The private constructors. No caller passes a value out of range.\<close>

lift_definition price_of :: "int \<Rightarrow> price" is
  "\<lambda>r. if 0 \<le> r \<and> r \<le> 10000 then r else 0" by simp
lift_definition quantity_of :: "int \<Rightarrow> quantity" is
  "\<lambda>r. if 0 \<le> r \<and> r \<le> 9223372036854775807 then r else 0" by simp
lift_definition delta_of :: "int \<Rightarrow> quantity_delta" is
  "\<lambda>r. if - 9223372036854775808 \<le> r \<and> r \<le> 9223372036854775807 then r else 0" by simp
lift_definition cash_of :: "int \<Rightarrow> cash" is
  "\<lambda>r. if 0 \<le> r \<and> r \<le> 9223372036854775807 then r else 0" by simp

lemma price_raw_of [simp]: "price_raw (price_of r) = (if 0 \<le> r \<and> r \<le> 10000 then r else 0)"
  by transfer simp
lemma quantity_raw_of [simp]:
  "quantity_raw (quantity_of r) = (if 0 \<le> r \<and> r \<le> 9223372036854775807 then r else 0)"
  by transfer simp
lemma delta_raw_of [simp]:
  "delta_raw (delta_of r) =
     (if - 9223372036854775808 \<le> r \<and> r \<le> 9223372036854775807 then r else 0)"
  by transfer simp
lemma cash_raw_of [simp]:
  "cash_raw (cash_of r) = (if 0 \<le> r \<and> r \<le> 9223372036854775807 then r else 0)"
  by transfer simp

lemma price_of_raw [simp]: "price_of (price_raw p) = p"
  by transfer simp
lemma quantity_of_raw [simp]: "quantity_of (quantity_raw q) = q"
  by transfer simp
lemma cash_of_raw [simp]: "cash_of (cash_raw c) = c"
  by transfer simp
lemma delta_of_raw [simp]: "delta_of (delta_raw d) = d"
  by transfer simp

lemma price_raw_bounds [simp]: "0 \<le> price_raw p" "price_raw p \<le> 10000"
  by (transfer, simp)+
lemma quantity_raw_bounds [simp]: "0 \<le> quantity_raw q" "quantity_raw q \<le> 9223372036854775807"
  by (transfer, simp)+
lemma delta_raw_bounds [simp]:
  "- 9223372036854775808 \<le> delta_raw d" "delta_raw d \<le> 9223372036854775807"
  by (transfer, simp)+
lemma cash_raw_bounds [simp]: "0 \<le> cash_raw c" "cash_raw c \<le> 9223372036854775807"
  by (transfer, simp)+

lemma raw_not_out_of_range [simp]:
  "\<not> price_raw p < 0" "\<not> 10000 < price_raw p" "\<not> quantity_raw q < 0"
  "\<not> 9223372036854775807 < quantity_raw q" "\<not> cash_raw c < 0" "\<not> 9223372036854775807 < cash_raw c"
  by (simp_all add: not_less)

lemma price_raw_inject: "price_raw p = price_raw q \<longleftrightarrow> p = q"
  by transfer simp
lemma quantity_raw_inject: "quantity_raw p = quantity_raw q \<longleftrightarrow> p = q"
  by transfer simp
lemma cash_raw_inject: "cash_raw p = cash_raw q \<longleftrightarrow> p = q"
  by transfer simp
lemma delta_raw_inject: "delta_raw p = delta_raw q \<longleftrightarrow> p = q"
  by transfer simp

text \<open>The defaulted comparison operators compare the raw value.\<close>

instantiation price :: linorder
begin
lift_definition less_eq_price :: "price \<Rightarrow> price \<Rightarrow> bool" is "(\<le>)" .
lift_definition less_price :: "price \<Rightarrow> price \<Rightarrow> bool" is "(<)" .
instance by standard (transfer, auto)+
end

instantiation quantity :: linorder
begin
lift_definition less_eq_quantity :: "quantity \<Rightarrow> quantity \<Rightarrow> bool" is "(\<le>)" .
lift_definition less_quantity :: "quantity \<Rightarrow> quantity \<Rightarrow> bool" is "(<)" .
instance by standard (transfer, auto)+
end

instantiation cash :: linorder
begin
lift_definition less_eq_cash :: "cash \<Rightarrow> cash \<Rightarrow> bool" is "(\<le>)" .
lift_definition less_cash :: "cash \<Rightarrow> cash \<Rightarrow> bool" is "(<)" .
instance by standard (transfer, auto)+
end

instantiation price :: equal
begin
lift_definition equal_price :: "price \<Rightarrow> price \<Rightarrow> bool" is "(=)" .
instance by standard (transfer, simp)
end

instantiation quantity :: equal
begin
lift_definition equal_quantity :: "quantity \<Rightarrow> quantity \<Rightarrow> bool" is "(=)" .
instance by standard (transfer, simp)
end

instantiation cash :: equal
begin
lift_definition equal_cash :: "cash \<Rightarrow> cash \<Rightarrow> bool" is "(=)" .
instance by standard (transfer, simp)
end

instantiation quantity_delta :: equal
begin
lift_definition equal_quantity_delta :: "quantity_delta \<Rightarrow> quantity_delta \<Rightarrow> bool" is "(=)" .
instance by standard (transfer, simp)
end


subsection \<open>Factories\<close>

definition price_from_raw :: "int \<Rightarrow> price option" where
  "price_from_raw raw = (if raw < 0 \<or> price_scale < raw then None else Some (price_of raw))"

definition quantity_from_raw :: "int \<Rightarrow> quantity option" where
  "quantity_from_raw raw = (if raw < 0 then None else Some (quantity_of raw))"

definition delta_from_raw :: "int \<Rightarrow> quantity_delta" where
  "delta_from_raw raw = delta_of raw"

definition cash_from_raw :: "int \<Rightarrow> cash option" where
  "cash_from_raw raw = (if raw < 0 then None else Some (cash_of raw))"


subsection \<open>The decimal parser\<close>

definition is_digit :: "char \<Rightarrow> bool" where
  "is_digit c \<longleftrightarrow> 48 \<le> (of_char c :: int) \<and> (of_char c :: int) \<le> 57"

definition digit_value :: "char \<Rightarrow> int" where
  "digit_value c = of_char c - 48"

text \<open>The loop over the digits before the point, with its guard against overflow.\<close>

fun parse_whole :: "int \<Rightarrow> string \<Rightarrow> int option" where
  "parse_whole whole [] = Some whole"
| "parse_whole whole (c # cs) =
     (if \<not> is_digit c then None
      else if (int64_max - digit_value c) div 10 < whole then None
      else parse_whole (whole * 10 + digit_value c) cs)"

text \<open>The loop over the digits after the point; their number was checked before.\<close>

fun parse_fraction :: "int \<Rightarrow> string \<Rightarrow> int option" where
  "parse_fraction fraction [] = Some fraction"
| "parse_fraction fraction (c # cs) =
     (if \<not> is_digit c then None else parse_fraction (fraction * 10 + digit_value c) cs)"

text \<open>
  \<open>parse_scaled_nonnegative<Scale, FractionDigits>\<close>. The text before the first point is
  \<open>whole_text\<close>; \<open>rest\<close> is empty when there is no point.
\<close>

definition parse_scaled_nonnegative :: "int \<Rightarrow> nat \<Rightarrow> string \<Rightarrow> int option" where
  "parse_scaled_nonnegative scale fraction_digits text =
     (if text = [] then None
      else
        let whole_text = takeWhile (\<lambda>c. c \<noteq> CHR ''.'') text;
            rest = dropWhile (\<lambda>c. c \<noteq> CHR ''.'') text
        in if rest \<noteq> [] \<and> CHR ''.'' \<in> set (tl rest) then None
           else if whole_text = [] then None
           else case parse_whole 0 whole_text of None \<Rightarrow> None
           | Some whole \<Rightarrow>
               if int64_max div scale < whole then None
               else case
                 (if rest = [] then Some (0, 0)
                  else let fraction_text = tl rest in
                    if fraction_text = [] \<or> fraction_digits < length fraction_text then None
                    else map_option (\<lambda>f. (f, length fraction_text)) (parse_fraction 0 fraction_text))
               of None \<Rightarrow> None
               | Some (fraction, fraction_size) \<Rightarrow>
                   let fraction = fraction * 10 ^ (fraction_digits - fraction_size);
                       scaled_whole = whole * scale
                   in if int64_max - fraction < scaled_whole then None
                      else Some (scaled_whole + fraction))"

definition price_parse :: "string \<Rightarrow> price option" where
  "price_parse text = Option.bind (parse_scaled_nonnegative price_scale 4 text) price_from_raw"

definition quantity_parse :: "string \<Rightarrow> quantity option" where
  "quantity_parse text = Option.bind (parse_scaled_nonnegative quantity_scale 2 text) quantity_from_raw"

definition cash_parse :: "string \<Rightarrow> cash option" where
  "cash_parse text = Option.bind (parse_scaled_nonnegative cash_scale 6 text) cash_from_raw"

definition delta_parse :: "string \<Rightarrow> quantity_delta option" where
  "delta_parse text =
     (if text = [] then None
      else
        let negative = hd text = CHR ''-'';
            magnitude_text = (if negative then tl text else text)
        in case parse_scaled_nonnegative quantity_scale 2 magnitude_text of
             None \<Rightarrow> None
           | Some magnitude \<Rightarrow> Some (delta_of (if negative then - magnitude else magnitude)))"

definition contract_settlement_value :: "quantity \<Rightarrow> cash option" where
  "contract_settlement_value q =
     (let multiplier = cash_scale div quantity_scale in
      if int64_max div multiplier < quantity_raw q then None
      else cash_from_raw (quantity_raw q * multiplier))"


subsection \<open>What the parser computes\<close>

definition digits_ok :: "string \<Rightarrow> bool" where
  "digits_ok cs \<longleftrightarrow> (\<forall>c \<in> set cs. is_digit c)"

definition decimal_num :: "string \<Rightarrow> int" where
  "decimal_num cs = foldl (\<lambda>n c. n * 10 + digit_value c) 0 cs"

text \<open>The accepted texts: digits, or digits, a point and at most \<open>D\<close> digits.\<close>

definition decimal_syntax :: "nat \<Rightarrow> string \<Rightarrow> string \<Rightarrow> string \<Rightarrow> bool" where
  "decimal_syntax D text ws fs \<longleftrightarrow>
     ws \<noteq> [] \<and> digits_ok ws \<and> digits_ok fs \<and> length fs \<le> D \<and>
     text = ws @ (if fs = [] then [] else CHR ''.'' # fs)"

definition decimal_value :: "int \<Rightarrow> nat \<Rightarrow> string \<Rightarrow> string \<Rightarrow> int" where
  "decimal_value scale D ws fs = decimal_num ws * scale + decimal_num fs * 10 ^ (D - length fs)"

lemma digits_ok_Cons [simp]: "digits_ok (c # cs) \<longleftrightarrow> is_digit c \<and> digits_ok cs"
  by (auto simp: digits_ok_def)

lemma digits_ok_Nil [simp]: "digits_ok []"
  by (simp add: digits_ok_def)

lemma digits_ok_append [simp]: "digits_ok (xs @ ys) \<longleftrightarrow> digits_ok xs \<and> digits_ok ys"
  by (auto simp: digits_ok_def)

lemma digit_value_bounds: "is_digit c \<Longrightarrow> 0 \<le> digit_value c \<and> digit_value c \<le> 9"
  by (simp add: is_digit_def digit_value_def)

lemma point_no_digit [simp]: "\<not> is_digit CHR ''.''"
  by (simp add: is_digit_def)

lemma digits_ok_no_point: "digits_ok cs \<Longrightarrow> CHR ''.'' \<notin> set cs"
  by (auto simp: digits_ok_def)

lemma decimal_fold_ge:
  "digits_ok cs \<Longrightarrow> 0 \<le> n \<Longrightarrow> n \<le> foldl (\<lambda>n c. n * 10 + digit_value c) n cs"
proof (induction cs arbitrary: n)
  case (Cons c cs)
  then have step: "0 \<le> n * 10 + digit_value c" "n \<le> n * 10 + digit_value c"
    using digit_value_bounds [of c] by simp_all
  have "n * 10 + digit_value c \<le> foldl (\<lambda>n c. n * 10 + digit_value c) (n * 10 + digit_value c) cs"
    using Cons.prems step(1) by (intro Cons.IH) auto
  with step(2) show ?case by simp
qed simp

lemma decimal_num_nonneg: "digits_ok cs \<Longrightarrow> 0 \<le> decimal_num cs"
  using decimal_fold_ge [of cs 0] by (simp add: decimal_num_def)

lemma parse_whole_eq:
  "0 \<le> n \<Longrightarrow> parse_whole n cs =
     (if digits_ok cs \<and> (cs = [] \<or> foldl (\<lambda>n c. n * 10 + digit_value c) n cs \<le> int64_max)
      then Some (foldl (\<lambda>n c. n * 10 + digit_value c) n cs) else None)"
proof (induction cs arbitrary: n)
  case (Cons c cs)
  show ?case
  proof (cases "is_digit c")
    case True
    note d = digit_value_bounds [OF True]
    have guard: "(int64_max - digit_value c) div 10 < n \<longleftrightarrow> int64_max < n * 10 + digit_value c"
      by (subst int_div_less_iff) auto
    have ge: "digits_ok cs \<Longrightarrow> n * 10 + digit_value c \<le>
        foldl (\<lambda>n c. n * 10 + digit_value c) (n * 10 + digit_value c) cs"
      using d Cons.prems by (intro decimal_fold_ge) auto
    show ?thesis
      using True d Cons.prems Cons.IH [of "n * 10 + digit_value c"] ge
      by (auto simp: guard)
  qed simp
qed simp

lemma parse_fraction_eq:
  "parse_fraction n cs =
     (if digits_ok cs then Some (foldl (\<lambda>n c. n * 10 + digit_value c) n cs) else None)"
  by (induction cs arbitrary: n) auto

lemma parse_scaled_integer:
  assumes "0 < scale" and "digits_ok ws" and "ws \<noteq> []"
  shows "parse_scaled_nonnegative scale D ws =
     (if decimal_num ws * scale \<le> int64_max then Some (decimal_num ws * scale) else None)"
proof -
  from assms have no_point: "\<forall>c \<in> set ws. c \<noteq> CHR ''.''"
    by (auto dest: digits_ok_no_point)
  have split: "takeWhile (\<lambda>c. c \<noteq> CHR ''.'') ws = ws" "dropWhile (\<lambda>c. c \<noteq> CHR ''.'') ws = []"
    using no_point by (auto simp: takeWhile_eq_all_conv)
  have big: "int64_max div scale < w \<longleftrightarrow> int64_max < w * scale" for w
    using assms(1) by (rule int_div_less_iff)
  have "int64_max < decimal_num ws \<Longrightarrow> int64_max < decimal_num ws * scale"
    using assms by (smt (verit) decimal_num_nonneg mult_le_cancel_left1 limits)
  then show ?thesis
    using assms by (auto simp: parse_scaled_nonnegative_def Let_def split parse_whole_eq big
        simp flip: decimal_num_def)
qed

lemma parse_scaled_fraction:
  assumes "0 < scale" and "digits_ok ws" and "ws \<noteq> []" and "digits_ok fs" and "fs \<noteq> []"
    and "length fs \<le> D"
  shows "parse_scaled_nonnegative scale D (ws @ CHR ''.'' # fs) =
     (if decimal_value scale D ws fs \<le> int64_max then Some (decimal_value scale D ws fs) else None)"
proof -
  have no_point: "CHR ''.'' \<notin> set ws" "CHR ''.'' \<notin> set fs"
    using assms by (auto dest: digits_ok_no_point)
  have split: "takeWhile (\<lambda>c. c \<noteq> CHR ''.'') (ws @ CHR ''.'' # fs) = ws"
      "dropWhile (\<lambda>c. c \<noteq> CHR ''.'') (ws @ CHR ''.'' # fs) = CHR ''.'' # fs"
    using no_point by (auto simp: takeWhile_append dropWhile_append)
  have big: "int64_max div scale < w \<longleftrightarrow> int64_max < w * scale" for w
    using assms(1) by (rule int_div_less_iff)
  have frac: "0 \<le> decimal_num fs * 10 ^ (D - length fs)"
    using decimal_num_nonneg [OF assms(4)] by simp
  have "int64_max < decimal_num ws \<Longrightarrow> int64_max < decimal_num ws * scale"
    using assms by (smt (verit) decimal_num_nonneg mult_le_cancel_left1 limits)
  then show ?thesis
    using assms no_point frac
    by (auto simp: parse_scaled_nonnegative_def Let_def split parse_whole_eq parse_fraction_eq big
        decimal_value_def simp flip: decimal_num_def)
qed

lemma parse_scaled_accepts:
  assumes "parse_scaled_nonnegative scale D text = Some r"
  shows "\<exists>ws fs. decimal_syntax D text ws fs"
proof -
  define ws where "ws = takeWhile (\<lambda>c. c \<noteq> CHR ''.'') text"
  define rest where "rest = dropWhile (\<lambda>c. c \<noteq> CHR ''.'') text"
  have parts: "text = ws @ rest" by (simp add: ws_def rest_def)
  have point: "rest = [] \<or> hd rest = CHR ''.''"
    using hd_dropWhile [of "\<lambda>c. c \<noteq> CHR ''.''" "text"] by (auto simp: rest_def)
  note unfolded = assms [unfolded parse_scaled_nonnegative_def Let_def, folded ws_def rest_def]
  have "ws \<noteq> []"
    using unfolded by (auto cong: if_cong)
  moreover have "parse_whole 0 ws \<noteq> None"
    using unfolded by (cases "parse_whole 0 ws") (auto cong: if_cong)
  ultimately have ws: "ws \<noteq> []" "digits_ok ws"
    by (auto simp: parse_whole_eq split: if_splits)
  show ?thesis
  proof (cases rest)
    case Nil
    with ws parts have "decimal_syntax D text ws []" by (simp add: decimal_syntax_def)
    then show ?thesis by blast
  next
    case (Cons c fs)
    then have "\<not> (fs = [] \<or> D < length fs) \<and> parse_fraction 0 fs \<noteq> None"
      using unfolded
      by (cases "parse_whole 0 ws"; cases "fs = [] \<or> D < length fs"; cases "parse_fraction 0 fs")
        (auto split: if_splits)
    with Cons ws parts point have "decimal_syntax D text ws fs"
      by (auto simp: decimal_syntax_def parse_fraction_eq split: if_splits)
    then show ?thesis by blast
  qed
qed

lemma decimal_syntax_parse:
  assumes "0 < scale" and "decimal_syntax D text ws fs"
  shows "parse_scaled_nonnegative scale D text =
     (if decimal_value scale D ws fs \<le> int64_max then Some (decimal_value scale D ws fs) else None)"
proof (cases "fs = []")
  case True
  have "decimal_value scale D ws [] = decimal_num ws * scale"
    by (simp add: decimal_value_def decimal_num_def)
  with True assms parse_scaled_integer [of scale ws D] show ?thesis
    by (simp add: decimal_syntax_def)
next
  case False
  with assms parse_scaled_fraction [of scale ws fs D] show ?thesis
    by (simp add: decimal_syntax_def)
qed

lemma parse_scaled_iff:
  assumes "0 < scale"
  shows "parse_scaled_nonnegative scale D text = Some r \<longleftrightarrow>
    (\<exists>ws fs. decimal_syntax D text ws fs \<and> r = decimal_value scale D ws fs \<and> r \<le> int64_max)"
proof
  assume r: "parse_scaled_nonnegative scale D text = Some r"
  then obtain ws fs where "decimal_syntax D text ws fs" using parse_scaled_accepts by blast
  with r decimal_syntax_parse [OF assms this] show
    "\<exists>ws fs. decimal_syntax D text ws fs \<and> r = decimal_value scale D ws fs \<and> r \<le> int64_max"
    by (auto split: if_splits)
next
  assume "\<exists>ws fs. decimal_syntax D text ws fs \<and> r = decimal_value scale D ws fs \<and> r \<le> int64_max"
  then show "parse_scaled_nonnegative scale D text = Some r"
    using decimal_syntax_parse [OF assms] by auto
qed


subsection \<open>Rendering, and the round trip\<close>

text \<open>The canonical text of a raw value: the whole part without leading zeros, and all digits.\<close>

definition digit_char :: "nat \<Rightarrow> char" where
  "digit_char n = char_of (48 + n)"

fun render_nat :: "nat \<Rightarrow> string" where
  "render_nat n = (if n < 10 then [digit_char n] else render_nat (n div 10) @ [digit_char (n mod 10)])"

declare render_nat.simps [simp del]

fun render_fixed :: "nat \<Rightarrow> nat \<Rightarrow> string" where
  "render_fixed 0 n = []"
| "render_fixed (Suc k) n = render_fixed k (n div 10) @ [digit_char (n mod 10)]"

definition render_scaled :: "nat \<Rightarrow> int \<Rightarrow> string" where
  "render_scaled D r =
     render_nat (nat r div 10 ^ D) @ CHR ''.'' # render_fixed D (nat r mod 10 ^ D)"

lemma of_char_digit_char: "n < 10 \<Longrightarrow> (of_char (digit_char n) :: int) = 48 + int n"
proof -
  assume "n < 10"
  then have "(48 + n) mod 256 = 48 + n" by simp
  then have "(of_char (digit_char n) :: nat) = 48 + n" by (simp add: digit_char_def)
  then show ?thesis by (metis of_nat_add of_nat_numeral of_nat_of_char)
qed

lemma digit_char_ok [simp]: "n < 10 \<Longrightarrow> is_digit (digit_char n) \<and> digit_value (digit_char n) = int n"
  by (simp add: is_digit_def digit_value_def of_char_digit_char)

lemma decimal_num_snoc [simp]: "decimal_num (cs @ [c]) = decimal_num cs * 10 + digit_value c"
  by (simp add: decimal_num_def)

lemma int_div_mod_10: "int (n div 10) * 10 + int (n mod 10) = int n"
  by presburger

lemma render_nat_ok: "render_nat n \<noteq> [] \<and> digits_ok (render_nat n) \<and> decimal_num (render_nat n) = int n"
proof (induction n rule: render_nat.induct)
  case (1 n)
  show ?case
  proof (cases "n < 10")
    case True
    then show ?thesis by (simp add: render_nat.simps [of n] decimal_num_def)
  next
    case False
    with 1 show ?thesis by (simp add: render_nat.simps [of n] int_div_mod_10)
  qed
qed

lemma render_fixed_ok:
  "n < 10 ^ k \<Longrightarrow> length (render_fixed k n) = k \<and> digits_ok (render_fixed k n) \<and>
     decimal_num (render_fixed k n) = int n"
proof (induction k arbitrary: n)
  case 0
  then show ?case by (simp add: decimal_num_def)
next
  case (Suc k)
  then have "n div 10 < 10 ^ k" by simp
  with Suc.IH [of "n div 10"] show ?case by (simp add: int_div_mod_10)
qed

lemma render_scaled_parse:
  assumes "0 < D" and "0 \<le> r" and "r \<le> int64_max"
  shows "parse_scaled_nonnegative (10 ^ D) D (render_scaled D r) = Some r"
proof -
  let ?ws = "render_nat (nat r div 10 ^ D)" and ?fs = "render_fixed D (nat r mod 10 ^ D)"
  have lt: "nat r mod 10 ^ D < 10 ^ D" by simp
  note ws = render_nat_ok [of "nat r div 10 ^ D"] and fs = render_fixed_ok [OF lt]
  have "?fs \<noteq> []" using fs assms(1) by (metis length_greater_0_conv)
  then have "decimal_syntax D (render_scaled D r) ?ws ?fs"
    using ws fs by (simp add: decimal_syntax_def render_scaled_def)
  moreover have "decimal_value (10 ^ D) D ?ws ?fs = int (nat r div 10 ^ D * 10 ^ D + nat r mod 10 ^ D)"
    using ws fs by (simp add: decimal_value_def del: div_mult_mod_eq)
  then have "decimal_value (10 ^ D) D ?ws ?fs = r"
    using assms(2) by (simp only: div_mult_mod_eq nat_0_le)
  ultimately show ?thesis using assms(3) by (simp add: decimal_syntax_parse)
qed


subsection \<open>The classes' parsers\<close>

lemma raw_le_int64_max [simp]: "price_raw p \<le> int64_max" "quantity_raw q \<le> int64_max" "cash_raw c \<le> int64_max"
  by (simp_all add: int64_max_def order_trans [OF price_raw_bounds(2)])

text \<open>
  The price parser accepts exactly the unsigned decimals with at least one digit
  before the point and one to four after it, if any, whose value is at most one dollar; and
  it returns that value in units of a hundredth of a cent, with no rounding.
\<close>

theorem price_parse_exact:
  "price_parse input = Some p \<longleftrightarrow>
     (\<exists>ws fs. decimal_syntax 4 input ws fs \<and> price_raw p = decimal_value 10000 4 ws fs)"
proof -
  have "price_parse input = Some p \<longleftrightarrow>
      parse_scaled_nonnegative 10000 4 input = Some (price_raw p)"
    by (auto simp: price_parse_def price_from_raw_def price_scale_def split: bind_splits if_splits)
  also have "\<dots> \<longleftrightarrow> (\<exists>ws fs. decimal_syntax 4 input ws fs \<and> price_raw p = decimal_value 10000 4 ws fs)"
    by (subst parse_scaled_iff) auto
  finally show ?thesis .
qed

lemma quantity_parse_exact:
  "quantity_parse input = Some q \<longleftrightarrow>
     (\<exists>ws fs. decimal_syntax 2 input ws fs \<and> quantity_raw q = decimal_value 100 2 ws fs)"
proof -
  have "parse_scaled_nonnegative 100 2 input = Some r \<Longrightarrow> 0 \<le> r \<and> r \<le> int64_max" for r
    by (auto simp: parse_scaled_iff decimal_value_def decimal_syntax_def decimal_num_nonneg)
  then have "quantity_parse input = Some q \<longleftrightarrow>
      parse_scaled_nonnegative 100 2 input = Some (quantity_raw q)"
    by (auto simp: quantity_parse_def quantity_from_raw_def quantity_scale_def limits
        split: bind_splits if_splits)
  also have "\<dots> \<longleftrightarrow> (\<exists>ws fs. decimal_syntax 2 input ws fs \<and> quantity_raw q = decimal_value 100 2 ws fs)"
    by (subst parse_scaled_iff) auto
  finally show ?thesis .
qed

text \<open>
  Rendering then parsing is the identity for each of the classes, so every price,
  quantity and cash amount has a text, and none is altered by a trip through it.
\<close>

theorem decimal_roundtrip:
  "price_parse (render_scaled 4 (price_raw p)) = Some p \<and>
   quantity_parse (render_scaled 2 (quantity_raw q)) = Some q \<and>
   cash_parse (render_scaled 6 (cash_raw c)) = Some c \<and>
   delta_parse (render_scaled 2 (quantity_raw q)) = Some (delta_of (quantity_raw q)) \<and>
   delta_parse (CHR ''-'' # render_scaled 2 (quantity_raw q)) = Some (delta_of (- quantity_raw q))"
proof -
  have ten: "(10000 :: int) = 10 ^ 4" "(100 :: int) = 10 ^ 2" "(1000000 :: int) = 10 ^ 6" by simp_all
  have price: "parse_scaled_nonnegative 10000 4 (render_scaled 4 (price_raw p)) = Some (price_raw p)"
    unfolding ten(1) by (rule render_scaled_parse) simp_all
  have quantity:
    "parse_scaled_nonnegative 100 2 (render_scaled 2 (quantity_raw q)) = Some (quantity_raw q)"
    unfolding ten(2) by (rule render_scaled_parse) simp_all
  have cash: "parse_scaled_nonnegative 1000000 6 (render_scaled 6 (cash_raw c)) = Some (cash_raw c)"
    unfolding ten(3) by (rule render_scaled_parse) simp_all
  have "hd (render_nat n) \<noteq> CHR ''-''" for n
    using render_nat_ok [of n] by (cases "render_nat n") (auto simp: is_digit_def)
  then have head: "hd (render_scaled 2 (quantity_raw q)) \<noteq> CHR ''-''"
    using render_nat_ok by (simp add: render_scaled_def)
  have "render_scaled 2 (quantity_raw q) \<noteq> []" by (simp add: render_scaled_def)
  with price quantity cash head show ?thesis
    by (simp add: price_parse_def quantity_parse_def cash_parse_def delta_parse_def
        price_scale_def quantity_scale_def cash_scale_def
        price_from_raw_def quantity_from_raw_def cash_from_raw_def not_less)
qed

text \<open>
  The settlement value of a winning position is a dollar a contract, exactly: ten thousand
  microdollars for each hundredth of a contract, refused when the product is above the
  64-bit maximum.
\<close>

lemma contract_settlement_value_eq:
  "contract_settlement_value q =
     (if quantity_raw q * 10000 \<le> int64_max then Some (cash_of (quantity_raw q * 10000)) else None)"
  by (auto simp: contract_settlement_value_def cash_from_raw_def limits int_div_less_iff not_less)

lemma contract_settlement_value_Some:
  "contract_settlement_value q = Some c \<longleftrightarrow> cash_raw c = quantity_raw q * 10000"
  using cash_raw_bounds(2) [of c]
  by (auto simp: contract_settlement_value_eq limits simp flip: cash_raw_inject
      simp del: cash_raw_bounds split: if_splits)

end
