(* ===== verification/Execution_Cost.thy ===== *)
theory Execution_Cost
  imports Fixed_Point
begin

text \<open>
  Fees and account rounding of a single simulated fill, after
  \<open>include/eme/core/execution_cost.hpp\<close> and \<open>src/core/execution_cost.cpp\<close>. The arithmetic
  is that of the code, on 64-bit words with every guard; \<open>fill_spec\<close> is the same fill on
  natural numbers, and \<open>fill_amounts_spec\<close> shows that the words compute exactly it. The
  last section states what the sizing routines rely on as a locale, interpreted here.
\<close>

subsection \<open>Data\<close>

record fee_policy =
  coefficient_ppm :: u32
  balance_quantum_micro :: u32

text \<open>A \<open>FeeAccumulator\<close> has the one field \<open>rounding_micro\<close>.\<close>

record fee_accumulator =
  rounding_micro :: u64

record fill_amounts =
  fa_notional :: cash
  fa_trade_fee :: cash
  fa_rounding_fee :: cash
  fa_rebate :: cash
  fa_change :: cash

record fill_charge =
  fc_notional :: cash
  fc_trade_fee :: cash
  fc_rounding_fee :: cash
  fc_rebate :: cash
  fc_debit :: cash

record fill_credit =
  fr_notional :: cash
  fr_trade_fee :: cash
  fr_rounding_fee :: cash
  fr_rebate :: cash
  fr_credit :: cash

definition maximum :: u64 where
  "maximum = 9223372036854775807"

definition fee_denominator :: u64 where
  "fee_denominator = 10000000000"


subsection \<open>The product divided by the denominator, rounded up\<close>

text \<open>
  The loop \<open>for (int bit = 63; bit >= 0; --bit)\<close>: the first argument is the number of bits
  left, so the body works on bit \<open>k\<close> when \<open>Suc k\<close> are left.
\<close>

fun ceil_product_bits :: "nat \<Rightarrow> u64 \<Rightarrow> u64 \<Rightarrow> u64 \<Rightarrow> u64 \<Rightarrow> (u64 \<times> u64) option" where
  "ceil_product_bits 0 a b quot rmd = Some (quot, rmd)"
| "ceil_product_bits (Suc k) a b quot rmd =
     (if maximum div 2 < quot then None
      else
        let quot = quot * 2;
            rmd = rmd * 2
        in case
             (if drop_bit k b AND 1 \<noteq> 0 then
                let add = a div fee_denominator in
                if maximum - add < quot then None
                else Some (quot + add, rmd + a mod fee_denominator)
              else Some (quot, rmd))
           of None \<Rightarrow> None
           | Some (quot, rmd) \<Rightarrow>
               let carry = rmd div fee_denominator in
               if maximum - carry < quot then None
               else ceil_product_bits k a b (quot + carry) (rmd mod fee_denominator))"

definition ceil_product :: "u64 \<Rightarrow> u64 \<Rightarrow> u64 option" where
  "ceil_product a b =
     (if b = 0 then Some 0
      else if a \<le> uint64_max div b then
        let product = a * b;
            result = product div fee_denominator + (if product mod fee_denominator \<noteq> 0 then 1 else 0)
        in if result \<le> maximum then Some result else None
      else
        case ceil_product_bits 64 a b 0 0 of None \<Rightarrow> None
        | Some (quot, rmd) \<Rightarrow>
            if rmd \<noteq> 0 then (if quot = maximum then None else Some (quot + 1))
            else Some quot)"


subsection \<open>One fill\<close>

text \<open>
  The local lambda \<open>cash\<close> of \<open>fill_amounts\<close>: the dereferenced result of \<open>Cash::from_raw\<close>.
  \<open>the None\<close> would be the undefined behaviour of dereferencing an empty optional;
  \<open>fill_amounts_spec\<close> shows that it does not arise.
\<close>

definition cash_of_word :: "u64 \<Rightarrow> cash" where
  "cash_of_word raw = the (cash_from_raw (sint raw))"

definition fill_amounts ::
    "bool \<Rightarrow> quantity \<Rightarrow> price \<Rightarrow> fee_policy \<Rightarrow> fee_accumulator
      \<Rightarrow> (fill_amounts \<times> fee_accumulator) option" where
  "fill_amounts buy qty price policy accumulator =
     (let quantum = ucast (balance_quantum_micro policy) :: u64 in
      if (quantum \<noteq> 100 \<and> quantum \<noteq> 10000) \<or> 1000000 < coefficient_ppm policy \<or> quantity_raw qty = 0
      then None
      else
        let q = word_of_int (quantity_raw qty) :: u64;
            p = word_of_int (price_raw price) :: u64
        in if p \<noteq> 0 \<and> maximum div p < q then None
        else
          let notional = q * p in
          case ceil_product q (ucast (coefficient_ppm policy) * p * (10000 - p)) of
            None \<Rightarrow> None
          | Some fee \<Rightarrow>
              if (if buy then maximum - fee < notional else notional < fee) then None
              else
                let total = (if buy then notional + fee else notional - fee);
                    rounding = (if buy then (quantum - total mod quantum) mod quantum
                                else total mod quantum)
                in if (buy \<and> maximum - rounding < total) \<or>
                      uint64_max - rounding < rounding_micro accumulator
                then None
                else
                  let accumulated = rounding_micro accumulator + rounding;
                      rebate = min (accumulated div quantum) ((fee + rounding) div quantum) * quantum
                  in Some
                    (\<lparr>fa_notional = cash_of_word notional, fa_trade_fee = cash_of_word fee,
                      fa_rounding_fee = cash_of_word rounding, fa_rebate = cash_of_word rebate,
                      fa_change = cash_of_word (if buy then total + rounding - rebate
                                                else total - rounding + rebate)\<rparr>,
                     accumulator\<lparr>rounding_micro := accumulated - rebate\<rparr>))"

definition charge_buy_fill ::
    "quantity \<Rightarrow> price \<Rightarrow> fee_policy \<Rightarrow> fee_accumulator \<Rightarrow> (fill_charge \<times> fee_accumulator) option" where
  "charge_buy_fill qty price policy accumulator =
     map_option (\<lambda>(fill, acc).
       (\<lparr>fc_notional = fa_notional fill, fc_trade_fee = fa_trade_fee fill,
         fc_rounding_fee = fa_rounding_fee fill, fc_rebate = fa_rebate fill,
         fc_debit = fa_change fill\<rparr>, acc))
     (fill_amounts True qty price policy accumulator)"

definition credit_sell_fill ::
    "quantity \<Rightarrow> price \<Rightarrow> fee_policy \<Rightarrow> fee_accumulator \<Rightarrow> (fill_credit \<times> fee_accumulator) option" where
  "credit_sell_fill qty price policy accumulator =
     map_option (\<lambda>(fill, acc).
       (\<lparr>fr_notional = fa_notional fill, fr_trade_fee = fa_trade_fee fill,
         fr_rounding_fee = fa_rounding_fee fill, fr_rebate = fa_rebate fill,
         fr_credit = fa_change fill\<rparr>, acc))
     (fill_amounts False qty price policy accumulator)"


subsection \<open>Words without overflow\<close>

lemma unat_add_exact: "unat x + unat y < 18446744073709551616 \<Longrightarrow> unat (x + y :: u64) = unat x + unat y"
  using unat_add_lem [of x y] by simp

lemma unat_mult_exact: "unat x * unat y < 18446744073709551616 \<Longrightarrow> unat (x * y :: u64) = unat x * unat y"
  using unat_mult_lem [of x y] by simp

lemma unat_sub_exact: "unat y \<le> unat x \<Longrightarrow> unat (x - y :: u64) = unat x - unat y"
  by (simp add: unat_sub_if')

lemma unat_maximum [simp]: "unat maximum = 9223372036854775807"
  by (simp add: maximum_def)

lemma unat_fee_denominator [simp]: "unat fee_denominator = 10000000000"
  by (simp add: fee_denominator_def)

lemmas unat_word = word_le_nat_alt word_less_nat_alt unat_div unat_mod

text \<open>The bit that the loop tests, and how the bits build up the factor.\<close>

lemma bit_split: "(B :: nat) mod 2 ^ Suc k = (B div 2 ^ k mod 2) * 2 ^ k + B mod 2 ^ k"
  using mod_mult2_eq [of B "2 ^ k" 2] by (simp only: power_Suc2 mult.commute [of "B div 2 ^ k mod 2"])

lemma drop_bit_and_1: "drop_bit k (b :: u64) AND 1 \<noteq> 0 \<longleftrightarrow> unat b div 2 ^ k mod 2 = 1"
proof -
  have "drop_bit k b AND 1 = of_bool (odd (drop_bit k b))"
    by (simp add: and_one_eq mod_2_eq_odd)
  moreover have "odd (drop_bit k b) \<longleftrightarrow> odd (unat b div 2 ^ k)"
  proof -
    have "odd (unat w) \<longleftrightarrow> odd w" for w :: u64
      using bit_unsigned_iff [where w = w and n = 0 and ?'a = nat] by (simp add: bit_0)
    then have "odd (drop_bit k b) \<longleftrightarrow> odd (unat (drop_bit k b))" by simp
    then show ?thesis by (simp only: unat_drop_bit_eq drop_bit_eq_div [of k "unat b"])
  qed
  ultimately show ?thesis by (simp add: odd_iff_mod_2_eq_one)
qed



subsection \<open>The product is exact\<close>

text \<open>
  One iteration on natural numbers: from a value \<open>V\<close> to \<open>2 * V\<close>, plus the factor when the
  bit is set. The loop keeps \<open>quot * denominator + rmd\<close> equal to that value.
\<close>

lemma ceil_product_bits_spec:
  fixes a b q r :: u64
  assumes "unat q \<le> 9223372036854775807" and "unat r < 10000000000"
  shows "ceil_product_bits k a b q r =
    (let N = (unat q * 10000000000 + unat r) * 2 ^ k + unat a * (unat b mod 2 ^ k)
     in if N div 10000000000 \<le> 9223372036854775807
        then Some (of_nat (N div 10000000000), of_nat (N mod 10000000000)) else None)"
  using assms
proof (induction k arbitrary: q r)
  case 0
  then show ?case by (simp add: Let_def)
next
  case (Suc k)
  define A where "A = unat a"
  define bt where "bt = unat b div 2 ^ k mod 2"
  define N where "N = (unat q * 10000000000 + unat r) * 2 ^ Suc k + A * (unat b mod 2 ^ Suc k)"
  define V where "V = 2 * (unat q * 10000000000 + unat r) + A * bt"
  have bt: "bt = 0 \<or> bt = 1" by (auto simp: bt_def)
  have A: "A < 18446744073709551616" using unat_u64_bound [of a] by (simp add: A_def)
  have N: "N = V * 2 ^ k + A * (unat b mod 2 ^ k)"
    unfolding N_def V_def bit_split [of "unat b" k] bt_def by (simp add: algebra_simps)
  define res where "res = (if N div 10000000000 \<le> 9223372036854775807
      then Some (of_nat (N div 10000000000) :: u64, of_nat (N mod 10000000000) :: u64) else None)"
  have "V * 1 \<le> V * 2 ^ k" by (rule mult_le_mono2) simp
  then have "V \<le> N" unfolding N by linarith
  then have big: "9223372036854775807 < V div 10000000000 \<Longrightarrow> res = None"
    using div_le_mono [of V N 10000000000] unfolding res_def by simp
  have tail: "(let carry = rw div fee_denominator in
       if maximum - carry < qw then None
       else ceil_product_bits k a b (qw + carry) (rw mod fee_denominator)) = res"
    if qw: "unat qw \<le> 9223372036854775807" and rw: "unat rw < 30000000000"
      and V': "V = unat qw * 10000000000 + unat rw" for qw rw
  proof -
    define c where "c = rw div fee_denominator"
    have c: "unat c = unat rw div 10000000000" "unat c \<le> 3"
      using rw by (simp_all add: c_def unat_div)
    have quotV: "V div 10000000000 = unat qw + unat c" using V' c by simp
    have guard: "maximum - c < qw \<longleftrightarrow> 9223372036854775807 < unat qw + unat c"
      using c by (auto simp: unat_word unat_sub_exact)
    show ?thesis
    proof (cases "maximum - c < qw")
      case True
      with guard quotV big show ?thesis by (simp add: Let_def flip: c_def)
    next
      case False
      have sum: "unat (qw + c) = unat qw + unat c" using qw c by (intro unat_add_exact) linarith
      have md: "unat (rw mod fee_denominator) = unat rw mod 10000000000" by (simp add: unat_mod)
      have "unat (qw + c) * 10000000000 + unat (rw mod fee_denominator) = V"
        unfolding sum md c(1) V' by (simp add: algebra_simps)
      with Suc.IH [of "qw + c" "rw mod fee_denominator"] False guard sum md
      show ?thesis by (simp add: Let_def res_def N A_def flip: c_def)
    qed
  qed
  have "ceil_product_bits (Suc k) a b q r = res"
  proof (cases "maximum div 2 < q")
    case True
    then have "4611686018427387903 < unat q" by (simp add: unat_word)
    then have "9223372036854775807 < V div 10000000000" by (simp add: V_def)
    with True big show ?thesis by simp
  next
    case False
    then have q: "unat q \<le> 4611686018427387903" by (simp add: unat_word)
    have q2: "unat (q * 2) = 2 * unat q" and r2: "unat (r * 2) = 2 * unat r"
      using q Suc.prems by (simp_all add: unat_mult_exact)
    show ?thesis
    proof (cases "bt = 1")
      case True
      define w where "w = a div fee_denominator"
      have w: "unat w = A div 10000000000" "unat w \<le> 1844674407"
        using A by (simp_all add: w_def unat_div A_def)
      have am: "unat (a mod fee_denominator) = A mod 10000000000" by (simp add: unat_mod A_def)
      have guard: "maximum - w < q * 2 \<longleftrightarrow> 9223372036854775807 < 2 * unat q + unat w"
        using w q2 by (auto simp: unat_word unat_sub_exact)
      have V1: "V = (2 * unat q + unat w) * 10000000000 + (2 * unat r + A mod 10000000000)"
        using True w by (simp add: V_def algebra_simps)
      show ?thesis
      proof (cases "maximum - w < q * 2")
        case over: True
        have "2 * unat q + unat w \<le> V div 10000000000" unfolding V1 by simp
        with over guard have "res = None" by (intro big) linarith
        with over False True show ?thesis
          by (simp add: Let_def drop_bit_and_1 bt_def flip: w_def)
      next
        case ok: False
        have sq: "unat (q * 2 + w) = 2 * unat q + unat w"
          using ok guard q2 by (subst unat_add_exact) simp_all
        have sr: "unat (r * 2 + a mod fee_denominator) = 2 * unat r + A mod 10000000000"
          using Suc.prems(2) r2 am by (subst unat_add_exact) simp_all
        have "2 * unat r + A mod 10000000000 < 30000000000"
          using Suc.prems(2) mod_less_divisor [of 10000000000 A] by linarith
        with tail [of "q * 2 + w" "r * 2 + a mod fee_denominator"] sq sr ok guard V1
        show ?thesis using False True
          by (simp add: Let_def drop_bit_and_1 bt_def flip: w_def)
      qed
    next
      case clear: False
      with tail [of "q * 2" "r * 2"] q q2 r2 Suc.prems bt False show ?thesis
        by (simp add: Let_def drop_bit_and_1 bt_def [symmetric] V_def)
    qed
  qed
  then show ?case by (simp add: res_def N_def A_def Let_def)
qed


lemma ceil_product_eq:
  "ceil_product a b =
     (let exact = ceil_div (unat a * unat b) 10000000000
      in if exact \<le> 9223372036854775807 then Some (of_nat exact) else None)"
proof (cases "b = 0")
  case True
  then show ?thesis by (simp add: ceil_product_def)
next
  case b: False
  define N where "N = unat a * unat b"
  have exact: "ceil_div N 10000000000 =
      N div 10000000000 + (if N mod 10000000000 = 0 then 0 else 1)"
    by (simp add: ceil_div_def)
  show ?thesis
  proof (cases "a \<le> uint64_max div b")
    case True
    have "0 < unat b" using b by (simp add: unat_gt_0)
    with True have "N \<le> 18446744073709551615"
      by (simp add: unat_word nat_le_div_iff N_def limits)
    then have N: "unat (a * b) = N" by (simp add: N_def unat_mult_exact)
    have small: "N div 10000000000 \<le> 1844674407"
      using \<open>N \<le> 18446744073709551615\<close> by linarith
    define result where
      "result = a * b div fee_denominator + (if a * b mod fee_denominator \<noteq> 0 then 1 else 0)"
    have "a * b mod fee_denominator \<noteq> 0 \<longleftrightarrow> N mod 10000000000 \<noteq> 0"
      using unat_0_iff [of "a * b mod fee_denominator"] by (simp add: unat_mod N)
    then have result: "unat result = ceil_div N 10000000000"
      using small unfolding result_def exact by (subst unat_add_exact) (simp_all add: unat_div N)
    then have "of_nat (ceil_div N 10000000000) = result"
      by (simp flip: result)
    moreover have "result \<le> maximum \<longleftrightarrow> ceil_div N 10000000000 \<le> 9223372036854775807"
      by (simp add: unat_word result)
    ultimately show ?thesis
      using b True by (simp add: ceil_product_def Let_def flip: N_def result_def)
  next
    case False
    have bits: "ceil_product_bits 64 a b 0 0 =
        (if N div 10000000000 \<le> 9223372036854775807
         then Some (of_nat (N div 10000000000), of_nat (N mod 10000000000)) else None)"
      using unat_u64_bound [of b] by (subst ceil_product_bits_spec) (simp_all add: N_def Let_def)
    have rm: "(of_nat (N mod 10000000000) :: u64) \<noteq> 0 \<longleftrightarrow> N mod 10000000000 \<noteq> 0"
    proof (cases "N mod 10000000000 = 0")
      case False
      then have "\<not> 18446744073709551616 dvd N mod 10000000000"
        using mod_less_divisor [of 10000000000 N] by (auto dest!: dvd_imp_le)
      with False show ?thesis by (simp add: word_of_nat_eq_0_iff)
    qed simp
    have qm: "(of_nat (N div 10000000000) :: u64) = maximum \<longleftrightarrow> N div 10000000000 = 9223372036854775807"
      if "N div 10000000000 \<le> 9223372036854775807"
      using that by (auto simp: maximum_def dest: arg_cong [where f = unat] simp: unat_of_nat)
    show ?thesis
      using b False rm qm
      by (auto simp: ceil_product_def bits exact Let_def simp flip: N_def)
  qed
qed


text \<open>
  The checked multiplication and division is exact at every input: it is the
  product divided by ten thousand million, rounded up, whenever that fits the signed 64-bit range,
  and refused otherwise. The fast path and the bit loop agree; neither wraps around.
\<close>

theorem ceil_product_exact:
  "ceil_product a b =
     (let exact = ceil_div (unat a * unat b) 10000000000
      in if exact \<le> 9223372036854775807 then Some (of_nat exact) else None)"
  by (rule ceil_product_eq)


subsection \<open>The fill on natural numbers\<close>

text \<open>What a fill amounts to, in microdollars: the fields of the result and the new accumulator.\<close>

record fill_nat =
  fn_notional :: nat
  fn_fee :: nat
  fn_rounding :: nat
  fn_rebate :: nat
  fn_change :: nat
  fn_rounding_acc :: nat

definition fill_total :: "bool \<Rightarrow> nat \<Rightarrow> nat \<Rightarrow> nat" where
  "fill_total buy n f = (if buy then n + f else n - f)"

definition fill_rounding :: "bool \<Rightarrow> nat \<Rightarrow> nat \<Rightarrow> nat" where
  "fill_rounding buy u t = (if buy then (u - t mod u) mod u else t mod u)"

definition trade_fee :: "nat \<Rightarrow> nat \<Rightarrow> nat \<Rightarrow> nat" where
  "trade_fee coefficient q p = ceil_div (q * (coefficient * p * (10000 - p))) 10000000000"

definition fill_spec :: "bool \<Rightarrow> nat \<Rightarrow> nat \<Rightarrow> nat \<Rightarrow> nat \<Rightarrow> nat \<Rightarrow> fill_nat" where
  "fill_spec buy q p coefficient u acc =
     (let n = q * p; f = trade_fee coefficient q p; t = fill_total buy n f;
          r = fill_rounding buy u t; b = min ((acc + r) div u) ((f + r) div u) * u
      in \<lparr>fn_notional = n, fn_fee = f, fn_rounding = r, fn_rebate = b,
          fn_change = (if buy then t + r - b else t - r + b), fn_rounding_acc = acc + r - b\<rparr>)"

text \<open>When the code accepts the fill: the amounts and the accumulator fit their types.\<close>

definition fill_fits :: "bool \<Rightarrow> nat \<Rightarrow> nat \<Rightarrow> nat \<Rightarrow> nat \<Rightarrow> nat \<Rightarrow> bool" where
  "fill_fits buy q p coefficient u acc \<longleftrightarrow>
     (let n = q * p; f = trade_fee coefficient q p; t = fill_total buy n f;
          r = fill_rounding buy u t
      in n \<le> 9223372036854775807 \<and> (buy \<longrightarrow> t + r \<le> 9223372036854775807) \<and>
         acc + r \<le> 18446744073709551615)"

definition policy_ok :: "fee_policy \<Rightarrow> bool" where
  "policy_ok policy \<longleftrightarrow>
     balance_quantum_micro policy \<in> {100, 10000} \<and> coefficient_ppm policy \<le> 1000000"

abbreviation coeff_nat :: "fee_policy \<Rightarrow> nat" where
  "coeff_nat policy \<equiv> unat (coefficient_ppm policy)"

abbreviation quantum_nat :: "fee_policy \<Rightarrow> nat" where
  "quantum_nat policy \<equiv> unat (balance_quantum_micro policy)"

abbreviation acc_nat :: "fee_accumulator \<Rightarrow> nat" where
  "acc_nat acc \<equiv> unat (rounding_micro acc)"

lemma fill_rounding_less: "0 < u \<Longrightarrow> fill_rounding buy u t < u"
  by (simp add: fill_rounding_def)

lemma fill_rounding_buy_dvd: "0 < u \<Longrightarrow> u dvd t + fill_rounding True u t"
proof -
  assume u: "0 < u"
  have "t = t div u * u + t mod u" by simp
  then have eq: "t + (u - t mod u) = t div u * u + u"
    using mod_less_divisor [OF u, of t] by linarith
  have "(t + (u - t mod u) mod u) mod u = (t + (u - t mod u)) mod u" by (rule mod_add_right_eq)
  also have "\<dots> = 0" unfolding eq by simp
  finally show ?thesis by (simp add: fill_rounding_def mod_eq_0_iff_dvd)
qed

lemma fill_rounding_sell_dvd: "u dvd t - fill_rounding False u t"
  by (simp add: fill_rounding_def minus_mod_eq_mult_div)

text \<open>A coefficient of at most one: the fee of a fill is at most its notional.\<close>

lemma trade_fee_le:
  assumes "coefficient \<le> 1000000" and "p \<le> 10000"
  shows "trade_fee coefficient q p \<le> q * p"
proof -
  have "coefficient * p * (10000 - p) \<le> 1000000 * p * 10000"
    using assms by (intro mult_le_mono) simp_all
  then have "q * (coefficient * p * (10000 - p)) \<le> q * (1000000 * p * 10000)"
    by (rule mult_le_mono2)
  also have "\<dots> = q * p * 10000000000" by simp
  finally show ?thesis unfolding trade_fee_def by (subst ceil_div_least) simp_all
qed

lemma trade_fee_mono: "q \<le> q' \<Longrightarrow> trade_fee coefficient q p \<le> trade_fee coefficient q' p"
  unfolding trade_fee_def by (intro ceil_div_mono mult_le_mono1)


subsection \<open>The words compute the fill\<close>

lemma sint_small: "unat (w :: u64) \<le> 9223372036854775807 \<Longrightarrow> sint w = int (unat w)"
proof -
  assume "unat w \<le> 9223372036854775807"
  then have "uint w < 9223372036854775808" by (simp only: uint_nat of_nat_less_numeral_iff)
  then have "signed_take_bit 63 (uint w) = uint w"
    using unsigned_greater_eq [of w, where ?'a = int]
    by (intro signed_take_bit_int_eq_self) (simp_all add: order_trans [of _ 0])
  then show ?thesis by (simp only: sint_uint uint_nat) simp
qed

lemma cash_of_word_small: "unat w \<le> 9223372036854775807 \<Longrightarrow> cash_of_word w = cash_of (int (unat w))"
  by (simp add: cash_of_word_def sint_small cash_from_raw_def)

lemma unat_word_of_int: "0 \<le> i \<Longrightarrow> i < 18446744073709551616 \<Longrightarrow> unat (word_of_int i :: u64) = nat i"
  by (simp add: unat_eq_nat_uint uint_word_of_int)

definition fill_result :: "fill_nat \<Rightarrow> fill_amounts \<times> fee_accumulator" where
  "fill_result f =
     (\<lparr>fa_notional = cash_of (int (fn_notional f)), fa_trade_fee = cash_of (int (fn_fee f)),
       fa_rounding_fee = cash_of (int (fn_rounding f)), fa_rebate = cash_of (int (fn_rebate f)),
       fa_change = cash_of (int (fn_change f))\<rparr>, \<lparr>rounding_micro = of_nat (fn_rounding_acc f)\<rparr>)"

lemma fill_rebate_le:
  "min ((a :: nat) div u) (b div u) * u \<le> a" "min (a div u) (b div u) * u \<le> b"
  by (metis mult_le_mono1 min.cobounded1 min.cobounded2 div_times_less_eq_dividend order_trans)+

lemma fill_amounts_spec:
  "fill_amounts buy qty price policy acc =
     (let q = nat (quantity_raw qty); p = nat (price_raw price)
      in if policy_ok policy \<and> q \<noteq> 0 \<and> fill_fits buy q p (coeff_nat policy) (quantum_nat policy) (acc_nat acc)
         then Some (fill_result (fill_spec buy q p (coeff_nat policy) (quantum_nat policy) (acc_nat acc)))
         else None)"
proof -
  define q where "q = nat (quantity_raw qty)"
  define p where "p = nat (price_raw price)"
  define u where "u = quantum_nat policy"
  define c where "c = coeff_nat policy"
  define qw :: u64 where "qw = word_of_int (quantity_raw qty)"
  define pw :: u64 where "pw = word_of_int (price_raw price)"
  define uw :: u64 where "uw = ucast (balance_quantum_micro policy)"
  have q: "unat qw = q" "q \<le> 9223372036854775807"
    using quantity_raw_bounds [of qty]
    by (simp_all add: qw_def q_def unat_word_of_int order_le_less_trans [OF quantity_raw_bounds(2)] nat_le_iff)
  have p: "unat pw = p" "p \<le> 10000"
    using price_raw_bounds [of price]
    by (simp_all add: pw_def p_def unat_word_of_int order_le_less_trans [OF price_raw_bounds(2)] nat_le_iff)
  have u: "unat uw = u"
    using unat_u32_bound [of "balance_quantum_micro policy"]
    by (simp add: uw_def u_def unsigned_ucast_eq take_bit_nat_eq_self)
  have quantum: "uw \<noteq> 100 \<and> uw \<noteq> 10000 \<longleftrightarrow> balance_quantum_micro policy \<notin> {100, 10000}"
    using u unfolding u_def by (simp add: word_unat_eq_iff)
  note unfolded = fill_amounts_def [of buy qty price policy acc, unfolded Let_def, folded qw_def pw_def uw_def]
  show ?thesis
  proof (cases "policy_ok policy \<and> q \<noteq> 0")
    case False
    then show ?thesis
      using quantum quantity_raw_bounds(1) [of qty]
      by (auto simp: unfolded Let_def policy_ok_def q_def)
  next
    case pol: True
    then have guard: "\<not> ((uw \<noteq> 100 \<and> uw \<noteq> 10000) \<or> 1000000 < coefficient_ppm policy \<or> quantity_raw qty = 0)"
      using quantum by (auto simp: policy_ok_def q_def)
    have u0: "u = 100 \<or> u = 10000" using pol by (auto simp: policy_ok_def u_def)
    have c: "c \<le> 1000000" using pol by (simp add: policy_ok_def c_def word_le_nat_alt)
    have over: "pw \<noteq> 0 \<and> maximum div pw < qw \<longleftrightarrow> 9223372036854775807 < q * p"
      using p q by (cases "p = 0") (auto simp: unat_word nat_div_less_iff word_unat_eq_iff)
    show ?thesis
    proof (cases "9223372036854775807 < q * p")
      case True
      with over show ?thesis
        by (simp add: unfolded Let_def guard fill_fits_def flip: q_def p_def)
    next
      case False
      define n where "n = q * p"
      define f where "f = trade_fee c q p"
      define t where "t = fill_total buy n f"
      define r where "r = fill_rounding buy u t"
      have n: "unat (qw * pw) = n" "n \<le> 9223372036854775807"
        using False p q by (simp_all add: unat_mult_exact n_def)
      have f: "f \<le> n" unfolding f_def n_def using c p by (intro trade_fee_le)
      have factor: "unat (ucast (coefficient_ppm policy) * pw * (10000 - pw) :: u64) = c * p * (10000 - p)"
      proof -
        have cw: "unat (ucast (coefficient_ppm policy) :: u64) = c"
          using unat_u32_bound [of "coefficient_ppm policy"]
          by (simp add: c_def unsigned_ucast_eq take_bit_nat_eq_self)
        have cp: "c * p \<le> 1000000 * 10000" using c p by (intro mult_le_mono)
        have "c * p * (10000 - p) \<le> 1000000 * 10000 * 10000" by (rule mult_le_mono [OF cp]) simp
        then show ?thesis using cp p by (simp add: unat_mult_exact unat_sub_exact cw)
      qed
      define fw :: u64 where "fw = of_nat f"
      have fw: "unat fw = f" using f n(2) by (simp add: fw_def unat_of_nat)
      have ceil: "ceil_product qw (ucast (coefficient_ppm policy) * pw * (10000 - pw)) = Some fw"
        unfolding ceil_product_eq factor q(1) using f n(2)
        by (simp add: f_def fw_def trade_fee_def)
      have u_pos: "0 < u" using u0 by auto
      have r: "r < u" unfolding r_def using u_pos by (rule fill_rounding_less)
      have t: "if buy then t = n + f else t = n - f \<and> r \<le> t"
        by (simp add: t_def fill_total_def r_def fill_rounding_def)
      show ?thesis
      proof (cases "buy \<and> 9223372036854775807 < n + f")
        case True
        then have "\<not> fill_fits buy q p c u (acc_nat acc)"
          by (simp add: fill_fits_def Let_def fill_total_def f_def n_def)
        moreover have "maximum - fw < qw * pw"
          using True f n fw by (auto simp: unat_word unat_sub_exact)
        ultimately show ?thesis
          unfolding unfolded using True guard over ceil False
          by (simp add: Let_def flip: q_def p_def c_def u_def)
      next
        case fits: False
        define tw :: u64 where "tw = (if buy then qw * pw + fw else qw * pw - fw)"
        define rw :: u64 where "rw = (if buy then (uw - tw mod uw) mod uw else tw mod uw)"
        have tw: "unat tw = t"
          using fits f n fw t by (auto simp: tw_def unat_add_exact unat_sub_exact)
        have rw: "unat rw = r"
          using u u_pos tw
          by (auto simp: rw_def r_def fill_rounding_def unat_mod unat_sub_exact less_imp_le)
        have neg: "\<not> (if buy then maximum - fw < qw * pw else qw * pw < fw)"
          using fits f n fw by (auto simp: unat_word unat_sub_exact not_less)
        have over_total: "buy \<and> maximum - rw < tw \<longleftrightarrow> buy \<and> 9223372036854775807 < t + r"
          using rw tw r u0 by (auto simp: unat_word unat_sub_exact)
        have over_acc: "uint64_max - rw < rounding_micro acc \<longleftrightarrow> 18446744073709551615 < acc_nat acc + r"
          using rw r u0 by (auto simp: unat_word unat_sub_exact uint64_max_def)
        have whole: "fill_amounts buy qty price policy acc =
          (if (buy \<and> maximum - rw < tw) \<or> uint64_max - rw < rounding_micro acc then None
           else let accumulated = rounding_micro acc + rw;
                    rebate = min (accumulated div uw) ((fw + rw) div uw) * uw
                in Some (\<lparr>fa_notional = cash_of_word (qw * pw), fa_trade_fee = cash_of_word fw,
                      fa_rounding_fee = cash_of_word rw, fa_rebate = cash_of_word rebate,
                      fa_change = cash_of_word (if buy then tw + rw - rebate else tw - rw + rebate)\<rparr>,
                     acc\<lparr>rounding_micro := accumulated - rebate\<rparr>))"
          unfolding unfolded ceil option.case Let_def
          using guard over neg \<open>\<not> 9223372036854775807 < q * p\<close>
          by (simp only: if_False flip: tw_def rw_def)
        have fits_iff: "fill_fits buy q p c u (acc_nat acc) \<longleftrightarrow>
            \<not> ((buy \<and> maximum - rw < tw) \<or> uint64_max - rw < rounding_micro acc)"
          using n(2) unfolding fill_fits_def Let_def over_total over_acc
          by (simp only: not_less de_Morgan_conj de_Morgan_disj flip: n_def f_def t_def r_def) blast
        show ?thesis
        proof (cases "fill_fits buy q p c u (acc_nat acc)")
          case False
          then show ?thesis
            using fits_iff unfolding whole
            by (simp only: if_True not_not if_False simp_thms Let_def flip: q_def p_def c_def u_def)
        next
          case True
          then have ok: "\<not> ((buy \<and> maximum - rw < tw) \<or> uint64_max - rw < rounding_micro acc)"
            and tr: "buy \<Longrightarrow> t + r \<le> 9223372036854775807"
            and ar: "acc_nat acc + r \<le> 18446744073709551615"
            using over_total over_acc fits_iff by auto
          define aw where "aw = rounding_micro acc + rw"
          define bw where "bw = min (aw div uw) ((fw + rw) div uw) * uw"
          define b where "b = min ((acc_nat acc + r) div u) ((f + r) div u) * u"
          have small: "n \<le> 9223372036854775807" "f \<le> 9223372036854775807" "r \<le> 10000"
            using n(2) f r u0 by auto
          have b: "b \<le> acc_nat acc + r" "b \<le> f + r"
            unfolding b_def by (rule fill_rebate_le)+
          have aw: "unat aw = acc_nat acc + r"
            using ar by (simp add: aw_def unat_add_exact rw)
          have fr: "unat (fw + rw) = f + r" using small fw rw by (simp add: unat_add_exact)
          have "unat (min (aw div uw) ((fw + rw) div uw)) = min ((acc_nat acc + r) div u) ((f + r) div u)"
            by (simp add: min_def unat_word u aw fr)
          then have bw: "unat bw = b"
            using b(2) small u unfolding bw_def b_def by (subst unat_mult_exact) simp_all
          have change: "unat (if buy then tw + rw - bw else tw - rw + bw) =
              (if buy then t + r - b else t - r + b)"
            and cb: "(if buy then t + r - b else t - r + b) \<le> 9223372036854775807"
            using tr t b small by (auto simp: unat_add_exact unat_sub_exact tw rw bw)
          have "unat (aw - bw) = acc_nat acc + r - b" using aw bw b by (subst unat_sub_exact) simp_all
          from this [symmetric] have acc': "aw - bw = of_nat (acc_nat acc + r - b)" by (simp only: of_nat_unat) simp
          have bmax: "b \<le> 9223372036854775807"
            using tr t b small by (cases buy) auto
          have result: "fill_result (fill_spec buy q p c u (acc_nat acc)) =
              (\<lparr>fa_notional = cash_of (int n), fa_trade_fee = cash_of (int f),
                fa_rounding_fee = cash_of (int r), fa_rebate = cash_of (int b),
                fa_change = cash_of (int (if buy then t + r - b else t - r + b))\<rparr>,
               \<lparr>rounding_micro = of_nat (acc_nat acc + r - b)\<rparr>)"
            unfolding fill_spec_def fill_result_def Let_def
            by (simp only: fill_nat.simps flip: n_def f_def t_def r_def b_def)
          have "fill_amounts buy qty price policy acc = Some (fill_result (fill_spec buy q p c u (acc_nat acc)))"
            unfolding result whole Let_def using ok small bmax cb
            by (simp only: if_False cash_of_word_small n(1) fw rw bw change bmax
                acc' flip: aw_def bw_def)
              (simp add: cash_of_word_small n fw rw bw change)
          with True pol show ?thesis by (simp flip: q_def p_def c_def u_def)
        qed
      qed
    qed
  qed
qed


subsection \<open>What a fill costs\<close>

text \<open>The fill of each side, on the specification.\<close>

lemma fill_spec_buy:
  assumes "0 < u"
  shows "let f = fill_spec True q p coefficient u acc in
    fn_change f + acc = fn_notional f + fn_fee f + fn_rounding_acc f \<and>
    fn_notional f \<le> fn_change f \<and> u dvd fn_change f \<and> fn_change f < fn_notional f + fn_fee f + u"
proof -
  let ?n = "q * p" and ?f = "trade_fee coefficient q p"
  define r where "r = fill_rounding True u (?n + ?f)"
  define b where "b = min ((acc + r) div u) ((?f + r) div u) * u"
  have b: "b \<le> acc + r" "b \<le> ?f + r" unfolding b_def by (rule fill_rebate_le)+
  have r: "r < u" unfolding r_def using assms by (rule fill_rounding_less)
  have "u dvd ?n + ?f + r" unfolding r_def using assms by (rule fill_rounding_buy_dvd)
  moreover have "u dvd b" by (simp add: b_def)
  ultimately have dvd: "u dvd ?n + ?f + r - b" by (rule dvd_diff_nat)
  have "?n + ?f + r - b + acc = ?n + ?f + (acc + r - b) \<and> ?n \<le> ?n + ?f + r - b \<and>
      ?n + ?f + r - b < ?n + ?f + u"
    using b r by linarith
  with dvd show ?thesis
    by (simp only: fill_spec_def Let_def fill_total_def if_True fill_nat.simps simp_thms flip: r_def b_def)
qed

lemma fill_spec_sell:
  assumes "0 < u" and "trade_fee coefficient q p \<le> q * p"
  shows "let f = fill_spec False q p coefficient u acc in
    fn_change f + fn_fee f + fn_rounding_acc f = fn_notional f + acc \<and>
    fn_change f \<le> fn_notional f \<and> u dvd fn_change f \<and> fn_notional f < fn_change f + fn_fee f + u"
proof -
  let ?n = "q * p" and ?f = "trade_fee coefficient q p"
  define r where "r = fill_rounding False u (?n - ?f)"
  define b where "b = min ((acc + r) div u) ((?f + r) div u) * u"
  have b: "b \<le> acc + r" "b \<le> ?f + r" unfolding b_def by (rule fill_rebate_le)+
  have r: "r < u" unfolding r_def using assms(1) by (rule fill_rounding_less)
  have "r \<le> ?n - ?f" by (simp add: r_def fill_rounding_def)
  moreover have "u dvd ?n - ?f - r" unfolding r_def by (rule fill_rounding_sell_dvd)
  moreover have "u dvd b" by (simp add: b_def)
  ultimately have dvd: "u dvd ?n - ?f - r + b" and le: "r \<le> ?n - ?f" by simp_all
  have "?n - ?f - r + b + ?f + (acc + r - b) = ?n + acc \<and> ?n - ?f - r + b \<le> ?n \<and>
      ?n < ?n - ?f - r + b + ?f + u"
    using b r le assms(2) by linarith
  with dvd show ?thesis
    by (simp only: fill_spec_def Let_def fill_total_def if_False fill_nat.simps simp_thms flip: r_def b_def)
qed

lemma fill_fits_spec_range:
  assumes "fill_fits buy q p coefficient u acc" and "trade_fee coefficient q p \<le> q * p"
  shows "let f = fill_spec buy q p coefficient u acc in
    fn_notional f \<le> 9223372036854775807 \<and> fn_fee f \<le> 9223372036854775807 \<and>
    fn_rounding f \<le> 9223372036854775807 \<and> fn_rebate f \<le> 9223372036854775807 \<and>
    fn_change f \<le> 9223372036854775807 \<and> fn_rounding_acc f < 18446744073709551616"
proof -
  let ?n = "q * p" and ?f = "trade_fee coefficient q p"
  define t where "t = fill_total buy ?n ?f"
  define r where "r = fill_rounding buy u t"
  define b where "b = min ((acc + r) div u) ((?f + r) div u) * u"
  have b: "b \<le> acc + r" "b \<le> ?f + r" unfolding b_def by (rule fill_rebate_le)+
  have t: "if buy then t = ?n + ?f else t = ?n - ?f \<and> r \<le> t"
    by (simp add: t_def fill_total_def r_def fill_rounding_def)
  have fits: "?n \<le> 9223372036854775807" "buy \<Longrightarrow> t + r \<le> 9223372036854775807"
      "acc + r \<le> 18446744073709551615"
    using assms(1)[unfolded fill_fits_def Let_def, folded t_def, folded r_def] by simp_all
  have "?n \<le> 9223372036854775807 \<and> ?f \<le> 9223372036854775807 \<and> r \<le> 9223372036854775807 \<and>
      b \<le> 9223372036854775807 \<and> (if buy then t + r - b else t - r + b) \<le> 9223372036854775807 \<and>
      acc + r - b < 18446744073709551616"
    using fits b t assms(2) by (cases buy; simp; linarith)
  then show ?thesis
    by (simp only: fill_spec_def Let_def fill_nat.simps flip: t_def r_def b_def)
qed

lemma charge_buy_fill_Some:
  assumes "charge_buy_fill qty price policy acc = Some (c, acc')"
  shows "\<exists>f. f = fill_spec True (nat (quantity_raw qty)) (nat (price_raw price)) (coeff_nat policy)
      (quantum_nat policy) (acc_nat acc) \<and> policy_ok policy \<and>
    nat (cash_raw (fc_notional c)) = fn_notional f \<and> nat (cash_raw (fc_trade_fee c)) = fn_fee f \<and>
    nat (cash_raw (fc_debit c)) = fn_change f \<and> acc_nat acc' = fn_rounding_acc f"
proof -
  define q where "q = nat (quantity_raw qty)"
  define p where "p = nat (price_raw price)"
  define f where "f = fill_spec True q p (coeff_nat policy) (quantum_nat policy) (acc_nat acc)"
  have "charge_buy_fill qty price policy acc \<noteq> None" using assms by simp
  then have ok: "policy_ok policy" "fill_fits True q p (coeff_nat policy) (quantum_nat policy) (acc_nat acc)"
    by (auto simp: charge_buy_fill_def fill_amounts_spec Let_def q_def p_def split: if_splits)
  have "trade_fee (coeff_nat policy) q p \<le> q * p"
    using ok(1) price_raw_bounds(2) [of price]
    by (intro trade_fee_le) (simp_all add: policy_ok_def word_le_nat_alt p_def nat_le_iff)
  from fill_fits_spec_range [OF ok(2) this] have range:
      "fn_notional f \<le> 9223372036854775807" "fn_fee f \<le> 9223372036854775807"
      "fn_change f \<le> 9223372036854775807" "fn_rounding_acc f < 18446744073709551616"
    by (simp_all add: f_def Let_def)
  from assms have "c = \<lparr>fc_notional = cash_of (int (fn_notional f)), fc_trade_fee = cash_of (int (fn_fee f)),
       fc_rounding_fee = cash_of (int (fn_rounding f)), fc_rebate = cash_of (int (fn_rebate f)),
       fc_debit = cash_of (int (fn_change f))\<rparr>" "acc' = \<lparr>rounding_micro = of_nat (fn_rounding_acc f)\<rparr>"
    by (auto simp: charge_buy_fill_def fill_amounts_spec Let_def fill_result_def f_def q_def p_def split: if_splits)
  with range ok(1) show ?thesis
    by (intro exI [of _ f]) (simp add: f_def q_def p_def unat_of_nat)
qed

lemma charge_accounts:
  assumes "charge_buy_fill qty price policy acc = Some (c, acc')"
  shows "cash_raw (fc_notional c) = quantity_raw qty * price_raw price \<and>
    nat (cash_raw (fc_trade_fee c)) =
      trade_fee (coeff_nat policy) (nat (quantity_raw qty)) (nat (price_raw price)) \<and>
    cash_raw (fc_debit c) + int (acc_nat acc) =
      cash_raw (fc_notional c) + cash_raw (fc_trade_fee c) + int (acc_nat acc') \<and>
    cash_raw (fc_notional c) \<le> cash_raw (fc_debit c) \<and>
    int (quantum_nat policy) dvd cash_raw (fc_debit c) \<and>
    cash_raw (fc_debit c) < cash_raw (fc_notional c) + cash_raw (fc_trade_fee c) + int (quantum_nat policy)"
proof -
  from charge_buy_fill_Some [OF assms] obtain f where
    f: "f = fill_spec True (nat (quantity_raw qty)) (nat (price_raw price)) (coeff_nat policy)
      (quantum_nat policy) (acc_nat acc)" and pol: "policy_ok policy" and
    c: "nat (cash_raw (fc_notional c)) = fn_notional f" "nat (cash_raw (fc_trade_fee c)) = fn_fee f"
      "nat (cash_raw (fc_debit c)) = fn_change f" "acc_nat acc' = fn_rounding_acc f" by blast
  have u: "0 < quantum_nat policy" using pol by (auto simp: policy_ok_def)
  have c': "cash_raw (fc_notional c) = int (fn_notional f)" "cash_raw (fc_trade_fee c) = int (fn_fee f)"
      "cash_raw (fc_debit c) = int (fn_change f)"
    by (simp_all flip: c(1-3))
  have parts: "fn_notional f = nat (quantity_raw qty) * nat (price_raw price)"
      "fn_fee f = trade_fee (coeff_nat policy) (nat (quantity_raw qty)) (nat (price_raw price))"
    by (simp_all add: f fill_spec_def Let_def)
  from fill_spec_buy [OF u, of "nat (quantity_raw qty)" "nat (price_raw price)" "coeff_nat policy" "acc_nat acc"]
  have "fn_change f + acc_nat acc = fn_notional f + fn_fee f + fn_rounding_acc f \<and>
      fn_notional f \<le> fn_change f \<and> quantum_nat policy dvd fn_change f \<and>
      fn_change f < fn_notional f + fn_fee f + quantum_nat policy"
    by (simp add: Let_def flip: f)
  moreover have "quantity_raw qty * price_raw price = int (fn_notional f)" by (simp add: parts(1))
  ultimately show ?thesis unfolding c' c(4)
    by (simp only: parts(2) [symmetric] nat_int of_nat_eq_iff of_nat_le_iff of_nat_less_iff
        of_nat_dvd_iff simp_thms flip: of_nat_add)
qed

lemma fill_example:
  "fill_spec True 100 550 70000 10000 0 = \<lparr>fn_notional = 55000, fn_fee = 3639, fn_rounding = 1361,
     fn_rebate = 0, fn_change = 60000, fn_rounding_acc = 1361\<rparr>"
  "fill_fits True 100 550 70000 10000 0"
proof -
  have "trade_fee 70000 100 550 = 3639" by (simp add: trade_fee_def ceil_div_def)
  moreover have "fill_rounding True 10000 58639 = 1361" by (simp add: fill_rounding_def)
  ultimately show "fill_spec True 100 550 70000 10000 0 = \<lparr>fn_notional = 55000, fn_fee = 3639,
      fn_rounding = 1361, fn_rebate = 0, fn_change = 60000, fn_rounding_acc = 1361\<rparr>"
    "fill_fits True 100 550 70000 10000 0"
    by (simp_all add: fill_spec_def fill_fits_def fill_total_def)
qed

lemma charge_example:
  "charge_buy_fill (quantity_of 100) (price_of 550) \<lparr>coefficient_ppm = 70000, balance_quantum_micro = 10000\<rparr>
     \<lparr>rounding_micro = 0\<rparr> = Some
       (\<lparr>fc_notional = cash_of 55000, fc_trade_fee = cash_of 3639, fc_rounding_fee = cash_of 1361,
         fc_rebate = cash_of 0, fc_debit = cash_of 60000\<rparr>, \<lparr>rounding_micro = 1361\<rparr>)"
  by (simp add: charge_buy_fill_def fill_amounts_spec policy_ok_def fill_example fill_result_def)

text \<open>
  A buy costs its notional and its trade fee (the product of coefficient, quantity,
  price and complement, rounded up to a microdollar), and the rounding to the account's
  quantum is only borrowed: what the debit takes beyond that is what the order's accumulator
  gains. The debit is a multiple of the quantum, never below the notional, and less than one
  quantum above notional and fee.
\<close>

theorem buy_fill_accounting:
  assumes "charge_buy_fill qty price policy acc = Some (c, acc')"
  shows "cash_raw (fc_notional c) = quantity_raw qty * price_raw price \<and>
    nat (cash_raw (fc_trade_fee c)) =
      trade_fee (coeff_nat policy) (nat (quantity_raw qty)) (nat (price_raw price)) \<and>
    cash_raw (fc_debit c) + int (acc_nat acc) =
      cash_raw (fc_notional c) + cash_raw (fc_trade_fee c) + int (acc_nat acc') \<and>
    cash_raw (fc_notional c) \<le> cash_raw (fc_debit c) \<and>
    int (quantum_nat policy) dvd cash_raw (fc_debit c) \<and>
    cash_raw (fc_debit c) < cash_raw (fc_notional c) + cash_raw (fc_trade_fee c) + int (quantum_nat policy)"
  using assms by (rule charge_accounts)

lemma buy_fill_accounting_witness:
  "cash_raw (fc_debit \<lparr>fc_notional = cash_of 55000, fc_trade_fee = cash_of 3639,
     fc_rounding_fee = cash_of 1361, fc_rebate = cash_of 0, fc_debit = cash_of 60000\<rparr>) + 0 =
   100 * 550 + 3639 + int (acc_nat \<lparr>rounding_micro = 1361\<rparr>)"
  using buy_fill_accounting [OF charge_example] by simp

lemma credit_accounts:
  assumes "credit_sell_fill qty price policy acc = Some (c, acc')"
  shows "cash_raw (fr_notional c) = quantity_raw qty * price_raw price \<and>
    nat (cash_raw (fr_trade_fee c)) =
      trade_fee (coeff_nat policy) (nat (quantity_raw qty)) (nat (price_raw price)) \<and>
    cash_raw (fr_credit c) + cash_raw (fr_trade_fee c) + int (acc_nat acc') =
      cash_raw (fr_notional c) + int (acc_nat acc) \<and>
    cash_raw (fr_credit c) \<le> cash_raw (fr_notional c) \<and>
    int (quantum_nat policy) dvd cash_raw (fr_credit c)"
proof -
  define q where "q = nat (quantity_raw qty)"
  define p where "p = nat (price_raw price)"
  define f where "f = fill_spec False q p (coeff_nat policy) (quantum_nat policy) (acc_nat acc)"
  have "credit_sell_fill qty price policy acc \<noteq> None" using assms by simp
  then have ok: "policy_ok policy" "fill_fits False q p (coeff_nat policy) (quantum_nat policy) (acc_nat acc)"
    by (auto simp: credit_sell_fill_def fill_amounts_spec Let_def q_def p_def split: if_splits)
  have u: "0 < quantum_nat policy" using ok(1) by (auto simp: policy_ok_def)
  have le: "trade_fee (coeff_nat policy) q p \<le> q * p"
    using ok(1) price_raw_bounds(2) [of price]
    by (intro trade_fee_le) (simp_all add: policy_ok_def word_le_nat_alt p_def nat_le_iff)
  from assms have c: "c = \<lparr>fr_notional = cash_of (int (fn_notional f)), fr_trade_fee = cash_of (int (fn_fee f)),
       fr_rounding_fee = cash_of (int (fn_rounding f)), fr_rebate = cash_of (int (fn_rebate f)),
       fr_credit = cash_of (int (fn_change f))\<rparr>" and acc': "acc' = \<lparr>rounding_micro = of_nat (fn_rounding_acc f)\<rparr>"
    by (auto simp: credit_sell_fill_def fill_amounts_spec Let_def fill_result_def f_def q_def p_def split: if_splits)
  from fill_fits_spec_range [OF ok(2) le] have range:
      "fn_notional f \<le> 9223372036854775807" "fn_fee f \<le> 9223372036854775807"
      "fn_change f \<le> 9223372036854775807" "fn_rounding_acc f < 18446744073709551616"
    by (simp_all add: f_def Let_def)
  have raws: "cash_raw (fr_notional c) = int (fn_notional f)" "cash_raw (fr_trade_fee c) = int (fn_fee f)"
      "cash_raw (fr_credit c) = int (fn_change f)" "acc_nat acc' = fn_rounding_acc f"
    using range by (simp_all add: c acc' unat_of_nat)
  have parts: "fn_notional f = q * p" "fn_fee f = trade_fee (coeff_nat policy) q p"
    by (simp_all add: f_def fill_spec_def Let_def)
  have "quantity_raw qty * price_raw price = int (fn_notional f)" by (simp add: parts q_def p_def)
  moreover from fill_spec_sell [OF u le, of "acc_nat acc"]
  have "fn_change f + fn_fee f + fn_rounding_acc f = fn_notional f + acc_nat acc \<and>
      fn_change f \<le> fn_notional f \<and> quantum_nat policy dvd fn_change f"
    by (simp add: Let_def flip: f_def)
  ultimately show ?thesis unfolding raws
    by (simp only: q_def [symmetric] p_def [symmetric] parts(2) [symmetric] nat_int of_nat_eq_iff
        of_nat_le_iff of_nat_dvd_iff simp_thms flip: of_nat_add)
qed

text \<open>
  A sale brings its notional less its trade fee, floored to the account's quantum
  with the remainder kept in the order's accumulator: credit, fee and accumulator after add up
  to notional and accumulator before. The credit is a multiple of the quantum and never above
  the notional.
\<close>

theorem sell_fill_accounting:
  assumes "credit_sell_fill qty price policy acc = Some (c, acc')"
  shows "cash_raw (fr_notional c) = quantity_raw qty * price_raw price \<and>
    nat (cash_raw (fr_trade_fee c)) =
      trade_fee (coeff_nat policy) (nat (quantity_raw qty)) (nat (price_raw price)) \<and>
    cash_raw (fr_credit c) + cash_raw (fr_trade_fee c) + int (acc_nat acc') =
      cash_raw (fr_notional c) + int (acc_nat acc) \<and>
    cash_raw (fr_credit c) \<le> cash_raw (fr_notional c) \<and>
    int (quantum_nat policy) dvd cash_raw (fr_credit c)"
  using assms by (rule credit_accounts)

lemma sell_example:
  "credit_sell_fill (quantity_of 100) (price_of 550) \<lparr>coefficient_ppm = 70000, balance_quantum_micro = 10000\<rparr>
     \<lparr>rounding_micro = 0\<rparr> = Some
       (\<lparr>fr_notional = cash_of 55000, fr_trade_fee = cash_of 3639, fr_rounding_fee = cash_of 1361,
         fr_rebate = cash_of 0, fr_credit = cash_of 50000\<rparr>, \<lparr>rounding_micro = 1361\<rparr>)"
proof -
  have "trade_fee 70000 100 550 = 3639" by (simp add: trade_fee_def ceil_div_def)
  moreover have "fill_rounding False 10000 51361 = 1361" by (simp add: fill_rounding_def)
  ultimately have "fill_spec False 100 550 70000 10000 0 = \<lparr>fn_notional = 55000, fn_fee = 3639,
      fn_rounding = 1361, fn_rebate = 0, fn_change = 50000, fn_rounding_acc = 1361\<rparr>"
    "fill_fits False 100 550 70000 10000 0"
    by (simp_all add: fill_spec_def fill_fits_def fill_total_def)
  then show ?thesis
    by (simp add: credit_sell_fill_def fill_amounts_spec policy_ok_def fill_result_def)
qed

lemma sell_fill_accounting_witness:
  "cash_raw (cash_of 50000) + 3639 + int (acc_nat \<lparr>rounding_micro = 1361\<rparr>) = 100 * 550 + 0"
  using sell_fill_accounting [OF sell_example] by simp


subsection \<open>Fills within the supported sizes\<close>

lemma trade_fee_small:
  assumes "policy_ok policy" and "q \<le> 100000000" and "p \<le> 10000"
  shows "q * p \<le> 1000000000000" "trade_fee (coeff_nat policy) q p \<le> 1000000000000"
proof -
  show n: "q * p \<le> 1000000000000" using mult_le_mono [OF assms(2,3)] by simp
  have "trade_fee (coeff_nat policy) q p \<le> q * p"
    using assms by (intro trade_fee_le) (simp_all add: policy_ok_def word_le_nat_alt)
  with n show "trade_fee (coeff_nat policy) q p \<le> 1000000000000" by linarith
qed

lemma charge_total:
  assumes "policy_ok policy" and "0 < quantity_raw qty" and "quantity_raw qty \<le> 100000000"
    and "acc_nat acc \<le> 1000000000000"
  shows "\<exists>c acc'. charge_buy_fill qty price policy acc = Some (c, acc')"
proof -
  define q where "q = nat (quantity_raw qty)"
  define p where "p = nat (price_raw price)"
  have q: "q \<noteq> 0" "q \<le> 100000000" and p: "p \<le> 10000"
    using assms price_raw_bounds(2) [of price] by (simp_all add: q_def p_def nat_le_iff)
  define r where "r = fill_rounding True (quantum_nat policy) (q * p + trade_fee (coeff_nat policy) q p)"
  have "quantum_nat policy \<in> {100, 10000}" using assms(1) by (auto simp: policy_ok_def)
  then have "r < 10000"
    unfolding r_def by (auto intro: order_less_le_trans [OF fill_rounding_less])
  with trade_fee_small [OF assms(1) q(2) p] assms(4)
  have "fill_fits True q p (coeff_nat policy) (quantum_nat policy) (acc_nat acc)"
    by (simp add: fill_fits_def Let_def fill_total_def flip: r_def)
  with assms(1) q(1) show ?thesis
    by (simp add: charge_buy_fill_def fill_amounts_spec Let_def fill_result_def flip: q_def p_def)
qed

lemma charge_acc_growth:
  assumes "charge_buy_fill qty price policy acc = Some (c, acc')"
  shows "acc_nat acc' \<le> acc_nat acc + 10000"
proof -
  from charge_buy_fill_Some [OF assms] have pol: "policy_ok policy" by blast
  then have "quantum_nat policy \<le> 10000" by (auto simp: policy_ok_def)
  with charge_accounts [OF assms] show ?thesis by linarith
qed

lemma credit_total:
  assumes "policy_ok policy" and "0 < quantity_raw qty" and "quantity_raw qty \<le> 100000000"
    and "acc_nat acc \<le> 1000000000000"
  shows "\<exists>c acc'. credit_sell_fill qty price policy acc = Some (c, acc') \<and> acc_nat acc' \<le> acc_nat acc + 10000"
proof -
  define q where "q = nat (quantity_raw qty)"
  define p where "p = nat (price_raw price)"
  define r where "r = fill_rounding False (quantum_nat policy) (q * p - trade_fee (coeff_nat policy) q p)"
  have q: "q \<noteq> 0" "q \<le> 100000000" and p: "p \<le> 10000"
    using assms price_raw_bounds(2) [of price] by (simp_all add: q_def p_def nat_le_iff)
  have "quantum_nat policy \<in> {100, 10000}" using assms(1) by (auto simp: policy_ok_def)
  then have r: "r < 10000"
    unfolding r_def by (auto intro: order_less_le_trans [OF fill_rounding_less])
  with trade_fee_small [OF assms(1) q(2) p] assms(4)
  have fits: "fill_fits False q p (coeff_nat policy) (quantum_nat policy) (acc_nat acc)"
    by (simp add: fill_fits_def Let_def fill_total_def flip: r_def)
  have "fn_rounding_acc (fill_spec False q p (coeff_nat policy) (quantum_nat policy) (acc_nat acc)) \<le> acc_nat acc + r"
    by (simp add: fill_spec_def Let_def fill_total_def flip: r_def)
  then have "unat (of_nat (fn_rounding_acc (fill_spec False q p (coeff_nat policy) (quantum_nat policy) (acc_nat acc))) :: u64)
      \<le> acc_nat acc + 10000"
    using r assms(4) by (simp add: unat_of_nat)
  with assms(1) q(1) fits show ?thesis
    by (simp add: credit_sell_fill_def fill_amounts_spec Let_def fill_result_def flip: q_def p_def)
qed


subsection \<open>The contract of the fee model\<close>

text \<open>
  Both sizing routines walk a ladder of price levels and charge one fill for each, threading
  the order's accumulator. \<open>ladder\<close> is that walk for an arbitrary charge function: the
  total notional, the total debit and the accumulator at the end.
\<close>

type_synonym charge_fn =
  "quantity \<Rightarrow> price \<Rightarrow> fee_policy \<Rightarrow> fee_accumulator \<Rightarrow> (fill_charge \<times> fee_accumulator) option"

fun ladder :: "charge_fn \<Rightarrow> fee_policy \<Rightarrow> (quantity \<times> price) list \<Rightarrow> fee_accumulator
    \<Rightarrow> (int \<times> int \<times> fee_accumulator) option" where
  "ladder charge policy [] acc = Some (0, 0, acc)"
| "ladder charge policy ((q, p) # fills) acc =
     (case charge q p policy acc of None \<Rightarrow> None
      | Some (c, acc) \<Rightarrow>
          map_option (\<lambda>(n, d, acc). (cash_raw (fc_notional c) + n, cash_raw (fc_debit c) + d, acc))
            (ladder charge policy fills acc))"

definition fills_notional :: "(quantity \<times> price) list \<Rightarrow> int" where
  "fills_notional fills = (\<Sum>(q, p) \<leftarrow> fills. quantity_raw q * price_raw p)"

definition fills_quantity :: "(quantity \<times> price) list \<Rightarrow> int" where
  "fills_quantity fills = (\<Sum>(q, p) \<leftarrow> fills. quantity_raw q)"

definition fills_fee :: "fee_policy \<Rightarrow> (quantity \<times> price) list \<Rightarrow> int" where
  "fills_fee policy fills =
     (\<Sum>(q, p) \<leftarrow> fills. int (trade_fee (coeff_nat policy) (nat (quantity_raw q)) (nat (price_raw p))))"

lemma fills_simps [simp]:
  "fills_notional [] = 0" "fills_quantity [] = 0" "fills_fee policy [] = 0"
  "fills_notional ((q, p) # fills) = quantity_raw q * price_raw p + fills_notional fills"
  "fills_quantity ((q, p) # fills) = quantity_raw q + fills_quantity fills"
  "fills_fee policy ((q, p) # fills) =
     int (trade_fee (coeff_nat policy) (nat (quantity_raw q)) (nat (price_raw p))) + fills_fee policy fills"
  by (simp_all add: fills_notional_def fills_quantity_def fills_fee_def)

lemma fills_quantity_nonneg: "0 \<le> fills_quantity fills"
  by (induction fills) auto

locale fee_model =
  fixes charge :: charge_fn
    and supported :: "fee_policy \<Rightarrow> bool"
  assumes charge_notional: "charge q p policy acc = Some (c, acc') \<Longrightarrow>
      cash_raw (fc_notional c) = quantity_raw q * price_raw p"
    and charge_conserves: "charge q p policy acc = Some (c, acc') \<Longrightarrow>
      cash_raw (fc_debit c) + int (acc_nat acc) = quantity_raw q * price_raw p +
        int (trade_fee (coeff_nat policy) (nat (quantity_raw q)) (nat (price_raw p))) + int (acc_nat acc')"
    and charge_ge: "charge q p policy acc = Some (c, acc') \<Longrightarrow>
      quantity_raw q * price_raw p \<le> cash_raw (fc_debit c)"
    and charge_growth: "charge q p policy acc = Some (c, acc') \<Longrightarrow> acc_nat acc' \<le> acc_nat acc + 10000"
    and charge_succeeds: "supported policy \<Longrightarrow> 0 < quantity_raw q \<Longrightarrow> quantity_raw q \<le> 100000000 \<Longrightarrow>
      acc_nat acc \<le> 1000000000000 \<Longrightarrow> \<exists>c acc'. charge q p policy acc = Some (c, acc')"
begin

lemma ladder_accounts:
  "ladder charge policy fills acc = Some (n, d, acc') \<Longrightarrow>
     n = fills_notional fills \<and> n \<le> d \<and>
     d + int (acc_nat acc) = n + fills_fee policy fills + int (acc_nat acc') \<and>
     acc_nat acc' \<le> acc_nat acc + 10000 * length fills"
proof (induction fills arbitrary: acc n d)
  case (Cons fill fills)
  obtain q p where fill: "fill = (q, p)" by force
  from Cons.prems obtain c acc1 n1 d1 where
    step: "charge q p policy acc = Some (c, acc1)" "ladder charge policy fills acc1 = Some (n1, d1, acc')"
    and n: "n = cash_raw (fc_notional c) + n1" and d: "d = cash_raw (fc_debit c) + d1"
    by (auto simp: fill split: option.splits)
  from Cons.IH [OF step(2)] charge_notional [OF step(1)] charge_conserves [OF step(1)]
    charge_ge [OF step(1)] charge_growth [OF step(1)]
  show ?case unfolding n d fill by simp
qed simp

lemma ladder_succeeds:
  "supported policy \<Longrightarrow> \<forall>(q, p) \<in> set fills. 0 < quantity_raw q \<and> quantity_raw q \<le> 100000000 \<Longrightarrow>
     acc_nat acc + 10000 * length fills \<le> 1000000000000 \<Longrightarrow>
     \<exists>n d acc'. ladder charge policy fills acc = Some (n, d, acc')"
proof (induction fills arbitrary: acc)
  case (Cons fill fills)
  obtain q p where fill: "fill = (q, p)" by force
  from Cons.prems have "0 < quantity_raw q \<and> quantity_raw q \<le> 100000000" "acc_nat acc \<le> 1000000000000"
    by (simp_all add: fill)
  with charge_succeeds [OF Cons.prems(1)] obtain c acc1 where
    step: "charge q p policy acc = Some (c, acc1)" by blast
  with charge_growth [OF step] Cons.prems have "acc_nat acc1 + 10000 * length fills \<le> 1000000000000"
    by simp
  with Cons.IH [of acc1] Cons.prems show ?case by (auto simp: fill step)
qed simp

lemma ladder_append:
  "ladder charge policy (fills @ fills') acc =
     (case ladder charge policy fills acc of None \<Rightarrow> None
      | Some (n, d, acc) \<Rightarrow> map_option (\<lambda>(n', d', acc). (n + n', d + d', acc))
          (ladder charge policy fills' acc))"
  by (induction fills arbitrary: acc)
    (auto simp: option.map_comp comp_def case_prod_unfold algebra_simps option.map_ident split: option.splits)

end

interpretation fees: fee_model charge_buy_fill policy_ok
proof unfold_locales
  fix q p policy acc c acc'
  assume charge: "charge_buy_fill q p policy acc = Some (c, acc')"
  note accounts = charge_accounts [OF charge]
  show "cash_raw (fc_notional c) = quantity_raw q * price_raw p"
    using accounts by (rule conjunct1)
  with accounts show "quantity_raw q * price_raw p \<le> cash_raw (fc_debit c)" by linarith
  show "acc_nat acc' \<le> acc_nat acc + 10000" using charge by (rule charge_acc_growth)
  have "cash_raw (fc_trade_fee c) = int (trade_fee (coeff_nat policy) (nat (quantity_raw q)) (nat (price_raw p)))"
    using accounts by (metis nat_0_le cash_raw_bounds(1))
  with accounts show "cash_raw (fc_debit c) + int (acc_nat acc) = quantity_raw q * price_raw p +
      int (trade_fee (coeff_nat policy) (nat (quantity_raw q)) (nat (price_raw p))) + int (acc_nat acc')"
    by linarith
qed (rule charge_total)

end
