(* ===== verification/Order_Book.thy ===== *)
theory Order_Book
  imports Fixed_Point
begin

text \<open>
  The order book of one market, after \<open>include/eme/book/order_book.hpp\<close> and
  \<open>src/book/order_book.cpp\<close>: its life cycle (empty, valid, stale, recovering), the snapshot
  and the sequenced delta with every rejection, and the queries. Each operation that changes
  the book returns the result together with the new book. Shown: the invariant of every
  reachable book, that a rejected update never leaves changed levels on display, and that
  the displayed depth is exactly the snapshot plus the deltas applied since.
\<close>

subsection \<open>Data\<close>

type_synonym stream_id = u64
type_synonym sequence_number = u64

datatype side = Bid | Ask

datatype book_state = Empty | Valid | Stale | Recovering

datatype book_update_result =
  Applied | Requires_Snapshot | Stream_Mismatch | Sequence_Gap | Invalid_Level
  | Recovery_Not_Started | Stale_Snapshot

record level =
  lv_price :: price
  lv_quantity :: quantity

text \<open>\<open>std::map<std::int64_t, std::int64_t>\<close>: raw price to raw quantity.\<close>

type_synonym levels = "(int \<times> int) list"

record order_book =
  ob_state :: book_state
  ob_stream_id :: "stream_id option"
  ob_last_sequence :: "sequence_number option"
  ob_bids :: levels
  ob_asks :: levels

definition new_book :: order_book where
  "new_book = \<lparr>ob_state = Empty, ob_stream_id = None, ob_last_sequence = None,
     ob_bids = [], ob_asks = []\<rparr>"

definition book_state_to_string :: "book_state \<Rightarrow> string" where
  "book_state_to_string st =
     (case st of Empty \<Rightarrow> ''EMPTY'' | Valid \<Rightarrow> ''VALID'' | Stale \<Rightarrow> ''STALE''
      | Recovering \<Rightarrow> ''RECOVERING'')"


subsection \<open>Operations\<close>

definition levels_for :: "side \<Rightarrow> order_book \<Rightarrow> levels" where
  "levels_for side book = (case side of Bid \<Rightarrow> ob_bids book | Ask \<Rightarrow> ob_asks book)"

text \<open>The write through the reference that the non-const \<open>levels_for\<close> returns.\<close>

definition set_levels :: "side \<Rightarrow> levels \<Rightarrow> order_book \<Rightarrow> order_book" where
  "set_levels side lv book =
     (case side of Bid \<Rightarrow> book\<lparr>ob_bids := lv\<rparr> | Ask \<Rightarrow> book\<lparr>ob_asks := lv\<rparr>)"

definition mark_stale :: "order_book \<Rightarrow> order_book" where
  "mark_stale book = book\<lparr>ob_state := Stale\<rparr>"

definition begin_recovery :: "order_book \<Rightarrow> bool \<times> order_book" where
  "begin_recovery book =
     (if ob_state book \<noteq> Stale then (False, book) else (True, book\<lparr>ob_state := Recovering\<rparr>))"

text \<open>The local lambda \<open>load_levels\<close>; \<open>None\<close> is its \<open>return false\<close>.\<close>

fun load_levels :: "level list \<Rightarrow> levels \<Rightarrow> levels option" where
  "load_levels [] destination = Some destination"
| "load_levels (level # source) destination =
     (if quantity_raw (lv_quantity level) = 0 then None
      else case omap_emplace (price_raw (lv_price level)) (quantity_raw (lv_quantity level)) destination of
        None \<Rightarrow> None
      | Some destination \<Rightarrow> load_levels source destination)"

definition apply_snapshot ::
    "stream_id \<Rightarrow> sequence_number \<Rightarrow> level list \<Rightarrow> level list \<Rightarrow> order_book
      \<Rightarrow> book_update_result \<times> order_book" where
  "apply_snapshot stream sequence bids asks book =
     (let load =
        (case load_levels bids [] of None \<Rightarrow> (Invalid_Level, mark_stale book)
         | Some next_bids \<Rightarrow>
           (case load_levels asks [] of None \<Rightarrow> (Invalid_Level, mark_stale book)
            | Some next_asks \<Rightarrow>
                (Applied, \<lparr>ob_state = Valid, ob_stream_id = Some stream, ob_last_sequence = Some sequence,
                   ob_bids = next_bids, ob_asks = next_asks\<rparr>)))
      in if ob_state book = Stale then (Recovery_Not_Started, book)
         else case (ob_state book, ob_stream_id book, ob_last_sequence book) of
           (Valid, Some own, Some latest) \<Rightarrow>
             if stream \<noteq> own then (Stream_Mismatch, mark_stale book)
             else if sequence \<le> latest then (Stale_Snapshot, book)
             else load
         | _ \<Rightarrow> load)"

definition apply_delta_after ::
    "stream_id \<Rightarrow> sequence_number \<Rightarrow> sequence_number \<Rightarrow> side \<Rightarrow> price \<Rightarrow> quantity_delta \<Rightarrow> order_book
      \<Rightarrow> book_update_result \<times> order_book" where
  "apply_delta_after stream predecessor sequence side price delta book =
     (case (ob_state book, ob_stream_id book, ob_last_sequence book) of
        (Valid, Some own, Some latest) \<Rightarrow>
          if stream \<noteq> own then (Stream_Mismatch, mark_stale book)
          else if predecessor < latest \<or> sequence \<le> predecessor \<or> sequence - predecessor \<noteq> 1
          then (Sequence_Gap, mark_stale book)
          else
            let levels = levels_for side book;
                found = map_of levels (price_raw price);
                current = (case found of None \<Rightarrow> 0 | Some q \<Rightarrow> q);
                change = delta_raw delta
            in if (0 < change \<and> int64_max - change < current) \<or> change = int64_min \<or>
                  (change < 0 \<and> current < - change)
            then (Invalid_Level, mark_stale book)
            else
              let updated = current + change;
                  levels' = (if updated = 0 then omap_erase (price_raw price) levels
                             else omap_put (price_raw price) updated levels)
              in (Applied, (set_levels side levels' book)\<lparr>ob_last_sequence := Some sequence\<rparr>)
      | _ \<Rightarrow> (Requires_Snapshot, book))"

definition apply_delta ::
    "stream_id \<Rightarrow> sequence_number \<Rightarrow> side \<Rightarrow> price \<Rightarrow> quantity_delta \<Rightarrow> order_book
      \<Rightarrow> book_update_result \<times> order_book" where
  "apply_delta stream sequence side price delta book =
     apply_delta_after stream (case ob_last_sequence book of None \<Rightarrow> 0 | Some latest \<Rightarrow> latest)
       sequence side price delta book"

text \<open>\<open>rbegin()\<close> of the bids is the last entry, \<open>begin()\<close> of the asks the first.\<close>

definition best_bid :: "order_book \<Rightarrow> price option" where
  "best_bid book =
     (if ob_state book \<noteq> Valid \<or> ob_bids book = [] then None
      else price_from_raw (fst (last (ob_bids book))))"

definition best_ask :: "order_book \<Rightarrow> price option" where
  "best_ask book =
     (if ob_state book \<noteq> Valid \<or> ob_asks book = [] then None
      else price_from_raw (fst (hd (ob_asks book))))"

definition quantity_at :: "side \<Rightarrow> price \<Rightarrow> order_book \<Rightarrow> quantity" where
  "quantity_at side price book =
     (if ob_state book \<noteq> Valid then quantity_of 0
      else quantity_of (case map_of (levels_for side book) (price_raw price) of None \<Rightarrow> 0 | Some q \<Rightarrow> q))"

definition level_count :: "side \<Rightarrow> order_book \<Rightarrow> nat" where
  "level_count side book = length (levels_for side book)"

text \<open>
  \<open>visit_levels\<close>: the visitor is a function of the level and the caller's captured state; it
  returns whether to go on.
\<close>

definition entry_level :: "int \<times> int \<Rightarrow> level" where
  "entry_level e = \<lparr>lv_price = price_of (fst e), lv_quantity = quantity_of (snd e)\<rparr>"

fun visit_entries :: "(level \<Rightarrow> 's \<Rightarrow> bool \<times> 's) \<Rightarrow> levels \<Rightarrow> 's \<Rightarrow> 's" where
  "visit_entries visitor [] s = s"
| "visit_entries visitor (e # es) s =
     (case visitor (entry_level e) s of (continue, s) \<Rightarrow>
        if continue then visit_entries visitor es s else s)"

definition visit_levels :: "side \<Rightarrow> (level \<Rightarrow> 's \<Rightarrow> bool \<times> 's) \<Rightarrow> order_book \<Rightarrow> 's \<Rightarrow> 's" where
  "visit_levels side visitor book s =
     (if ob_state book \<noteq> Valid then s
      else case side of Bid \<Rightarrow> visit_entries visitor (rev (ob_bids book)) s
        | Ask \<Rightarrow> visit_entries visitor (ob_asks book) s)"


subsection \<open>The invariant\<close>

definition levels_ok :: "levels \<Rightarrow> bool" where
  "levels_ok lv \<longleftrightarrow> omap_ok lv \<and>
     (\<forall>(p, q) \<in> set lv. 0 \<le> p \<and> p \<le> 10000 \<and> 0 < q \<and> q \<le> int64_max)"

definition book_ok :: "order_book \<Rightarrow> bool" where
  "book_ok book \<longleftrightarrow> levels_ok (ob_bids book) \<and> levels_ok (ob_asks book) \<and>
     (ob_state book = Valid \<longrightarrow> ob_stream_id book \<noteq> None \<and> ob_last_sequence book \<noteq> None)"

lemma levels_ok_Nil [simp]: "levels_ok []"
  by (simp add: levels_ok_def)

lemma levels_ok_find: "levels_ok lv \<Longrightarrow> map_of lv p = Some q \<Longrightarrow> 0 \<le> p \<and> p \<le> 10000 \<and> 0 < q \<and> q \<le> int64_max"
  by (auto simp: levels_ok_def dest: map_of_SomeD)

lemma levels_ok_put:
  "levels_ok lv \<Longrightarrow> 0 \<le> p \<Longrightarrow> p \<le> 10000 \<Longrightarrow> 0 < q \<Longrightarrow> q \<le> int64_max \<Longrightarrow> levels_ok (omap_put p q lv)"
  using omap_set_put [of p q lv] by (auto simp: levels_ok_def omap_ok_put)

lemma levels_ok_erase: "levels_ok lv \<Longrightarrow> levels_ok (omap_erase p lv)"
  using omap_set_erase [of p lv] by (auto simp: levels_ok_def omap_ok_erase)

lemma load_levels_ok:
  "levels_ok destination \<Longrightarrow> load_levels source destination = Some lv \<Longrightarrow> levels_ok lv"
proof (induction source arbitrary: destination)
  case (Cons level source)
  from Cons.prems have "0 < quantity_raw (lv_quantity level)"
    by (auto simp: order_less_le split: if_splits)
  then have "levels_ok (omap_put (price_raw (lv_price level)) (quantity_raw (lv_quantity level)) destination)"
    using Cons.prems by (intro levels_ok_put) simp_all
  with Cons show ?case by (auto simp: omap_emplace_Some split: if_splits option.splits)
qed simp

text \<open>Loading succeeds exactly on distinct prices with positive quantities, and keeps them all.\<close>

lemma load_levels_Some:
  "load_levels source destination = Some lv \<Longrightarrow>
     map_of lv = map_of (rev (map (\<lambda>l. (price_raw (lv_price l), quantity_raw (lv_quantity l))) source) @ destination) \<and>
     distinct (map lv_price source) \<and> (\<forall>l \<in> set source. 0 < quantity_raw (lv_quantity l))"
proof (induction source arbitrary: destination)
  case (Cons level source)
  from Cons.prems obtain next_levels where
    step: "omap_emplace (price_raw (lv_price level)) (quantity_raw (lv_quantity level)) destination = Some next_levels"
      "load_levels source next_levels = Some lv" and pos: "quantity_raw (lv_quantity level) \<noteq> 0"
    by (auto split: if_splits option.splits)
  note put = step(1) [unfolded omap_emplace_Some]
  have keep: "load_levels source dest = Some lv \<Longrightarrow> dom (map_of dest) \<inter> (price_raw ` lv_price ` set source) = {}" for dest
  proof (induction source arbitrary: dest)
    case (Cons l source)
    then show ?case by (fastforce simp: omap_emplace_Some split: if_splits option.splits)
  qed simp
  from keep [OF step(2)] put have "lv_price level \<notin> lv_price ` set source"
    by auto
  moreover have "0 < quantity_raw (lv_quantity level)" using pos by (simp add: order_less_le)
  ultimately show ?case using Cons.IH [OF step(2)] put
    by auto
qed simp

lemma levels_for_ok: "book_ok book \<Longrightarrow> levels_ok (levels_for side book)"
  by (simp add: book_ok_def levels_for_def split: side.splits)

lemma mark_stale_ok [inv_intros]: "book_ok book \<Longrightarrow> book_ok (mark_stale book)"
  by (simp add: book_ok_def mark_stale_def)

lemma begin_recovery_ok [inv_intros]: "book_ok book \<Longrightarrow> book_ok (snd (begin_recovery book))"
  by (simp add: book_ok_def begin_recovery_def)

lemma new_book_ok [inv_intros]: "book_ok new_book"
  by (simp add: book_ok_def new_book_def)

lemma apply_snapshot_ok [inv_intros]:
  "book_ok book \<Longrightarrow> book_ok (snd (apply_snapshot stream sequence bids asks book))"
  using load_levels_ok [of "[]" bids] load_levels_ok [of "[]" asks]
  by (auto simp: apply_snapshot_def Let_def book_ok_def mark_stale_def split: option.splits book_state.splits)

lemma set_levels_ok:
  "book_ok book \<Longrightarrow> levels_ok lv \<Longrightarrow>
     book_ok ((set_levels side lv book)\<lparr>ob_last_sequence := Some sequence\<rparr>)"
  by (auto simp: book_ok_def set_levels_def split: side.splits)


subsection \<open>The delta\<close>

text \<open>The quantity that a side holds at a raw price, whatever the book's state.\<close>

definition depth :: "side \<Rightarrow> order_book \<Rightarrow> int \<Rightarrow> int" where
  "depth side book p = (case map_of (levels_for side book) p of None \<Rightarrow> 0 | Some q \<Rightarrow> q)"

lemma depth_range: "book_ok book \<Longrightarrow> 0 \<le> depth side book p \<and> depth side book p \<le> int64_max"
  using levels_ok_find [OF levels_for_ok, of book side p]
  by (auto simp: depth_def limits split: option.splits)

lemma depth_mark_stale [simp]: "depth side (mark_stale book) = depth side book"
  by (auto simp: fun_eq_iff depth_def levels_for_def mark_stale_def split: side.splits)

lemma levels_for_set [simp]:
  "levels_for side (set_levels side' lv book) = (if side = side' then lv else levels_for side book)"
  by (cases side; cases side') (simp_all add: levels_for_def set_levels_def)

lemma levels_for_last [simp]:
  "levels_for side (book\<lparr>ob_last_sequence := s\<rparr>) = levels_for side book"
  by (cases side) (simp_all add: levels_for_def)

lemma set_levels_fields [simp]:
  "ob_state (set_levels side lv book) = ob_state book"
  "ob_stream_id (set_levels side lv book) = ob_stream_id book"
  "ob_last_sequence (set_levels side lv book) = ob_last_sequence book"
  by (cases side; simp add: set_levels_def)+

text \<open>The update of the map is the update of the depth: a level at zero is not kept.\<close>

lemma depth_update:
  assumes "book_ok book"
  shows "depth side' ((set_levels side
      (if updated = 0 then omap_erase p (levels_for side book) else omap_put p updated (levels_for side book))
      book)\<lparr>ob_last_sequence := s\<rparr>) q =
    (if side' = side \<and> q = p then updated else depth side' book q)"
proof -
  have "omap_ok (levels_for side book)" using levels_for_ok [OF assms] by (simp add: levels_ok_def)
  then show ?thesis by (simp add: depth_def omap.find_replace)
qed

text \<open>When a delta is accepted, in terms of the depth alone; and what it then does.\<close>

definition delta_accepts ::
    "stream_id \<Rightarrow> sequence_number \<Rightarrow> sequence_number \<Rightarrow> side \<Rightarrow> price \<Rightarrow> quantity_delta \<Rightarrow> order_book \<Rightarrow> bool" where
  "delta_accepts stream predecessor sequence side price delta book \<longleftrightarrow>
     ob_state book = Valid \<and> ob_stream_id book = Some stream \<and>
     (\<exists>latest. ob_last_sequence book = Some latest \<and> latest \<le> predecessor) \<and>
     predecessor < sequence \<and> sequence = predecessor + 1 \<and>
     delta_raw delta \<noteq> int64_min \<and>
     0 \<le> depth side book (price_raw price) + delta_raw delta \<and>
     depth side book (price_raw price) + delta_raw delta \<le> int64_max"

lemma apply_delta_after_iff:
  assumes "book_ok book"
  shows "fst (apply_delta_after stream predecessor sequence side price delta book) = Applied \<longleftrightarrow>
    delta_accepts stream predecessor sequence side price delta book"
proof (cases "ob_state book = Valid")
  case True
  then obtain own latest where own: "ob_stream_id book = Some own" "ob_last_sequence book = Some latest"
    using assms by (auto simp: book_ok_def)
  have current: "(case map_of (levels_for side book) (price_raw price) of None \<Rightarrow> 0 | Some q \<Rightarrow> q) =
      depth side book (price_raw price)" by (simp add: depth_def)
  have seq: "sequence - predecessor \<noteq> 1 \<longleftrightarrow> sequence \<noteq> predecessor + 1" by (auto simp: algebra_simps)
  show ?thesis
    using depth_range [OF assms, of side "price_raw price"]
    by (auto simp: apply_delta_after_def delta_accepts_def Let_def True own current seq)
next
  case False
  then show ?thesis
    by (auto simp: apply_delta_after_def delta_accepts_def split: book_state.splits)
qed

lemma apply_delta_after_Applied:
  assumes "book_ok book"
    and "apply_delta_after stream predecessor sequence side price delta book = (Applied, book')"
  shows "depth side' book' q = depth side' book q +
      (if side' = side \<and> q = price_raw price then delta_raw delta else 0)"
    and "ob_state book' = Valid" and "ob_stream_id book' = Some stream"
    and "ob_last_sequence book' = Some sequence" and "book_ok book'"
proof -
  have acc: "delta_accepts stream predecessor sequence side price delta book"
    using assms apply_delta_after_iff by (metis fst_conv)
  then obtain latest where own: "ob_state book = Valid" "ob_stream_id book = Some stream"
      "ob_last_sequence book = Some latest" by (auto simp: delta_accepts_def)
  define updated where "updated = depth side book (price_raw price) + delta_raw delta"
  have book': "book' = (set_levels side
      (if updated = 0 then omap_erase (price_raw price) (levels_for side book)
       else omap_put (price_raw price) updated (levels_for side book)) book)\<lparr>ob_last_sequence := Some sequence\<rparr>"
    using assms(2) by (auto simp: apply_delta_after_def own Let_def depth_def updated_def split: if_splits)
  show "depth side' book' q = depth side' book q +
      (if side' = side \<and> q = price_raw price then delta_raw delta else 0)"
    unfolding book' depth_update [OF assms(1)] by (simp add: updated_def)
  show "ob_state book' = Valid" "ob_stream_id book' = Some stream" "ob_last_sequence book' = Some sequence"
    by (simp_all add: book' own)
  have "0 \<le> updated" "updated \<le> int64_max" using acc by (simp_all add: delta_accepts_def updated_def)
  then show "book_ok book'"
    unfolding book' using assms(1)
    by (intro set_levels_ok) (auto intro!: levels_ok_put levels_ok_erase levels_for_ok)
qed

lemma apply_delta_after_rejected:
  "apply_delta_after stream predecessor sequence side price delta book = (r, book') \<Longrightarrow> r \<noteq> Applied \<Longrightarrow>
     book' = (if r = Requires_Snapshot then book else mark_stale book)"
  by (auto simp: apply_delta_after_def Let_def split: book_state.splits option.splits if_splits)

lemma apply_delta_after_ok [inv_intros]:
  "book_ok book \<Longrightarrow> book_ok (snd (apply_delta_after stream predecessor sequence side price delta book))"
proof -
  assume ok: "book_ok book"
  obtain r book' where run: "apply_delta_after stream predecessor sequence side price delta book = (r, book')"
    by fastforce
  show ?thesis
  proof (cases "r = Applied")
    case True
    with run ok show ?thesis using apply_delta_after_Applied(5) by simp
  next
    case False
    with apply_delta_after_rejected [OF run] run ok show ?thesis by (simp add: mark_stale_ok)
  qed
qed

lemma apply_delta_ok [inv_intros]:
  "book_ok book \<Longrightarrow> book_ok (snd (apply_delta stream sequence side price delta book))"
  unfolding apply_delta_def by (rule apply_delta_after_ok)


subsection \<open>Histories of a book\<close>

datatype book_input =
  Snapshot_In stream_id sequence_number "level list" "level list"
| Delta_In stream_id sequence_number sequence_number side price quantity_delta
| Mark_Stale_In
| Recover_In

inductive book_step :: "order_book \<Rightarrow> book_input \<Rightarrow> order_book \<Rightarrow> bool" where
  step_snapshot: "book_step book (Snapshot_In stream sequence bids asks)
     (snd (apply_snapshot stream sequence bids asks book))"
| step_delta: "book_step book (Delta_In stream predecessor sequence side price delta)
     (snd (apply_delta_after stream predecessor sequence side price delta book))"
| step_mark_stale: "book_step book Mark_Stale_In (mark_stale book)"
| step_recover: "book_step book Recover_In (snd (begin_recovery book))"

inductive_cases book_step_cases [elim]: "book_step book i book'"

inductive_simps book_step_simps:
  "book_step book (Snapshot_In stream sequence bids asks) book'"
  "book_step book (Delta_In stream predecessor sequence side price delta) book'"
  "book_step book Mark_Stale_In book'"
  "book_step book Recover_In book'"

inductive reachable_book :: "order_book \<Rightarrow> bool" where
  reach_new: "reachable_book new_book"
| reach_step: "reachable_book book \<Longrightarrow> book_step book i book' \<Longrightarrow> reachable_book book'"

lemma book_step_ok [inv_intros]: "book_step book i book' \<Longrightarrow> book_ok book \<Longrightarrow> book_ok book'"
  by (elim book_step_cases) (auto intro: inv_intros)

lemma reachable_book_ok: "reachable_book book \<Longrightarrow> book_ok book"
  by (induction rule: reachable_book.induct) (auto intro: inv_intros)

text \<open>What a book shows to its clients: the levels of a side, best first.\<close>

definition shown_levels :: "side \<Rightarrow> order_book \<Rightarrow> level list" where
  "shown_levels side book = visit_levels side (\<lambda>l acc. (True, acc @ [l])) book []"

lemma visit_entries_collect:
  "visit_entries (\<lambda>l acc. (True, acc @ [l])) es acc = acc @ map entry_level es"
  by (induction es arbitrary: acc) auto

lemma shown_levels_eq:
  "shown_levels side book = (if ob_state book \<noteq> Valid then []
     else map entry_level (case side of Bid \<Rightarrow> rev (ob_bids book) | Ask \<Rightarrow> ob_asks book))"
  by (auto simp: shown_levels_def visit_levels_def visit_entries_collect split: side.splits)

lemma entry_level_raw:
  "levels_ok lv \<Longrightarrow> e \<in> set lv \<Longrightarrow>
     price_raw (lv_price (entry_level e)) = fst e \<and> quantity_raw (lv_quantity (entry_level e)) = snd e"
  by (cases e) (auto simp: levels_ok_def entry_level_def limits)

lemma levels_sorted:
  "levels_ok lv \<Longrightarrow> sorted_wrt (\<lambda>a b. price_raw (lv_price a) < price_raw (lv_price b)) (map entry_level lv)"
proof -
  assume ok: "levels_ok lv"
  then have "sorted_wrt (\<lambda>a b. fst a < fst b) lv"
    by (simp add: levels_ok_def omap_ok_def sorted_wrt_map)
  then have "sorted_wrt (\<lambda>a b. price_raw (lv_price (entry_level a)) < price_raw (lv_price (entry_level b))) lv"
    by (rule sorted_wrt_mono_rel [rotated]) (simp add: entry_level_raw [OF ok])
  then show ?thesis by (simp add: sorted_wrt_map)
qed

lemma best_bid_shown:
  assumes "book_ok book"
  shows "best_bid book = (case shown_levels Bid book of [] \<Rightarrow> None | l # _ \<Rightarrow> Some (lv_price l))"
proof (cases "ob_state book = Valid \<and> ob_bids book \<noteq> []")
  case True
  then have mem: "last (ob_bids book) \<in> set (ob_bids book)" by simp
  have "levels_ok (ob_bids book)" using assms by (simp add: book_ok_def)
  with mem have "0 \<le> fst (last (ob_bids book)) \<and> fst (last (ob_bids book)) \<le> 10000"
    by (auto simp: levels_ok_def)
  with True show ?thesis
    by (cases "ob_bids book" rule: rev_cases)
      (auto simp: best_bid_def shown_levels_eq price_from_raw_def entry_level_def price_scale_def)
qed (auto simp: best_bid_def shown_levels_eq)

lemma best_ask_shown:
  assumes "book_ok book"
  shows "best_ask book = (case shown_levels Ask book of [] \<Rightarrow> None | l # _ \<Rightarrow> Some (lv_price l))"
proof (cases "ob_state book = Valid \<and> ob_asks book \<noteq> []")
  case True
  have "levels_ok (ob_asks book)" using assms by (simp add: book_ok_def)
  with True have "0 \<le> fst (hd (ob_asks book)) \<and> fst (hd (ob_asks book)) \<le> 10000"
    by (cases "ob_asks book") (auto simp: levels_ok_def)
  with True show ?thesis
    by (cases "ob_asks book")
      (auto simp: best_ask_def shown_levels_eq price_from_raw_def entry_level_def price_scale_def)
qed (auto simp: best_ask_def shown_levels_eq)

lemma quantity_at_depth:
  "book_ok book \<Longrightarrow> quantity_raw (quantity_at side price book) =
     (if ob_state book = Valid then depth side book (price_raw price) else 0)"
  using depth_range [of book side "price_raw price"]
  by (auto simp: quantity_at_def depth_def limits)

lemma shown_level_depth:
  assumes "book_ok book"
  shows "l \<in> set (shown_levels side book) \<longleftrightarrow> ob_state book = Valid \<and>
    0 < quantity_raw (lv_quantity l) \<and> depth side book (price_raw (lv_price l)) = quantity_raw (lv_quantity l)"
proof -
  define lv where "lv = levels_for side book"
  have ok: "levels_ok lv" unfolding lv_def using assms by (rule levels_for_ok)
  then have find: "map_of lv p = Some q \<longleftrightarrow> (p, q) \<in> set lv" for p q
    by (intro omap_find_mem) (simp add: levels_ok_def)
  have "set (shown_levels side book) = (if ob_state book = Valid then entry_level ` set lv else {})"
    by (cases side) (auto simp: shown_levels_eq lv_def levels_for_def)
  moreover have "l \<in> entry_level ` set lv \<longleftrightarrow> (price_raw (lv_price l), quantity_raw (lv_quantity l)) \<in> set lv"
  proof
    assume "l \<in> entry_level ` set lv"
    then obtain e where e: "e \<in> set lv" "l = entry_level e" by blast
    with entry_level_raw [OF ok e(1)] show "(price_raw (lv_price l), quantity_raw (lv_quantity l)) \<in> set lv"
      by simp
  next
    assume "(price_raw (lv_price l), quantity_raw (lv_quantity l)) \<in> set lv"
    then show "l \<in> entry_level ` set lv"
      by (rule rev_image_eqI) (simp add: entry_level_def)
  qed
  ultimately show ?thesis
    using levels_ok_find [OF ok] by (auto simp: depth_def find [symmetric] simp flip: lv_def split: option.splits)
qed

text \<open>
  Claim C29. What any history of snapshots, deltas, invalidations and recoveries lets a client
  see: bids from the highest price strictly down, asks from the lowest strictly up, each level
  with a positive quantity which is also what \<open>quantity_at\<close> returns; the best price is the
  first level's; and nothing at all unless the book is valid.
\<close>

theorem shown_book_sound:
  assumes "reachable_book book"
  shows "sorted_wrt (\<lambda>a b. price_raw (lv_price b) < price_raw (lv_price a)) (shown_levels Bid book) \<and>
    sorted_wrt (\<lambda>a b. price_raw (lv_price a) < price_raw (lv_price b)) (shown_levels Ask book) \<and>
    (l \<in> set (shown_levels side book) \<longleftrightarrow>
      0 < quantity_raw (lv_quantity l) \<and> quantity_at side (lv_price l) book = lv_quantity l) \<and>
    best_bid book = (case shown_levels Bid book of [] \<Rightarrow> None | l # _ \<Rightarrow> Some (lv_price l)) \<and>
    best_ask book = (case shown_levels Ask book of [] \<Rightarrow> None | l # _ \<Rightarrow> Some (lv_price l)) \<and>
    (ob_state book = Valid \<or> shown_levels side book = [])"
proof -
  have ok: "book_ok book" using assms by (rule reachable_book_ok)
  then have "levels_ok (ob_bids book)" "levels_ok (ob_asks book)" by (simp_all add: book_ok_def)
  then have "sorted_wrt (\<lambda>a b. price_raw (lv_price b) < price_raw (lv_price a)) (shown_levels Bid book)"
    "sorted_wrt (\<lambda>a b. price_raw (lv_price a) < price_raw (lv_price b)) (shown_levels Ask book)"
    using levels_sorted by (auto simp: shown_levels_eq sorted_wrt_rev simp flip: rev_map)
  moreover have "l \<in> set (shown_levels side book) \<longleftrightarrow>
      0 < quantity_raw (lv_quantity l) \<and> quantity_at side (lv_price l) book = lv_quantity l"
    unfolding quantity_raw_inject [symmetric] quantity_at_depth [OF ok] shown_level_depth [OF ok]
    by auto
  moreover have "ob_state book = Valid \<or> shown_levels side book = []" by (simp add: shown_levels_eq)
  ultimately show ?thesis using best_bid_shown [OF ok] best_ask_shown [OF ok] by blast
qed

text \<open>A book reached by a snapshot and a delta.\<close>

definition example_book :: order_book where
  "example_book = \<lparr>ob_state = Valid, ob_stream_id = Some 9, ob_last_sequence = Some 101,
     ob_bids = [(6200, 1000), (6300, 200)], ob_asks = [(6400, 800)]\<rparr>"

lemma example_snapshot:
  "apply_snapshot 9 100 [\<lparr>lv_price = price_of 6200, lv_quantity = quantity_of 1000\<rparr>]
     [\<lparr>lv_price = price_of 6400, lv_quantity = quantity_of 800\<rparr>] new_book =
   (Applied, \<lparr>ob_state = Valid, ob_stream_id = Some 9, ob_last_sequence = Some 100,
     ob_bids = [(6200, 1000)], ob_asks = [(6400, 800)]\<rparr>)"
  by (simp add: apply_snapshot_def new_book_def omap_emplace_def)

lemma example_delta:
  "apply_delta_after 9 100 101 Bid (price_of 6300) (delta_of 200) \<lparr>ob_state = Valid, ob_stream_id = Some 9,
     ob_last_sequence = Some 100, ob_bids = [(6200, 1000)], ob_asks = [(6400, 800)]\<rparr> = (Applied, example_book)"
  by (simp add: apply_delta_after_def levels_for_def set_levels_def example_book_def limits)

lemma example_reachable: "reachable_book example_book"
  using reach_step [OF reach_step [OF reach_new step_snapshot] step_delta,
    of 9 100 101 Bid "price_of 6300" "delta_of 200" 9 100
      "[\<lparr>lv_price = price_of 6200, lv_quantity = quantity_of 1000\<rparr>]"
      "[\<lparr>lv_price = price_of 6400, lv_quantity = quantity_of 800\<rparr>]"]
  by (simp add: example_snapshot example_delta)

lemma shown_book_sound_witness:
  "best_bid example_book = Some (price_of 6300) \<and>
   \<lparr>lv_price = price_of 6200, lv_quantity = quantity_of 1000\<rparr> \<in> set (shown_levels Bid example_book)"
  using shown_book_sound [OF example_reachable,
      of "\<lparr>lv_price = price_of 6200, lv_quantity = quantity_of 1000\<rparr>" Bid]
  by (simp add: shown_levels_eq example_book_def entry_level_def quantity_at_def levels_for_def)


subsection \<open>Snapshot plus deltas\<close>

type_synonym delta_update = "sequence_number \<times> side \<times> price \<times> quantity_delta"

text \<open>Deltas applied one after the other, as long as each is accepted.\<close>

fun apply_deltas :: "stream_id \<Rightarrow> delta_update list \<Rightarrow> order_book \<Rightarrow> order_book option" where
  "apply_deltas stream [] book = Some book"
| "apply_deltas stream ((sequence, side, price, delta) # updates) book =
     (case apply_delta stream sequence side price delta book of (r, book) \<Rightarrow>
        if r = Applied then apply_deltas stream updates book else None)"

fun net_change :: "side \<Rightarrow> int \<Rightarrow> delta_update list \<Rightarrow> int" where
  "net_change side p [] = 0"
| "net_change side p ((sequence, side', price, delta) # updates) =
     (if side' = side \<and> price_raw price = p then delta_raw delta else 0) + net_change side p updates"

fun snapshot_quantity :: "int \<Rightarrow> level list \<Rightarrow> int" where
  "snapshot_quantity p [] = 0"
| "snapshot_quantity p (l # ls) =
     (if price_raw (lv_price l) = p then quantity_raw (lv_quantity l) else 0) + snapshot_quantity p ls"

fun consecutive_from :: "sequence_number \<Rightarrow> sequence_number list \<Rightarrow> bool" where
  "consecutive_from n [] \<longleftrightarrow> True"
| "consecutive_from n (m # ms) \<longleftrightarrow> m = n + 1 \<and> n < m \<and> consecutive_from m ms"

lemma apply_delta_Applied:
  assumes "book_ok book" and "apply_delta stream sequence side price delta book = (Applied, book')"
  shows "book_ok book'" and "ob_state book' = Valid" and "ob_stream_id book' = Some stream"
    and "ob_last_sequence book' = Some sequence"
    and "\<exists>latest. ob_last_sequence book = Some latest \<and> sequence = latest + 1 \<and> latest < sequence"
    and "depth side' book' q = depth side' book q +
      (if side' = side \<and> q = price_raw price then delta_raw delta else 0)"
proof -
  define pred where "pred = (case ob_last_sequence book of None \<Rightarrow> 0 | Some latest \<Rightarrow> latest)"
  have run: "apply_delta_after stream pred sequence side price delta book = (Applied, book')"
    using assms(2) by (simp add: apply_delta_def pred_def)
  note applied = apply_delta_after_Applied [OF assms(1) run]
  show "book_ok book'" "ob_state book' = Valid" "ob_stream_id book' = Some stream"
      "ob_last_sequence book' = Some sequence" by (rule applied)+
  show "depth side' book' q = depth side' book q +
      (if side' = side \<and> q = price_raw price then delta_raw delta else 0)" by (rule applied)
  have "delta_accepts stream pred sequence side price delta book"
    using run apply_delta_after_iff [OF assms(1)] by (metis fst_conv)
  then show "\<exists>latest. ob_last_sequence book = Some latest \<and> sequence = latest + 1 \<and> latest < sequence"
    by (auto simp: delta_accepts_def pred_def)
qed

lemma apply_deltas_depth:
  "apply_deltas stream updates book = Some book' \<Longrightarrow> book_ok book \<Longrightarrow> ob_state book = Valid \<Longrightarrow>
   ob_last_sequence book = Some n \<Longrightarrow>
     book_ok book' \<and> ob_state book' = Valid \<and> consecutive_from n (map fst updates) \<and>
     ob_last_sequence book' = Some (last (n # map fst updates)) \<and>
     depth side book' p = depth side book p + net_change side p updates"
proof (induction updates arbitrary: book n)
  case (Cons u updates)
  obtain sequence side' price delta where u: "u = (sequence, side', price, delta)" by (cases u)
  from Cons.prems(1) obtain book1 where step: "apply_delta stream sequence side' price delta book = (Applied, book1)"
    and rest: "apply_deltas stream updates book1 = Some book'"
    by (auto simp: u split: prod.splits if_splits)
  note applied = apply_delta_Applied [OF Cons.prems(2) step]
  from applied(5) Cons.prems(4) have "sequence = n + 1" "n < sequence" by auto
  with Cons.IH [OF rest applied(1,2,4)] applied(6) [of side p] show ?case by (auto simp: u)
qed simp

lemma snapshot_quantity_find:
  assumes "distinct (map lv_price ls)"
  shows "snapshot_quantity p ls =
     (case map_of (rev (map (\<lambda>l. (price_raw (lv_price l), quantity_raw (lv_quantity l))) ls)) p of
        None \<Rightarrow> 0 | Some q \<Rightarrow> q)"
proof -
  have absent: "lv_price l \<notin> lv_price ` set ms \<Longrightarrow> snapshot_quantity (price_raw (lv_price l)) ms = 0" for l ms
    by (induction ms) (auto simp: price_raw_inject)
  have "snapshot_quantity p ls =
     (case map_of (map (\<lambda>l. (price_raw (lv_price l), quantity_raw (lv_quantity l))) ls) p of
        None \<Rightarrow> 0 | Some q \<Rightarrow> q)"
    using assms absent by (induction ls) auto
  moreover have "distinct (map fst (map (\<lambda>l. (price_raw (lv_price l), quantity_raw (lv_quantity l))) ls))"
    using assms by (induction ls) (auto simp: price_raw_inject)
  moreover have "distinct (map fst xs) \<Longrightarrow> map_of (rev xs) = map_of xs" for xs :: "(int \<times> int) list"
    by (subst map_of_inject_set) (simp_all flip: rev_map)
  ultimately show ?thesis by simp
qed

lemma apply_snapshot_Applied:
  assumes "apply_snapshot stream sequence bids asks book = (Applied, book')"
  shows "book_ok book'" and "ob_state book' = Valid" and "ob_stream_id book' = Some stream"
    and "ob_last_sequence book' = Some sequence"
    and "depth side book' p = snapshot_quantity p (case side of Bid \<Rightarrow> bids | Ask \<Rightarrow> asks)"
proof -
  from assms obtain lb la where lb: "load_levels bids [] = Some lb" and la: "load_levels asks [] = Some la"
    and book': "book' = \<lparr>ob_state = Valid, ob_stream_id = Some stream, ob_last_sequence = Some sequence,
      ob_bids = lb, ob_asks = la\<rparr>"
    by (auto simp: apply_snapshot_def Let_def split: if_splits option.splits book_state.splits)
  show "ob_state book' = Valid" "ob_stream_id book' = Some stream" "ob_last_sequence book' = Some sequence"
    by (simp_all add: book')
  show "book_ok book'" using lb la load_levels_ok [of "[]"] by (simp add: book' book_ok_def)
  show "depth side book' p = snapshot_quantity p (case side of Bid \<Rightarrow> bids | Ask \<Rightarrow> asks)"
    using load_levels_Some [OF lb] load_levels_Some [OF la]
    by (cases side) (simp_all add: depth_def levels_for_def book' snapshot_quantity_find)
qed

text \<open>
  Claim C28. Replication is exact. After an accepted snapshot and any number of accepted
  deltas, the sequence numbers seen are consecutive without wrapping, the book holds the last
  one, and the quantity it shows at every price is the snapshot's plus the sum of that
  price's deltas, whatever their order.
\<close>

theorem book_replicates_stream:
  assumes "apply_snapshot stream n bids asks book = (Applied, book0)"
    and "apply_deltas stream updates book0 = Some book1"
  shows "consecutive_from n (map fst updates) \<and>
    ob_last_sequence book1 = Some (last (n # map fst updates)) \<and>
    quantity_raw (quantity_at side price book1) =
      snapshot_quantity (price_raw price) (case side of Bid \<Rightarrow> bids | Ask \<Rightarrow> asks) +
      net_change side (price_raw price) updates"
proof -
  note snap = apply_snapshot_Applied [OF assms(1)]
  from apply_deltas_depth [OF assms(2) snap(1,2,4)] snap(5)
  have "book_ok book1 \<and> ob_state book1 = Valid \<and> consecutive_from n (map fst updates) \<and>
      ob_last_sequence book1 = Some (last (n # map fst updates)) \<and>
      depth side book1 (price_raw price) =
        snapshot_quantity (price_raw price) (case side of Bid \<Rightarrow> bids | Ask \<Rightarrow> asks) +
        net_change side (price_raw price) updates" by simp
  then show ?thesis by (simp add: quantity_at_depth)
qed

lemma example_deltas:
  "apply_deltas 9 [(101, Bid, price_of 6300, delta_of 200)] \<lparr>ob_state = Valid, ob_stream_id = Some 9,
     ob_last_sequence = Some 100, ob_bids = [(6200, 1000)], ob_asks = [(6400, 800)]\<rparr> = Some example_book"
  by (simp add: apply_delta_def example_delta)

lemma book_replicates_stream_witness:
  "quantity_raw (quantity_at Bid (price_of 6300) example_book) = 200 \<and>
   ob_last_sequence example_book = Some 101"
  using book_replicates_stream [OF example_snapshot example_deltas, of Bid "price_of 6300"] by simp


subsection \<open>Rejected updates, and the way back\<close>

lemma shown_mark_stale [simp]: "shown_levels side (mark_stale book) = []"
  by (simp add: shown_levels_eq mark_stale_def)

lemma shown_invalid: "ob_state book \<noteq> Valid \<Longrightarrow> shown_levels side book = []"
  by (simp add: shown_levels_eq)

lemma apply_snapshot_rejected:
  "apply_snapshot stream sequence bids asks book = (r, book') \<Longrightarrow> r \<noteq> Applied \<Longrightarrow>
     book' = mark_stale book \<or> (ob_state book = Stale \<and> book' = book) \<or> (r = Stale_Snapshot \<and> book' = book)"
  by (auto simp: apply_snapshot_def Let_def split: option.splits book_state.splits if_splits)

lemma apply_delta_rejected:
  "apply_delta stream sequence side price delta book = (r, book') \<Longrightarrow> r \<noteq> Applied \<Longrightarrow>
     book' = mark_stale book \<or> (r = Requires_Snapshot \<and> book' = book)"
  unfolding apply_delta_def by (drule (1) apply_delta_after_rejected) (simp split: if_splits)

lemma requires_snapshot_invalid:
  "apply_delta_after stream predecessor sequence side price delta book = (Requires_Snapshot, book') \<Longrightarrow>
     book_ok book \<Longrightarrow> ob_state book \<noteq> Valid"
  by (auto simp: apply_delta_after_def book_ok_def Let_def split: if_splits)

text \<open>
  An update that is not applied fails closed: the book shows no level of either side
  afterwards. The one exception is a snapshot that is no newer than the live book, which leaves
  the whole book as it was.
\<close>

theorem rejected_update_fails_closed:
  assumes "reachable_book book" and "r \<noteq> Applied"
    and "apply_snapshot stream sequence bids asks book = (r, book') \<or>
      apply_delta stream sequence side price delta book = (r, book')"
  shows "(shown_levels Bid book' = [] \<and> shown_levels Ask book' = []) \<or> (r = Stale_Snapshot \<and> book' = book)"
  using assms(3)
proof
  assume "apply_snapshot stream sequence bids asks book = (r, book')"
  from apply_snapshot_rejected [OF this assms(2)] show ?thesis by (auto simp: shown_invalid)
next
  assume run: "apply_delta stream sequence side price delta book = (r, book')"
  from apply_delta_rejected [OF this assms(2)]
    requires_snapshot_invalid [OF _ reachable_book_ok [OF assms(1)]] run
  show ?thesis by (auto simp: shown_invalid apply_delta_def)
qed

lemma rejected_update_fails_closed_witness:
  "shown_levels Bid (snd (apply_delta 9 104 Ask (price_of 6400) (delta_of (- 100)) example_book)) = []"
proof -
  have "apply_delta 9 104 Ask (price_of 6400) (delta_of (- 100)) example_book =
      (Sequence_Gap, mark_stale example_book)"
    by (simp add: apply_delta_def apply_delta_after_def example_book_def)
  with rejected_update_fails_closed [OF example_reachable _ disjI2 [OF this]] show ?thesis by simp
qed

text \<open>
  The life cycle. Only an accepted snapshot makes a book valid, and never directly
  from stale; a valid book stays valid only by an accepted update or one that left it
  unchanged; and a stale book changes only by the explicit start of a recovery.
\<close>

theorem book_life_cycle:
  assumes "book_step book i book'"
  shows "(ob_state book' = Valid \<longrightarrow> book' = book \<or>
      (\<exists>stream n bids asks. i = Snapshot_In stream n bids asks \<and> ob_state book \<noteq> Stale \<and>
         fst (apply_snapshot stream n bids asks book) = Applied) \<or>
      (\<exists>stream p n side price delta. i = Delta_In stream p n side price delta \<and> ob_state book = Valid \<and>
         fst (apply_delta_after stream p n side price delta book) = Applied)) \<and>
    (ob_state book = Stale \<longrightarrow> book' = book \<or> (i = Recover_In \<and> ob_state book' = Recovering))"
  using assms
proof cases
  case (step_snapshot stream sequence bids asks)
  then show ?thesis
    by (cases "apply_snapshot stream sequence bids asks book")
      (auto dest: apply_snapshot_rejected simp: mark_stale_def, auto simp: apply_snapshot_def Let_def)
next
  case (step_delta stream predecessor sequence side price delta)
  obtain r b where run: "apply_delta_after stream predecessor sequence side price delta book = (r, b)"
    by fastforce
  have "ob_state book \<noteq> Valid \<Longrightarrow> r = Requires_Snapshot \<and> b = book"
    using run by (auto simp: apply_delta_after_def split: book_state.splits)
  moreover from apply_delta_after_rejected [OF run]
  have "r \<noteq> Applied \<Longrightarrow> b = (if r = Requires_Snapshot then book else mark_stale book)" .
  ultimately show ?thesis using step_delta run
    by (cases "r = Applied"; cases "ob_state book = Valid") (auto simp: mark_stale_def split: if_splits)
next
  case step_mark_stale
  then show ?thesis by (simp add: mark_stale_def)
next
  case step_recover
  then show ?thesis by (simp add: begin_recovery_def)
qed

lemma book_life_cycle_witness:
  "snd (begin_recovery (mark_stale example_book)) \<noteq> mark_stale example_book \<and>
   ob_state (snd (begin_recovery (mark_stale example_book))) = Recovering"
  using book_life_cycle [OF step_recover [of "mark_stale example_book"]]
  by (simp add: begin_recovery_def mark_stale_def example_book_def)

end
