(* ===== verification/Market_State.thy ===== *)
theory Market_State
  imports Order_Book
begin

text \<open>
  The books of one connection, after \<open>include/eme/market/normalized_event.hpp\<close>,
  \<open>include/eme/market/market_state.hpp\<close> and \<open>src/market/market_state.cpp\<close>: connection
  generations, one book per market, and the two sequence scopes. What the market relies on in
  a book is the locale \<open>sequenced_book\<close>, interpreted on the order book; shown are the
  invariant of every reachable market, and that in the shared scope one bad message takes
  everything down.
\<close>

subsection \<open>Events\<close>

type_synonym market_id = u32
type_synonym connection_generation = u64
type_synonym receive_time = int

record book_snapshot =
  bs_market_id :: market_id
  bs_generation :: connection_generation
  bs_stream_id :: stream_id
  bs_sequence :: sequence_number
  bs_received_at :: receive_time
  bs_bids :: "level list"
  bs_asks :: "level list"

record book_delta =
  bd_market_id :: market_id
  bd_generation :: connection_generation
  bd_stream_id :: stream_id
  bd_sequence :: sequence_number
  bd_received_at :: receive_time
  bd_side :: side
  bd_price :: price
  bd_quantity_delta :: quantity_delta

datatype normalized_market_event = Snapshot_Event book_snapshot | Delta_Event book_delta


subsection \<open>State\<close>

datatype sequence_scope = Per_Book | Shared_Stream

datatype market_apply_result = Book_Result book_update_result | Connection_Mismatch

text \<open>
  The two unordered maps are lists of entries in key order; nothing the code does depends on
  their iteration order.
\<close>

record market_state =
  ms_generation :: "connection_generation option"
  ms_connected :: bool
  ms_books :: "(market_id \<times> order_book) list"
  ms_scope :: sequence_scope
  ms_stream_sequences :: "(stream_id \<times> sequence_number) list"

definition new_market_state :: "sequence_scope \<Rightarrow> market_state" where
  "new_market_state scope = \<lparr>ms_generation = None, ms_connected = False, ms_books = [],
     ms_scope = scope, ms_stream_sequences = []\<rparr>"


subsection \<open>Operations\<close>

definition invalidate_all :: "market_state \<Rightarrow> market_state" where
  "invalidate_all ms = ms\<lparr>ms_books := map (\<lambda>(m, book). (m, mark_stale book)) (ms_books ms)\<rparr>"

definition open_connection :: "connection_generation \<Rightarrow> market_state \<Rightarrow> bool \<times> market_state" where
  "open_connection generation ms =
     (if generation = 0 \<or>
         (case ms_generation ms of None \<Rightarrow> False | Some current \<Rightarrow> generation \<le> current)
      then (False, ms)
      else
        let ms = (if ms_generation ms \<noteq> None then invalidate_all ms else ms)
        in (True, ms\<lparr>ms_generation := Some generation, ms_stream_sequences := [], ms_connected := True\<rparr>))"

definition close_connection :: "connection_generation \<Rightarrow> market_state \<Rightarrow> bool \<times> market_state" where
  "close_connection generation ms =
     (if \<not> ms_connected ms \<or> ms_generation ms \<noteq> Some generation then (False, ms)
      else (True, invalidate_all (ms\<lparr>ms_connected := False\<rparr>)))"

definition market_begin_recovery :: "market_id \<Rightarrow> market_state \<Rightarrow> bool \<times> market_state" where
  "market_begin_recovery market ms =
     (if \<not> ms_connected ms then (False, ms)
      else case map_of (ms_books ms) market of
        None \<Rightarrow> (False, ms)
      | Some book \<Rightarrow>
          (case begin_recovery book of (ok, book) \<Rightarrow>
             (ok, ms\<lparr>ms_books := omap_put market book (ms_books ms)\<rparr>)))"

definition accepts :: "connection_generation \<Rightarrow> market_state \<Rightarrow> bool" where
  "accepts generation ms \<longleftrightarrow> ms_connected ms \<and> ms_generation ms = Some generation"

definition accepts_sequence :: "stream_id \<Rightarrow> sequence_number \<Rightarrow> market_state \<Rightarrow> bool" where
  "accepts_sequence stream sequence ms \<longleftrightarrow>
     (case map_of (ms_stream_sequences ms) stream of None \<Rightarrow> True
      | Some previous \<Rightarrow> previous < sequence \<and> sequence - previous = 1)"

text \<open>Called on accepted connections only, so \<open>*connection_generation_\<close> is there.\<close>

definition finish_shared ::
    "stream_id \<Rightarrow> sequence_number \<Rightarrow> book_update_result \<Rightarrow> market_state
      \<Rightarrow> market_apply_result \<times> market_state" where
  "finish_shared stream sequence result ms =
     (Book_Result result,
      if result = Applied
      then ms\<lparr>ms_stream_sequences := omap_put stream sequence (ms_stream_sequences ms)\<rparr>
      else snd (close_connection (the (ms_generation ms)) ms))"

definition apply_book_snapshot :: "book_snapshot \<Rightarrow> market_state \<Rightarrow> market_apply_result \<times> market_state" where
  "apply_book_snapshot snapshot ms =
     (if \<not> accepts (bs_generation snapshot) ms then (Connection_Mismatch, ms)
      else if ms_scope ms = Shared_Stream \<and> \<not> accepts_sequence (bs_stream_id snapshot) (bs_sequence snapshot) ms
      then finish_shared (bs_stream_id snapshot) (bs_sequence snapshot) Sequence_Gap ms
      else
        let found = (case map_of (ms_books ms) (bs_market_id snapshot) of None \<Rightarrow> new_book | Some book \<Rightarrow> book)
        in case apply_snapshot (bs_stream_id snapshot) (bs_sequence snapshot) (bs_bids snapshot) (bs_asks snapshot) found of
             (result, book) \<Rightarrow>
               let ms = ms\<lparr>ms_books := omap_put (bs_market_id snapshot) book (ms_books ms)\<rparr>
               in if ms_scope ms = Shared_Stream
                  then finish_shared (bs_stream_id snapshot) (bs_sequence snapshot) result ms
                  else (Book_Result result, ms))"

definition apply_book_delta :: "book_delta \<Rightarrow> market_state \<Rightarrow> market_apply_result \<times> market_state" where
  "apply_book_delta delta ms =
     (if \<not> accepts (bd_generation delta) ms then (Connection_Mismatch, ms)
      else case map_of (ms_books ms) (bd_market_id delta) of
        None \<Rightarrow>
          if ms_scope ms = Shared_Stream
          then finish_shared (bd_stream_id delta) (bd_sequence delta) Requires_Snapshot ms
          else (Book_Result Requires_Snapshot, ms)
      | Some found \<Rightarrow>
          if ms_scope ms = Shared_Stream then
            (case map_of (ms_stream_sequences ms) (bd_stream_id delta) of
               None \<Rightarrow> finish_shared (bd_stream_id delta) (bd_sequence delta) Sequence_Gap ms
             | Some previous \<Rightarrow>
                 if \<not> accepts_sequence (bd_stream_id delta) (bd_sequence delta) ms
                 then finish_shared (bd_stream_id delta) (bd_sequence delta) Sequence_Gap ms
                 else
                   (case apply_delta_after (bd_stream_id delta) previous (bd_sequence delta) (bd_side delta)
                      (bd_price delta) (bd_quantity_delta delta) found of (result, book) \<Rightarrow>
                      finish_shared (bd_stream_id delta) (bd_sequence delta) result
                        (ms\<lparr>ms_books := omap_put (bd_market_id delta) book (ms_books ms)\<rparr>)))
          else
            (case apply_delta (bd_stream_id delta) (bd_sequence delta) (bd_side delta) (bd_price delta)
                (bd_quantity_delta delta) found of (result, book) \<Rightarrow>
               (Book_Result result, ms\<lparr>ms_books := omap_put (bd_market_id delta) book (ms_books ms)\<rparr>)))"

definition apply_event :: "normalized_market_event \<Rightarrow> market_state \<Rightarrow> market_apply_result \<times> market_state" where
  "apply_event event ms =
     (case event of Snapshot_Event snapshot \<Rightarrow> apply_book_snapshot snapshot ms
      | Delta_Event delta \<Rightarrow> apply_book_delta delta ms)"

definition find_book :: "market_id \<Rightarrow> market_state \<Rightarrow> order_book option" where
  "find_book market ms = map_of (ms_books ms) market"

definition book_count :: "market_state \<Rightarrow> nat" where
  "book_count ms = length (ms_books ms)"

definition valid_book_count :: "market_state \<Rightarrow> nat" where
  "valid_book_count ms = length (filter (\<lambda>(m, book). ob_state book = Valid) (ms_books ms))"


subsection \<open>What a market relies on in a book\<close>

locale sequenced_book =
  fixes ok :: "'b \<Rightarrow> bool"
    and valid :: "'b \<Rightarrow> bool"
    and position :: "'b \<Rightarrow> (stream_id \<times> sequence_number) option"
    and invalidate :: "'b \<Rightarrow> 'b"
    and load :: "stream_id \<Rightarrow> sequence_number \<Rightarrow> 'l \<Rightarrow> 'b \<Rightarrow> book_update_result \<times> 'b"
    and change :: "stream_id \<Rightarrow> sequence_number \<Rightarrow> sequence_number \<Rightarrow> 'd \<Rightarrow> 'b \<Rightarrow> book_update_result \<times> 'b"
  assumes invalidate_ok: "ok b \<Longrightarrow> ok (invalidate b)"
    and invalidate_invalid: "\<not> valid (invalidate b)"
    and load_ok: "ok b \<Longrightarrow> load s n l b = (r, b') \<Longrightarrow> ok b'"
    and load_applied: "load s n l b = (Applied, b') \<Longrightarrow> valid b' \<and> position b' = Some (s, n)"
    and load_rejected: "load s n l b = (r, b') \<Longrightarrow> r \<noteq> Applied \<Longrightarrow> \<not> valid b' \<or> b' = b"
    and change_ok: "ok b \<Longrightarrow> change s p n d b = (r, b') \<Longrightarrow> ok b'"
    and change_applied: "ok b \<Longrightarrow> change s p n d b = (Applied, b') \<Longrightarrow> valid b' \<and> position b' = Some (s, n)"
    and change_rejected: "ok b \<Longrightarrow> change s p n d b = (r, b') \<Longrightarrow> r \<noteq> Applied \<Longrightarrow> \<not> valid b'"
begin

text \<open>A valid book is at a position that the connection's stream has reached.\<close>

definition within :: "(stream_id \<Rightarrow> sequence_number option) \<Rightarrow> 'b \<Rightarrow> bool" where
  "within streams b \<longleftrightarrow> (valid b \<longrightarrow> (\<exists>s n m. position b = Some (s, n) \<and> streams s = Some m \<and> n \<le> m))"

lemma within_invalidate: "within streams (invalidate b)"
  by (simp add: within_def invalidate_invalid)

lemma within_invalid: "\<not> valid b \<Longrightarrow> within streams b"
  by (simp add: within_def)

lemma within_advance:
  "within streams b \<Longrightarrow> (\<And>m. streams s = Some m \<Longrightarrow> m < n) \<Longrightarrow> within (streams(s \<mapsto> n)) b"
  by (fastforce simp: within_def)

lemma within_load: "load s n l b = (Applied, b') \<Longrightarrow> within (streams(s \<mapsto> n)) b'"
  using load_applied by (fastforce simp: within_def)

lemma within_change: "ok b \<Longrightarrow> change s p n d b = (Applied, b') \<Longrightarrow> within (streams(s \<mapsto> n)) b'"
  using change_applied by (fastforce simp: within_def)

lemma rejected_load_invalid_or_kept:
  "load s n l b = (r, b') \<Longrightarrow> r \<noteq> Applied \<Longrightarrow> within streams b \<Longrightarrow> within streams b'"
  using load_rejected [of s n l b r b'] by (auto simp: within_def)

end

definition book_position :: "order_book \<Rightarrow> (stream_id \<times> sequence_number) option" where
  "book_position book =
     (case (ob_stream_id book, ob_last_sequence book) of (Some s, Some n) \<Rightarrow> Some (s, n) | _ \<Rightarrow> None)"

interpretation obk: sequenced_book book_ok "\<lambda>b. ob_state b = Valid" book_position mark_stale
    "\<lambda>s n (bids, asks) b. apply_snapshot s n bids asks b"
    "\<lambda>s p n (side, price, delta) b. apply_delta_after s p n side price delta b"
proof unfold_locales
  fix b b' :: order_book and s p n :: u64 and r and l :: "level list \<times> level list"
    and d :: "side \<times> price \<times> quantity_delta"
  show "book_ok b \<Longrightarrow> book_ok (mark_stale b)" by (rule mark_stale_ok)
  show "ob_state (mark_stale b) \<noteq> Valid" by (simp add: mark_stale_def)
  obtain bids asks where l: "l = (bids, asks)" by force
  obtain side price delta where d: "d = (side, price, delta)" by (cases d)
  show "book_ok b \<Longrightarrow> (case l of (bids, asks) \<Rightarrow> apply_snapshot s n bids asks) b = (r, b') \<Longrightarrow> book_ok b'"
    using apply_snapshot_ok [of b s n bids asks] by (simp add: l)
  show "(case l of (bids, asks) \<Rightarrow> apply_snapshot s n bids asks) b = (Applied, b') \<Longrightarrow>
      ob_state b' = Valid \<and> book_position b' = Some (s, n)"
    using apply_snapshot_Applied [of s n bids asks b b'] by (simp add: l book_position_def)
  show "(case l of (bids, asks) \<Rightarrow> apply_snapshot s n bids asks) b = (r, b') \<Longrightarrow> r \<noteq> Applied \<Longrightarrow>
      ob_state b' \<noteq> Valid \<or> b' = b"
    using apply_snapshot_rejected [of s n bids asks b r b'] by (auto simp: l mark_stale_def)
  show "book_ok b \<Longrightarrow> (case d of (side, price, delta) \<Rightarrow> apply_delta_after s p n side price delta) b = (r, b') \<Longrightarrow>
      book_ok b'"
    using apply_delta_after_ok [of b s p n side price delta] by (simp add: d)
  show "book_ok b \<Longrightarrow> (case d of (side, price, delta) \<Rightarrow> apply_delta_after s p n side price delta) b = (Applied, b') \<Longrightarrow>
      ob_state b' = Valid \<and> book_position b' = Some (s, n)"
    using apply_delta_after_Applied [of b s p n side price delta b'] by (simp add: d book_position_def)
  show "book_ok b \<Longrightarrow> (case d of (side, price, delta) \<Rightarrow> apply_delta_after s p n side price delta) b = (r, b') \<Longrightarrow>
      r \<noteq> Applied \<Longrightarrow> ob_state b' \<noteq> Valid"
    using apply_delta_after_rejected [of s p n side price delta b r b'] requires_snapshot_invalid
    by (auto simp: d mark_stale_def split: if_splits)
qed


subsection \<open>The invariant\<close>

definition market_ok :: "market_state \<Rightarrow> bool" where
  "market_ok ms \<longleftrightarrow> omap_ok (ms_books ms) \<and> omap_ok (ms_stream_sequences ms) \<and>
     (\<forall>(m, book) \<in> set (ms_books ms). book_ok book \<and>
        (\<not> ms_connected ms \<longrightarrow> ob_state book \<noteq> Valid) \<and>
        (ms_scope ms = Shared_Stream \<longrightarrow> obk.within (map_of (ms_stream_sequences ms)) book)) \<and>
     (ms_connected ms \<longrightarrow> ms_generation ms \<noteq> None) \<and>
     (ms_generation ms = None \<longrightarrow> ms_books ms = [])"

text \<open>What each book of a market must satisfy, given the rest of the state.\<close>

abbreviation held_ok :: "market_state \<Rightarrow> order_book \<Rightarrow> bool" where
  "held_ok ms book \<equiv> book_ok book \<and> (\<not> ms_connected ms \<longrightarrow> ob_state book \<noteq> Valid) \<and>
     (ms_scope ms = Shared_Stream \<longrightarrow> obk.within (map_of (ms_stream_sequences ms)) book)"

lemma market_ok_find: "market_ok ms \<Longrightarrow> map_of (ms_books ms) m = Some book \<Longrightarrow> held_ok ms book"
  by (auto simp: market_ok_def dest: map_of_SomeD)

lemma new_market_ok [inv_intros]: "market_ok (new_market_state scope)"
  by (simp add: market_ok_def new_market_state_def)

lemma map_stale_keys: "map fst (map (\<lambda>(m, book). (m, mark_stale book)) books) = map fst books"
  by (simp add: comp_def case_prod_unfold)

lemma invalidate_all_ok:
  "omap_ok (ms_books ms) \<Longrightarrow> omap_ok (ms_stream_sequences ms) \<Longrightarrow> \<forall>(m, book) \<in> set (ms_books ms). book_ok book \<Longrightarrow>
     (ms_connected ms \<longrightarrow> ms_generation ms \<noteq> None) \<Longrightarrow> (ms_generation ms = None \<longrightarrow> ms_books ms = []) \<Longrightarrow>
     market_ok (invalidate_all ms)"
  by (auto simp: market_ok_def invalidate_all_def omap_ok_def map_stale_keys mark_stale_ok
      obk.within_invalidate obk.invalidate_invalid simp del: map_map)

lemma market_ok_books: "market_ok ms \<Longrightarrow> \<forall>(m, book) \<in> set (ms_books ms). book_ok book"
  by (auto simp: market_ok_def)

lemma close_connection_ok [inv_intros]: "market_ok ms \<Longrightarrow> market_ok (snd (close_connection g ms))"
proof -
  assume ok: "market_ok ms"
  have "market_ok (invalidate_all (ms\<lparr>ms_connected := False\<rparr>))"
    by (rule invalidate_all_ok) (use ok in \<open>auto simp: market_ok_def\<close>)
  with ok show ?thesis by (simp add: close_connection_def)
qed

lemma open_connection_ok [inv_intros]: "market_ok ms \<Longrightarrow> market_ok (snd (open_connection g ms))"
proof -
  assume ok: "market_ok ms"
  show ?thesis
  proof (cases "ms_generation ms")
    case None
    with ok show ?thesis by (auto simp: open_connection_def market_ok_def Let_def)
  next
    case (Some h)
    have "market_ok ((invalidate_all ms)\<lparr>ms_generation := Some g, ms_stream_sequences := [], ms_connected := True\<rparr>)"
      using market_ok_books [OF ok] ok
      by (auto simp: market_ok_def invalidate_all_def omap_ok_def map_stale_keys mark_stale_ok
          obk.within_invalidate obk.invalidate_invalid simp del: map_map)
    with Some ok show ?thesis by (simp add: open_connection_def Let_def)
  qed
qed

lemma put_book_ok:
  "market_ok ms \<Longrightarrow> ms_generation ms \<noteq> None \<Longrightarrow> held_ok ms book \<Longrightarrow>
     market_ok (ms\<lparr>ms_books := omap_put m book (ms_books ms)\<rparr>)"
  using omap_set_put [of m book "ms_books ms"]
  by (fastforce simp: market_ok_def omap_ok_put)

lemma market_begin_recovery_ok [inv_intros]:
  "market_ok ms \<Longrightarrow> market_ok (snd (market_begin_recovery m ms))"
proof -
  assume ok: "market_ok ms"
  show ?thesis
  proof (cases "ms_connected ms")
    case True
    show ?thesis
    proof (cases "map_of (ms_books ms) m")
      case None
      with True ok show ?thesis by (simp add: market_begin_recovery_def)
    next
      case (Some book)
      have "held_ok ms (snd (begin_recovery book))"
        using market_ok_find [OF ok Some] begin_recovery_ok [of book]
        by (auto simp: begin_recovery_def obk.within_invalid)
      with put_book_ok [OF ok] True ok Some show ?thesis
        by (auto simp: market_begin_recovery_def market_ok_def case_prod_unfold)
    qed
  qed (simp add: market_begin_recovery_def ok)
qed

lemma put_book_set:
  "(m', b') \<in> set (omap_put m b books) \<Longrightarrow> (m' = m \<and> b' = b) \<or> (m', b') \<in> set books"
  using omap_set_put [of m b books] by auto

lemma close_put_ok:
  assumes "market_ok ms" and "ms_connected ms" and "ms_generation ms = Some g" and "book_ok book"
  shows "market_ok (snd (close_connection g (ms\<lparr>ms_books := omap_put m book (ms_books ms)\<rparr>)))"
proof -
  have "market_ok (invalidate_all (ms\<lparr>ms_books := omap_put m book (ms_books ms), ms_connected := False\<rparr>))"
    by (rule invalidate_all_ok)
      (use assms in \<open>auto simp: market_ok_def omap_ok_put dest!: put_book_set\<close>)
  with assms show ?thesis by (simp add: close_connection_def)
qed

lemma advance_ok:
  assumes ok: "market_ok ms" and "ms_connected ms" and next_seq: "accepts_sequence s n ms"
    and book: "book_ok book" "ms_scope ms = Shared_Stream \<Longrightarrow> obk.within ((map_of (ms_stream_sequences ms))(s \<mapsto> n)) book"
  shows "market_ok (ms\<lparr>ms_books := omap_put m book (ms_books ms),
    ms_stream_sequences := omap_put s n (ms_stream_sequences ms)\<rparr>)"
proof -
  have later: "map_of (ms_stream_sequences ms) s = Some k \<Longrightarrow> k < n" for k
    using next_seq by (simp add: accepts_sequence_def)
  have "held_ok ms b \<Longrightarrow> ms_scope ms = Shared_Stream \<Longrightarrow>
      obk.within ((map_of (ms_stream_sequences ms))(s \<mapsto> n)) b" for b
    using later by (auto intro: obk.within_advance)
  then show ?thesis
    using assms by (auto simp: market_ok_def omap_ok_put dest!: put_book_set)
qed

text \<open>A rejection in the shared scope, and an acceptance, with the book already stored.\<close>

lemma finish_shared_put:
  assumes "market_ok ms" and "ms_connected ms" and "ms_scope ms = Shared_Stream" and "book_ok book"
    and "accepts_sequence s n ms"
    and "result = Applied \<Longrightarrow> obk.within ((map_of (ms_stream_sequences ms))(s \<mapsto> n)) book"
  shows "market_ok (snd (finish_shared s n result (ms\<lparr>ms_books := omap_put m book (ms_books ms)\<rparr>)))"
proof (cases "result = Applied")
  case True
  with assms advance_ok [of ms s n book m] show ?thesis by (simp add: finish_shared_def)
next
  case False
  obtain g where "ms_generation ms = Some g" using assms(1,2) by (auto simp: market_ok_def)
  with False assms close_put_ok [of ms g book m] show ?thesis by (simp add: finish_shared_def)
qed

lemma finish_shared_rejected [inv_intros]:
  "market_ok ms \<Longrightarrow> result \<noteq> Applied \<Longrightarrow> market_ok (snd (finish_shared s n result ms))"
  by (simp add: finish_shared_def close_connection_ok)

lemma found_book_ok:
  "market_ok ms \<Longrightarrow> held_ok ms (case map_of (ms_books ms) m of None \<Rightarrow> new_book | Some book \<Rightarrow> book)"
  using market_ok_find [of ms m]
  by (auto simp: new_book_ok obk.within_def new_book_def split: option.splits) (simp_all add: new_book_ok flip: new_book_def)

lemma apply_book_snapshot_ok [inv_intros]:
  assumes "market_ok ms"
  shows "market_ok (snd (apply_book_snapshot snapshot ms))"
proof (cases "accepts (bs_generation snapshot) ms \<and>
    (ms_scope ms = Shared_Stream \<longrightarrow> accepts_sequence (bs_stream_id snapshot) (bs_sequence snapshot) ms)")
  case True
  let ?s = "bs_stream_id snapshot" and ?n = "bs_sequence snapshot" and ?m = "bs_market_id snapshot"
  define found where "found = (case map_of (ms_books ms) ?m of None \<Rightarrow> new_book | Some book \<Rightarrow> book)"
  obtain result book where run: "apply_snapshot ?s ?n (bs_bids snapshot) (bs_asks snapshot) found = (result, book)"
    by fastforce
  have found: "held_ok ms found" unfolding found_def using assms by (rule found_book_ok)
  then have book: "book_ok book" using apply_snapshot_ok [of found ?s ?n "bs_bids snapshot" "bs_asks snapshot"] run by simp
  have connected: "ms_connected ms" "ms_generation ms \<noteq> None" using True by (auto simp: accepts_def)
  show ?thesis
  proof (cases "ms_scope ms")
    case Per_Book
    have "market_ok (ms\<lparr>ms_books := omap_put ?m book (ms_books ms)\<rparr>)"
      using assms connected book Per_Book by (intro put_book_ok) auto
    then show ?thesis
      using True Per_Book run by (simp add: apply_book_snapshot_def Let_def flip: found_def)
  next
    case Shared_Stream
    have "result = Applied \<Longrightarrow> obk.within ((map_of (ms_stream_sequences ms))(?s \<mapsto> ?n)) book"
      using obk.within_load [of ?s ?n "(bs_bids snapshot, bs_asks snapshot)" found book] run by simp
    with finish_shared_put [OF assms connected(1) Shared_Stream book] True Shared_Stream
    have "market_ok (snd (finish_shared ?s ?n result (ms\<lparr>ms_books := omap_put ?m book (ms_books ms)\<rparr>)))"
      by blast
    then show ?thesis
      using True Shared_Stream run by (simp add: apply_book_snapshot_def Let_def flip: found_def)
  qed
next
  case False
  then show ?thesis
    using assms by (auto simp: apply_book_snapshot_def intro: finish_shared_rejected)
qed

lemma apply_book_delta_ok [inv_intros]:
  assumes "market_ok ms"
  shows "market_ok (snd (apply_book_delta delta ms))"
proof -
  let ?s = "bd_stream_id delta" and ?n = "bd_sequence delta" and ?m = "bd_market_id delta"
  let ?d = "(bd_side delta, bd_price delta, bd_quantity_delta delta)"
  show ?thesis
  proof (cases "accepts (bd_generation delta) ms \<and> map_of (ms_books ms) ?m \<noteq> None")
    case True
    then obtain found where found: "map_of (ms_books ms) ?m = Some found" by blast
    have connected: "ms_connected ms" "ms_generation ms \<noteq> None" using True by (auto simp: accepts_def)
    have held: "held_ok ms found" using market_ok_find [OF assms found] .
    show ?thesis
    proof (cases "ms_scope ms")
      case Per_Book
      obtain result book where
        run: "apply_delta ?s ?n (bd_side delta) (bd_price delta) (bd_quantity_delta delta) found = (result, book)"
        by fastforce
      then have "book_ok book" using apply_delta_ok held by (metis snd_conv)
      then have "market_ok (ms\<lparr>ms_books := omap_put ?m book (ms_books ms)\<rparr>)"
        using assms connected Per_Book by (intro put_book_ok) auto
      then show ?thesis using True found Per_Book run by (simp add: apply_book_delta_def)
    next
      case Shared_Stream
      show ?thesis
      proof (cases "map_of (ms_stream_sequences ms) ?s = None \<or> \<not> accepts_sequence ?s ?n ms")
        case gap: True
        then show ?thesis using True found Shared_Stream assms
          by (auto simp: apply_book_delta_def intro: finish_shared_rejected split: option.splits)
      next
        case False
        then obtain previous where previous: "map_of (ms_stream_sequences ms) ?s = Some previous"
          and seq: "accepts_sequence ?s ?n ms" by auto
        obtain result book where run: "apply_delta_after ?s previous ?n (bd_side delta) (bd_price delta)
            (bd_quantity_delta delta) found = (result, book)" by fastforce
        have book: "book_ok book" using apply_delta_after_ok held run by (metis snd_conv)
        have "result = Applied \<Longrightarrow> obk.within ((map_of (ms_stream_sequences ms))(?s \<mapsto> ?n)) book"
          using obk.within_change [of found ?s previous ?n ?d book] held run by simp
        with finish_shared_put [OF assms connected(1) Shared_Stream book seq]
        have "market_ok (snd (finish_shared ?s ?n result (ms\<lparr>ms_books := omap_put ?m book (ms_books ms)\<rparr>)))"
          by blast
        then show ?thesis using True found Shared_Stream previous seq run
          by (simp add: apply_book_delta_def)
      qed
    qed
  next
    case False
    then show ?thesis using assms by (auto simp: apply_book_delta_def intro: finish_shared_rejected)
  qed
qed

lemma apply_event_ok [inv_intros]: "market_ok ms \<Longrightarrow> market_ok (snd (apply_event event ms))"
  by (auto simp: apply_event_def apply_book_snapshot_ok apply_book_delta_ok split: normalized_market_event.splits)


subsection \<open>Histories of a market\<close>

datatype market_input =
  Open_In connection_generation
| Close_In connection_generation
| Begin_Recovery_In market_id
| Event_In normalized_market_event

inductive market_step :: "market_state \<Rightarrow> market_input \<Rightarrow> market_state \<Rightarrow> bool" where
  market_step_open: "market_step ms (Open_In g) (snd (open_connection g ms))"
| market_step_close: "market_step ms (Close_In g) (snd (close_connection g ms))"
| market_step_recover: "market_step ms (Begin_Recovery_In m) (snd (market_begin_recovery m ms))"
| market_step_event: "market_step ms (Event_In e) (snd (apply_event e ms))"

inductive_cases market_step_cases [elim]: "market_step ms i ms'"

inductive reachable_market :: "sequence_scope \<Rightarrow> market_state \<Rightarrow> bool" for scope where
  reach_market_new: "reachable_market scope (new_market_state scope)"
| reach_market_step: "reachable_market scope ms \<Longrightarrow> market_step ms i ms' \<Longrightarrow> reachable_market scope ms'"

lemma reachable_market_ok: "reachable_market scope ms \<Longrightarrow> market_ok ms"
  by (induction rule: reachable_market.induct) (auto intro: inv_intros)

lemma close_scope [simp]: "ms_scope (snd (close_connection g ms)) = ms_scope ms"
  by (simp add: close_connection_def invalidate_all_def)

lemma finish_shared_scope [simp]: "ms_scope (snd (finish_shared s n r ms)) = ms_scope ms"
  by (simp add: finish_shared_def)

lemma apply_event_scope [simp]: "ms_scope (snd (apply_event e ms)) = ms_scope ms"
  by (auto simp: apply_event_def apply_book_snapshot_def apply_book_delta_def Let_def
      split: normalized_market_event.splits option.splits prod.splits)

lemma reachable_market_scope: "reachable_market scope ms \<Longrightarrow> ms_scope ms = scope"
proof (induction rule: reachable_market.induct)
  case (reach_market_step ms i ms')
  then show ?case
    by (auto simp: open_connection_def invalidate_all_def Let_def market_begin_recovery_def
        split: option.splits prod.splits)
qed (simp add: new_market_state_def)

lemma valid_book_count_0:
  "valid_book_count ms = 0 \<longleftrightarrow> (\<forall>(m, book) \<in> set (ms_books ms). ob_state book \<noteq> Valid)"
  by (auto simp: valid_book_count_def filter_empty_conv)

lemma invalidate_all_count [simp]: "valid_book_count (invalidate_all ms) = 0"
  by (auto simp: valid_book_count_0 invalidate_all_def mark_stale_def)

lemma valid_book_count_cong: "ms_books ms = ms_books ms' \<Longrightarrow> valid_book_count ms = valid_book_count ms'"
  by (simp add: valid_book_count_def)

lemma closed_market_empty: "market_ok ms \<Longrightarrow> \<not> ms_connected ms \<Longrightarrow> valid_book_count ms = 0"
  by (auto simp: market_ok_def valid_book_count_0)

text \<open>
  In every history a market without a connection has no valid book and no book of
  it shows a level; opening needs a generation above every earlier one and starts with no
  valid book either, so depth of one connection is never shown under another.
\<close>

theorem market_connection_isolation:
  assumes "reachable_market scope ms"
  shows "(\<not> ms_connected ms \<longrightarrow> valid_book_count ms = 0) \<and>
    (\<not> ms_connected ms \<longrightarrow> (\<forall>m book. find_book m ms = Some book \<longrightarrow> shown_levels side book = [])) \<and>
    (case open_connection g ms of (opened, ms') \<Rightarrow>
       opened = (g \<noteq> 0 \<and> (\<forall>h. ms_generation ms = Some h \<longrightarrow> h < g)) \<and>
       (if opened then valid_book_count ms' = 0 \<and> ms_connected ms' \<and> ms_generation ms' = Some g
        else ms' = ms))"
proof -
  have ok: "market_ok ms" using assms by (rule reachable_market_ok)
  have "ms_generation ms = None \<Longrightarrow> ms_books ms = []" using ok by (simp add: market_ok_def)
  moreover have "valid_book_count (invalidate_all ms \<lparr>ms_generation := a, ms_stream_sequences := [], ms_connected := b\<rparr>) = 0"
    for a b by (simp add: invalidate_all_count [unfolded valid_book_count_def] valid_book_count_def)
  ultimately have "case open_connection g ms of (opened, ms') \<Rightarrow>
       opened = (g \<noteq> 0 \<and> (\<forall>h. ms_generation ms = Some h \<longrightarrow> h < g)) \<and>
       (if opened then valid_book_count ms' = 0 \<and> ms_connected ms' \<and> ms_generation ms' = Some g
        else ms' = ms)"
    by (auto simp: open_connection_def Let_def valid_book_count_0 split: option.splits)
  moreover have "\<not> ms_connected ms \<Longrightarrow> find_book m ms = Some book \<Longrightarrow> shown_levels side book = []" for m book
    using market_ok_find [OF ok] by (auto simp: find_book_def intro: shown_invalid)
  ultimately show ?thesis using closed_market_empty [OF ok] by blast
qed

text \<open>A market with one live book, reached by a connection and a snapshot.\<close>

definition example_snapshot_event :: book_snapshot where
  "example_snapshot_event = \<lparr>bs_market_id = 7, bs_generation = 1, bs_stream_id = 2, bs_sequence = 10,
     bs_received_at = 0, bs_bids = [\<lparr>lv_price = price_of 4500, lv_quantity = quantity_of 100\<rparr>], bs_asks = []\<rparr>"

definition example_market :: "sequence_scope \<Rightarrow> market_state" where
  "example_market scope = \<lparr>ms_generation = Some 1, ms_connected = True,
     ms_books = [(7, \<lparr>ob_state = Valid, ob_stream_id = Some 2, ob_last_sequence = Some 10,
       ob_bids = [(4500, 100)], ob_asks = []\<rparr>)],
     ms_scope = scope, ms_stream_sequences = (if scope = Shared_Stream then [(2, 10)] else [])\<rparr>"

lemma example_market_run:
  "apply_event (Snapshot_Event example_snapshot_event) (snd (open_connection 1 (new_market_state scope))) =
   (Book_Result Applied, example_market scope)"
  by (simp add: apply_event_def apply_book_snapshot_def accepts_def accepts_sequence_def finish_shared_def
      open_connection_def new_market_state_def example_snapshot_event_def example_market_def
      apply_snapshot_def new_book_def omap_emplace_def)

lemma example_market_reachable: "reachable_market scope (example_market scope)"
proof -
  have "reachable_market scope (snd (open_connection 1 (new_market_state scope)))"
    by (rule reach_market_step [OF reach_market_new market_step_open])
  from reach_market_step [OF this market_step_event [of _ "Snapshot_Event example_snapshot_event"]]
  show ?thesis by (simp add: example_market_run)
qed

lemma market_connection_isolation_witness:
  "fst (open_connection 1 (example_market Per_Book)) = False \<and>
   valid_book_count (snd (open_connection 2 (example_market Per_Book))) = 0"
  using market_connection_isolation [OF example_market_reachable [of Per_Book], of Bid 1]
    market_connection_isolation [OF example_market_reachable [of Per_Book], of Bid 2]
  by (auto simp: example_market_def split: prod.splits if_splits)


subsection \<open>The shared scope\<close>

lemma close_current:
  "ms_connected ms \<Longrightarrow> ms_generation ms = Some g \<Longrightarrow>
     \<not> ms_connected (snd (close_connection (the (ms_generation ms)) ms)) \<and>
     valid_book_count (snd (close_connection (the (ms_generation ms)) ms)) = 0"
proof -
  assume "ms_connected ms" "ms_generation ms = Some g"
  then have "snd (close_connection (the (ms_generation ms)) ms) = invalidate_all (ms\<lparr>ms_connected := False\<rparr>)"
    by (simp add: close_connection_def)
  then show ?thesis by (simp only: invalidate_all_count) (simp add: invalidate_all_def)
qed

lemma finish_shared_closes:
  "ms_connected ms \<Longrightarrow> ms_generation ms = Some g \<Longrightarrow> finish_shared s n r ms = (Book_Result r, ms') \<Longrightarrow> r \<noteq> Applied \<Longrightarrow>
     \<not> ms_connected ms' \<and> valid_book_count ms' = 0"
  using close_current [of ms g] by (auto simp: finish_shared_def)

lemma finish_shared_result: "fst (finish_shared s n r ms) = Book_Result r"
  by (simp add: finish_shared_def)

lemma finish_shared_Applied: "finish_shared s n r ms = (Book_Result Applied, ms') \<Longrightarrow>
    map_of (ms_stream_sequences ms') = (map_of (ms_stream_sequences ms))(s \<mapsto> n) \<and> ms_connected ms' = ms_connected ms"
  by (auto simp: finish_shared_def)

definition event_stream :: "normalized_market_event \<Rightarrow> stream_id \<times> sequence_number" where
  "event_stream event = (case event of Snapshot_Event e \<Rightarrow> (bs_stream_id e, bs_sequence e)
     | Delta_Event e \<Rightarrow> (bd_stream_id e, bd_sequence e))"

text \<open>The shape of every run of the shared scope: a rejection closes, an acceptance advances.\<close>

lemma finish_shared_same: "finish_shared s n r' ms = (Book_Result r, ms') \<Longrightarrow> r' = r"
  by (simp add: finish_shared_def)

definition finished_as :: "normalized_market_event \<Rightarrow> book_update_result \<Rightarrow> market_state \<Rightarrow> market_state \<Rightarrow> bool" where
  "finished_as event r ms ms' \<longleftrightarrow> (\<exists>books. (case event_stream event of (s, n) \<Rightarrow>
     finish_shared s n r (ms\<lparr>ms_books := books\<rparr>) = (Book_Result r, ms') \<and>
     (r = Applied \<longrightarrow> accepts_sequence s n ms))) \<and> ms_connected ms \<and> ms_generation ms \<noteq> None"

lemma finished_asI:
  "event_stream event = (s, n) \<Longrightarrow> finish_shared s n r' (ms\<lparr>ms_books := books\<rparr>) = (Book_Result r, ms') \<Longrightarrow>
     (r' = Applied \<Longrightarrow> accepts_sequence s n ms) \<Longrightarrow> ms_connected ms \<Longrightarrow> ms_generation ms \<noteq> None \<Longrightarrow>
     finished_as event r ms ms'"
  using finish_shared_same [of s n r' "ms\<lparr>ms_books := books\<rparr>" r ms'] by (auto simp: finished_as_def)

lemma shared_snapshot_shape:
  assumes "ms_scope ms = Shared_Stream" and "apply_book_snapshot e ms = (Book_Result r, ms')"
  shows "finished_as (Snapshot_Event e) r ms ms'"
proof -
  let ?s = "bs_stream_id e" and ?n = "bs_sequence e"
  have event: "event_stream (Snapshot_Event e) = (?s, ?n)" by (simp add: event_stream_def)
  have acc: "accepts (bs_generation e) ms" using assms by (auto simp: apply_book_snapshot_def split: if_splits)
  then have live: "ms_connected ms" "ms_generation ms \<noteq> None" by (auto simp: accepts_def)
  show ?thesis
  proof (cases "accepts_sequence ?s ?n ms")
    case False
    with assms acc have gap: "finish_shared ?s ?n Sequence_Gap (ms\<lparr>ms_books := ms_books ms\<rparr>) = (Book_Result r, ms')"
      by (simp add: apply_book_snapshot_def)
    from live show ?thesis by (intro finished_asI [OF event gap]) simp_all
  next
    case True
    define found where "found = (case map_of (ms_books ms) (bs_market_id e) of None \<Rightarrow> new_book | Some b \<Rightarrow> b)"
    obtain result book where run: "apply_snapshot ?s ?n (bs_bids e) (bs_asks e) found = (result, book)" by fastforce
    with assms acc True have
      "finish_shared ?s ?n result (ms\<lparr>ms_books := omap_put (bs_market_id e) book (ms_books ms)\<rparr>) = (Book_Result r, ms')"
      by (simp add: apply_book_snapshot_def Let_def flip: found_def)
    with True live show ?thesis by (intro finished_asI [OF event])
  qed
qed

lemma shared_delta_shape:
  assumes "ms_scope ms = Shared_Stream" and "apply_book_delta e ms = (Book_Result r, ms')"
  shows "finished_as (Delta_Event e) r ms ms'"
proof -
  let ?s = "bd_stream_id e" and ?n = "bd_sequence e"
  have event: "event_stream (Delta_Event e) = (?s, ?n)" by (simp add: event_stream_def)
  have acc: "accepts (bd_generation e) ms" using assms by (auto simp: apply_book_delta_def split: if_splits)
  then have live: "ms_connected ms" "ms_generation ms \<noteq> None" by (auto simp: accepts_def)
  show ?thesis
  proof (cases "map_of (ms_books ms) (bd_market_id e) = None \<or> map_of (ms_stream_sequences ms) ?s = None \<or>
      \<not> accepts_sequence ?s ?n ms")
    case True
    with assms acc obtain r' where "r' \<noteq> Applied" and
      gap: "finish_shared ?s ?n r' (ms\<lparr>ms_books := ms_books ms\<rparr>) = (Book_Result r, ms')"
      by (auto simp: apply_book_delta_def split: option.splits)
    with live show ?thesis by (intro finished_asI [OF event gap]) simp_all
  next
    case False
    then obtain found previous where some: "map_of (ms_books ms) (bd_market_id e) = Some found"
      "map_of (ms_stream_sequences ms) ?s = Some previous" "accepts_sequence ?s ?n ms" by auto
    obtain result book where run: "apply_delta_after ?s previous ?n (bd_side e) (bd_price e)
        (bd_quantity_delta e) found = (result, book)" by fastforce
    with assms acc some have
      "finish_shared ?s ?n result (ms\<lparr>ms_books := omap_put (bd_market_id e) book (ms_books ms)\<rparr>) = (Book_Result r, ms')"
      by (simp add: apply_book_delta_def)
    with some live show ?thesis by (intro finished_asI [OF event])
  qed
qed

lemma shared_event_shape:
  "ms_scope ms = Shared_Stream \<Longrightarrow> apply_event event ms = (Book_Result r, ms') \<Longrightarrow> finished_as event r ms ms'"
  by (cases event) (auto simp: apply_event_def shared_snapshot_shape shared_delta_shape)

text \<open>
  Claim C30. In the shared scope one rejected message takes the whole connection down: the
  market is disconnected and no book of any market is valid. An accepted message is the
  stream's first, or carries exactly the successor of the stream's last sequence number,
  without wrapping, and becomes the last.
\<close>

theorem shared_stream_fails_closed:
  assumes "reachable_market Shared_Stream ms" and "apply_event event ms = (Book_Result r, ms')"
    and "event_stream event = (s, n)"
  shows "if r = Applied
    then (case map_of (ms_stream_sequences ms) s of None \<Rightarrow> True | Some m \<Rightarrow> m < n \<and> n = m + 1) \<and>
      map_of (ms_stream_sequences ms') s = Some n
    else \<not> ms_connected ms' \<and> valid_book_count ms' = 0"
proof -
  have "ms_scope ms = Shared_Stream" using assms(1) by (rule reachable_market_scope)
  from shared_event_shape [OF this assms(2)] assms(3) obtain books g where
    ms0: "ms_connected (ms\<lparr>ms_books := books\<rparr>)" "ms_generation (ms\<lparr>ms_books := books\<rparr>) = Some g" and
    run: "finish_shared s n r (ms\<lparr>ms_books := books\<rparr>) = (Book_Result r, ms')" and
    acc: "r = Applied \<Longrightarrow> accepts_sequence s n ms"
    by (auto simp: finished_as_def)
  show ?thesis
  proof (cases "r = Applied")
    case True
    have "map_of (ms_stream_sequences ms') s = Some n"
      using finish_shared_Applied run True by (metis fun_upd_same)
    with acc [OF True] True show ?thesis
      by (auto simp: accepts_sequence_def algebra_simps split: option.splits)
  next
    case False
    with finish_shared_closes [OF ms0 run] show ?thesis by simp
  qed
qed

definition example_delta_event :: "sequence_number \<Rightarrow> book_delta" where
  "example_delta_event n = \<lparr>bd_market_id = 7, bd_generation = 1, bd_stream_id = 2, bd_sequence = n,
     bd_received_at = 0, bd_side = Bid, bd_price = price_of 4500, bd_quantity_delta = delta_of 50\<rparr>"

lemma example_gap_run:
  "fst (apply_event (Delta_Event (example_delta_event 12)) (example_market Shared_Stream)) = Book_Result Sequence_Gap"
  by (simp add: apply_event_def apply_book_delta_def accepts_def accepts_sequence_def finish_shared_def
      example_delta_event_def example_market_def)

lemma shared_stream_fails_closed_witness:
  "valid_book_count (snd (apply_event (Delta_Event (example_delta_event 12)) (example_market Shared_Stream))) = 0"
proof -
  have "event_stream (Delta_Event (example_delta_event 12)) = (2, 12)"
    by (simp add: event_stream_def example_delta_event_def)
  from shared_stream_fails_closed [OF example_market_reachable _ this, of Sequence_Gap] example_gap_run
  show ?thesis by (metis book_update_result.distinct(5) prod.collapse)
qed

text \<open>
  Gap detection in the shared scope is exact. For a valid book of a reachable
  market, a delta on the book's stream is applied if and only if it is the successor of the
  stream's last message and the level's quantity stays within its range; the messages of other
  markets in between never make the book's own sequence number an obstacle.
\<close>

theorem shared_delta_exact:
  assumes "reachable_market Shared_Stream ms" and "accepts (bd_generation delta) ms"
    and "find_book (bd_market_id delta) ms = Some book" and "ob_state book = Valid"
    and "ob_stream_id book = Some (bd_stream_id delta)"
  shows "fst (apply_book_delta delta ms) = Book_Result Applied \<longleftrightarrow>
    (\<exists>m. map_of (ms_stream_sequences ms) (bd_stream_id delta) = Some m \<and> m < bd_sequence delta \<and>
       bd_sequence delta = m + 1) \<and>
    delta_raw (bd_quantity_delta delta) \<noteq> int64_min \<and>
    0 \<le> quantity_raw (quantity_at (bd_side delta) (bd_price delta) book) + delta_raw (bd_quantity_delta delta) \<and>
    quantity_raw (quantity_at (bd_side delta) (bd_price delta) book) + delta_raw (bd_quantity_delta delta) \<le> int64_max"
proof -
  let ?s = "bd_stream_id delta" and ?n = "bd_sequence delta"
  have ok: "market_ok ms" and scope: "ms_scope ms = Shared_Stream"
    using assms(1) reachable_market_ok reachable_market_scope by auto
  have found: "map_of (ms_books ms) (bd_market_id delta) = Some book" using assms(3) by (simp add: find_book_def)
  have held: "held_ok ms book" using market_ok_find [OF ok found] .
  then have book: "book_ok book" by blast
  have "obk.within (map_of (ms_stream_sequences ms)) book" using held scope by blast
  with assms(4,5) obtain k m where km: "ob_last_sequence book = Some k"
      "map_of (ms_stream_sequences ms) ?s = Some m" "k \<le> m"
    by (auto simp: obk.within_def book_position_def split: option.splits)
  have next_seq: "accepts_sequence ?s ?n ms \<longleftrightarrow> m < ?n \<and> ?n = m + 1"
    by (auto simp: accepts_sequence_def km algebra_simps)
  have "delta_accepts ?s m ?n (bd_side delta) (bd_price delta) (bd_quantity_delta delta) book \<longleftrightarrow>
      m < ?n \<and> ?n = m + 1 \<and> delta_raw (bd_quantity_delta delta) \<noteq> int64_min \<and>
      0 \<le> depth (bd_side delta) book (price_raw (bd_price delta)) + delta_raw (bd_quantity_delta delta) \<and>
      depth (bd_side delta) book (price_raw (bd_price delta)) + delta_raw (bd_quantity_delta delta) \<le> int64_max"
    using assms(4,5) km by (simp add: delta_accepts_def)
  note accepted = this
  have step: "fst (apply_book_delta delta ms) = Book_Result Applied \<longleftrightarrow> accepts_sequence ?s ?n ms \<and>
      fst (apply_delta_after ?s m ?n (bd_side delta) (bd_price delta) (bd_quantity_delta delta) book) = Applied"
    using assms(2) found scope km(2)
    by (simp add: apply_book_delta_def finish_shared_result case_prod_unfold)
  have stream: "(\<exists>m. map_of (ms_stream_sequences ms) ?s = Some m \<and> m < ?n \<and> ?n = m + 1) \<longleftrightarrow> m < ?n \<and> ?n = m + 1"
    unfolding km(2) by blast
  have depth: "quantity_raw (quantity_at (bd_side delta) (bd_price delta) book) =
      depth (bd_side delta) book (price_raw (bd_price delta))"
    using assms(4) by (simp add: quantity_at_depth [OF book])
  show ?thesis unfolding step stream depth apply_delta_after_iff [OF book] accepted next_seq by blast
qed

definition example_live_book :: order_book where
  "example_live_book = \<lparr>ob_state = Valid, ob_stream_id = Some 2, ob_last_sequence = Some 10,
     ob_bids = [(4500, 100)], ob_asks = []\<rparr>"

lemma shared_delta_exact_witness:
  "fst (apply_book_delta (example_delta_event 11) (example_market Shared_Stream)) = Book_Result Applied"
proof -
  have facts: "accepts (bd_generation (example_delta_event 11)) (example_market Shared_Stream)"
    "find_book (bd_market_id (example_delta_event 11)) (example_market Shared_Stream) = Some example_live_book"
    "ob_state example_live_book = Valid"
    "ob_stream_id example_live_book = Some (bd_stream_id (example_delta_event 11))"
    by (simp_all add: find_book_def example_market_def example_live_book_def example_delta_event_def accepts_def)
  have "quantity_raw (quantity_at Bid (price_of 4500) example_live_book) = 100"
    by (simp add: quantity_at_def levels_for_def example_live_book_def)
  moreover have "map_of (ms_stream_sequences (example_market Shared_Stream)) 2 = Some 10"
    by (simp add: example_market_def)
  ultimately show ?thesis
    unfolding shared_delta_exact [OF example_market_reachable facts]
    by (simp add: example_delta_event_def limits)
qed

text \<open>
  Markets do not disturb each other in the per-book scope: an event for one
  market, whatever its result, leaves every other book and the connection as they were; and a
  message of another connection generation changes nothing at all, in either scope.
\<close>

theorem event_isolation:
  "(ms_scope ms = Per_Book \<longrightarrow>
      (let target = (case event of Snapshot_Event e \<Rightarrow> bs_market_id e | Delta_Event e \<Rightarrow> bd_market_id e);
           ms' = snd (apply_event event ms)
       in (\<forall>m. m \<noteq> target \<longrightarrow> find_book m ms' = find_book m ms) \<and>
          ms_connected ms' = ms_connected ms \<and> ms_generation ms' = ms_generation ms)) \<and>
   (\<not> accepts (case event of Snapshot_Event e \<Rightarrow> bs_generation e | Delta_Event e \<Rightarrow> bd_generation e) ms \<longrightarrow>
      apply_event event ms = (Connection_Mismatch, ms))"
  by (cases event)
    (auto simp: apply_event_def apply_book_snapshot_def apply_book_delta_def find_book_def Let_def
      split: option.splits prod.splits)

lemma event_isolation_witness:
  "apply_event (Delta_Event (example_delta_event 11)) (new_market_state Per_Book) =
     (Connection_Mismatch, new_market_state Per_Book)"
  using event_isolation [of "new_market_state Per_Book" "Delta_Event (example_delta_event 11)"]
  by (simp add: accepts_def new_market_state_def)

end
