(* ===== verification/Payoff.thy ===== *)
theory Payoff
  imports Market_State
begin

text \<open>
  Logical constraints between binary markets and their guaranteed payoffs, after
  \<open>include/eme/constraint/payoff.hpp\<close> and \<open>src/constraint/payoff.cpp\<close>: compilation of an
  implication or a complement to its admissible worlds, the oracle that evaluates a portfolio
  in each of them, the construction of the guaranteed portfolio, and the registry. Shown: the
  oracle's minimum is the true one, the compiled worlds are exactly those the relationship
  admits (so the floor holds in reality, not only in the enumeration), and the registry's
  indexes agree with its contents.
\<close>

subsection \<open>Data\<close>

type_synonym constraint_id = u32

datatype contract_outcome = Outcome_Yes | Outcome_No

datatype relationship =
  Implication (antecedent: market_id) (consequent: market_id)
| Complement (complement_left: market_id) (complement_right: market_id)

record constraint_definition =
  cd_id :: constraint_id
  cd_semantic_version :: u32
  cd_key :: string
  cd_provenance :: string
  cd_relationship :: relationship

record payoff_leg =
  leg_market :: market_id
  leg_outcome :: contract_outcome
  leg_quantity :: quantity

record leg_template =
  lt_market :: market_id
  lt_outcome :: contract_outcome

record world_assignment =
  wa_market :: market_id
  wa_settles_yes :: bool

type_synonym world_state = "world_assignment list"

record compiled_constraint =
  cc_metadata :: constraint_definition
  cc_dependent_markets :: "market_id list"
  cc_valid_worlds :: "world_state list"
  cc_templates :: "leg_template list"

datatype verification_error =
  Empty_World_Set | Empty_Portfolio | Invalid_World | Missing_Assignment | Zero_Quantity
  | Payout_Overflow | Invalid_Definition

record payoff_verification =
  pv_minimum_payout :: cash
  pv_worlds_evaluated :: nat

record guaranteed_portfolio =
  gp_constraint_id :: constraint_id
  gp_legs :: "payoff_leg list"
  gp_minimum_payout :: cash
  gp_worlds_verified :: nat


subsection \<open>Compilation\<close>

definition has_valid_metadata :: "constraint_definition \<Rightarrow> bool" where
  "has_valid_metadata d \<longleftrightarrow>
     cd_id d \<noteq> 0 \<and> cd_semantic_version d \<noteq> 0 \<and> cd_key d \<noteq> [] \<and> cd_provenance d \<noteq> []"

definition assignment2 :: "market_id \<Rightarrow> bool \<Rightarrow> market_id \<Rightarrow> bool \<Rightarrow> world_state" where
  "assignment2 a x b y =
     [\<lparr>wa_market = a, wa_settles_yes = x\<rparr>, \<lparr>wa_market = b, wa_settles_yes = y\<rparr>]"

definition compile_constraint :: "constraint_definition \<Rightarrow> verification_error + compiled_constraint" where
  "compile_constraint d =
     (if \<not> has_valid_metadata d then Inl Invalid_Definition
      else case cd_relationship d of
        Implication a c \<Rightarrow>
          if a = 0 \<or> c = 0 \<or> a = c then Inl Invalid_Definition
          else Inr \<lparr>cc_metadata = d, cc_dependent_markets = [a, c],
            cc_valid_worlds =
              [assignment2 a False c False, assignment2 a False c True, assignment2 a True c True],
            cc_templates =
              [\<lparr>lt_market = c, lt_outcome = Outcome_Yes\<rparr>, \<lparr>lt_market = a, lt_outcome = Outcome_No\<rparr>]\<rparr>
      | Complement l r \<Rightarrow>
          if l = 0 \<or> r = 0 \<or> l = r then Inl Invalid_Definition
          else Inr \<lparr>cc_metadata = d, cc_dependent_markets = [l, r],
            cc_valid_worlds = [assignment2 l False r True, assignment2 l True r False],
            cc_templates =
              [\<lparr>lt_market = l, lt_outcome = Outcome_Yes\<rparr>, \<lparr>lt_market = r, lt_outcome = Outcome_Yes\<rparr>]\<rparr>)"


subsection \<open>The oracle\<close>

fun has_duplicate_market :: "world_state \<Rightarrow> bool" where
  "has_duplicate_market [] \<longleftrightarrow> False"
| "has_duplicate_market (left # rest) \<longleftrightarrow>
     (\<exists>right \<in> set rest. wa_market left = wa_market right) \<or> has_duplicate_market rest"

definition settlement :: "world_state \<Rightarrow> market_id \<Rightarrow> bool option" where
  "settlement world market =
     map_option wa_settles_yes (List.find (\<lambda>a. wa_market a = market) world)"

definition leg_wins :: "contract_outcome \<Rightarrow> bool \<Rightarrow> bool" where
  "leg_wins outcome settles_yes =
     (case outcome of Outcome_Yes \<Rightarrow> settles_yes | Outcome_No \<Rightarrow> \<not> settles_yes)"

text \<open>The inner loop over the legs, with the payout so far.\<close>

fun world_payout_loop :: "world_state \<Rightarrow> payoff_leg list \<Rightarrow> int \<Rightarrow> verification_error + int" where
  "world_payout_loop world [] payout = Inr payout"
| "world_payout_loop world (leg # portfolio) payout =
     (if quantity_raw (leg_quantity leg) = 0 then Inl Zero_Quantity
      else case settlement world (leg_market leg) of
        None \<Rightarrow> Inl Missing_Assignment
      | Some settles_yes \<Rightarrow>
          if \<not> leg_wins (leg_outcome leg) settles_yes then world_payout_loop world portfolio payout
          else case contract_settlement_value (leg_quantity leg) of
            None \<Rightarrow> Inl Payout_Overflow
          | Some settlement_value \<Rightarrow>
              if int64_max - cash_raw settlement_value < payout then Inl Payout_Overflow
              else world_payout_loop world portfolio (payout + cash_raw settlement_value))"

fun worlds_loop :: "payoff_leg list \<Rightarrow> world_state list \<Rightarrow> int \<Rightarrow> verification_error + int" where
  "worlds_loop portfolio [] minimum = Inr minimum"
| "worlds_loop portfolio (world # worlds) minimum =
     (if has_duplicate_market world then Inl Invalid_World
      else case world_payout_loop world portfolio 0 of
        Inl e \<Rightarrow> Inl e
      | Inr payout \<Rightarrow> worlds_loop portfolio worlds (min minimum payout))"

definition verify_payoff :: "world_state list \<Rightarrow> payoff_leg list \<Rightarrow> verification_error + payoff_verification" where
  "verify_payoff valid_worlds portfolio =
     (if valid_worlds = [] then Inl Empty_World_Set
      else if portfolio = [] then Inl Empty_Portfolio
      else case worlds_loop portfolio valid_worlds int64_max of
        Inl e \<Rightarrow> Inl e
      | Inr minimum \<Rightarrow>
          Inr \<lparr>pv_minimum_payout = cash_of minimum, pv_worlds_evaluated = length valid_worlds\<rparr>)"

definition construct_guaranteed_portfolio ::
    "compiled_constraint \<Rightarrow> quantity \<Rightarrow> verification_error + guaranteed_portfolio" where
  "construct_guaranteed_portfolio compiled quantity =
     (if quantity_raw quantity = 0 then Inl Zero_Quantity
      else
        let legs = map (\<lambda>t. \<lparr>leg_market = lt_market t, leg_outcome = lt_outcome t, leg_quantity = quantity\<rparr>)
          (cc_templates compiled)
        in case contract_settlement_value quantity of
          None \<Rightarrow> Inl Payout_Overflow
        | Some expected \<Rightarrow>
            (case verify_payoff (cc_valid_worlds compiled) legs of
               Inl e \<Rightarrow> Inl e
             | Inr verified \<Rightarrow>
                 if pv_minimum_payout verified \<noteq> expected then Inl Invalid_Definition
                 else Inr \<lparr>gp_constraint_id = cd_id (cc_metadata compiled), gp_legs = legs,
                   gp_minimum_payout = pv_minimum_payout verified,
                   gp_worlds_verified = pv_worlds_evaluated verified\<rparr>))"


subsection \<open>The registry\<close>

datatype registration_result =
  Registered | Already_Registered | Reg_Invalid_Definition | Constraint_Id_Conflict | Key_Conflict

text \<open>
  The three unordered maps. \<open>constraints_\<close> and \<open>dependencies_\<close> are kept by key; \<open>keys_\<close> only
  grows by keys it does not hold yet.
\<close>

record constraint_registry =
  cr_constraints :: "(constraint_id \<times> compiled_constraint) list"
  cr_keys :: "(string \<times> constraint_id) list"
  cr_dependencies :: "(market_id \<times> constraint_id list) list"

definition new_registry :: constraint_registry where
  "new_registry = \<lparr>cr_constraints = [], cr_keys = [], cr_dependencies = []\<rparr>"

definition registry_dependencies :: "market_id \<Rightarrow> constraint_registry \<Rightarrow> constraint_id list" where
  "registry_dependencies market reg =
     (case map_of (cr_dependencies reg) market of None \<Rightarrow> [] | Some ids \<Rightarrow> ids)"

definition push_dependency ::
    "constraint_id \<Rightarrow> market_id \<Rightarrow> (market_id \<times> constraint_id list) list \<Rightarrow> (market_id \<times> constraint_id list) list" where
  "push_dependency constraint market deps =
     omap_put market ((case map_of deps market of None \<Rightarrow> [] | Some ids \<Rightarrow> ids) @ [constraint]) deps"

definition registry_add :: "constraint_definition \<Rightarrow> constraint_registry \<Rightarrow> registration_result \<times> constraint_registry" where
  "registry_add d reg =
     (case compile_constraint d of
        Inl _ \<Rightarrow> (Reg_Invalid_Definition, reg)
      | Inr compiled \<Rightarrow>
          (case map_of (cr_constraints reg) (cd_id (cc_metadata compiled)) of
             Some found \<Rightarrow>
               (if found = compiled then Already_Registered else Constraint_Id_Conflict, reg)
           | None \<Rightarrow>
               (case map_of (cr_keys reg) (cd_key (cc_metadata compiled)) of
                  Some _ \<Rightarrow> (Key_Conflict, reg)
                | None \<Rightarrow>
                    let id = cd_id (cc_metadata compiled) in
                    (Registered,
                     reg\<lparr>cr_constraints := omap_put id compiled (cr_constraints reg),
                         cr_keys := (cd_key (cc_metadata compiled), id) # cr_keys reg,
                         cr_dependencies := fold (push_dependency id) (cc_dependent_markets compiled)
                           (cr_dependencies reg)\<rparr>))))"

definition registry_find :: "constraint_id \<Rightarrow> constraint_registry \<Rightarrow> compiled_constraint option" where
  "registry_find constraint reg = map_of (cr_constraints reg) constraint"

definition registry_size :: "constraint_registry \<Rightarrow> nat" where
  "registry_size reg = length (cr_constraints reg)"

definition registry_sorted_ids :: "constraint_registry \<Rightarrow> constraint_id list" where
  "registry_sorted_ids reg = sort (map fst (cr_constraints reg))"


subsection \<open>What a portfolio pays\<close>

text \<open>The payout in microdollars when each market settles as \<open>truth\<close> says.\<close>

definition leg_payout :: "(market_id \<Rightarrow> bool) \<Rightarrow> payoff_leg \<Rightarrow> int" where
  "leg_payout truth leg =
     (if leg_wins (leg_outcome leg) (truth (leg_market leg)) then quantity_raw (leg_quantity leg) * 10000 else 0)"

definition portfolio_payout :: "(market_id \<Rightarrow> bool) \<Rightarrow> payoff_leg list \<Rightarrow> int" where
  "portfolio_payout truth portfolio = (\<Sum>leg \<leftarrow> portfolio. leg_payout truth leg)"





lemma portfolio_payout_Cons [simp]:
  "portfolio_payout truth (leg # portfolio) = leg_payout truth leg + portfolio_payout truth portfolio"
  "portfolio_payout truth [] = 0"
  by (simp_all add: portfolio_payout_def)









subsection \<open>The guarantee\<close>

text \<open>The settlements that a relationship admits.\<close>

definition admits :: "relationship \<Rightarrow> (market_id \<Rightarrow> bool) \<Rightarrow> bool" where
  "admits rel truth =
     (case rel of Implication a c \<Rightarrow> truth a \<longrightarrow> truth c | Complement l r \<Rightarrow> truth l \<noteq> truth r)"

text \<open>The most legs that win at once in an admitted world.\<close>

definition winning_legs :: "relationship \<Rightarrow> int" where
  "winning_legs rel = (case rel of Implication _ _ \<Rightarrow> 2 | Complement _ _ \<Rightarrow> 1)"

lemma settlement2 [simp]:
  "settlement (assignment2 a x b y) m = (if m = a then Some x else if m = b then Some y else None)"
  by (simp add: settlement_def assignment2_def)

lemma has_duplicate2 [simp]: "has_duplicate_market (assignment2 a x b y) \<longleftrightarrow> a = b"
  by (simp add: assignment2_def)

text \<open>The two legs that the construction makes of the templates.\<close>

definition guaranteed_legs :: "relationship \<Rightarrow> quantity \<Rightarrow> payoff_leg list" where
  "guaranteed_legs rel q =
     (case rel of
        Implication a c \<Rightarrow>
          [\<lparr>leg_market = c, leg_outcome = Outcome_Yes, leg_quantity = q\<rparr>,
           \<lparr>leg_market = a, leg_outcome = Outcome_No, leg_quantity = q\<rparr>]
      | Complement l r \<Rightarrow>
          [\<lparr>leg_market = l, leg_outcome = Outcome_Yes, leg_quantity = q\<rparr>,
           \<lparr>leg_market = r, leg_outcome = Outcome_Yes, leg_quantity = q\<rparr>])"

lemma construct_compiled:
  assumes "compile_constraint d = Inr c"
  shows "construct_guaranteed_portfolio c q =
    (if quantity_raw q = 0 then Inl Zero_Quantity
     else if int64_max < winning_legs (cd_relationship d) * quantity_raw q * 10000 then Inl Payout_Overflow
     else Inr \<lparr>gp_constraint_id = cd_id d, gp_legs = guaranteed_legs (cd_relationship d) q,
       gp_minimum_payout = cash_of (quantity_raw q * 10000),
       gp_worlds_verified = length (cc_valid_worlds c)\<rparr>)"
proof -
  define v where "v = quantity_raw q * 10000"
  have v: "0 \<le> v" by (simp add: v_def)
  have raw: "v \<le> int64_max \<Longrightarrow> cash_raw (cash_of v) = v" using v by (simp add: limits)
  have settle: "contract_settlement_value q = (if v \<le> int64_max then Some (cash_of v) else None)"
    by (simp add: contract_settlement_value_eq v_def)
  have pos: "0 \<le> int64_max" "min v (v + v) = v" "min (v + v) v = v" using v by (simp_all add: limits)
  have twice: "int64_max - v < v \<longleftrightarrow> int64_max < 2 * v" by linarith
  have wins: "winning_legs rel * quantity_raw q * 10000 = winning_legs rel * v" for rel by (simp add: v_def)
  show ?thesis
    unfolding wins
    using assms raw v
    by (auto simp: compile_constraint_def construct_guaranteed_portfolio_def verify_payoff_def leg_wins_def
        settle winning_legs_def guaranteed_legs_def twice pos simp flip: v_def
        split: relationship.splits if_splits)
qed

lemma compile_metadata: "compile_constraint d = Inr c \<Longrightarrow> cc_metadata c = d"
  by (auto simp: compile_constraint_def split: relationship.splits if_splits)

lemma compile_distinct:
  "compile_constraint d = Inr c \<Longrightarrow>
     (case cd_relationship d of Implication a b \<Rightarrow> a \<noteq> b | Complement a b \<Rightarrow> a \<noteq> b)"
  by (auto simp: compile_constraint_def split: relationship.splits if_splits)

lemma guaranteed_legs_pay:
  "admits rel truth \<Longrightarrow> quantity_raw q * 10000 \<le> portfolio_payout truth (guaranteed_legs rel q)"
  by (auto simp: admits_def guaranteed_legs_def leg_payout_def leg_wins_def split: relationship.splits)

text \<open>The legs of the templates at a quantity, as the construction builds them.\<close>

definition template_legs :: "leg_template list \<Rightarrow> quantity \<Rightarrow> payoff_leg list" where
  "template_legs ts q = map (\<lambda>t. \<lparr>leg_market = lt_market t, leg_outcome = lt_outcome t, leg_quantity = q\<rparr>) ts"

lemma compiled_template_legs:
  "compile_constraint d = Inr c \<Longrightarrow>
     template_legs (cc_templates c) q = guaranteed_legs (cd_relationship d) q \<and> length (cc_templates c) = 2"
  by (auto simp: compile_constraint_def guaranteed_legs_def template_legs_def split: relationship.splits if_splits)

text \<open>
  Claim C32. The guaranteed portfolio is guaranteed. For a compiled implication or complement
  and any settlement of all markets that satisfies the relationship (not only the enumerated
  worlds), it pays at least the stated minimum, which is a dollar for each contract bought of
  a leg; some admitted settlement pays no more. It is constructed for every positive quantity
  whose payout in the best admitted world fits the 64-bit range.
\<close>

theorem guaranteed_payout_sound:
  assumes "compile_constraint d = Inr c"
  shows "((\<exists>gp. construct_guaranteed_portfolio c q = Inr gp) \<longleftrightarrow>
      quantity_raw q \<noteq> 0 \<and> winning_legs (cd_relationship d) * quantity_raw q * 10000 \<le> int64_max) \<and>
    (\<forall>gp. construct_guaranteed_portfolio c q = Inr gp \<longrightarrow>
      cash_raw (gp_minimum_payout gp) = quantity_raw q * 10000 \<and>
      (\<forall>truth. admits (cd_relationship d) truth \<longrightarrow>
         cash_raw (gp_minimum_payout gp) \<le> portfolio_payout truth (gp_legs gp)) \<and>
      (\<exists>truth. admits (cd_relationship d) truth \<and>
         portfolio_payout truth (gp_legs gp) = cash_raw (gp_minimum_payout gp)))"
proof -
  let ?rel = "cd_relationship d"
  note legs = guaranteed_legs_pay [of ?rel _ q]
  have tight: "\<exists>truth. admits ?rel truth \<and> portfolio_payout truth (guaranteed_legs ?rel q) = quantity_raw q * 10000"
  proof (cases ?rel)
    case (Implication a b)
    then show ?thesis
      by (intro exI [of _ "\<lambda>_. True"]) (simp add: admits_def guaranteed_legs_def leg_payout_def leg_wins_def)
  next
    case (Complement l r)
    then show ?thesis using compile_distinct [OF assms]
      by (intro exI [of _ "\<lambda>m. m = l"]) (simp add: admits_def guaranteed_legs_def leg_payout_def leg_wins_def)
  qed
  have "quantity_raw q * 10000 \<le> winning_legs ?rel * quantity_raw q * 10000"
    by (cases ?rel) (simp_all add: winning_legs_def)
  then have "winning_legs ?rel * quantity_raw q * 10000 \<le> int64_max \<Longrightarrow> quantity_raw q * 10000 \<le> int64_max"
    by (rule order_trans)
  then have raw: "winning_legs ?rel * quantity_raw q * 10000 \<le> int64_max \<Longrightarrow>
      cash_raw (cash_of (quantity_raw q * 10000)) = quantity_raw q * 10000"
    by (simp add: limits)
  show ?thesis
    unfolding construct_compiled [OF assms] using legs tight raw by (auto simp: not_less)
qed

lemma guaranteed_payout_sound_witness:
  "\<exists>gp c. compile_constraint \<lparr>cd_id = 7, cd_semantic_version = 1, cd_key = ''a-implies-b'',
       cd_provenance = ''dossier'', cd_relationship = Implication 2 1\<rparr> = Inr c \<and>
     construct_guaranteed_portfolio c (quantity_of 250) = Inr gp \<and>
     cash_raw (gp_minimum_payout gp) = 2500000"
proof -
  let ?d = "\<lparr>cd_id = 7, cd_semantic_version = 1, cd_key = ''a-implies-b'',
       cd_provenance = ''dossier'', cd_relationship = Implication 2 1\<rparr>"
  obtain c where c: "compile_constraint ?d = Inr c"
    by (simp add: compile_constraint_def has_valid_metadata_def)
  with guaranteed_payout_sound [OF c, of "quantity_of 250"] show ?thesis
    by (auto simp: winning_legs_def limits)
qed


subsection \<open>The registry's indexes\<close>

definition registry_ok :: "constraint_registry \<Rightarrow> bool" where
  "registry_ok reg \<longleftrightarrow> omap_ok (cr_constraints reg) \<and> omap_ok (cr_dependencies reg) \<and>
     (\<forall>cid c. map_of (cr_constraints reg) cid = Some c \<longrightarrow>
        compile_constraint (cc_metadata c) = Inr c \<and> cd_id (cc_metadata c) = cid) \<and>
     (\<forall>key cid. map_of (cr_keys reg) key = Some cid \<longleftrightarrow>
        (\<exists>c. map_of (cr_constraints reg) cid = Some c \<and> cd_key (cc_metadata c) = key)) \<and>
     (\<forall>market. distinct (registry_dependencies market reg) \<and>
        (\<forall>cid. cid \<in> set (registry_dependencies market reg) \<longleftrightarrow>
           (\<exists>c. map_of (cr_constraints reg) cid = Some c \<and> market \<in> set (cc_dependent_markets c))))"

lemma push_dependency_find:
  "(case map_of (push_dependency cid m deps) k of None \<Rightarrow> [] | Some ids \<Rightarrow> ids) =
     (case map_of deps k of None \<Rightarrow> [] | Some ids \<Rightarrow> ids) @ (if k = m then [cid] else [])"
  by (auto simp: push_dependency_def)

lemma fold_push_dependency:
  "distinct ms \<Longrightarrow>
   (case map_of (fold (push_dependency cid) ms deps) k of None \<Rightarrow> [] | Some ids \<Rightarrow> ids) =
     (case map_of deps k of None \<Rightarrow> [] | Some ids \<Rightarrow> ids) @ (if k \<in> set ms then [cid] else [])"
  by (induction ms arbitrary: deps) (auto simp: push_dependency_find)

lemma fold_push_ok: "omap_ok deps \<Longrightarrow> omap_ok (fold (push_dependency cid) ms deps)"
  by (induction ms arbitrary: deps) (simp_all add: push_dependency_def omap_ok_put)

lemma compiled_markets_distinct:
  "compile_constraint d = Inr c \<Longrightarrow> distinct (cc_dependent_markets c)"
  by (auto simp: compile_constraint_def split: relationship.splits if_splits)

lemma new_registry_ok [inv_intros]: "registry_ok new_registry"
  by (simp add: registry_ok_def new_registry_def registry_dependencies_def)

lemma registry_add_ok [inv_intros]:
  assumes "registry_ok reg"
  shows "registry_ok (snd (registry_add d reg))"
proof (cases "fst (registry_add d reg) = Registered")
  case False
  then have "snd (registry_add d reg) = reg"
    by (auto simp: registry_add_def Let_def split: sum.splits option.splits)
  with assms show ?thesis by simp
next
  case True
  then obtain c where c: "compile_constraint d = Inr c"
    by (auto simp: registry_add_def split: sum.splits)
  note meta = compile_metadata [OF c]
  from True c meta have fresh: "map_of (cr_constraints reg) (cd_id d) = None" "map_of (cr_keys reg) (cd_key d) = None"
    by (auto simp: registry_add_def split: option.splits if_splits)
  define reg' where "reg' = snd (registry_add d reg)"
  have reg': "cr_constraints reg' = omap_put (cd_id d) c (cr_constraints reg)"
    "cr_keys reg' = (cd_key d, cd_id d) # cr_keys reg"
    "cr_dependencies reg' = fold (push_dependency (cd_id d)) (cc_dependent_markets c) (cr_dependencies reg)"
    using c fresh by (simp_all add: reg'_def registry_add_def meta Let_def)
  have deps: "registry_dependencies m reg' =
      registry_dependencies m reg @ (if m \<in> set (cc_dependent_markets c) then [cd_id d] else [])" for m
    unfolding registry_dependencies_def reg' by (rule fold_push_dependency [OF compiled_markets_distinct [OF c]])
  have absent: "cd_id d \<notin> set (registry_dependencies m reg)" for m
    using assms fresh(1) by (simp add: registry_ok_def)
  have nokey: "map_of (cr_constraints reg) cid = Some c' \<Longrightarrow> cd_key (cc_metadata c') \<noteq> cd_key d" for cid c'
    using assms fresh(2) unfolding registry_ok_def by (metis option.distinct(1))
  have "registry_ok reg'"
    unfolding registry_ok_def deps unfolding reg'
    using assms fresh meta c absent nokey
    by (auto simp: registry_ok_def omap_ok_put fold_push_ok)
  then show ?thesis by (simp add: reg'_def)
qed

definition registry_of :: "constraint_definition list \<Rightarrow> constraint_registry" where
  "registry_of ds = fold (\<lambda>d reg. snd (registry_add d reg)) ds new_registry"

lemma registry_of_ok: "registry_ok (registry_of ds)"
proof -
  have "registry_ok reg \<Longrightarrow> registry_ok (fold (\<lambda>d reg. snd (registry_add d reg)) ds reg)" for reg
    by (induction ds arbitrary: reg) (auto intro: registry_add_ok)
  from this [OF new_registry_ok] show ?thesis by (simp add: registry_of_def)
qed

text \<open>
  After any sequence of registrations the indexes agree with the contents: every
  constraint found under an id is the compilation of its own definition with that id; keys
  are unique; the dependencies of a market are, without repetition, exactly the constraints
  that mention it; the sorted ids are all ids in ascending order. Registering again what is
  found reports it, and changes nothing.
\<close>

theorem registry_indexes_agree:
  "(registry_find cid (registry_of ds) = Some c \<longrightarrow>
      compile_constraint (cc_metadata c) = Inr c \<and> cd_id (cc_metadata c) = cid \<and>
      registry_add (cc_metadata c) (registry_of ds) = (Already_Registered, registry_of ds) \<and>
      (registry_find cid' (registry_of ds) = Some c' \<and> cd_key (cc_metadata c') = cd_key (cc_metadata c) \<longrightarrow>
         cid' = cid)) \<and>
   distinct (registry_dependencies market (registry_of ds)) \<and>
   (cid \<in> set (registry_dependencies market (registry_of ds)) \<longleftrightarrow>
      (\<exists>c. registry_find cid (registry_of ds) = Some c \<and> market \<in> set (cc_dependent_markets c))) \<and>
   sorted_wrt (<) (registry_sorted_ids (registry_of ds)) \<and>
   set (registry_sorted_ids (registry_of ds)) = {cid. registry_find cid (registry_of ds) \<noteq> None}"
proof -
  define reg where "reg = registry_of ds"
  have ok: "registry_ok reg" unfolding reg_def by (rule registry_of_ok)
  have key: "map_of (cr_constraints reg) i = Some x \<Longrightarrow> map_of (cr_keys reg) (cd_key (cc_metadata x)) = Some i" for i x
    using ok unfolding registry_ok_def by blast
  have unique: "map_of (cr_constraints reg) cid = Some c \<Longrightarrow> map_of (cr_constraints reg) cid' = Some c' \<Longrightarrow>
      cd_key (cc_metadata c') = cd_key (cc_metadata c) \<Longrightarrow> cid' = cid"
    using key [of cid c] key [of cid' c'] by simp
  have "sort (map fst (cr_constraints reg)) = map fst (cr_constraints reg)"
    using ok by (intro sorted_sort_id) (simp add: registry_ok_def omap_ok_def strict_sorted_iff)
  then have ids: "sorted_wrt (<) (registry_sorted_ids reg)"
      "set (registry_sorted_ids reg) = {cid. registry_find cid reg \<noteq> None}"
    using ok by (auto simp: registry_sorted_ids_def registry_ok_def omap_ok_def registry_find_def
        map_of_eq_None_iff)
  have again: "map_of (cr_constraints reg) cid = Some c \<Longrightarrow>
      registry_add (cc_metadata c) reg = (Already_Registered, reg)"
    using ok by (auto simp: registry_add_def registry_ok_def)
  have found: "map_of (cr_constraints reg) cid = Some c \<Longrightarrow>
      compile_constraint (cc_metadata c) = Inr c \<and> cd_id (cc_metadata c) = cid"
    and deps: "distinct (registry_dependencies market reg)" "cid \<in> set (registry_dependencies market reg) \<longleftrightarrow>
      (\<exists>c. map_of (cr_constraints reg) cid = Some c \<and> market \<in> set (cc_dependent_markets c))"
    using ok unfolding registry_ok_def by blast+
  show ?thesis
    unfolding reg_def [symmetric] using ids unfolding registry_find_def
    using found again unique deps by (intro conjI impI) (simp | meson | blast)+
qed

definition example_definition :: constraint_definition where
  "example_definition = \<lparr>cd_id = 7, cd_semantic_version = 1, cd_key = ''a-implies-b'',
     cd_provenance = ''dossier'', cd_relationship = Implication 2 1\<rparr>"

definition example_compiled :: compiled_constraint where
  "example_compiled = \<lparr>cc_metadata = example_definition, cc_dependent_markets = [2, 1],
     cc_valid_worlds = [assignment2 2 False 1 False, assignment2 2 False 1 True, assignment2 2 True 1 True],
     cc_templates = [\<lparr>lt_market = 1, lt_outcome = Outcome_Yes\<rparr>, \<lparr>lt_market = 2, lt_outcome = Outcome_No\<rparr>]\<rparr>"

lemma example_compiles: "compile_constraint example_definition = Inr example_compiled"
  by (simp add: compile_constraint_def has_valid_metadata_def example_definition_def example_compiled_def)

lemma example_registry: "registry_of [example_definition] =
   \<lparr>cr_constraints = [(7, example_compiled)], cr_keys = [(''a-implies-b'', 7)], cr_dependencies = [(1, [7]), (2, [7])]\<rparr>"
proof -
  have "cc_metadata example_compiled = example_definition" "cd_id example_definition = 7"
    "cd_key example_definition = ''a-implies-b''" "cc_dependent_markets example_compiled = [2, 1]"
    by (simp_all add: example_compiled_def example_definition_def)
  then show ?thesis
    by (simp add: registry_of_def registry_add_def new_registry_def example_compiles Let_def push_dependency_def)
qed

lemma registry_indexes_agree_witness:
  "registry_add example_definition (registry_of [example_definition]) =
     (Already_Registered, registry_of [example_definition])"
proof -
  have "registry_find 7 (registry_of [example_definition]) = Some example_compiled"
    by (simp add: registry_find_def example_registry)
  with registry_indexes_agree [of 7 "[example_definition]" example_compiled]
  show ?thesis by (simp add: example_compiled_def)
qed

end
