(* ===== verification/Candidate_Tracker.thy ===== *)
theory Candidate_Tracker
  imports Payoff
begin

text \<open>
  Candidates: pairs of quotes whose guaranteed payout exceeds their cost, after
  \<open>include/eme/opportunity/candidate_tracker.hpp\<close> and \<open>src/opportunity/candidate_tracker.cpp\<close>.
  Shown: a quoted margin is positive, exact and backed by the displayed depth; the refresh
  that only re-evaluates the constraints of the changed market leaves the tracker exactly as
  a full refresh would; and the events of a refresh are exactly the change of the view.
\<close>

subsection \<open>Data\<close>

type_synonym metadata_version = u64

datatype candidate_direction = Buy_Guaranteed_Legs

text \<open>The \<open>std::array\<close> of two legs is a pair.\<close>

record candidate_id =
  ci_version :: metadata_version
  ci_constraint :: constraint_id
  ci_semantic_version :: u32
  ci_direction :: candidate_direction
  ci_legs :: "leg_template \<times> leg_template"

record candidate_quote =
  cq_prices :: "price \<times> price"
  cq_quantity :: quantity
  cq_cost :: cash
  cq_payout :: cash
  cq_margin :: cash

datatype candidate_event_kind = Opened | Updated | Invalidated

datatype invalidation_reason =
  No_Reason | Disconnected | Book_Unavailable | Missing_Quote | Non_Positive_Margin | Arithmetic_Overflow

record candidate_event =
  ce_id :: candidate_id
  ce_kind :: candidate_event_kind
  ce_quote :: "candidate_quote option"
  ce_reason :: invalidation_reason

record tracker_entry =
  te_id :: candidate_id
  te_current :: "candidate_quote option"

record candidate_tracker =
  ct_entries :: "tracker_entry list"
  ct_dependencies :: "(market_id \<times> nat list) list"
  ct_events :: "candidate_event list"
  ct_generation :: "connection_generation option"
  ct_connected :: bool
  ct_active_count :: nat
  ct_evaluated :: nat


subsection \<open>The quote of a candidate\<close>

text \<open>
  One iteration of the loop over the legs: the acquisition price of the leg and the quantity
  still available.
\<close>

definition quote_leg :: "leg_template \<Rightarrow> market_state \<Rightarrow> int \<Rightarrow> invalidation_reason + int \<times> int" where
  "quote_leg leg state quantity =
     (case find_book (lt_market leg) state of
        None \<Rightarrow> Inl Book_Unavailable
      | Some book \<Rightarrow>
          if ob_state book \<noteq> Valid then Inl Book_Unavailable
          else
            let yes = (lt_outcome leg = Outcome_Yes);
                level = (if yes then best_ask book else best_bid book)
            in case level of
              None \<Rightarrow> Inl Missing_Quote
            | Some level \<Rightarrow>
                Inr (if yes then price_raw level else price_scale - price_raw level,
                     min quantity (quantity_raw (quantity_at (if yes then Ask else Bid) level book))))"

definition quote :: "candidate_id \<Rightarrow> market_state \<Rightarrow> invalidation_reason + candidate_quote" where
  "quote cid state =
     (if \<not> ms_connected state then Inl Disconnected
      else case quote_leg (fst (ci_legs cid)) state int64_max of
        Inl e \<Rightarrow> Inl e
      | Inr (price0, quantity) \<Rightarrow>
          (case quote_leg (snd (ci_legs cid)) state quantity of
             Inl e \<Rightarrow> Inl e
           | Inr (price1, quantity) \<Rightarrow>
               if quantity = 0 then Inl Missing_Quote
               else
                 let s = price0 + price1 in
                 if price_scale \<le> s then Inl Non_Positive_Margin
                 else case contract_settlement_value (quantity_of quantity) of
                   None \<Rightarrow> Inl Arithmetic_Overflow
                 | Some payout \<Rightarrow>
                     let cost = cash_of (s * quantity) in
                     Inr \<lparr>cq_prices = (price_of price0, price_of price1),
                       cq_quantity = quantity_of quantity, cq_cost = cost, cq_payout = payout,
                       cq_margin = cash_of (cash_raw payout - cash_raw cost)\<rparr>))"


subsection \<open>Operations\<close>

definition new_tracker :: candidate_tracker where
  "new_tracker = \<lparr>ct_entries = [], ct_dependencies = [], ct_events = [], ct_generation = None,
     ct_connected = False, ct_active_count = 0, ct_evaluated = 0\<rparr>"

definition push_index :: "nat \<Rightarrow> market_id \<Rightarrow> (market_id \<times> nat list) list \<Rightarrow> (market_id \<times> nat list) list" where
  "push_index index market deps =
     omap_put market ((case map_of deps market of None \<Rightarrow> [] | Some is \<Rightarrow> is) @ [index]) deps"

text \<open>The loop of the constructor. \<open>None\<close> stands for the two exceptions it throws.\<close>

definition candidate_identity :: "metadata_version \<Rightarrow> constraint_id \<Rightarrow> compiled_constraint \<Rightarrow> candidate_id" where
  "candidate_identity version cid compiled =
     (let t0 = cc_templates compiled ! 0; t1 = cc_templates compiled ! 1
      in \<lparr>ci_version = version, ci_constraint = cid,
          ci_semantic_version = cd_semantic_version (cc_metadata compiled),
          ci_direction = Buy_Guaranteed_Legs,
          ci_legs = (if lt_market t1 < lt_market t0 then (t1, t0) else (t0, t1))\<rparr>)"

fun tracker_loop ::
    "metadata_version \<Rightarrow> constraint_registry \<Rightarrow> constraint_id list \<Rightarrow> candidate_tracker \<Rightarrow> candidate_tracker option" where
  "tracker_loop version constraints [] tr = Some tr"
| "tracker_loop version constraints (cid # ids) tr =
     (let compiled = the (registry_find cid constraints);
          verified = construct_guaranteed_portfolio compiled (quantity_of quantity_scale)
      in if length (cc_templates compiled) \<noteq> 2 \<or> (case verified of Inl _ \<Rightarrow> True | Inr _ \<Rightarrow> False)
         then None
         else
           let identity = candidate_identity version cid compiled;
               index = length (ct_entries tr)
           in tracker_loop version constraints ids
             (tr\<lparr>ct_dependencies :=
                   push_index index (lt_market (snd (ci_legs identity)))
                     (push_index index (lt_market (fst (ci_legs identity))) (ct_dependencies tr)),
                 ct_entries := ct_entries tr @ [\<lparr>te_id = identity, te_current = None\<rparr>]\<rparr>))"

definition make_tracker :: "metadata_version \<Rightarrow> constraint_registry \<Rightarrow> candidate_tracker option" where
  "make_tracker version constraints =
     (if version = 0 then None
      else tracker_loop version constraints (registry_sorted_ids constraints) new_tracker)"

definition tracker_evaluate :: "market_state \<Rightarrow> nat \<Rightarrow> candidate_tracker \<Rightarrow> candidate_tracker" where
  "tracker_evaluate state index tr =
     (let entry = ct_entries tr ! index;
          tr = tr\<lparr>ct_evaluated := ct_evaluated tr + 1\<rparr>
      in case quote (te_id entry) state of
        Inr current \<Rightarrow>
          if te_current entry \<noteq> Some current then
            tr\<lparr>ct_active_count := (if te_current entry = None then ct_active_count tr + 1 else ct_active_count tr),
               ct_entries := (ct_entries tr)[index := entry\<lparr>te_current := Some current\<rparr>],
               ct_events := ct_events tr @
                 [\<lparr>ce_id = te_id entry,
                   ce_kind = (if te_current entry \<noteq> None then Updated else Opened),
                   ce_quote = Some current, ce_reason = No_Reason\<rparr>]\<rparr>
          else tr
      | Inl reason \<Rightarrow>
          if te_current entry \<noteq> None then
            tr\<lparr>ct_entries := (ct_entries tr)[index := entry\<lparr>te_current := None\<rparr>],
               ct_active_count := ct_active_count tr - 1,
               ct_events := ct_events tr @
                 [\<lparr>ce_id = te_id entry, ce_kind = Invalidated, ce_quote = None, ce_reason = reason\<rparr>]\<rparr>
          else tr)"

definition refresh_all :: "market_state \<Rightarrow> candidate_tracker \<Rightarrow> candidate_tracker" where
  "refresh_all state tr =
     fold (tracker_evaluate state) [0..<length (ct_entries tr)]
       (tr\<lparr>ct_events := [], ct_evaluated := 0, ct_connected := ms_connected state,
          ct_generation := ms_generation state\<rparr>)"

definition refresh :: "market_id \<Rightarrow> market_state \<Rightarrow> candidate_tracker \<Rightarrow> candidate_tracker" where
  "refresh changed_market state tr =
     (if ct_generation tr \<noteq> ms_generation state \<or> ct_connected tr \<noteq> ms_connected state
      then refresh_all state tr
      else
        let tr = tr\<lparr>ct_events := [], ct_evaluated := 0\<rparr>
        in case map_of (ct_dependencies tr) changed_market of
          None \<Rightarrow> tr
        | Some affected \<Rightarrow> fold (tracker_evaluate state) affected tr)"


subsection \<open>What a quote promises\<close>

text \<open>
  The best offer for a leg, in the leg's own units: buying NO takes the best bid for YES at
  the complementary price.
\<close>

definition offered :: "leg_template \<Rightarrow> market_state \<Rightarrow> int \<Rightarrow> int \<Rightarrow> bool" where
  "offered leg state price n \<longleftrightarrow>
     (\<exists>book level. find_book (lt_market leg) state = Some book \<and> ob_state book = Valid \<and>
        (case lt_outcome leg of
           Outcome_Yes \<Rightarrow> best_ask book = Some level \<and> price = price_raw level \<and>
             n = quantity_raw (quantity_at Ask level book)
         | Outcome_No \<Rightarrow> best_bid book = Some level \<and> price = 10000 - price_raw level \<and>
             n = quantity_raw (quantity_at Bid level book)))"

lemma quote_leg_Inr:
  "quote_leg leg state quantity = Inr (price, left) \<Longrightarrow>
     \<exists>n. offered leg state price n \<and> left = min quantity n \<and> 0 \<le> price \<and> price \<le> 10000"
  by (cases "lt_outcome leg")
    (fastforce simp: quote_leg_def offered_def Let_def price_scale_def split: option.splits if_splits)+

lemma best_level_quantity:
  assumes "book_ok book"
  shows "best_ask book = Some level \<Longrightarrow> 0 < quantity_raw (quantity_at Ask level book)"
    and "best_bid book = Some level \<Longrightarrow> 0 < quantity_raw (quantity_at Bid level book)"
proof -
  have shown: "0 < quantity_raw (quantity_at side (lv_price l) book)" if "l \<in> set (shown_levels side book)" for side l
    using that shown_level_depth [OF assms, of l side] quantity_at_depth [OF assms, of side "lv_price l"] by simp
  show "best_ask book = Some level \<Longrightarrow> 0 < quantity_raw (quantity_at Ask level book)"
    unfolding best_ask_shown [OF assms] by (cases "shown_levels Ask book") (auto simp: shown)
  show "best_bid book = Some level \<Longrightarrow> 0 < quantity_raw (quantity_at Bid level book)"
    unfolding best_bid_shown [OF assms] by (cases "shown_levels Bid book") (auto simp: shown)
qed

lemma offered_range:
  assumes "market_ok state" and "offered leg state price n"
  shows "0 < n \<and> n \<le> int64_max"
proof -
  from assms(2) obtain book where "find_book (lt_market leg) state = Some book"
    by (auto simp: offered_def)
  then have "book_ok book" using market_ok_find [OF assms(1)] by (auto simp: find_book_def)
  note ok = best_level_quantity [OF this]
  show ?thesis using assms(2) ok \<open>find_book _ _ = _\<close>
    by (cases "lt_outcome leg") (auto simp: offered_def)
qed

lemma quote_Inr:
  assumes "market_ok state" and "quote cid state = Inr c"
  shows "\<exists>n0 n1. ms_connected state \<and>
    offered (fst (ci_legs cid)) state (price_raw (fst (cq_prices c))) n0 \<and>
    offered (snd (ci_legs cid)) state (price_raw (snd (cq_prices c))) n1 \<and>
    quantity_raw (cq_quantity c) = min n0 n1 \<and> 0 < min n0 n1 \<and>
    cash_raw (cq_cost c) = (price_raw (fst (cq_prices c)) + price_raw (snd (cq_prices c))) * min n0 n1 \<and>
    cash_raw (cq_payout c) = min n0 n1 * 10000 \<and>
    cash_raw (cq_margin c) = cash_raw (cq_payout c) - cash_raw (cq_cost c) \<and> 0 < cash_raw (cq_margin c)"
proof -
  from assms(2) obtain p0 p1 q0 q1 where
    legs: "quote_leg (fst (ci_legs cid)) state int64_max = Inr (p0, q0)"
      "quote_leg (snd (ci_legs cid)) state q0 = Inr (p1, q1)" and
    conn: "ms_connected state" and s: "p0 + p1 < 10000"
    by (auto simp: quote_def Let_def price_scale_def split: if_splits sum.splits option.splits)
  from quote_leg_Inr [OF legs(1)] quote_leg_Inr [OF legs(2)] obtain n0 n1 where
    off: "offered (fst (ci_legs cid)) state p0 n0" "offered (snd (ci_legs cid)) state p1 n1" and
    q: "q0 = min int64_max n0" "q1 = min q0 n1" and p: "0 \<le> p0" "p0 \<le> 10000" "0 \<le> p1" "p1 \<le> 10000"
    by blast
  note n = offered_range [OF assms(1) off(1)] offered_range [OF assms(1) off(2)]
  define m where "m = min n0 n1"
  have m: "q1 = m" "0 < m" "m \<le> int64_max" using q n by (auto simp: m_def)
  from assms(2) legs conn s m(1) obtain payout where
    payout: "contract_settlement_value (quantity_of m) = Some payout" and
    c: "c = \<lparr>cq_prices = (price_of p0, price_of p1), cq_quantity = quantity_of m,
      cq_cost = cash_of ((p0 + p1) * m), cq_payout = payout,
      cq_margin = cash_of (cash_raw payout - cash_raw (cash_of ((p0 + p1) * m)))\<rparr>"
    by (auto simp: quote_def Let_def price_scale_def split: if_splits option.splits)
  have raw: "cash_raw payout = m * 10000"
    using payout m by (simp add: contract_settlement_value_Some limits)
  have "(p0 + p1) * m < 10000 * m" using s m(2) by (intro mult_strict_right_mono)
  then have less: "(p0 + p1) * m < cash_raw payout" using raw by linarith
  moreover have "0 \<le> (p0 + p1) * m" using p m by simp
  ultimately have "0 \<le> (p0 + p1) * m \<and> (p0 + p1) * m \<le> 9223372036854775807"
    using cash_raw_bounds(2) [of payout] by linarith
  then have cost: "cash_raw (cash_of ((p0 + p1) * m)) = (p0 + p1) * m" unfolding cash_raw_of by (rule if_P)
  note cost = cost less
  have "0 \<le> cash_raw payout - (p0 + p1) * m \<and> cash_raw payout - (p0 + p1) * m \<le> 9223372036854775807"
    using cost(2) \<open>0 \<le> (p0 + p1) * m \<and> _\<close> cash_raw_bounds(2) [of payout] by linarith
  then have margin: "cash_raw (cq_margin c) = cash_raw payout - (p0 + p1) * m"
    unfolding c candidate_quote.simps cost(1) by (subst cash_raw_of) (rule if_P)
  show ?thesis
    using off conn raw cost margin p m by (intro exI [of _ n0] exI [of _ n1]) (simp add: c limits flip: m_def)
qed

text \<open>
  A quoted candidate is what it says: the market is connected, both legs are offered
  at the quoted prices by the best level of a valid book, the quantity is the smaller of the
  two and positive, cost and payout are the exact products, and the gross margin is their
  difference and positive.
\<close>

theorem quote_sound:
  assumes "reachable_market scope state" and "quote cid state = Inr c"
  shows "\<exists>n0 n1. ms_connected state \<and>
    offered (fst (ci_legs cid)) state (price_raw (fst (cq_prices c))) n0 \<and>
    offered (snd (ci_legs cid)) state (price_raw (snd (cq_prices c))) n1 \<and>
    quantity_raw (cq_quantity c) = min n0 n1 \<and> 0 < min n0 n1 \<and>
    cash_raw (cq_cost c) = (price_raw (fst (cq_prices c)) + price_raw (snd (cq_prices c))) * min n0 n1 \<and>
    cash_raw (cq_payout c) = min n0 n1 * 10000 \<and>
    cash_raw (cq_margin c) = cash_raw (cq_payout c) - cash_raw (cq_cost c) \<and> 0 < cash_raw (cq_margin c)"
  using reachable_market_ok [OF assms(1)] assms(2) by (rule quote_Inr)

text \<open>Two live books whose quotes make a candidate of ten cents a contract.\<close>

definition pair_snapshot :: "market_id \<Rightarrow> level list \<Rightarrow> level list \<Rightarrow> book_snapshot" where
  "pair_snapshot m bids asks = \<lparr>bs_market_id = m, bs_generation = 1, bs_stream_id = ucast m,
     bs_sequence = 10, bs_received_at = 0, bs_bids = bids, bs_asks = asks\<rparr>"

definition pair_book :: "stream_id \<Rightarrow> levels \<Rightarrow> levels \<Rightarrow> order_book" where
  "pair_book s bids asks = \<lparr>ob_state = Valid, ob_stream_id = Some s, ob_last_sequence = Some 10,
     ob_bids = bids, ob_asks = asks\<rparr>"

definition pair_market :: market_state where
  "pair_market = \<lparr>ms_generation = Some 1, ms_connected = True,
     ms_books = [(1, pair_book 1 [] [(3000, 100)]), (2, pair_book 2 [(4000, 200)] [])],
     ms_scope = Per_Book, ms_stream_sequences = []\<rparr>"

definition pair_id :: candidate_id where
  "pair_id = \<lparr>ci_version = 1, ci_constraint = 7, ci_semantic_version = 1, ci_direction = Buy_Guaranteed_Legs,
     ci_legs = (\<lparr>lt_market = 1, lt_outcome = Outcome_Yes\<rparr>, \<lparr>lt_market = 2, lt_outcome = Outcome_No\<rparr>)\<rparr>"

lemma pair_market_reachable: "reachable_market Per_Book pair_market"
proof -
  let ?l = "\<lambda>p q. \<lparr>lv_price = price_of p, lv_quantity = quantity_of q\<rparr>"
  define one where "one = snd (open_connection 1 (new_market_state Per_Book))"
  define two where "two = snd (apply_event (Snapshot_Event (pair_snapshot 1 [] [?l 3000 100])) one)"
  have one: "one = \<lparr>ms_generation = Some 1, ms_connected = True, ms_books = [], ms_scope = Per_Book,
      ms_stream_sequences = []\<rparr>"
    by (simp add: one_def open_connection_def new_market_state_def)
  have two: "two = \<lparr>ms_generation = Some 1, ms_connected = True, ms_books = [(1, pair_book 1 [] [(3000, 100)])],
      ms_scope = Per_Book, ms_stream_sequences = []\<rparr>"
    by (simp add: two_def one apply_event_def apply_book_snapshot_def accepts_def pair_snapshot_def
        apply_snapshot_def new_book_def omap_emplace_def pair_book_def)
  have three: "snd (apply_event (Snapshot_Event (pair_snapshot 2 [?l 4000 200] [])) two) = pair_market"
    by (simp add: two apply_event_def apply_book_snapshot_def accepts_def pair_snapshot_def pair_market_def
        apply_snapshot_def new_book_def omap_emplace_def pair_book_def)
  have "reachable_market Per_Book one"
    unfolding one_def by (rule reach_market_step [OF reach_market_new market_step_open])
  then have "reachable_market Per_Book two"
    unfolding two_def by (rule reach_market_step [OF _ market_step_event])
  from reach_market_step [OF this market_step_event] three show ?thesis by metis
qed

lemma pair_quote: "quote pair_id pair_market = Inr \<lparr>cq_prices = (price_of 3000, price_of 6000),
    cq_quantity = quantity_of 100, cq_cost = cash_of 900000, cq_payout = cash_of 1000000,
    cq_margin = cash_of 100000\<rparr>"
  by (simp add: quote_def quote_leg_def find_book_def pair_market_def pair_id_def pair_book_def best_ask_def
      best_bid_def quantity_at_def levels_for_def price_from_raw_def contract_settlement_value_eq Let_def limits)

lemma quote_sound_witness:
  "0 < cash_raw (cq_margin \<lparr>cq_prices = (price_of 3000, price_of 6000),
    cq_quantity = quantity_of 100, cq_cost = cash_of 900000, cq_payout = cash_of 1000000,
    cq_margin = cash_of 100000\<rparr>)"
  using quote_sound [OF pair_market_reachable pair_quote] by blast


subsection \<open>Refreshing\<close>

text \<open>The entry as it must be for a state.\<close>

definition fresh_entry :: "market_state \<Rightarrow> tracker_entry \<Rightarrow> tracker_entry" where
  "fresh_entry state e = e\<lparr>te_current := (case quote (te_id e) state of Inl _ \<Rightarrow> None | Inr c \<Rightarrow> Some c)\<rparr>"

lemma fresh_entry_id [simp]: "te_id (fresh_entry state e) = te_id e"
  by (simp add: fresh_entry_def)

lemma fresh_entry_idem [simp]: "fresh_entry state (fresh_entry state e) = fresh_entry state e"
  by (simp add: fresh_entry_def)

text \<open>The event that brings a view of an entry up to date; none when nothing changed.\<close>

definition entry_events :: "market_state \<Rightarrow> tracker_entry \<Rightarrow> candidate_event list" where
  "entry_events state e =
     (case quote (te_id e) state of
        Inr c \<Rightarrow> if te_current e = Some c then []
          else [\<lparr>ce_id = te_id e, ce_kind = (if te_current e \<noteq> None then Updated else Opened),
                 ce_quote = Some c, ce_reason = No_Reason\<rparr>]
      | Inl reason \<Rightarrow> if te_current e = None then []
          else [\<lparr>ce_id = te_id e, ce_kind = Invalidated, ce_quote = None, ce_reason = reason\<rparr>])"

definition active :: "tracker_entry list \<Rightarrow> nat" where
  "active es = length (filter (\<lambda>e. te_current e \<noteq> None) es)"

lemma active_update:
  "i < length es \<Longrightarrow> active (es[i := e]) + (if te_current (es ! i) \<noteq> None then 1 else 0) =
     active es + (if te_current e \<noteq> None then 1 else 0)"
proof (induction es arbitrary: i)
  case (Cons x es)
  then show ?case by (cases i) (auto simp: active_def)
qed simp

lemma active_pos: "i < length es \<Longrightarrow> te_current (es ! i) \<noteq> None \<Longrightarrow> 0 < active es"
  by (auto simp: active_def filter_empty_conv intro: nth_mem)

lemma entry_same: "te_current e = x \<Longrightarrow> e\<lparr>te_current := x\<rparr> = e"
  by (cases e) simp

lemma tracker_evaluate_effect:
  assumes "i < length (ct_entries tr)"
  shows "ct_entries (tracker_evaluate state i tr) = (ct_entries tr)[i := fresh_entry state (ct_entries tr ! i)]"
    and "ct_events (tracker_evaluate state i tr) = ct_events tr @ entry_events state (ct_entries tr ! i)"
    and "ct_active_count tr = active (ct_entries tr) \<Longrightarrow>
      ct_active_count (tracker_evaluate state i tr) = active (ct_entries (tracker_evaluate state i tr))"
    and "ct_dependencies (tracker_evaluate state i tr) = ct_dependencies tr"
    and "ct_generation (tracker_evaluate state i tr) = ct_generation tr"
    and "ct_connected (tracker_evaluate state i tr) = ct_connected tr"
proof -
  let ?e = "ct_entries tr ! i"
  show entries: "ct_entries (tracker_evaluate state i tr) = (ct_entries tr)[i := fresh_entry state ?e]"
    by (auto simp: tracker_evaluate_def Let_def fresh_entry_def entry_same split: sum.splits)
  show "ct_events (tracker_evaluate state i tr) = ct_events tr @ entry_events state ?e"
    by (auto simp: tracker_evaluate_def entry_events_def Let_def split: sum.splits)
  show "ct_dependencies (tracker_evaluate state i tr) = ct_dependencies tr"
    "ct_generation (tracker_evaluate state i tr) = ct_generation tr"
    "ct_connected (tracker_evaluate state i tr) = ct_connected tr"
    by (auto simp: tracker_evaluate_def Let_def split: sum.splits)
  assume "ct_active_count tr = active (ct_entries tr)"
  then show "ct_active_count (tracker_evaluate state i tr) = active (ct_entries (tracker_evaluate state i tr))"
    using active_update [OF assms, of "fresh_entry state ?e"] active_pos [OF assms]
    unfolding entries by (auto simp: tracker_evaluate_def Let_def fresh_entry_def split: sum.splits if_splits)
qed

lemma fold_evaluate_all:
  "\<forall>i \<in> set is. i < length (ct_entries tr) \<Longrightarrow> fold (tracker_evaluate state) is tr = tr' \<Longrightarrow>
     length (ct_entries tr') = length (ct_entries tr) \<and>
     (\<forall>j < length (ct_entries tr). ct_entries tr' ! j =
        (if j \<in> set is then fresh_entry state (ct_entries tr ! j) else ct_entries tr ! j)) \<and>
     (ct_active_count tr = active (ct_entries tr) \<longrightarrow> ct_active_count tr' = active (ct_entries tr')) \<and>
     ct_dependencies tr' = ct_dependencies tr \<and> ct_generation tr' = ct_generation tr \<and>
     ct_connected tr' = ct_connected tr"
proof (induction "is" arbitrary: tr)
  case (Cons i "is")
  define tr1 where "tr1 = tracker_evaluate state i tr"
  have i: "i < length (ct_entries tr)" using Cons.prems(1) by simp
  note step = tracker_evaluate_effect [OF i, of state, folded tr1_def]
  have "\<forall>i \<in> set is. i < length (ct_entries tr1)" using Cons.prems(1) by (simp add: step(1))
  moreover have "fold (tracker_evaluate state) is tr1 = tr'" using Cons.prems(2) by (simp add: tr1_def)
  ultimately show ?case using Cons.IH [of tr1] step
    by (auto simp: nth_list_update)
qed simp

lemma fold_evaluate_effect:
  fixes state :: market_state and "is" :: "nat list"
  assumes "\<forall>i \<in> set is. i < length (ct_entries tr)"
  shows "length (ct_entries (fold (tracker_evaluate state) is tr)) = length (ct_entries tr)"
    and "j < length (ct_entries tr) \<Longrightarrow> ct_entries (fold (tracker_evaluate state) is tr) ! j =
      (if j \<in> set is then fresh_entry state (ct_entries tr ! j) else ct_entries tr ! j)"
    and "ct_active_count tr = active (ct_entries tr) \<Longrightarrow>
      ct_active_count (fold (tracker_evaluate state) is tr) = active (ct_entries (fold (tracker_evaluate state) is tr))"
    and "ct_dependencies (fold (tracker_evaluate state) is tr) = ct_dependencies tr"
    and "ct_generation (fold (tracker_evaluate state) is tr) = ct_generation tr"
    and "ct_connected (fold (tracker_evaluate state) is tr) = ct_connected tr"
  using fold_evaluate_all [OF assms refl, of state] by blast+


subsection \<open>The invariant of a tracker\<close>

definition entry_markets :: "tracker_entry \<Rightarrow> market_id set" where
  "entry_markets e = {lt_market (fst (ci_legs (te_id e))), lt_market (snd (ci_legs (te_id e)))}"

definition dependents :: "candidate_tracker \<Rightarrow> market_id \<Rightarrow> nat list" where
  "dependents tr m = (case map_of (ct_dependencies tr) m of None \<Rightarrow> [] | Some is \<Rightarrow> is)"

definition tracker_ok :: "candidate_tracker \<Rightarrow> bool" where
  "tracker_ok tr \<longleftrightarrow> distinct (map te_id (ct_entries tr)) \<and>
     ct_active_count tr = active (ct_entries tr) \<and>
     (\<forall>m i. i \<in> set (dependents tr m) \<longleftrightarrow> i < length (ct_entries tr) \<and> m \<in> entry_markets (ct_entries tr ! i))"

definition up_to_date :: "market_state \<Rightarrow> candidate_tracker \<Rightarrow> bool" where
  "up_to_date state tr \<longleftrightarrow> map (fresh_entry state) (ct_entries tr) = ct_entries tr \<and>
     ct_generation tr = ms_generation state \<and> ct_connected tr = ms_connected state"

lemma refresh_all_effect:
  shows "ct_entries (refresh_all state tr) = map (fresh_entry state) (ct_entries tr)"
    and "up_to_date state (refresh_all state tr)"
    and "ct_active_count tr = active (ct_entries tr) \<Longrightarrow>
      ct_active_count (refresh_all state tr) = active (ct_entries (refresh_all state tr))"
    and "ct_dependencies (refresh_all state tr) = ct_dependencies tr"
proof -
  let ?tr = "tr\<lparr>ct_events := [], ct_evaluated := 0, ct_connected := ms_connected state, ct_generation := ms_generation state\<rparr>"
  have range: "\<forall>i \<in> set [0..<length (ct_entries ?tr)]. i < length (ct_entries ?tr)" by simp
  note effect = fold_evaluate_effect [OF range, where state = state]
  show entries: "ct_entries (refresh_all state tr) = map (fresh_entry state) (ct_entries tr)"
    using effect(1,2) by (intro nth_equalityI) (simp_all add: refresh_all_def)
  show "up_to_date state (refresh_all state tr)"
    unfolding up_to_date_def entries using effect(5,6) by (simp add: refresh_all_def comp_def)
  show "ct_active_count tr = active (ct_entries tr) \<Longrightarrow>
      ct_active_count (refresh_all state tr) = active (ct_entries (refresh_all state tr))"
    using effect(3) by (simp add: refresh_all_def)
  show "ct_dependencies (refresh_all state tr) = ct_dependencies tr"
    using effect(4) by (simp add: refresh_all_def)
qed

text \<open>The refresh for one market, when the connection is the one of the last refresh.\<close>

lemma refresh_effect:
  assumes "tracker_ok tr" and "ct_generation tr = ms_generation state" and "ct_connected tr = ms_connected state"
  shows "ct_entries (refresh m state tr) =
      map (\<lambda>e. if m \<in> entry_markets e then fresh_entry state e else e) (ct_entries tr)"
    and "ct_active_count (refresh m state tr) = active (ct_entries (refresh m state tr))"
    and "ct_dependencies (refresh m state tr) = ct_dependencies tr"
    and "ct_generation (refresh m state tr) = ms_generation state"
    and "ct_connected (refresh m state tr) = ms_connected state"
proof -
  let ?tr = "tr\<lparr>ct_events := [], ct_evaluated := 0\<rparr>"
  have run: "refresh m state tr = fold (tracker_evaluate state) (dependents tr m) ?tr"
    using assms(2,3) by (auto simp: refresh_def dependents_def Let_def split: option.splits)
  have deps: "i \<in> set (dependents tr m) \<longleftrightarrow> i < length (ct_entries tr) \<and> m \<in> entry_markets (ct_entries tr ! i)" for i
    using assms(1) by (simp add: tracker_ok_def)
  then have range: "\<forall>i \<in> set (dependents tr m). i < length (ct_entries ?tr)" by simp
  note effect = fold_evaluate_effect [OF range, where state = state]
  show "ct_entries (refresh m state tr) =
      map (\<lambda>e. if m \<in> entry_markets e then fresh_entry state e else e) (ct_entries tr)"
    unfolding run using effect(1,2) deps by (intro nth_equalityI) simp_all
  show "ct_active_count (refresh m state tr) = active (ct_entries (refresh m state tr))"
    unfolding run using effect(3) assms(1) by (simp add: tracker_ok_def)
  show "ct_dependencies (refresh m state tr) = ct_dependencies tr"
    "ct_generation (refresh m state tr) = ms_generation state"
    "ct_connected (refresh m state tr) = ms_connected state"
    unfolding run using effect(4-6) assms(2,3) by simp_all
qed


subsection \<open>A refresh for the changed market is enough\<close>

text \<open>The market that a step can change while the connection stays the same.\<close>

definition input_market :: "market_input \<Rightarrow> market_id option" where
  "input_market i =
     (case i of Open_In _ \<Rightarrow> None | Close_In _ \<Rightarrow> None | Begin_Recovery_In m \<Rightarrow> Some m
      | Event_In (Snapshot_Event e) \<Rightarrow> Some (bs_market_id e) | Event_In (Delta_Event e) \<Rightarrow> Some (bd_market_id e))"

lemma finish_shared_local:
  "ms_connected ms \<Longrightarrow> ms_generation ms \<noteq> None \<Longrightarrow> finish_shared s n r ms = (res, ms') \<Longrightarrow>
     ms_connected ms' \<Longrightarrow> ms_books ms' = ms_books ms"
  by (auto simp: finish_shared_def close_connection_def invalidate_all_def split: if_splits)

lemma apply_event_local:
  assumes "apply_event event ms = (res, ms')" and "ms_connected ms' = ms_connected ms"
    and "input_market (Event_In event) \<noteq> Some k"
  shows "find_book k ms' = find_book k ms"
proof (cases "res = Connection_Mismatch")
  case True
  then have "ms' = ms" using assms(1)
    by (auto simp: apply_event_def apply_book_snapshot_def apply_book_delta_def finish_shared_def Let_def
        split: normalized_market_event.splits if_splits option.splits prod.splits)
  then show ?thesis by simp
next
  case False
  then obtain r where r: "res = Book_Result r" by (cases res) auto
  show ?thesis
  proof (cases "ms_scope ms")
    case Per_Book
    with assms show ?thesis
      by (cases event) (auto simp: apply_event_def apply_book_snapshot_def apply_book_delta_def find_book_def
          input_market_def Let_def split: if_splits option.splits prod.splits)
  next
    case Shared_Stream
    have live: "ms_connected ms" "ms_generation ms \<noteq> None"
      using shared_event_shape [OF Shared_Stream] assms(1) r by (auto simp: finished_as_def)
    then have up: "ms_connected ms'" using assms(2) by simp
    obtain books s n where run: "finish_shared s n r (ms\<lparr>ms_books := books\<rparr>) = (Book_Result r, ms')"
      using shared_event_shape [OF Shared_Stream, of event r ms'] assms(1) r
      by (cases "event_stream event") (auto simp: finished_as_def)
    obtain g where g: "ms_generation ms = Some g" using live by auto
    have applied: "r = Applied"
      using finish_shared_closes [OF _ _ run, of g] live(1) g up by (cases "r = Applied") simp_all
    show ?thesis
      using assms(1,3) Shared_Stream r applied
      by (cases event) (auto simp: apply_event_def apply_book_snapshot_def apply_book_delta_def find_book_def
          finish_shared_def input_market_def Let_def split: if_splits option.splits prod.splits)
  qed
qed

lemma market_step_local:
  assumes "market_step ms i ms'" and "ms_connected ms' = ms_connected ms"
    and "ms_generation ms' = ms_generation ms" and "input_market i \<noteq> Some k"
  shows "find_book k ms' = find_book k ms"
  using assms(1)
proof cases
  case (market_step_open g)
  with assms(3) show ?thesis
    by (auto simp: open_connection_def Let_def split: if_splits option.splits)
next
  case (market_step_close g)
  with assms(2) show ?thesis by (auto simp: close_connection_def invalidate_all_def split: if_splits)
next
  case (market_step_recover m)
  with assms(4) show ?thesis
    by (auto simp: market_begin_recovery_def find_book_def input_market_def split: option.splits prod.splits)
next
  case (market_step_event e)
  with assms(2,4) show ?thesis by (intro apply_event_local [of e ms _ ms']) (auto simp: prod_eq_iff)
qed

lemma quote_leg_cong:
  "find_book (lt_market leg) ms' = find_book (lt_market leg) ms \<Longrightarrow> quote_leg leg ms' q = quote_leg leg ms q"
  by (simp add: quote_leg_def)

lemma fresh_entry_cong:
  assumes "ms_connected ms' = ms_connected ms" and "\<forall>k \<in> entry_markets e. find_book k ms' = find_book k ms"
  shows "fresh_entry ms' e = fresh_entry ms e"
proof -
  have legs: "quote_leg (fst (ci_legs (te_id e))) ms' q = quote_leg (fst (ci_legs (te_id e))) ms q"
    "quote_leg (snd (ci_legs (te_id e))) ms' q = quote_leg (snd (ci_legs (te_id e))) ms q" for q
    using assms(2) by (auto simp: entry_markets_def intro: quote_leg_cong)
  have "quote (te_id e) ms' = quote (te_id e) ms" unfolding quote_def assms(1) legs by (rule refl)
  then show ?thesis by (simp add: fresh_entry_def)
qed

lemma refresh_up_to_date:
  assumes tr: "tracker_ok tr" "up_to_date ms tr" and step: "market_step ms i ms'"
    and m: "\<And>k. input_market i = Some k \<Longrightarrow> m = k"
  shows "up_to_date ms' (refresh m ms' tr) \<and> tracker_ok (refresh m ms' tr) \<and>
    ct_entries (refresh m ms' tr) = ct_entries (refresh_all ms' tr)"
proof (cases "ct_generation tr \<noteq> ms_generation ms' \<or> ct_connected tr \<noteq> ms_connected ms'")
  case True
  then have all: "refresh m ms' tr = refresh_all ms' tr" by (simp add: refresh_def)
  note effect = refresh_all_effect [where state = ms' and tr = tr]
  have "tracker_ok (refresh_all ms' tr)"
    using tr(1) effect(3) by (auto simp: tracker_ok_def effect(1,4) dependents_def entry_markets_def comp_def)
  with effect all show ?thesis by simp
next
  case False
  then have conn: "ct_generation tr = ms_generation ms'" "ct_connected tr = ms_connected ms'" by simp_all
  with tr(2) have same: "ms_connected ms' = ms_connected ms" "ms_generation ms' = ms_generation ms"
    by (simp_all add: up_to_date_def)
  note effect = refresh_effect [OF tr(1) conn, where m = m]
  have untouched: "fresh_entry ms' e = e" if e: "e \<in> set (ct_entries tr)" and no: "m \<notin> entry_markets e" for e
  proof -
    have "fresh_entry ms' e = fresh_entry ms e"
    proof (rule fresh_entry_cong [OF same(1)], rule)
      fix k assume "k \<in> entry_markets e"
      with no m have "input_market i \<noteq> Some k" by blast
      with step same show "find_book k ms' = find_book k ms" by (rule market_step_local)
    qed
    also have "fresh_entry ms e = e"
    proof -
      obtain j where "j < length (ct_entries tr)" "ct_entries tr ! j = e" using e by (metis in_set_conv_nth)
      with tr(2) show ?thesis unfolding up_to_date_def by (metis nth_map)
    qed
    finally show ?thesis .
  qed
  then have entries: "ct_entries (refresh m ms' tr) = map (fresh_entry ms') (ct_entries tr)"
    unfolding effect(1) by (intro map_cong refl) auto
  have "up_to_date ms' (refresh m ms' tr)"
    unfolding up_to_date_def entries using effect(4,5) by (simp add: comp_def)
  moreover have "tracker_ok (refresh m ms' tr)"
    using tr(1) effect(2) by (auto simp: tracker_ok_def entries effect(3) dependents_def entry_markets_def comp_def)
  ultimately show ?thesis by (simp add: entries refresh_all_effect(1))
qed


subsection \<open>The constructor\<close>

definition entry_of :: "metadata_version \<Rightarrow> constraint_registry \<Rightarrow> constraint_id \<Rightarrow> tracker_entry" where
  "entry_of version reg cid = \<lparr>te_id = candidate_identity version cid (the (registry_find cid reg)), te_current = None\<rparr>"

lemma identity_fields [simp]: "ci_constraint (candidate_identity version cid compiled) = cid"
  by (simp add: candidate_identity_def Let_def)

lemma push_index_find:
  "(case map_of (push_index i m deps) k of None \<Rightarrow> [] | Some is \<Rightarrow> is) =
     (case map_of deps k of None \<Rightarrow> [] | Some is \<Rightarrow> is) @ (if k = m then [i] else [])"
  by (auto simp: push_index_def)

lemma dependents_push:
  "dependents (tr\<lparr>ct_dependencies := push_index i m1 (push_index i m0 (ct_dependencies tr)), ct_entries := es\<rparr>) k =
     dependents tr k @ (if k = m0 then [i] else []) @ (if k = m1 then [i] else [])"
  unfolding dependents_def by (simp add: push_index_find)

definition deps_exact :: "candidate_tracker \<Rightarrow> bool" where
  "deps_exact tr \<longleftrightarrow>
     (\<forall>m i. i \<in> set (dependents tr m) \<longleftrightarrow> i < length (ct_entries tr) \<and> m \<in> entry_markets (ct_entries tr ! i))"

lemma deps_exact_snoc:
  assumes "deps_exact tr"
  shows "deps_exact (tr\<lparr>ct_dependencies :=
      push_index (length (ct_entries tr)) (lt_market (snd (ci_legs (te_id e))))
        (push_index (length (ct_entries tr)) (lt_market (fst (ci_legs (te_id e)))) (ct_dependencies tr)),
      ct_entries := ct_entries tr @ [e]\<rparr>)"
  unfolding deps_exact_def dependents_push
proof (intro allI)
  fix m i
  have old: "i \<in> set (dependents tr m) \<longleftrightarrow> i < length (ct_entries tr) \<and> m \<in> entry_markets (ct_entries tr ! i)"
    using assms by (simp add: deps_exact_def)
  show "i \<in> set (dependents tr m @ (if m = lt_market (fst (ci_legs (te_id e))) then [length (ct_entries tr)] else []) @
        (if m = lt_market (snd (ci_legs (te_id e))) then [length (ct_entries tr)] else [])) \<longleftrightarrow>
      i < length (ct_entries (tr\<lparr>ct_dependencies :=
        push_index (length (ct_entries tr)) (lt_market (snd (ci_legs (te_id e))))
          (push_index (length (ct_entries tr)) (lt_market (fst (ci_legs (te_id e)))) (ct_dependencies tr)),
        ct_entries := ct_entries tr @ [e]\<rparr>)) \<and>
      m \<in> entry_markets (ct_entries (tr\<lparr>ct_dependencies :=
        push_index (length (ct_entries tr)) (lt_market (snd (ci_legs (te_id e))))
          (push_index (length (ct_entries tr)) (lt_market (fst (ci_legs (te_id e)))) (ct_dependencies tr)),
        ct_entries := ct_entries tr @ [e]\<rparr>) ! i)"
    by (auto simp: old nth_append entry_markets_def less_Suc_eq)
qed

lemma tracker_loop_effect:
  "tracker_loop version reg ids tr = Some tr' \<Longrightarrow> deps_exact tr \<Longrightarrow>
     deps_exact tr' \<and> ct_entries tr' = ct_entries tr @ map (entry_of version reg) ids \<and>
     ct_active_count tr' = ct_active_count tr \<and> ct_generation tr' = ct_generation tr \<and>
     ct_connected tr' = ct_connected tr"
proof (induction ids arbitrary: tr)
  case (Cons cid ids)
  define e where "e = entry_of version reg cid"
  define tr1 where "tr1 = tr\<lparr>ct_dependencies :=
      push_index (length (ct_entries tr)) (lt_market (snd (ci_legs (te_id e))))
        (push_index (length (ct_entries tr)) (lt_market (fst (ci_legs (te_id e)))) (ct_dependencies tr)),
      ct_entries := ct_entries tr @ [e]\<rparr>"
  have "tracker_loop version reg ids tr1 = Some tr'"
    using Cons.prems(1) by (auto simp: tr1_def e_def entry_of_def Let_def split: if_splits)
  moreover have "deps_exact tr1" unfolding tr1_def using Cons.prems(2) by (rule deps_exact_snoc)
  ultimately show ?case using Cons.IH [of tr1] by (simp add: tr1_def e_def)
qed simp

lemma make_tracker_ok:
  assumes "make_tracker version (registry_of ds) = Some tr"
  shows "tracker_ok tr" and "ct_entries tr = map (entry_of version (registry_of ds)) (registry_sorted_ids (registry_of ds))"
    and "ct_generation tr = None" and "\<not> ct_connected tr"
proof -
  have "deps_exact new_tracker" by (simp add: deps_exact_def new_tracker_def dependents_def)
  with assms have effect: "deps_exact tr \<and> ct_entries tr = ct_entries new_tracker @
      map (entry_of version (registry_of ds)) (registry_sorted_ids (registry_of ds)) \<and>
      ct_active_count tr = ct_active_count new_tracker \<and> ct_generation tr = ct_generation new_tracker \<and>
      ct_connected tr = ct_connected new_tracker"
    by (intro tracker_loop_effect) (auto simp: make_tracker_def split: if_splits)
  then show entries: "ct_entries tr = map (entry_of version (registry_of ds)) (registry_sorted_ids (registry_of ds))"
    and "ct_generation tr = None" and "\<not> ct_connected tr" by (simp_all add: new_tracker_def)
  have "sort (map fst (cr_constraints (registry_of ds))) = map fst (cr_constraints (registry_of ds))"
    using registry_of_ok [of ds] by (intro sorted_sort_id) (simp add: registry_ok_def omap_ok_def strict_sorted_iff)
  then have "distinct (registry_sorted_ids (registry_of ds))"
    using registry_of_ok [of ds] by (simp add: registry_sorted_ids_def registry_ok_def omap_ok_distinct)
  then have "distinct (map (ci_constraint \<circ> te_id) (ct_entries tr))"
    by (simp add: entries comp_def entry_of_def)
  then have "distinct (map te_id (ct_entries tr))" by (simp add: distinct_map flip: comp_inj_on_iff)
      (metis comp_inj_on_iff inj_on_imageI2)
  moreover have "active (ct_entries tr) = 0" by (simp add: entries active_def entry_of_def filter_empty_conv)
  ultimately show "tracker_ok tr"
    using effect unfolding tracker_ok_def deps_exact_def by (simp add: new_tracker_def)
qed


subsection \<open>Tracking a market\<close>

text \<open>
  The protocol of the header: a tracker built from a registry is refreshed fully once, then
  after every transition of the market for the market that the transition names.
\<close>

inductive tracks :: "metadata_version \<Rightarrow> constraint_definition list \<Rightarrow> sequence_scope \<Rightarrow>
    market_state \<Rightarrow> candidate_tracker \<Rightarrow> bool" for version ds scope where
  tracks_start: "make_tracker version (registry_of ds) = Some tr \<Longrightarrow> reachable_market scope ms \<Longrightarrow>
     tracks version ds scope ms (refresh_all ms tr)"
| tracks_step: "tracks version ds scope ms tr \<Longrightarrow> market_step ms i ms' \<Longrightarrow>
     (\<And>k. input_market i = Some k \<Longrightarrow> m = k) \<Longrightarrow> tracks version ds scope ms' (refresh m ms' tr)"

lemma tracks_invariant:
  "tracks version ds scope ms tr \<Longrightarrow> tracker_ok tr \<and> up_to_date ms tr \<and> reachable_market scope ms \<and>
     map te_id (ct_entries tr) =
       map (te_id \<circ> entry_of version (registry_of ds)) (registry_sorted_ids (registry_of ds))"
proof (induction rule: tracks.induct)
  case (tracks_start tr ms)
  note made = make_tracker_ok [OF tracks_start(1)]
  note all = refresh_all_effect [where state = ms and tr = tr]
  have "tracker_ok (refresh_all ms tr)"
    using made(1) all(3) by (auto simp: tracker_ok_def all(1,4) dependents_def entry_markets_def comp_def)
  with all(2) tracks_start(2) show ?case by (simp add: all(1) made(2) comp_def)
next
  case (tracks_step ms tr i ms' m)
  then have "tracker_ok tr" "up_to_date ms tr" by simp_all
  from refresh_up_to_date [OF this tracks_step(2,3)]
  have "up_to_date ms' (refresh m ms' tr) \<and> tracker_ok (refresh m ms' tr) \<and>
      ct_entries (refresh m ms' tr) = ct_entries (refresh_all ms' tr)" by blast
  moreover have "map te_id (ct_entries (refresh_all ms' tr)) = map te_id (ct_entries tr)"
    by (simp add: refresh_all_effect(1) comp_def)
  moreover have "reachable_market scope ms'" using tracks_step(2,4) by (auto intro: reach_market_step)
  ultimately show ?case using tracks_step.IH by simp
qed

lemma up_to_date_current:
  "up_to_date ms tr \<Longrightarrow> e \<in> set (ct_entries tr) \<Longrightarrow>
     te_current e = (case quote (te_id e) ms of Inl _ \<Rightarrow> None | Inr c \<Rightarrow> Some c)"
proof -
  assume up: "up_to_date ms tr" and e: "e \<in> set (ct_entries tr)"
  from e obtain j where j: "j < length (ct_entries tr)" "ct_entries tr ! j = e" by (metis in_set_conv_nth)
  have "map (fresh_entry ms) (ct_entries tr) ! j = ct_entries tr ! j"
    using up by (simp add: up_to_date_def)
  with j have "e = fresh_entry ms e" by simp
  then have "te_current e = te_current (fresh_entry ms e)" by (rule arg_cong [where f = te_current])
  also have "\<dots> = (case quote (te_id e) ms of Inl _ \<Rightarrow> None | Inr c \<Rightarrow> Some c)"
    by (simp add: fresh_entry_def)
  finally show ?thesis .
qed

text \<open>
  Claim C7. Refreshing only the constraints of the market that changed is enough. Whatever
  the history of the market and of the refreshes, every candidate the tracker holds is the
  quote of the present market, a candidate it does not hold has none, the tracker is what a
  full refresh would make it, and the active count is the number of present quotes.
\<close>

theorem incremental_refresh_exact:
  assumes "tracks version ds scope ms tr"
  shows "(\<forall>e \<in> set (ct_entries tr).
      te_current e = (case quote (te_id e) ms of Inl _ \<Rightarrow> None | Inr c \<Rightarrow> Some c)) \<and>
    ct_entries (refresh_all ms tr) = ct_entries tr \<and>
    ct_active_count tr = length (filter (\<lambda>e. \<exists>c. quote (te_id e) ms = Inr c) (ct_entries tr))"
proof -
  have tr: "tracker_ok tr" "up_to_date ms tr" using tracks_invariant [OF assms] by simp_all
  have "active (ct_entries tr) = length (filter (\<lambda>e. \<exists>c. quote (te_id e) ms = Inr c) (ct_entries tr))"
    unfolding active_def using up_to_date_current [OF tr(2)]
    by (intro arg_cong [where f = length] filter_cong) (auto split: sum.splits)
  moreover have "ct_entries (refresh_all ms tr) = ct_entries tr"
    using tr(2) by (simp add: refresh_all_effect(1) up_to_date_def)
  ultimately show ?thesis using tr up_to_date_current [OF tr(2)] by (auto simp: tracker_ok_def)
qed



subsection \<open>The events are the change\<close>

text \<open>What a consumer of the events knows: the quote of each candidate.\<close>

fun view :: "tracker_entry list \<Rightarrow> candidate_id \<Rightarrow> candidate_quote option" where
  "view [] cid = None"
| "view (e # es) cid = (if te_id e = cid then te_current e else view es cid)"

definition view_event :: "candidate_event \<Rightarrow> (candidate_id \<Rightarrow> candidate_quote option) \<Rightarrow> candidate_id \<Rightarrow> candidate_quote option" where
  "view_event ev v = v(ce_id ev := ce_quote ev)"

text \<open>An event fits a view: it opens what is absent, updates or invalidates what is present.\<close>

definition event_fits :: "candidate_event \<Rightarrow> candidate_quote option \<Rightarrow> bool" where
  "event_fits ev before \<longleftrightarrow>
     (case ce_kind ev of
        Opened \<Rightarrow> before = None \<and> ce_quote ev \<noteq> None \<and> ce_reason ev = No_Reason
      | Updated \<Rightarrow> before \<noteq> None \<and> ce_quote ev \<noteq> None \<and> ce_quote ev \<noteq> before \<and> ce_reason ev = No_Reason
      | Invalidated \<Rightarrow> before \<noteq> None \<and> ce_quote ev = None \<and> ce_reason ev \<noteq> No_Reason)"

text \<open>Each event of a list fits the view that the events before it have made.\<close>

fun events_fit :: "candidate_event list \<Rightarrow> (candidate_id \<Rightarrow> candidate_quote option) \<Rightarrow> bool" where
  "events_fit [] v \<longleftrightarrow> True"
| "events_fit (ev # evs) v \<longleftrightarrow> event_fits ev (v (ce_id ev)) \<and> events_fit evs (view_event ev v)"

lemma events_fit_append:
  "events_fit (xs @ ys) v \<longleftrightarrow> events_fit xs v \<and> events_fit ys (fold view_event xs v)"
  by (induction xs arbitrary: v) auto

lemma view_mem: "distinct (map te_id es) \<Longrightarrow> e \<in> set es \<Longrightarrow> view es (te_id e) = te_current e"
  by (induction es) (auto simp: image_iff)

lemma view_absent: "cid \<notin> te_id ` set es \<Longrightarrow> view es cid = None"
  by (induction es) auto

lemma view_update:
  "distinct (map te_id es) \<Longrightarrow> i < length es \<Longrightarrow> te_id e' = te_id (es ! i) \<Longrightarrow>
     view (es[i := e']) = (view es)(te_id e' := te_current e')"
proof (induction es arbitrary: i)
  case (Cons e es)
  show ?case
  proof (cases i)
    case (Suc j)
    with Cons.prems have "te_id e' \<in> te_id ` set es" by simp
    then have "te_id e \<noteq> te_id e'" using Cons.prems(1) by auto
    with Suc Cons show ?thesis by (auto simp: fun_eq_iff)
  qed (use Cons in \<open>auto simp: fun_eq_iff\<close>)
qed simp

lemma quote_reason: "quote cid ms = Inl r \<Longrightarrow> r \<noteq> No_Reason"
  by (auto simp: quote_def quote_leg_def Let_def split: if_splits option.splits sum.splits)

lemma entry_events_fit: "v (te_id e) = te_current e \<Longrightarrow> events_fit (entry_events ms e) v"
  by (auto simp: entry_events_def event_fits_def quote_reason split: sum.splits)

lemma entry_events_view:
  "v (te_id e) = te_current e \<Longrightarrow>
     fold view_event (entry_events ms e) v = v(te_id e := te_current (fresh_entry ms e))"
  by (auto simp: entry_events_def fresh_entry_def view_event_def fun_eq_iff split: sum.splits)

lemma fold_evaluate_events:
  "\<forall>i \<in> set is. i < length (ct_entries tr) \<Longrightarrow> distinct (map te_id (ct_entries tr)) \<Longrightarrow>
     \<exists>E. ct_events (fold (tracker_evaluate ms) is tr) = ct_events tr @ E \<and>
       view (ct_entries (fold (tracker_evaluate ms) is tr)) = fold view_event E (view (ct_entries tr)) \<and>
       events_fit E (view (ct_entries tr))"
proof (induction "is" arbitrary: tr)
  case (Cons i "is")
  let ?e = "ct_entries tr ! i"
  define tr1 where "tr1 = tracker_evaluate ms i tr"
  have i: "i < length (ct_entries tr)" using Cons.prems(1) by simp
  note step = tracker_evaluate_effect [OF i, of ms, folded tr1_def]
  have ids: "map te_id (ct_entries tr1) = map te_id (ct_entries tr)"
    using i by (simp add: step(1) map_update list_update_same_conv)
  have at: "view (ct_entries tr) (te_id ?e) = te_current ?e" using Cons.prems(2) i by (simp add: view_mem)
  have v1: "view (ct_entries tr1) = (view (ct_entries tr))(te_id ?e := te_current (fresh_entry ms ?e))"
    using view_update [OF Cons.prems(2) i, of "fresh_entry ms ?e"] by (simp add: step(1))
  have "\<forall>i \<in> set is. i < length (ct_entries tr1)" "distinct (map te_id (ct_entries tr1))"
    using Cons.prems by (simp_all add: step(1) ids [unfolded step(1)])
  from Cons.IH [OF this] obtain E where
    E: "ct_events (fold (tracker_evaluate ms) is tr1) = ct_events tr1 @ E"
      "view (ct_entries (fold (tracker_evaluate ms) is tr1)) = fold view_event E (view (ct_entries tr1))"
      "events_fit E (view (ct_entries tr1))" by blast
  have "fold view_event (entry_events ms ?e) (view (ct_entries tr)) = view (ct_entries tr1)"
    unfolding v1 by (rule entry_events_view [where v = "view (ct_entries tr)" and e = ?e, OF at])
  with E entry_events_fit [where v = "view (ct_entries tr)" and e = ?e and ms = ms, OF at] show ?case
    by (intro exI [of _ "entry_events ms ?e @ E"]) (simp add: step(2) events_fit_append flip: tr1_def)
qed simp

lemma refresh_as_fold:
  assumes "tracker_ok tr"
  shows "\<exists>is tr0. refresh m ms tr = fold (tracker_evaluate ms) is tr0 \<and> ct_events tr0 = [] \<and>
    ct_entries tr0 = ct_entries tr \<and> (\<forall>i \<in> set is. i < length (ct_entries tr))"
proof (cases "ct_generation tr \<noteq> ms_generation ms \<or> ct_connected tr \<noteq> ms_connected ms")
  case True
  then have "refresh m ms tr = fold (tracker_evaluate ms) [0..<length (ct_entries tr)]
      (tr\<lparr>ct_events := [], ct_evaluated := 0, ct_connected := ms_connected ms, ct_generation := ms_generation ms\<rparr>)"
    by (simp add: refresh_def refresh_all_def)
  moreover have "\<forall>i \<in> set [0..<length (ct_entries tr)]. i < length (ct_entries tr)" by simp
  ultimately show ?thesis by (intro exI) (rule conjI, assumption, simp)
next
  case False
  then have "refresh m ms tr = fold (tracker_evaluate ms) (dependents tr m) (tr\<lparr>ct_events := [], ct_evaluated := 0\<rparr>)"
    by (auto simp: refresh_def dependents_def Let_def split: option.splits)
  moreover have "\<forall>i \<in> set (dependents tr m). i < length (ct_entries tr)" using assms by (simp add: tracker_ok_def)
  ultimately show ?thesis by (intro exI) (rule conjI, assumption, simp)
qed

text \<open>
  The events of a refresh are exactly the change. A consumer that applies them in
  order to what it knew knows the tracker's present quotes, of every candidate; and each event
  says the truth when it comes: it opens what was absent, updates to a different quote, or
  invalidates, with a reason, what was present.
\<close>

theorem refresh_events_exact:
  assumes "tracks version ds scope ms0 tr"
  shows "view (ct_entries (refresh m ms tr)) = fold view_event (ct_events (refresh m ms tr)) (view (ct_entries tr)) \<and>
    events_fit (ct_events (refresh m ms tr)) (view (ct_entries tr))"
proof -
  have ok: "tracker_ok tr" using tracks_invariant [OF assms] by simp
  from refresh_as_fold [OF ok] obtain "is" tr0 where
    run: "refresh m ms tr = fold (tracker_evaluate ms) is tr0" and
    tr0: "ct_events tr0 = []" "ct_entries tr0 = ct_entries tr" "\<forall>i \<in> set is. i < length (ct_entries tr)" by blast
  with fold_evaluate_events [of "is" tr0 ms] ok show ?thesis by (auto simp: tracker_ok_def)
qed


subsection \<open>A tracked market\<close>

definition pair_tracker :: candidate_tracker where
  "pair_tracker = \<lparr>ct_entries = [\<lparr>te_id = pair_id, te_current = None\<rparr>], ct_dependencies = [(1, [0]), (2, [0])],
     ct_events = [], ct_generation = None, ct_connected = False, ct_active_count = 0, ct_evaluated = 0\<rparr>"

lemma pair_identity: "candidate_identity 1 7 example_compiled = pair_id"
  by (simp add: candidate_identity_def example_compiled_def example_definition_def pair_id_def)

lemma pair_constructs: "\<exists>gp. construct_guaranteed_portfolio example_compiled (quantity_of quantity_scale) = Inr gp"
  unfolding construct_compiled [OF example_compiles]
  by (simp add: example_definition_def winning_legs_def limits)

lemma pair_make: "make_tracker 1 (registry_of [example_definition]) = Some pair_tracker"
proof -
  have "registry_sorted_ids (registry_of [example_definition]) = [7]"
    "registry_find 7 (registry_of [example_definition]) = Some example_compiled"
    by (simp_all add: registry_sorted_ids_def registry_find_def example_registry)
  moreover have "length (cc_templates example_compiled) = 2" by (simp add: example_compiled_def)
  moreover obtain gp where "construct_guaranteed_portfolio example_compiled (quantity_of quantity_scale) = Inr gp"
    using pair_constructs by blast
  ultimately show ?thesis
    by (simp add: make_tracker_def Let_def pair_identity)
      (simp add: new_tracker_def pair_tracker_def push_index_def pair_id_def)
qed

definition pair_candidate :: candidate_quote where
  "pair_candidate = \<lparr>cq_prices = (price_of 3000, price_of 6000), cq_quantity = quantity_of 100,
     cq_cost = cash_of 900000, cq_payout = cash_of 1000000, cq_margin = cash_of 100000\<rparr>"

lemma pair_tracked: "tracks 1 [example_definition] Per_Book pair_market (refresh_all pair_market pair_tracker)"
  using pair_make pair_market_reachable by (rule tracks_start)

lemma pair_refreshed: "ct_entries (refresh_all pair_market pair_tracker) =
    [\<lparr>te_id = pair_id, te_current = Some pair_candidate\<rparr>]"
  unfolding refresh_all_effect(1)
  by (simp add: pair_tracker_def fresh_entry_def pair_quote pair_candidate_def)

lemma incremental_refresh_exact_witness:
  "ct_active_count (refresh_all pair_market pair_tracker) = 1"
  using incremental_refresh_exact [OF pair_tracked] by (simp add: pair_refreshed pair_quote)


lemma refresh_events_exact_witness:
  "events_fit (ct_events (refresh 1 (snd (close_connection 1 pair_market)) (refresh_all pair_market pair_tracker)))
     (view [\<lparr>te_id = pair_id, te_current = Some pair_candidate\<rparr>])"
  using refresh_events_exact [OF pair_tracked, of 1 "snd (close_connection 1 pair_market)"]
  by (simp add: pair_refreshed)

end
