(* ===== verification/Journal_Codec.thy ===== *)
theory Journal_Codec
  imports Market_State
begin

text \<open>
  The binary form of a journal record and its checksum, after
  \<open>include/eme/journal/raw_journal.hpp\<close> (the record and the error codes),
  \<open>src/journal/journal_codec.hpp\<close> and \<open>src/journal/journal_codec.cpp\<close>. A buffer of \<open>char\<close> is
  a \<open>string\<close>; the 64-bit signed clock counts are \<open>int\<close>s, cast to and from words as
  \<open>std::bit_cast\<close> does. Shown: the decoder accepts exactly the encodings of valid records, the
  table-driven checksum is the bitwise CRC, and it detects every change of a single byte.
\<close>

subsection \<open>Data\<close>

definition current_schema_version :: u32 where
  "current_schema_version = 2"

record raw_market_record =
  rr_schema_version :: u32
  rr_metadata_version :: u64
  rr_generation :: connection_generation
  rr_received_at :: int
  rr_observed_at :: int
  rr_sequence :: sequence_number
  rr_exchange_time_ns :: "int option"
  rr_channel :: string
  rr_payload :: string

datatype journal_error_code =
  Open_Failed | Invalid_Header | Unsupported_Version | Io_Error | Invalid_Record | Truncated_Record
  | Record_Too_Large | Checksum_Mismatch

definition error_code_to_string :: "journal_error_code \<Rightarrow> string" where
  "error_code_to_string code =
     (case code of Open_Failed \<Rightarrow> ''OPEN_FAILED'' | Invalid_Header \<Rightarrow> ''INVALID_HEADER''
      | Unsupported_Version \<Rightarrow> ''UNSUPPORTED_VERSION'' | Io_Error \<Rightarrow> ''IO_ERROR''
      | Invalid_Record \<Rightarrow> ''INVALID_RECORD'' | Truncated_Record \<Rightarrow> ''TRUNCATED_RECORD''
      | Record_Too_Large \<Rightarrow> ''RECORD_TOO_LARGE'' | Checksum_Mismatch \<Rightarrow> ''CHECKSUM_MISMATCH'')"

record journal_error =
  je_code :: journal_error_code
  je_record_index :: u64

datatype journal_read_result =
  Read_Record raw_market_record | End_Of_Journal | Read_Error journal_error

definition maximum_channel_bytes :: nat where "maximum_channel_bytes = 256"
definition maximum_payload_bytes :: nat where "maximum_payload_bytes = 16777216"
definition maximum_record_bytes :: nat where "maximum_record_bytes = 16777552"
definition minimum_record_bytes :: nat where "minimum_record_bytes = 53"

declare maximum_channel_bytes_def [limits] maximum_payload_bytes_def [limits]
  maximum_record_bytes_def [limits] minimum_record_bytes_def [limits]


subsection \<open>Little-endian words\<close>

text \<open>\<open>static_cast<unsigned char>\<close> and \<open>static_cast<char>\<close>.\<close>

definition byte_of :: "char \<Rightarrow> 'a::len word" where
  "byte_of c = of_nat (of_char c)"

definition char_of_word :: "'a::len word \<Rightarrow> char" where
  "char_of_word w = char_of (unat w)"

text \<open>The bytes that \<open>append_unsigned\<close> pushes: \<open>sizeof(Value)\<close> of them, the lowest first.\<close>

definition unsigned_bytes :: "'a::len word \<Rightarrow> string" where
  "unsigned_bytes v = map (\<lambda>i. char_of_word (drop_bit (i * 8) v AND 255)) [0..<LENGTH('a) div 8]"

definition append_unsigned :: "string \<Rightarrow> 'a::len word \<Rightarrow> string" where
  "append_unsigned bytes v = bytes @ unsigned_bytes v"

text \<open>The loop that reads them back.\<close>

definition word_of_bytes :: "string \<Rightarrow> 'a::len word" where
  "word_of_bytes bytes =
     fold (\<lambda>i v. v OR push_bit (i * 8) (byte_of (bytes ! i))) [0..<LENGTH('a) div 8] 0"

record record_reader =
  rd_bytes :: string
  rd_offset :: nat

definition reader_remaining :: "record_reader \<Rightarrow> nat" where
  "reader_remaining r = length (rd_bytes r) - rd_offset r"

definition take_unsigned :: "record_reader \<Rightarrow> 'a::len word option \<times> record_reader" where
  "take_unsigned r =
     (if reader_remaining r < LENGTH('a) div 8 then (None, r)
      else (Some (word_of_bytes (drop (rd_offset r) (rd_bytes r))),
            r\<lparr>rd_offset := rd_offset r + LENGTH('a) div 8\<rparr>))"

definition take_string :: "nat \<Rightarrow> record_reader \<Rightarrow> string option \<times> record_reader" where
  "take_string n r =
     (if reader_remaining r < n then (None, r)
      else (Some (take n (drop (rd_offset r) (rd_bytes r))), r\<lparr>rd_offset := rd_offset r + n\<rparr>))"


subsection \<open>Encoding and decoding\<close>

definition valid_record :: "raw_market_record \<Rightarrow> bool" where
  "valid_record r \<longleftrightarrow>
     rr_schema_version r = current_schema_version \<and> rr_metadata_version r \<noteq> 0 \<and> rr_generation r \<noteq> 0 \<and>
     rr_channel r \<noteq> [] \<and> length (rr_channel r) \<le> maximum_channel_bytes \<and>
     rr_payload r \<noteq> [] \<and> length (rr_payload r) \<le> maximum_payload_bytes"

definition u64_of_int :: "int \<Rightarrow> u64" where
  "u64_of_int i = word_of_int i"

text \<open>The buffer is the second component; an invalid record leaves it as it was.\<close>

definition encode_into :: "raw_market_record \<Rightarrow> string \<Rightarrow> journal_error_code option \<times> string" where
  "encode_into r bytes =
     (if \<not> valid_record r then (Some Invalid_Record, bytes)
      else
        let bytes = append_unsigned [] (rr_schema_version r);
            bytes = append_unsigned bytes (rr_metadata_version r);
            bytes = append_unsigned bytes (rr_generation r);
            bytes = append_unsigned bytes (u64_of_int (rr_received_at r));
            bytes = append_unsigned bytes (u64_of_int (rr_observed_at r));
            bytes = append_unsigned bytes (rr_sequence r);
            bytes = append_unsigned bytes (if rr_exchange_time_ns r \<noteq> None then 1 else 0 :: u8);
            bytes = (case rr_exchange_time_ns r of None \<Rightarrow> bytes
                     | Some t \<Rightarrow> append_unsigned bytes (u64_of_int t));
            bytes = append_unsigned bytes (of_nat (length (rr_channel r)) :: u32);
            bytes = append_unsigned bytes (of_nat (length (rr_payload r)) :: u32)
        in (None, bytes @ rr_channel r @ rr_payload r))"

definition encode :: "raw_market_record \<Rightarrow> journal_error_code + string" where
  "encode r = (case encode_into r [] of (Some e, _) \<Rightarrow> Inl e | (None, bytes) \<Rightarrow> Inr bytes)"

text \<open>The part of \<open>decode\<close> after the flags, and after the exchange time.\<close>

definition decode_body ::
    "u32 \<Rightarrow> u64 \<Rightarrow> u64 \<Rightarrow> u64 \<Rightarrow> u64 \<Rightarrow> u64 \<Rightarrow> int option \<Rightarrow> u64 \<Rightarrow> record_reader \<Rightarrow> journal_read_result" where
  "decode_body schema metadata generation received observed sequence exchange_time index reader =
     (let (channel_size, reader) = take_unsigned reader :: u32 option \<times> record_reader;
          (payload_size, reader) = take_unsigned reader :: u32 option \<times> record_reader
      in case (channel_size, payload_size) of
           (Some channel_size, Some payload_size) \<Rightarrow>
             let cs = unat channel_size; ps = unat payload_size in
             if cs = 0 \<or> maximum_channel_bytes < cs \<or> ps = 0 \<or> maximum_payload_bytes < ps \<or>
                reader_remaining reader \<noteq> cs + ps
             then Read_Error \<lparr>je_code = Invalid_Record, je_record_index = index\<rparr>
             else
               let (channel, reader) = take_string cs reader;
                   (payload, reader) = take_string ps reader
               in case (channel, payload) of
                    (Some channel, Some payload) \<Rightarrow>
                      if reader_remaining reader \<noteq> 0 \<or> metadata = 0 \<or> generation = 0
                      then Read_Error \<lparr>je_code = Invalid_Record, je_record_index = index\<rparr>
                      else Read_Record
                        \<lparr>rr_schema_version = schema, rr_metadata_version = metadata, rr_generation = generation,
                         rr_received_at = sint received, rr_observed_at = sint observed,
                         rr_sequence = sequence, rr_exchange_time_ns = exchange_time,
                         rr_channel = channel, rr_payload = payload\<rparr>
                  | _ \<Rightarrow> Read_Error \<lparr>je_code = Invalid_Record, je_record_index = index\<rparr>
         | _ \<Rightarrow> Read_Error \<lparr>je_code = Truncated_Record, je_record_index = index\<rparr>)"

definition decode :: "string \<Rightarrow> u64 \<Rightarrow> journal_read_result" where
  "decode bytes index =
     (let reader = \<lparr>rd_bytes = bytes, rd_offset = 0\<rparr>;
          (schema, reader) = take_unsigned reader :: u32 option \<times> record_reader;
          (metadata, reader) = take_unsigned reader :: u64 option \<times> record_reader;
          (generation, reader) = take_unsigned reader :: u64 option \<times> record_reader;
          (received, reader) = take_unsigned reader :: u64 option \<times> record_reader;
          (observed, reader) = take_unsigned reader :: u64 option \<times> record_reader;
          (sequence, reader) = take_unsigned reader :: u64 option \<times> record_reader;
          (flags, reader) = take_unsigned reader :: u8 option \<times> record_reader
      in case (schema, metadata, generation, received, observed, sequence, flags) of
           (Some schema, Some metadata, Some generation, Some received, Some observed, Some sequence, Some flags) \<Rightarrow>
             if schema \<noteq> current_schema_version
             then Read_Error \<lparr>je_code = Unsupported_Version, je_record_index = index\<rparr>
             else if 1 < flags
             then Read_Error \<lparr>je_code = Invalid_Record, je_record_index = index\<rparr>
             else if flags = 1 then
               (case take_unsigned reader :: u64 option \<times> record_reader of
                  (None, _) \<Rightarrow> Read_Error \<lparr>je_code = Truncated_Record, je_record_index = index\<rparr>
                | (Some exchange, reader) \<Rightarrow>
                    decode_body schema metadata generation received observed sequence (Some (sint exchange)) index reader)
             else decode_body schema metadata generation received observed sequence None index reader
         | _ \<Rightarrow> Read_Error \<lparr>je_code = Truncated_Record, je_record_index = index\<rparr>)"


subsection \<open>The checksum\<close>

text \<open>One step of the loop that fills the table, and the table's entry.\<close>

definition crc_step :: "u32 \<Rightarrow> u32" where
  "crc_step x = (if x AND 1 \<noteq> 0 then drop_bit 1 x XOR 3988292384 else drop_bit 1 x)"

definition crc_table :: "u32 list" where
  "crc_table = map (\<lambda>index. (crc_step ^^ 8) (of_nat index)) [0..<256]"

definition checksum_step :: "u32 \<Rightarrow> char \<Rightarrow> u32" where
  "checksum_step crc c =
     (let index = (crc XOR byte_of c) AND 255 in drop_bit 8 crc XOR crc_table ! unat index)"

definition checksum :: "string \<Rightarrow> u32" where
  "checksum bytes = NOT (foldl checksum_step 4294967295 bytes)"


subsection \<open>Words and their bytes\<close>

lemma of_char_less: "(of_char c :: nat) < 256"
  by simp

lemma bit_word_of_nat: "bit (of_nat m :: 'a::len word) k \<longleftrightarrow> k < LENGTH('a) \<and> bit m k"
  by transfer (auto simp: bit_take_bit_iff bit_of_nat_iff)

lemma bit_byte_of: "bit (byte_of c :: 'a::len word) k \<longleftrightarrow> k < LENGTH('a) \<and> bit (of_char c :: nat) k"
  by (simp only: byte_of_def bit_word_of_nat)

lemma bit_of_char_bound: "bit (of_char c :: nat) k \<Longrightarrow> k < 8"
proof -
  assume "bit (of_char c :: nat) k"
  moreover have "take_bit 8 (of_char c :: nat) = of_char c"
    using of_char_less [of c] by (intro take_bit_nat_eq_self) simp
  ultimately show "k < 8" by (metis bit_take_bit_iff)
qed

lemma bit_255: "bit (255 :: 'a::len word) k \<longleftrightarrow> k < 8 \<and> k < LENGTH('a)"
proof -
  have mask: "(255 :: 'a word) = mask 8" by (simp add: mask_numeral)
  show ?thesis unfolding mask bit_mask_iff by auto
qed

lemma of_char_of_word: "bit (of_char (char_of_word (w AND 255 :: 'a::len word)) :: nat) k \<longleftrightarrow> k < 8 \<and> bit w k"
proof -
  have "(of_char (char_of_word (w AND 255)) :: nat) = take_bit 8 (unat (w AND 255))"
    unfolding char_of_word_def of_char_of take_bit_eq_mod by simp
  then have "bit (of_char (char_of_word (w AND 255)) :: nat) k \<longleftrightarrow> k < 8 \<and> bit (w AND 255) k"
    by (simp only: bit_take_bit_iff bit_unsigned_iff possible_bit_nat simp_thms)
  then show ?thesis by (auto simp only: bit_and_iff bit_255 dest: bit_imp_le_length)
qed

lemma bit_fold_or:
  "bit (fold (\<lambda>i v. v OR f i) is v0 :: 'a::len word) k \<longleftrightarrow> bit v0 k \<or> (\<exists>i \<in> set is. bit (f i) k)"
  by (induction "is" arbitrary: v0) (auto simp: bit_or_iff)

lemma bit_word_of_bytes:
  assumes "LENGTH('a) = 8 * n"
  shows "bit (word_of_bytes bytes :: 'a::len word) k \<longleftrightarrow> k < LENGTH('a) \<and> bit (of_char (bytes ! (k div 8)) :: nat) (k mod 8)"
proof -
  have "bit (push_bit (i * 8) (byte_of (bytes ! i)) :: 'a word) k \<longleftrightarrow>
      k < LENGTH('a) \<and> i = k div 8 \<and> bit (of_char (bytes ! i) :: nat) (k mod 8)" for i
  proof -
    have "i * 8 \<le> k \<Longrightarrow> k - i * 8 < 8 \<Longrightarrow> k div 8 = i" by (rule div_nat_eqI) simp_all
    moreover have "k - k div 8 * 8 = k mod 8" by (rule minus_div_mult_eq_mod)
    ultimately show ?thesis
      using bit_of_char_bound [of "bytes ! i" "k - i * 8"]
      by (auto simp: bit_push_bit_iff bit_byte_of)
  qed
  then show ?thesis using assms by (auto simp: word_of_bytes_def bit_fold_or)
qed

lemma length_unsigned_bytes [simp]: "length (unsigned_bytes (v :: 'a::len word)) = LENGTH('a) div 8"
  by (simp add: unsigned_bytes_def)

lemma bit_unsigned_bytes:
  "j < LENGTH('a) div 8 \<Longrightarrow>
     bit (of_char (unsigned_bytes (v :: 'a::len word) ! j) :: nat) k \<longleftrightarrow> k < 8 \<and> bit v (j * 8 + k)"
  by (simp add: unsigned_bytes_def of_char_of_word bit_drop_bit_eq)

lemma word_of_unsigned_bytes:
  assumes "LENGTH('a) = 8 * n"
  shows "word_of_bytes (unsigned_bytes v @ post) = (v :: 'a::len word)"
proof (rule bit_word_eqI)
  fix k assume k: "k < LENGTH('a)"
  have "k div 8 < LENGTH('a) div 8" using k by (simp add: assms less_mult_imp_div_less)
  then show "bit (word_of_bytes (unsigned_bytes v @ post) :: 'a word) k \<longleftrightarrow> bit v k"
    using k by (simp add: bit_word_of_bytes [OF assms] nth_append bit_unsigned_bytes)
qed

lemma char_bits_eqI: "(\<And>k. k < 8 \<Longrightarrow> bit (of_char c :: nat) k = bit (of_char d :: nat) k) \<Longrightarrow> c = d"
proof -
  assume bits: "\<And>k. k < 8 \<Longrightarrow> bit (of_char c :: nat) k = bit (of_char d :: nat) k"
  have "(of_char c :: nat) = of_char d"
    by (rule bit_eqI) (metis bits bit_of_char_bound)
  then show "c = d" by simp
qed

lemma unsigned_bytes_of_word:
  assumes "LENGTH('a) = 8 * n" and "n \<le> length bytes"
  shows "unsigned_bytes (word_of_bytes bytes :: 'a::len word) = take n bytes"
proof (rule nth_equalityI)
  show "length (unsigned_bytes (word_of_bytes bytes :: 'a word)) = length (take n bytes)"
    using assms by simp
  fix j assume "j < length (unsigned_bytes (word_of_bytes bytes :: 'a word))"
  then have j: "j < n" "j < LENGTH('a) div 8" using assms by simp_all
  show "unsigned_bytes (word_of_bytes bytes :: 'a word) ! j = take n bytes ! j"
  proof (rule char_bits_eqI)
    fix k :: nat assume "k < 8"
    moreover from this j have "j * 8 + k < LENGTH('a)" using assms(1) by linarith
    ultimately show "bit (of_char (unsigned_bytes (word_of_bytes bytes :: 'a word) ! j) :: nat) k =
        bit (of_char (take n bytes ! j) :: nat) k"
      using j by (simp add: bit_unsigned_bytes bit_word_of_bytes [OF assms(1)])
  qed
qed


subsection \<open>The decoder by offsets\<close>

text \<open>The decoder reads fixed offsets; this is what it computes, for any input.\<close>

abbreviation field :: "nat \<Rightarrow> string \<Rightarrow> 'a::len word" where
  "field k bytes \<equiv> word_of_bytes (drop k bytes)"

abbreviation read_failure :: "journal_error_code \<Rightarrow> u64 \<Rightarrow> journal_read_result" where
  "read_failure code index \<equiv> Read_Error \<lparr>je_code = code, je_record_index = index\<rparr>"

definition body_at :: "nat \<Rightarrow> int option \<Rightarrow> string \<Rightarrow> u64 \<Rightarrow> journal_read_result" where
  "body_at off exchange_time bytes index =
     (if length bytes < off + 8 then read_failure Truncated_Record index
      else
        let cs = unat (field off bytes :: u32); ps = unat (field (off + 4) bytes :: u32)
        in if cs = 0 \<or> maximum_channel_bytes < cs \<or> ps = 0 \<or> maximum_payload_bytes < ps \<or>
              length bytes \<noteq> off + 8 + cs + ps \<or> (field 4 bytes :: u64) = 0 \<or> (field 12 bytes :: u64) = 0
           then read_failure Invalid_Record index
           else Read_Record
             \<lparr>rr_schema_version = field 0 bytes, rr_metadata_version = field 4 bytes, rr_generation = field 12 bytes,
              rr_received_at = sint (field 20 bytes :: u64), rr_observed_at = sint (field 28 bytes :: u64),
              rr_sequence = field 36 bytes, rr_exchange_time_ns = exchange_time,
              rr_channel = take cs (drop (off + 8) bytes), rr_payload = drop (off + 8 + cs) bytes\<rparr>)"

lemma decode_body_at:
  assumes "off \<le> length bytes"
  shows "decode_body (field 0 bytes) (field 4 bytes) (field 12 bytes) (field 20 bytes) (field 28 bytes)
      (field 36 bytes) exchange_time index \<lparr>rd_bytes = bytes, rd_offset = off\<rparr> =
    body_at off exchange_time bytes index"
proof (cases "length bytes < off + 8")
  case True
  then show ?thesis using assms
    by (auto simp: decode_body_def body_at_def take_unsigned_def reader_remaining_def)
next
  case False
  define cs where "cs = unat (field off bytes :: u32)"
  define ps where "ps = unat (field (off + 4) bytes :: u32)"
  have takes: "take_unsigned \<lparr>rd_bytes = bytes, rd_offset = off\<rparr> =
      (Some (field off bytes :: u32), \<lparr>rd_bytes = bytes, rd_offset = off + 4\<rparr>)"
    "take_unsigned \<lparr>rd_bytes = bytes, rd_offset = off + 4\<rparr> =
      (Some (field (off + 4) bytes :: u32), \<lparr>rd_bytes = bytes, rd_offset = off + 8\<rparr>)"
    using False by (simp_all add: take_unsigned_def reader_remaining_def)
  show ?thesis
  proof (cases "cs = 0 \<or> maximum_channel_bytes < cs \<or> ps = 0 \<or> maximum_payload_bytes < ps \<or>
      length bytes \<noteq> off + 8 + cs + ps")
    case True
    then show ?thesis using False takes
      by (auto simp: decode_body_def body_at_def reader_remaining_def Let_def simp flip: cs_def ps_def)
  next
    case fits: False
    have strings: "take_string cs \<lparr>rd_bytes = bytes, rd_offset = off + 8\<rparr> =
        (Some (take cs (drop (off + 8) bytes)), \<lparr>rd_bytes = bytes, rd_offset = off + 8 + cs\<rparr>)"
      "take_string ps \<lparr>rd_bytes = bytes, rd_offset = off + 8 + cs\<rparr> =
        (Some (drop (off + 8 + cs) bytes), \<lparr>rd_bytes = bytes, rd_offset = off + 8 + cs + ps\<rparr>)"
      using fits by (simp_all add: take_string_def reader_remaining_def)
    have "\<not> (cs = 0 \<or> maximum_channel_bytes < cs \<or> ps = 0 \<or> maximum_payload_bytes < ps \<or>
        reader_remaining \<lparr>rd_bytes = bytes, rd_offset = off + 8\<rparr> \<noteq> cs + ps)"
      using fits by (simp add: reader_remaining_def)
    with False fits takes strings show ?thesis
      by (simp add: decode_body_def body_at_def Let_def reader_remaining_def flip: cs_def ps_def)
  qed
qed

lemma decode_at:
  "decode bytes index =
     (if length bytes < 45 then read_failure Truncated_Record index
      else if (field 0 bytes :: u32) \<noteq> current_schema_version then read_failure Unsupported_Version index
      else if 1 < (field 44 bytes :: u8) then read_failure Invalid_Record index
      else if (field 44 bytes :: u8) = 1
      then if length bytes < 53 then read_failure Truncated_Record index
           else body_at 53 (Some (sint (field 45 bytes :: u64))) bytes index
      else body_at 45 None bytes index)"
proof (cases "length bytes < 45")
  case True
  then show ?thesis
    by (auto simp: decode_def take_unsigned_def reader_remaining_def Let_def split: option.splits)
next
  case False
  have takes: "take_unsigned \<lparr>rd_bytes = bytes, rd_offset = 0\<rparr> = (Some (field 0 bytes :: u32), \<lparr>rd_bytes = bytes, rd_offset = 4\<rparr>)"
    "take_unsigned \<lparr>rd_bytes = bytes, rd_offset = 4\<rparr> = (Some (field 4 bytes :: u64), \<lparr>rd_bytes = bytes, rd_offset = 12\<rparr>)"
    "take_unsigned \<lparr>rd_bytes = bytes, rd_offset = 12\<rparr> = (Some (field 12 bytes :: u64), \<lparr>rd_bytes = bytes, rd_offset = 20\<rparr>)"
    "take_unsigned \<lparr>rd_bytes = bytes, rd_offset = 20\<rparr> = (Some (field 20 bytes :: u64), \<lparr>rd_bytes = bytes, rd_offset = 28\<rparr>)"
    "take_unsigned \<lparr>rd_bytes = bytes, rd_offset = 28\<rparr> = (Some (field 28 bytes :: u64), \<lparr>rd_bytes = bytes, rd_offset = 36\<rparr>)"
    "take_unsigned \<lparr>rd_bytes = bytes, rd_offset = 36\<rparr> = (Some (field 36 bytes :: u64), \<lparr>rd_bytes = bytes, rd_offset = 44\<rparr>)"
    "take_unsigned \<lparr>rd_bytes = bytes, rd_offset = 44\<rparr> = (Some (field 44 bytes :: u8), \<lparr>rd_bytes = bytes, rd_offset = 45\<rparr>)"
    using False by (simp_all add: take_unsigned_def reader_remaining_def)
  have exchange: "take_unsigned \<lparr>rd_bytes = bytes, rd_offset = 45\<rparr> =
      (if length bytes < 53 then (None, \<lparr>rd_bytes = bytes, rd_offset = 45\<rparr>)
       else (Some (field 45 bytes :: u64), \<lparr>rd_bytes = bytes, rd_offset = 53\<rparr>))"
    using False by (auto simp: take_unsigned_def reader_remaining_def)
  have body: "decode_body current_schema_version (field 4 bytes) (field 12 bytes) (field 20 bytes) (field 28 bytes)
      (field 36 bytes) e index \<lparr>rd_bytes = bytes, rd_offset = off\<rparr> = body_at off e bytes index"
    if "word_of_bytes bytes = current_schema_version" "off \<le> length bytes" for e off
    using decode_body_at [OF that(2), of e index] that(1) by simp
  show ?thesis
    using False by (simp add: decode_def Let_def takes exchange body)
qed


subsection \<open>The decoder accepts exactly the encodings\<close>

text \<open>The clock counts of a record are 64-bit integers.\<close>

definition record_in_range :: "raw_market_record \<Rightarrow> bool" where
  "record_in_range r \<longleftrightarrow> in_int64 (rr_received_at r) \<and> in_int64 (rr_observed_at r) \<and>
     (\<forall>t. rr_exchange_time_ns r = Some t \<longrightarrow> in_int64 t)"

lemma bytes_u8 [simp]: "word_of_bytes (unsigned_bytes v @ post) = (v :: u8)" "word_of_bytes (unsigned_bytes v) = (v :: u8)"
  using word_of_unsigned_bytes [where v = v and n = 1] word_of_unsigned_bytes [where v = v and n = 1 and post = "[]"]
  by simp_all

lemma bytes_u32 [simp]: "word_of_bytes (unsigned_bytes v @ post) = (v :: u32)" "word_of_bytes (unsigned_bytes v) = (v :: u32)"
  using word_of_unsigned_bytes [where v = v and n = 4] word_of_unsigned_bytes [where v = v and n = 4 and post = "[]"]
  by simp_all

lemma bytes_u64 [simp]: "word_of_bytes (unsigned_bytes v @ post) = (v :: u64)" "word_of_bytes (unsigned_bytes v) = (v :: u64)"
  using word_of_unsigned_bytes [where v = v and n = 8] word_of_unsigned_bytes [where v = v and n = 8 and post = "[]"]
  by simp_all

lemma field_bytes:
  "k + 1 \<le> length bytes \<Longrightarrow> unsigned_bytes (field k bytes :: u8) = take 1 (drop k bytes)"
  "k + 4 \<le> length bytes \<Longrightarrow> unsigned_bytes (field k bytes :: u32) = take 4 (drop k bytes)"
  "k + 8 \<le> length bytes \<Longrightarrow> unsigned_bytes (field k bytes :: u64) = take 8 (drop k bytes)"
  by (rule unsigned_bytes_of_word, simp, simp)+

lemma sint_u64_of_int: "in_int64 i \<Longrightarrow> sint (u64_of_int i) = i"
  by (simp add: u64_of_int_def sint_sbintrunc' signed_take_bit_int_eq_self limits)

lemma u64_of_sint: "u64_of_int (sint w) = w"
  by (simp add: u64_of_int_def)

lemma sint_in_int64: "in_int64 (sint (w :: u64))"
  using sint_ge [of w] sint_lt [of w] by (simp add: limits)

lemma encode_eq:
  "encode r = (if valid_record r then Inr
     (unsigned_bytes (rr_schema_version r) @ unsigned_bytes (rr_metadata_version r) @
      unsigned_bytes (rr_generation r) @ unsigned_bytes (u64_of_int (rr_received_at r)) @
      unsigned_bytes (u64_of_int (rr_observed_at r)) @ unsigned_bytes (rr_sequence r) @
      unsigned_bytes (if rr_exchange_time_ns r \<noteq> None then 1 else 0 :: u8) @
      (case rr_exchange_time_ns r of None \<Rightarrow> [] | Some t \<Rightarrow> unsigned_bytes (u64_of_int t)) @
      unsigned_bytes (of_nat (length (rr_channel r)) :: u32) @
      unsigned_bytes (of_nat (length (rr_payload r)) :: u32) @ rr_channel r @ rr_payload r)
   else Inl Invalid_Record)"
  by (auto simp: encode_def encode_into_def append_unsigned_def Let_def split: option.splits)

lemma take_drop_join: "take n (drop k bytes) @ drop (k + n) bytes = drop k bytes"
  by (metis append_take_drop_id drop_drop add.commute)

lemma take_drop_join': "m = k + n \<Longrightarrow> take n (drop k bytes) @ drop m bytes = drop k bytes"
  by (simp only: take_drop_join)

lemma body_at_record:
  assumes "body_at off e bytes index = Read_Record r"
  shows "rr_schema_version r = field 0 bytes" and "rr_metadata_version r = field 4 bytes"
    and "rr_generation r = field 12 bytes" and "rr_received_at r = sint (field 20 bytes :: u64)"
    and "rr_observed_at r = sint (field 28 bytes :: u64)" and "rr_sequence r = field 36 bytes"
    and "rr_exchange_time_ns r = e" and "rr_metadata_version r \<noteq> 0" and "rr_generation r \<noteq> 0"
    and "unsigned_bytes (of_nat (length (rr_channel r)) :: u32) @ unsigned_bytes (of_nat (length (rr_payload r)) :: u32) @
      rr_channel r @ rr_payload r = drop off bytes"
    and "rr_channel r \<noteq> []" and "length (rr_channel r) \<le> maximum_channel_bytes"
    and "rr_payload r \<noteq> []" and "length (rr_payload r) \<le> maximum_payload_bytes"
proof -
  define cs where "cs = unat (field off bytes :: u32)"
  define ps where "ps = unat (field (off + 4) bytes :: u32)"
  note accepted = assms [unfolded body_at_def Let_def, folded cs_def ps_def]
  then have size: "length bytes = off + 8 + cs + ps" "0 < cs" "0 < ps" "cs \<le> maximum_channel_bytes" "ps \<le> maximum_payload_bytes"
    by (auto split: if_splits)
  from accepted have r: "r = \<lparr>rr_schema_version = field 0 bytes, rr_metadata_version = field 4 bytes, rr_generation = field 12 bytes,
      rr_received_at = sint (field 20 bytes :: u64), rr_observed_at = sint (field 28 bytes :: u64),
      rr_sequence = field 36 bytes, rr_exchange_time_ns = e,
      rr_channel = take cs (drop (off + 8) bytes), rr_payload = drop (off + 8 + cs) bytes\<rparr>"
    and nz: "(field 4 bytes :: u64) \<noteq> 0" "(field 12 bytes :: u64) \<noteq> 0"
    by (auto split: if_splits)
  show "rr_schema_version r = field 0 bytes" "rr_metadata_version r = field 4 bytes"
    "rr_generation r = field 12 bytes" "rr_received_at r = sint (field 20 bytes :: u64)"
    "rr_observed_at r = sint (field 28 bytes :: u64)" "rr_sequence r = field 36 bytes"
    "rr_exchange_time_ns r = e" "rr_metadata_version r \<noteq> 0" "rr_generation r \<noteq> 0"
    "rr_channel r \<noteq> []" "length (rr_channel r) \<le> maximum_channel_bytes"
    "rr_payload r \<noteq> []" "length (rr_payload r) \<le> maximum_payload_bytes"
    using size nz by (simp_all add: r)
  have "length (rr_channel r) = cs" "length (rr_payload r) = ps" using size by (simp_all add: r)
  then have "(of_nat (length (rr_channel r)) :: u32) = field off bytes"
    "(of_nat (length (rr_payload r)) :: u32) = field (off + 4) bytes"
    by (simp_all add: cs_def ps_def)
  then show "unsigned_bytes (of_nat (length (rr_channel r)) :: u32) @ unsigned_bytes (of_nat (length (rr_payload r)) :: u32) @
      rr_channel r @ rr_payload r = drop off bytes"
    using size take_drop_join [of cs "off + 8" bytes] take_drop_join [of 4 "off + 4" bytes]
      take_drop_join [of 4 off bytes] by (simp add: field_bytes r add.commute [of 8 off])
qed

lemma decode_encodes:
  assumes "decode bytes index = Read_Record r"
  shows "record_in_range r \<and> encode r = Inr bytes"
proof -
  have split: "take 4 bytes @ take 8 (drop 4 bytes) @ take 8 (drop 12 bytes) @ take 8 (drop 20 bytes) @
      take 8 (drop 28 bytes) @ take 8 (drop 36 bytes) @ take 1 (drop 44 bytes) @ drop 45 bytes = bytes"
  proof -
    have "take 8 (drop 4 bytes) @ drop 12 bytes = drop 4 bytes" "take 8 (drop 12 bytes) @ drop 20 bytes = drop 12 bytes"
      "take 8 (drop 20 bytes) @ drop 28 bytes = drop 20 bytes" "take 8 (drop 28 bytes) @ drop 36 bytes = drop 28 bytes"
      "take 8 (drop 36 bytes) @ drop 44 bytes = drop 36 bytes" "take 1 (drop 44 bytes) @ drop 45 bytes = drop 44 bytes"
      by (rule take_drop_join', simp)+
    then show ?thesis by (simp only: append_take_drop_id)
  qed
  have len: "45 \<le> length bytes" and schema: "(field 0 bytes :: u32) = current_schema_version"
    using assms by (auto simp: decode_at split: if_splits)
  define fl where "fl = (field 44 bytes :: u8)"
  have fl: "fl = 0 \<or> fl = 1"
  proof -
    have "\<not> 1 < fl" using assms by (auto simp: decode_at fl_def split: if_splits)
    then have "unat fl = 0 \<or> unat fl = 1" by (simp add: word_less_nat_alt) linarith
    then show ?thesis by (simp add: word_unat_eq_iff)
  qed
  define off where "off = (if fl = 1 then 53 else 45 :: nat)"
  define e where "e = (if fl = 1 then Some (sint (field 45 bytes :: u64)) else None)"
  have body: "body_at off e bytes index = Read_Record r" and len2: "fl = 1 \<Longrightarrow> 53 \<le> length bytes"
    using assms fl by (auto simp: decode_at off_def e_def fl_def split: if_splits)
  note b = body_at_record [OF body]
  have range: "record_in_range r" by (auto simp: record_in_range_def b(4,5,7) sint_in_int64 e_def)
  have valid: "valid_record r" using b schema by (simp add: valid_record_def)
  have flag: "(if rr_exchange_time_ns r \<noteq> None then 1 else 0 :: u8) = fl" using fl by (auto simp: b(7) e_def)
  have time: "(case rr_exchange_time_ns r of None \<Rightarrow> [] | Some t \<Rightarrow> unsigned_bytes (u64_of_int t)) @ drop off bytes = drop 45 bytes"
    using len2 take_drop_join [of 8 45 bytes] by (auto simp: b(7) e_def off_def u64_of_sint field_bytes)
  have "encode r = Inr
     (unsigned_bytes (rr_schema_version r) @ unsigned_bytes (rr_metadata_version r) @
      unsigned_bytes (rr_generation r) @ unsigned_bytes (u64_of_int (rr_received_at r)) @
      unsigned_bytes (u64_of_int (rr_observed_at r)) @ unsigned_bytes (rr_sequence r) @
      unsigned_bytes fl @
      (case rr_exchange_time_ns r of None \<Rightarrow> [] | Some t \<Rightarrow> unsigned_bytes (u64_of_int t)) @ drop off bytes)"
    using valid by (simp only: encode_eq if_True flag b(10))
  also have "\<dots> = Inr (take 4 bytes @ take 8 (drop 4 bytes) @ take 8 (drop 12 bytes) @ take 8 (drop 20 bytes) @
      take 8 (drop 28 bytes) @ take 8 (drop 36 bytes) @ take 1 (drop 44 bytes) @ drop 45 bytes)"
    unfolding time b(1-6) u64_of_sint fl_def using len by (simp add: field_bytes field_bytes(2) [of 0, simplified])
  finally show ?thesis using range split by simp
qed

lemma decode_encode:
  assumes "record_in_range r" and "encode r = Inr bytes"
  shows "decode bytes index = Read_Record r"
proof -
  have valid: "valid_record r" using assms(2) by (simp add: encode_eq split: if_splits)
  define fl :: u8 where "fl = (if rr_exchange_time_ns r \<noteq> None then 1 else 0)"
  define time where "time = (case rr_exchange_time_ns r of None \<Rightarrow> [] | Some t \<Rightarrow> unsigned_bytes (u64_of_int t))"
  define rest where "rest = unsigned_bytes (of_nat (length (rr_channel r)) :: u32) @
      unsigned_bytes (of_nat (length (rr_payload r)) :: u32) @ rr_channel r @ rr_payload r"
  have bytes: "bytes = unsigned_bytes (rr_schema_version r) @ unsigned_bytes (rr_metadata_version r) @
      unsigned_bytes (rr_generation r) @ unsigned_bytes (u64_of_int (rr_received_at r)) @
      unsigned_bytes (u64_of_int (rr_observed_at r)) @ unsigned_bytes (rr_sequence r) @
      unsigned_bytes fl @ time @ rest"
    using assms(2) valid by (simp add: encode_eq fl_def time_def rest_def)
  have fields: "(field 0 bytes :: u32) = rr_schema_version r" "(field 4 bytes :: u64) = rr_metadata_version r"
    "(field 12 bytes :: u64) = rr_generation r" "(field 20 bytes :: u64) = u64_of_int (rr_received_at r)"
    "(field 28 bytes :: u64) = u64_of_int (rr_observed_at r)" "(field 36 bytes :: u64) = rr_sequence r"
    "(field 44 bytes :: u8) = fl" "drop 45 bytes = time @ rest" "length bytes = 45 + length time + length rest"
    by (simp_all add: bytes)
  define off where "off = 45 + length time"
  have sizes: "length (rr_channel r) \<le> 256" "length (rr_payload r) \<le> 16777216" "rr_channel r \<noteq> []" "rr_payload r \<noteq> []"
    using valid by (simp_all add: valid_record_def limits)
  have drops: "drop off bytes = rest" "drop (off + 4) bytes = drop 4 rest" "drop (off + 8) bytes = drop 8 rest"
    "drop (off + 8 + length (rr_channel r)) bytes = drop (8 + length (rr_channel r)) rest"
    using fields(8) by (simp_all add: off_def bytes)
  have payload: "drop (53 + length time + length (rr_channel r)) bytes = rr_payload r"
    by (simp add: bytes rest_def)
  have small: "unat (of_nat (length (rr_channel r)) :: u32) = length (rr_channel r)"
    "unat (of_nat (length (rr_payload r)) :: u32) = length (rr_payload r)"
    using sizes by (simp_all add: unat_of_nat)
  have "body_at off (rr_exchange_time_ns r) bytes index = Read_Record r"
    unfolding body_at_def Let_def drops fields(1-6)
    using sizes valid assms(1) small payload
    by (simp add: rest_def fields(9) off_def limits valid_record_def record_in_range_def sint_u64_of_int)
  moreover have "rr_exchange_time_ns r = Some t \<Longrightarrow> (field 45 bytes :: u64) = u64_of_int t" for t
    using fields(8) by (simp add: time_def)
  ultimately show ?thesis
    using valid assms(1) fields
    by (cases "rr_exchange_time_ns r")
      (auto simp: decode_at fl_def off_def time_def valid_record_def record_in_range_def sint_u64_of_int)
qed

text \<open>
  Claim C33. The record codec is a bijection between valid records and accepted buffers.
  A buffer decodes to a record if and only if the record is in range and encodes, and encodes
  to exactly that buffer; so decoding an encoding returns the record, and no buffer but the
  encoding of a record is accepted as it.
\<close>

theorem codec_exact:
  "decode bytes index = Read_Record r \<longleftrightarrow> record_in_range r \<and> encode r = Inr bytes"
  using decode_encodes decode_encode by blast


subsection \<open>The checksum is the bitwise CRC\<close>

lemma xor_cancel: "(a :: u32) XOR b = a XOR c \<longleftrightarrow> b = c"
proof
  assume "a XOR b = a XOR c"
  then have "a XOR (a XOR b) = a XOR (a XOR c)" by (rule arg_cong)
  then show "b = c" by (simp flip: xor.assoc)
qed simp

lemma crc_step_eq: "crc_step x = drop_bit 1 x XOR (if bit x 0 then 3988292384 else 0)"
  by (simp add: crc_step_def and_one_eq bit_0 odd_iff_mod_2_eq_one)

lemma crc_step_xor: "crc_step (x XOR y) = crc_step x XOR crc_step y"
  by (simp add: crc_step_eq bit_xor_iff drop_bit_xor ac_simps)

lemma crc_steps_xor: "(crc_step ^^ n) (x XOR y) = (crc_step ^^ n) x XOR (crc_step ^^ n) y"
  by (induction n) (simp_all add: crc_step_xor)

lemma crc_steps_shift: "(\<forall>k < n. \<not> bit x k) \<Longrightarrow> (crc_step ^^ n) x = drop_bit n x"
proof (induction n)
  case (Suc n)
  then have "(crc_step ^^ n) x = drop_bit n x" by simp
  moreover have "\<not> bit (drop_bit n x) 0" using Suc.prems by (simp add: bit_drop_bit_eq)
  then have "crc_step (drop_bit n x) = drop_bit 1 (drop_bit n x)" by (subst crc_step_eq) simp
  ultimately show ?case by (simp only: funpow.simps comp_apply drop_bit_drop_bit plus_1_eq_Suc)
qed simp

lemma crc_step_0 [simp]: "crc_step 0 = 0"
  by (simp add: crc_step_eq)

lemma crc_step_eq_0: "crc_step x = 0 \<longleftrightarrow> x = 0"
proof
  assume z: "crc_step x = 0"
  have "\<not> bit x 0"
  proof
    assume "bit x 0"
    with z have "bit (drop_bit 1 x XOR 3988292384) 31 = False" by (simp add: crc_step_eq)
    moreover have "\<not> bit (drop_bit 1 x) 31"
      by (auto simp: bit_drop_bit_eq dest: bit_imp_le_length)
    moreover have "bit (3988292384 :: u32) 31" by simp
    ultimately show False by (simp add: bit_xor_iff)
  qed
  then have shift: "drop_bit 1 x = 0" using z by (simp add: crc_step_eq)
  show "x = 0"
  proof (rule bit_word_eqI)
    fix k
    show "bit x k = bit 0 k"
    proof (cases k)
      case (Suc j)
      have "bit (drop_bit 1 x) j = bit x (1 + j)" by (simp only: bit_drop_bit_eq comp_apply)
      with Suc shift show ?thesis by simp
    qed (use \<open>\<not> bit x 0\<close> in simp)
  qed
qed simp

lemma crc_steps_eq_0: "(crc_step ^^ n) x = 0 \<longleftrightarrow> x = 0"
  by (induction n) (simp_all add: crc_step_eq_0)

lemma crc_steps_inj: "(crc_step ^^ n) x = (crc_step ^^ n) y \<longleftrightarrow> x = y"
proof -
  have "x = y \<longleftrightarrow> x XOR y = 0" for x y :: u32
    using xor_cancel [of x y x] by auto
  then show ?thesis by (metis crc_steps_xor crc_steps_eq_0)
qed

lemma byte_of_u32_low: "\<not> bit (byte_of c :: u32) k" if "8 \<le> k"
  using that bit_of_char_bound [of c k] by (auto simp: bit_byte_of)

lemma checksum_step_bitwise: "checksum_step crc c = (crc_step ^^ 8) (crc XOR byte_of c)"
proof -
  define x where "x = crc XOR byte_of c"
  define high where "high = push_bit 8 (drop_bit 8 x)"
  have low8: "x AND 255 = take_bit 8 x"
    by (rule bit_word_eqI) (auto simp only: bit_and_iff bit_take_bit_iff bit_255)
  have split: "x = (x AND 255) XOR high"
    unfolding low8 high_def
    by (rule bit_word_eqI) (auto simp: bit_xor_iff bit_take_bit_iff bit_push_bit_iff bit_drop_bit_eq)
  have low: "\<forall>k < 8. \<not> bit high k" by (simp add: high_def bit_push_bit_iff)
  have "unat (x AND 255) = take_bit 8 (unat x)" unfolding low8 by (rule unsigned_take_bit_eq)
  then have "unat (x AND 255) < 256" using take_bit_nat_less_exp [of 8 "unat x"] by simp
  then have table: "crc_table ! unat (x AND 255) = (crc_step ^^ 8) (x AND 255)"
    by (simp add: crc_table_def)
  have "drop_bit 8 high = drop_bit 8 crc"
  proof (rule bit_word_eqI)
    fix k
    show "bit (drop_bit 8 high) k = bit (drop_bit 8 crc) k"
      using byte_of_u32_low [of "8 + k" c]
      by (auto simp: bit_drop_bit_eq bit_push_bit_iff high_def x_def bit_xor_iff dest: bit_imp_le_length)
  qed
  then have "(crc_step ^^ 8) x = (crc_step ^^ 8) (x AND 255) XOR drop_bit 8 crc"
    by (subst split) (simp only: crc_steps_xor crc_steps_shift [OF low])
  then show ?thesis
    by (simp only: checksum_step_def Let_def table x_def [symmetric] xor.commute)
qed

definition crc32_bitwise :: "string \<Rightarrow> u32" where
  "crc32_bitwise bytes = NOT (foldl (\<lambda>crc c. (crc_step ^^ 8) (crc XOR byte_of c)) 4294967295 bytes)"

lemma foldl_checksum_inj: "foldl checksum_step a bytes = foldl checksum_step b bytes \<longleftrightarrow> a = b"
proof (induction bytes arbitrary: a b)
  case (Cons c bytes)
  have "checksum_step a c = checksum_step b c \<longleftrightarrow> a XOR byte_of c = b XOR byte_of c"
    by (simp only: checksum_step_bitwise crc_steps_inj)
  also have "\<dots> \<longleftrightarrow> a = b" by (simp only: xor_cancel xor.commute [of _ "byte_of c"])
  finally show ?case using Cons.IH by simp
qed simp

lemma byte_of_inj: "(byte_of c :: u32) = byte_of d \<longleftrightarrow> c = d"
proof
  assume eq: "(byte_of c :: u32) = byte_of d"
  have "bit (of_char c :: nat) k = bit (of_char d :: nat) k" if "k < 8" for k
    using that bit_byte_of [where c = c and k = k and ?'a = 32] bit_byte_of [where c = d and k = k and ?'a = 32] eq by simp
  then show "c = d" by (rule char_bits_eqI)
qed simp

lemma checksum_single_byte: "c \<noteq> d \<Longrightarrow> checksum (before @ c # after) \<noteq> checksum (before @ d # after)"
proof
  assume neq: "c \<noteq> d" and "checksum (before @ c # after) = checksum (before @ d # after)"
  then have "checksum_step (foldl checksum_step 4294967295 before) c =
      checksum_step (foldl checksum_step 4294967295 before) d"
    by (simp add: checksum_def foldl_checksum_inj)
  then have "(byte_of c :: u32) = byte_of d"
    by (simp only: checksum_step_bitwise crc_steps_inj xor_cancel)
  with neq show False by (simp add: byte_of_inj)
qed

text \<open>
  The table-driven checksum is the bitwise reflected CRC-32 for every input, and
  detects every corruption of one byte: two buffers that differ in exactly one byte have
  different checksums.
\<close>

theorem checksum_crc32:
  "checksum bytes = crc32_bitwise bytes \<and>
   (c \<noteq> d \<longrightarrow> checksum (before @ c # after) \<noteq> checksum (before @ d # after))"
proof -
  have "checksum_step = (\<lambda>crc c. (crc_step ^^ 8) (crc XOR byte_of c))"
    by (simp add: fun_eq_iff checksum_step_bitwise)
  then have "checksum bytes = crc32_bitwise bytes" by (simp only: checksum_def crc32_bitwise_def)
  then show ?thesis using checksum_single_byte by blast
qed

lemma checksum_crc32_witness: "checksum ''EMEJNL02'' \<noteq> checksum ''EMEJNL03''"
  using checksum_crc32 [of "[]" "CHR ''2''" "CHR ''3''" "''EMEJNL0''" "[]"] by simp


subsection \<open>The contract of a framed codec\<close>

text \<open>
  What the journal relies on: a record has one encoding, of bounded size, and only it decodes
  to the record. A frame is the size, the encoding and its checksum; the lemmas say that a
  sequence of frames can be read back in one way only.
\<close>

locale framed_codec =
  fixes enc :: "'r \<Rightarrow> string"
    and dec :: "string \<Rightarrow> 'r option"
    and ok :: "'r \<Rightarrow> bool"
    and check :: "string \<Rightarrow> u32"
  assumes dec_iff: "dec s = Some r \<longleftrightarrow> ok r \<and> s = enc r"
    and enc_size: "ok r \<Longrightarrow> 0 < length (enc r) \<and> length (enc r) < 4294967296"
begin

definition frame_of :: "'r \<Rightarrow> string" where
  "frame_of r = unsigned_bytes (of_nat (length (enc r)) :: u32) @ enc r @ unsigned_bytes (check (enc r))"

lemma frame_length: "length (frame_of r) = 8 + length (enc r)"
  by (simp add: frame_of_def)

lemma frame_nonempty: "frame_of r \<noteq> []"
  using frame_length [of r] by (cases "frame_of r") simp_all

lemma frame_parts:
  assumes "ok r"
  shows "unat (word_of_bytes (frame_of r @ x) :: u32) = length (enc r)"
    and "take (length (enc r)) (drop 4 (frame_of r @ x)) = enc r"
    and "(word_of_bytes (drop (4 + length (enc r)) (frame_of r @ x)) :: u32) = check (enc r)"
    and "drop (8 + length (enc r)) (frame_of r @ x) = x"
  using enc_size [OF assms] by (simp_all add: frame_of_def unat_of_nat)

lemma enc_inj: "ok r \<Longrightarrow> ok r' \<Longrightarrow> enc r = enc r' \<Longrightarrow> r = r'"
  using dec_iff by (metis option.inject)

lemma frame_prefix_free:
  assumes "ok r" and "ok r'" and "frame_of r @ x = frame_of r' @ y"
  shows "r = r' \<and> x = y"
proof -
  have len: "length (enc r) = length (enc r')" using frame_parts(1) [OF assms(1)] frame_parts(1) [OF assms(2)] assms(3) by metis
  then have "enc r = enc r'" using frame_parts(2) [OF assms(1)] frame_parts(2) [OF assms(2)] assms(3) by metis
  moreover have "x = y" using frame_parts(4) [OF assms(1)] frame_parts(4) [OF assms(2)] assms(3) len by metis
  ultimately show ?thesis using enc_inj assms by blast
qed

lemma frames_unique:
  "\<forall>r \<in> set rs. ok r \<Longrightarrow> \<forall>r \<in> set rs'. ok r \<Longrightarrow> concat (map frame_of rs) = concat (map frame_of rs') \<Longrightarrow> rs = rs'"
proof (induction rs arbitrary: rs')
  case Nil
  then show ?case by (cases rs') (simp_all add: frame_nonempty)
next
  case (Cons r rs)
  from Cons.prems(3) obtain r' rs1 where rs': "rs' = r' # rs1" by (cases rs') (simp_all add: frame_nonempty)
  with Cons.prems have "frame_of r @ concat (map frame_of rs) = frame_of r' @ concat (map frame_of rs1)" by simp
  moreover have "ok r" "ok r'" using Cons.prems rs' by simp_all
  ultimately have same: "r = r'" "concat (map frame_of rs) = concat (map frame_of rs1)"
    using frame_prefix_free by blast+
  have "rs = rs1" using Cons.prems rs' same(2) by (intro Cons.IH) simp_all
  with same(1) rs' show ?case by simp
qed

end

text \<open>The records that the journal can hold.\<close>

definition storable :: "raw_market_record \<Rightarrow> bool" where
  "storable r \<longleftrightarrow> valid_record r \<and> record_in_range r"

definition encoding :: "raw_market_record \<Rightarrow> string" where
  "encoding r = (case encode r of Inl _ \<Rightarrow> [] | Inr bytes \<Rightarrow> bytes)"

definition decoding :: "string \<Rightarrow> raw_market_record option" where
  "decoding bytes = (case decode bytes 0 of Read_Record r \<Rightarrow> Some r | _ \<Rightarrow> None)"

lemma encode_storable: "storable r \<Longrightarrow> encode r = Inr (encoding r)"
  by (simp add: storable_def encoding_def encode_eq)

lemma decode_iff_encoding: "decode bytes index = Read_Record r \<longleftrightarrow> storable r \<and> bytes = encoding r"
  using decode_encodes [of bytes index r] decode_encode [of r bytes index] encode_storable [of r]
  by (auto simp: encode_eq storable_def encoding_def split: if_splits)

lemma encoding_size:
  "storable r \<Longrightarrow> minimum_record_bytes < length (encoding r) \<and> length (encoding r) \<le> maximum_record_bytes"
proof -
  assume ok: "storable r"
  then have "length (rr_channel r) \<le> 256" "length (rr_payload r) \<le> 16777216" "0 < length (rr_channel r)" "0 < length (rr_payload r)"
    by (simp_all add: storable_def valid_record_def limits)
  moreover have "length (encoding r) = 53 + (if rr_exchange_time_ns r = None then 0 else 8) +
      length (rr_channel r) + length (rr_payload r)"
    using ok by (auto simp: encoding_def encode_eq storable_def split: option.splits)
  ultimately show ?thesis by (auto simp: limits)
qed

interpretation journal_codec: framed_codec encoding decoding storable checksum
proof unfold_locales
  fix bytes r
  show "decoding bytes = Some r \<longleftrightarrow> storable r \<and> bytes = encoding r"
    using decode_iff_encoding [of bytes 0 r] by (auto simp: decoding_def split: journal_read_result.splits)
  show "storable r \<Longrightarrow> 0 < length (encoding r) \<and> length (encoding r) < 4294967296"
    using encoding_size [of r] by (auto simp: limits)
qed

end
