(* ===== verification/Raw_Journal.thy ===== *)
theory Raw_Journal
  imports Journal_Codec
begin

text \<open>
  The append-only journal file, after \<open>include/eme/journal/raw_journal.hpp\<close> and
  \<open>src/journal/raw_journal.cpp\<close>. A file is its bytes. What the operating system does is a
  parameter: whether a file exists and opens, and how many bytes a write takes before the
  stream fails. Shown: the reader accepts exactly the files that the writer makes, a file cut
  anywhere yields its whole records and then an error, and a damaged byte is caught.
\<close>

subsection \<open>Streams\<close>

definition file_magic :: string where
  "file_magic = ''EMEJNL02''"

definition file_format_version :: u32 where
  "file_format_version = 2"

text \<open>
  An \<open>std::ofstream\<close> in append mode: the file's bytes, and whether the stream is good. A write
  takes all bytes (\<open>None\<close>), or some and then fails; a failed stream takes nothing more.
\<close>

type_synonym write_outcome = "nat option"

record journal_writer =
  jw_file :: string
  jw_good :: bool
  jw_encode_buffer :: string
  jw_records_written :: u64

definition stream_write :: "write_outcome \<Rightarrow> string \<Rightarrow> string \<times> bool \<Rightarrow> string \<times> bool" where
  "stream_write outcome bytes s =
     (case s of (content, good) \<Rightarrow>
        if \<not> good then (content, good)
        else case outcome of None \<Rightarrow> (content @ bytes, True) | Some k \<Rightarrow> (content @ take k bytes, False))"

text \<open>
  An \<open>std::ifstream\<close>: the bytes not read yet, whether it is good, and its end-of-file flag.
  \<open>read\<close> of a stream that is not good reads nothing; reading past the end reads what is left
  and sets both flags.
\<close>

record journal_reader =
  jr_rest :: string
  jr_good :: bool
  jr_eof :: bool
  jr_records_read :: u64

definition stream_read :: "nat \<Rightarrow> journal_reader \<Rightarrow> string \<times> journal_reader" where
  "stream_read n rd =
     (if \<not> jr_good rd then ([], rd)
      else if length (jr_rest rd) < n
      then (jr_rest rd, rd\<lparr>jr_rest := [], jr_good := False, jr_eof := True\<rparr>)
      else (take n (jr_rest rd), rd\<lparr>jr_rest := drop n (jr_rest rd)\<rparr>))"

definition read_unsigned :: "journal_reader \<Rightarrow> 'a::len word option \<times> journal_reader" where
  "read_unsigned rd =
     (case stream_read (LENGTH('a) div 8) rd of (bytes, rd) \<Rightarrow>
        (if length bytes \<noteq> LENGTH('a) div 8 then None else Some (word_of_bytes bytes), rd))"


subsection \<open>Operations\<close>

definition jerror :: "journal_error_code \<Rightarrow> u64 \<Rightarrow> journal_error" where
  "jerror code index = \<lparr>je_code = code, je_record_index = index\<rparr>"

definition validate_header :: "journal_reader \<Rightarrow> journal_error option \<times> journal_reader" where
  "validate_header rd =
     (case stream_read (length file_magic) rd of (magic, rd) \<Rightarrow>
        if length magic \<noteq> length file_magic \<or> magic \<noteq> file_magic
        then (Some (jerror Invalid_Header 0), rd)
        else case read_unsigned rd :: u32 option \<times> journal_reader of
          (None, rd) \<Rightarrow> (Some (jerror Invalid_Header 0), rd)
        | (Some version, rd) \<Rightarrow>
            (if version = file_format_version then None else Some (jerror Unsupported_Version 0), rd))"

text \<open>\<open>None\<close>: the stream does not open.\<close>

definition open_raw_journal_reader :: "string option \<Rightarrow> journal_error + journal_reader" where
  "open_raw_journal_reader content =
     (case content of
        None \<Rightarrow> Inl (jerror Open_Failed 0)
      | Some bytes \<Rightarrow>
          (case validate_header \<lparr>jr_rest = bytes, jr_good = True, jr_eof = False, jr_records_read = 0\<rparr> of
             (Some e, _) \<Rightarrow> Inl e
           | (None, rd) \<Rightarrow> Inr rd))"

definition read_next :: "journal_reader \<Rightarrow> journal_read_result \<times> journal_reader" where
  "read_next rd =
     (case stream_read 4 rd of (size_bytes, rd) \<Rightarrow>
        if size_bytes = [] \<and> jr_eof rd then (End_Of_Journal, rd)
        else if length size_bytes \<noteq> 4 then (Read_Error (jerror Truncated_Record (jr_records_read rd)), rd)
        else
          let record_size = unat (word_of_bytes size_bytes :: u32)
          in if record_size < minimum_record_bytes
             then (Read_Error (jerror Invalid_Record (jr_records_read rd)), rd)
             else if maximum_record_bytes < record_size
             then (Read_Error (jerror Record_Too_Large (jr_records_read rd)), rd)
             else case stream_read record_size rd of (bytes, rd) \<Rightarrow>
               if length bytes \<noteq> record_size
               then (Read_Error (jerror Truncated_Record (jr_records_read rd)), rd)
               else case read_unsigned rd :: u32 option \<times> journal_reader of
                 (None, rd) \<Rightarrow> (Read_Error (jerror Truncated_Record (jr_records_read rd)), rd)
               | (Some recorded_checksum, rd) \<Rightarrow>
                   if recorded_checksum \<noteq> checksum bytes
                   then (Read_Error (jerror Checksum_Mismatch (jr_records_read rd)), rd)
                   else
                     let decoded = decode bytes (jr_records_read rd)
                     in (decoded,
                         case decoded of Read_Record _ \<Rightarrow> rd\<lparr>jr_records_read := jr_records_read rd + 1\<rparr>
                         | _ \<Rightarrow> rd))"

definition writer_append :: "write_outcome \<Rightarrow> raw_market_record \<Rightarrow> journal_writer \<Rightarrow> journal_error option \<times> journal_writer" where
  "writer_append outcome r w =
     (case encode_into r (jw_encode_buffer w) of
        (Some e, buffer) \<Rightarrow> (Some (jerror e (jw_records_written w)), w\<lparr>jw_encode_buffer := buffer\<rparr>)
      | (None, encoded) \<Rightarrow>
          let w = w\<lparr>jw_encode_buffer := encoded\<rparr>
          in if maximum_record_bytes < length encoded \<or> 4294967295 < length encoded
             then (Some (jerror Record_Too_Large (jw_records_written w)), w)
             else
               case stream_write outcome
                 (unsigned_bytes (of_nat (length encoded) :: u32) @ encoded @ unsigned_bytes (checksum encoded))
                 (jw_file w, jw_good w) of (content, good) \<Rightarrow>
               let w = w\<lparr>jw_file := content, jw_good := good\<rparr>
               in if \<not> good then (Some (jerror Io_Error (jw_records_written w)), w)
                  else (None, w\<lparr>jw_records_written := jw_records_written w + 1\<rparr>))"

definition writer_flush :: "bool \<Rightarrow> journal_writer \<Rightarrow> journal_error option \<times> journal_writer" where
  "writer_flush flushes w =
     (let w = w\<lparr>jw_good := jw_good w \<and> flushes\<rparr>
      in (if jw_good w then None else Some (jerror Io_Error (jw_records_written w)), w))"


subsection \<open>One read\<close>

abbreviation frame :: "raw_market_record \<Rightarrow> string" where
  "frame \<equiv> journal_codec.frame_of"

lemma frame_eq: "frame r = unsigned_bytes (of_nat (length (encoding r)) :: u32) @ encoding r @
    unsigned_bytes (checksum (encoding r))"
  by (rule journal_codec.frame_of_def)

lemma stream_read_full: "jr_good rd \<Longrightarrow> n \<le> length (jr_rest rd) \<Longrightarrow>
    stream_read n rd = (take n (jr_rest rd), rd\<lparr>jr_rest := drop n (jr_rest rd)\<rparr>)"
  by (simp add: stream_read_def)

lemma stream_read_short: "jr_good rd \<Longrightarrow> length (jr_rest rd) < n \<Longrightarrow>
    stream_read n rd = (jr_rest rd, rd\<lparr>jr_rest := [], jr_good := False, jr_eof := True\<rparr>)"
  by (simp add: stream_read_def)

lemma take_bytes_u32: "word_of_bytes (take 4 s) = (word_of_bytes s :: u32)"
proof -
  have "bit (word_of_bytes (take 4 s) :: u32) k = bit (word_of_bytes s :: u32) k" if "k < 32" for k
  proof -
    have "k div 8 < 4" using that by (simp add: less_mult_imp_div_less)
    then show ?thesis
      using bit_word_of_bytes [where bytes = "take 4 s" and k = k and ?'a = 32 and n = 4]
        bit_word_of_bytes [where bytes = s and k = k and ?'a = 32 and n = 4] by simp
  qed
  then show ?thesis by (intro bit_word_eqI) simp
qed

lemma read_next_frame:
  assumes "storable r" and "jr_good rd" and "jr_rest rd = frame r @ x"
  shows "read_next rd = (Read_Record r, rd\<lparr>jr_rest := x, jr_records_read := jr_records_read rd + 1\<rparr>)"
proof -
  let ?e = "encoding r"
  have size: "53 < length ?e" "length ?e \<le> 16777552" using encoding_size [OF assms(1)] by (simp_all add: limits)
  have rest: "jr_rest rd = unsigned_bytes (of_nat (length ?e) :: u32) @ ?e @ unsigned_bytes (checksum ?e) @ x"
    using assms(3) by (simp add: frame_eq)
  define rd1 where "rd1 = rd\<lparr>jr_rest := ?e @ unsigned_bytes (checksum ?e) @ x\<rparr>"
  define rd2 where "rd2 = rd\<lparr>jr_rest := unsigned_bytes (checksum ?e) @ x\<rparr>"
  have reads: "stream_read 4 rd = (unsigned_bytes (of_nat (length ?e) :: u32), rd1)"
    "stream_read (length ?e) rd1 = (?e, rd2)"
    "(read_unsigned rd2 :: u32 option \<times> journal_reader) = (Some (checksum ?e), rd\<lparr>jr_rest := x\<rparr>)"
    using assms(2) rest by (simp_all add: stream_read_full rd1_def rd2_def read_unsigned_def)
  have n: "unat (of_nat (length ?e) :: u32) = length ?e" using size by (simp add: unat_of_nat)
  have nonempty: "unsigned_bytes (of_nat (length ?e) :: u32) \<noteq> []"
    by (rule notI, drule arg_cong [where f = length]) simp
  have decoded: "decode ?e index = Read_Record r" for index using assms(1) by (simp add: decode_iff_encoding)
  show ?thesis
    using size by (simp add: read_next_def reads n nonempty decoded Let_def limits)
qed

lemma read_next_record:
  assumes "read_next rd = (Read_Record r, rd')"
  shows "jr_good rd \<and> storable r \<and> jr_rest rd = frame r @ jr_rest rd' \<and>
    rd' = rd\<lparr>jr_rest := jr_rest rd', jr_records_read := jr_records_read rd + 1\<rparr>"
proof -
  have good: "jr_good rd" and len: "4 \<le> length (jr_rest rd)"
    using assms by (auto simp: read_next_def stream_read_def split: if_splits)
  define n where "n = unat (word_of_bytes (jr_rest rd) :: u32)"
  define rd1 where "rd1 = rd\<lparr>jr_rest := drop 4 (jr_rest rd)\<rparr>"
  have read4: "stream_read 4 rd = (take 4 (jr_rest rd), rd1)"
    using good len by (simp add: stream_read_full rd1_def)
  have nonempty: "take 4 (jr_rest rd) \<noteq> []" using len by auto
  have good1: "jr_good rd1" "jr_rest rd1 = drop 4 (jr_rest rd)" using good by (simp_all add: rd1_def)
  have step: "read_next rd =
     (if n < minimum_record_bytes then (Read_Error (jerror Invalid_Record (jr_records_read rd1)), rd1)
      else if maximum_record_bytes < n then (Read_Error (jerror Record_Too_Large (jr_records_read rd1)), rd1)
      else case stream_read n rd1 of (bytes, rd) \<Rightarrow>
        if length bytes \<noteq> n then (Read_Error (jerror Truncated_Record (jr_records_read rd)), rd)
        else case read_unsigned rd :: u32 option \<times> journal_reader of
          (None, rd) \<Rightarrow> (Read_Error (jerror Truncated_Record (jr_records_read rd)), rd)
        | (Some recorded_checksum, rd) \<Rightarrow>
            if recorded_checksum \<noteq> checksum bytes
            then (Read_Error (jerror Checksum_Mismatch (jr_records_read rd)), rd)
            else let decoded = decode bytes (jr_records_read rd)
              in (decoded, case decoded of Read_Record _ \<Rightarrow> rd\<lparr>jr_records_read := jr_records_read rd + 1\<rparr> | _ \<Rightarrow> rd))"
    using nonempty len by (simp add: read_next_def read4 take_bytes_u32 flip: n_def)
  have bounds: "minimum_record_bytes \<le> n" "n \<le> maximum_record_bytes"
    using assms unfolding step by (auto split: if_splits)
  have len1: "n \<le> length (jr_rest rd1)"
  proof (rule ccontr)
    assume "\<not> n \<le> length (jr_rest rd1)"
    with assms good1(1) bounds show False unfolding step by (simp add: stream_read_short)
  qed
  define body where "body = take n (drop 4 (jr_rest rd))"
  define rd2 where "rd2 = rd\<lparr>jr_rest := drop (4 + n) (jr_rest rd)\<rparr>"
  have readn: "stream_read n rd1 = (body, rd2)"
    using good1 len1 by (simp add: stream_read_full body_def rd2_def rd1_def add.commute)
  have body_len: "length body = n" using len1 good1 by (simp add: body_def)
  have good2: "jr_good rd2" "jr_rest rd2 = drop (4 + n) (jr_rest rd)" using good by (simp_all add: rd2_def)
  have len2: "4 \<le> length (jr_rest rd2)"
  proof (rule ccontr)
    assume "\<not> 4 \<le> length (jr_rest rd2)"
    with assms good2(1) bounds body_len readn show False
      unfolding step by (simp add: read_unsigned_def stream_read_short)
  qed
  have readc: "(read_unsigned rd2 :: u32 option \<times> journal_reader) =
      (Some (word_of_bytes (jr_rest rd2)), rd2\<lparr>jr_rest := drop 4 (jr_rest rd2)\<rparr>)"
    using good2 len2 by (simp add: read_unsigned_def stream_read_full take_bytes_u32)
  have sum: "(word_of_bytes (jr_rest rd2) :: u32) = checksum body"
    and dec: "decode body (jr_records_read rd) = Read_Record r"
    and rd': "rd' = rd\<lparr>jr_rest := drop 4 (jr_rest rd2), jr_records_read := jr_records_read rd + 1\<rparr>"
    using assms bounds readn body_len readc unfolding step
    by (auto simp: Let_def rd2_def split: if_splits journal_read_result.splits)
  have ok: "storable r" "body = encoding r" using dec decode_iff_encoding by blast+
  have "unsigned_bytes (of_nat (length (encoding r)) :: u32) = take 4 (jr_rest rd)"
    using field_bytes(2) [of 0 "jr_rest rd"] len body_len ok(2) by (simp add: n_def)
  moreover have "unsigned_bytes (checksum (encoding r)) = take 4 (jr_rest rd2)"
    using field_bytes(2) [of 0 "jr_rest rd2"] len2 ok(2) sum by simp
  ultimately have "frame r @ jr_rest rd' = take 4 (jr_rest rd) @ body @ take 4 (jr_rest rd2) @ drop 4 (jr_rest rd2)"
    by (simp add: frame_eq rd' ok(2))
  also have "\<dots> = take 4 (jr_rest rd) @ body @ jr_rest rd2" by simp
  also have "body @ jr_rest rd2 = drop 4 (jr_rest rd)"
    unfolding body_def good2(2) by (rule take_drop_join)
  finally have "jr_rest rd = frame r @ jr_rest rd'" by simp
  with good ok rd' show ?thesis by simp
qed


subsection \<open>Opening a writer\<close>

lemma read_next_shrinks:
  "read_next rd = (Read_Record r, rd') \<Longrightarrow> length (jr_rest rd') < length (jr_rest rd)"
  using read_next_record [of rd r rd'] journal_codec.frame_length [of r] by auto

text \<open>
  The loop that reads an existing file to its end before appending. Every record read is taken
  off the rest of the file, so the loop ends.
\<close>

function scan_existing :: "journal_reader \<Rightarrow> journal_error option \<times> journal_reader" where
  "scan_existing rd =
     (case read_next rd of
        (End_Of_Journal, rd') \<Rightarrow> (None, rd')
      | (Read_Error e, rd') \<Rightarrow> (Some e, rd')
      | (Read_Record _, rd') \<Rightarrow> scan_existing rd')"
  by pat_completeness auto
termination
  by (relation "measure (length \<circ> jr_rest)") (auto simp: read_next_shrinks [OF sym])

declare scan_existing.simps [simp del]

text \<open>What the file system answers.\<close>

record writer_env =
  we_exists :: "bool option"
  we_size_error :: bool
  we_content :: string
  we_reader_opens :: bool
  we_writer_opens :: bool
  we_header_outcome :: write_outcome

text \<open>The checks before the file is opened for writing: whether a header is due, and the count.\<close>

definition inspect_existing :: "writer_env \<Rightarrow> journal_error + bool \<times> u64" where
  "inspect_existing env =
     (case we_exists env of
        None \<Rightarrow> Inl (jerror Open_Failed 0)
      | Some False \<Rightarrow> Inr (True, 0)
      | Some True \<Rightarrow>
          if we_size_error env then Inl (jerror Open_Failed 0)
          else if we_content env = [] then Inr (True, 0)
          else case open_raw_journal_reader (if we_reader_opens env then Some (we_content env) else None) of
            Inl e \<Rightarrow> Inl e
          | Inr existing \<Rightarrow>
              (case scan_existing existing of
                 (Some e, _) \<Rightarrow> Inl e
               | (None, existing) \<Rightarrow> Inr (False, jr_records_read existing)))"

definition open_raw_journal_writer :: "writer_env \<Rightarrow> journal_error + journal_writer" where
  "open_raw_journal_writer env =
     (case inspect_existing env of
        Inl e \<Rightarrow> Inl e
      | Inr (write_header, records_written) \<Rightarrow>
          if \<not> we_writer_opens env then Inl (jerror Open_Failed 0)
          else
            let content = (if we_exists env = Some True then we_content env else []);
                (content, good) =
                  (if write_header
                   then stream_write (we_header_outcome env) (file_magic @ unsigned_bytes file_format_version) (content, True)
                   else (content, True))
            in if write_header \<and> \<not> good then Inl (jerror Io_Error 0)
               else Inr \<lparr>jw_file = content, jw_good = good, jw_encode_buffer = [], jw_records_written = records_written\<rparr>)"


subsection \<open>Reading a whole file\<close>

function read_all :: "journal_reader \<Rightarrow> raw_market_record list \<times> journal_error option" where
  "read_all rd =
     (case read_next rd of
        (End_Of_Journal, _) \<Rightarrow> ([], None)
      | (Read_Error e, _) \<Rightarrow> ([], Some e)
      | (Read_Record r, rd') \<Rightarrow> (case read_all rd' of (rs, e) \<Rightarrow> (r # rs, e)))"
  by pat_completeness auto
termination
  by (relation "measure (length \<circ> jr_rest)") (auto simp: read_next_shrinks [OF sym])

declare read_all.simps [simp del]

definition frames :: "raw_market_record list \<Rightarrow> string" where
  "frames rs = concat (map frame rs)"

definition journal_bytes :: "raw_market_record list \<Rightarrow> string" where
  "journal_bytes rs = file_magic @ unsigned_bytes file_format_version @ frames rs"

lemma frames_simps [simp]: "frames [] = []" "frames (r # rs) = frame r @ frames rs"
    "frames (rs @ rs') = frames rs @ frames rs'"
  by (simp_all add: frames_def)

lemma if_neq: "a \<noteq> x \<Longrightarrow> b \<noteq> x \<Longrightarrow> (if c then a else b) \<noteq> x"
  by simp

lemma decode_not_end: "decode bytes index \<noteq> End_Of_Journal"
proof -
  have "body_at off e bytes index \<noteq> End_Of_Journal" for off e
    unfolding body_at_def Let_def by (intro if_neq) (simp_all only: journal_read_result.distinct not_False_eq_True)
  then show ?thesis
    unfolding decode_at by (intro if_neq) (simp_all only: journal_read_result.distinct not_False_eq_True)
qed

lemma read_next_end: "jr_good rd \<Longrightarrow> fst (read_next rd) = End_Of_Journal \<longleftrightarrow> jr_rest rd = []"
proof -
  assume good: "jr_good rd"
  consider "jr_rest rd = []" | "jr_rest rd \<noteq> []" "length (jr_rest rd) < 4" | "4 \<le> length (jr_rest rd)" by linarith
  then show ?thesis
  proof cases
    case 1
    with good show ?thesis by (simp add: read_next_def stream_read_def)
  next
    case 2
    with good show ?thesis by (simp add: read_next_def stream_read_short)
  next
    case 3
    with good have "take 4 (jr_rest rd) \<noteq> []" "jr_rest rd \<noteq> []" by auto
    with good 3 show ?thesis
      by (simp add: read_next_def stream_read_full Let_def case_prod_unfold decode_not_end split: option.split)
  qed
qed

text \<open>After records, the rest decides; and a complete parse is a sequence of frames.\<close>

lemma read_all_frames:
  "\<forall>r \<in> set rs. storable r \<Longrightarrow> jr_good rd \<Longrightarrow> jr_rest rd = frames rs @ x \<Longrightarrow>
     read_all rd = (case read_all (rd\<lparr>jr_rest := x, jr_records_read := jr_records_read rd + of_nat (length rs)\<rparr>) of
       (rs', e) \<Rightarrow> (rs @ rs', e))"
proof (induction rs arbitrary: rd)
  case Nil
  have "rd\<lparr>jr_rest := x, jr_records_read := jr_records_read rd\<rparr> = rd" using Nil.prems(3) by simp
  then show ?case by simp
next
  case (Cons r rs)
  define rd1 where "rd1 = rd\<lparr>jr_rest := frames rs @ x, jr_records_read := jr_records_read rd + 1\<rparr>"
  have step: "read_next rd = (Read_Record r, rd1)"
    using Cons.prems unfolding rd1_def by (intro read_next_frame) simp_all
  have "read_all rd1 = (case read_all (rd1\<lparr>jr_rest := x, jr_records_read := jr_records_read rd1 + of_nat (length rs)\<rparr>) of
       (rs', e) \<Rightarrow> (rs @ rs', e))"
    using Cons.prems by (intro Cons.IH) (simp_all add: rd1_def)
  then show ?case
    by (subst read_all.simps) (simp add: step rd1_def case_prod_unfold algebra_simps)
qed

lemma read_all_sound:
  "jr_good rd \<Longrightarrow> read_all rd = (rs, e) \<Longrightarrow>
     \<exists>x. jr_rest rd = frames rs @ x \<and> (\<forall>r \<in> set rs. storable r) \<and> (e = None \<longrightarrow> x = [])"
proof (induction rd arbitrary: rs rule: read_all.induct)
  case (1 rd)
  obtain result rd' where step: "read_next rd = (result, rd')" by fastforce
  show ?case
  proof (cases result)
    case (Read_Record r)
    with step have step': "read_next rd = (Read_Record r, rd')" by simp
    note read = read_next_record [OF step']
    obtain rs1 where rs: "rs = r # rs1" "read_all rd' = (rs1, e)"
      using "1.prems"(2) by (subst (asm) read_all.simps) (auto simp: step' split: prod.splits)
    have "jr_good rd'"
      using read by (metis journal_reader.select_convs(2) journal_reader.surjective journal_reader.update_convs(1,4))
    from "1.IH" [OF step' [symmetric] refl this rs(2)] read rs(1) show ?thesis by auto
  next
    case End_Of_Journal
    then have "jr_rest rd = []" using read_next_end [OF "1.prems"(1)] step by simp
    moreover have "rs = []"
      using "1.prems"(2) step End_Of_Journal by (subst (asm) read_all.simps) simp
    ultimately show ?thesis by simp
  next
    case (Read_Error e')
    then show ?thesis using "1.prems"(2) step by (subst (asm) read_all.simps) auto
  qed
qed

definition header_bytes :: string where
  "header_bytes = file_magic @ unsigned_bytes file_format_version"

lemma length_header [simp]: "length header_bytes = 12"
  by (simp add: header_bytes_def file_magic_def)

lemma journal_bytes_eq: "journal_bytes rs = header_bytes @ frames rs"
  by (simp add: journal_bytes_def header_bytes_def)

definition start_reader :: "string \<Rightarrow> journal_reader" where
  "start_reader x = \<lparr>jr_rest = x, jr_good = True, jr_eof = False, jr_records_read = 0\<rparr>"

lemma open_reader_iff:
  "open_raw_journal_reader (Some content) = Inr rd \<longleftrightarrow> (\<exists>x. content = header_bytes @ x \<and> rd = start_reader x)"
proof -
  define rd0 where "rd0 = \<lparr>jr_rest = content, jr_good = True, jr_eof = False, jr_records_read = 0\<rparr>"
  have magic_len: "length file_magic = 8" by (simp add: file_magic_def)
  show ?thesis
  proof (cases "12 \<le> length content \<and> take 8 content = file_magic \<and>
      (word_of_bytes (drop 8 content) :: u32) = file_format_version")
    case True
    have ver: "unsigned_bytes file_format_version = take 4 (drop 8 content)"
      using field_bytes(2) [of 8 content] True by simp
    have content: "content = header_bytes @ drop 12 content"
    proof -
      have "take 8 content @ take 4 (drop 8 content) @ drop 12 content = content"
        using take_drop_join [of 4 8 content] by simp
      then show ?thesis using True ver by (simp add: header_bytes_def)
    qed
    have "validate_header rd0 = (None, start_reader (drop 12 content))"
    proof -
      define rd1 where "rd1 = rd0\<lparr>jr_rest := drop 8 content\<rparr>"
      have "stream_read 8 rd0 = (file_magic, rd1)"
        using True by (simp add: rd0_def rd1_def stream_read_full)
      moreover have "4 \<le> length content - 8" using True by linarith
      then have "(read_unsigned rd1 :: u32 option \<times> journal_reader) =
          (Some file_format_version, start_reader (drop 12 content))"
        using True by (simp add: rd0_def rd1_def read_unsigned_def stream_read_full take_bytes_u32 start_reader_def)
      ultimately show ?thesis by (simp add: validate_header_def magic_len)
    qed
    then have "open_raw_journal_reader (Some content) = Inr (start_reader (drop 12 content))"
      by (simp add: open_raw_journal_reader_def rd0_def)
    then show ?thesis using content by (metis append_eq_conv_conj Inr_inject)
  next
    case False
    have "\<not> (\<exists>x. content = header_bytes @ x)"
    proof
      assume "\<exists>x. content = header_bytes @ x"
      then show False using False by (auto simp: header_bytes_def magic_len)
    qed
    moreover have "fst (validate_header rd0) \<noteq> None"
      using False by (auto simp: validate_header_def magic_len rd0_def read_unsigned_def stream_read_def take_bytes_u32)
    then have "open_raw_journal_reader (Some content) \<noteq> Inr rd"
      by (cases "validate_header rd0") (auto simp: open_raw_journal_reader_def simp flip: rd0_def)
    ultimately show ?thesis by blast
  qed
qed

lemma read_all_empty: "jr_good rd \<Longrightarrow> jr_rest rd = [] \<Longrightarrow> read_all rd = ([], None)"
  using read_next_end [of rd] by (subst read_all.simps) (auto split: prod.splits)

lemma read_all_exact:
  "read_all (start_reader x) = (rs, None) \<longleftrightarrow> x = frames rs \<and> (\<forall>r \<in> set rs. storable r)"
proof
  assume "read_all (start_reader x) = (rs, None)"
  from read_all_sound [OF _ this] show "x = frames rs \<and> (\<forall>r \<in> set rs. storable r)"
    by (simp add: start_reader_def)
next
  assume x: "x = frames rs \<and> (\<forall>r \<in> set rs. storable r)"
  from read_all_frames [of rs "start_reader x" "[]"] x show "read_all (start_reader x) = (rs, None)"
    by (simp add: start_reader_def read_all_empty)
qed

text \<open>A record for the witnesses.\<close>

definition sample_record :: raw_market_record where
  "sample_record = \<lparr>rr_schema_version = current_schema_version, rr_metadata_version = 1, rr_generation = 1,
     rr_received_at = 5, rr_observed_at = 6, rr_sequence = 7, rr_exchange_time_ns = None,
     rr_channel = ''c'', rr_payload = ''p''\<rparr>"

lemma sample_storable: "storable sample_record"
  by (simp add: storable_def valid_record_def record_in_range_def sample_record_def limits)

lemma sample_encoding: "length (encoding sample_record) = 55" "encoding sample_record ! 0 = CHR 0x02"
  by (simp_all add: encoding_def encode_eq storable_def valid_record_def sample_record_def limits
      unsigned_bytes_def current_schema_version_def char_of_word_def nth_append char_of_def bit_0)

lemma sample_frame: "length (frame sample_record) = 63" "frame sample_record ! 4 = CHR 0x02"
  using sample_encoding by (simp_all add: frame_eq nth_append)

text \<open>
  Claim C34. The journal reader accepts exactly the journals. A file opens and reads to its
  end without an error, giving these records, if and only if it is the header followed by the
  frames of these records, each valid and in range. So every journal reads back as written,
  no two record sequences share a file, and nothing else is read as a journal.
\<close>

theorem journal_reader_exact:
  "(\<exists>rd. open_raw_journal_reader (Some content) = Inr rd \<and> read_all rd = (rs, None)) \<longleftrightarrow>
     content = journal_bytes rs \<and> (\<forall>r \<in> set rs. storable r)"
  unfolding open_reader_iff using read_all_exact by (auto simp: journal_bytes_eq)

lemma journal_reader_exact_witness:
  "\<exists>rd. open_raw_journal_reader (Some (journal_bytes [sample_record])) = Inr rd \<and>
     read_all rd = ([sample_record], None)"
  using journal_reader_exact [of "journal_bytes [sample_record]" "[sample_record]"] sample_storable by simp


subsection \<open>A file that is cut\<close>

lemma read_next_cut:
  assumes "storable r" and "jr_good rd" and "jr_rest rd = take m (frame r)" and "m < length (frame r)"
  shows "fst (read_next rd) = (if m = 0 then End_Of_Journal else Read_Error (jerror Truncated_Record (jr_records_read rd)))"
proof -
  let ?e = "encoding r"
  have size: "53 < length ?e" "length ?e \<le> 16777552" using encoding_size [OF assms(1)] by (simp_all add: limits)
  have frame_len: "length (frame r) = 8 + length ?e" by (rule journal_codec.frame_length)
  have rest_len: "length (jr_rest rd) = m" using assms(3,4) by simp
  have n: "unat (of_nat (length ?e) :: u32) = length ?e" using size by (simp add: unat_of_nat)
  consider "m = 0" | "0 < m" "m < 4" | "4 \<le> m" "m < 4 + length ?e" | "4 + length ?e \<le> m" by linarith
  then show ?thesis
  proof cases
    case 1
    then have "jr_rest rd = []" using rest_len by simp
    then show ?thesis using read_next_end [OF assms(2)] 1 by simp
  next
    case 2
    then have "jr_rest rd \<noteq> []" using rest_len by auto
    then show ?thesis using 2 rest_len assms(2) by (simp add: read_next_def stream_read_short)
  next
    case 3
    define rd1 where "rd1 = rd\<lparr>jr_rest := take (m - 4) (?e @ unsigned_bytes (checksum ?e))\<rparr>"
    have rest: "jr_rest rd = unsigned_bytes (of_nat (length ?e) :: u32) @ jr_rest rd1"
      using assms(3) 3 by (simp add: frame_eq rd1_def)
    have "stream_read 4 rd = (unsigned_bytes (of_nat (length ?e) :: u32), rd1)"
      using assms(2) rest by (simp add: stream_read_full rd1_def)
    moreover have "length (jr_rest rd1) < length ?e" "jr_good rd1" "jr_records_read rd1 = jr_records_read rd"
      using 3 assms(2) by (auto simp: rd1_def)
    moreover have "unsigned_bytes (of_nat (length ?e) :: u32) \<noteq> []"
      by (rule notI, drule arg_cong [where f = length]) simp
    ultimately show ?thesis
      using size 3 by (simp add: read_next_def stream_read_short n Let_def limits)
  next
    case 4
    define rd1 where "rd1 = rd\<lparr>jr_rest := ?e @ take (m - 4 - length ?e) (unsigned_bytes (checksum ?e))\<rparr>"
    define rd2 where "rd2 = rd\<lparr>jr_rest := take (m - 4 - length ?e) (unsigned_bytes (checksum ?e))\<rparr>"
    have rest: "jr_rest rd = unsigned_bytes (of_nat (length ?e) :: u32) @ jr_rest rd1"
      using assms(3) 4 by (simp add: frame_eq rd1_def)
    have "stream_read 4 rd = (unsigned_bytes (of_nat (length ?e) :: u32), rd1)"
      using assms(2) rest by (simp add: stream_read_full rd1_def)
    moreover have "stream_read (length ?e) rd1 = (?e, rd2)"
      using assms(2) by (simp add: stream_read_full rd1_def rd2_def)
    moreover have "length (jr_rest rd2) < 4" using assms(4) frame_len 4 by (simp add: rd2_def)
    then have "fst (read_unsigned rd2 :: u32 option \<times> journal_reader) = None \<and>
        jr_records_read (snd (read_unsigned rd2 :: u32 option \<times> journal_reader)) = jr_records_read rd"
      using assms(2) by (simp add: read_unsigned_def rd2_def stream_read_short)
    then obtain rd3 where "(read_unsigned rd2 :: u32 option \<times> journal_reader) = (None, rd3)"
      "jr_records_read rd3 = jr_records_read rd"
      by (cases "read_unsigned rd2 :: u32 option \<times> journal_reader") auto
    moreover have "unsigned_bytes (of_nat (length ?e) :: u32) \<noteq> []"
      by (rule notI, drule arg_cong [where f = length]) simp
    ultimately show ?thesis
      using size 4 by (simp add: read_next_def n Let_def limits)
  qed
qed

text \<open>The number of whole frames in the first \<open>n\<close> bytes.\<close>

primrec whole_frames :: "nat \<Rightarrow> raw_market_record list \<Rightarrow> nat" where
  "whole_frames n [] = 0"
| "whole_frames n (r # rs) = (if length (frame r) \<le> n then Suc (whole_frames (n - length (frame r)) rs) else 0)"

lemma whole_frames_cut:
  "n < length (frames rs) \<Longrightarrow> whole_frames n rs < length rs \<and>
     (\<exists>m. m < length (frame (rs ! whole_frames n rs)) \<and> n = length (frames (take (whole_frames n rs) rs)) + m \<and>
          take n (frames rs) = frames (take (whole_frames n rs) rs) @ take m (frame (rs ! whole_frames n rs)))"
proof (induction rs arbitrary: n)
  case (Cons r rs)
  show ?case
  proof (cases "length (frame r) \<le> n")
    case True
    then have "n - length (frame r) < length (frames rs)" using Cons.prems by simp
    from Cons.IH [OF this] True show ?thesis by auto
  qed simp
qed simp

lemma storable_take: "\<forall>r \<in> set rs. storable r \<Longrightarrow> \<forall>r \<in> set (take k rs). storable r"
  by (auto dest: in_set_takeD)

lemma read_all_cut:
  assumes "\<forall>r \<in> set rs. storable r" and "n < length (frames rs)"
  defines "k \<equiv> whole_frames n rs"
  shows "read_all (start_reader (take n (frames rs))) =
    (take k rs, if n = length (frames (take k rs)) then None else Some (jerror Truncated_Record (of_nat k)))"
proof -
  obtain m where m: "k < length rs" "m < length (frame (rs ! k))" "n = length (frames (take k rs)) + m"
    "take n (frames rs) = frames (take k rs) @ take m (frame (rs ! k))"
    using whole_frames_cut [OF assms(2)] unfolding k_def by blast
  define rd where "rd = (start_reader (take n (frames rs)))\<lparr>jr_rest := take m (frame (rs ! k)),
      jr_records_read := jr_records_read (start_reader (take n (frames rs))) + of_nat (length (take k rs))\<rparr>"
  have rd: "jr_good rd" "jr_rest rd = take m (frame (rs ! k))" "jr_records_read rd = of_nat k"
    using m(1) by (simp_all add: rd_def start_reader_def)
  have "storable (rs ! k)" using assms(1) m(1) by simp
  from read_next_cut [OF this rd(1,2) m(2)] have "fst (read_next rd) =
      (if m = 0 then End_Of_Journal else Read_Error (jerror Truncated_Record (of_nat k)))" by (simp add: rd(3))
  then have last_read: "read_all rd = ([], if m = 0 then None else Some (jerror Truncated_Record (of_nat k)))"
    by (subst read_all.simps) (cases "read_next rd"; cases "m = 0"; simp)
  have "read_all (start_reader (take n (frames rs))) = (case read_all rd of (rs', e) \<Rightarrow> (take k rs @ rs', e))"
    unfolding rd_def
    by (rule read_all_frames [OF storable_take [OF assms(1)]]) (simp_all add: start_reader_def m(4))
  then show ?thesis using m(3) by (simp add: last_read)
qed

lemma frames_len_mono: "k < length rs \<Longrightarrow> length (frames (take (Suc k) rs)) = length (frames (take k rs)) + length (frame (rs ! k))"
  by (simp add: take_Suc_conv_app_nth)

lemma open_reader_header: "open_raw_journal_reader (Some (header_bytes @ x)) = Inr (start_reader x)"
  using open_reader_iff [of "header_bytes @ x" "start_reader x"] by blast

text \<open>
  Claim C35. A journal cut at any byte loses only its tail. A reader of the first \<open>n\<close> bytes of
  a journal, past the header, reads the records whose frames lie wholly within them, in order and
  unchanged, and then the end if the cut is between two frames, and \<open>truncated_record\<close> with the
  index of the record that was cut otherwise. A cut inside the header does not open.
\<close>

theorem journal_cut_keeps_prefix:
  assumes "\<forall>r \<in> set rs. storable r" and "n < length (journal_bytes rs)"
  shows "if n < 12 then \<exists>e. open_raw_journal_reader (Some (take n (journal_bytes rs))) = Inl e
    else \<exists>k < length rs. \<exists>rd. open_raw_journal_reader (Some (take n (journal_bytes rs))) = Inr rd \<and>
        length (journal_bytes (take k rs)) \<le> n \<and> n < length (journal_bytes (take (Suc k) rs)) \<and>
        read_all rd = (take k rs, if n = length (journal_bytes (take k rs)) then None
                                  else Some (jerror Truncated_Record (of_nat k)))"
proof (cases "n < 12")
  case True
  have "open_raw_journal_reader (Some (take n (journal_bytes rs))) \<noteq> Inr rd" for rd
  proof
    assume "open_raw_journal_reader (Some (take n (journal_bytes rs))) = Inr rd"
    then obtain x where "take n (journal_bytes rs) = header_bytes @ x" using open_reader_iff by blast
    from arg_cong [OF this, where f = length] True assms(2) show False by simp
  qed
  with True show ?thesis by (cases "open_raw_journal_reader (Some (take n (journal_bytes rs)))") auto
next
  case False
  define k where "k = whole_frames (n - 12) rs"
  have n: "n - 12 < length (frames rs)" using False assms(2) by (simp add: journal_bytes_eq)
  obtain m where m: "k < length rs" "m < length (frame (rs ! k))" "n - 12 = length (frames (take k rs)) + m"
    using whole_frames_cut [OF n] unfolding k_def by blast
  have "take n (journal_bytes rs) = header_bytes @ take (n - 12) (frames rs)"
    using False by (simp add: journal_bytes_eq)
  then have "open_raw_journal_reader (Some (take n (journal_bytes rs))) = Inr (start_reader (take (n - 12) (frames rs)))"
    by (simp add: open_reader_header)
  moreover have "length (journal_bytes (take k rs)) \<le> n" using m(3) False by (simp add: journal_bytes_eq)
  moreover have "n < length (journal_bytes (take (Suc k) rs))"
    using m False frames_len_mono [OF m(1)] by (simp add: journal_bytes_eq)
  moreover have "n = length (journal_bytes (take k rs)) \<longleftrightarrow> n - 12 = length (frames (take k rs))"
    using False by (auto simp: journal_bytes_eq)
  ultimately show ?thesis
    using False m(1) read_all_cut [OF assms(1) n, folded k_def] by auto
qed

lemma journal_cut_keeps_prefix_witness:
  "\<exists>rd. open_raw_journal_reader (Some (take 20 (journal_bytes [sample_record]))) = Inr rd \<and>
     read_all rd = ([], Some (jerror Truncated_Record 0))"
  using journal_cut_keeps_prefix [of "[sample_record]" 20] sample_storable
  by (simp add: journal_bytes_eq sample_frame)


subsection \<open>Appending\<close>


lemma encode_into_invalid: "\<not> valid_record r \<Longrightarrow> encode_into r buffer = (Some Invalid_Record, buffer)"
  by (simp add: encode_into_def)


lemma writer_append_invalid:
  "\<not> valid_record r \<Longrightarrow> writer_append outcome r w = (Some (jerror Invalid_Record (jw_records_written w)), w)"
  by (simp add: writer_append_def encode_into_invalid)





lemma scan_existing_error: "read_all rd = (rs, Some e) \<Longrightarrow> fst (scan_existing rd) = Some e"
proof (induction rd arbitrary: rs rule: read_all.induct)
  case (1 rd)
  obtain result rd' where step: "read_next rd = (result, rd')" by fastforce
  show ?case
  proof (cases result)
    case (Read_Record r)
    with step have step': "read_next rd = (Read_Record r, rd')" by simp
    obtain rs1 where "read_all rd' = (rs1, Some e)"
      using "1.prems" by (subst (asm) read_all.simps) (auto simp: step' split: prod.splits)
    from "1.IH" [OF step' [symmetric] refl this] show ?thesis by (subst scan_existing.simps) (simp add: step')
  qed (use "1.prems" step in \<open>subst (asm) read_all.simps, subst scan_existing.simps, simp\<close>)+
qed

text \<open>The answers of a file system on which everything opens and the header is written.\<close>

definition working :: "string option \<Rightarrow> writer_env" where
  "working content = \<lparr>we_exists = Some (content \<noteq> None), we_size_error = False,
     we_content = (case content of None \<Rightarrow> [] | Some bytes \<Rightarrow> bytes), we_reader_opens = True,
     we_writer_opens = True, we_header_outcome = None\<rparr>"

lemma journal_bytes_nonempty: "journal_bytes rs \<noteq> []"
  by (rule notI, drule arg_cong [where f = length]) (simp add: journal_bytes_eq)



lemma open_writer_damaged:
  assumes "content \<noteq> []" and "open_raw_journal_reader (Some content) = Inr rd" and "read_all rd = (rs, Some e)"
  shows "open_raw_journal_writer (working (Some content)) = Inl e"
  using assms scan_existing_error [OF assms(3)]
  by (cases "scan_existing rd") (simp add: open_raw_journal_writer_def inspect_existing_def working_def)




subsection \<open>Damage\<close>

lemma read_next_raw:
  assumes "jr_good rd" and "jr_rest rd = unsigned_bytes (of_nat (length body) :: u32) @ body @ crc @ x"
    and "minimum_record_bytes \<le> length body" and "length body \<le> maximum_record_bytes" and "length crc = 4"
    and "word_of_bytes crc \<noteq> checksum body"
  shows "fst (read_next rd) = Read_Error (jerror Checksum_Mismatch (jr_records_read rd))"
proof -
  define rd1 where "rd1 = rd\<lparr>jr_rest := body @ crc @ x\<rparr>"
  define rd2 where "rd2 = rd\<lparr>jr_rest := crc @ x\<rparr>"
  have reads: "stream_read 4 rd = (unsigned_bytes (of_nat (length body) :: u32), rd1)"
    "stream_read (length body) rd1 = (body, rd2)"
    "(read_unsigned rd2 :: u32 option \<times> journal_reader) = (Some (word_of_bytes crc), rd\<lparr>jr_rest := x\<rparr>)"
    using assms(1,2,5) by (simp_all add: stream_read_full rd1_def rd2_def read_unsigned_def)
  have n: "unat (of_nat (length body) :: u32) = length body" using assms(4) by (simp add: unat_of_nat limits)
  have nonempty: "unsigned_bytes (of_nat (length body) :: u32) \<noteq> []"
    by (rule notI, drule arg_cong [where f = length]) simp
  show ?thesis
    using assms(3-6) by (simp add: read_next_def reads n nonempty Let_def)
qed

lemma checksum_update: "p < length s \<Longrightarrow> c \<noteq> s ! p \<Longrightarrow> checksum (s[p := c]) \<noteq> checksum s"
  using checksum_single_byte [of c "s ! p" "take p s" "drop (Suc p) s"]
  by (simp add: upd_conv_take_nth_drop id_take_nth_drop [symmetric])

lemma frame_damage:
  assumes "storable r" and "jr_good rd" and "jr_rest rd = (frame r)[p := c] @ x"
    and "4 \<le> p" and "p < length (frame r)" and "c \<noteq> frame r ! p"
  shows "fst (read_next rd) = Read_Error (jerror Checksum_Mismatch (jr_records_read rd))"
proof (cases "p < 4 + length (encoding r)")
  case True
  define q where "q = p - 4"
  have q: "q < length (encoding r)" using assms(4) True by (simp add: q_def)
  then have c: "c \<noteq> encoding r ! q" using assms(4,6) by (simp add: q_def frame_eq nth_append)
  have "jr_rest rd = unsigned_bytes (of_nat (length ((encoding r)[q := c])) :: u32) @ (encoding r)[q := c] @
      unsigned_bytes (checksum (encoding r)) @ x"
    using assms(3,4) q by (simp add: frame_eq list_update_append q_def)
  from read_next_raw [OF assms(2) this] show ?thesis
    using encoding_size [OF assms(1)] checksum_update [OF q c] by simp
next
  case False
  then obtain q where p: "p = 4 + length (encoding r) + q" using le_Suc_ex by (metis not_less)
  define crc where "crc = (unsigned_bytes (checksum (encoding r)))[q := c]"
  have len: "length crc = 4" by (simp add: crc_def)
  have q: "q < 4" "c \<noteq> unsigned_bytes (checksum (encoding r)) ! q"
    using assms(5,6) journal_codec.frame_length [of r] by (simp_all add: p frame_eq nth_append)
  have rest: "jr_rest rd = unsigned_bytes (of_nat (length (encoding r)) :: u32) @ encoding r @ crc @ x"
    using assms(3) by (simp add: p frame_eq list_update_append crc_def)
  have "(word_of_bytes crc :: u32) \<noteq> checksum (encoding r)"
  proof
    assume "word_of_bytes crc = checksum (encoding r)"
    then have "unsigned_bytes (word_of_bytes crc :: u32) = unsigned_bytes (checksum (encoding r))" by simp
    then have "crc = unsigned_bytes (checksum (encoding r))"
      using unsigned_bytes_of_word [where bytes = crc and n = 4 and ?'a = 32] len by simp
    then have "crc ! q = unsigned_bytes (checksum (encoding r)) ! q" by simp
    with q show False by (simp add: crc_def)
  qed
  with read_next_raw [OF assms(2) rest] len show ?thesis
    using encoding_size [OF assms(1)] by simp
qed

text \<open>
  A damaged byte is caught. If one byte of a record's encoding or of its checksum
  changes in a journal, then a reader returns the records before it unchanged and stops with
  \<open>checksum_mismatch\<close> at its index, and a writer refuses to append to the file with the same error.
\<close>

theorem journal_damage_detected:
  assumes "\<forall>r \<in> set before. storable r" and "storable r" and "4 \<le> p" and "p < length (frame r)" and "c \<noteq> frame r ! p"
    and "content = journal_bytes before @ (frame r)[p := c] @ after"
  shows "(\<exists>rd. open_raw_journal_reader (Some content) = Inr rd \<and>
      read_all rd = (before, Some (jerror Checksum_Mismatch (of_nat (length before))))) \<and>
    open_raw_journal_writer (working (Some content)) = Inl (jerror Checksum_Mismatch (of_nat (length before)))"
proof -
  define rd where "rd = start_reader (frames before @ (frame r)[p := c] @ after)"
  have opened: "open_raw_journal_reader (Some content) = Inr rd"
    by (simp add: assms(6) journal_bytes_eq open_reader_header rd_def)
  define rd1 where "rd1 = rd\<lparr>jr_rest := (frame r)[p := c] @ after, jr_records_read := jr_records_read rd + of_nat (length before)\<rparr>"
  have "fst (read_next rd1) = Read_Error (jerror Checksum_Mismatch (of_nat (length before)))"
    using frame_damage [OF assms(2) _ _ assms(3,4,5), of rd1 after] by (simp add: rd1_def rd_def start_reader_def)
  then have "read_all rd1 = ([], Some (jerror Checksum_Mismatch (of_nat (length before))))"
    by (subst read_all.simps) (cases "read_next rd1"; simp)
  moreover have "read_all rd = (case read_all rd1 of (rs', e) \<Rightarrow> (before @ rs', e))"
    unfolding rd1_def by (rule read_all_frames [OF assms(1)]) (simp_all add: rd_def start_reader_def)
  ultimately have all: "read_all rd = (before, Some (jerror Checksum_Mismatch (of_nat (length before))))" by simp
  have "content \<noteq> []" by (simp add: assms(6) journal_bytes_nonempty)
  from open_writer_damaged [OF this opened all] opened all show ?thesis by blast
qed

lemma journal_damage_detected_witness:
  "open_raw_journal_writer (working (Some (journal_bytes [] @ (frame sample_record)[4 := CHR 0x03] @ []))) =
     Inl (jerror Checksum_Mismatch 0)"
  using journal_damage_detected [of "[]" sample_record 4 "CHR 0x03" _ "[]", OF _ _ _ _ _ refl]
    sample_storable sample_frame by simp

end
