(* ===== verification/Reservation.thy ===== *)
theory Reservation
  imports Execution_Cost
begin

text \<open>
  The data of the sizing routines and the funding reserve of a buy order, after
  \<open>include/eme/core/net_sizing.hpp\<close> and \<open>buy_reservation\<close> of \<open>src/core/net_sizing.cpp\<close>.
  Shown: the reserve is total on the supported inputs, grows with quantity and limit price,
  and covers the debit of every execution of the order, however it is split into fills. The
  locale \<open>funding\<close> is what both sizing routines rely on.
\<close>

subsection \<open>Data\<close>

record buy_level =
  bl_price :: price
  bl_quantity :: quantity

record buy_depth =
  bd_levels :: "buy_level list"
  bd_fees :: fee_policy

record sizing_limits =
  sl_cap :: quantity
  sl_step :: quantity
  sl_available :: cash
  sl_minimum_margin :: cash
  sl_max_evaluations :: u64

record sized_leg =
  sz_limit :: price
  sz_notional :: cash
  sz_debit :: cash
  sz_reservation :: cash

datatype sizing_status =
  Optimal | No_Positive_Margin | No_Depth | Insufficient_Cash | Search_Budget_Exceeded
  | Invalid_Input | Arithmetic_Error


subsection \<open>The reserve\<close>

definition quantity_bound :: int where
  "quantity_bound = 100000000"

definition cash_bound :: int where
  "cash_bound = 1000000000000000"

declare quantity_bound_def [limits] cash_bound_def [limits]

definition valid_fee :: "fee_policy \<Rightarrow> bool" where
  "valid_fee fee \<longleftrightarrow>
     coefficient_ppm fee \<le> 1000000 \<and> (balance_quantum_micro fee = 100 \<or> balance_quantum_micro fee = 10000)"

text \<open>The helpers \<open>cash\<close> and \<open>quantity\<close>: the dereferenced results of \<open>from_raw\<close>.\<close>

definition cash_at :: "int \<Rightarrow> cash" where
  "cash_at v = the (cash_from_raw v)"

definition quantity_value :: "int \<Rightarrow> quantity" where
  "quantity_value v = the (quantity_from_raw v)"

definition buy_reservation :: "quantity \<Rightarrow> quantity \<Rightarrow> price \<Rightarrow> fee_policy \<Rightarrow> cash option" where
  "buy_reservation q step limit fee =
     (if quantity_bound < quantity_raw q \<or> (quantity_raw step \<noteq> 1 \<and> quantity_raw step \<noteq> 100) \<or>
         quantity_raw q mod quantity_raw step \<noteq> 0 \<or> \<not> valid_fee fee
      then None
      else if quantity_raw q = 0 then Some (cash_at 0)
      else
        case charge_buy_fill q (the (price_from_raw 5000)) fee \<lparr>rounding_micro = 0\<rparr> of
          None \<Rightarrow> None
        | Some (peak, _) \<Rightarrow>
            Some (cash_at (quantity_raw q * price_raw limit + cash_raw (fc_trade_fee peak) +
              quantity_raw q div quantity_raw step * (int (unat (balance_quantum_micro fee)) + 1))))"


subsection \<open>What the reserve is\<close>

lemma valid_fee_iff: "valid_fee fee \<longleftrightarrow> policy_ok fee"
  by (auto simp: valid_fee_def policy_ok_def)

lemma cash_at_raw [simp]: "0 \<le> v \<Longrightarrow> v \<le> 9223372036854775807 \<Longrightarrow> cash_raw (cash_at v) = v"
  by (simp add: cash_at_def cash_from_raw_def)

lemma quantity_value_raw [simp]:
  "0 \<le> v \<Longrightarrow> v \<le> 9223372036854775807 \<Longrightarrow> quantity_raw (quantity_value v) = v"
  by (simp add: quantity_value_def quantity_from_raw_def)

lemma quantity_value_of_raw [simp]: "quantity_value (quantity_raw q) = q"
  by (simp add: quantity_value_def quantity_from_raw_def)

lemma price_5000: "price_raw (the (price_from_raw 5000)) = 5000"
  by (simp add: price_from_raw_def limits)

definition reserve_amount :: "fee_policy \<Rightarrow> int \<Rightarrow> int \<Rightarrow> int \<Rightarrow> int" where
  "reserve_amount fee step limit q =
     q * limit + int (trade_fee (coeff_nat fee) (nat q) 5000) + q div step * (int (quantum_nat fee) + 1)"

definition reserve_ok :: "fee_policy \<Rightarrow> int \<Rightarrow> int \<Rightarrow> bool" where
  "reserve_ok fee step q \<longleftrightarrow> policy_ok fee \<and> step \<in> {1, 100} \<and> 0 \<le> q \<and> q \<le> 100000000 \<and> q mod step = 0"

lemma quantum_le: "policy_ok fee \<Longrightarrow> int (quantum_nat fee) \<le> 10000"
  by (auto simp: policy_ok_def)

lemma trade_fee_nonzero_q [simp]: "trade_fee c 0 p = 0"
  by (simp add: trade_fee_def)

lemma reserve_amount_bounds:
  assumes "reserve_ok fee step q" and "0 \<le> limit" and "limit \<le> 10000"
  shows "0 \<le> reserve_amount fee step limit q" "reserve_amount fee step limit q \<le> 3000200000000"
proof -
  have q: "0 \<le> q" "q \<le> 100000000" and pol: "policy_ok fee" and step: "step = 1 \<or> step = 100"
    using assms(1) by (auto simp: reserve_ok_def)
  have "q * limit \<le> 100000000 * 10000" using q assms by (intro mult_mono) simp_all
  moreover have "trade_fee (coeff_nat fee) (nat q) 5000 \<le> 1000000000000"
    using pol q by (intro trade_fee_small(2)) simp_all
  moreover have "0 \<le> q div step" "q div step \<le> 100000000" using q step by auto
  then have "0 \<le> q div step * (int (quantum_nat fee) + 1)"
    "q div step * (int (quantum_nat fee) + 1) \<le> 100000000 * 10001"
    using quantum_le [OF pol] by (simp, intro mult_mono) simp_all
  ultimately show "0 \<le> reserve_amount fee step limit q" "reserve_amount fee step limit q \<le> 3000200000000"
    using q assms(2) by (simp_all add: reserve_amount_def)
qed

lemma buy_reservation_eq:
  "buy_reservation q step limit fee =
     (if reserve_ok fee (quantity_raw step) (quantity_raw q)
      then Some (cash_of (reserve_amount fee (quantity_raw step) (price_raw limit) (quantity_raw q)))
      else None)"
proof (cases "reserve_ok fee (quantity_raw step) (quantity_raw q) \<and> quantity_raw q \<noteq> 0")
  case True
  then have ok: "reserve_ok fee (quantity_raw step) (quantity_raw q)" by simp
  then have pol: "policy_ok fee" and q: "0 < quantity_raw q" "quantity_raw q \<le> 100000000"
    using True by (auto simp: reserve_ok_def less_le)
  obtain peak acc where peak:
    "charge_buy_fill q (the (price_from_raw 5000)) fee \<lparr>rounding_micro = 0\<rparr> = Some (peak, acc)"
    using charge_total [OF pol q, where acc = "\<lparr>rounding_micro = 0\<rparr>"] by fastforce
  have fee: "cash_raw (fc_trade_fee peak) = int (trade_fee (coeff_nat fee) (nat (quantity_raw q)) 5000)"
    using charge_accounts [OF peak] unfolding price_5000 by (metis cash_raw_bounds(1) nat_0_le nat_numeral)
  note bounds = reserve_amount_bounds [OF ok price_raw_bounds]
  have "cash_at (reserve_amount fee (quantity_raw step) (price_raw limit) (quantity_raw q)) =
      cash_of (reserve_amount fee (quantity_raw step) (price_raw limit) (quantity_raw q))"
    using bounds(1) [of limit] by (auto simp: cash_at_def cash_from_raw_def)
  moreover have "\<not> (quantity_bound < quantity_raw q \<or> (quantity_raw step \<noteq> 1 \<and> quantity_raw step \<noteq> 100) \<or>
         quantity_raw q mod quantity_raw step \<noteq> 0 \<or> \<not> valid_fee fee)"
    using ok by (auto simp: reserve_ok_def valid_fee_iff limits)
  ultimately show ?thesis
    using q by (simp add: buy_reservation_def peak fee ok reserve_amount_def)
next
  case False
  then show ?thesis
    by (auto simp: buy_reservation_def reserve_ok_def valid_fee_iff limits reserve_amount_def
        cash_at_def cash_from_raw_def)
qed

lemma buy_reservation_raw:
  assumes "reserve_ok fee (quantity_raw step) (quantity_raw q)"
  shows "\<exists>r. buy_reservation q step limit fee = Some r \<and>
    cash_raw r = reserve_amount fee (quantity_raw step) (price_raw limit) (quantity_raw q)"
  using reserve_amount_bounds [OF assms price_raw_bounds [of limit]] assms by (simp add: buy_reservation_eq)

lemma reserve_amount_mono:
  assumes "reserve_ok fee step q'" and "0 \<le> q" and "q \<le> q'" and "0 \<le> limit" and "limit \<le> limit'"
  shows "reserve_amount fee step limit q \<le> reserve_amount fee step limit' q'"
proof -
  have "q * limit \<le> q' * limit'" using assms by (intro mult_mono) simp_all
  moreover have "trade_fee (coeff_nat fee) (nat q) 5000 \<le> trade_fee (coeff_nat fee) (nat q') 5000"
    using assms by (intro trade_fee_mono) simp
  moreover have "q div step * (int (quantum_nat fee) + 1) \<le> q' div step * (int (quantum_nat fee) + 1)"
    using assms by (intro mult_right_mono zdiv_mono1) (auto simp: reserve_ok_def)
  ultimately show ?thesis unfolding reserve_amount_def by linarith
qed


subsection \<open>The reserve covers every execution\<close>

lemma price_variance_le: "p * (10000 - p) \<le> (25000000 :: nat)" if "p \<le> 10000"
proof -
  have "0 \<le> (int p - 5000) * (int p - 5000)" by (rule zero_le_square)
  then have "int p * (10000 - int p) \<le> 25000000" by (simp add: algebra_simps)
  then have "int (p * (10000 - p)) \<le> 25000000" using that by (simp add: of_nat_diff)
  then show ?thesis by linarith
qed

lemma trade_fee_lt: "trade_fee c q p * 10000000000 < q * (c * p * (10000 - p)) + 10000000000"
  unfolding trade_fee_def by (rule ceil_div_lt) simp

lemma trade_fee_ge: "q * (c * p * (10000 - p)) \<le> trade_fee c q p * 10000000000"
  unfolding trade_fee_def by (rule ceil_div_ge) simp

lemma fills_fee_le:
  "fills_fee policy fills * 10000000000 \<le>
     fills_quantity fills * int (coeff_nat policy) * 25000000 + 10000000000 * int (length fills)"
proof (induction fills)
  case (Cons fill fills)
  obtain q p where fill: "fill = (q, p)" by force
  define q' p' c where "q' = nat (quantity_raw q)" and "p' = nat (price_raw p)" and "c = coeff_nat policy"
  have p': "p' \<le> 10000" by (simp add: p'_def nat_le_iff)
  have "q' * (c * p' * (10000 - p')) = q' * c * (p' * (10000 - p'))" by (simp add: algebra_simps)
  also have "\<dots> \<le> q' * c * 25000000" by (intro mult_le_mono2 price_variance_le p')
  finally have "trade_fee c q' p' * 10000000000 \<le> q' * c * 25000000 + 10000000000"
    using trade_fee_lt [of c q' p'] by linarith
  from of_nat_mono [OF this, where 'a = int]
  have "int (trade_fee c q' p') * 10000000000 \<le> int q' * int c * 25000000 + 10000000000"
    by simp
  moreover have "int q' = quantity_raw q" by (simp add: q'_def)
  ultimately show ?case
    using Cons.IH by (simp add: fill q'_def p'_def c_def algebra_simps)
qed simp

lemma ladder_debit_le:
  "ladder charge_buy_fill policy fills acc = Some (n, d, acc') \<Longrightarrow>
     d \<le> fills_notional fills + fills_fee policy fills + int (quantum_nat policy) * int (length fills)"
proof (induction fills arbitrary: acc n d)
  case (Cons fill fills)
  obtain q p where fill: "fill = (q, p)" by force
  from Cons.prems obtain c acc1 n1 d1 where
    step: "charge_buy_fill q p policy acc = Some (c, acc1)" "ladder charge_buy_fill policy fills acc1 = Some (n1, d1, acc')"
    and d: "d = cash_raw (fc_debit c) + d1"
    by (auto simp: fill split: option.splits)
  have "cash_raw (fc_debit c) \<le> quantity_raw q * price_raw p +
      int (trade_fee (coeff_nat policy) (nat (quantity_raw q)) (nat (price_raw p))) + int (quantum_nat policy)"
    using charge_accounts [OF step(1)] cash_raw_bounds(1) [of "fc_trade_fee c"] by linarith
  with Cons.IH [OF step(2)] show ?case by (simp add: d fill algebra_simps)
qed simp

definition fills_within :: "int \<Rightarrow> int \<Rightarrow> (quantity \<times> price) list \<Rightarrow> bool" where
  "fills_within step limit fills \<longleftrightarrow>
     (\<forall>(q, p) \<in> set fills. 0 < quantity_raw q \<and> quantity_raw q mod step = 0 \<and> price_raw p \<le> limit)"

lemma fills_within_simps [simp]:
  "fills_within step limit []"
  "fills_within step limit ((q, p) # fills) \<longleftrightarrow>
     0 < quantity_raw q \<and> quantity_raw q mod step = 0 \<and> price_raw p \<le> limit \<and> fills_within step limit fills"
  by (auto simp: fills_within_def)

lemma fills_within_bounds:
  "0 < step \<Longrightarrow> fills_within step limit fills \<Longrightarrow>
     fills_notional fills \<le> fills_quantity fills * limit \<and> int (length fills) * step \<le> fills_quantity fills"
proof (induction fills)
  case (Cons fill fills)
  obtain q p where fill: "fill = (q, p)" by force
  have q: "0 < quantity_raw q" "step dvd quantity_raw q" "price_raw p \<le> limit"
    using Cons.prems by (auto simp: fill mod_eq_0_iff_dvd)
  then have size: "step \<le> quantity_raw q" by (intro zdvd_imp_le)
  have cost: "quantity_raw q * price_raw p \<le> quantity_raw q * limit" using q by (intro mult_left_mono) simp_all
  have IH: "fills_notional fills \<le> fills_quantity fills * limit" "int (length fills) * step \<le> fills_quantity fills"
    using Cons by (simp_all add: fill)
  have "fills_notional (fill # fills) \<le> fills_quantity (fill # fills) * limit"
    unfolding fill fills_simps distrib_right using IH(1) cost by linarith
  moreover have "int (length (fill # fills)) * step \<le> fills_quantity (fill # fills)"
    unfolding fill fills_simps using IH(2) size by (simp add: distrib_right)
  ultimately show ?case ..
qed simp

lemma reservation_covers_lemma:
  assumes "fills_within (quantity_raw step) (price_raw limit) fills"
    and "fills_quantity fills = quantity_raw q"
    and "buy_reservation q step limit fee = Some r"
    and "ladder charge_buy_fill fee fills acc = Some (n, d, acc')"
  shows "d \<le> cash_raw r"
proof -
  have ok: "reserve_ok fee (quantity_raw step) (quantity_raw q)"
    using assms(3) by (simp add: buy_reservation_eq split: if_splits)
  then have step: "0 < quantity_raw step" by (auto simp: reserve_ok_def)
  have r: "cash_raw r = reserve_amount fee (quantity_raw step) (price_raw limit) (quantity_raw q)"
    using buy_reservation_raw [OF ok, of limit] assms(3) by auto
  define Q N u where "Q = quantity_raw q" and "N = int (length fills)" and "u = int (quantum_nat fee)"
  define peak where "peak = int (trade_fee (coeff_nat fee) (nat Q) 5000)"
  have bounds: "fills_notional fills \<le> Q * price_raw limit" "N * quantity_raw step \<le> Q"
    using fills_within_bounds [OF step assms(1)] assms(2) by (simp_all add: Q_def N_def)
  have "N \<le> Q div quantity_raw step"
    using zdiv_mono1 [OF bounds(2) step] step by simp
  then have N: "N * (u + 1) \<le> Q div quantity_raw step * (u + 1)"
    by (intro mult_right_mono) (simp_all add: u_def)
  have "nat Q * (coeff_nat fee * 5000 * 5000) \<le> trade_fee (coeff_nat fee) (nat Q) 5000 * 10000000000"
    using trade_fee_ge [of "nat Q" "coeff_nat fee" 5000] by simp
  from of_nat_mono [OF this, where 'a = int]
  have "int (nat Q) * (int (coeff_nat fee) * 5000 * 5000) \<le> peak * 10000000000"
    unfolding peak_def by (simp only: of_nat_mult of_nat_numeral)
  then have "Q * int (coeff_nat fee) * 25000000 \<le> peak * 10000000000"
    by (simp add: Q_def algebra_simps)
  then have "fills_fee fee fills * 10000000000 \<le> (peak + N) * 10000000000"
    using fills_fee_le [of fee fills] assms(2) by (simp add: Q_def N_def algebra_simps)
  then have "fills_fee fee fills \<le> peak + N" by simp
  moreover have "d \<le> fills_notional fills + fills_fee fee fills + u * N"
    using ladder_debit_le [OF assms(4)] by (simp add: u_def N_def)
  ultimately have "d \<le> Q * price_raw limit + peak + N * (u + 1)"
    using bounds(1) by (simp add: algebra_simps)
  with N show ?thesis
    unfolding r reserve_amount_def peak_def Q_def u_def by linarith
qed

text \<open>
  Claim C3. The reserve of a buy order covers every execution of it. However the order is split
  into fills (each a positive multiple of the step, at prices no worse than the limit, adding up
  to its quantity), and whatever rounding its account carries in, the sum of the debits, with
  the venue fee rounded up and the balance rounded on every single fill, is at most the reserve.
\<close>

theorem reservation_covers_executions:
  assumes "fills_within (quantity_raw step) (price_raw limit) fills"
    and "fills_quantity fills = quantity_raw q"
    and "buy_reservation q step limit fee = Some r"
    and "ladder charge_buy_fill fee fills acc = Some (n, d, acc')"
  shows "d \<le> cash_raw r"
  using assms by (rule reservation_covers_lemma)

lemma reservation_covers_executions_witness:
  "60000 \<le> cash_raw (the (buy_reservation (quantity_of 100) (quantity_of 100) (price_of 550)
     \<lparr>coefficient_ppm = 70000, balance_quantum_micro = 10000\<rparr>))"
proof -
  let ?fee = "\<lparr>coefficient_ppm = 70000, balance_quantum_micro = 10000\<rparr> :: fee_policy"
  let ?r = "the (buy_reservation (quantity_of 100) (quantity_of 100) (price_of 550) ?fee)"
  have "reserve_ok ?fee (quantity_raw (quantity_of 100)) (quantity_raw (quantity_of 100))"
    by (simp add: reserve_ok_def policy_ok_def)
  then have "buy_reservation (quantity_of 100) (quantity_of 100) (price_of 550) ?fee = Some ?r"
    by (simp add: buy_reservation_eq)
  moreover have "ladder charge_buy_fill ?fee [(quantity_of 100, price_of 550)] \<lparr>rounding_micro = 0\<rparr> =
      Some (55000, 60000, \<lparr>rounding_micro = 1361\<rparr>)"
    by (simp add: charge_example)
  ultimately show ?thesis
    using reservation_covers_executions [of "quantity_of 100" "price_of 550" "[(quantity_of 100, price_of 550)]" "quantity_of 100" ?fee]
    by simp
qed


subsection \<open>The contract of the funding reserve\<close>

text \<open>
  What the searches rely on: on supported inputs there is a reserve, and it grows with the
  quantity and the limit price. So the sizes that the available cash funds are a prefix of the
  grid, for any number of legs whose marginal prices grow with the size.
\<close>

locale funding =
  fixes reserve :: "fee_policy \<Rightarrow> int \<Rightarrow> int \<Rightarrow> int \<Rightarrow> int"
    and supported :: "fee_policy \<Rightarrow> int \<Rightarrow> int \<Rightarrow> bool"
  assumes reserve_nonneg: "supported fee step q \<Longrightarrow> 0 \<le> limit \<Longrightarrow> limit \<le> 10000 \<Longrightarrow> 0 \<le> reserve fee step limit q"
    and reserve_mono: "supported fee step q' \<Longrightarrow> 0 \<le> q \<Longrightarrow> q \<le> q' \<Longrightarrow> 0 \<le> limit \<Longrightarrow> limit \<le> limit' \<Longrightarrow>
      reserve fee step limit q \<le> reserve fee step limit' q'"
begin

definition legs_reserve :: "int \<Rightarrow> (fee_policy \<times> int) list \<Rightarrow> int \<Rightarrow> int" where
  "legs_reserve step legs q = (\<Sum>(fee, limit) \<leftarrow> legs. reserve fee step limit q)"

lemma legs_reserve_mono:
  "list_all2 (\<lambda>(fee, limit) (fee', limit'). fee = fee' \<and> 0 \<le> limit \<and> limit \<le> limit' \<and> supported fee step q') legs legs' \<Longrightarrow>
     0 \<le> q \<Longrightarrow> q \<le> q' \<Longrightarrow> legs_reserve step legs q \<le> legs_reserve step legs' q'"
  by (induction legs legs' rule: list_all2_induct)
    (auto simp: legs_reserve_def intro!: add_mono reserve_mono)

lemma funded_prefix:
  assumes "list_all2 (\<lambda>(fee, limit) (fee', limit'). fee = fee' \<and> 0 \<le> limit \<and> limit \<le> limit' \<and> supported fee step q') legs legs'"
    and "0 \<le> q" and "q \<le> q'" and "cash < legs_reserve step legs q"
  shows "cash < legs_reserve step legs' q'"
  using legs_reserve_mono [OF assms(1-3)] assms(4) by linarith

end

interpretation funds: funding reserve_amount reserve_ok
  by unfold_locales (auto intro: reserve_amount_bounds reserve_amount_mono)

end
