(* ===== verification/Leg_Offer.thy ===== *)
theory Leg_Offer
  imports Reservation
begin

text \<open>
  What a quantity costs on one leg, computed afresh from the price levels: the reference that both
  sizing routines are measured against. \<open>walk\<close> takes whole levels and then a part of one;
  \<open>leg_offer\<close> charges the fills as a ladder and reserves at the last price. Within the depth of a
  checked leg an offer exists, is covered by its reserve, and its limit and reserve grow with the
  quantity.
\<close>

subsection \<open>What a leg costs\<close>

text \<open>
  The reference: the fills that take a quantity from the levels, whole levels first, the ladder of
  their charges, and the reserve at the price of the last one. \<open>None\<close> when the depth does not
  suffice or an amount is out of range.
\<close>

fun walk :: "buy_level list \<Rightarrow> int \<Rightarrow> (quantity \<times> price) list option" where
  "walk [] q = None"
| "walk (level # levels) q =
     (if quantity_raw (bl_quantity level) < q
      then map_option (Cons (bl_quantity level, bl_price level)) (walk levels (q - quantity_raw (bl_quantity level)))
      else Some [(quantity_value q, bl_price level)])"

definition leg_offer :: "int \<Rightarrow> buy_depth \<Rightarrow> int \<Rightarrow> sized_leg option" where
  "leg_offer step depth q =
     (case walk (bd_levels depth) q of None \<Rightarrow> None
      | Some fills \<Rightarrow>
          (case (ladder charge_buy_fill (bd_fees depth) fills \<lparr>rounding_micro = 0\<rparr>,
                 buy_reservation (quantity_value q) (quantity_value step) (snd (last fills)) (bd_fees depth)) of
             (Some (n, d, _), Some reserve) \<Rightarrow>
               Some \<lparr>sz_limit = snd (last fills), sz_notional = cash_at n, sz_debit = cash_at d, sz_reservation = reserve\<rparr>
           | _ \<Rightarrow> None))"

definition whole :: "buy_level list \<Rightarrow> (quantity \<times> price) list" where
  "whole levels = map (\<lambda>level. (bl_quantity level, bl_price level)) levels"

definition levels_total :: "buy_level list \<Rightarrow> int" where
  "levels_total levels = (\<Sum>level \<leftarrow> levels. quantity_raw (bl_quantity level))"

lemma whole_simps [simp]:
  "whole [] = []" "whole (level # levels) = (bl_quantity level, bl_price level) # whole levels"
  "whole (levels @ levels') = whole levels @ whole levels'" "length (whole levels) = length levels"
  by (simp_all add: whole_def)

lemma levels_total_simps [simp]:
  "levels_total [] = 0" "levels_total (level # levels) = quantity_raw (bl_quantity level) + levels_total levels"
  "levels_total (levels @ levels') = levels_total levels + levels_total levels'"
  by (simp_all add: levels_total_def)

lemma levels_total_nonneg: "0 \<le> levels_total levels"
  by (induction levels) simp_all

lemma walk_append:
  "levels_total pre < q \<Longrightarrow> walk (pre @ levels) q = map_option (\<lambda>fills. whole pre @ fills) (walk levels (q - levels_total pre))"
proof (induction pre arbitrary: q)
  case (Cons level pre)
  then have "quantity_raw (bl_quantity level) < q" using levels_total_nonneg [of pre] by simp
  moreover have "walk (pre @ levels) (q - quantity_raw (bl_quantity level)) =
      map_option (\<lambda>fills. whole pre @ fills) (walk levels (q - quantity_raw (bl_quantity level) - levels_total pre))"
    using Cons.prems by (intro Cons.IH) simp
  ultimately show ?case by (simp add: option.map_comp comp_def algebra_simps)
next
  case Nil
  then show ?case by (cases "walk levels q") simp_all
qed

lemma walk_eq_None: "walk levels q = None \<longleftrightarrow> levels = [] \<or> levels_total levels < q"
proof (induction levels arbitrary: q)
  case (Cons level levels)
  show ?case
    using Cons.IH [of "q - quantity_raw (bl_quantity level)"] levels_total_nonneg [of levels] by auto
qed simp

lemma walk_nonempty: "walk levels q = Some fills \<Longrightarrow> fills \<noteq> []"
  by (cases levels) (auto split: if_splits)


lemma ladder_snoc:
  "ladder charge_buy_fill policy fills acc = Some (n, d, acc') \<Longrightarrow>
   ladder charge_buy_fill policy (fills @ (q, p) # rest) acc =
     (case charge_buy_fill q p policy acc' of None \<Rightarrow> None
      | Some (c, acc) \<Rightarrow> map_option (\<lambda>(n', d', acc). (n + cash_raw (fc_notional c) + n', d + cash_raw (fc_debit c) + d', acc))
          (ladder charge_buy_fill policy rest acc))"
  by (simp add: fees.ladder_append option.map_comp comp_def case_prod_unfold algebra_simps split: option.split)

definition leg_cost :: "int \<Rightarrow> (sized_leg \<Rightarrow> cash) \<Rightarrow> buy_depth list \<Rightarrow> int \<Rightarrow> int" where
  "leg_cost step field depth q = (\<Sum>leg \<leftarrow> depth. cash_raw (field (the (leg_offer step leg q))))"

lemma leg_cost_simps [simp]:
  "leg_cost step field [] q = 0"
  "leg_cost step field (leg # depth) q = cash_raw (field (the (leg_offer step leg q))) + leg_cost step field depth q"
  by (simp_all add: leg_cost_def)

subsection \<open>Checked legs\<close>

definition level_prices :: "buy_level list \<Rightarrow> int list" where
  "level_prices levels = map (\<lambda>level. price_raw (bl_price level)) levels"

lemma level_prices_simps [simp]:
  "level_prices [] = []" "level_prices (level # levels) = price_raw (bl_price level) # level_prices levels"
  "set (level_prices levels) = (\<lambda>level. price_raw (bl_price level)) ` set levels"
  by (simp_all add: level_prices_def)

definition leg_ok :: "buy_depth \<Rightarrow> bool" where
  "leg_ok leg \<longleftrightarrow> length (bd_levels leg) \<le> 10001 \<and> policy_ok (bd_fees leg) \<and>
     sorted_wrt (<) (level_prices (bd_levels leg)) \<and>
     (\<forall>level \<in> set (bd_levels leg). quantity_raw (bl_quantity level) \<noteq> 0)"

definition stepped :: "int \<Rightarrow> buy_depth \<Rightarrow> bool" where
  "stepped step leg \<longleftrightarrow> (step = 1 \<or> step = 100) \<and>
     (\<forall>level \<in> set (bd_levels leg). quantity_raw (bl_quantity level) mod step = 0)"

lemma stepped_1 [simp]: "stepped 1 leg"
  by (simp add: stepped_def)


subsection \<open>Offers within the depth\<close>

text \<open>The fills of a quantity within the depth: each positive and at most the quantity, at prices up to the last.\<close>

lemma walk_fills:
  assumes "walk levels q = Some fills" and "0 < q" and "q \<le> 100000000"
    and "sorted_wrt (<) (level_prices levels)" and "\<forall>level \<in> set levels. quantity_raw (bl_quantity level) \<noteq> 0"
  shows "(\<forall>(fq, p) \<in> set fills. 0 < quantity_raw fq \<and> quantity_raw fq \<le> q \<and> price_raw p \<le> price_raw (snd (last fills))) \<and>
    fills_quantity fills = q \<and> length fills \<le> length levels \<and> (\<exists>level \<in> set levels. snd (last fills) = bl_price level)"
  using assms
proof (induction levels arbitrary: q fills)
  case (Cons level levels)
  show ?case
  proof (cases "quantity_raw (bl_quantity level) < q")
    case False
    then show ?thesis using Cons.prems by auto
  next
    case True
    let ?fq = "bl_quantity level" and ?p = "bl_price level"
    obtain fills1 where fills: "walk levels (q - quantity_raw ?fq) = Some fills1" "fills = (?fq, ?p) # fills1"
      using Cons.prems(1) True by auto
    have nonempty: "fills1 \<noteq> []" using walk_nonempty [OF fills(1)] .
    have pos: "0 < quantity_raw ?fq" using Cons.prems(5) quantity_raw_bounds(1) [of ?fq] by (simp add: less_le)
    then have IH: "(\<forall>(fq, p) \<in> set fills1. 0 < quantity_raw fq \<and> quantity_raw fq \<le> q - quantity_raw ?fq \<and>
          price_raw p \<le> price_raw (snd (last fills1))) \<and>
        fills_quantity fills1 = q - quantity_raw ?fq \<and> length fills1 \<le> length levels \<and>
        (\<exists>level \<in> set levels. snd (last fills1) = bl_price level)"
      using Cons.prems True by (intro Cons.IH [OF fills(1)]) auto
    then have "price_raw ?p \<le> price_raw (snd (last fills1))"
      using Cons.prems(4) by (auto simp: less_imp_le)
    with IH pos True nonempty show ?thesis by (auto simp: fills(2))
  qed
qed simp

lemma walk_fills_step:
  "walk levels q = Some fills \<Longrightarrow> q mod step = 0 \<Longrightarrow> 0 < q \<Longrightarrow> q \<le> 9223372036854775807 \<Longrightarrow>
     \<forall>level \<in> set levels. quantity_raw (bl_quantity level) mod step = 0 \<Longrightarrow>
     \<forall>(fq, p) \<in> set fills. quantity_raw fq mod step = 0"
proof (induction levels arbitrary: q fills)
  case (Cons level levels)
  show ?case
  proof (cases "quantity_raw (bl_quantity level) < q")
    case True
    then obtain fills1 where fills: "walk levels (q - quantity_raw (bl_quantity level)) = Some fills1"
      "fills = (bl_quantity level, bl_price level) # fills1" using Cons.prems by auto
    have "(q - quantity_raw (bl_quantity level)) mod step = 0"
      using Cons.prems(2,5) by (simp add: mod_eq_0_iff_dvd)
    then have "\<forall>(fq, p) \<in> set fills1. quantity_raw fq mod step = 0"
      using Cons.prems True quantity_raw_bounds(1) [of "bl_quantity level"]
      by (intro Cons.IH [OF fills(1)]) (simp_all add: order_trans [of "q - quantity_raw (bl_quantity level)" q])
    then show ?thesis using Cons.prems(5) by (simp add: fills(2))
  qed (use Cons.prems in auto)
qed simp

lemma walk_limit_in: "walk levels q = Some fills \<Longrightarrow> \<exists>level \<in> set levels. snd (last fills) = bl_price level"
proof (induction levels arbitrary: q fills)
  case (Cons level levels)
  show ?case
  proof (cases "quantity_raw (bl_quantity level) < q")
    case True
    then obtain fills1 where fills: "walk levels (q - quantity_raw (bl_quantity level)) = Some fills1"
      "fills = (bl_quantity level, bl_price level) # fills1" using Cons.prems by auto
    show ?thesis using Cons.IH [OF fills(1)] walk_nonempty [OF fills(1)] by (auto simp: fills(2))
  qed (use Cons.prems in auto)
qed simp

lemma walk_limit_mono:
  "walk levels q = Some fills \<Longrightarrow> walk levels q' = Some fills' \<Longrightarrow> q \<le> q' \<Longrightarrow>
     sorted_wrt (<) (level_prices levels) \<Longrightarrow> price_raw (snd (last fills)) \<le> price_raw (snd (last fills'))"
proof (induction levels arbitrary: q q' fills fills')
  case (Cons level levels)
  let ?fq = "quantity_raw (bl_quantity level)"
  have after: "price_raw (bl_price level) \<le> price_raw (snd (last fills1))" if "walk levels r = Some fills1" for r fills1
  proof -
    have "\<exists>l \<in> set levels. snd (last fills1) = bl_price l" using that by (rule walk_limit_in)
    then show ?thesis using Cons.prems(4) by (auto simp: less_imp_le)
  qed
  show ?case
  proof (cases "?fq < q")
    case True
    then show ?thesis
      using Cons.prems Cons.IH [of "q - ?fq" _ "q' - ?fq"] walk_nonempty by auto
  next
    case False
    then show ?thesis using Cons.prems after [of "q' - ?fq"] walk_nonempty by (auto split: if_splits)
  qed
qed simp

lemma leg_offer_total:
  assumes "leg_ok leg" and "0 < q" and "q \<le> 100000000" and "q \<le> levels_total (bd_levels leg)"
    and "stepped step leg" and "q mod step = 0"
  shows "\<exists>fills n d acc. walk (bd_levels leg) q = Some fills \<and>
    ladder charge_buy_fill (bd_fees leg) fills \<lparr>rounding_micro = 0\<rparr> = Some (n, d, acc) \<and>
    leg_offer step leg q = Some \<lparr>sz_limit = snd (last fills), sz_notional = cash_at n, sz_debit = cash_at d,
      sz_reservation = cash_of (reserve_amount (bd_fees leg) step (price_raw (snd (last fills))) q)\<rparr>"
proof -
  have pol: "policy_ok (bd_fees leg)" and len: "length (bd_levels leg) \<le> 10001" using assms(1) by (simp_all add: leg_ok_def)
  have "bd_levels leg \<noteq> []" using assms(2,4) by auto
  then obtain fills where walk: "walk (bd_levels leg) q = Some fills"
    using assms(4) walk_eq_None [of "bd_levels leg" q] by (cases "walk (bd_levels leg) q") auto
  have fills: "\<forall>(fq, p) \<in> set fills. 0 < quantity_raw fq \<and> quantity_raw fq \<le> q" "length fills \<le> 10001"
    using walk_fills [OF walk assms(2)] assms len by (auto simp: leg_ok_def)
  have "\<forall>(fq, p) \<in> set fills. 0 < quantity_raw fq \<and> quantity_raw fq \<le> 100000000"
    using fills(1) assms(3) by fastforce
  then obtain n d acc where ladder: "ladder charge_buy_fill (bd_fees leg) fills \<lparr>rounding_micro = 0\<rparr> = Some (n, d, acc)"
    using fees.ladder_succeeds [OF pol, of fills "\<lparr>rounding_micro = 0\<rparr>"] fills(2) by fastforce
  have "reserve_ok (bd_fees leg) step q" using pol assms by (simp add: reserve_ok_def stepped_def)
  moreover have "0 \<le> step" "step \<le> 100" using assms(5) by (auto simp: stepped_def)
  ultimately show ?thesis
    using walk ladder assms(2,3) by (simp add: leg_offer_def buy_reservation_eq)
qed

text \<open>The reserve of an offer is the reserve at its limit, and at least its debit.\<close>

definition offer_limit :: "int \<Rightarrow> buy_depth \<Rightarrow> int \<Rightarrow> int" where
  "offer_limit step leg q = price_raw (sz_limit (the (leg_offer step leg q)))"

lemma offer_reserve:
  assumes "leg_ok leg" and "0 < q" and "q \<le> 100000000" and "q \<le> levels_total (bd_levels leg)"
    and "stepped step leg" and "q mod step = 0"
  shows "cash_raw (sz_reservation (the (leg_offer step leg q))) = reserve_amount (bd_fees leg) step (offer_limit step leg q) q"
    and "cash_raw (sz_debit (the (leg_offer step leg q))) \<le> cash_raw (sz_reservation (the (leg_offer step leg q)))"
    and "walk (bd_levels leg) q = Some fs \<Longrightarrow> fills_notional fs \<le> cash_raw (sz_debit (the (leg_offer step leg q)))"
proof -
  obtain fills n d acc where walk: "walk (bd_levels leg) q = Some fills"
    and ladder: "ladder charge_buy_fill (bd_fees leg) fills \<lparr>rounding_micro = 0\<rparr> = Some (n, d, acc)"
    and offer: "leg_offer step leg q = Some \<lparr>sz_limit = snd (last fills), sz_notional = cash_at n, sz_debit = cash_at d,
      sz_reservation = cash_of (reserve_amount (bd_fees leg) step (price_raw (snd (last fills))) q)\<rparr>"
    using leg_offer_total [OF assms] by blast
  have ok: "reserve_ok (bd_fees leg) step q" using assms by (simp add: reserve_ok_def leg_ok_def stepped_def)
  note bounds = reserve_amount_bounds [OF ok price_raw_bounds [of "snd (last fills)"]]
  then show reserve: "cash_raw (sz_reservation (the (leg_offer step leg q))) = reserve_amount (bd_fees leg) step (offer_limit step leg q) q"
    by (simp add: offer offer_limit_def)
  have fills: "fills_within step (price_raw (snd (last fills))) fills" "fills_quantity fills = q"
    using walk_fills [OF walk assms(2)] walk_fills_step [OF walk assms(6,2)] assms
    by (auto simp: leg_ok_def fills_within_def stepped_def)
  have q: "quantity_raw (quantity_value q) = q" "quantity_raw (quantity_value step) = step"
    using assms by (auto simp: stepped_def)
  have "d \<le> reserve_amount (bd_fees leg) step (price_raw (snd (last fills))) q"
    using reservation_covers_lemma [of "quantity_value step" "snd (last fills)" fills "quantity_value q" "bd_fees leg" _ "\<lparr>rounding_micro = 0\<rparr>" n d acc]
      fills ladder bounds ok by (simp add: q buy_reservation_eq)
  moreover have "0 \<le> fills_notional fills" unfolding fills_notional_def by (intro sum_list_nonneg) auto
  moreover have "fills_notional fills \<le> d" using fees.ladder_accounts [OF ladder] by linarith
  ultimately show "cash_raw (sz_debit (the (leg_offer step leg q))) \<le> cash_raw (sz_reservation (the (leg_offer step leg q)))"
    and "walk (bd_levels leg) q = Some fs \<Longrightarrow> fills_notional fs \<le> cash_raw (sz_debit (the (leg_offer step leg q)))"
    using bounds by (simp_all add: offer walk)
qed

text \<open>No level below the first, so no offer below its price.\<close>

lemma walk_lowest:
  assumes "walk levels q = Some fills" and "0 < q" and "q \<le> 100000000"
    and "\<forall>level \<in> set levels. p \<le> price_raw (bl_price level)"
  shows "q * p \<le> fills_notional fills"
  using assms
proof (induction levels arbitrary: q fills)
  case (Cons level levels)
  have p: "p \<le> price_raw (bl_price level)" using Cons.prems(4) by simp
  show ?case
  proof (cases "quantity_raw (bl_quantity level) < q")
    case True
    then obtain fills1 where fills: "walk levels (q - quantity_raw (bl_quantity level)) = Some fills1"
      "fills = (bl_quantity level, bl_price level) # fills1" using Cons.prems(1) by auto
    have below: "q - quantity_raw (bl_quantity level) \<le> 100000000"
      using Cons.prems(3) quantity_raw_bounds(1) [of "bl_quantity level"] by linarith
    have "(q - quantity_raw (bl_quantity level)) * p \<le> fills_notional fills1"
      using Cons.prems(4) True below by (intro Cons.IH [OF fills(1)]) auto
    moreover have "quantity_raw (bl_quantity level) * p \<le> quantity_raw (bl_quantity level) * price_raw (bl_price level)"
      using p by (simp add: mult_left_mono)
    ultimately show ?thesis by (simp add: fills(2) algebra_simps)
  next
    case False
    then have "fills = [(quantity_value q, bl_price level)]" using Cons.prems(1) by simp
    then show ?thesis using p Cons.prems(2,3) by (simp add: mult_left_mono)
  qed
qed simp

lemma offer_lowest:
  assumes "leg_ok leg" and "0 < q" and "q \<le> 100000000" and "q \<le> levels_total (bd_levels leg)"
    and "stepped step leg" and "q mod step = 0" and "bd_levels leg = level # levels"
  shows "q * price_raw (bl_price level) \<le> cash_raw (sz_debit (the (leg_offer step leg q)))"
proof -
  obtain fills where walk: "walk (bd_levels leg) q = Some fills" using leg_offer_total [OF assms(1-6)] by blast
  have "\<forall>l \<in> set (bd_levels leg). price_raw (bl_price level) \<le> price_raw (bl_price l)"
    using assms(1,7) by (auto simp: leg_ok_def less_imp_le)
  from walk_lowest [OF walk assms(2,3) this] offer_reserve(3) [OF assms(1-6) walk] show ?thesis by simp
qed

lemma offer_limit_nonneg [simp]: "0 \<le> offer_limit step leg q"
  by (simp add: offer_limit_def)

lemma offer_limit_mono:
  assumes "leg_ok leg" and "0 < q" and "q \<le> q'" and "q' \<le> 100000000" and "q' \<le> levels_total (bd_levels leg)"
    and "stepped step leg" and "q mod step = 0" and "q' mod step = 0"
  shows "offer_limit step leg q \<le> offer_limit step leg q'"
proof -
  obtain fills where "walk (bd_levels leg) q = Some fills" "offer_limit step leg q = price_raw (snd (last fills))"
    using leg_offer_total [of leg q step] assms by (auto simp: offer_limit_def)
  moreover obtain fills' where "walk (bd_levels leg) q' = Some fills'" "offer_limit step leg q' = price_raw (snd (last fills'))"
    using leg_offer_total [of leg q' step] assms by (auto simp: offer_limit_def)
  ultimately show ?thesis
    using walk_limit_mono [of "bd_levels leg" q fills q' fills'] assms by (simp add: leg_ok_def)
qed

definition depth_covers :: "int \<Rightarrow> buy_depth list \<Rightarrow> int \<Rightarrow> bool" where
  "depth_covers step depth q \<longleftrightarrow> (\<forall>leg \<in> set depth. leg_ok leg \<and> stepped step leg \<and> q \<le> levels_total (bd_levels leg))"

lemma reserve_legs:
  assumes "depth_covers step depth q" and "0 < q" and "q \<le> 100000000" and "q mod step = 0"
  shows "leg_cost step sz_reservation depth q = funds.legs_reserve step (map (\<lambda>leg. (bd_fees leg, offer_limit step leg q)) depth) q"
  using assms(1) offer_reserve(1) [OF _ assms(2,3) _ _ assms(4)]
  by (induction depth) (auto simp: depth_covers_def funds.legs_reserve_def)

lemma debit_le_reserve:
  assumes "depth_covers step depth q" and "0 < q" and "q \<le> 100000000" and "q mod step = 0"
  shows "leg_cost step sz_debit depth q \<le> leg_cost step sz_reservation depth q"
  using assms(1)
proof (induction depth)
  case (Cons leg depth)
  then show ?case using offer_reserve(2) [OF _ assms(2,3) _ _ assms(4), of leg] by (simp add: depth_covers_def add_mono)
qed simp

lemma funding_prefix:
  assumes "depth_covers step depth q'" and "0 < q" and "q \<le> q'" and "q' \<le> 100000000"
    and "q mod step = 0" and "q' mod step = 0" and "cash < leg_cost step sz_reservation depth q"
  shows "cash < leg_cost step sz_reservation depth q'"
proof -
  have covers: "depth_covers step depth q" using assms(1,3) by (auto simp: depth_covers_def)
  have reserve: "cash < funds.legs_reserve step (map (\<lambda>leg. (bd_fees leg, offer_limit step leg q)) depth) q"
    using assms(7) reserve_legs [OF covers assms(2)] assms by simp
  have "list_all2 (\<lambda>(fee, limit) (fee', limit'). fee = fee' \<and> 0 \<le> limit \<and> limit \<le> limit' \<and> reserve_ok fee step q')
      (map (\<lambda>leg. (bd_fees leg, offer_limit step leg q)) depth) (map (\<lambda>leg. (bd_fees leg, offer_limit step leg q')) depth)"
    using assms offer_limit_mono [OF _ assms(2,3,4) _ _ assms(5,6)]
    by (auto simp: list_all2_map1 list_all2_map2 list_all2_same depth_covers_def reserve_ok_def leg_ok_def stepped_def)
  from funds.funded_prefix [OF this _ assms(3) reserve] show ?thesis
    using assms reserve_legs [OF assms(1)] by simp
qed

text \<open>A leg for the witnesses: one contract at one cent, without a trade fee.\<close>

definition cent_leg :: buy_depth where
  "cent_leg = \<lparr>bd_levels = [\<lparr>bl_price = price_of 100, bl_quantity = quantity_of 100\<rparr>],
     bd_fees = \<lparr>coefficient_ppm = 0, balance_quantum_micro = 100\<rparr>\<rparr>"

lemma cent_charge:
  "charge_buy_fill (quantity_of 100) (price_of 100) \<lparr>coefficient_ppm = 0, balance_quantum_micro = 100\<rparr> \<lparr>rounding_micro = 0\<rparr> =
     Some (\<lparr>fc_notional = cash_of 10000, fc_trade_fee = cash_of 0, fc_rounding_fee = cash_of 0, fc_rebate = cash_of 0,
            fc_debit = cash_of 10000\<rparr>, \<lparr>rounding_micro = 0\<rparr>)"
  by (simp add: charge_buy_fill_def fill_amounts_spec policy_ok_def fill_fits_def fill_spec_def fill_total_def
      fill_rounding_def trade_fee_def fill_result_def)

end
