(* ===== verification/Basket_Sizing.thy ===== *)
theory Basket_Sizing
  imports Leg_Offer
begin

text \<open>
  The sizing of a three-leg basket, after \<open>include/eme/core/basket_sizing.hpp\<close> and
  \<open>src/core/basket_sizing.cpp\<close>. The array of three legs is a list; nothing in the routine but
  the payout floor depends on its length. \<open>leg_offer\<close> is the reference: what a leg costs at a
  quantity, computed afresh. Shown: the cursors that are carried from one quantity to the next
  compute it, and the routine returns the best quantity of the whole grid.
\<close>

subsection \<open>Data\<close>

record sized_basket =
  sb_quantity :: quantity
  sb_legs :: "sized_leg list"
  sb_payout_floor :: cash
  sb_net_margin_micro :: int

record basket_sizing_result =
  br_status :: sizing_status
  br_quote :: "sized_basket option"
  br_one_contract_diagnostic :: "sized_basket option"
  br_evaluated_quantities :: u64

definition basket_maximum_quantity :: int where "basket_maximum_quantity = 10000"
definition basket_quantity_step :: int where "basket_quantity_step = 100"
definition basket_maximum_cash :: int where "basket_maximum_cash = 1000000000000000"

declare basket_maximum_quantity_def [limits] basket_quantity_step_def [limits] basket_maximum_cash_def [limits]

record cost_cursor =
  cc_depth :: buy_depth
  cc_index :: nat
  cc_prefix_quantity :: int
  cc_prefix_notional :: int
  cc_prefix_debit :: int
  cc_accumulator :: fee_accumulator

abbreviation cc_levels :: "cost_cursor \<Rightarrow> buy_level list" where
  "cc_levels cursor \<equiv> bd_levels (cc_depth cursor)"


subsection \<open>Operations\<close>

text \<open>The loop of \<open>CostCursor::at\<close> over the levels that the quantity uses up; \<open>None\<close> is its early return.\<close>

function consume_levels :: "int \<Rightarrow> cost_cursor \<Rightarrow> cost_cursor option" where
  "consume_levels qty cursor =
     (if cc_index cursor < length (cc_levels cursor) \<and>
         quantity_raw (bl_quantity (cc_levels cursor ! cc_index cursor)) < qty - cc_prefix_quantity cursor
      then
        let level = cc_levels cursor ! cc_index cursor
        in case charge_buy_fill (bl_quantity level) (bl_price level) (bd_fees (cc_depth cursor)) (cc_accumulator cursor) of
             None \<Rightarrow> None
           | Some (charge, acc) \<Rightarrow>
               consume_levels qty (cursor\<lparr>
                 cc_accumulator := acc,
                 cc_prefix_quantity := cc_prefix_quantity cursor + quantity_raw (bl_quantity level),
                 cc_prefix_notional := cc_prefix_notional cursor + cash_raw (fc_notional charge),
                 cc_prefix_debit := cc_prefix_debit cursor + cash_raw (fc_debit charge),
                 cc_index := Suc (cc_index cursor)\<rparr>)
      else Some cursor)"
  by pat_completeness auto
termination
  by (relation "measure (\<lambda>(_, cursor). length (cc_levels cursor) - cc_index cursor)") auto

declare consume_levels.simps [simp del]

definition cursor_at :: "int \<Rightarrow> cost_cursor \<Rightarrow> (sized_leg \<times> cost_cursor) option" where
  "cursor_at qty cursor =
     (case consume_levels qty cursor of None \<Rightarrow> None
      | Some cursor \<Rightarrow>
          if cc_index cursor = length (cc_levels cursor) then None
          else
            let level = cc_levels cursor ! cc_index cursor;
                charge = charge_buy_fill (quantity_value (qty - cc_prefix_quantity cursor))
                  (bl_price level) (bd_fees (cc_depth cursor)) (cc_accumulator cursor);
                reserve = buy_reservation (quantity_value qty) (quantity_value 1)
                  (bl_price level) (bd_fees (cc_depth cursor))
            in case (charge, reserve) of
                 (Some (charge, _), Some reserve) \<Rightarrow>
                   Some (\<lparr>sz_limit = bl_price level,
                          sz_notional = cash_at (cc_prefix_notional cursor + cash_raw (fc_notional charge)),
                          sz_debit = cash_at (cc_prefix_debit cursor + cash_raw (fc_debit charge)),
                          sz_reservation = reserve\<rparr>, cursor)
               | _ \<Rightarrow> None)"

text \<open>The input checks: ascending prices, no empty level, and the depth up to the cap.\<close>

fun scan_levels :: "int \<Rightarrow> int \<Rightarrow> int \<Rightarrow> buy_level list \<Rightarrow> int option" where
  "scan_levels cap previous depth_total [] = Some depth_total"
| "scan_levels cap previous depth_total (level # levels) =
     (if price_raw (bl_price level) \<le> previous \<or> quantity_raw (bl_quantity level) = 0 then None
      else scan_levels cap (price_raw (bl_price level))
        (min cap (depth_total + min (quantity_raw (bl_quantity level)) cap)) levels)"

fun scan_legs :: "int \<Rightarrow> int \<Rightarrow> buy_depth list \<Rightarrow> int option" where
  "scan_legs cap available [] = Some available"
| "scan_legs cap available (leg # legs) =
     (if 10001 < length (bd_levels leg) \<or> 1000000 < coefficient_ppm (bd_fees leg) \<or>
         (balance_quantum_micro (bd_fees leg) \<noteq> 100 \<and> balance_quantum_micro (bd_fees leg) \<noteq> 10000)
      then None
      else case scan_levels cap (-1) 0 (bd_levels leg) of None \<Rightarrow> None
        | Some depth_total \<Rightarrow> scan_legs cap (min available depth_total) legs)"

text \<open>Evaluation compares the count of levels as an integer.\<close>

lemma scan_legs_code [code]:
  "scan_legs cap available [] = Some available"
  "scan_legs cap available (leg # legs) =
     (if 10001 < int (length (bd_levels leg)) \<or> 1000000 < coefficient_ppm (bd_fees leg) \<or>
         (balance_quantum_micro (bd_fees leg) \<noteq> 100 \<and> balance_quantum_micro (bd_fees leg) \<noteq> 10000)
      then None
      else case scan_levels cap (-1) 0 (bd_levels leg) of None \<Rightarrow> None
        | Some depth_total \<Rightarrow> scan_legs cap (min available depth_total) legs)"
  by simp_all

text \<open>One quantity on every leg: the legs, and the sums of their debits and reserves.\<close>

fun legs_at :: "int \<Rightarrow> cost_cursor list \<Rightarrow> (sized_leg list \<times> int \<times> int \<times> cost_cursor list) option" where
  "legs_at q [] = Some ([], 0, 0, [])"
| "legs_at q (cursor # cursors) =
     (case cursor_at q cursor of None \<Rightarrow> None
      | Some (leg, cursor) \<Rightarrow>
          (case legs_at q cursors of None \<Rightarrow> None
           | Some (legs, debit, reserve, cursors) \<Rightarrow>
               Some (leg # legs, cash_raw (sz_debit leg) + debit, cash_raw (sz_reservation leg) + reserve,
                     cursor # cursors)))"

record basket_search =
  bk_result :: basket_sizing_result
  bk_cursors :: "cost_cursor list"
  bk_best :: "sized_basket option"
  bk_best_reserve :: int
  bk_funded :: bool

text \<open>The loop over the grid; \<open>Inl\<close> is a return from within it.\<close>

function basket_loop :: "sizing_limits \<Rightarrow> int \<Rightarrow> int \<Rightarrow> basket_search \<Rightarrow> basket_sizing_result + basket_search" where
  "basket_loop limits available q s =
     (if \<not> q \<le> available then Inr s
      else
        let result = bk_result s in
        if br_evaluated_quantities result = sl_max_evaluations limits
        then Inl (result\<lparr>br_status := Search_Budget_Exceeded\<rparr>)
        else
          let result = result\<lparr>br_evaluated_quantities := br_evaluated_quantities result + 1\<rparr>
          in case legs_at q (bk_cursors s) of
               None \<Rightarrow> Inl (result\<lparr>br_status := Arithmetic_Error\<rparr>)
             | Some (legs, debit, reserve, cursors) \<Rightarrow>
                 let payout = cash_at (q * 20000);
                     margin = cash_raw payout - debit;
                     value = \<lparr>sb_quantity = quantity_value q, sb_legs = legs,
                       sb_payout_floor = payout, sb_net_margin_micro = margin\<rparr>;
                     result = (if q = basket_quantity_step
                               then result\<lparr>br_one_contract_diagnostic := Some value\<rparr> else result);
                     s = s\<lparr>bk_result := result, bk_cursors := cursors\<rparr>
                 in if cash_raw (sl_available limits) < reserve then Inr s
                    else
                      let s = s\<lparr>bk_funded := True\<rparr>;
                          s = (if cash_raw (sl_minimum_margin limits) < margin \<and>
                                 (case bk_best s of None \<Rightarrow> True
                                  | Some best \<Rightarrow>
                                      sb_net_margin_micro best < margin \<or>
                                      (margin = sb_net_margin_micro best \<and>
                                       (reserve < bk_best_reserve s \<or>
                                        (reserve = bk_best_reserve s \<and> q < quantity_raw (sb_quantity best)))))
                               then s\<lparr>bk_best := Some value, bk_best_reserve := reserve\<rparr> else s)
                      in basket_loop limits available (q + basket_quantity_step) s)"
  by pat_completeness auto
termination
  by (relation "measure (\<lambda>(_, available, q, _). nat (available + 1 - q))") (auto simp: limits)

declare basket_loop.simps [simp del]

definition invalid_basket :: basket_sizing_result where
  "invalid_basket = \<lparr>br_status = Invalid_Input, br_quote = None, br_one_contract_diagnostic = None,
     br_evaluated_quantities = 0\<rparr>"

definition fresh_cursor :: "buy_depth \<Rightarrow> cost_cursor" where
  "fresh_cursor depth = \<lparr>cc_depth = depth, cc_index = 0, cc_prefix_quantity = 0, cc_prefix_notional = 0,
     cc_prefix_debit = 0, cc_accumulator = \<lparr>rounding_micro = 0\<rparr>\<rparr>"

definition size_buy_basket :: "buy_depth list \<Rightarrow> sizing_limits \<Rightarrow> basket_sizing_result" where
  "size_buy_basket depth limits =
     (let cap = quantity_raw (sl_cap limits) in
      if cap < basket_quantity_step \<or> basket_maximum_quantity < cap \<or> cap mod basket_quantity_step \<noteq> 0 \<or>
         quantity_raw (sl_step limits) \<noteq> basket_quantity_step \<or>
         basket_maximum_cash < cash_raw (sl_available limits) \<or>
         basket_maximum_cash < cash_raw (sl_minimum_margin limits) \<or> sl_max_evaluations limits = 0
      then invalid_basket
      else case scan_legs cap cap depth of
        None \<Rightarrow> invalid_basket
      | Some available \<Rightarrow>
          if available < basket_quantity_step then invalid_basket\<lparr>br_status := No_Depth\<rparr>
          else
            case basket_loop limits available basket_quantity_step
              \<lparr>bk_result = invalid_basket\<lparr>br_status := No_Positive_Margin\<rparr>, bk_cursors = map fresh_cursor depth,
               bk_best = None, bk_best_reserve = 0, bk_funded = False\<rparr> of
              Inl result \<Rightarrow> result
            | Inr s \<Rightarrow>
                if bk_best s \<noteq> None then (bk_result s)\<lparr>br_status := Optimal, br_quote := bk_best s\<rparr>
                else if \<not> bk_funded s then (bk_result s)\<lparr>br_status := Insufficient_Cash\<rparr>
                else bk_result s)"


subsection \<open>The cursors compute the offers\<close>

definition cursor_inv :: "buy_depth \<Rightarrow> int \<Rightarrow> cost_cursor \<Rightarrow> bool" where
  "cursor_inv depth q cursor \<longleftrightarrow>
     cc_depth cursor = depth \<and> cc_index cursor \<le> length (bd_levels depth) \<and>
     cc_prefix_quantity cursor = levels_total (take (cc_index cursor) (bd_levels depth)) \<and>
     cc_prefix_quantity cursor < q \<and>
     ladder charge_buy_fill (bd_fees depth) (whole (take (cc_index cursor) (bd_levels depth))) \<lparr>rounding_micro = 0\<rparr> =
       Some (cc_prefix_notional cursor, cc_prefix_debit cursor, cc_accumulator cursor)"

lemma cursor_inv_mono: "cursor_inv depth q cursor \<Longrightarrow> q \<le> q' \<Longrightarrow> cursor_inv depth q' cursor"
  by (auto simp: cursor_inv_def)

lemma cursor_inv_fresh: "0 < q \<Longrightarrow> cursor_inv depth q (fresh_cursor depth)"
  by (simp add: cursor_inv_def fresh_cursor_def)

lemma consume_levels_inv:
  "cursor_inv depth q cursor \<Longrightarrow>
     (case consume_levels q cursor of None \<Rightarrow> leg_offer 1 depth q = None
      | Some cursor' \<Rightarrow> cursor_inv depth q cursor' \<and>
          (cc_index cursor' < length (bd_levels depth) \<longrightarrow>
             q - cc_prefix_quantity cursor' \<le> quantity_raw (bl_quantity (bd_levels depth ! cc_index cursor'))))"
proof (induction q cursor rule: consume_levels.induct)
  case (1 q cursor)
  let ?levels = "bd_levels depth" and ?k = "cc_index cursor"
  have depth: "cc_depth cursor = depth" using "1.prems" by (simp add: cursor_inv_def)
  show ?case
  proof (cases "?k < length ?levels \<and> quantity_raw (bl_quantity (?levels ! ?k)) < q - cc_prefix_quantity cursor")
    case False
    then show ?thesis using "1.prems" depth by (subst consume_levels.simps) auto
  next
    case True
    define level where "level = ?levels ! ?k"
    have split: "take (Suc ?k) ?levels = take ?k ?levels @ [level]"
      using True by (simp add: level_def take_Suc_conv_app_nth)
    have levels: "?levels = (take ?k ?levels @ [level]) @ drop (Suc ?k) ?levels"
      by (simp flip: split)
    have total: "levels_total (take ?k ?levels @ [level]) < q"
      using "1.prems" True by (simp add: cursor_inv_def level_def)
    have walk: "walk ?levels q = map_option (\<lambda>fills. whole (take ?k ?levels @ [level]) @ fills)
        (walk (drop (Suc ?k) ?levels) (q - levels_total (take ?k ?levels @ [level])))"
      using walk_append [OF total, of "drop (Suc ?k) ?levels"] by (simp only: levels [symmetric])
    note ladder = ladder_snoc [of "bd_fees depth" "whole (take ?k ?levels)" "\<lparr>rounding_micro = 0\<rparr>"
      "cc_prefix_notional cursor" "cc_prefix_debit cursor" "cc_accumulator cursor" "bl_quantity level" "bl_price level"]
    have prefix: "ladder charge_buy_fill (bd_fees depth) (whole (take ?k ?levels)) \<lparr>rounding_micro = 0\<rparr> =
       Some (cc_prefix_notional cursor, cc_prefix_debit cursor, cc_accumulator cursor)"
      using "1.prems" by (simp add: cursor_inv_def)
    show ?thesis
    proof (cases "charge_buy_fill (bl_quantity level) (bl_price level) (bd_fees depth) (cc_accumulator cursor)")
      case None
      then have "consume_levels q cursor = None"
        using True depth by (subst consume_levels.simps) (simp add: level_def)
      moreover have "leg_offer 1 depth q = None"
      proof (cases "walk (drop (Suc ?k) ?levels) (q - levels_total (take ?k ?levels @ [level]))")
        case (Some fills)
        have "walk ?levels q = Some (whole (take ?k ?levels @ [level]) @ fills)"
          using walk Some by simp
        moreover have "ladder charge_buy_fill (bd_fees depth) (whole (take ?k ?levels @ [level]) @ fills) \<lparr>rounding_micro = 0\<rparr> = None"
          using ladder [OF prefix, of fills] None by simp
        ultimately show ?thesis by (simp add: leg_offer_def)
      next
        case None
        then show ?thesis
          using walk by (simp add: leg_offer_def)
      qed
      ultimately show ?thesis by simp
    next
      case (Some result)
      obtain charge acc where result: "result = (charge, acc)" by force
      define cursor' where "cursor' = cursor\<lparr>cc_accumulator := acc,
          cc_prefix_quantity := cc_prefix_quantity cursor + quantity_raw (bl_quantity level),
          cc_prefix_notional := cc_prefix_notional cursor + cash_raw (fc_notional charge),
          cc_prefix_debit := cc_prefix_debit cursor + cash_raw (fc_debit charge), cc_index := Suc ?k\<rparr>"
      have inv: "cursor_inv depth q cursor'"
        using "1.prems" True total ladder [OF prefix, of "[]"] Some
        by (simp add: cursor_inv_def cursor'_def split result)
      have step: "consume_levels q cursor = consume_levels q cursor'"
        using True depth Some by (subst consume_levels.simps) (simp add: level_def cursor'_def result)
      have "case consume_levels q cursor' of None \<Rightarrow> leg_offer 1 depth q = None
      | Some cursor' \<Rightarrow> cursor_inv depth q cursor' \<and>
          (cc_index cursor' < length (bd_levels depth) \<longrightarrow>
             q - cc_prefix_quantity cursor' \<le> quantity_raw (bl_quantity (bd_levels depth ! cc_index cursor')))"
        unfolding cursor'_def
        by (rule "1.IH" [OF _ _ _ refl]) (use True depth Some inv in \<open>simp_all add: level_def result cursor'_def\<close>)
      then show ?thesis unfolding step .
    qed
  qed
qed

lemma cursor_at_offer:
  assumes "cursor_inv depth q cursor"
  shows "case cursor_at q cursor of None \<Rightarrow> leg_offer 1 depth q = None
    | Some (leg, cursor') \<Rightarrow> leg_offer 1 depth q = Some leg \<and> cursor_inv depth q cursor'"
proof (cases "consume_levels q cursor")
  case None
  then show ?thesis using consume_levels_inv [OF assms] by (simp add: cursor_at_def)
next
  case (Some cur)
  let ?levels = "bd_levels depth" and ?k = "cc_index cur"
  have inv: "cursor_inv depth q cur"
    and enough: "?k < length ?levels \<Longrightarrow> q - cc_prefix_quantity cur \<le> quantity_raw (bl_quantity (?levels ! ?k))"
    using consume_levels_inv [OF assms] Some by auto
  then have depth: "cc_depth cur = depth" and total: "levels_total (take ?k ?levels) < q"
    and prefix: "cc_prefix_quantity cur = levels_total (take ?k ?levels)"
    and ladder: "ladder charge_buy_fill (bd_fees depth) (whole (take ?k ?levels)) \<lparr>rounding_micro = 0\<rparr> =
       Some (cc_prefix_notional cur, cc_prefix_debit cur, cc_accumulator cur)"
    and k: "?k \<le> length ?levels"
    by (simp_all add: cursor_inv_def)
  show ?thesis
  proof (cases "?k = length ?levels")
    case True
    then have "walk ?levels q = None" using total by (simp add: walk_eq_None)
    then show ?thesis using True Some depth by (simp add: cursor_at_def leg_offer_def)
  next
    case False
    define level where "level = ?levels ! ?k"
    have drop: "drop ?k ?levels = level # drop (Suc ?k) ?levels"
      using False k by (simp add: level_def Cons_nth_drop_Suc)
    define last_qty where "last_qty = quantity_value (q - cc_prefix_quantity cur)"
    have "walk (take ?k ?levels @ drop ?k ?levels) q =
        Some (whole (take ?k ?levels) @ [(last_qty, bl_price level)])"
      using walk_append [OF total, of "drop ?k ?levels"] enough False k
      by (simp add: drop level_def last_qty_def prefix)
    then have walk: "walk ?levels q = Some (whole (take ?k ?levels) @ [(last_qty, bl_price level)])" by simp
    show ?thesis
      using ladder_snoc [OF ladder, of last_qty "bl_price level" "[]"] inv False
      by (simp add: cursor_at_def Some depth leg_offer_def walk Let_def split: option.split flip: level_def last_qty_def)
  qed
qed

lemma legs_at_offers:
  assumes "list_all2 (\<lambda>leg. cursor_inv leg q) depth cursors" and "\<forall>leg \<in> set depth. leg_offer 1 leg q \<noteq> None"
  shows "\<exists>cursors'. legs_at q cursors = Some (map (\<lambda>leg. the (leg_offer 1 leg q)) depth,
      leg_cost 1 sz_debit depth q, leg_cost 1 sz_reservation depth q, cursors') \<and>
    list_all2 (\<lambda>leg. cursor_inv leg q) depth cursors'"
  using assms
proof (induction rule: list_all2_induct)
  case (Cons leg depth cursor cursors)
  then obtain offer cursor' where "leg_offer 1 leg q = Some offer" "cursor_at q cursor = Some (offer, cursor')" "cursor_inv leg q cursor'"
    using cursor_at_offer [OF Cons.hyps(1)] by (auto split: option.splits)
  with Cons show ?case by auto
qed simp


subsection \<open>The input checks\<close>

lemma scan_levels_eq:
  "0 \<le> depth_total \<Longrightarrow> depth_total \<le> cap \<Longrightarrow> scan_levels cap previous depth_total levels =
     (if sorted_wrt (<) (previous # level_prices levels) \<and>
         (\<forall>level \<in> set levels. quantity_raw (bl_quantity level) \<noteq> 0)
      then Some (min cap (depth_total + levels_total levels)) else None)"
proof (induction levels arbitrary: previous depth_total)
  case (Cons level levels)
  define t where "t = min cap (depth_total + min (quantity_raw (bl_quantity level)) cap)"
  have t: "0 \<le> t" "t \<le> cap" using Cons.prems by (auto simp: t_def)
  have sum: "min cap (t + levels_total levels) = min cap (depth_total + levels_total (level # levels))"
    using Cons.prems levels_total_nonneg [of levels] quantity_raw_bounds(1) [of "bl_quantity level"]
    by (auto simp: t_def min_def)
  have sorted: "sorted_wrt (<) (previous # level_prices (level # levels)) \<longleftrightarrow>
      previous < price_raw (bl_price level) \<and> sorted_wrt (<) (price_raw (bl_price level) # level_prices levels)"
    by auto
  show ?case
    unfolding sorted using Cons.IH [OF t, of "price_raw (bl_price level)"] by (auto simp: sum [simplified] simp flip: t_def)
qed simp

lemma scan_legs_Some:
  "0 \<le> cap \<Longrightarrow> scan_legs cap available depth = Some a \<longleftrightarrow>
     (\<forall>leg \<in> set depth. leg_ok leg) \<and>
     a = foldl (\<lambda>a leg. min a (min cap (levels_total (bd_levels leg)))) available depth"
proof (induction depth arbitrary: available)
  case (Cons leg depth)
  have sorted: "sorted_wrt (<) (-1 # level_prices (bd_levels leg)) \<longleftrightarrow>
      sorted_wrt (<) (level_prices (bd_levels leg))"
    by (auto intro: order_less_le_trans [of _ 0])
  have fees: "(1000000 < coefficient_ppm (bd_fees leg) \<or>
      (balance_quantum_micro (bd_fees leg) \<noteq> 100 \<and> balance_quantum_micro (bd_fees leg) \<noteq> 10000)) \<longleftrightarrow> \<not> policy_ok (bd_fees leg)"
    by (auto simp: policy_ok_def)
  show ?case
  proof (cases "leg_ok leg")
    case True
    then have "scan_levels cap (-1) 0 (bd_levels leg) = Some (min cap (levels_total (bd_levels leg)))"
      using scan_levels_eq [of 0 cap "-1" "bd_levels leg"] Cons.prems sorted by (simp add: leg_ok_def)
    then show ?thesis using True fees Cons.IH [OF Cons.prems] by (auto simp: leg_ok_def)
  next
    case False
    then have "scan_legs cap available (leg # depth) = None"
      using scan_levels_eq [of 0 cap "-1" "bd_levels leg"] Cons.prems sorted fees by (auto simp: leg_ok_def)
    then show ?thesis using False by simp
  qed
qed auto

lemma le_foldl_min:
  "(q :: int) \<le> foldl (\<lambda>a leg. min a (f leg)) a legs \<longleftrightarrow> q \<le> a \<and> (\<forall>leg \<in> set legs. q \<le> f leg)"
  by (induction legs arbitrary: a) auto


subsection \<open>The best basket\<close>

definition basket_margin :: "buy_depth list \<Rightarrow> int \<Rightarrow> int" where
  "basket_margin depth q = q * 20000 - leg_cost 1 sz_debit depth q"

definition basket_reserve :: "buy_depth list \<Rightarrow> int \<Rightarrow> int" where
  "basket_reserve depth q = leg_cost 1 sz_reservation depth q"

definition basket_value :: "buy_depth list \<Rightarrow> int \<Rightarrow> sized_basket" where
  "basket_value depth q =
     \<lparr>sb_quantity = quantity_value q, sb_legs = map (\<lambda>leg. the (leg_offer 1 leg q)) depth,
      sb_payout_floor = cash_at (q * 20000), sb_net_margin_micro = basket_margin depth q\<rparr>"

definition basket_grid :: "buy_depth list \<Rightarrow> sizing_limits \<Rightarrow> int \<Rightarrow> bool" where
  "basket_grid depth limits q \<longleftrightarrow> 0 < q \<and> q mod 100 = 0 \<and> q \<le> quantity_raw (sl_cap limits) \<and> depth_covers 1 depth q"

definition basket_funded :: "buy_depth list \<Rightarrow> sizing_limits \<Rightarrow> int \<Rightarrow> bool" where
  "basket_funded depth limits q \<longleftrightarrow> basket_reserve depth q \<le> cash_raw (sl_available limits)"

definition basket_candidate :: "buy_depth list \<Rightarrow> sizing_limits \<Rightarrow> int \<Rightarrow> bool" where
  "basket_candidate depth limits q \<longleftrightarrow> basket_grid depth limits q \<and> basket_funded depth limits q \<and>
     cash_raw (sl_minimum_margin limits) < basket_margin depth q"

definition basket_preferred :: "buy_depth list \<Rightarrow> int \<Rightarrow> int \<Rightarrow> bool" where
  "basket_preferred depth q q' \<longleftrightarrow>
     basket_margin depth q' < basket_margin depth q \<or>
     (basket_margin depth q' = basket_margin depth q \<and>
      (basket_reserve depth q < basket_reserve depth q' \<or> (basket_reserve depth q = basket_reserve depth q' \<and> q \<le> q')))"

lemma basket_preferred_refl [simp]: "basket_preferred depth q q"
  by (simp add: basket_preferred_def)

lemma basket_preferred_trans:
  "basket_preferred depth q q' \<Longrightarrow> basket_preferred depth q' q'' \<Longrightarrow> basket_preferred depth q q''"
  by (auto simp: basket_preferred_def)

definition best_below :: "buy_depth list \<Rightarrow> sizing_limits \<Rightarrow> int \<Rightarrow> basket_search \<Rightarrow> bool" where
  "best_below depth limits q s \<longleftrightarrow>
     (case bk_best s of
        None \<Rightarrow> \<forall>q'. q' < q \<longrightarrow> \<not> basket_candidate depth limits q'
      | Some best \<Rightarrow> \<exists>qb. best = basket_value depth qb \<and> qb < q \<and> basket_candidate depth limits qb \<and>
          bk_best_reserve s = basket_reserve depth qb \<and>
          (\<forall>q'. q' < q \<longrightarrow> basket_candidate depth limits q' \<longrightarrow> basket_preferred depth qb q'))"

definition loop_inv :: "buy_depth list \<Rightarrow> sizing_limits \<Rightarrow> int \<Rightarrow> int \<Rightarrow> basket_search \<Rightarrow> bool" where
  "loop_inv depth limits available q s \<longleftrightarrow>
     0 < q \<and> q mod 100 = 0 \<and> q \<le> available + 100 \<and>
     list_all2 (\<lambda>leg. cursor_inv leg q) depth (bk_cursors s) \<and>
     br_status (bk_result s) = No_Positive_Margin \<and> br_quote (bk_result s) = None \<and>
     br_one_contract_diagnostic (bk_result s) = (if 100 < q then Some (basket_value depth 100) else None) \<and>
     br_evaluated_quantities (bk_result s) = of_int (q div 100 - 1) \<and>
     (bk_funded s \<longleftrightarrow> 100 < q) \<and> best_below depth limits q s \<and>
     (\<forall>q'. 0 < q' \<and> q' mod 100 = 0 \<and> q' < q \<longrightarrow> basket_funded depth limits q')"

text \<open>What \<open>basket_loop\<close> does to the state after one quantity that is funded.\<close>

definition basket_keep :: "buy_depth list \<Rightarrow> sizing_limits \<Rightarrow> int \<Rightarrow> basket_search \<Rightarrow> basket_search" where
  "basket_keep depth limits q s =
     (if cash_raw (sl_minimum_margin limits) < basket_margin depth q \<and>
         (case bk_best s of None \<Rightarrow> True
          | Some best \<Rightarrow>
              sb_net_margin_micro best < basket_margin depth q \<or>
              (basket_margin depth q = sb_net_margin_micro best \<and>
               (basket_reserve depth q < bk_best_reserve s \<or>
                (basket_reserve depth q = bk_best_reserve s \<and> q < quantity_raw (sb_quantity best)))))
      then s\<lparr>bk_best := Some (basket_value depth q), bk_best_reserve := basket_reserve depth q\<rparr> else s)"

lemma basket_value_simps [simp]:
  "sb_net_margin_micro (basket_value depth q) = basket_margin depth q"
  "0 \<le> q \<Longrightarrow> q \<le> 10000 \<Longrightarrow> quantity_raw (sb_quantity (basket_value depth q)) = q"
  by (simp_all add: basket_value_def)

lemma best_below_keep:
  assumes "best_below depth limits q s" and "basket_grid depth limits q" and "basket_funded depth limits q"
    and "quantity_raw (sl_cap limits) \<le> 10000"
  shows "best_below depth limits (q + 1) (basket_keep depth limits q s)"
proof -
  have cand: "basket_candidate depth limits q \<longleftrightarrow> cash_raw (sl_minimum_margin limits) < basket_margin depth q"
    using assms(2,3) by (simp add: basket_candidate_def)
  have below: "q' < q + 1 \<longleftrightarrow> q' < q \<or> q' = q" "q' \<le> q \<longleftrightarrow> q' < q \<or> q' = q" for q' :: int by auto
  show ?thesis
  proof (cases "bk_best s")
    case None
    then have "\<not> basket_candidate depth limits q'" if "q' < q" for q'
      using assms(1) that by (simp add: best_below_def)
    with None cand show ?thesis
      by (cases "basket_candidate depth limits q") (auto simp: best_below_def basket_keep_def below intro!: exI [of _ q])
  next
    case (Some best)
    then obtain qb where qb: "best = basket_value depth qb" "qb < q" "basket_candidate depth limits qb"
      "bk_best_reserve s = basket_reserve depth qb"
      "\<And>q'. q' < q \<Longrightarrow> basket_candidate depth limits q' \<Longrightarrow> basket_preferred depth qb q'"
      using assms(1) by (auto simp: best_below_def)
    have bound: "0 \<le> qb" "qb \<le> 10000"
      using qb(3) assms(4) by (auto simp: basket_candidate_def basket_grid_def)
    show ?thesis
    proof (cases "basket_candidate depth limits q \<and> \<not> basket_preferred depth qb q")
      case True
      then have pref: "basket_preferred depth q qb" by (auto simp: basket_preferred_def)
      have "basket_keep depth limits q s =
          s\<lparr>bk_best := Some (basket_value depth q), bk_best_reserve := basket_reserve depth q\<rparr>"
        using True Some qb bound cand by (auto simp: basket_keep_def basket_preferred_def)
      then show ?thesis
        using True qb(5) pref by (auto simp: best_below_def below intro!: exI [of _ q] intro: basket_preferred_trans)
    next
      case False
      then have "basket_keep depth limits q s = s"
        using Some qb bound cand by (auto simp: basket_keep_def basket_preferred_def)
      then show ?thesis using False Some qb by (auto simp: best_below_def below intro!: exI [of _ qb])
    qed
  qed
qed

lemma grid_gap: "q' < q + 100 \<Longrightarrow> q' mod 100 = 0 \<Longrightarrow> q mod 100 = 0 \<Longrightarrow> (q' :: int) \<le> q"
proof -
  assume "q' < q + 100" "q' mod 100 = 0" "q mod 100 = 0"
  then obtain a b where "q = 100 * a" "q' = 100 * b" "100 * b < 100 * a + 100"
    by (auto simp: mod_eq_0_iff_dvd elim!: dvdE)
  then show ?thesis by simp
qed

lemma best_below_cong:
  "bk_best s' = bk_best s \<Longrightarrow> bk_best_reserve s' = bk_best_reserve s \<Longrightarrow>
     best_below depth limits q s' = best_below depth limits q s"
  by (cases "bk_best s") (simp_all add: best_below_def)

lemma best_below_gap:
  assumes "best_below depth limits (q + 1) s" and "q mod 100 = 0"
  shows "best_below depth limits (q + 100) s"
proof -
  have gap: "q' < q + 1" if "q' < q + 100" "basket_candidate depth limits q'" for q'
  proof -
    have "q' mod 100 = 0" using that(2) by (simp add: basket_candidate_def basket_grid_def)
    with grid_gap [OF that(1) this assms(2)] show ?thesis by simp
  qed
  show ?thesis
  proof (cases "bk_best s")
    case None
    then have "\<not> basket_candidate depth limits q'" if "q' < q + 1" for q'
      using assms(1) that by (simp add: best_below_def)
    then have "\<not> basket_candidate depth limits q'" if "q' < q + 100" for q'
      using gap that by blast
    with None show ?thesis by (simp add: best_below_def)
  next
    case (Some best)
    then obtain qb where qb: "best = basket_value depth qb" "qb < q + 1" "basket_candidate depth limits qb"
      "bk_best_reserve s = basket_reserve depth qb"
      "\<And>q'. q' < q + 1 \<Longrightarrow> basket_candidate depth limits q' \<Longrightarrow> basket_preferred depth qb q'"
      using assms(1) unfolding best_below_def by auto
    have "basket_preferred depth qb q'" if "q' < q + 100" "basket_candidate depth limits q'" for q'
      using qb(5) gap [OF that] that(2) by blast
    with Some qb(1-4) show ?thesis unfolding best_below_def by (auto intro!: exI [of _ qb])
  qed
qed

lemma grid_next: "0 < (q :: int) \<Longrightarrow> q mod 100 = 0 \<Longrightarrow> (q + 100) div 100 = q div 100 + 1 \<and> (q + 100) mod 100 = 0 \<and> 100 \<le> q"
  by auto

lemma of_int_u64_eq:
  assumes "0 \<le> i" and "i < 1000"
  shows "(of_int i :: u64) = w \<longleftrightarrow> int (unat w) = i"
proof -
  have "unat (of_int i :: u64) = nat i"
    using assms by (intro unat_word_of_int) simp_all
  then show ?thesis using assms by (auto simp: word_unat_eq_iff nat_eq_iff)
qed

text \<open>One turn of the loop.\<close>

lemma basket_loop_turn:
  assumes inv: "loop_inv depth limits available q s" and q: "q \<le> available" "available \<le> 10000"
    and covers: "depth_covers 1 depth available" and cap: "available \<le> quantity_raw (sl_cap limits)" "quantity_raw (sl_cap limits) \<le> 10000"
    and budget: "br_evaluated_quantities (bk_result s) \<noteq> sl_max_evaluations limits"
  shows "\<exists>s'. if basket_funded depth limits q
    then basket_loop limits available q s = basket_loop limits available (q + 100) s' \<and> loop_inv depth limits available (q + 100) s'
    else basket_loop limits available q s = Inr s' \<and> best_below depth limits q s' \<and> (bk_funded s' \<longleftrightarrow> 100 < q) \<and>
      br_status (bk_result s') = No_Positive_Margin \<and> br_quote (bk_result s') = None \<and>
      br_one_contract_diagnostic (bk_result s') = Some (basket_value depth 100)"
proof -
  note i = inv [unfolded loop_inv_def]
  have q0: "0 < q" "q mod 100 = 0" using i by simp_all
  have covered: "depth_covers 1 depth q" using covers q(1) by (auto simp: depth_covers_def)
  have offers: "\<forall>leg \<in> set depth. leg_offer 1 leg q \<noteq> None"
    using covered leg_offer_total [where step = 1, OF _ q0(1)] q by (fastforce simp: depth_covers_def)
  obtain cursors where legs: "legs_at q (bk_cursors s) = Some (map (\<lambda>leg. the (leg_offer 1 leg q)) depth,
      leg_cost 1 sz_debit depth q, basket_reserve depth q, cursors)"
    and cursors: "list_all2 (\<lambda>leg. cursor_inv leg q) depth cursors"
    using legs_at_offers [OF _ offers] i unfolding basket_reserve_def by blast
  have payout: "cash_raw (cash_at (q * 20000)) = q * 20000" using q q0 by simp
  define r1 where "r1 = (bk_result s)\<lparr>br_evaluated_quantities := br_evaluated_quantities (bk_result s) + 1\<rparr>"
  define r2 where "r2 = (if q = basket_quantity_step then r1\<lparr>br_one_contract_diagnostic := Some (basket_value depth q)\<rparr> else r1)"
  define s1 where "s1 = s\<lparr>bk_result := r2, bk_cursors := cursors\<rparr>"
  define s2 where "s2 = basket_keep depth limits q (s1\<lparr>bk_funded := True\<rparr>)"
  have diagnostic: "br_one_contract_diagnostic r2 = Some (basket_value depth 100)"
  proof (cases "q = 100")
    case False
    then have "100 < q" using q0 by auto
    then show ?thesis using i False by (simp add: r2_def r1_def limits)
  qed (simp add: r2_def limits)
  have basket: "\<lparr>sb_quantity = quantity_value q, sb_legs = map (\<lambda>leg. the (leg_offer 1 leg q)) depth,
      sb_payout_floor = cash_at (q * 20000), sb_net_margin_micro = cash_raw (cash_at (q * 20000)) - leg_cost 1 sz_debit depth q\<rparr>
      = basket_value depth q"
    by (simp add: basket_value_def basket_margin_def payout)
  have step: "basket_loop limits available q s =
      (if cash_raw (sl_available limits) < basket_reserve depth q then Inr s1
       else basket_loop limits available (q + 100) s2)"
    apply (subst basket_loop.simps)
    apply (simp only: q(1) not_True_eq_False if_False budget Let_def legs option.case prod.case basket)
    apply (simp only: payout basket_margin_def [symmetric] r1_def [symmetric] r2_def [symmetric] s1_def [symmetric])
    apply (simp add: s2_def basket_keep_def limits)
    done
  have best1: "best_below depth limits q s1" using i best_below_cong [of s1 s depth limits q] by (simp add: s1_def)
  show ?thesis
  proof (cases "basket_funded depth limits q")
    case False
    then show ?thesis
      using step best1 diagnostic i
      by (intro exI [of _ s1]) (simp add: basket_funded_def, simp add: s1_def r2_def r1_def)
  next
    case True
    have grid: "basket_grid depth limits q" using q0 q cap covered by (simp add: basket_grid_def)
    have "best_below depth limits q (s1\<lparr>bk_funded := True\<rparr>)" using best1 best_below_cong [of "s1\<lparr>bk_funded := True\<rparr>" s1 depth limits q] by simp
    then have best2: "best_below depth limits (q + 100) s2"
      unfolding s2_def by (intro best_below_gap best_below_keep grid True cap q0)
    have keep: "bk_result s2 = r2" "bk_cursors s2 = cursors" "bk_funded s2"
      by (simp_all add: s2_def basket_keep_def s1_def)
    have funded: "basket_funded depth limits q'" if "0 < q'" "q' mod 100 = 0" "q' < q + 100" for q'
    proof (cases "q' = q")
      case False
      with grid_gap [OF that(3,2) q0(2)] have "q' < q" by simp
      moreover have "\<forall>q'. 0 < q' \<and> q' mod 100 = 0 \<and> q' < q \<longrightarrow> basket_funded depth limits q'" using i by (elim conjE)
      ultimately show ?thesis using that(1,2) by simp
    qed (simp add: True)
    have cursors': "list_all2 (\<lambda>leg. cursor_inv leg (q + 100)) depth cursors"
      using cursors by (rule list_all2_mono) (auto intro: cursor_inv_mono)
    have "br_evaluated_quantities r2 = of_int ((q + 100) div 100 - 1)" 
      using i grid_next [OF q0] by (simp add: r2_def r1_def)
    moreover have "br_status r2 = No_Positive_Margin" "br_quote r2 = None" using i by (simp_all add: r2_def r1_def)
    ultimately have "loop_inv depth limits available (q + 100) s2"
      using q0 q grid_next [OF q0] cursors' diagnostic best2 funded by (simp add: loop_inv_def keep)
    with step True show ?thesis by (auto simp: basket_funded_def)
  qed
qed

lemma basket_loop_ends:
  assumes "available \<le> 10000" and "depth_covers 1 depth available"
    and "available \<le> quantity_raw (sl_cap limits)" and "quantity_raw (sl_cap limits) \<le> 10000"
  shows "loop_inv depth limits available q s \<Longrightarrow>
    (case basket_loop limits available q s of
       Inl r \<Rightarrow> br_status r = Search_Budget_Exceeded \<and> br_quote r = None \<and>
         br_evaluated_quantities r = sl_max_evaluations limits \<and>
         100 * (int (unat (sl_max_evaluations limits)) + 1) \<le> available
     | Inr s' \<Rightarrow> br_status (bk_result s') = No_Positive_Margin \<and> br_quote (bk_result s') = None \<and>
         (\<exists>e. best_below depth limits e s' \<and> (bk_funded s' \<longleftrightarrow> 100 < e) \<and> 0 < e \<and> e mod 100 = 0 \<and>
              (\<forall>q'. 0 < q' \<and> q' mod 100 = 0 \<and> q' < e \<longrightarrow> basket_funded depth limits q') \<and>
              (available < e \<or> \<not> basket_funded depth limits e)))"
proof (induction "nat (available + 1 - q)" arbitrary: q s rule: less_induct)
  case less
  note inv = less.prems
  note i = inv [unfolded loop_inv_def]
  have q0: "0 < q" "q mod 100 = 0" using i by simp_all
  have funded: "\<forall>q'. 0 < q' \<and> q' mod 100 = 0 \<and> q' < q \<longrightarrow> basket_funded depth limits q'" using i by (elim conjE)
  have best: "best_below depth limits q s" using i by (elim conjE)
  have status: "br_status (bk_result s) = No_Positive_Margin" "br_quote (bk_result s) = None" "bk_funded s \<longleftrightarrow> 100 < q"
    using i by simp_all
  have evaluated: "br_evaluated_quantities (bk_result s) = of_int (q div 100 - 1)" using i by (elim conjE)
  consider "available < q" | "q \<le> available" "br_evaluated_quantities (bk_result s) = sl_max_evaluations limits"
    | "q \<le> available" "br_evaluated_quantities (bk_result s) \<noteq> sl_max_evaluations limits" by linarith
  then show ?case
  proof cases
    case 1
    then have "basket_loop limits available q s = Inr s" by (subst basket_loop.simps) simp
    then show ?thesis using status best funded q0 1 by auto
  next
    case 2
    then have "basket_loop limits available q s = Inl ((bk_result s)\<lparr>br_status := Search_Budget_Exceeded\<rparr>)"
      by (subst basket_loop.simps) (simp add: Let_def)
    moreover have "int (unat (sl_max_evaluations limits)) = q div 100 - 1"
      using evaluated 2(2) q0 2(1) assms(1) of_int_u64_eq [of "q div 100 - 1" "sl_max_evaluations limits"] by auto
    then have "100 * (int (unat (sl_max_evaluations limits)) + 1) \<le> available" using 2(1) q0 by auto
    ultimately show ?thesis using status 2(2) by simp
  next
    case 3
    note turn = basket_loop_turn [OF inv 3(1) assms 3(2)]
    show ?thesis
    proof (cases "basket_funded depth limits q")
      case False
      with turn obtain s' where "basket_loop limits available q s = Inr s'" "best_below depth limits q s'"
        "bk_funded s' \<longleftrightarrow> 100 < q" "br_status (bk_result s') = No_Positive_Margin" "br_quote (bk_result s') = None"
        by auto
      then show ?thesis using False funded q0 by auto
    next
      case True
      with turn obtain s' where step: "basket_loop limits available q s = basket_loop limits available (q + 100) s'"
        "loop_inv depth limits available (q + 100) s'" by auto
      show ?thesis unfolding step(1) by (rule less.hyps [OF _ step(2)]) (use 3(1) in simp)
    qed
  qed
qed

definition basket_inputs_ok :: "buy_depth list \<Rightarrow> sizing_limits \<Rightarrow> bool" where
  "basket_inputs_ok depth limits \<longleftrightarrow>
     100 \<le> quantity_raw (sl_cap limits) \<and> quantity_raw (sl_cap limits) \<le> 10000 \<and>
     quantity_raw (sl_cap limits) mod 100 = 0 \<and> quantity_raw (sl_step limits) = 100 \<and>
     cash_raw (sl_available limits) \<le> 1000000000000000 \<and> cash_raw (sl_minimum_margin limits) \<le> 1000000000000000 \<and>
     sl_max_evaluations limits \<noteq> 0 \<and> (\<forall>leg \<in> set depth. leg_ok leg)"

definition basket_outcome :: "buy_depth list \<Rightarrow> sizing_limits \<Rightarrow> basket_sizing_result \<Rightarrow> bool" where
  "basket_outcome depth limits r \<longleftrightarrow>
     (case br_status r of
        Invalid_Input \<Rightarrow> \<not> basket_inputs_ok depth limits \<and> br_quote r = None
      | No_Depth \<Rightarrow> (\<forall>q. \<not> basket_grid depth limits q) \<and> br_quote r = None
      | Insufficient_Cash \<Rightarrow> basket_grid depth limits 100 \<and> (\<forall>q. basket_grid depth limits q \<longrightarrow> \<not> basket_funded depth limits q) \<and> br_quote r = None
      | No_Positive_Margin \<Rightarrow> basket_funded depth limits 100 \<and> (\<forall>q. \<not> basket_candidate depth limits q) \<and> br_quote r = None
      | Optimal \<Rightarrow> (\<exists>q. br_quote r = Some (basket_value depth q) \<and> basket_candidate depth limits q \<and>
          (\<forall>q'. basket_candidate depth limits q' \<longrightarrow> basket_preferred depth q q'))
      | Search_Budget_Exceeded \<Rightarrow> basket_grid depth limits (100 * (int (unat (sl_max_evaluations limits)) + 1)) \<and> br_quote r = None
      | Arithmetic_Error \<Rightarrow> False)"

lemma size_buy_basket_guard:
  "basket_inputs_ok depth limits \<longleftrightarrow>
     \<not> (quantity_raw (sl_cap limits) < basket_quantity_step \<or> basket_maximum_quantity < quantity_raw (sl_cap limits) \<or>
        quantity_raw (sl_cap limits) mod basket_quantity_step \<noteq> 0 \<or>
        quantity_raw (sl_step limits) \<noteq> basket_quantity_step \<or> basket_maximum_cash < cash_raw (sl_available limits) \<or>
        basket_maximum_cash < cash_raw (sl_minimum_margin limits) \<or> sl_max_evaluations limits = 0) \<and>
     (\<forall>leg \<in> set depth. leg_ok leg)"
  unfolding basket_inputs_ok_def limits by auto

lemma size_buy_basket_invalid:
  assumes "\<not> basket_inputs_ok depth limits"
  shows "size_buy_basket depth limits = invalid_basket"
proof (cases "\<forall>leg \<in> set depth. leg_ok leg")
  case True
  then show ?thesis
    using assms unfolding size_buy_basket_guard size_buy_basket_def Let_def by (intro if_P) metis
next
  case False
  then have "scan_legs cap cap depth = None" if "100 \<le> cap" for cap
    using that scan_legs_Some [of cap cap depth] by (cases "scan_legs cap cap depth") auto
  then show ?thesis by (simp add: size_buy_basket_def Let_def limits)
qed

lemma size_buy_basket_outcome: "basket_outcome depth limits (size_buy_basket depth limits)"
proof -
  let ?cap = "quantity_raw (sl_cap limits)"
  let ?scan = "scan_legs ?cap ?cap depth"
  define guard where "guard \<longleftrightarrow> ?cap < basket_quantity_step \<or> basket_maximum_quantity < ?cap \<or> ?cap mod basket_quantity_step \<noteq> 0 \<or>
         quantity_raw (sl_step limits) \<noteq> basket_quantity_step \<or> basket_maximum_cash < cash_raw (sl_available limits) \<or>
         basket_maximum_cash < cash_raw (sl_minimum_margin limits) \<or> sl_max_evaluations limits = 0"
  have ok: "basket_inputs_ok depth limits \<longleftrightarrow> \<not> guard \<and> (\<forall>leg \<in> set depth. leg_ok leg)"
    unfolding size_buy_basket_guard guard_def ..
  show ?thesis
  proof (cases "basket_inputs_ok depth limits")
    case False
    then show ?thesis by (simp add: size_buy_basket_invalid basket_outcome_def invalid_basket_def)
  next
    case True
    then have g: "\<not> guard" and legs: "\<forall>leg \<in> set depth. leg_ok leg" using ok by auto
    then have cap: "100 \<le> ?cap" "?cap \<le> 10000" "?cap mod 100 = 0" "sl_max_evaluations limits \<noteq> 0"
      using True by (simp_all add: basket_inputs_ok_def)
    define available where "available = foldl (\<lambda>a leg. min a (min ?cap (levels_total (bd_levels leg)))) ?cap depth"
    have scan: "?scan = Some available" using scan_legs_Some [of ?cap ?cap depth] legs by (simp add: available_def)
    have within: "q \<le> available \<longleftrightarrow> q \<le> ?cap \<and> depth_covers 1 depth q" for q
      using legs unfolding available_def le_foldl_min depth_covers_def by auto
    then have avail: "available \<le> 10000" "depth_covers 1 depth available" "available \<le> ?cap"
      using cap within [of available] by auto
    have grid: "basket_grid depth limits q \<longleftrightarrow> 0 < q \<and> q mod 100 = 0 \<and> q \<le> available" for q
      using within by (auto simp: basket_grid_def)
    define s0 where "s0 = \<lparr>bk_result = invalid_basket\<lparr>br_status := No_Positive_Margin\<rparr>, bk_cursors = map fresh_cursor depth,
               bk_best = None, bk_best_reserve = 0, bk_funded = False\<rparr>"
    have sized: "size_buy_basket depth limits =
      (if available < 100 then invalid_basket\<lparr>br_status := No_Depth\<rparr>
       else case basket_loop limits available 100 s0 of
              Inl result \<Rightarrow> result
            | Inr s \<Rightarrow> if bk_best s \<noteq> None then (bk_result s)\<lparr>br_status := Optimal, br_quote := bk_best s\<rparr>
                else if \<not> bk_funded s then (bk_result s)\<lparr>br_status := Insufficient_Cash\<rparr> else bk_result s)"
      unfolding size_buy_basket_def Let_def guard_def [symmetric] scan s0_def using g by (simp add: limits)
    show ?thesis
    proof (cases "available < 100")
      case True
      then have "\<not> basket_grid depth limits q" for q using grid [of q] by auto
      then show ?thesis using True sized by (simp add: basket_outcome_def invalid_basket_def)
    next
      case False
      have no: "\<not> basket_candidate depth limits q'" if "q' < 100" for q'
        using that by (auto simp: basket_candidate_def basket_grid_def)
      have "loop_inv depth limits available 100 s0"
        using False no by (auto simp: loop_inv_def s0_def invalid_basket_def best_below_def
            list_all2_map2 list_all2_same cursor_inv_fresh)
      note ends = basket_loop_ends [OF avail(1,2,3) cap(2) this]
      show ?thesis
      proof (cases "basket_loop limits available 100 s0")
        case (Inl r)
        then show ?thesis using ends False sized by (simp add: basket_outcome_def grid add_nonneg_pos)
      next
        case (Inr s)
        with ends obtain e where e: "best_below depth limits e s" "bk_funded s \<longleftrightarrow> 100 < e" "0 < e" "e mod 100 = 0"
          "\<forall>q'. 0 < q' \<and> q' mod 100 = 0 \<and> q' < e \<longrightarrow> basket_funded depth limits q'"
          "available < e \<or> \<not> basket_funded depth limits e"
          and status: "br_status (bk_result s) = No_Positive_Margin" "br_quote (bk_result s) = None" by auto
        have unfunded: "q' < e" if "basket_grid depth limits q'" "basket_funded depth limits q'" for q'
        proof (rule ccontr)
          assume "\<not> q' < e"
          then have "e \<le> q'" by simp
          moreover from this have "\<not> basket_funded depth limits e" using e(6) that(1) by (auto simp: grid)
          ultimately show False
            using funding_prefix [of 1 depth q' e "cash_raw (sl_available limits)"] e(3) that cap(2)
            by (simp add: basket_grid_def basket_funded_def basket_reserve_def)
        qed
        show ?thesis
        proof (cases "bk_best s")
          case (Some best)
          then obtain qb where "best = basket_value depth qb" "basket_candidate depth limits qb"
            "\<And>q'. q' < e \<Longrightarrow> basket_candidate depth limits q' \<Longrightarrow> basket_preferred depth qb q'"
            using e(1) by (auto simp: best_below_def)
          moreover have "\<And>q'. basket_candidate depth limits q' \<Longrightarrow> q' < e" using unfunded by (simp add: basket_candidate_def)
          ultimately show ?thesis using Inr Some False sized by (auto simp: basket_outcome_def)
        next
          case None
          then have none: "\<not> basket_candidate depth limits q'" for q'
            using e(1) unfunded [of q'] by (auto simp: best_below_def basket_candidate_def)
          show ?thesis
          proof (cases "bk_funded s")
            case True
            then have "basket_funded depth limits 100" using e(2,5) by simp
            then show ?thesis using none True Inr None False sized status by (simp add: basket_outcome_def)
          next
            case unf: False
            have "\<not> basket_funded depth limits q'" if "basket_grid depth limits q'" for q'
              using unfunded [OF that] unf e(2) that by (auto simp: basket_grid_def)
            moreover have "basket_grid depth limits 100" using False by (simp add: grid)
            ultimately show ?thesis using unf Inr None False sized status by (simp add: basket_outcome_def)
          qed
        qed
      qed
    qed
  qed
qed

text \<open>
  Claim C2. The basket routine is exact. For every depth and limits it reports invalid input
  exactly for unsupported input, never an arithmetic error, and otherwise: no depth when no whole
  contract is covered, insufficient cash when no size is funded, no positive margin when no
  funded size beats the minimum, an exhausted budget only when the grid has more sizes than the
  budget, and an optimum that is a funded size with a margin above the minimum such that no other
  funded size has a larger margin, or the same margin with a smaller reserve, or a tie at a
  smaller size. Only the optimum carries a quote, and its amounts are those computed afresh.
\<close>

theorem basket_sizing_exact:
  "basket_outcome depth limits (size_buy_basket depth limits) \<and>
   (br_status (size_buy_basket depth limits) = Invalid_Input \<longleftrightarrow> \<not> basket_inputs_ok depth limits)"
  using size_buy_basket_outcome [of depth limits] size_buy_basket_invalid [of depth limits]
  by (cases "basket_inputs_ok depth limits") (auto simp: basket_outcome_def invalid_basket_def)


lemma leg_cost_quote: "(\<Sum>leg \<leftarrow> sb_legs (basket_value depth q). cash_raw (field leg)) = leg_cost 1 field depth q"
  by (induction depth) (simp_all add: basket_value_def)

text \<open>
  Claim C5. A quoted basket is affordable and its margin is real. The debits of the three legs are
  at most their reserves, the reserves at most the available cash, and the payout floor of two
  dollars a contract exceeds the debits by exactly the margin reported, which is above the minimum.
\<close>

theorem basket_quote_funded:
  assumes "br_quote (size_buy_basket depth limits) = Some basket"
  shows "(\<Sum>leg \<leftarrow> sb_legs basket. cash_raw (sz_debit leg)) \<le> (\<Sum>leg \<leftarrow> sb_legs basket. cash_raw (sz_reservation leg)) \<and>
    (\<Sum>leg \<leftarrow> sb_legs basket. cash_raw (sz_reservation leg)) \<le> cash_raw (sl_available limits) \<and>
    cash_raw (sb_payout_floor basket) = quantity_raw (sb_quantity basket) * 20000 \<and>
    cash_raw (sb_payout_floor basket) - (\<Sum>leg \<leftarrow> sb_legs basket. cash_raw (sz_debit leg)) = sb_net_margin_micro basket \<and>
    cash_raw (sl_minimum_margin limits) < sb_net_margin_micro basket"
proof -
  have outcome: "basket_outcome depth limits (size_buy_basket depth limits)" by (rule size_buy_basket_outcome)
  then have status: "br_status (size_buy_basket depth limits) = Optimal"
    using assms by (cases "br_status (size_buy_basket depth limits)") (simp_all add: basket_outcome_def)
  then obtain q where q: "basket = basket_value depth q" "basket_candidate depth limits q"
    using outcome assms by (auto simp: basket_outcome_def)
  have "br_status (size_buy_basket depth limits) \<noteq> Invalid_Input" using status by simp
  then have cap: "quantity_raw (sl_cap limits) \<le> 10000"
    using size_buy_basket_invalid [of depth limits]
    by (cases "basket_inputs_ok depth limits") (simp_all add: invalid_basket_def basket_inputs_ok_def)
  then have range: "0 < q" "q \<le> 10000" "depth_covers 1 depth q" and funded: "basket_funded depth limits q"
    and margin: "cash_raw (sl_minimum_margin limits) < basket_margin depth q"
    using q(2) by (auto simp: basket_candidate_def basket_grid_def)
  have payout: "cash_raw (sb_payout_floor (basket_value depth q)) = q * 20000"
      "quantity_raw (sb_quantity (basket_value depth q)) = q"
    using range by (simp_all add: basket_value_def)
  have margin_eq: "sb_net_margin_micro (basket_value depth q) = q * 20000 - leg_cost 1 sz_debit depth q"
    by (simp add: basket_margin_def)
  show ?thesis
    unfolding q(1) payout margin_eq leg_cost_quote
    using debit_le_reserve [OF range(3,1)] range(2) funded margin
    by (simp add: basket_funded_def basket_reserve_def basket_margin_def)
qed

text \<open>A basket for the witnesses: three of the legs of one contract at one cent.\<close>

definition cent_limits :: sizing_limits where
  "cent_limits = \<lparr>sl_cap = quantity_of 100, sl_step = quantity_of 100, sl_available = cash_of 1000000,
     sl_minimum_margin = cash_of 0, sl_max_evaluations = 5\<rparr>"

lemma cent_offer:
  "leg_offer 1 cent_leg 100 = Some \<lparr>sz_limit = price_of 100, sz_notional = cash_at 10000, sz_debit = cash_at 10000,
     sz_reservation = cash_of 20100\<rparr>"
  by (simp add: leg_offer_def cent_leg_def quantity_value_def quantity_from_raw_def cent_charge
      buy_reservation_eq reserve_ok_def policy_ok_def reserve_amount_def trade_fee_def)

lemma cent_basket: "br_quote (size_buy_basket [cent_leg, cent_leg, cent_leg] cent_limits) = Some (basket_value [cent_leg, cent_leg, cent_leg] 100)"
proof -
  let ?depth = "[cent_leg, cent_leg, cent_leg]"
  have ok: "leg_ok cent_leg" by (simp add: leg_ok_def cent_leg_def policy_ok_def)
  have total: "levels_total (bd_levels cent_leg) = 100" by (simp add: cent_leg_def)
  have grid: "basket_grid ?depth cent_limits q \<longleftrightarrow> q = 100" for q
    using ok total by (auto simp: basket_grid_def cent_limits_def depth_covers_def)
  have costs: "leg_cost 1 sz_debit ?depth 100 = 30000" "leg_cost 1 sz_reservation ?depth 100 = 60300"
    by (simp_all add: cent_offer)
  have cand: "basket_candidate ?depth cent_limits q \<longleftrightarrow> q = 100" for q
    using costs unfolding basket_candidate_def grid basket_funded_def basket_reserve_def basket_margin_def
    by (auto simp: cent_limits_def)
  have "basket_inputs_ok ?depth cent_limits" using ok by (simp add: basket_inputs_ok_def cent_limits_def)
  moreover have "int (unat (sl_max_evaluations cent_limits)) = 5" "cash_raw (sl_available cent_limits) = 1000000"
    by (simp_all add: cent_limits_def)
  ultimately show ?thesis
    using size_buy_basket_outcome [of ?depth cent_limits] cand costs
    by (cases "br_status (size_buy_basket ?depth cent_limits)")
      (auto simp: basket_outcome_def grid basket_funded_def basket_reserve_def)
qed

lemma basket_quote_funded_witness:
  "sb_net_margin_micro (basket_value [cent_leg, cent_leg, cent_leg] 100) > 0"
  using basket_quote_funded [OF cent_basket] by (simp add: cent_limits_def)

end
