(* ===== verification/Net_Sizing.thy ===== *)
theory Net_Sizing
  imports Reservation
begin

text \<open>
  The search for the best size of a pair, after \<open>include/eme/core/net_sizing.hpp\<close> and the class
  \<open>Search\<close> of \<open>src/core/net_sizing.cpp\<close>. The two cursors and the two legs are pairs. Integers
  that the input checks keep far below \<open>2 ^ 63\<close> are \<open>int\<close>; the remainders of the fee products,
  which the code computes on \<open>uint64\<close>, are words. The recursion over an interval is a
  \<open>partial_function\<close>: \<open>None\<close> is a search that does not return, which the next theory excludes.
\<close>

subsection \<open>Data\<close>

record sized_pair =
  sp_quantity :: quantity
  sp_legs :: "sized_leg \<times> sized_leg"
  sp_payout_floor :: cash
  sp_net_margin :: cash

record sizing_result =
  sr_status :: sizing_status
  sr_quote :: "sized_pair option"
  sr_evaluated_quantities :: u64
  sr_intervals_pruned :: u64

definition net_fee_denominator :: int where
  "net_fee_denominator = 10000000000"

record cursor =
  cu_depth :: buy_depth
  cu_step :: int
  cu_cap :: int
  cu_index :: nat
  cu_prefix_quantity :: int
  cu_prefix_notional :: int
  cu_prefix_debit :: int
  cu_accumulator :: fee_accumulator

abbreviation cu_levels :: "cursor \<Rightarrow> buy_level list" where
  "cu_levels cursor \<equiv> bd_levels (cu_depth cursor)"

definition new_cursor :: "buy_depth \<Rightarrow> int \<Rightarrow> int \<Rightarrow> cursor" where
  "new_cursor depth step cap = \<lparr>cu_depth = depth, cu_step = step, cu_cap = cap, cu_index = 0,
     cu_prefix_quantity = 0, cu_prefix_notional = 0, cu_prefix_debit = 0, cu_accumulator = \<lparr>rounding_micro = 0\<rparr>\<rparr>"

definition cursor_size :: "cursor \<Rightarrow> int" where
  "cursor_size cursor =
     min (quantity_raw (bl_quantity (cu_levels cursor ! cu_index cursor))) (cu_cap cursor) div cu_step cursor * cu_step cursor"

function cursor_seek :: "cursor \<Rightarrow> bool \<times> cursor" where
  "cursor_seek cursor =
     (if cu_index cursor < length (cu_levels cursor) \<and> cursor_size cursor = 0
      then cursor_seek (cursor\<lparr>cu_index := Suc (cu_index cursor)\<rparr>)
      else (cu_index cursor < length (cu_levels cursor), cursor))"
  by pat_completeness auto
termination
  by (relation "measure (\<lambda>cursor. length (cu_levels cursor) - cu_index cursor)") auto

declare cursor_seek.simps [simp del]

definition cursor_end :: "cursor \<Rightarrow> int" where
  "cursor_end cursor = cu_prefix_quantity cursor + cursor_size cursor"

definition cursor_price :: "cursor \<Rightarrow> price" where
  "cursor_price cursor = bl_price (cu_levels cursor ! cu_index cursor)"

text \<open>\<open>None\<close> when the charge fails.\<close>

definition cursor_advance :: "cursor \<Rightarrow> cursor option" where
  "cursor_advance cursor =
     (let count = cursor_size cursor in
      case charge_buy_fill (quantity_value count) (cursor_price cursor) (bd_fees (cu_depth cursor)) (cu_accumulator cursor) of
        None \<Rightarrow> None
      | Some (charge, acc) \<Rightarrow>
          Some (cursor\<lparr>cu_accumulator := acc,
            cu_prefix_quantity := cu_prefix_quantity cursor + count,
            cu_prefix_notional := cu_prefix_notional cursor + cash_raw (fc_notional charge),
            cu_prefix_debit := cu_prefix_debit cursor + cash_raw (fc_debit charge),
            cu_index := Suc (cu_index cursor)\<rparr>))"

record evaluation =
  ev_q :: int
  ev_legs :: "sized_leg \<times> sized_leg"
  ev_margin :: int
  ev_reserve :: int
  ev_upper :: int

record search =
  se_limits :: sizing_limits
  se_cursors :: "cursor \<times> cursor"
  se_result :: sizing_result
  se_best :: "evaluation option"
  se_slope :: int

definition invalid_sizing :: sizing_result where
  "invalid_sizing = \<lparr>sr_status = Invalid_Input, sr_quote = None, sr_evaluated_quantities = 0, sr_intervals_pruned = 0\<rparr>"

definition new_search :: "buy_depth \<times> buy_depth \<Rightarrow> sizing_limits \<Rightarrow> search" where
  "new_search depth limits =
     (let cursor = (\<lambda>d. new_cursor d (quantity_raw (sl_step limits)) (quantity_raw (sl_cap limits)))
      in \<lparr>se_limits = limits, se_cursors = (cursor (fst depth), cursor (snd depth)),
          se_result = invalid_sizing, se_best = None, se_slope = 0\<rparr>)"


subsection \<open>Reservation and evaluation\<close>

text \<open>\<open>None\<close> stands for the largest \<open>int64\<close>, which the code takes as the reserve of a failing leg.\<close>

definition leg_reservation :: "search \<Rightarrow> cursor \<Rightarrow> int \<Rightarrow> cash option" where
  "leg_reservation s cursor q =
     buy_reservation (quantity_value q) (sl_step (se_limits s)) (cursor_price cursor) (bd_fees (cu_depth cursor))"

definition reservation :: "search \<Rightarrow> int \<Rightarrow> int" where
  "reservation s q =
     (case leg_reservation s (fst (se_cursors s)) q of
        None \<Rightarrow> int64_max
      | Some reserve0 \<Rightarrow>
          (case leg_reservation s (snd (se_cursors s)) q of
             None \<Rightarrow> int64_max
           | Some reserve1 \<Rightarrow> cash_raw reserve0 + cash_raw reserve1))"

text \<open>
  One turn of the loop of \<open>evaluate\<close> over the legs: the leg, the accumulator's rounding, and the
  amount by which its last fee was rounded up, in units of the fee denominator.
\<close>

definition evaluate_leg :: "search \<Rightarrow> cursor \<Rightarrow> int \<Rightarrow> (sized_leg \<times> int \<times> u64) option" where
  "evaluate_leg s cursor q =
     (let price = cursor_price cursor;
          rest = q - cu_prefix_quantity cursor
      in case (charge_buy_fill (quantity_value rest) price (bd_fees (cu_depth cursor)) (cu_accumulator cursor),
               leg_reservation s cursor q) of
           (Some (charge, acc), Some reserve) \<Rightarrow>
             let debit = cu_prefix_debit cursor + cash_raw (fc_debit charge);
                 leg = \<lparr>sz_limit = price, sz_notional = cash_at (cu_prefix_notional cursor + cash_raw (fc_notional charge)),
                        sz_debit = cash_at debit, sz_reservation = reserve\<rparr>;
                 p = word_of_int (price_raw price) :: u64;
                 factor = ucast (coefficient_ppm (bd_fees (cu_depth cursor))) * p * (10000 - p) :: u64;
                 rmd = (word_of_int rest * (factor mod word_of_int net_fee_denominator)) mod word_of_int net_fee_denominator;
                 fee_error = (if rmd \<noteq> 0 then word_of_int net_fee_denominator - rmd else 0)
             in Some (leg, sint (rounding_micro acc), fee_error)
         | _ \<Rightarrow> None)"

definition better :: "int \<Rightarrow> int \<Rightarrow> int \<Rightarrow> evaluation option \<Rightarrow> bool" where
  "better margin reserve q best =
     (case best of None \<Rightarrow> True
      | Some best \<Rightarrow> ev_margin best < margin \<or>
          (margin = ev_margin best \<and> (reserve < ev_reserve best \<or> (reserve = ev_reserve best \<and> q < ev_q best))))"

definition evaluate :: "int \<Rightarrow> search \<Rightarrow> evaluation option \<times> search" where
  "evaluate q s =
     (if sr_evaluated_quantities (se_result s) = sl_max_evaluations (se_limits s)
      then (None, s\<lparr>se_result := (se_result s)\<lparr>sr_status := Search_Budget_Exceeded\<rparr>\<rparr>)
      else
        let s = s\<lparr>se_result := (se_result s)\<lparr>sr_evaluated_quantities := sr_evaluated_quantities (se_result s) + 1\<rparr>\<rparr>
        in case (evaluate_leg s (fst (se_cursors s)) q, evaluate_leg s (snd (se_cursors s)) q) of
             (Some (leg0, rounding0, error0), Some (leg1, rounding1, error1)) \<Rightarrow>
               let margin = q * 10000 - cash_raw (sz_debit leg0) - cash_raw (sz_debit leg1);
                   reserve = cash_raw (sz_reservation leg0) + cash_raw (sz_reservation leg1);
                   evaluated = \<lparr>ev_q = q, ev_legs = (leg0, leg1), ev_margin = margin, ev_reserve = reserve,
                     ev_upper = margin + (rounding0 + rounding1) +
                       sint ((error0 + error1) div word_of_int net_fee_denominator)\<rparr>
               in (Some evaluated,
                   if cash_raw (sl_minimum_margin (se_limits s)) < margin \<and> better margin reserve q (se_best s)
                   then s\<lparr>se_best := Some evaluated\<rparr> else s)
           | _ \<Rightarrow> (None, s\<lparr>se_result := (se_result s)\<lparr>sr_status := Arithmetic_Error\<rparr>\<rparr>))"


subsection \<open>The search\<close>

partial_function (option) interval :: "evaluation \<Rightarrow> evaluation \<Rightarrow> search \<Rightarrow> (bool \<times> search) option" where
  "interval low high s =
     (if ev_q high - ev_q low \<le> quantity_raw (sl_step (se_limits s)) then Some (True, s)
      else
        let upper = (if 0 \<le> se_slope s then ev_upper high else ev_upper low);
            bound = (case se_best s of Some best \<Rightarrow> ev_margin best
                     | None \<Rightarrow> cash_raw (sl_minimum_margin (se_limits s)))
        in if upper < bound \<or> (upper = bound \<and> (case se_best s of None \<Rightarrow> True | Some best \<Rightarrow> ev_q best \<le> ev_q low))
           then Some (True, s\<lparr>se_result := (se_result s)\<lparr>sr_intervals_pruned := sr_intervals_pruned (se_result s) + 1\<rparr>\<rparr>)
           else
             let steps = (ev_q high - ev_q low) div quantity_raw (sl_step (se_limits s))
             in case evaluate (ev_q low + steps div 2 * quantity_raw (sl_step (se_limits s))) s of
                  (None, s) \<Rightarrow> Some (False, s)
                | (Some mid, s) \<Rightarrow>
                    Option.bind (interval low mid s) (\<lambda>(ok, s).
                      if ok then interval mid high s else Some (False, s)))"

text \<open>The binary search for the last funded multiple of the step.\<close>

function last_funded :: "search \<Rightarrow> int \<Rightarrow> int \<Rightarrow> int \<Rightarrow> int" where
  "last_funded s step lo hi =
     (if lo < hi
      then let mid = lo + (hi - lo + 1) div 2
           in if reservation s (mid * step) \<le> cash_raw (sl_available (se_limits s))
              then last_funded s step mid hi else last_funded s step lo (mid - 1)
      else lo)"
  by pat_completeness auto
termination
  by (relation "measure (\<lambda>(_, _, lo, hi). nat (hi - lo))") auto

declare last_funded.simps [simp del]

definition failed :: "search \<Rightarrow> sizing_result" where
  "failed s = (se_result s)\<lparr>sr_quote := None\<rparr>"

text \<open>\<open>cursor.end() == end && !cursor.advance()\<close>, for both cursors in turn.\<close>

definition advance_at :: "int \<Rightarrow> cursor \<Rightarrow> cursor option" where
  "advance_at end_quantity cursor =
     (if cursor_end cursor = end_quantity then cursor_advance cursor else Some cursor)"

definition segment_slope :: "cursor \<times> cursor \<Rightarrow> int" where
  "segment_slope cursors =
     (let leg = (\<lambda>cursor. let p = price_raw (cursor_price cursor)
        in int (unat (coefficient_ppm (bd_fees (cu_depth cursor)))) * p * (10000 - p))
      in net_fee_denominator * (10000 - price_raw (cursor_price (fst cursors)) - price_raw (cursor_price (snd cursors)))
         - leg (fst cursors) - leg (snd cursors))"

definition seek_both :: "search \<Rightarrow> bool \<times> search" where
  "seek_both s =
     (let (found0, cursor0) = cursor_seek (fst (se_cursors s)) in
      if \<not> found0 then (False, s\<lparr>se_cursors := (cursor0, snd (se_cursors s))\<rparr>)
      else let (found1, cursor1) = cursor_seek (snd (se_cursors s))
           in (found1, s\<lparr>se_cursors := (cursor0, cursor1)\<rparr>))"

text \<open>The last size of a segment that the cash can fund, \<open>last_funded\<close> of the code.\<close>

definition segment_last :: "search \<Rightarrow> int \<Rightarrow> int \<Rightarrow> int \<Rightarrow> int" where
  "segment_last s step first end_quantity =
     (if cash_raw (sl_available (se_limits s)) < reservation s end_quantity
      then last_funded s step (first div step - 1) (end_quantity div step) * step
      else end_quantity)"

text \<open>One segment between level boundaries: both ends evaluated and the interval between them searched.\<close>

definition search_segment :: "int \<Rightarrow> int \<Rightarrow> search \<Rightarrow> (bool \<times> search) option" where
  "search_segment first last_quantity s =
     (let s = s\<lparr>se_slope := segment_slope (se_cursors s)\<rparr> in
      case evaluate first s of
        (None, s) \<Rightarrow> Some (False, s)
      | (Some low, s) \<Rightarrow>
          (case (if last_quantity = first then (Some low, s) else evaluate last_quantity s) of
             (None, s) \<Rightarrow> Some (False, s)
           | (Some high, s) \<Rightarrow> interval low high s))"

text \<open>
  The loop of \<open>run\<close>. The result says whether it was left by a \<open>return failed()\<close> (\<open>Inl\<close>) or at its
  end or by a \<open>break\<close> (\<open>Inr\<close>), the latter with the flag \<open>funded\<close>. Each turn that continues moves a
  cursor to its next level, so the loop ends for every input.
\<close>

partial_function (option) segments ::
    "int \<Rightarrow> int \<Rightarrow> int \<Rightarrow> bool \<Rightarrow> search \<Rightarrow> (sizing_result + bool \<times> search) option" where
  "segments step cap first funded s =
     (if \<not> first \<le> cap then Some (Inr (funded, s))
      else
        case seek_both s of (found, s) \<Rightarrow>
        if \<not> found then Some (Inr (funded, s))
        else
          let end_quantity = min cap (min (cursor_end (fst (se_cursors s))) (cursor_end (snd (se_cursors s))));
              last_quantity = segment_last s step first end_quantity
          in if last_quantity < first then Some (Inr (funded, s))
             else
               Option.bind (search_segment first last_quantity s) (\<lambda>(ok, s).
                 if \<not> ok then Some (Inl (failed s))
                 else if last_quantity < end_quantity \<or> end_quantity = cap then Some (Inr (True, s))
                 else
                   case advance_at end_quantity (fst (se_cursors s)) of
                     None \<Rightarrow> Some (Inl (failed (s\<lparr>se_result := (se_result s)\<lparr>sr_status := Arithmetic_Error\<rparr>\<rparr>)))
                   | Some cursor0 \<Rightarrow>
                       (case advance_at end_quantity (snd (se_cursors s)) of
                          None \<Rightarrow> Some (Inl (failed (s\<lparr>se_result := (se_result s)\<lparr>sr_status := Arithmetic_Error\<rparr>\<rparr>)))
                        | Some cursor1 \<Rightarrow>
                            segments step cap (end_quantity + step) True (s\<lparr>se_cursors := (cursor0, cursor1)\<rparr>))))"

text \<open>The status of a run that ends without a best size and without a funded one; it seeks again.\<close>

definition unfunded_status :: "search \<Rightarrow> sizing_status" where
  "unfunded_status s =
     (if cu_prefix_quantity (fst (se_cursors s)) = 0 \<and> \<not> fst (seek_both s) then No_Depth else Insufficient_Cash)"

definition search_finish :: "sizing_result + bool \<times> search \<Rightarrow> sizing_result" where
  "search_finish outcome =
     (case outcome of
        Inl result \<Rightarrow> result
      | Inr (funded, s) \<Rightarrow>
          (case se_best s of
             Some best \<Rightarrow>
               (se_result s)\<lparr>sr_status := Optimal,
                 sr_quote := Some \<lparr>sp_quantity = quantity_value (ev_q best), sp_legs = ev_legs best,
                   sp_payout_floor = cash_at (ev_q best * 10000), sp_net_margin = cash_at (ev_margin best)\<rparr>\<rparr>
           | None \<Rightarrow>
               if \<not> funded then (se_result s)\<lparr>sr_status := unfunded_status s\<rparr> else se_result s))"

definition search_run :: "search \<Rightarrow> sizing_result option" where
  "search_run s =
     (let s = s\<lparr>se_result := (se_result s)\<lparr>sr_status := No_Positive_Margin\<rparr>\<rparr> in
      case seek_both s of (found, s) \<Rightarrow>
      if \<not> found then Some ((se_result s)\<lparr>sr_status := No_Depth\<rparr>)
      else if 10000 \<le> price_raw (cursor_price (fst (se_cursors s))) + price_raw (cursor_price (snd (se_cursors s)))
      then Some (se_result s)
      else
        let step = quantity_raw (sl_step (se_limits s));
            cap = quantity_raw (sl_cap (se_limits s)) div step * step
        in map_option search_finish (segments step cap step False s))"

fun ascending_prices :: "int \<Rightarrow> buy_level list \<Rightarrow> bool" where
  "ascending_prices previous [] = True"
| "ascending_prices previous (level # levels) =
     (if price_raw (bl_price level) \<le> previous then False
      else ascending_prices (price_raw (bl_price level)) levels)"

definition valid_depth :: "buy_depth \<Rightarrow> bool" where
  "valid_depth leg \<longleftrightarrow> valid_fee (bd_fees leg) \<and> \<not> 10001 < length (bd_levels leg) \<and> ascending_prices (-1) (bd_levels leg)"

definition size_buy_pair :: "buy_depth \<times> buy_depth \<Rightarrow> sizing_limits \<Rightarrow> sizing_result option" where
  "size_buy_pair depth limits =
     (if quantity_bound < quantity_raw (sl_cap limits) \<or>
         (quantity_raw (sl_step limits) \<noteq> 1 \<and> quantity_raw (sl_step limits) \<noteq> 100) \<or>
         quantity_raw (sl_cap limits) < quantity_raw (sl_step limits) \<or>
         cash_bound < cash_raw (sl_available limits) \<or> cash_bound < cash_raw (sl_minimum_margin limits) \<or>
         sl_max_evaluations limits = 0
      then Some invalid_sizing
      else if \<not> valid_depth (fst depth) \<or> \<not> valid_depth (snd depth) then Some invalid_sizing
      else search_run (new_search depth limits))"

end
