(* ===== verification/Net_Optimum.thy ===== *)
theory Net_Optimum
  imports Net_Sizing Leg_Offer
begin

text \<open>
  The search of \<open>Net_Sizing\<close> returns, and returns the best size of the grid. The legs are
  compared with \<open>Leg_Offer\<close> after every level is cut to a multiple of the step. Between two level
  boundaries the margin is at most the floor of a line in the quantity, which is what pruning an
  interval relies on; over all segments the funded sizes are a prefix of the grid.
\<close>

subsection \<open>Levels cut to the grid\<close>

definition resize :: "int \<Rightarrow> int \<Rightarrow> buy_level \<Rightarrow> buy_level" where
  "resize step cap level =
     level\<lparr>bl_quantity := quantity_of (min (quantity_raw (bl_quantity level)) cap div step * step)\<rparr>"

definition trim :: "int \<Rightarrow> int \<Rightarrow> buy_level list \<Rightarrow> buy_level list" where
  "trim step cap levels = filter (\<lambda>level. quantity_raw (bl_quantity level) \<noteq> 0) (map (resize step cap) levels)"

definition trimmed :: "int \<Rightarrow> int \<Rightarrow> buy_depth \<Rightarrow> buy_depth" where
  "trimmed step cap depth = depth\<lparr>bd_levels := trim step cap (bd_levels depth)\<rparr>"

lemma trimmed_simps [simp]:
  "bd_levels (trimmed step cap depth) = trim step cap (bd_levels depth)"
  "bd_fees (trimmed step cap depth) = bd_fees depth"
  by (simp_all add: trimmed_def)

definition grid_params :: "int \<Rightarrow> int \<Rightarrow> bool" where
  "grid_params step cap \<longleftrightarrow> (step = 1 \<or> step = 100) \<and> step \<le> cap \<and> cap \<le> 100000000"

lemma resize_raw:
  assumes "grid_params step cap"
  shows "quantity_raw (bl_quantity (resize step cap level)) = min (quantity_raw (bl_quantity level)) cap div step * step"
    and "bl_price (resize step cap level) = bl_price level"
    and "quantity_raw (bl_quantity (resize step cap level)) mod step = 0"
    and "quantity_raw (bl_quantity (resize step cap level)) \<le> cap"
proof -
  let ?m = "min (quantity_raw (bl_quantity level)) cap"
  have m: "0 \<le> ?m" "?m \<le> cap" using assms by (auto simp: grid_params_def)
  have "0 \<le> ?m div step * step" "?m div step * step \<le> ?m"
    using m assms by (auto simp: grid_params_def pos_imp_zdiv_nonneg_iff)
  then show raw: "quantity_raw (bl_quantity (resize step cap level)) = ?m div step * step"
    using m assms by (simp add: resize_def grid_params_def)
  show "quantity_raw (bl_quantity (resize step cap level)) \<le> cap"
    using raw \<open>?m div step * step \<le> ?m\<close> m by linarith
  show "bl_price (resize step cap level) = bl_price level" by (simp add: resize_def)
  show "quantity_raw (bl_quantity (resize step cap level)) mod step = 0" by (simp add: raw)
qed

lemma trim_snoc: "k < length levels \<Longrightarrow> trim step cap (take (Suc k) levels) =
    trim step cap (take k levels) @
      (if quantity_raw (bl_quantity (resize step cap (levels ! k))) = 0 then [] else [resize step cap (levels ! k)])"
  by (simp add: trim_def take_Suc_conv_app_nth)

lemma trim_split: "trim step cap levels = trim step cap (take k levels) @ trim step cap (drop k levels)"
  by (simp add: trim_def flip: filter_append map_append)

lemma trim_drop: "k < length levels \<Longrightarrow> quantity_raw (bl_quantity (resize step cap (levels ! k))) \<noteq> 0 \<Longrightarrow>
    trim step cap (drop k levels) = resize step cap (levels ! k) # trim step cap (drop (Suc k) levels)"
  by (simp add: trim_def flip: Cons_nth_drop_Suc)

lemma ascending_prices_iff:
  "ascending_prices previous levels \<longleftrightarrow> sorted_wrt (<) (previous # level_prices levels)"
  by (induction levels arbitrary: previous) auto

lemma sorted_trim:
  assumes "grid_params step cap" and "sorted_wrt (<) (level_prices levels)"
  shows "sorted_wrt (<) (level_prices (trim step cap levels))"
  using assms(2)
  by (induction levels) (auto simp: trim_def resize_raw(2) [OF assms(1)])

lemma trim_length: "length (trim step cap levels) \<le> length levels"
  unfolding trim_def by (metis length_filter_le length_map)

lemma trimmed_ok:
  assumes "grid_params step cap" and "valid_depth depth"
  shows "leg_ok (trimmed step cap depth)" "stepped step (trimmed step cap depth)"
proof -
  have "sorted_wrt (<) (level_prices (bd_levels depth))"
    using assms(2) by (simp add: valid_depth_def ascending_prices_iff)
  moreover have "length (trim step cap (bd_levels depth)) \<le> 10001"
    using assms(2) trim_length [of step cap "bd_levels depth"] by (simp add: valid_depth_def)
  moreover have "\<forall>level \<in> set (trim step cap (bd_levels depth)). quantity_raw (bl_quantity level) \<noteq> 0"
    by (simp add: trim_def)
  ultimately show "leg_ok (trimmed step cap depth)"
    using assms(2) sorted_trim [OF assms(1)] by (simp add: leg_ok_def valid_depth_def valid_fee_iff)
  show "stepped step (trimmed step cap depth)"
    using assms(1) resize_raw(3) [OF assms(1)] by (auto simp: stepped_def trim_def grid_params_def)
qed


subsection \<open>Cursors\<close>

definition net_inv :: "buy_depth \<Rightarrow> int \<Rightarrow> int \<Rightarrow> cursor \<Rightarrow> bool" where
  "net_inv depth step cap cursor \<longleftrightarrow>
     cu_depth cursor = depth \<and> cu_step cursor = step \<and> cu_cap cursor = cap \<and>
     cu_index cursor \<le> length (bd_levels depth) \<and>
     cu_prefix_quantity cursor = levels_total (trim step cap (take (cu_index cursor) (bd_levels depth))) \<and>
     ladder charge_buy_fill (bd_fees depth) (whole (trim step cap (take (cu_index cursor) (bd_levels depth)))) \<lparr>rounding_micro = 0\<rparr> =
       Some (cu_prefix_notional cursor, cu_prefix_debit cursor, cu_accumulator cursor)"

definition at_level :: "cursor \<Rightarrow> bool" where
  "at_level cursor \<longleftrightarrow> cu_index cursor < length (cu_levels cursor) \<and> cursor_size cursor \<noteq> 0"

lemma net_inv_new: "net_inv depth step cap (new_cursor depth step cap)"
  by (simp add: net_inv_def new_cursor_def trim_def)

lemma cursor_size_eq:
  assumes "grid_params step cap" and "net_inv depth step cap cursor"
  shows "cursor_size cursor = quantity_raw (bl_quantity (resize step cap (bd_levels depth ! cu_index cursor)))"
  using assms(2) by (simp add: cursor_size_def resize_raw(1) [OF assms(1)] net_inv_def)

lemma net_inv_skip:
  assumes "grid_params step cap" and "net_inv depth step cap cursor" and "cu_index cursor < length (bd_levels depth)"
    and "cursor_size cursor = 0"
  shows "net_inv depth step cap (cursor\<lparr>cu_index := Suc (cu_index cursor)\<rparr>)"
  using assms(2-4) cursor_size_eq [OF assms(1,2)] by (simp add: net_inv_def trim_snoc)

lemma cursor_seek_inv:
  "grid_params step cap \<Longrightarrow> net_inv depth step cap cursor \<Longrightarrow>
     (case cursor_seek cursor of (found, cursor') \<Rightarrow>
        net_inv depth step cap cursor' \<and> cu_prefix_quantity cursor' = cu_prefix_quantity cursor \<and>
        (found \<longleftrightarrow> at_level cursor') \<and> (\<not> found \<longrightarrow> cu_index cursor' = length (bd_levels depth)))"
proof (induction cursor rule: cursor_seek.induct)
  case (1 cursor)
  have depth: "cu_levels cursor = bd_levels depth" using "1.prems"(2) by (simp add: net_inv_def)
  show ?case
  proof (cases "cu_index cursor < length (cu_levels cursor) \<and> cursor_size cursor = 0")
    case True
    have step: "cursor_seek cursor = cursor_seek (cursor\<lparr>cu_index := Suc (cu_index cursor)\<rparr>)"
      using True by (subst cursor_seek.simps) simp
    have "net_inv depth step cap (cursor\<lparr>cu_index := Suc (cu_index cursor)\<rparr>)"
      using net_inv_skip [OF "1.prems"] True depth by simp
    from "1.IH" [OF True "1.prems"(1) this] show ?thesis unfolding step by simp
  next
    case False
    then have step: "cursor_seek cursor = (cu_index cursor < length (cu_levels cursor), cursor)"
      by (subst cursor_seek.simps) auto
    show ?thesis
      unfolding step using "1.prems"(2) False depth by (auto simp: at_level_def net_inv_def)
  qed
qed

lemma cursor_seek_at: "at_level cursor \<Longrightarrow> cursor_seek cursor = (True, cursor)"
  by (subst cursor_seek.simps) (auto simp: at_level_def)

lemma cursor_size_pos:
  assumes "grid_params step cap" and "net_inv depth step cap cursor" and "at_level cursor"
  shows "step \<le> cursor_size cursor" "cursor_size cursor mod step = 0" "cursor_size cursor \<le> cap"
proof -
  note size = cursor_size_eq [OF assms(1,2)]
  show mod: "cursor_size cursor mod step = 0" "cursor_size cursor \<le> cap"
    unfolding size using resize_raw [OF assms(1)] by simp_all
  have "0 < cursor_size cursor"
    unfolding size using assms(3) size quantity_raw_bounds(1) by (simp add: at_level_def less_le)
  with mod show "step \<le> cursor_size cursor" by (intro zdvd_imp_le) auto
qed

text \<open>The fills of a quantity that ends in the cursor's current level.\<close>

lemma net_inv_walk:
  assumes "grid_params step cap" and "net_inv depth step cap cursor" and "at_level cursor"
    and "cu_prefix_quantity cursor < q" and "q \<le> cursor_end cursor"
  shows "walk (trim step cap (bd_levels depth)) q =
    Some (whole (trim step cap (take (cu_index cursor) (bd_levels depth))) @
          [(quantity_value (q - cu_prefix_quantity cursor), cursor_price cursor)])"
proof -
  let ?levels = "bd_levels depth" and ?k = "cu_index cursor"
  have depth: "cu_depth cursor = depth" using assms(2) by (simp add: net_inv_def)
  note size = cursor_size_eq [OF assms(1,2)]
  have drop: "trim step cap (drop ?k ?levels) = resize step cap (?levels ! ?k) # trim step cap (drop (Suc ?k) ?levels)"
    using assms(3) size depth by (intro trim_drop) (simp_all add: at_level_def)
  have total: "levels_total (trim step cap (take ?k ?levels)) < q" "cu_prefix_quantity cursor = levels_total (trim step cap (take ?k ?levels))"
    using assms(2,4) by (simp_all add: net_inv_def)
  have "q - levels_total (trim step cap (take ?k ?levels)) \<le> quantity_raw (bl_quantity (resize step cap (?levels ! ?k)))"
    using assms(5) by (simp add: cursor_end_def size total(2) [symmetric])
  then show ?thesis
    unfolding trim_split [of step cap ?levels ?k] walk_append [OF total(1)] drop
    by (simp add: total(2) cursor_price_def depth resize_raw(2) [OF assms(1)])
qed

definition prefix_fills :: "cursor \<Rightarrow> (quantity \<times> price) list" where
  "prefix_fills cursor = whole (trim (cu_step cursor) (cu_cap cursor) (take (cu_index cursor) (cu_levels cursor)))"

lemma prefix_fills_length: "length (prefix_fills cursor) \<le> length (cu_levels cursor)"
  using trim_length [of "cu_step cursor" "cu_cap cursor" "take (cu_index cursor) (cu_levels cursor)"]
  by (simp add: prefix_fills_def)

lemma net_inv_ladder:
  "net_inv depth step cap cursor \<Longrightarrow> ladder charge_buy_fill (bd_fees depth) (prefix_fills cursor) \<lparr>rounding_micro = 0\<rparr> =
     Some (cu_prefix_notional cursor, cu_prefix_debit cursor, cu_accumulator cursor)"
  by (simp add: net_inv_def prefix_fills_def)

lemma net_inv_accounts:
  assumes "net_inv depth step cap cursor"
  shows "cu_prefix_debit cursor = cu_prefix_notional cursor + fills_fee (bd_fees depth) (prefix_fills cursor) + int (acc_nat (cu_accumulator cursor))"
    and "acc_nat (cu_accumulator cursor) \<le> 10000 * length (bd_levels depth)"
proof -
  note accounts = fees.ladder_accounts [OF net_inv_ladder [OF assms]]
  then show "cu_prefix_debit cursor = cu_prefix_notional cursor + fills_fee (bd_fees depth) (prefix_fills cursor) + int (acc_nat (cu_accumulator cursor))"
    by simp
  have "cu_levels cursor = bd_levels depth" using assms by (simp add: net_inv_def)
  then show "acc_nat (cu_accumulator cursor) \<le> 10000 * length (bd_levels depth)"
    using accounts prefix_fills_length [of cursor] by simp
qed

lemma cursor_charge_total:
  assumes "grid_params step cap" and "valid_depth depth" and "net_inv depth step cap cursor"
    and "0 < n" and "n \<le> 100000000"
  shows "\<exists>c acc. charge_buy_fill (quantity_value n) (cursor_price cursor) (bd_fees depth) (cu_accumulator cursor) = Some (c, acc)"
proof (rule charge_total)
  show "policy_ok (bd_fees depth)" using assms(2) by (simp add: valid_depth_def valid_fee_iff)
  show "acc_nat (cu_accumulator cursor) \<le> 1000000000000"
    using net_inv_accounts(2) [OF assms(3)] assms(2) by (simp add: valid_depth_def)
qed (use assms(4,5) in simp_all)

lemma cursor_advance_inv:
  assumes "grid_params step cap" and "valid_depth depth" and "net_inv depth step cap cursor" and "at_level cursor"
  shows "\<exists>cursor'. cursor_advance cursor = Some cursor' \<and> net_inv depth step cap cursor' \<and>
    cu_prefix_quantity cursor' = cursor_end cursor"
proof -
  let ?n = "cursor_size cursor"
  have depth: "cu_depth cursor = depth" "cu_step cursor = step" "cu_cap cursor = cap" using assms(3) by (simp_all add: net_inv_def)
  note size = cursor_size_pos [OF assms(1,3,4)] cursor_size_eq [OF assms(1,3)]
  have n: "0 < ?n" "?n \<le> 100000000" using size assms(1) by (auto simp: grid_params_def)
  obtain c acc where charge: "charge_buy_fill (quantity_value ?n) (cursor_price cursor) (bd_fees depth) (cu_accumulator cursor) = Some (c, acc)"
    using cursor_charge_total [OF assms(1-3) n] by blast
  have level: "resize step cap (bd_levels depth ! cu_index cursor) = \<lparr>bl_price = cursor_price cursor, bl_quantity = quantity_value ?n\<rparr>"
    using resize_raw(2) [OF assms(1)] depth
    by (intro buy_level.equality) (simp_all add: size(4) cursor_price_def)
  have snoc: "trim step cap (take (Suc (cu_index cursor)) (bd_levels depth)) =
      trim step cap (take (cu_index cursor) (bd_levels depth)) @ [resize step cap (bd_levels depth ! cu_index cursor)]"
    using assms(4) depth n size(4) by (simp add: trim_snoc at_level_def)
  have "cu_index cursor < length (bd_levels depth)" using assms(4) depth by (simp add: at_level_def)
  then show ?thesis
    using assms(3) n charge ladder_snoc [OF net_inv_ladder [OF assms(3)], of "quantity_value ?n" "cursor_price cursor" "[]"]
    unfolding cursor_advance_def Let_def depth(1) charge
    by (simp add: net_inv_def snoc level cursor_end_def prefix_fills_def depth)
qed


subsection \<open>One evaluation\<close>

text \<open>
  The line of a leg within a level, in units of the fee denominator: notional and exact fees, with
  the fees of the levels before as they were rounded.
\<close>

definition fee_factor :: "buy_depth \<Rightarrow> int \<Rightarrow> int" where
  "fee_factor depth p = int (coeff_nat (bd_fees depth)) * p * (10000 - p)"

definition leg_line :: "cursor \<Rightarrow> int \<Rightarrow> int" where
  "leg_line cursor q =
     10000000000 * (cu_prefix_notional cursor + fills_fee (bd_fees (cu_depth cursor)) (prefix_fills cursor)) +
     (q - cu_prefix_quantity cursor) * (10000000000 * price_raw (cursor_price cursor) +
        fee_factor (cu_depth cursor) (price_raw (cursor_price cursor)))"

lemma unat_word_of_int': "0 \<le> i \<Longrightarrow> i < 18446744073709551616 \<Longrightarrow> int (unat (word_of_int i :: u64)) = i"
  by (simp add: unat_word_of_int)

lemma round_up_rest: "(m :: nat) < d \<Longrightarrow> m \<le> x \<Longrightarrow> x - m = d * k \<Longrightarrow> d - m + x = d * (k + 1)"
  by (simp add: algebra_simps)

lemma fee_error_word:
  assumes "0 \<le> n" and "n \<le> 100000000" and "policy_ok fees" and "0 \<le> p" and "p \<le> 10000"
  shows "let pw = word_of_int p :: u64;
      factor = ucast (coefficient_ppm fees) * pw * (10000 - pw) :: u64;
      rmd = (word_of_int n * (factor mod word_of_int net_fee_denominator)) mod word_of_int net_fee_denominator;
      fee_error = (if rmd \<noteq> 0 then word_of_int net_fee_denominator - rmd else 0)
    in int (unat fee_error) = 10000000000 * int (trade_fee (coeff_nat fees) (nat n) (nat p)) - n * (int (coeff_nat fees) * p * (10000 - p))"
proof -
  define c pn qn where "c = coeff_nat fees" and "pn = nat p" and "qn = nat n"
  have c: "c \<le> 1000000" using assms(3) by (simp add: c_def policy_ok_def word_le_nat_alt)
  have pn: "pn \<le> 10000" "int pn = p" and qn: "qn \<le> 100000000" "int qn = n" using assms by (simp_all add: pn_def qn_def)
  define pw :: u64 where "pw = word_of_int p"
  define factor :: u64 where "factor = ucast (coefficient_ppm fees) * pw * (10000 - pw)"
  define rmd :: u64 where "rmd = (word_of_int n * (factor mod word_of_int net_fee_denominator)) mod word_of_int net_fee_denominator"
  have dw: "unat (word_of_int net_fee_denominator :: u64) = 10000000000"
    by (simp add: net_fee_denominator_def)
  have pw: "unat pw = pn" using assms by (simp add: pw_def pn_def unat_word_of_int)
  have nw: "unat (word_of_int n :: u64) = qn" using assms by (simp add: qn_def unat_word_of_int)
  have cw: "unat (ucast (coefficient_ppm fees) :: u64) = c"
    using unat_u32_bound [of "coefficient_ppm fees"] by (simp add: c_def unsigned_ucast_eq take_bit_nat_eq_self)
  have cp: "c * pn \<le> 1000000 * 10000" using c pn by (intro mult_le_mono)
  have "c * pn * (10000 - pn) \<le> 1000000 * 10000 * 10000" by (rule mult_le_mono [OF cp]) simp
  then have factor: "unat factor = c * pn * (10000 - pn)"
    using cp pn pw cw by (simp add: factor_def unat_mult_exact unat_sub_exact)
  have "unat (factor mod word_of_int net_fee_denominator) < 10000000000"
    unfolding unat_mod dw by simp
  then have "qn * unat (factor mod word_of_int net_fee_denominator) \<le> 100000000 * 10000000000"
    using qn by (intro mult_le_mono) simp_all
  then have "unat (word_of_int n * (factor mod word_of_int net_fee_denominator) :: u64) = qn * (c * pn * (10000 - pn) mod 10000000000)"
    using nw by (subst unat_mult_exact) (simp_all add: unat_mod dw factor)
  then have rmd: "unat rmd = qn * (c * pn * (10000 - pn)) mod 10000000000"
    by (simp add: rmd_def unat_mod dw mod_mult_right_eq)
  have "unat (if rmd \<noteq> 0 then word_of_int net_fee_denominator - rmd else 0) + qn * (c * pn * (10000 - pn)) =
      10000000000 * trade_fee c qn pn"
  proof -
    define x where "x = qn * (c * pn * (10000 - pn))"
    have lt: "x mod 10000000000 < 10000000000" by simp
    have x: "x = 10000000000 * (x div 10000000000) + x mod 10000000000" by simp
    have zero: "rmd = 0 \<longleftrightarrow> x mod 10000000000 = 0" using rmd by (simp add: word_unat_eq_iff x_def)
    have fee: "trade_fee c qn pn = ceil_div x 10000000000" by (simp only: trade_fee_def x_def)
    show ?thesis
      unfolding fee x_def [symmetric]
    proof (cases "rmd = 0")
      case True
      then show "unat (if rmd \<noteq> 0 then word_of_int net_fee_denominator - rmd else 0) + x = 10000000000 * ceil_div x 10000000000"
        using zero x by (simp add: ceil_div_def)
    next
      case False
      then have "unat (word_of_int net_fee_denominator - rmd) = 10000000000 - x mod 10000000000"
        using rmd lt by (simp add: unat_sub_exact dw x_def [symmetric])
      moreover have "ceil_div x 10000000000 = x div 10000000000 + 1" using False zero by (simp add: ceil_div_def)
      moreover have "x - x mod 10000000000 = 10000000000 * (x div 10000000000)" "x mod 10000000000 \<le> x"
        by (rule minus_mod_eq_mult_div) simp
      ultimately show "unat (if rmd \<noteq> 0 then word_of_int net_fee_denominator - rmd else 0) + x = 10000000000 * ceil_div x 10000000000"
        using False lt by (simp only: if_True not_False_eq_True round_up_rest)
    qed
  qed
  then have "int (unat (if rmd \<noteq> 0 then word_of_int net_fee_denominator - rmd else 0)) + int (qn * (c * pn * (10000 - pn))) =
      10000000000 * int (trade_fee c qn pn)"
    by (simp only: of_nat_add [symmetric] of_nat_mult [symmetric])
  moreover have "int (qn * (c * pn * (10000 - pn))) = n * (int c * p * (10000 - p))"
    using pn qn by (simp add: of_nat_diff)
  ultimately show ?thesis
    unfolding Let_def pw_def [symmetric] factor_def [symmetric] rmd_def [symmetric] c_def [symmetric] pn_def [symmetric] qn_def [symmetric]
    by linarith
qed

lemma evaluate_leg_eq:
  assumes "grid_params (quantity_raw (sl_step (se_limits s))) cap" and "valid_depth depth"
    and "net_inv depth (quantity_raw (sl_step (se_limits s))) cap cursor" and "at_level cursor"
    and "cu_prefix_quantity cursor < q" and "q \<le> cursor_end cursor" and "q \<le> cap"
    and "q mod quantity_raw (sl_step (se_limits s)) = 0"
  shows "\<exists>acc err. evaluate_leg s cursor q =
      Some (the (leg_offer (quantity_raw (sl_step (se_limits s))) (trimmed (quantity_raw (sl_step (se_limits s))) cap depth) q), acc, err) \<and>
    0 \<le> acc \<and> acc \<le> 100030000 \<and> unat err < 10000000000 \<and>
    10000000000 * (cash_raw (sz_debit (the (leg_offer (quantity_raw (sl_step (se_limits s))) (trimmed (quantity_raw (sl_step (se_limits s))) cap depth) q))) - acc) =
      leg_line cursor q + int (unat err)"
proof -
  define step where "step = quantity_raw (sl_step (se_limits s))"
  define n where "n = q - cu_prefix_quantity cursor"
  note gp = assms(1) [folded step_def] and inv = assms(3) [folded step_def]
  have depth: "cu_depth cursor = depth" "cu_levels cursor = bd_levels depth" using inv by (simp_all add: net_inv_def)
  have pol: "policy_ok (bd_fees depth)" using assms(2) by (simp add: valid_depth_def valid_fee_iff)
  have prefix: "0 \<le> cu_prefix_quantity cursor" using inv by (simp add: net_inv_def levels_total_nonneg)
  have q: "0 < q" "q \<le> 100000000" "0 < n" "n \<le> 100000000"
    using prefix assms(5,7) gp by (auto simp: grid_params_def n_def)
  obtain c acc where charge: "charge_buy_fill (quantity_value n) (cursor_price cursor) (bd_fees depth) (cu_accumulator cursor) = Some (c, acc)"
    using cursor_charge_total [OF gp assms(2) inv q(3,4)] by blast
  have fills: "whole (trim step cap (take (cu_index cursor) (bd_levels depth))) = prefix_fills cursor"
    using inv by (simp add: prefix_fills_def net_inv_def)
  note walk = net_inv_walk [OF gp inv assms(4-6), folded n_def, unfolded fills]
  have ladder: "ladder charge_buy_fill (bd_fees depth) (prefix_fills cursor @ [(quantity_value n, cursor_price cursor)]) \<lparr>rounding_micro = 0\<rparr> =
      Some (cu_prefix_notional cursor + cash_raw (fc_notional c), cu_prefix_debit cursor + cash_raw (fc_debit c), acc)"
    using ladder_snoc [OF net_inv_ladder [OF inv], of "quantity_value n" "cursor_price cursor" "[]"] charge by simp
  have step: "step = 1 \<or> step = 100" using gp by (simp add: grid_params_def)
  have sq: "quantity_value step = sl_step (se_limits s)" by (simp add: step_def)
  have rok: "reserve_ok (bd_fees depth) step q" using pol q step assms(8) by (auto simp: reserve_ok_def step_def)
  then obtain r where reserve: "buy_reservation (quantity_value q) (sl_step (se_limits s)) (cursor_price cursor) (bd_fees depth) = Some r"
    using q by (simp add: buy_reservation_eq step_def)
  have offer: "leg_offer step (trimmed step cap depth) q = Some \<lparr>sz_limit = cursor_price cursor,
      sz_notional = cash_at (cu_prefix_notional cursor + cash_raw (fc_notional c)),
      sz_debit = cash_at (cu_prefix_debit cursor + cash_raw (fc_debit c)), sz_reservation = r\<rparr>"
    using walk ladder reserve by (simp add: leg_offer_def sq)
  define p where "p = price_raw (cursor_price cursor)"
  define fee where "fee = int (trade_fee (coeff_nat (bd_fees depth)) (nat n) (nat p))"
  define err :: u64 where "err = (let pw = word_of_int p :: u64;
      factor = ucast (coefficient_ppm (bd_fees depth)) * pw * (10000 - pw) :: u64;
      rmd = (word_of_int n * (factor mod word_of_int net_fee_denominator)) mod word_of_int net_fee_denominator
    in if rmd \<noteq> 0 then word_of_int net_fee_denominator - rmd else 0)"
  have err: "int (unat err) = 10000000000 * fee - n * (int (coeff_nat (bd_fees depth)) * p * (10000 - p))"
    using fee_error_word [of n "bd_fees depth" p] pol q by (simp add: err_def Let_def fee_def p_def)
  have rmd_lt: "unat (w mod word_of_int net_fee_denominator :: u64) < 10000000000" for w
    by (simp add: unat_mod net_fee_denominator_def)
  have err_lt: "unat err < 10000000000"
  proof -
    have "unat (word_of_int net_fee_denominator - w :: u64) < 10000000000" if "w \<noteq> 0" "unat w < 10000000000" for w
      using that by (subst unat_sub_exact) (auto simp: net_fee_denominator_def word_unat_eq_iff)
    then show ?thesis using rmd_lt by (simp add: err_def Let_def)
  qed
  have acc_le: "acc_nat acc \<le> 100030000"
    using charge_acc_growth [OF charge] net_inv_accounts(2) [OF inv] assms(2) by (simp add: valid_depth_def)
  then have acc: "sint (rounding_micro acc) = int (acc_nat acc)" by (intro sint_small) simp
  have eval: "evaluate_leg s cursor q = Some (the (leg_offer step (trimmed step cap depth) q), int (acc_nat acc), err)"
    unfolding evaluate_leg_def Let_def depth leg_reservation_def n_def [symmetric] charge reserve offer
    by (simp add: acc err_def Let_def p_def)
  have nonneg: "0 \<le> fills_notional (prefix_fills cursor)" unfolding fills_notional_def by (intro sum_list_nonneg) auto
  have prefix_debit: "0 \<le> cu_prefix_debit cursor"
    using fees.ladder_accounts [OF net_inv_ladder [OF inv]] nonneg by linarith
  have covered: "cash_raw (cash_at (cu_prefix_debit cursor + cash_raw (fc_debit c))) = cu_prefix_debit cursor + cash_raw (fc_debit c)"
  proof (rule cash_at_raw)
    show "0 \<le> cu_prefix_debit cursor + cash_raw (fc_debit c)" using prefix_debit by simp
    have ok: "leg_ok (trimmed step cap depth)" "stepped step (trimmed step cap depth)" by (rule trimmed_ok [OF gp assms(2)])+
    have "fills_within step (price_raw (cursor_price cursor)) (prefix_fills cursor @ [(quantity_value n, cursor_price cursor)]) \<and>
        fills_quantity (prefix_fills cursor @ [(quantity_value n, cursor_price cursor)]) = q"
      using walk_fills [OF walk q(1,2)] walk_fills_step [OF walk, of step] q ok assms(8)
      by (auto simp: leg_ok_def stepped_def fills_within_def step_def)
    then have "cu_prefix_debit cursor + cash_raw (fc_debit c) \<le> cash_raw r"
      using reservation_covers_lemma [OF _ _ reserve ladder] q by (simp add: step_def)
    then show "cu_prefix_debit cursor + cash_raw (fc_debit c) \<le> 9223372036854775807"
      using cash_raw_bounds(2) [of r] by linarith
  qed
  have "cash_raw (fc_debit c) + int (acc_nat (cu_accumulator cursor)) = n * p + fee + int (acc_nat acc)"
    using fees.charge_conserves [OF charge] q by (simp add: p_def fee_def)
  then have debit: "cu_prefix_debit cursor + cash_raw (fc_debit c) - int (acc_nat acc) =
      cu_prefix_notional cursor + fills_fee (bd_fees depth) (prefix_fills cursor) + n * p + fee"
    using net_inv_accounts(1) [OF inv] by linarith
  have "10000000000 * (cu_prefix_debit cursor + cash_raw (fc_debit c) - int (acc_nat acc)) = leg_line cursor q + int (unat err)"
    unfolding debit err leg_line_def fee_factor_def depth n_def p_def by (simp add: algebra_simps)
  moreover have "int (acc_nat acc) \<le> 100030000" using acc_le by linarith
  ultimately show ?thesis using eval err_lt covered offer
    unfolding step_def [symmetric] by (intro exI [of _ "int (acc_nat acc)"] exI [of _ err]) simp
qed


subsection \<open>The pair\<close>

abbreviation pair_step :: "sizing_limits \<Rightarrow> int" where
  "pair_step limits \<equiv> quantity_raw (sl_step limits)"

abbreviation pair_cap :: "sizing_limits \<Rightarrow> int" where
  "pair_cap limits \<equiv> quantity_raw (sl_cap limits)"

definition pair_legs :: "buy_depth \<times> buy_depth \<Rightarrow> sizing_limits \<Rightarrow> buy_depth list" where
  "pair_legs depth limits =
     [trimmed (pair_step limits) (pair_cap limits) (fst depth), trimmed (pair_step limits) (pair_cap limits) (snd depth)]"

definition pair_offer :: "buy_depth \<times> buy_depth \<Rightarrow> sizing_limits \<Rightarrow> int \<Rightarrow> sized_leg \<times> sized_leg" where
  "pair_offer depth limits q =
     (the (leg_offer (pair_step limits) (trimmed (pair_step limits) (pair_cap limits) (fst depth)) q),
      the (leg_offer (pair_step limits) (trimmed (pair_step limits) (pair_cap limits) (snd depth)) q))"

definition pair_margin :: "buy_depth \<times> buy_depth \<Rightarrow> sizing_limits \<Rightarrow> int \<Rightarrow> int" where
  "pair_margin depth limits q = q * 10000 - leg_cost (pair_step limits) sz_debit (pair_legs depth limits) q"

definition pair_reserve :: "buy_depth \<times> buy_depth \<Rightarrow> sizing_limits \<Rightarrow> int \<Rightarrow> int" where
  "pair_reserve depth limits q = leg_cost (pair_step limits) sz_reservation (pair_legs depth limits) q"

definition pair_grid :: "buy_depth \<times> buy_depth \<Rightarrow> sizing_limits \<Rightarrow> int \<Rightarrow> bool" where
  "pair_grid depth limits q \<longleftrightarrow> 0 < q \<and> q mod pair_step limits = 0 \<and> q \<le> pair_cap limits \<and>
     depth_covers (pair_step limits) (pair_legs depth limits) q"

definition pair_funded :: "buy_depth \<times> buy_depth \<Rightarrow> sizing_limits \<Rightarrow> int \<Rightarrow> bool" where
  "pair_funded depth limits q \<longleftrightarrow> pair_reserve depth limits q \<le> cash_raw (sl_available limits)"

definition pair_candidate :: "buy_depth \<times> buy_depth \<Rightarrow> sizing_limits \<Rightarrow> int \<Rightarrow> bool" where
  "pair_candidate depth limits q \<longleftrightarrow> pair_grid depth limits q \<and> pair_funded depth limits q \<and>
     cash_raw (sl_minimum_margin limits) < pair_margin depth limits q"

definition pair_preferred :: "buy_depth \<times> buy_depth \<Rightarrow> sizing_limits \<Rightarrow> int \<Rightarrow> int \<Rightarrow> bool" where
  "pair_preferred depth limits q q' \<longleftrightarrow>
     pair_margin depth limits q' < pair_margin depth limits q \<or>
     (pair_margin depth limits q' = pair_margin depth limits q \<and>
      (pair_reserve depth limits q < pair_reserve depth limits q' \<or>
       (pair_reserve depth limits q = pair_reserve depth limits q' \<and> q \<le> q')))"

definition pair_ok :: "buy_depth \<times> buy_depth \<Rightarrow> sizing_limits \<Rightarrow> bool" where
  "pair_ok depth limits \<longleftrightarrow> grid_params (pair_step limits) (pair_cap limits) \<and> valid_depth (fst depth) \<and> valid_depth (snd depth) \<and>
     cash_raw (sl_available limits) \<le> 1000000000000000 \<and> cash_raw (sl_minimum_margin limits) \<le> 1000000000000000 \<and>
     sl_max_evaluations limits \<noteq> 0"

lemma pair_ok_simps:
  assumes "pair_ok depth limits"
  shows "grid_params (pair_step limits) (pair_cap limits)" "valid_depth (fst depth)" "valid_depth (snd depth)"
    "0 < pair_step limits" "pair_cap limits \<le> 100000000"
  using assms by (auto simp: pair_ok_def grid_params_def)

lemma pair_grid_iff:
  assumes "pair_ok depth limits"
  shows "pair_grid depth limits q \<longleftrightarrow> 0 < q \<and> q mod pair_step limits = 0 \<and> q \<le> pair_cap limits \<and>
    q \<le> levels_total (trim (pair_step limits) (pair_cap limits) (bd_levels (fst depth))) \<and>
    q \<le> levels_total (trim (pair_step limits) (pair_cap limits) (bd_levels (snd depth)))"
  using trimmed_ok [OF pair_ok_simps(1,2) [OF assms]] trimmed_ok [OF pair_ok_simps(1,3) [OF assms]]
  by (auto simp: pair_grid_def depth_covers_def pair_legs_def)

lemma pair_grid_below:
  "pair_grid depth limits q' \<Longrightarrow> 0 < q \<Longrightarrow> q \<le> q' \<Longrightarrow> q mod pair_step limits = 0 \<Longrightarrow> pair_grid depth limits q"
  by (auto simp: pair_grid_def depth_covers_def)

lemma pair_reserve_mono:
  assumes "pair_ok depth limits" and "pair_grid depth limits q'" and "pair_grid depth limits q" and "q \<le> q'"
  shows "pair_reserve depth limits q \<le> pair_reserve depth limits q'"
proof (rule ccontr)
  assume "\<not> pair_reserve depth limits q \<le> pair_reserve depth limits q'"
  then have "pair_reserve depth limits q' < leg_cost (pair_step limits) sz_reservation (pair_legs depth limits) q"
    by (simp add: pair_reserve_def)
  from funding_prefix [OF _ _ assms(4) _ _ _ this] assms pair_ok_simps(5) [OF assms(1)] show False
    by (simp add: pair_grid_def pair_reserve_def)
qed

text \<open>The line that bounds the margin within a pair of levels, and its slope.\<close>

definition pair_line :: "cursor \<times> cursor \<Rightarrow> int \<Rightarrow> int" where
  "pair_line cursors q = 10000000000 * (q * 10000) - leg_line (fst cursors) q - leg_line (snd cursors) q"

lemma pair_line_slope: "pair_line cursors y - pair_line cursors x = (y - x) * segment_slope cursors"
  by (simp add: pair_line_def leg_line_def fee_factor_def segment_slope_def Let_def net_fee_denominator_def algebra_simps)

lemma pair_line_mono:
  "0 \<le> segment_slope cursors \<Longrightarrow> x \<le> y \<Longrightarrow> pair_line cursors x \<le> pair_line cursors y"
  "segment_slope cursors < 0 \<Longrightarrow> x \<le> y \<Longrightarrow> pair_line cursors y \<le> pair_line cursors x"
  using pair_line_slope [of cursors y x] mult_nonneg_nonneg [of "y - x" "segment_slope cursors"]
    mult_nonneg_nonpos [of "y - x" "segment_slope cursors"] by linarith+

text \<open>A quantity that ends in the current level of both cursors.\<close>

definition in_segment :: "buy_depth \<times> buy_depth \<Rightarrow> sizing_limits \<Rightarrow> cursor \<times> cursor \<Rightarrow> int \<Rightarrow> bool" where
  "in_segment depth limits cursors q \<longleftrightarrow>
     q mod pair_step limits = 0 \<and> q \<le> pair_cap limits \<and>
     cu_prefix_quantity (fst cursors) < q \<and> q \<le> cursor_end (fst cursors) \<and>
     cu_prefix_quantity (snd cursors) < q \<and> q \<le> cursor_end (snd cursors)"

definition cursors_ok :: "buy_depth \<times> buy_depth \<Rightarrow> sizing_limits \<Rightarrow> cursor \<times> cursor \<Rightarrow> bool" where
  "cursors_ok depth limits cursors \<longleftrightarrow>
     net_inv (fst depth) (pair_step limits) (pair_cap limits) (fst cursors) \<and>
     net_inv (snd depth) (pair_step limits) (pair_cap limits) (snd cursors)"

definition fits :: "buy_depth \<times> buy_depth \<Rightarrow> sizing_limits \<Rightarrow> evaluation \<Rightarrow> bool" where
  "fits depth limits e \<longleftrightarrow> ev_legs e = pair_offer depth limits (ev_q e) \<and>
     ev_margin e = pair_margin depth limits (ev_q e) \<and> ev_reserve e = pair_reserve depth limits (ev_q e)"

lemma cursor_end_total:
  assumes "grid_params step cap" and "net_inv depth step cap cursor" and "at_level cursor"
  shows "cursor_end cursor \<le> levels_total (trim step cap (bd_levels depth))"
proof -
  have depth: "cu_depth cursor = depth" using assms(2) by (simp add: net_inv_def)
  have "trim step cap (drop (cu_index cursor) (bd_levels depth)) =
      resize step cap (bd_levels depth ! cu_index cursor) # trim step cap (drop (Suc (cu_index cursor)) (bd_levels depth))"
    using assms(3) depth cursor_size_eq [OF assms(1,2)] by (intro trim_drop) (simp_all add: at_level_def)
  then show ?thesis
    using assms(2) levels_total_nonneg [of "trim step cap (drop (Suc (cu_index cursor)) (bd_levels depth))"]
    by (subst trim_split [of step cap _ "cu_index cursor"])
      (simp add: cursor_end_def cursor_size_eq [OF assms(1,2)] net_inv_def)
qed

lemma in_segment_grid:
  assumes "pair_ok depth limits" and "cursors_ok depth limits cursors"
    and "at_level (fst cursors)" and "at_level (snd cursors)" and "in_segment depth limits cursors q"
  shows "pair_grid depth limits q"
proof -
  note ok = pair_ok_simps [OF assms(1)]
  have "0 \<le> cu_prefix_quantity (fst cursors)"
    using assms(2) by (simp add: cursors_ok_def net_inv_def levels_total_nonneg)
  then show ?thesis
    using assms cursor_end_total [OF ok(1), of "fst depth" "fst cursors"] cursor_end_total [OF ok(1), of "snd depth" "snd cursors"]
    by (simp add: pair_grid_iff cursors_ok_def in_segment_def)
qed

lemma line_arith:
  "c * (d0 - a0) = l0 + e0 \<Longrightarrow> c * (d1 - a1) = l1 + e1 \<Longrightarrow> c * p - l0 - l1 = c * (p - d0 - d1 + (a0 + a1)) + (e0 + e1)"
  for c :: int
  by (simp add: algebra_simps)

lemma evaluate_eq:
  assumes "pair_ok depth limits" and "se_limits s = limits" and "cursors_ok depth limits (se_cursors s)"
    and "at_level (fst (se_cursors s))" and "at_level (snd (se_cursors s))"
    and "in_segment depth limits (se_cursors s) q"
  shows "\<exists>e. ev_q e = q \<and> fits depth limits e \<and> ev_upper e = pair_line (se_cursors s) q div 10000000000 \<and>
      ev_margin e \<le> ev_upper e \<and>
      evaluate q s =
        (if sr_evaluated_quantities (se_result s) = sl_max_evaluations limits
         then (None, s\<lparr>se_result := (se_result s)\<lparr>sr_status := Search_Budget_Exceeded\<rparr>\<rparr>)
         else (Some e, (s\<lparr>se_result := (se_result s)\<lparr>sr_evaluated_quantities := sr_evaluated_quantities (se_result s) + 1\<rparr>,
                  se_best := (if cash_raw (sl_minimum_margin limits) < ev_margin e \<and> better (ev_margin e) (ev_reserve e) q (se_best s)
                              then Some e else se_best s)\<rparr>)))"
proof -
  note ok = pair_ok_simps [OF assms(1)]
  define s1 where "s1 = s\<lparr>se_result := (se_result s)\<lparr>sr_evaluated_quantities := sr_evaluated_quantities (se_result s) + 1\<rparr>\<rparr>"
  have s1: "se_limits s1 = limits" "se_cursors s1 = se_cursors s" "se_best s1 = se_best s" using assms(2) by (simp_all add: s1_def)
  obtain acc0 err0 where leg0: "evaluate_leg s1 (fst (se_cursors s)) q = Some (fst (pair_offer depth limits q), acc0, err0)"
    "0 \<le> acc0" "acc0 \<le> 100030000" "unat err0 < 10000000000"
    "10000000000 * (cash_raw (sz_debit (fst (pair_offer depth limits q))) - acc0) = leg_line (fst (se_cursors s)) q + int (unat err0)"
    using evaluate_leg_eq [of s1 "pair_cap limits" "fst depth" "fst (se_cursors s)" q] ok assms(3-6) s1
    by (auto simp: cursors_ok_def in_segment_def pair_offer_def)
  obtain acc1 err1 where leg1: "evaluate_leg s1 (snd (se_cursors s)) q = Some (snd (pair_offer depth limits q), acc1, err1)"
    "0 \<le> acc1" "acc1 \<le> 100030000" "unat err1 < 10000000000"
    "10000000000 * (cash_raw (sz_debit (snd (pair_offer depth limits q))) - acc1) = leg_line (snd (se_cursors s)) q + int (unat err1)"
    using evaluate_leg_eq [of s1 "pair_cap limits" "snd depth" "snd (se_cursors s)" q] ok assms(3-6) s1
    by (auto simp: cursors_ok_def in_segment_def pair_offer_def)
  define margin where "margin = q * 10000 - cash_raw (sz_debit (fst (pair_offer depth limits q))) - cash_raw (sz_debit (snd (pair_offer depth limits q)))"
  define reserve where "reserve = cash_raw (sz_reservation (fst (pair_offer depth limits q))) + cash_raw (sz_reservation (snd (pair_offer depth limits q)))"
  have "unat (err0 + err1) = unat err0 + unat err1" using leg0(4) leg1(4) by (intro unat_add_exact) simp
  then have "unat ((err0 + err1) div word_of_int net_fee_denominator) = (unat err0 + unat err1) div 10000000000"
    by (simp add: unat_div net_fee_denominator_def)
  moreover have "(unat err0 + unat err1) div 10000000000 \<le> unat err0 + unat err1" by (rule div_le_dividend)
  ultimately have err: "sint ((err0 + err1) div word_of_int net_fee_denominator) = (int (unat err0) + int (unat err1)) div 10000000000"
    using leg0(4) leg1(4) by (subst sint_small) (simp_all add: zdiv_int)
  define e where "e = \<lparr>ev_q = q, ev_legs = pair_offer depth limits q, ev_margin = margin, ev_reserve = reserve,
      ev_upper = margin + (acc0 + acc1) + sint ((err0 + err1) div word_of_int net_fee_denominator)\<rparr>"
  have line: "pair_line (se_cursors s) q = 10000000000 * (margin + (acc0 + acc1)) + (int (unat err0) + int (unat err1))"
    using leg0(5) leg1(5) unfolding pair_line_def margin_def by (rule line_arith)
  have upper: "ev_upper e = pair_line (se_cursors s) q div 10000000000"
    unfolding e_def err line by simp
  have "0 \<le> (int (unat err0) + int (unat err1)) div 10000000000" by (simp add: pos_imp_zdiv_nonneg_iff)
  then have le: "ev_margin e \<le> ev_upper e" using leg0(2) leg1(2) by (simp add: e_def err)
  have fit: "fits depth limits e"
    by (simp add: fits_def e_def pair_margin_def pair_reserve_def pair_legs_def margin_def reserve_def pair_offer_def)
  have "evaluate q s =
        (if sr_evaluated_quantities (se_result s) = sl_max_evaluations limits
         then (None, s\<lparr>se_result := (se_result s)\<lparr>sr_status := Search_Budget_Exceeded\<rparr>\<rparr>)
         else (Some e, (s\<lparr>se_result := (se_result s)\<lparr>sr_evaluated_quantities := sr_evaluated_quantities (se_result s) + 1\<rparr>,
                  se_best := (if cash_raw (sl_minimum_margin limits) < ev_margin e \<and> better (ev_margin e) (ev_reserve e) q (se_best s)
                              then Some e else se_best s)\<rparr>)))"
    unfolding evaluate_def assms(2) s1_def [symmetric] Let_def s1 leg0(1) leg1(1) option.case prod.case
      margin_def [symmetric] reserve_def [symmetric] prod.collapse e_def [symmetric]
    by (simp add: e_def s1_def)
  with fit upper le show ?thesis by (intro exI [of _ e]) (simp add: e_def)
qed


subsection \<open>The interval search\<close>

definition pair_best :: "buy_depth \<times> buy_depth \<Rightarrow> sizing_limits \<Rightarrow> int set \<Rightarrow> evaluation option \<Rightarrow> bool" where
  "pair_best depth limits V best \<longleftrightarrow>
     (case best of
        None \<Rightarrow> \<forall>q \<in> V. \<not> pair_candidate depth limits q
      | Some b \<Rightarrow> fits depth limits b \<and> pair_candidate depth limits (ev_q b) \<and>
          (\<forall>q \<in> V. pair_candidate depth limits q \<longrightarrow> pair_preferred depth limits (ev_q b) q))"

lemma pair_preferred_refl [simp]: "pair_preferred depth limits q q"
  by (simp add: pair_preferred_def)

lemma pair_preferred_trans:
  "pair_preferred depth limits q q' \<Longrightarrow> pair_preferred depth limits q' q'' \<Longrightarrow> pair_preferred depth limits q q''"
  by (auto simp: pair_preferred_def)

lemma pair_best_extend:
  assumes "pair_best depth limits V best"
    and "\<And>q. q \<in> V' \<Longrightarrow> pair_candidate depth limits q \<Longrightarrow>
      q \<in> V \<or> (\<exists>b. best = Some b \<and> pair_preferred depth limits (ev_q b) q)"
  shows "pair_best depth limits V' best"
  using assms by (cases best) (auto simp: pair_best_def)

lemma pair_best_update:
  assumes "pair_best depth limits V best" and "fits depth limits e" and "ev_q e = q"
    and "pair_grid depth limits q" and "pair_funded depth limits q"
  shows "pair_best depth limits (insert q V)
    (if cash_raw (sl_minimum_margin limits) < ev_margin e \<and> better (ev_margin e) (ev_reserve e) q best then Some e else best)"
proof -
  have e: "ev_margin e = pair_margin depth limits q" "ev_reserve e = pair_reserve depth limits q"
    using assms(2,3) by (simp_all add: fits_def)
  have cand: "pair_candidate depth limits q \<longleftrightarrow> cash_raw (sl_minimum_margin limits) < ev_margin e"
    using assms(4,5) e by (simp add: pair_candidate_def)
  show ?thesis
  proof (cases best)
    case None
    then show ?thesis using assms(1-3) cand by (auto simp: pair_best_def better_def)
  next
    case (Some b)
    then have b: "fits depth limits b" "pair_candidate depth limits (ev_q b)"
      "\<And>q'. q' \<in> V \<Longrightarrow> pair_candidate depth limits q' \<Longrightarrow> pair_preferred depth limits (ev_q b) q'"
      using assms(1) by (auto simp: pair_best_def)
    have better: "better (ev_margin e) (ev_reserve e) q best \<longleftrightarrow> \<not> pair_preferred depth limits (ev_q b) q"
    proof -
      have eb: "ev_margin b = pair_margin depth limits (ev_q b)" "ev_reserve b = pair_reserve depth limits (ev_q b)"
        using b(1) by (simp_all add: fits_def)
      show ?thesis unfolding better_def pair_preferred_def Some option.case e eb by linarith
    qed
    show ?thesis
    proof (cases "pair_candidate depth limits q \<and> \<not> pair_preferred depth limits (ev_q b) q")
      case True
      then have "pair_preferred depth limits q (ev_q b)" by (auto simp: pair_preferred_def)
      with True cand better assms(2,3) b(3) show ?thesis
        by (auto simp: pair_best_def intro: pair_preferred_trans)
    next
      case False
      then have "(if cash_raw (sl_minimum_margin limits) < ev_margin e \<and> better (ev_margin e) (ev_reserve e) q best then Some e else best) = best"
        using cand better by auto
      with False Some b show ?thesis by (auto simp: pair_best_def)
    qed
  qed
qed

definition framed :: "search \<Rightarrow> search \<Rightarrow> bool" where
  "framed s s' \<longleftrightarrow> se_limits s' = se_limits s \<and> se_cursors s' = se_cursors s \<and> se_slope s' = se_slope s \<and>
     sr_quote (se_result s') = sr_quote (se_result s)"

lemma framed_trans: "framed s s' \<Longrightarrow> framed s' s'' \<Longrightarrow> framed s s''"
  by (simp add: framed_def)

definition segment_state :: "buy_depth \<times> buy_depth \<Rightarrow> sizing_limits \<Rightarrow> search \<Rightarrow> bool" where
  "segment_state depth limits s \<longleftrightarrow> se_limits s = limits \<and> cursors_ok depth limits (se_cursors s) \<and>
     at_level (fst (se_cursors s)) \<and> at_level (snd (se_cursors s)) \<and> se_slope s = segment_slope (se_cursors s)"

lemma segment_state_framed: "segment_state depth limits s \<Longrightarrow> framed s s' \<Longrightarrow> segment_state depth limits s'"
  by (simp add: segment_state_def framed_def)

definition evaluated :: "buy_depth \<times> buy_depth \<Rightarrow> sizing_limits \<Rightarrow> cursor \<times> cursor \<Rightarrow> evaluation \<Rightarrow> bool" where
  "evaluated depth limits cursors e \<longleftrightarrow> fits depth limits e \<and> in_segment depth limits cursors (ev_q e) \<and>
     ev_upper e = pair_line cursors (ev_q e) div 10000000000"

lemma evaluate_step:
  assumes "pair_ok depth limits" and "segment_state depth limits s" and "in_segment depth limits (se_cursors s) q"
    and "pair_funded depth limits q" and "pair_best depth limits V (se_best s)"
  shows "\<exists>r s'. evaluate q s = (r, s') \<and> framed s s' \<and>
    (case r of None \<Rightarrow> sr_status (se_result s') = Search_Budget_Exceeded
     | Some e \<Rightarrow> ev_q e = q \<and> evaluated depth limits (se_cursors s) e \<and> pair_best depth limits (insert q V) (se_best s') \<and>
         sr_status (se_result s') = sr_status (se_result s))"
proof -
  have st: "se_limits s = limits" "cursors_ok depth limits (se_cursors s)" "at_level (fst (se_cursors s))" "at_level (snd (se_cursors s))"
    using assms(2) by (simp_all add: segment_state_def)
  have grid: "pair_grid depth limits q" by (rule in_segment_grid [OF assms(1) st(2-4) assms(3)])
  show ?thesis
    using evaluate_eq [OF assms(1) st assms(3)] pair_best_update [OF assms(5) _ _ grid assms(4)] assms(3)
    by (auto simp: framed_def evaluated_def)
qed

lemma margin_le_line:
  assumes "pair_ok depth limits" and "segment_state depth limits s" and "in_segment depth limits (se_cursors s) q"
  shows "pair_margin depth limits q \<le> pair_line (se_cursors s) q div 10000000000"
  using evaluate_eq [OF assms(1) _ _ _ _ assms(3)] assms(2) by (auto simp: segment_state_def fits_def)

lemma in_segment_between:
  "in_segment depth limits cursors x \<Longrightarrow> in_segment depth limits cursors y \<Longrightarrow> x \<le> q \<Longrightarrow> q \<le> y \<Longrightarrow>
     q mod pair_step limits = 0 \<Longrightarrow> in_segment depth limits cursors q"
  by (auto simp: in_segment_def)

text \<open>Pruning an interval loses nothing.\<close>

lemma prune_sound:
  assumes "pair_ok depth limits" and "segment_state depth limits s"
    and "evaluated depth limits (se_cursors s) low" and "evaluated depth limits (se_cursors s) high"
    and "pair_best depth limits V (se_best s)" and "ev_q low \<in> V" and "ev_q high \<in> V"
    and "let upper = (if 0 \<le> se_slope s then ev_upper high else ev_upper low);
            bound = (case se_best s of Some best \<Rightarrow> ev_margin best | None \<Rightarrow> cash_raw (sl_minimum_margin limits))
        in upper < bound \<or> (upper = bound \<and> (case se_best s of None \<Rightarrow> True | Some best \<Rightarrow> ev_q best \<le> ev_q low))"
  shows "pair_best depth limits (V \<union> {ev_q low..ev_q high}) (se_best s)"
proof (rule pair_best_extend [OF assms(5)])
  fix q assume q: "q \<in> V \<union> {ev_q low..ev_q high}" and cand: "pair_candidate depth limits q"
  define upper where "upper = (if 0 \<le> se_slope s then ev_upper high else ev_upper low)"
  show "q \<in> V \<or> (\<exists>b. se_best s = Some b \<and> pair_preferred depth limits (ev_q b) q)"
  proof (cases "q \<in> V")
    case False
    then have between: "ev_q low \<le> q" "q \<le> ev_q high" using q by auto
    have seg: "in_segment depth limits (se_cursors s) q"
    proof (rule in_segment_between [OF _ _ between])
      show "q mod pair_step limits = 0" using cand by (simp add: pair_candidate_def pair_grid_def)
    qed (use assms(3,4) in \<open>simp_all add: evaluated_def\<close>)
    have slope: "se_slope s = segment_slope (se_cursors s)" using assms(2) by (simp add: segment_state_def)
    have "pair_line (se_cursors s) q div 10000000000 \<le> upper"
    proof (cases "0 \<le> segment_slope (se_cursors s)")
      case True
      then have "upper = pair_line (se_cursors s) (ev_q high) div 10000000000"
        using assms(4) by (simp add: upper_def slope evaluated_def)
      then show ?thesis using pair_line_mono(1) [OF True between(2)] by (simp add: zdiv_mono1)
    next
      case False
      then have neg: "segment_slope (se_cursors s) < 0" by simp
      then have "upper = pair_line (se_cursors s) (ev_q low) div 10000000000"
        using assms(3) by (simp add: upper_def slope evaluated_def)
      then show ?thesis using pair_line_mono(2) [OF neg between(1)] by (simp add: zdiv_mono1)
    qed
    with margin_le_line [OF assms(1,2) seg] have le: "pair_margin depth limits q \<le> upper" by linarith
    show ?thesis
    proof (cases "se_best s")
      case None
      then have "upper \<le> cash_raw (sl_minimum_margin limits)" using assms(8) by (auto simp: upper_def Let_def)
      with le cand show ?thesis by (simp add: pair_candidate_def)
    next
      case (Some b)
      then have b: "fits depth limits b" "pair_candidate depth limits (ev_q b)" using assms(5) by (auto simp: pair_best_def)
      then have margin: "ev_margin b = pair_margin depth limits (ev_q b)" by (simp add: fits_def)
      have "upper < ev_margin b \<or> (upper = ev_margin b \<and> ev_q b \<le> ev_q low)"
        using assms(8) Some by (auto simp: upper_def Let_def)
      then have "pair_preferred depth limits (ev_q b) q"
      proof
        assume "upper < ev_margin b"
        with le margin show ?thesis by (simp add: pair_preferred_def)
      next
        assume tie: "upper = ev_margin b \<and> ev_q b \<le> ev_q low"
        have "pair_reserve depth limits (ev_q b) \<le> pair_reserve depth limits q"
          using b(2) cand tie between by (intro pair_reserve_mono [OF assms(1)]) (auto simp: pair_candidate_def)
        with le margin tie between show ?thesis by (auto simp: pair_preferred_def)
      qed
      with Some show ?thesis by blast
    qed
  qed simp
qed


lemma step_gap: "x mod step = 0 \<Longrightarrow> y mod step = 0 \<Longrightarrow> q mod step = 0 \<Longrightarrow> 0 < step \<Longrightarrow> y - x \<le> step \<Longrightarrow> x \<le> q \<Longrightarrow> q \<le> y \<Longrightarrow>
    q = x \<or> q = (y :: int)"
proof (rule ccontr)
  assume mods: "x mod step = 0" "y mod step = 0" "q mod step = 0" and step: "0 < step" "y - x \<le> step" "x \<le> q" "q \<le> y"
    and no: "\<not> (q = x \<or> q = y)"
  from mods have "step dvd q - x" "step dvd y - q" by (simp_all add: mod_eq_0_iff_dvd)
  moreover have "0 < q - x" "0 < y - q" using step no by auto
  ultimately have "step \<le> q - x" "step \<le> y - q" by (auto intro: zdvd_imp_le)
  with step show False by linarith
qed

lemma mid_point:
  fixes x y step :: int
  assumes "x mod step = 0" and "y mod step = 0" and "0 < step" and "step < y - x"
  defines "m \<equiv> x + (y - x) div step div 2 * step"
  shows "x < m" "m < y" "m mod step = 0"
proof -
  obtain k where k: "y - x = k * step"
    using assms(1,2) by (metis dvd_diff dvd_def mod_eq_0_iff_dvd mult.commute)
  have "1 * step < k * step" using assms(4) k by simp
  then have k2: "1 < k" using assms(3) by simp
  have m: "m = x + k div 2 * step" using assms(3) k by (simp add: m_def)
  have "0 < k div 2" "k div 2 < k" using k2 by auto
  then have "0 < k div 2 * step" "k div 2 * step < k * step" using assms(3) by simp_all
  with m k show "x < m" "m < y" by linarith+
  show "m mod step = 0" unfolding m using assms(1) by simp
qed

lemma interval_spec:
  assumes ok: "pair_ok depth limits"
  shows "segment_state depth limits s \<Longrightarrow> evaluated depth limits (se_cursors s) low \<Longrightarrow> evaluated depth limits (se_cursors s) high \<Longrightarrow>
    ev_q low \<le> ev_q high \<Longrightarrow> pair_funded depth limits (ev_q high) \<Longrightarrow>
    pair_best depth limits V (se_best s) \<Longrightarrow> ev_q low \<in> V \<Longrightarrow> ev_q high \<in> V \<Longrightarrow>
    \<exists>found s'. interval low high s = Some (found, s') \<and> framed s s' \<and>
      (if found then pair_best depth limits (V \<union> {ev_q low..ev_q high}) (se_best s') \<and> sr_status (se_result s') = sr_status (se_result s)
       else sr_status (se_result s') = Search_Budget_Exceeded)"
proof (induction "nat (ev_q high - ev_q low)" arbitrary: low high s V rule: less_induct)
  case less
  note st = less.prems(1) and low = less.prems(2) and high = less.prems(3)
  have limits: "se_limits s = limits" using st by (simp add: segment_state_def)
  let ?step = "pair_step limits"
  have step: "0 < ?step" by (rule pair_ok_simps(4) [OF ok])
  have segs: "in_segment depth limits (se_cursors s) (ev_q low)" "in_segment depth limits (se_cursors s) (ev_q high)"
    using low high by (simp_all add: evaluated_def)
  then have mods: "ev_q low mod ?step = 0" "ev_q high mod ?step = 0" by (simp_all add: in_segment_def)
  define prune where "prune \<longleftrightarrow> (let upper = (if 0 \<le> se_slope s then ev_upper high else ev_upper low);
            bound = (case se_best s of Some best \<Rightarrow> ev_margin best | None \<Rightarrow> cash_raw (sl_minimum_margin limits))
        in upper < bound \<or> (upper = bound \<and> (case se_best s of None \<Rightarrow> True | Some best \<Rightarrow> ev_q best \<le> ev_q low)))"
  define m where "m = ev_q low + (ev_q high - ev_q low) div ?step div 2 * ?step"
  have unfold: "interval low high s =
    (if ev_q high - ev_q low \<le> ?step then Some (True, s)
     else if prune then Some (True, s\<lparr>se_result := (se_result s)\<lparr>sr_intervals_pruned := sr_intervals_pruned (se_result s) + 1\<rparr>\<rparr>)
     else case evaluate m s of (None, s) \<Rightarrow> Some (False, s)
        | (Some mid, s) \<Rightarrow> Option.bind (interval low mid s) (\<lambda>(ok, s). if ok then interval mid high s else Some (False, s)))"
    by (subst interval.simps) (simp only: limits prune_def m_def Let_def)
  consider (short) "ev_q high - ev_q low \<le> ?step" | (pruned) "?step < ev_q high - ev_q low" prune
    | (split) "?step < ev_q high - ev_q low" "\<not> prune" by linarith
  then show ?case
  proof cases
    case short
    have "pair_best depth limits (V \<union> {ev_q low..ev_q high}) (se_best s)"
    proof (rule pair_best_extend [OF less.prems(6)])
      fix q assume "q \<in> V \<union> {ev_q low..ev_q high}" "pair_candidate depth limits q"
      then have "q \<in> V \<or> q = ev_q low \<or> q = ev_q high"
        using step_gap [OF mods(1,2) _ step short, of q] by (auto simp: pair_candidate_def pair_grid_def)
      then show "q \<in> V \<or> (\<exists>b. se_best s = Some b \<and> pair_preferred depth limits (ev_q b) q)" using less.prems(7,8) by blast
    qed
    then show ?thesis unfolding unfold using short by (auto simp: framed_def)
  next
    case pruned
    have "pair_best depth limits (V \<union> {ev_q low..ev_q high}) (se_best s)"
      using prune_sound [OF ok st low high less.prems(6-8)] pruned(2) by (simp add: prune_def)
    then show ?thesis unfolding unfold using pruned by (auto simp: framed_def)
  next
    case split
    note mid = mid_point [OF mods step split(1), folded m_def]
    have seg: "in_segment depth limits (se_cursors s) m"
      using mid by (intro in_segment_between [OF segs]) simp_all
    have grids: "pair_grid depth limits m" "pair_grid depth limits (ev_q high)"
      using in_segment_grid [OF ok _ _ _ seg] in_segment_grid [OF ok _ _ _ segs(2)] st by (simp_all add: segment_state_def)
    have funded: "pair_funded depth limits m"
      using pair_reserve_mono [OF ok grids(2,1)] mid(2) less.prems(5) by (simp add: pair_funded_def)
    obtain r s1 where eval: "evaluate m s = (r, s1)" "framed s s1"
      "case r of None \<Rightarrow> sr_status (se_result s1) = Search_Budget_Exceeded
       | Some e \<Rightarrow> ev_q e = m \<and> evaluated depth limits (se_cursors s) e \<and> pair_best depth limits (insert m V) (se_best s1) \<and>
           sr_status (se_result s1) = sr_status (se_result s)"
      using evaluate_step [OF ok st seg funded less.prems(6)] by blast
    show ?thesis
    proof (cases r)
      case None
      then show ?thesis unfolding unfold using split eval by auto
    next
      case (Some e)
      then have e: "ev_q e = m" "evaluated depth limits (se_cursors s) e" "pair_best depth limits (insert m V) (se_best s1)"
        "sr_status (se_result s1) = sr_status (se_result s)" using eval(3) by auto
      have cur: "se_cursors s1 = se_cursors s" using eval(2) by (simp add: framed_def)
      have st1: "segment_state depth limits s1" by (rule segment_state_framed [OF st eval(2)])
      obtain found s2 where left: "interval low e s1 = Some (found, s2)" "framed s1 s2"
        "if found then pair_best depth limits (insert m V \<union> {ev_q low..m}) (se_best s2) \<and> sr_status (se_result s2) = sr_status (se_result s1)
         else sr_status (se_result s2) = Search_Budget_Exceeded"
        using less.hyps [of e low s1 "insert m V"] mid st1 low e cur funded less.prems(7) by auto
      show ?thesis
      proof (cases found)
        case False
        then show ?thesis
          unfolding unfold using split eval(1) Some left(1,3) framed_trans [OF eval(2) left(2)] by auto
      next
        case True
        have cur2: "se_cursors s2 = se_cursors s" using left(2) cur by (simp add: framed_def)
        have st2: "segment_state depth limits s2" by (rule segment_state_framed [OF st1 left(2)])
        let ?W = "insert m V \<union> {ev_q low..m}"
        have best2: "pair_best depth limits ?W (se_best s2)" "sr_status (se_result s2) = sr_status (se_result s1)" using left(3) True by simp_all
        obtain found' s3 where right: "interval e high s2 = Some (found', s3)" "framed s2 s3"
          "if found' then pair_best depth limits (?W \<union> {m..ev_q high}) (se_best s3) \<and> sr_status (se_result s3) = sr_status (se_result s2)
           else sr_status (se_result s3) = Search_Budget_Exceeded"
          using less.hyps [of high e s2 ?W] mid st2 high e cur2 less.prems(5,8) best2(1) by auto
        have "?W \<union> {m..ev_q high} = V \<union> {ev_q low..ev_q high}" using mid by auto
        moreover have "interval low high s = Some (found', s3)"
          unfolding unfold using split eval Some left right True by simp
        moreover have "framed s s3" using eval(2) left(2) right(2) framed_trans by blast
        ultimately show ?thesis using right(3) best2(2) e(4) by auto
      qed
    qed
  qed
qed


subsection \<open>The last funded size of a segment\<close>

lemma evaluate_leg_reserve: "evaluate_leg s cursor q = Some (leg, acc, err) \<Longrightarrow> leg_reservation s cursor q = Some (sz_reservation leg)"
  by (auto simp: evaluate_leg_def Let_def split: option.splits)

lemma reservation_eq:
  assumes "pair_ok depth limits" and "se_limits s = limits" and "cursors_ok depth limits (se_cursors s)"
    and "at_level (fst (se_cursors s))" and "at_level (snd (se_cursors s))" and "in_segment depth limits (se_cursors s) q"
  shows "reservation s q = pair_reserve depth limits q"
proof -
  note ok = pair_ok_simps [OF assms(1)]
  obtain acc0 err0 where "evaluate_leg s (fst (se_cursors s)) q = Some (fst (pair_offer depth limits q), acc0, err0)"
    using evaluate_leg_eq [of s "pair_cap limits" "fst depth" "fst (se_cursors s)" q] ok assms
    by (auto simp: cursors_ok_def in_segment_def pair_offer_def)
  moreover obtain acc1 err1 where "evaluate_leg s (snd (se_cursors s)) q = Some (snd (pair_offer depth limits q), acc1, err1)"
    using evaluate_leg_eq [of s "pair_cap limits" "snd depth" "snd (se_cursors s)" q] ok assms
    by (auto simp: cursors_ok_def in_segment_def pair_offer_def)
  ultimately show ?thesis
    by (simp add: reservation_def evaluate_leg_reserve pair_reserve_def pair_legs_def pair_offer_def)
qed

lemma last_funded_spec:
  fixes lo0 hi0 :: int
  assumes "\<And>k k'. lo0 < k \<Longrightarrow> k \<le> k' \<Longrightarrow> k' \<le> hi0 \<Longrightarrow>
      reservation s (k' * step) \<le> cash_raw (sl_available (se_limits s)) \<Longrightarrow>
      reservation s (k * step) \<le> cash_raw (sl_available (se_limits s))"
  shows "lo0 \<le> lo \<Longrightarrow> lo \<le> hi \<Longrightarrow> hi \<le> hi0 \<Longrightarrow>
    (lo0 < lo \<longrightarrow> reservation s (lo * step) \<le> cash_raw (sl_available (se_limits s))) \<Longrightarrow>
    (hi < hi0 \<longrightarrow> \<not> reservation s ((hi + 1) * step) \<le> cash_raw (sl_available (se_limits s))) \<Longrightarrow>
    lo0 \<le> last_funded s step lo hi \<and> last_funded s step lo hi \<le> hi0 \<and>
    (\<forall>k. lo0 < k \<and> k \<le> hi0 \<longrightarrow>
       (reservation s (k * step) \<le> cash_raw (sl_available (se_limits s)) \<longleftrightarrow> k \<le> last_funded s step lo hi))"
proof (induction "nat (hi - lo)" arbitrary: lo hi rule: less_induct)
  case less
  define good where "good k \<longleftrightarrow> reservation s (k * step) \<le> cash_raw (sl_available (se_limits s))" for k
  have mono: "lo0 < k \<Longrightarrow> k \<le> k' \<Longrightarrow> k' \<le> hi0 \<Longrightarrow> good k' \<Longrightarrow> good k" for k k'
    using assms [of k k'] by (simp add: good_def)
  note prems = less.prems [folded good_def] and hyps = less.hyps [folded good_def]
  have goal: "lo0 \<le> last_funded s step lo hi \<and> last_funded s step lo hi \<le> hi0 \<and>
    (\<forall>k. lo0 < k \<and> k \<le> hi0 \<longrightarrow> (good k \<longleftrightarrow> k \<le> last_funded s step lo hi))"
  proof (cases "lo < hi")
    case False
    have eq: "last_funded s step lo hi = lo" using False by (subst last_funded.simps) simp
    have eq2: "hi = lo" using False prems(2) by simp
    have "good k \<longleftrightarrow> k \<le> lo" if k: "lo0 < k" "k \<le> hi0" for k
    proof
      assume "good k"
      show "k \<le> lo"
      proof (rule ccontr)
        assume "\<not> k \<le> lo"
        then have "good (lo + 1)" using mono [of "lo + 1" k] k \<open>good k\<close> prems(1) by simp
        with prems(5) eq2 \<open>\<not> k \<le> lo\<close> k show False by simp
      qed
    next
      assume "k \<le> lo"
      then show "good k" using mono [of k lo] k prems by simp
    qed
    then show ?thesis using eq eq2 prems by simp
  next
    case True
    define mid where "mid = lo + (hi - lo + 1) div 2"
    have mid: "lo < mid" "mid \<le> hi" using True by (auto simp: mid_def)
    have step: "last_funded s step lo hi =
        (if good mid then last_funded s step mid hi else last_funded s step lo (mid - 1))"
      using True by (subst last_funded.simps) (simp add: Let_def mid_def good_def)
    show ?thesis
    proof (cases "good mid")
      case True
      have "lo0 \<le> last_funded s step mid hi \<and> last_funded s step mid hi \<le> hi0 \<and>
          (\<forall>k. lo0 < k \<and> k \<le> hi0 \<longrightarrow> (good k \<longleftrightarrow> k \<le> last_funded s step mid hi))"
        using mid prems True by (intro hyps) simp_all
      then show ?thesis by (simp add: step True)
    next
      case False
      have "lo0 \<le> last_funded s step lo (mid - 1) \<and> last_funded s step lo (mid - 1) \<le> hi0 \<and>
          (\<forall>k. lo0 < k \<and> k \<le> hi0 \<longrightarrow> (good k \<longleftrightarrow> k \<le> last_funded s step lo (mid - 1)))"
        using mid prems False by (intro hyps) simp_all
      then show ?thesis by (simp add: step False)
    qed
  qed
  then show ?case by (simp add: good_def)
qed

lemma segment_last_spec:
  assumes ok: "pair_ok depth limits" and st: "se_limits s = limits" "cursors_ok depth limits (se_cursors s)"
    "at_level (fst (se_cursors s))" "at_level (snd (se_cursors s))"
    and first: "in_segment depth limits (se_cursors s) first" and last: "in_segment depth limits (se_cursors s) end_quantity"
    and le: "first \<le> end_quantity"
  defines "l \<equiv> segment_last s (pair_step limits) first end_quantity"
  shows "l \<le> end_quantity \<and> l mod pair_step limits = 0 \<and>
    (\<forall>q. first \<le> q \<and> q \<le> end_quantity \<and> q mod pair_step limits = 0 \<longrightarrow> (pair_funded depth limits q \<longleftrightarrow> q \<le> l))"
proof -
  let ?step = "pair_step limits"
  have step: "0 < ?step" by (rule pair_ok_simps(4) [OF ok])
  have mods: "first mod ?step = 0" "end_quantity mod ?step = 0" using first last by (simp_all add: in_segment_def)
  define a b where "a = first div ?step" and "b = end_quantity div ?step"
  have ab: "first = a * ?step" "end_quantity = b * ?step" using mods by (simp_all add: a_def b_def mod_eq_0_iff_dvd)
  have "a \<le> b" using le step unfolding ab by simp
  have seg: "in_segment depth limits (se_cursors s) q" if "first \<le> q" "q \<le> end_quantity" "q mod ?step = 0" for q
    by (rule in_segment_between [OF first last that])
  have res: "reservation s q = pair_reserve depth limits q" if "first \<le> q" "q \<le> end_quantity" "q mod ?step = 0" for q
    by (rule reservation_eq [OF ok st seg [OF that]])
  have mono: "pair_reserve depth limits x \<le> pair_reserve depth limits y"
    if "first \<le> x" "x \<le> y" "y \<le> end_quantity" "x mod ?step = 0" "y mod ?step = 0" for x y
    using that in_segment_grid [OF ok st(2-4) seg] by (intro pair_reserve_mono [OF ok]) simp_all
  show ?thesis
  proof (cases "cash_raw (sl_available limits) < reservation s end_quantity")
    case False
    then have "pair_funded depth limits q" if "first \<le> q" "q \<le> end_quantity" "q mod ?step = 0" for q
      using mono [OF that(1,2) order_refl that(3) mods(2)] res [OF le order_refl mods(2)] by (simp add: pair_funded_def)
    then show ?thesis using False mods by (simp add: l_def segment_last_def st(1))
  next
    case True
    define r where "r = last_funded s ?step (a - 1) b"
    have l: "l = r * ?step" using True by (simp add: l_def segment_last_def st(1) r_def a_def b_def)
    have range: "first \<le> k * ?step \<and> k * ?step \<le> end_quantity \<longleftrightarrow> a - 1 < k \<and> k \<le> b" for k
      using step unfolding ab by auto
    have "a - 1 \<le> r \<and> r \<le> b \<and> (\<forall>k. a - 1 < k \<and> k \<le> b \<longrightarrow>
        (reservation s (k * ?step) \<le> cash_raw (sl_available (se_limits s)) \<longleftrightarrow> k \<le> r))"
      unfolding r_def
    proof (rule last_funded_spec)
      fix k k' assume k: "a - 1 < k" "k \<le> k'" "k' \<le> b"
        and good: "reservation s (k' * ?step) \<le> cash_raw (sl_available (se_limits s))"
      have "first \<le> k * ?step \<and> k * ?step \<le> end_quantity" "first \<le> k' * ?step \<and> k' * ?step \<le> end_quantity"
        using k range by auto
      moreover have "k * ?step \<le> k' * ?step" using k step by simp
      ultimately show "reservation s (k * ?step) \<le> cash_raw (sl_available (se_limits s))"
        using good mono [of "k * ?step" "k' * ?step"] res [of "k * ?step"] res [of "k' * ?step"] by simp
    qed (use \<open>a \<le> b\<close> in simp_all)
    then have r: "r \<le> b" "\<And>k. a - 1 < k \<Longrightarrow> k \<le> b \<Longrightarrow> reservation s (k * ?step) \<le> cash_raw (sl_available limits) \<longleftrightarrow> k \<le> r"
      using st(1) by auto
    have "pair_funded depth limits q \<longleftrightarrow> q \<le> l" if q: "first \<le> q" "q \<le> end_quantity" "q mod ?step = 0" for q
    proof -
      obtain k where k: "q = k * ?step" using q(3) by (metis dvd_def mod_eq_0_iff_dvd mult.commute)
      have "a - 1 < k" "k \<le> b" using range [of k] q k by simp_all
      from r(2) [OF this] show ?thesis using res [OF q] step by (simp add: pair_funded_def k l)
    qed
    moreover have "l \<le> end_quantity" using r(1) step by (simp add: l ab)
    ultimately show ?thesis by (simp add: l)
  qed
qed


subsection \<open>The segments\<close>

lemma seek_both_spec:
  assumes ok: "pair_ok depth limits" and cur: "cursors_ok depth limits (se_cursors s)"
  shows "\<exists>found s'. seek_both s = (found, s') \<and> s' = s\<lparr>se_cursors := se_cursors s'\<rparr> \<and> cursors_ok depth limits (se_cursors s') \<and>
    cu_prefix_quantity (fst (se_cursors s')) = cu_prefix_quantity (fst (se_cursors s)) \<and>
    cu_prefix_quantity (snd (se_cursors s')) = cu_prefix_quantity (snd (se_cursors s)) \<and>
    (at_level (fst (se_cursors s)) \<longrightarrow> fst (se_cursors s') = fst (se_cursors s)) \<and>
    (at_level (snd (se_cursors s)) \<longrightarrow> snd (se_cursors s') = snd (se_cursors s)) \<and>
    (if found then at_level (fst (se_cursors s')) \<and> at_level (snd (se_cursors s'))
     else (\<forall>q. pair_grid depth limits q \<longrightarrow> q \<le> cu_prefix_quantity (fst (se_cursors s)) \<or> q \<le> cu_prefix_quantity (snd (se_cursors s))))"
proof -
  note okp = pair_ok_simps [OF ok]
  obtain c0 c1 where c: "se_cursors s = (c0, c1)" by force
  obtain f0 d0 where seek0: "cursor_seek c0 = (f0, d0)" by force
  obtain f1 d1 where seek1: "cursor_seek c1 = (f1, d1)" by force
  have inv: "net_inv (fst depth) (pair_step limits) (pair_cap limits) c0" "net_inv (snd depth) (pair_step limits) (pair_cap limits) c1"
    using cur by (simp_all add: cursors_ok_def c)
  note spec0 = cursor_seek_inv [OF okp(1) inv(1), unfolded seek0, simplified]
  note spec1 = cursor_seek_inv [OF okp(1) inv(2), unfolded seek1, simplified]
  have stay: "at_level c0 \<Longrightarrow> d0 = c0" "at_level c1 \<Longrightarrow> d1 = c1"
    using cursor_seek_at [of c0] cursor_seek_at [of c1] seek0 seek1 by auto
  have out0: "q \<le> cu_prefix_quantity c0" if "\<not> f0" "pair_grid depth limits q" for q
  proof -
    have "cu_prefix_quantity d0 = levels_total (trim (pair_step limits) (pair_cap limits) (bd_levels (fst depth)))"
      using spec0 that(1) by (auto simp: net_inv_def)
    then show ?thesis using spec0 that(2) by (simp add: pair_grid_iff [OF ok])
  qed
  have out1: "q \<le> cu_prefix_quantity c1" if "\<not> f1" "pair_grid depth limits q" for q
  proof -
    have "cu_prefix_quantity d1 = levels_total (trim (pair_step limits) (pair_cap limits) (bd_levels (snd depth)))"
      using spec1 that(1) by (auto simp: net_inv_def)
    then show ?thesis using spec1 that(2) by (simp add: pair_grid_iff [OF ok])
  qed
  have eq: "seek_both s = (if \<not> f0 then (False, s\<lparr>se_cursors := (d0, c1)\<rparr>) else (f1, s\<lparr>se_cursors := (d0, d1)\<rparr>))"
    by (simp add: seek_both_def c seek0 seek1 Let_def)
  show ?thesis
  proof (cases f0)
    case False
    then show ?thesis
      using eq spec0 stay out0 inv(2) by (intro exI [of _ False] exI [of _ "s\<lparr>se_cursors := (d0, c1)\<rparr>"]) (auto simp: c cursors_ok_def)
  next
    case True
    then show ?thesis
      using eq spec0 spec1 stay out1 by (intro exI [of _ f1] exI [of _ "s\<lparr>se_cursors := (d0, d1)\<rparr>"]) (auto simp: c cursors_ok_def)
  qed
qed

lemma search_segment_spec:
  assumes ok: "pair_ok depth limits" and st: "se_limits s = limits" "cursors_ok depth limits (se_cursors s)"
    "at_level (fst (se_cursors s))" "at_level (snd (se_cursors s))"
    and seg: "in_segment depth limits (se_cursors s) first" "in_segment depth limits (se_cursors s) l" and le: "first \<le> l"
    and funded: "pair_funded depth limits l" and best: "pair_best depth limits V (se_best s)"
  shows "\<exists>found s'. search_segment first l s = Some (found, s') \<and> se_limits s' = limits \<and> se_cursors s' = se_cursors s \<and>
      sr_quote (se_result s') = sr_quote (se_result s) \<and>
      (if found then pair_best depth limits (V \<union> {first..l}) (se_best s') \<and> sr_status (se_result s') = sr_status (se_result s)
       else sr_status (se_result s') = Search_Budget_Exceeded)"
proof -
  define s0 where "s0 = s\<lparr>se_slope := segment_slope (se_cursors s)\<rparr>"
  have st0: "segment_state depth limits s0" using st by (simp add: s0_def segment_state_def)
  have s0: "se_cursors s0 = se_cursors s" "se_best s0 = se_best s" "se_result s0 = se_result s" by (simp_all add: s0_def)
  have grids: "pair_grid depth limits first" "pair_grid depth limits l"
    using in_segment_grid [OF ok st(2-4)] seg by simp_all
  have funded_first: "pair_funded depth limits first"
    using pair_reserve_mono [OF ok grids(2,1) le] funded by (simp add: pair_funded_def)
  obtain r1 s1 where e1: "evaluate first s0 = (r1, s1)" "framed s0 s1"
    "case r1 of None \<Rightarrow> sr_status (se_result s1) = Search_Budget_Exceeded
     | Some e \<Rightarrow> ev_q e = first \<and> evaluated depth limits (se_cursors s0) e \<and> pair_best depth limits (insert first V) (se_best s1) \<and>
         sr_status (se_result s1) = sr_status (se_result s0)"
    using evaluate_step [OF ok st0 _ funded_first, of V] seg(1) best by (auto simp: s0)
  have segment: "search_segment first l s = (case evaluate first s0 of
        (None, s) \<Rightarrow> Some (False, s)
      | (Some low, s) \<Rightarrow>
          (case (if l = first then (Some low, s) else evaluate l s) of
             (None, s) \<Rightarrow> Some (False, s)
           | (Some high, s) \<Rightarrow> interval low high s))"
    by (simp add: search_segment_def Let_def s0_def)
  show ?thesis
  proof (cases r1)
    case None
    then show ?thesis using e1 st(1) by (auto simp: segment framed_def s0 s0_def)
  next
    case (Some low)
    with e1(3) have low: "ev_q low = first" "evaluated depth limits (se_cursors s) low"
      "pair_best depth limits (insert first V) (se_best s1)" "sr_status (se_result s1) = sr_status (se_result s)" by (auto simp: s0)
    have st1: "segment_state depth limits s1" by (rule segment_state_framed [OF st0 e1(2)])
    have cur1: "se_cursors s1 = se_cursors s" using e1(2) by (simp add: framed_def s0)
    obtain r2 s2 where e2: "(if l = first then (Some low, s1) else evaluate l s1) = (r2, s2)" "framed s1 s2"
      "case r2 of None \<Rightarrow> sr_status (se_result s2) = Search_Budget_Exceeded
       | Some e \<Rightarrow> ev_q e = l \<and> evaluated depth limits (se_cursors s) e \<and> pair_best depth limits (insert l (insert first V)) (se_best s2) \<and>
           sr_status (se_result s2) = sr_status (se_result s)"
    proof (cases "l = first")
      case True
      then show ?thesis using that [of "Some low" s1] low by (simp add: framed_def)
    next
      case False
      have "in_segment depth limits (se_cursors s1) l" using seg(2) by (simp add: cur1)
      from evaluate_step [OF ok st1 this funded low(3)] obtain r s' where
        step: "evaluate l s1 = (r, s')" "framed s1 s'" "case r of None \<Rightarrow> sr_status (se_result s') = Search_Budget_Exceeded
     | Some e \<Rightarrow> ev_q e = l \<and> evaluated depth limits (se_cursors s1) e \<and> pair_best depth limits (insert l (insert first V)) (se_best s') \<and>
         sr_status (se_result s') = sr_status (se_result s1)" by blast
      show ?thesis
        by (rule that [of r s']) (use step low(4) False in \<open>auto simp: cur1 split: option.splits\<close>)
    qed
    show ?thesis
    proof (cases r2)
      case None
      then show ?thesis using e1 e2 Some st(1) by (auto simp: segment framed_def s0 s0_def)
    next
      case high: (Some high)
      have st2: "segment_state depth limits s2" by (rule segment_state_framed [OF st1 e2(2)])
      have cur2: "se_cursors s2 = se_cursors s" using e2(2) cur1 by (simp add: framed_def)
      obtain found s3 where s3: "interval low high s2 = Some (found, s3)" "framed s2 s3"
        "if found then pair_best depth limits (insert l (insert first V) \<union> {first..l}) (se_best s3) \<and> sr_status (se_result s3) = sr_status (se_result s2)
         else sr_status (se_result s3) = Search_Budget_Exceeded"
        using interval_spec [OF ok st2, of low high "insert l (insert first V)"] low e2(3) high le funded by (auto simp: cur2)
      have "insert l (insert first V) \<union> {first..l} = V \<union> {first..l}" using le by auto
      then show ?thesis
        using e1 e2 s3 Some high st(1) by (auto simp: segment framed_def s0 s0_def)
    qed
  qed
qed


text \<open>At the head of the loop: every size up to \<open>covered\<close> is decided.\<close>

definition leg_position :: "int \<Rightarrow> cursor \<Rightarrow> bool" where
  "leg_position covered cursor \<longleftrightarrow> cu_prefix_quantity cursor = covered \<or>
     (cu_prefix_quantity cursor < covered \<and> at_level cursor \<and> covered < cursor_end cursor)"

definition loop_state :: "buy_depth \<times> buy_depth \<Rightarrow> sizing_limits \<Rightarrow> int \<Rightarrow> search \<Rightarrow> bool" where
  "loop_state depth limits covered s \<longleftrightarrow> se_limits s = limits \<and> cursors_ok depth limits (se_cursors s) \<and>
     0 \<le> covered \<and> covered mod pair_step limits = 0 \<and>
     leg_position covered (fst (se_cursors s)) \<and> leg_position covered (snd (se_cursors s)) \<and>
     sr_status (se_result s) = No_Positive_Margin \<and> sr_quote (se_result s) = None \<and>
     pair_best depth limits {..covered} (se_best s)"

lemma stepped_total: "(\<forall>level \<in> set levels. quantity_raw (bl_quantity level) mod step = 0) \<Longrightarrow> levels_total levels mod step = 0"
  by (induction levels) (auto simp: mod_eq_0_iff_dvd)

lemma cursor_end_mod:
  assumes "grid_params step cap" and "net_inv depth step cap cursor" and "at_level cursor"
  shows "cursor_end cursor mod step = 0"
proof -
  have "cu_prefix_quantity cursor mod step = 0"
    using assms(2) resize_raw(3) [OF assms(1)] by (auto simp: net_inv_def trim_def intro!: stepped_total)
  with cursor_size_pos(2) [OF assms] show ?thesis by (simp add: cursor_end_def mod_eq_0_iff_dvd)
qed

lemma step_after: "0 < step \<Longrightarrow> x mod step = 0 \<Longrightarrow> y mod step = 0 \<Longrightarrow> x < y \<Longrightarrow> x + step \<le> (y :: int)"
proof -
  assume "0 < step" "x mod step = 0" "y mod step = 0" "x < y"
  then have "step dvd y - x" "0 < y - x" by (simp_all add: mod_eq_0_iff_dvd)
  then have "step \<le> y - x" by (rule zdvd_imp_le)
  then show ?thesis by simp
qed

lemma leg_position_end:
  assumes "grid_params step cap" and "net_inv depth step cap cursor" and "at_level cursor"
    and "leg_position covered cursor" and "covered mod step = 0" and "0 < step"
  shows "cu_prefix_quantity cursor \<le> covered \<and> covered + step \<le> cursor_end cursor"
proof -
  have "covered < cursor_end cursor"
    using assms(4,6) cursor_size_pos(1) [OF assms(1-3)] by (auto simp: leg_position_def cursor_end_def)
  with step_after [OF assms(6,5) cursor_end_mod [OF assms(1-3)]] assms(4) show ?thesis
    by (auto simp: leg_position_def)
qed

lemma advance_at_spec:
  assumes "grid_params step cap" and "valid_depth depth" and "net_inv depth step cap cursor" and "at_level cursor"
    and "cu_prefix_quantity cursor < e" and "e \<le> cursor_end cursor"
  shows "\<exists>cursor'. advance_at e cursor = Some cursor' \<and> net_inv depth step cap cursor' \<and> leg_position e cursor'"
proof (cases "cursor_end cursor = e")
  case True
  then show ?thesis using cursor_advance_inv [OF assms(1-4)] by (auto simp: advance_at_def leg_position_def)
next
  case False
  then show ?thesis using assms by (auto simp: advance_at_def leg_position_def)
qed

definition segments_end :: "buy_depth \<times> buy_depth \<Rightarrow> sizing_limits \<Rightarrow> int \<Rightarrow> bool \<Rightarrow> search \<Rightarrow>
    (sizing_result + bool \<times> search) \<Rightarrow> bool" where
  "segments_end depth limits covered funded s outcome \<longleftrightarrow>
     (case outcome of
        Inl r \<Rightarrow> sr_status r = Search_Budget_Exceeded \<and> sr_quote r = None
      | Inr (f, s') \<Rightarrow> pair_best depth limits UNIV (se_best s') \<and>
          sr_status (se_result s') = No_Positive_Margin \<and> sr_quote (se_result s') = None \<and>
          (funded \<longrightarrow> f) \<and>
          (\<not> f \<longrightarrow> (\<forall>q. pair_grid depth limits q \<longrightarrow> covered < q \<longrightarrow> \<not> pair_funded depth limits q) \<and>
             (fst (seek_both s) \<longrightarrow> fst (seek_both s'))))"

lemma segments_spec:
  assumes ok: "pair_ok depth limits"
  defines "c \<equiv> pair_cap limits div pair_step limits * pair_step limits"
  shows "loop_state depth limits covered s \<Longrightarrow>
    (\<forall>q. pair_grid depth limits q \<longrightarrow> q \<le> covered \<longrightarrow> pair_funded depth limits q) \<Longrightarrow>
    \<exists>outcome. segments (pair_step limits) c (covered + pair_step limits) funded s = Some outcome \<and>
      segments_end depth limits covered funded s outcome"
proof (induction "nat (c - covered)" arbitrary: covered funded s rule: less_induct)
  case less
  let ?step = "pair_step limits"
  note okp = pair_ok_simps [OF ok]
  note st = less.prems(1) [unfolded loop_state_def]
  have step: "0 < ?step" by (rule okp(4))
  have base: "sr_status (se_result s) = No_Positive_Margin" "sr_quote (se_result s) = None" "covered mod ?step = 0" "0 \<le> covered"
    "pair_best depth limits {..covered} (se_best s)" using st by simp_all
  have cm: "c mod ?step = 0" "c \<le> pair_cap limits" using step by (simp_all add: c_def minus_mod_eq_div_mult [symmetric])
  have grid_c: "q \<le> c" if "pair_grid depth limits q" for q
  proof -
    have "q mod ?step = 0" "q \<le> pair_cap limits" using that by (simp_all add: pair_grid_def)
    then have "q div ?step \<le> pair_cap limits div ?step" "q = q div ?step * ?step"
      using step by (auto simp: zdiv_mono1 mod_eq_0_iff_dvd)
    then show ?thesis using step unfolding c_def by (metis mult_le_cancel_right order_less_imp_not_less)
  qed
  have beyond: "covered + ?step \<le> q" if "pair_grid depth limits q" "covered < q" for q
    using that st by (intro step_after) (auto simp: pair_grid_def okp(4))
  have best_all: "pair_best depth limits UNIV (se_best s)" if "\<And>q. pair_grid depth limits q \<Longrightarrow> pair_funded depth limits q \<Longrightarrow> q \<le> covered"
  proof (rule pair_best_extend [where V = "{..covered}"])
    show "pair_best depth limits {..covered} (se_best s)" using st by (elim conjE)
  qed (use that in \<open>auto simp: pair_candidate_def\<close>)
  show ?case
  proof (cases "covered + ?step \<le> c")
    case False
    then have none: "\<not> covered < q" if "pair_grid depth limits q" for q
      using grid_c [OF that] beyond [OF that] by auto
    have "segments ?step c (covered + ?step) funded s = Some (Inr (funded, s))"
      using False by (subst segments.simps) simp
    moreover have "segments_end depth limits covered funded s (Inr (funded, s))"
      using base best_all [OF leI [OF none]] none by (simp add: segments_end_def)
    ultimately show ?thesis by blast
  next
    case True
    obtain found s1 where seek: "seek_both s = (found, s1)" "s1 = s\<lparr>se_cursors := se_cursors s1\<rparr>" "cursors_ok depth limits (se_cursors s1)"
      "cu_prefix_quantity (fst (se_cursors s1)) = cu_prefix_quantity (fst (se_cursors s))"
      "cu_prefix_quantity (snd (se_cursors s1)) = cu_prefix_quantity (snd (se_cursors s))"
      "at_level (fst (se_cursors s)) \<longrightarrow> fst (se_cursors s1) = fst (se_cursors s)"
      "at_level (snd (se_cursors s)) \<longrightarrow> snd (se_cursors s1) = snd (se_cursors s)"
      "if found then at_level (fst (se_cursors s1)) \<and> at_level (snd (se_cursors s1))
       else (\<forall>q. pair_grid depth limits q \<longrightarrow> q \<le> cu_prefix_quantity (fst (se_cursors s)) \<or> q \<le> cu_prefix_quantity (snd (se_cursors s)))"
      using seek_both_spec [OF ok, of s] st by blast
    have same: "se_limits s1 = limits" "se_best s1 = se_best s" "se_result s1 = se_result s"
      using seek(2) st by (metis search.select_convs(1,3,4) search.surjective search.update_convs(2))+
    show ?thesis
    proof (cases found)
      case False
      then have none: "q \<le> covered" if "pair_grid depth limits q" for q
        using seek(8) that st by (auto simp: leg_position_def)
      have "segments ?step c (covered + ?step) funded s = Some (Inr (funded, s1))"
        using True False seek(1) by (subst segments.simps) simp
      moreover have "segments_end depth limits covered funded s (Inr (funded, s1))"
        using base best_all [OF none] leD [OF none] False seek(1) by (simp add: segments_end_def same)
      ultimately show ?thesis by blast
    next
      case found: True
      define first where "first = covered + ?step"
      define e where "e = min c (min (cursor_end (fst (se_cursors s1))) (cursor_end (snd (se_cursors s1))))"
      define l where "l = segment_last s1 ?step first e"
      have at: "at_level (fst (se_cursors s1))" "at_level (snd (se_cursors s1))" using seek(8) found by simp_all
      have inv: "net_inv (fst depth) ?step (pair_cap limits) (fst (se_cursors s1))" "net_inv (snd depth) ?step (pair_cap limits) (snd (se_cursors s1))"
        using seek(3) by (simp_all add: cursors_ok_def)
      have pos: "leg_position covered (fst (se_cursors s1))" "leg_position covered (snd (se_cursors s1))"
        using st seek(4-7) by (auto simp: leg_position_def)
      note end0 = leg_position_end [OF okp(1) inv(1) at(1) pos(1) base(3) step]
      note end1 = leg_position_end [OF okp(1) inv(2) at(2) pos(2) base(3) step]
      have ends: "first \<le> e" "e \<le> c" "e mod ?step = 0"
        using end0 end1 True cm(1) cursor_end_mod [OF okp(1) inv(1) at(1)] cursor_end_mod [OF okp(1) inv(2) at(2)]
        by (auto simp: e_def first_def min_def)
      have fm: "first mod ?step = 0" "covered < first" using base(3) step by (simp_all add: first_def)
      have seg: "in_segment depth limits (se_cursors s1) q" if "first \<le> q" "q \<le> e" "q mod ?step = 0" for q
        using that end0 end1 cm(2) step by (auto simp: in_segment_def first_def e_def)
      note segs = seg [OF order_refl ends(1) fm(1)] seg [OF ends(1) order_refl ends(3)]
      have grid: "pair_grid depth limits q" if "first \<le> q" "q \<le> e" "q mod ?step = 0" for q
        by (rule in_segment_grid [OF ok seek(3) at seg [OF that]])
      have last: "l \<le> e" "l mod ?step = 0" "\<And>q. first \<le> q \<Longrightarrow> q \<le> e \<Longrightarrow> q mod ?step = 0 \<Longrightarrow> pair_funded depth limits q \<longleftrightarrow> q \<le> l"
        using segment_last_spec [OF ok same(1) seek(3) at segs ends(1)] unfolding l_def by auto
      have unfunded: "\<not> pair_funded depth limits q" if q: "pair_grid depth limits q" "x \<le> q" and x: "first \<le> x" "x \<le> e" "x mod ?step = 0" "l < x" for q x
        using pair_reserve_mono [OF ok q(1) grid [OF x(1-3)] q(2)] last(3) [OF x(1-3)] x(4) by (simp add: pair_funded_def)
      have unfold: "segments ?step c first funded s =
         (if l < first then Some (Inr (funded, s1))
          else Option.bind (search_segment first l s1) (\<lambda>(ok, s).
                 if \<not> ok then Some (Inl (failed s))
                 else if l < e \<or> e = c then Some (Inr (True, s))
                 else
                   case advance_at e (fst (se_cursors s)) of
                     None \<Rightarrow> Some (Inl (failed (s\<lparr>se_result := (se_result s)\<lparr>sr_status := Arithmetic_Error\<rparr>\<rparr>)))
                   | Some cursor0 \<Rightarrow>
                       (case advance_at e (snd (se_cursors s)) of
                          None \<Rightarrow> Some (Inl (failed (s\<lparr>se_result := (se_result s)\<lparr>sr_status := Arithmetic_Error\<rparr>\<rparr>)))
                        | Some cursor1 \<Rightarrow> segments ?step c (e + ?step) True (s\<lparr>se_cursors := (cursor0, cursor1)\<rparr>))))"
        using True found by (subst segments.simps) (simp only: first_def seek(1) prod.case if_False not_True_eq_False Let_def e_def [symmetric] l_def)
      show ?thesis
      proof (cases "l < first")
        case True
        have none: "\<not> pair_funded depth limits q" if "pair_grid depth limits q" "covered < q" for q
          using unfunded [of q first] beyond [OF that] that fm ends(1) True by (simp add: first_def)
        have "fst (seek_both s1)"
          by (simp add: seek_both_def cursor_seek_at [OF at(1)] cursor_seek_at [OF at(2)])
        moreover have "pair_best depth limits UNIV (se_best s)" using none by (intro best_all) (auto simp flip: not_less)
        ultimately have "segments_end depth limits covered funded s (Inr (funded, s1))"
          using base none by (auto simp: segments_end_def same)
        then show ?thesis using unfold True by (simp add: first_def)
      next
        case False
        then have le: "first \<le> l" by simp
        have funded_l: "pair_funded depth limits l" using last(3) [OF le last(1,2)] by simp
        obtain ok' s2 where s2: "search_segment first l s1 = Some (ok', s2)" "se_limits s2 = limits" "se_cursors s2 = se_cursors s1"
          "sr_quote (se_result s2) = sr_quote (se_result s1)"
          "if ok' then pair_best depth limits ({..covered} \<union> {first..l}) (se_best s2) \<and> sr_status (se_result s2) = sr_status (se_result s1)
           else sr_status (se_result s2) = Search_Budget_Exceeded"
          using search_segment_spec [OF ok same(1) seek(3) at segs(1) seg [OF le last(1,2)] le funded_l, of "{..covered}"] base(5) same(2) by auto
        show ?thesis
        proof (cases ok')
          case False
          have "segments_end depth limits covered funded s (Inl (failed s2))"
            using s2 False by (simp add: segments_end_def failed_def)
          then show ?thesis using unfold le s2(1) False by (simp add: first_def)
        next
          case ok': True
          have best2: "pair_best depth limits ({..covered} \<union> {first..l}) (se_best s2)" "sr_status (se_result s2) = No_Positive_Margin"
            "sr_quote (se_result s2) = None" using s2(4,5) ok' base same by simp_all
          have split: "q \<in> {..covered} \<union> {first..l}" if "pair_grid depth limits q" "q \<le> l" for q
            using beyond [OF that(1)] that(2) by (cases "covered < q") (simp_all add: first_def not_less)
          show ?thesis
          proof (cases "l < e \<or> e = c")
            case True
            have "q \<le> l" if "pair_candidate depth limits q" for q
            proof (rule ccontr)
              assume "\<not> q \<le> l"
              moreover have q: "pair_grid depth limits q" "pair_funded depth limits q" using that by (simp_all add: pair_candidate_def)
              ultimately have "l < e" "l < q" using True last(1) grid_c [OF q(1)] by auto
              show False
              proof (cases "q \<le> e")
                case True
                then show False using unfunded [of q q] q \<open>l < q\<close> le by (simp add: pair_grid_def)
              next
                case False
                then show False using unfunded [of q e] q ends \<open>l < e\<close> by simp
              qed
            qed
            then have "pair_best depth limits UNIV (se_best s2)"
              using split by (intro pair_best_extend [OF best2(1)]) (auto simp: pair_candidate_def)
            then have "segments_end depth limits covered funded s (Inr (True, s2))"
              using best2 by (simp add: segments_end_def)
            then show ?thesis using unfold le s2(1) ok' True by (simp add: first_def)
          next
            case False
            then have le: "l = e" "e < c" using last(1) ends(2) by auto
            have e_ends: "e \<le> cursor_end (fst (se_cursors s1))" "e \<le> cursor_end (snd (se_cursors s1))" by (simp_all add: e_def)
            obtain c0 where c0: "advance_at e (fst (se_cursors s1)) = Some c0" "net_inv (fst depth) ?step (pair_cap limits) c0" "leg_position e c0"
              using advance_at_spec [OF okp(1,2) inv(1) at(1) _ e_ends(1)] end0 ends(1) fm(2) by fastforce
            obtain c1 where c1: "advance_at e (snd (se_cursors s1)) = Some c1" "net_inv (snd depth) ?step (pair_cap limits) c1" "leg_position e c1"
              using advance_at_spec [OF okp(1,3) inv(2) at(2) _ e_ends(2)] end1 ends(1) fm(2) by fastforce
            define s3 where "s3 = s2\<lparr>se_cursors := (c0, c1)\<rparr>"
            have "pair_best depth limits {..e} (se_best s3)"
              unfolding s3_def using split le(1) by (simp, intro pair_best_extend [OF best2(1)]) (auto simp: pair_candidate_def)
            then have "loop_state depth limits e s3"
              using c0 c1 best2 s2(2) ends base(4) fm(2) by (simp add: loop_state_def s3_def cursors_ok_def)
            moreover have "\<forall>q. pair_grid depth limits q \<longrightarrow> q \<le> e \<longrightarrow> pair_funded depth limits q"
            proof (intro allI impI)
              fix q assume q: "pair_grid depth limits q" "q \<le> e"
              show "pair_funded depth limits q"
              proof (cases "q \<le> covered")
                case False
                then show ?thesis using last(3) [of q] q beyond [of q] le(1) by (simp add: first_def pair_grid_def)
              qed (use less.prems(2) q in simp)
            qed
            ultimately obtain outcome where out: "segments ?step c (e + ?step) True s3 = Some outcome"
              "segments_end depth limits e True s3 outcome"
              using less.hyps [of e s3 True] le(2) ends(1) fm(2) by fastforce
            have "segments ?step c first funded s = Some outcome"
              unfolding unfold using False s2(1,3) ok' c0(1) c1(1) out(1) le fm ends(1) by (simp add: s3_def)
            moreover have "segments_end depth limits covered funded s outcome"
              using out(2) by (auto simp: segments_end_def split: sum.splits)
            ultimately show ?thesis unfolding first_def by blast
          qed
        qed
      qed
    qed
  qed
qed

end
