(* ===== verification/Pair_Sizing.thy ===== *)
theory Pair_Sizing
  imports Net_Optimum
begin

text \<open>
  What \<open>size_buy_pair\<close> of \<open>src/core/net_sizing.cpp\<close> promises: it returns, its status says which
  case holds, and an optimal quote is the best candidate of the whole grid, priced as the reference
  offer prices it. The evaluations it spends never exceed the caller's budget.
\<close>

definition pair_value :: "buy_depth \<times> buy_depth \<Rightarrow> sizing_limits \<Rightarrow> int \<Rightarrow> sized_pair" where
  "pair_value depth limits q =
     \<lparr>sp_quantity = quantity_value q, sp_legs = pair_offer depth limits q,
      sp_payout_floor = cash_at (q * 10000), sp_net_margin = cash_at (pair_margin depth limits q)\<rparr>"

definition pair_optimum :: "buy_depth \<times> buy_depth \<Rightarrow> sizing_limits \<Rightarrow> int \<Rightarrow> bool" where
  "pair_optimum depth limits q \<longleftrightarrow> pair_candidate depth limits q \<and>
     (\<forall>q'. pair_candidate depth limits q' \<longrightarrow> pair_preferred depth limits q q')"

definition pair_outcome :: "buy_depth \<times> buy_depth \<Rightarrow> sizing_limits \<Rightarrow> sizing_result \<Rightarrow> bool" where
  "pair_outcome depth limits r \<longleftrightarrow>
     (if \<not> pair_ok depth limits then r = invalid_sizing
      else case sr_status r of
          Optimal \<Rightarrow> \<exists>q. pair_optimum depth limits q \<and> sr_quote r = Some (pair_value depth limits q)
        | No_Positive_Margin \<Rightarrow> sr_quote r = None \<and> (\<forall>q. \<not> pair_candidate depth limits q)
        | No_Depth \<Rightarrow> sr_quote r = None \<and> (\<forall>q. \<not> pair_grid depth limits q)
        | Insufficient_Cash \<Rightarrow> sr_quote r = None \<and> (\<exists>q. pair_grid depth limits q) \<and>
            (\<forall>q. pair_grid depth limits q \<longrightarrow> \<not> pair_funded depth limits q)
        | Search_Budget_Exceeded \<Rightarrow> sr_quote r = None
        | _ \<Rightarrow> False)"

lemma valid_pair:
  "size_buy_pair depth limits =
     (if pair_ok depth limits then search_run (new_search depth limits) else Some invalid_sizing)"
  by (auto simp: size_buy_pair_def pair_ok_def grid_params_def quantity_bound_def cash_bound_def)

text \<open>At the first level of both legs, prices that sum to a whole payout leave no margin.\<close>

lemma first_level:
  assumes "grid_params step cap" and "net_inv depth step cap cursor" and "at_level cursor"
    and "cu_prefix_quantity cursor = 0"
  shows "\<exists>level levels. trim step cap (bd_levels depth) = level # levels \<and> bl_price level = cursor_price cursor"
proof -
  have depth: "cu_depth cursor = depth" using assms(2) by (simp add: net_inv_def)
  have "trim step cap (take (cu_index cursor) (bd_levels depth)) = []"
  proof (rule ccontr)
    assume "trim step cap (take (cu_index cursor) (bd_levels depth)) \<noteq> []"
    then obtain level levels where *: "trim step cap (take (cu_index cursor) (bd_levels depth)) = level # levels"
      by (cases "trim step cap (take (cu_index cursor) (bd_levels depth))") auto
    then have "level \<in> set (trim step cap (take (cu_index cursor) (bd_levels depth)))" by simp
    then have "quantity_raw (bl_quantity level) \<noteq> 0" unfolding trim_def by simp
    then have "0 < quantity_raw (bl_quantity level)" using quantity_raw_bounds(1) [of "bl_quantity level"] by (simp add: less_le)
    then show False using assms(2,4) * levels_total_nonneg [of levels] by (simp add: net_inv_def)
  qed
  moreover have "trim step cap (drop (cu_index cursor) (bd_levels depth)) =
      resize step cap (bd_levels depth ! cu_index cursor) # trim step cap (drop (Suc (cu_index cursor)) (bd_levels depth))"
    using assms(3) depth cursor_size_eq [OF assms(1,2)] by (intro trim_drop) (simp_all add: at_level_def)
  ultimately show ?thesis
    using trim_split [of step cap "bd_levels depth" "cu_index cursor"] depth
    by (simp add: cursor_price_def resize_raw(2) [OF assms(1)])
qed

lemma first_prices_margin:
  assumes ok: "pair_ok depth limits" and cur: "cursors_ok depth limits cursors"
    and at: "at_level (fst cursors)" "at_level (snd cursors)"
    and zero: "cu_prefix_quantity (fst cursors) = 0" "cu_prefix_quantity (snd cursors) = 0"
    and price: "10000 \<le> price_raw (cursor_price (fst cursors)) + price_raw (cursor_price (snd cursors))"
  shows "\<not> pair_candidate depth limits q"
proof
  assume "pair_candidate depth limits q"
  then have q: "pair_grid depth limits q" and margin: "cash_raw (sl_minimum_margin limits) < pair_margin depth limits q"
    by (simp_all add: pair_candidate_def)
  note okp = pair_ok_simps [OF ok]
  have inv: "net_inv (fst depth) (pair_step limits) (pair_cap limits) (fst cursors)"
    "net_inv (snd depth) (pair_step limits) (pair_cap limits) (snd cursors)" using cur by (simp_all add: cursors_ok_def)
  obtain level0 levels0 level1 levels1
    where first: "trim (pair_step limits) (pair_cap limits) (bd_levels (fst depth)) = level0 # levels0"
        "bl_price level0 = cursor_price (fst cursors)"
        "trim (pair_step limits) (pair_cap limits) (bd_levels (snd depth)) = level1 # levels1"
        "bl_price level1 = cursor_price (snd cursors)"
    using first_level [OF okp(1) inv(1) at(1) zero(1)] first_level [OF okp(1) inv(2) at(2) zero(2)] by blast
  have qb: "0 < q" "q \<le> 100000000" "q mod pair_step limits = 0" using q okp(5) by (simp_all add: pair_grid_def)
  have cover: "depth_covers (pair_step limits) (pair_legs depth limits) q" using q by (simp add: pair_grid_def)
  have "q * price_raw (bl_price level0) + q * price_raw (bl_price level1) \<le>
      leg_cost (pair_step limits) sz_debit (pair_legs depth limits) q"
    using cover offer_lowest [OF _ qb(1,2) _ _ qb(3), of "trimmed (pair_step limits) (pair_cap limits) (fst depth)"]
      offer_lowest [OF _ qb(1,2) _ _ qb(3), of "trimmed (pair_step limits) (pair_cap limits) (snd depth)"] first(1,3)
    by (simp add: depth_covers_def pair_legs_def add_mono)
  moreover have "q * 10000 \<le> q * (price_raw (bl_price level0) + price_raw (bl_price level1))"
    using price first(2,4) qb(1) by (intro mult_left_mono) simp_all
  ultimately have "pair_margin depth limits q \<le> 0" by (simp add: pair_margin_def distrib_left)
  then show False using margin cash_raw_bounds(1) [of "sl_minimum_margin limits"] by linarith
qed

lemma new_search_inv: "cursors_ok depth limits (se_cursors (new_search depth limits))"
  by (simp add: cursors_ok_def new_search_def net_inv_new Let_def)


lemma search_run_spec:
  assumes ok: "pair_ok depth limits"
  shows "\<exists>r. search_run (new_search depth limits) = Some r \<and> pair_outcome depth limits r"
proof -
  define s0 where "s0 = new_search depth limits\<lparr>se_result := (se_result (new_search depth limits))\<lparr>sr_status := No_Positive_Margin\<rparr>\<rparr>"
  note okp = pair_ok_simps [OF ok]
  have s0: "se_cursors s0 = se_cursors (new_search depth limits)" "se_limits s0 = limits" "se_best s0 = None"
    "sr_status (se_result s0) = No_Positive_Margin" "sr_quote (se_result s0) = None"
    "cu_prefix_quantity (fst (se_cursors s0)) = 0" "cu_prefix_quantity (snd (se_cursors s0)) = 0"
    by (simp_all add: s0_def new_search_def new_cursor_def invalid_sizing_def Let_def)
  obtain found s1 where seek: "seek_both s0 = (found, s1)" "s1 = s0\<lparr>se_cursors := se_cursors s1\<rparr>"
    "cursors_ok depth limits (se_cursors s1)"
    "cu_prefix_quantity (fst (se_cursors s1)) = 0" "cu_prefix_quantity (snd (se_cursors s1)) = 0"
    "if found then at_level (fst (se_cursors s1)) \<and> at_level (snd (se_cursors s1))
     else (\<forall>q. pair_grid depth limits q \<longrightarrow> q \<le> 0 \<or> q \<le> 0)"
    using seek_both_spec [OF ok, of s0] new_search_inv [of depth limits] unfolding s0(1,6,7)
    by (metis s0(1,6,7))
  have same: "se_limits s1 = limits" "se_best s1 = None" "sr_status (se_result s1) = No_Positive_Margin"
    "sr_quote (se_result s1) = None"
    using seek(2) s0 by (metis search.select_convs(1,3,4) search.surjective search.update_convs(2))+
  show ?thesis
  proof (cases found)
    case False
    then have "search_run (new_search depth limits) = Some ((se_result s1)\<lparr>sr_status := No_Depth\<rparr>)"
      using seek(1) by (simp add: search_run_def s0_def)
    moreover have "\<not> pair_grid depth limits q" for q
      using seek(6) False by (auto simp: pair_grid_def)
    ultimately show ?thesis using ok same by (simp add: pair_outcome_def)
  next
    case found: True
    have at: "at_level (fst (se_cursors s1))" "at_level (snd (se_cursors s1))" using seek(6) found by simp_all
    show ?thesis
    proof (cases "10000 \<le> price_raw (cursor_price (fst (se_cursors s1))) + price_raw (cursor_price (snd (se_cursors s1)))")
      case True
      then have "search_run (new_search depth limits) = Some (se_result s1)"
        using seek(1) found by (simp add: search_run_def s0_def)
      with first_prices_margin [OF ok seek(3) at seek(4,5) True] ok same show ?thesis
        by (simp add: pair_outcome_def)
    next
      case False
      let ?c = "pair_cap limits div pair_step limits * pair_step limits"
      have run: "search_run (new_search depth limits) =
          map_option search_finish (segments (pair_step limits) ?c (pair_step limits) False s1)"
        using seek(1) found False unfolding search_run_def Let_def s0_def [symmetric]
        by (simp add: same(1) seek(1))
      have "loop_state depth limits 0 s1"
        using seek same by (simp add: loop_state_def leg_position_def pair_best_def pair_candidate_def pair_grid_def)
      then obtain outcome where out: "segments (pair_step limits) ?c (pair_step limits) False s1 = Some outcome"
        "segments_end depth limits 0 False s1 outcome"
        using segments_spec [OF ok, of 0 s1 False] by (auto simp: pair_grid_def)
      have "pair_outcome depth limits (search_finish outcome)"
      proof (cases outcome)
        case (Inl r)
        then show ?thesis using out(2) ok by (simp add: segments_end_def pair_outcome_def search_finish_def)
      next
        case (Inr x)
        then obtain f s2 where o: "outcome = Inr (f, s2)" by (cases x) simp
        note e = out(2) [unfolded segments_end_def o, simplified]
        show ?thesis
        proof (cases "se_best s2")
          case (Some b)
          then have "fits depth limits b" "pair_optimum depth limits (ev_q b)"
            using e by (simp_all add: pair_best_def pair_optimum_def)
          then show ?thesis using ok Some
            by (auto simp: o pair_outcome_def pair_value_def fits_def search_finish_def)
        next
          case None
          then have none: "\<not> pair_candidate depth limits q" for q using e by (simp add: pair_best_def)
          show ?thesis
          proof (cases f)
            case True
            then show ?thesis using ok none e None by (simp add: o pair_outcome_def search_finish_def)
          next
            case False
            have "fst (seek_both s1)"
              by (simp add: seek_both_def cursor_seek_at [OF at(1)] cursor_seek_at [OF at(2)])
            then have status: "unfunded_status s2 = Insufficient_Cash" using e False by (simp add: unfunded_status_def)
            have inv: "net_inv (fst depth) (pair_step limits) (pair_cap limits) (fst (se_cursors s1))"
              "net_inv (snd depth) (pair_step limits) (pair_cap limits) (snd (se_cursors s1))"
              using seek(3) by (simp_all add: cursors_ok_def)
            have "in_segment depth limits (se_cursors s1) (pair_step limits)"
              using leg_position_end [OF okp(1) inv(1) at(1) _ _ okp(4), of 0] leg_position_end [OF okp(1) inv(2) at(2) _ _ okp(4), of 0]
                seek(4,5) okp(1,4) by (simp add: in_segment_def leg_position_def grid_params_def)
            then have "\<exists>q. pair_grid depth limits q" using in_segment_grid [OF ok seek(3) at] by blast
            moreover have "\<not> pair_funded depth limits q" if "pair_grid depth limits q" for q
              using e False that by (simp add: pair_grid_def)
            ultimately show ?thesis using ok e None False by (simp add: o pair_outcome_def status search_finish_def)
          qed
        qed
      qed
      then show ?thesis using run out(1) by simp
    qed
  qed
qed




subsection \<open>The evaluation budget\<close>

definition within_budget :: "u64 \<Rightarrow> sizing_result \<Rightarrow> bool" where
  "within_budget limit r \<longleftrightarrow> sr_evaluated_quantities r \<le> limit \<and>
     (sr_status r = Search_Budget_Exceeded \<longrightarrow> sr_evaluated_quantities r = limit)"

definition budgeted :: "u64 \<Rightarrow> search \<Rightarrow> bool" where
  "budgeted limit s \<longleftrightarrow> sl_max_evaluations (se_limits s) = limit \<and> within_budget limit (se_result s)"

lemma word_add1_le: "(x :: u64) \<le> y \<Longrightarrow> x \<noteq> y \<Longrightarrow> x + 1 \<le> y"
  by (metis inc_le order_le_less)

lemma evaluate_budget:
  "budgeted limit s \<Longrightarrow> sr_status (se_result s) \<noteq> Search_Budget_Exceeded \<Longrightarrow> evaluate q s = (found, s') \<Longrightarrow>
     budgeted limit s' \<and> (found \<noteq> None \<longrightarrow> sr_status (se_result s') = sr_status (se_result s))"
  by (auto simp: evaluate_def budgeted_def within_budget_def word_add1_le Let_def split: if_splits option.splits prod.splits)

text \<open>What a step that returns keeps: a success leaves the status, and the budget is never overrun.\<close>

definition keeps_budget :: "u64 \<Rightarrow> search \<Rightarrow> bool \<times> search \<Rightarrow> bool" where
  "keeps_budget limit s r \<longleftrightarrow> budgeted limit s \<longrightarrow> sr_status (se_result s) \<noteq> Search_Budget_Exceeded \<longrightarrow>
     budgeted limit (snd r) \<and> (fst r \<longrightarrow> sr_status (se_result (snd r)) = sr_status (se_result s))"

lemma keeps_budget_bind:
  "evaluate q s = (Some mid, s1) \<Longrightarrow> keeps_budget limit s1 r \<Longrightarrow> keeps_budget limit s r"
  using evaluate_budget [of limit s q "Some mid" s1] by (auto simp: keeps_budget_def)

lemma keeps_budget_seq:
  "keeps_budget limit s (True, s1) \<Longrightarrow> keeps_budget limit s1 r \<Longrightarrow> keeps_budget limit s r"
  by (auto simp: keeps_budget_def)

lemma keeps_budget_fail: "keeps_budget limit s (ok, s1) \<Longrightarrow> keeps_budget limit s (False, s1)"
  by (auto simp: keeps_budget_def)

lemma evaluate_fails: "evaluate q s = (None, s1) \<Longrightarrow> keeps_budget limit s (False, s1)"
  using evaluate_budget [of limit s q None s1] by (auto simp: keeps_budget_def)

lemma interval_budget: "interval low high s = Some r \<Longrightarrow> keeps_budget limit s r"
proof (rule interval.raw_induct [where P = "\<lambda>low high s r. keeps_budget limit s r", rotated])
  fix interval :: "evaluation \<Rightarrow> evaluation \<Rightarrow> search \<Rightarrow> (bool \<times> search) option" and low high :: evaluation and s :: search and r :: "bool \<times> search"
  assume IH: "\<And>low high s r. interval low high s = Some r \<Longrightarrow> keeps_budget limit s r"
  let ?step = "quantity_raw (sl_step (se_limits s))"
  let ?mid = "ev_q low + (ev_q high - ev_q low) div ?step div 2 * ?step"
  let ?run = "case evaluate ?mid s of
      (None, s) \<Rightarrow> Some (False, s)
    | (Some mid, s) \<Rightarrow> Option.bind (interval low mid s) (\<lambda>(ok, s). if ok then interval mid high s else Some (False, s))"
  assume "(if ev_q high - ev_q low \<le> ?step then Some (True, s)
    else
      let upper = (if 0 \<le> se_slope s then ev_upper high else ev_upper low);
          bound = (case se_best s of Some best \<Rightarrow> ev_margin best | None \<Rightarrow> cash_raw (sl_minimum_margin (se_limits s)))
      in if upper < bound \<or> (upper = bound \<and> (case se_best s of None \<Rightarrow> True | Some best \<Rightarrow> ev_q best \<le> ev_q low))
         then Some (True, s\<lparr>se_result := (se_result s)\<lparr>sr_intervals_pruned := sr_intervals_pruned (se_result s) + 1\<rparr>\<rparr>)
         else let steps = (ev_q high - ev_q low) div ?step
           in case evaluate (ev_q low + steps div 2 * ?step) s of
                (None, s) \<Rightarrow> Some (False, s)
              | (Some mid, s) \<Rightarrow>
                  Option.bind (interval low mid s) (\<lambda>(ok, s). if ok then interval mid high s else Some (False, s))) = Some r"
  note body = this [unfolded Let_def]
  let ?upper = "if 0 \<le> se_slope s then ev_upper high else ev_upper low"
  let ?bound = "case se_best s of Some best \<Rightarrow> ev_margin best | None \<Rightarrow> cash_raw (sl_minimum_margin (se_limits s))"
  let ?pruned = "?upper < ?bound \<or> (?upper = ?bound \<and> (case se_best s of None \<Rightarrow> True | Some best \<Rightarrow> ev_q best \<le> ev_q low))"
  consider "r = (True, s)"
    | "r = (True, s\<lparr>se_result := (se_result s)\<lparr>sr_intervals_pruned := sr_intervals_pruned (se_result s) + 1\<rparr>\<rparr>)"
    | "?run = Some r"
  proof (cases "ev_q high - ev_q low \<le> ?step")
    case True
    then have "r = (True, s)" using body by (simp only: if_True option.inject)
    then show thesis by (rule that(1))
  next
    case False
    show thesis
    proof (cases ?pruned)
      case True
      then show thesis using body False that(2) by (simp only: if_True if_False option.inject)
    next
      case unpruned: False
      show thesis using body that(3) unfolding if_not_P [OF False] if_not_P [OF unpruned] by blast
    qed
  qed
  then show "keeps_budget limit s r"
  proof cases
    case 3
    show ?thesis
    proof (cases "evaluate ?mid s")
      case (Pair found s1)
      show ?thesis
      proof (cases found)
        case None
        then show ?thesis using 3 Pair evaluate_fails by auto
      next
        case (Some mid)
        with 3 Pair obtain ok s2 where low: "interval low mid s1 = Some (ok, s2)"
          and high: "(if ok then interval mid high s2 else Some (False, s2)) = Some r"
          by (auto simp: bind_eq_Some_conv)
        have "keeps_budget limit s1 r"
          using IH [OF low] high IH [of mid high s2 r]
          by (cases ok) (auto intro: keeps_budget_seq keeps_budget_fail)
        then show ?thesis using Pair Some keeps_budget_bind by blast
      qed
    qed
  qed (simp_all add: keeps_budget_def budgeted_def within_budget_def)
qed simp

lemma search_segment_budget: "search_segment first l s = Some r \<Longrightarrow> keeps_budget limit s r"
proof -
  assume run: "search_segment first l s = Some r"
  let ?s = "s\<lparr>se_slope := segment_slope (se_cursors s)\<rparr>"
  have slope: "keeps_budget limit ?s r \<Longrightarrow> keeps_budget limit s r" by (simp add: keeps_budget_def budgeted_def)
  show ?thesis
  proof (cases "evaluate first ?s")
    case (Pair found s1)
    show ?thesis
    proof (cases found)
      case None
      then show ?thesis using run Pair slope evaluate_fails [OF Pair [unfolded None]]
        by (auto simp: search_segment_def Let_def)
    next
      case (Some low)
      note e1 = Pair [unfolded Some]
      have "keeps_budget limit s1 r"
      proof (cases "l = first")
        case True
        then show ?thesis using run e1 interval_budget by (simp add: search_segment_def Let_def)
      next
        case False
        show ?thesis
        proof (cases "evaluate l s1")
          case (Pair found2 s2)
          then show ?thesis using run e1 False evaluate_fails [of l s1 s2] keeps_budget_bind [of l s1 _ s2] interval_budget
            by (cases found2) (auto simp: search_segment_def Let_def)
        qed
      qed
      then show ?thesis using e1 keeps_budget_bind slope by blast
    qed
  qed
qed

fun outcome_within :: "u64 \<Rightarrow> sizing_result + bool \<times> search \<Rightarrow> bool" where
  "outcome_within limit (Inl r) = within_budget limit r"
| "outcome_within limit (Inr (_, s)) = (budgeted limit s \<and> sr_status (se_result s) \<noteq> Search_Budget_Exceeded)"

definition outcome_budget :: "u64 \<Rightarrow> search \<Rightarrow> sizing_result + bool \<times> search \<Rightarrow> bool" where
  "outcome_budget limit s outcome \<longleftrightarrow> budgeted limit s \<longrightarrow> sr_status (se_result s) \<noteq> Search_Budget_Exceeded \<longrightarrow>
     outcome_within limit outcome"

lemma outcome_budget_after: "keeps_budget limit s (True, s1) \<Longrightarrow> outcome_budget limit s1 outcome \<Longrightarrow> outcome_budget limit s outcome"
  by (auto simp: outcome_budget_def keeps_budget_def)

lemma outcome_budget_failed: "keeps_budget limit s (False, s1) \<Longrightarrow> outcome_budget limit s (Inl (failed s1))"
  by (auto simp: outcome_budget_def keeps_budget_def failed_def budgeted_def within_budget_def)

lemma outcome_budget_error:
  "outcome_budget limit s (Inl (failed (s\<lparr>se_result := (se_result s)\<lparr>sr_status := Arithmetic_Error\<rparr>\<rparr>)))"
  by (auto simp: outcome_budget_def failed_def budgeted_def within_budget_def)

lemma outcome_budget_done: "outcome_budget limit s (Inr (funded, s))"
  by (simp add: outcome_budget_def)

lemma seek_budget: "outcome_budget limit (snd (seek_both s)) outcome \<Longrightarrow> outcome_budget limit s outcome"
  by (auto simp: seek_both_def outcome_budget_def budgeted_def within_budget_def case_prod_unfold Let_def split: if_splits)

lemma cursors_budget: "outcome_budget limit (s\<lparr>se_cursors := cursors\<rparr>) outcome \<Longrightarrow> outcome_budget limit s outcome"
  by (simp add: outcome_budget_def budgeted_def)

lemma segments_budget: "segments step cap first funded s = Some outcome \<Longrightarrow> outcome_budget limit s outcome"
proof (rule segments.raw_induct [where P = "\<lambda>step cap first funded s outcome. outcome_budget limit s outcome", rotated])
  fix segments :: "int \<Rightarrow> int \<Rightarrow> int \<Rightarrow> bool \<Rightarrow> search \<Rightarrow> (sizing_result + bool \<times> search) option"
    and step cap first :: int and funded :: bool and s :: search and outcome :: "sizing_result + bool \<times> search"
  assume IH: "\<And>step cap first funded s outcome. segments step cap first funded s = Some outcome \<Longrightarrow> outcome_budget limit s outcome"
  assume body: "(if \<not> first \<le> cap then Some (Inr (funded, s))
    else case seek_both s of (found, s) \<Rightarrow>
      if \<not> found then Some (Inr (funded, s))
      else let end_quantity = min cap (min (cursor_end (fst (se_cursors s))) (cursor_end (snd (se_cursors s))));
               last_quantity = segment_last s step first end_quantity
        in if last_quantity < first then Some (Inr (funded, s))
           else Option.bind (search_segment first last_quantity s) (\<lambda>(ok, s).
             if \<not> ok then Some (Inl (failed s))
             else if last_quantity < end_quantity \<or> end_quantity = cap then Some (Inr (True, s))
             else case advance_at end_quantity (fst (se_cursors s)) of
                 None \<Rightarrow> Some (Inl (failed (s\<lparr>se_result := (se_result s)\<lparr>sr_status := Arithmetic_Error\<rparr>\<rparr>)))
               | Some cursor0 \<Rightarrow>
                   (case advance_at end_quantity (snd (se_cursors s)) of
                      None \<Rightarrow> Some (Inl (failed (s\<lparr>se_result := (se_result s)\<lparr>sr_status := Arithmetic_Error\<rparr>\<rparr>)))
                    | Some cursor1 \<Rightarrow> segments step cap (end_quantity + step) True (s\<lparr>se_cursors := (cursor0, cursor1)\<rparr>)))) =
    Some outcome"
  obtain found s1 where seek: "seek_both s = (found, s1)" by (cases "seek_both s")
  show "outcome_budget limit s outcome"
  proof (cases "first \<le> cap \<and> found")
    case False
    then have "outcome = Inr (funded, s) \<or> outcome = Inr (funded, s1)" using body seek by (auto split: if_splits)
    then show ?thesis using seek_budget [of limit s outcome] seek outcome_budget_done by auto
  next
    case True
    define e where "e = min cap (min (cursor_end (fst (se_cursors s1))) (cursor_end (snd (se_cursors s1))))"
    define l where "l = segment_last s1 step first e"
    have "outcome_budget limit s1 outcome"
    proof (cases "l < first")
      case True
      then show ?thesis using body seek \<open>first \<le> cap \<and> found\<close> outcome_budget_done
        by (auto simp: Let_def e_def l_def)
    next
      case False
      define after where "after = (\<lambda>(ok, s2). if \<not> ok then Some (Inl (failed s2))
           else if l < e \<or> e = cap then Some (Inr (True, s2))
           else case advance_at e (fst (se_cursors s2)) of
               None \<Rightarrow> Some (Inl (failed (s2\<lparr>se_result := (se_result s2)\<lparr>sr_status := Arithmetic_Error\<rparr>\<rparr>)))
             | Some cursor0 \<Rightarrow>
                 (case advance_at e (snd (se_cursors s2)) of
                    None \<Rightarrow> Some (Inl (failed (s2\<lparr>se_result := (se_result s2)\<lparr>sr_status := Arithmetic_Error\<rparr>\<rparr>)))
                  | Some cursor1 \<Rightarrow> segments step cap (e + step) True (s2\<lparr>se_cursors := (cursor0, cursor1)\<rparr>)))"
      have "Option.bind (search_segment first l s1) after = Some outcome"
        using body [unfolded seek prod.case Let_def, folded e_def, folded l_def] \<open>first \<le> cap \<and> found\<close> False
        by (simp only: after_def not_True_eq_False if_False simp_thms)
      then obtain ok s2 where seg: "search_segment first l s1 = Some (ok, s2)" and "after (ok, s2) = Some outcome"
        by (auto simp: bind_eq_Some_conv)
      then have rest: "(if \<not> ok then Some (Inl (failed s2))
           else if l < e \<or> e = cap then Some (Inr (True, s2))
           else case advance_at e (fst (se_cursors s2)) of
               None \<Rightarrow> Some (Inl (failed (s2\<lparr>se_result := (se_result s2)\<lparr>sr_status := Arithmetic_Error\<rparr>\<rparr>)))
             | Some cursor0 \<Rightarrow>
                 (case advance_at e (snd (se_cursors s2)) of
                    None \<Rightarrow> Some (Inl (failed (s2\<lparr>se_result := (se_result s2)\<lparr>sr_status := Arithmetic_Error\<rparr>\<rparr>)))
                  | Some cursor1 \<Rightarrow> segments step cap (e + step) True (s2\<lparr>se_cursors := (cursor0, cursor1)\<rparr>))) = Some outcome"
        by (simp only: after_def prod.case)
      note keeps = search_segment_budget [OF seg, of limit]
      show ?thesis
      proof (cases ok)
        case False
        then show ?thesis using rest keeps outcome_budget_failed by auto
      next
        case True
        have after: "outcome_budget limit s2 outcome \<Longrightarrow> ?thesis"
          using keeps True outcome_budget_after [of limit s1 s2 outcome] by simp
        show ?thesis
          using True rest IH [of step cap "e + step" True _ outcome]
          by (intro after) (auto split: if_splits option.splits intro: outcome_budget_done outcome_budget_error cursors_budget)
      qed
    qed
    then show ?thesis using seek_budget [of limit s outcome] seek by simp
  qed
qed simp

lemma finish_budget: "outcome_within limit outcome \<Longrightarrow> within_budget limit (search_finish outcome)"
  by (cases outcome)
    (auto simp: search_finish_def budgeted_def within_budget_def unfunded_status_def split: option.splits if_splits)

text \<open>
  The search never spends more evaluations than the caller allows, and it reports an
  exhausted budget only when it has spent all of it.
\<close>

theorem pair_search_bounded:
  assumes "size_buy_pair depth limits = Some r"
  shows "sr_evaluated_quantities r \<le> sl_max_evaluations limits \<and>
    (sr_status r = Search_Budget_Exceeded \<longrightarrow> sr_evaluated_quantities r = sl_max_evaluations limits)"
proof (cases "pair_ok depth limits")
  case False
  then have "r = invalid_sizing" using assms by (simp add: valid_pair)
  then show ?thesis by (simp add: invalid_sizing_def)
next
  case True
  let ?limit = "sl_max_evaluations limits"
  define s where "s = new_search depth limits\<lparr>se_result := (se_result (new_search depth limits))\<lparr>sr_status := No_Positive_Margin\<rparr>\<rparr>"
  obtain found s1 where seek: "seek_both s = (found, s1)" by (cases "seek_both s")
  then have s1: "budgeted ?limit s1" "sr_status (se_result s1) = No_Positive_Margin"
    by (auto simp: seek_both_def s_def new_search_def invalid_sizing_def budgeted_def within_budget_def
        case_prod_unfold Let_def split: if_splits)
  have run: "search_run (new_search depth limits) = Some r" using assms True by (simp add: valid_pair)
  have limits: "se_limits s1 = limits"
    using seek by (auto simp: seek_both_def s_def new_search_def case_prod_unfold Let_def split: if_splits)
  have "within_budget ?limit r"
  proof (cases "found \<and> \<not> 10000 \<le> price_raw (cursor_price (fst (se_cursors s1))) + price_raw (cursor_price (snd (se_cursors s1)))")
    case False
    then have "r = (se_result s1)\<lparr>sr_status := No_Depth\<rparr> \<or> r = se_result s1"
      using run unfolding search_run_def Let_def s_def [symmetric] seek by (auto split: if_splits)
    then show ?thesis using s1 by (auto simp: budgeted_def within_budget_def)
  next
    case True
    then obtain outcome where out: "segments (pair_step limits) (pair_cap limits div pair_step limits * pair_step limits) (pair_step limits) False s1 = Some outcome"
      "r = search_finish outcome"
      using run unfolding search_run_def Let_def s_def [symmetric] seek by (auto simp: limits)
    then show ?thesis using segments_budget [OF out(1), of ?limit] s1 finish_budget by (auto simp: outcome_budget_def)
  qed
  then show ?thesis by (simp add: within_budget_def)
qed

text \<open>A pair for the witnesses: two legs of one contract at one cent, without a trade fee.\<close>

definition cent_pair_limits :: sizing_limits where
  "cent_pair_limits = \<lparr>sl_cap = quantity_of 100, sl_step = quantity_of 100, sl_available = cash_of 1000000,
     sl_minimum_margin = cash_of 0, sl_max_evaluations = 5\<rparr>"

definition cent_cursor :: cursor where
  "cent_cursor = new_cursor cent_leg 100 100"

definition cent_sized_leg :: sized_leg where
  "cent_sized_leg = \<lparr>sz_limit = price_of 100, sz_notional = cash_at 10000, sz_debit = cash_at 10000,
     sz_reservation = cash_of 10101\<rparr>"

lemma cent_cursor_simps [simp]:
  "cursor_size cent_cursor = 100" "cursor_end cent_cursor = 100" "cursor_price cent_cursor = price_of 100"
  "cursor_seek cent_cursor = (True, cent_cursor)" "cu_prefix_quantity cent_cursor = 0"
  by (simp_all add: cent_cursor_def new_cursor_def cursor_size_def cent_leg_def cursor_end_def cursor_price_def cursor_seek.simps)

lemma cent_reserve:
  assumes "se_limits s = cent_pair_limits"
  shows "leg_reservation s cent_cursor 100 = Some (cash_of 10101)"
  using assms
  by (simp add: leg_reservation_def cent_cursor_def new_cursor_def cent_leg_def cent_pair_limits_def cursor_price_def
      quantity_value_def quantity_from_raw_def
      buy_reservation_eq reserve_ok_def policy_ok_def reserve_amount_def trade_fee_def)

lemma cent_evaluate_leg:
  assumes "se_limits s = cent_pair_limits"
  shows "evaluate_leg s cent_cursor 100 = Some (cent_sized_leg, 0, 0)"
  using cent_reserve [OF assms] cent_charge
  by (simp add: evaluate_leg_def cent_sized_leg_def cent_cursor_def new_cursor_def cent_leg_def cursor_price_def
      quantity_value_def quantity_from_raw_def Let_def)

lemma cent_pair:
  "\<exists>r p. size_buy_pair (cent_leg, cent_leg) cent_pair_limits = Some r \<and> sr_quote r = Some p"
proof -
  have ok: "pair_ok (cent_leg, cent_leg) cent_pair_limits"
    by (simp add: pair_ok_def grid_params_def cent_pair_limits_def valid_depth_def cent_leg_def valid_fee_iff policy_ok_def)
  define s1 where "s1 = new_search (cent_leg, cent_leg) cent_pair_limits\<lparr>se_result := invalid_sizing\<lparr>sr_status := No_Positive_Margin\<rparr>\<rparr>"
  have cursors: "se_cursors s1 = (cent_cursor, cent_cursor)" and limits: "se_limits s1 = cent_pair_limits"
    by (simp_all add: s1_def new_search_def Let_def cent_cursor_def cent_pair_limits_def)
  have seek: "seek_both s1 = (True, s1)" using cursors by (simp add: seek_both_def)
  have result: "se_result s1 = invalid_sizing\<lparr>sr_status := No_Positive_Margin\<rparr>" "se_best s1 = None"
    by (simp_all add: s1_def new_search_def Let_def)
  define s2 where "s2 = s1\<lparr>se_slope := segment_slope (cent_cursor, cent_cursor)\<rparr>"
  obtain e s3 where eval: "evaluate 100 s2 = (Some e, s3)" "ev_q e = 100" "se_best s3 = Some e"
    using limits cursors result cent_evaluate_leg
    by (simp add: evaluate_def s2_def invalid_sizing_def cent_pair_limits_def cent_sized_leg_def Let_def better_def)
  have s3: "se_cursors s3 = (cent_cursor, cent_cursor)" "se_limits s3 = cent_pair_limits" "se_limits s2 = cent_pair_limits"
    using eval(1) cursors limits by (auto simp: evaluate_def s2_def Let_def split: if_splits option.splits prod.splits)
  have "interval e e s3 = Some (True, s3)" by (subst interval.simps) (simp add: s3 cent_pair_limits_def)
  then have "search_segment 100 100 s1 = Some (True, s3)"
    using eval(1) by (simp add: search_segment_def s2_def cursors Let_def)
  moreover have "segment_last s1 100 100 100 = 100"
    using cent_reserve [OF limits] by (simp add: segment_last_def reservation_def cursors limits cent_pair_limits_def)
  ultimately have "segments 100 100 100 False s1 = Some (Inr (True, s3))"
    by (subst segments.simps) (simp add: seek cursors)
  then have "search_run (new_search (cent_leg, cent_leg) cent_pair_limits) = Some (search_finish (Inr (True, s3)))"
    using seek limits cursors by (simp add: search_run_def s1_def new_search_def Let_def cent_pair_limits_def)
  then show ?thesis using ok eval(3) by (simp add: valid_pair search_finish_def)
qed

text \<open>
  Claim C4. A quoted pair can be bought: the debits of its legs are within their reserves, the reserves
  together within the available cash, and the net margin is the payout less the debits and more
  than the minimum asked for.
\<close>

theorem pair_quote_funded:
  assumes "size_buy_pair depth limits = Some r" and "sr_quote r = Some p"
  shows "cash_raw (sz_debit (fst (sp_legs p))) + cash_raw (sz_debit (snd (sp_legs p)))
      \<le> cash_raw (sz_reservation (fst (sp_legs p))) + cash_raw (sz_reservation (snd (sp_legs p))) \<and>
    cash_raw (sz_reservation (fst (sp_legs p))) + cash_raw (sz_reservation (snd (sp_legs p))) \<le> cash_raw (sl_available limits) \<and>
    cash_raw (sp_payout_floor p) = quantity_raw (sp_quantity p) * 10000 \<and>
    cash_raw (sp_net_margin p) =
      cash_raw (sp_payout_floor p) - cash_raw (sz_debit (fst (sp_legs p))) - cash_raw (sz_debit (snd (sp_legs p))) \<and>
    cash_raw (sl_minimum_margin limits) < cash_raw (sp_net_margin p)"
proof -
  have ok: "pair_ok depth limits" using assms by (auto simp: valid_pair invalid_sizing_def split: if_splits)
  then have "pair_outcome depth limits r" using assms(1) search_run_spec [OF ok] by (auto simp: valid_pair)
  then obtain q where q: "pair_candidate depth limits q" "p = pair_value depth limits q"
    using assms(2) ok by (cases "sr_status r") (auto simp: pair_outcome_def pair_optimum_def)
  let ?offer = "pair_offer depth limits q"
  have grid: "pair_grid depth limits q" and funded: "pair_reserve depth limits q \<le> cash_raw (sl_available limits)"
    and margin: "cash_raw (sl_minimum_margin limits) < pair_margin depth limits q"
    using q(1) by (simp_all add: pair_candidate_def pair_funded_def)
  have range: "0 < q" "q \<le> 100000000" "q mod pair_step limits = 0" "depth_covers (pair_step limits) (pair_legs depth limits) q"
    using grid pair_ok_simps(5) [OF ok] by (simp_all add: pair_grid_def)
  have sums: "leg_cost (pair_step limits) field (pair_legs depth limits) q = cash_raw (field (fst ?offer)) + cash_raw (field (snd ?offer))" for field
    by (simp add: pair_legs_def pair_offer_def)
  have "pair_margin depth limits q = q * 10000 - cash_raw (sz_debit (fst ?offer)) - cash_raw (sz_debit (snd ?offer))"
    by (simp add: pair_margin_def sums)
  then have "0 \<le> pair_margin depth limits q" "pair_margin depth limits q \<le> q * 10000"
    using margin cash_raw_bounds(1) [of "sl_minimum_margin limits"] cash_raw_bounds(1) [of "sz_debit (fst ?offer)"]
      cash_raw_bounds(1) [of "sz_debit (snd ?offer)"] by linarith+
  then have fields: "cash_raw (sp_payout_floor p) = q * 10000" "cash_raw (sp_net_margin p) = pair_margin depth limits q"
      "quantity_raw (sp_quantity p) = q" "sp_legs p = ?offer"
    using range(1,2) by (simp_all add: q(2) pair_value_def)
  show ?thesis
    using debit_le_reserve [OF range(4,1,2,3)] funded margin unfolding fields
    by (simp add: pair_margin_def pair_reserve_def sums)
qed

lemma pair_quote_funded_witness:
  "\<exists>r p. size_buy_pair (cent_leg, cent_leg) cent_pair_limits = Some r \<and> sr_quote r = Some p \<and>
     0 < cash_raw (sp_net_margin p)"
proof -
  obtain r p where rp: "size_buy_pair (cent_leg, cent_leg) cent_pair_limits = Some r" "sr_quote r = Some p"
    using cent_pair by blast
  from pair_quote_funded [OF rp] rp show ?thesis by (auto simp: cent_pair_limits_def)
qed

lemma pair_search_bounded_witness:
  "\<exists>r. size_buy_pair (cent_leg, cent_leg) cent_pair_limits = Some r \<and> sr_evaluated_quantities r \<le> 5"
proof -
  obtain r where r: "size_buy_pair (cent_leg, cent_leg) cent_pair_limits = Some r" using cent_pair by blast
  from pair_search_bounded [OF r] r show ?thesis by (auto simp: cent_pair_limits_def)
qed

end
