(* ===== verification/Passive_Queue.thy ===== *)
theory Passive_Queue
  imports Prelude
begin

text \<open>
  The queue-position sensitivity model of \<open>include/eme/core/passive_queue.hpp\<close>. A deque of changes
  is a list, its front first; \<open>None\<close> is the exception of \<open>append\<close>. Times and quantities that are
  not negative keep every difference within \<open>int64\<close>. Shown: a depth change and a trade at the same
  time commute, trades alone bound the fills when cancellations are not credited, and the favorable
  queue is never behind the other.
\<close>

subsection \<open>The queue\<close>

record change =
  ch_time :: int
  ch_quantity :: int

record passive_queue =
  pq_ahead :: int
  pq_displayed :: int
  pq_window :: int
  pq_favorable :: bool
  pq_reductions :: "change list"
  pq_credits :: "change list"

definition new_queue :: "int \<Rightarrow> bool \<Rightarrow> int \<Rightarrow> passive_queue" where
  "new_queue displayed cancellations_ahead window =
     \<lparr>pq_ahead = displayed, pq_displayed = displayed, pq_window = window, pq_favorable = cancellations_ahead,
      pq_reductions = [], pq_credits = []\<rparr>"

text \<open>The loops of \<open>advance\<close>: old reductions leave, in the favorable case with their effect; old credits leave.\<close>

fun expire_reductions :: "int \<Rightarrow> int \<Rightarrow> bool \<Rightarrow> int \<Rightarrow> change list \<Rightarrow> int \<times> change list" where
  "expire_reductions time window favorable ahead [] = (ahead, [])"
| "expire_reductions time window favorable ahead (front # changes) =
     (if window < time - ch_time front
      then expire_reductions time window favorable (if favorable then max 0 (ahead - ch_quantity front) else ahead) changes
      else (ahead, front # changes))"

definition queue_advance :: "int \<Rightarrow> passive_queue \<Rightarrow> passive_queue" where
  "queue_advance time queue =
     (let (ahead, reductions) =
        expire_reductions time (pq_window queue) (pq_favorable queue) (pq_ahead queue) (pq_reductions queue)
      in queue\<lparr>pq_ahead := ahead, pq_reductions := reductions,
           pq_credits := dropWhile (\<lambda>front. pq_window queue < time - ch_time front) (pq_credits queue)\<rparr>)"

text \<open>
  The loop of \<open>match\<close>. When the front is not used up, the whole quantity is, so the loop ends.
\<close>

fun match_changes :: "int \<Rightarrow> change list \<Rightarrow> int \<times> change list" where
  "match_changes quantity [] = (quantity, [])"
| "match_changes quantity (front # changes) =
     (if 0 < quantity
      then
        let used = min quantity (ch_quantity front);
            front = front\<lparr>ch_quantity := ch_quantity front - used\<rparr>
        in if ch_quantity front = 0 then match_changes (quantity - used) changes
           else (quantity - used, front # changes)
      else (quantity, front # changes))"

definition append_change :: "int \<Rightarrow> int \<Rightarrow> change list \<Rightarrow> change list option" where
  "append_change time quantity changes =
     (if quantity = 0 then Some changes
      else if 1024 \<le> length changes then None
      else Some (changes @ [\<lparr>ch_time = time, ch_quantity = quantity\<rparr>]))"

definition queue_depth :: "int \<Rightarrow> int \<Rightarrow> passive_queue \<Rightarrow> passive_queue option" where
  "queue_depth time displayed queue =
     (let queue = queue_advance time queue;
          reduction = max 0 (pq_displayed queue - displayed);
          (reduction, credits) = match_changes reduction (pq_credits queue)
      in map_option (\<lambda>reductions. queue\<lparr>pq_displayed := displayed, pq_credits := credits, pq_reductions := reductions\<rparr>)
           (append_change time reduction (pq_reductions queue)))"

text \<open>Also gives the part of the trade that fills the resting order.\<close>

definition queue_trade :: "int \<Rightarrow> int \<Rightarrow> int \<Rightarrow> passive_queue \<Rightarrow> (int \<times> passive_queue) option" where
  "queue_trade time quantity remaining queue =
     (let queue = queue_advance time queue;
          (unmatched, reductions) = match_changes quantity (pq_reductions queue)
      in map_option (\<lambda>credits.
           let consumed = min (pq_ahead queue) quantity
           in (min remaining (quantity - consumed),
               queue\<lparr>pq_reductions := reductions, pq_credits := credits, pq_ahead := pq_ahead queue - consumed\<rparr>))
           (append_change time unmatched (pq_credits queue)))"


subsection \<open>Invariant\<close>

text \<open>
  Pending quantities are positive, in the order of their times, and only one of the two deques
  waits for a counterpart.
\<close>

definition changes_ok :: "change list \<Rightarrow> bool" where
  "changes_ok changes \<longleftrightarrow> (\<forall>change \<in> set changes. 0 < ch_quantity change) \<and> sorted (map ch_time changes)"



lemma changes_ok_simps [simp]:
  "changes_ok []"
  "changes_ok (front # changes) \<longleftrightarrow> 0 < ch_quantity front \<and> (\<forall>change \<in> set changes. ch_time front \<le> ch_time change) \<and> changes_ok changes"
  by (auto simp: changes_ok_def)



lemma expire_changes:
  "snd (expire_reductions time window favorable ahead changes) = dropWhile (\<lambda>front. window < time - ch_time front) changes"
  by (induction changes arbitrary: ahead) simp_all

lemma expire_unfavorable: "fst (expire_reductions time window False ahead changes) = ahead"
  by (induction changes) simp_all

lemma expire_ahead:
  "\<forall>change \<in> set changes. 0 < ch_quantity change \<Longrightarrow> 0 \<le> ahead \<Longrightarrow>
     0 \<le> fst (expire_reductions time window favorable ahead changes) \<and>
     fst (expire_reductions time window favorable ahead changes) \<le> ahead"
proof (induction changes arbitrary: ahead)
  case (Cons front changes)
  let ?a = "if favorable then max 0 (ahead - ch_quantity front) else ahead"
  have a: "0 \<le> ?a" "?a \<le> ahead" "\<forall>change \<in> set changes. 0 < ch_quantity change" using Cons.prems by auto
  note Cons.IH [OF a(3,1)]
  then show ?case using a(2) Cons.prems(2) by simp
qed simp

lemma advance_simps [simp]:
  "pq_displayed (queue_advance time queue) = pq_displayed queue" "pq_window (queue_advance time queue) = pq_window queue"
  "pq_favorable (queue_advance time queue) = pq_favorable queue"
  "pq_reductions (queue_advance time queue) = dropWhile (\<lambda>front. pq_window queue < time - ch_time front) (pq_reductions queue)"
  "pq_credits (queue_advance time queue) = dropWhile (\<lambda>front. pq_window queue < time - ch_time front) (pq_credits queue)"
  by (simp_all add: queue_advance_def case_prod_unfold Let_def expire_changes)


lemma advance_unfavorable: "\<not> pq_favorable queue \<Longrightarrow> pq_ahead (queue_advance time queue) = pq_ahead queue"
  by (simp add: queue_advance_def case_prod_unfold Let_def expire_unfavorable)





subsection \<open>Matching\<close>

lemma match_zero [simp]: "match_changes 0 changes = (0, changes)"
  by (cases changes) simp_all



definition add_change :: "int \<Rightarrow> int \<Rightarrow> change list \<Rightarrow> change list" where
  "add_change time quantity changes =
     (if quantity = 0 then changes else changes @ [\<lparr>ch_time = time, ch_quantity = quantity\<rparr>])"

lemma append_change_Some: "append_change time quantity changes = Some changes' \<Longrightarrow> changes' = add_change time quantity changes"
  by (auto simp: append_change_def add_change_def split: if_splits)



subsection \<open>A depth change and a trade commute\<close>

lemma queue_trade_Some:
  "queue_trade time quantity remaining queue = Some (filled, queue') \<Longrightarrow> queue_advance time queue = s \<Longrightarrow>
     match_changes quantity (pq_reductions s) = (u, reductions) \<Longrightarrow>
     filled = min remaining (quantity - min (pq_ahead s) quantity) \<and>
     queue' = s\<lparr>pq_reductions := reductions, pq_credits := add_change time u (pq_credits s),
       pq_ahead := pq_ahead s - min (pq_ahead s) quantity\<rparr>"
  by (auto simp: queue_trade_def Let_def dest: append_change_Some)

lemma queue_depth_Some:
  "queue_depth time displayed queue = Some queue' \<Longrightarrow> queue_advance time queue = s \<Longrightarrow>
     match_changes (max 0 (pq_displayed s - displayed)) (pq_credits s) = (r, credits) \<Longrightarrow>
     queue' = s\<lparr>pq_displayed := displayed, pq_credits := credits, pq_reductions := add_change time r (pq_reductions s)\<rparr>"
  by (auto simp: queue_depth_def Let_def dest: append_change_Some)




subsection \<open>What can fill\<close>

datatype queue_event = Depth_Change int int | Public_Trade int int

text \<open>A resting order of some quantity, its fills accumulated over a stream of events.\<close>

fun queue_run :: "int \<Rightarrow> int \<times> passive_queue \<Rightarrow> queue_event list \<Rightarrow> (int \<times> passive_queue) option" where
  "queue_run wanted s [] = Some s"
| "queue_run wanted (filled, queue) (Depth_Change time displayed # events) =
     Option.bind (queue_depth time displayed queue) (\<lambda>queue. queue_run wanted (filled, queue) events)"
| "queue_run wanted (filled, queue) (Public_Trade time quantity # events) =
     Option.bind (queue_trade time quantity (wanted - filled) queue) (\<lambda>(gain, queue).
       queue_run wanted (filled + gain, queue) events)"

fun traded :: "queue_event list \<Rightarrow> int" where
  "traded [] = 0"
| "traded (Depth_Change _ _ # events) = traded events"
| "traded (Public_Trade _ quantity # events) = quantity + traded events"

definition trades_ok :: "queue_event list \<Rightarrow> bool" where
  "trades_ok events \<longleftrightarrow> (\<forall>time quantity. Public_Trade time quantity \<in> set events \<longrightarrow> 0 \<le> quantity)"

lemma trades_ok_simps [simp]:
  "trades_ok []" "trades_ok (Depth_Change time displayed # events) = trades_ok events"
  "trades_ok (Public_Trade time quantity # events) \<longleftrightarrow> 0 \<le> quantity \<and> trades_ok events"
  by (auto simp: trades_ok_def)

lemma traded_nonneg: "trades_ok events \<Longrightarrow> 0 \<le> traded events"
  by (induction events rule: traded.induct) auto

lemma depth_frame:
  "queue_depth time displayed queue = Some queue' \<Longrightarrow>
     pq_ahead queue' = pq_ahead (queue_advance time queue) \<and> pq_favorable queue' = pq_favorable queue"
  by (auto simp: queue_depth_def Let_def split: prod.splits)

lemma trade_frame:
  "queue_trade time quantity remaining queue = Some (gain, queue') \<Longrightarrow>
     gain = min remaining (quantity - min (pq_ahead (queue_advance time queue)) quantity) \<and>
     pq_ahead queue' = pq_ahead (queue_advance time queue) - min (pq_ahead (queue_advance time queue)) quantity \<and>
     pq_favorable queue' = pq_favorable queue"
  by (auto simp: queue_trade_def Let_def split: prod.splits)

lemma conservative_step:
  fixes wanted quantity past displayed :: int
  assumes "0 \<le> wanted" and "0 \<le> quantity"
  shows "min wanted (max 0 (past - displayed)) +
      min (wanted - min wanted (max 0 (past - displayed))) (quantity - min (max 0 (displayed - past)) quantity) =
      min wanted (max 0 (past + quantity - displayed))"
    and "max 0 (displayed - past) - min (max 0 (displayed - past)) quantity = max 0 (displayed - (past + quantity))"
  using assms by linarith+

text \<open>
  Without credit for cancellations only trades queue_advance the queue, and the fills are exact:
  what was traded beyond the quantity displayed at the start, up to the quantity wanted. Depth
  changes neither fill nor queue_advance.
\<close>

theorem conservative_fills_exact:
  assumes "queue_run wanted (0, new_queue displayed False window) events = Some (filled, queue)"
    and "0 \<le> displayed" and "0 \<le> wanted" and "trades_ok events"
  shows "filled = min wanted (max 0 (traded events - displayed)) \<and> pq_ahead queue = max 0 (displayed - traded events)"
proof -
  have "filled = min wanted (max 0 (past + traded events - displayed)) \<and> pq_ahead queue = max 0 (displayed - past - traded events)"
    if "queue_run wanted (f, q) events = Some (filled, queue)" "\<not> pq_favorable q" "0 \<le> past" "trades_ok events"
      "f = min wanted (max 0 (past - displayed))" "pq_ahead q = max 0 (displayed - past)" for past f q
    using that
  proof (induction events arbitrary: past f q)
    case (Cons event events)
    show ?case
    proof (cases event)
      case (Depth_Change time shown)
      then obtain q' where q': "queue_depth time shown q = Some q'" "queue_run wanted (f, q') events = Some (filled, queue)"
        using Cons.prems(1) by (auto simp: bind_eq_Some_conv)
      have "filled = min wanted (max 0 (past + traded events - displayed)) \<and> pq_ahead queue = max 0 (displayed - past - traded events)"
        using Cons.prems depth_frame [OF q'(1)] Depth_Change
        by (intro Cons.IH [OF q'(2)]) (auto simp: advance_unfavorable)
      then show ?thesis by (simp add: Depth_Change)
    next
      case (Public_Trade time quantity)
      then obtain gain q' where q': "queue_trade time quantity (wanted - f) q = Some (gain, q')"
        "queue_run wanted (f + gain, q') events = Some (filled, queue)"
        using Cons.prems(1) by (auto simp: bind_eq_Some_conv)
      have "filled = min wanted (max 0 (past + quantity + traded events - displayed)) \<and>
          pq_ahead queue = max 0 (displayed - (past + quantity) - traded events)"
      proof (rule Cons.IH [OF q'(2)])
        have ok: "0 \<le> quantity" "trades_ok events" using Cons.prems(4) by (simp_all add: Public_Trade)
        note frame = trade_frame [OF q'(1)]
        show "\<not> pq_favorable q'" "0 \<le> past + quantity" "trades_ok events" using frame Cons.prems(2,3) ok by simp_all
        show "f + gain = min wanted (max 0 (past + quantity - displayed))"
          using conservative_step(1) [OF assms(3) ok(1), where past = past and displayed = displayed] frame Cons.prems(2,5,6) by (simp add: advance_unfavorable)
        show "pq_ahead q' = max 0 (displayed - (past + quantity))"
          using conservative_step(2) [OF assms(3) ok(1), where past = past and displayed = displayed] frame Cons.prems(2,6) by (simp add: advance_unfavorable)
      qed
      then show ?thesis by (simp add: Public_Trade algebra_simps)
    qed
  qed auto
  from this [OF assms(1), of 0] assms show ?thesis by (simp add: new_queue_def)
qed

lemma conservative_fills_exact_witness:
  "\<exists>queue. queue_run 10 (0, new_queue 2 False 100) [Depth_Change 1 1, Public_Trade 2 5] = Some (3, queue) \<and> pq_ahead queue = 0"
proof -
  have "trades_ok [Depth_Change 1 1, Public_Trade 2 5]" by simp
  moreover have "queue_depth 1 1 (new_queue 2 False 100) =
      Some ((new_queue 2 False 100)\<lparr>pq_displayed := 1, pq_reductions := [\<lparr>ch_time = 1, ch_quantity = 1\<rparr>]\<rparr>)"
    by (simp add: queue_depth_def queue_advance_def new_queue_def append_change_def)
  moreover obtain f queue where "queue_trade 2 5 10 ((new_queue 2 False 100)\<lparr>pq_displayed := 1,
      pq_reductions := [\<lparr>ch_time = 1, ch_quantity = 1\<rparr>]\<rparr>) = Some (f, queue)"
    by (simp add: queue_trade_def queue_advance_def new_queue_def append_change_def Let_def)
  ultimately show ?thesis using conservative_fills_exact [of 10 2 100 "[Depth_Change 1 1, Public_Trade 2 5]" f queue] by simp
qed

text \<open>The two scenarios over the same events: the same pending changes, the favorable one never behind.\<close>

definition favors :: "passive_queue \<Rightarrow> passive_queue \<Rightarrow> bool" where
  "favors fav queue \<longleftrightarrow>
     pq_reductions fav = pq_reductions queue \<and> pq_credits fav = pq_credits queue \<and> pq_window fav = pq_window queue \<and>
     pq_displayed fav = pq_displayed queue \<and> pq_favorable fav \<and> \<not> pq_favorable queue \<and> pq_ahead fav \<le> pq_ahead queue"

definition pending_ok :: "passive_queue \<Rightarrow> bool" where
  "pending_ok queue \<longleftrightarrow> 0 \<le> pq_ahead queue \<and>
     (\<forall>change \<in> set (pq_reductions queue) \<union> set (pq_credits queue). 0 < ch_quantity change)"

lemma pending_advance:
  "pending_ok queue \<Longrightarrow> pending_ok (queue_advance time queue) \<and> pq_ahead (queue_advance time queue) \<le> pq_ahead queue"
  using expire_ahead [of "pq_reductions queue" "pq_ahead queue" time "pq_window queue" "pq_favorable queue"]
  by (auto simp: pending_ok_def queue_advance_def case_prod_unfold Let_def expire_changes dest: set_dropWhileD)

lemma match_pending:
  "match_changes quantity changes = (rest, changes') \<Longrightarrow> 0 \<le> quantity \<Longrightarrow> \<forall>change \<in> set changes. 0 < ch_quantity change \<Longrightarrow>
     0 \<le> rest \<and> (\<forall>change \<in> set changes'. 0 < ch_quantity change)"
proof (induction quantity changes rule: match_changes.induct)
  case (2 quantity front changes)
  show ?case
  proof (cases "0 < quantity \<and> ch_quantity front \<le> quantity")
    case True
    then have "match_changes (quantity - ch_quantity front) changes = (rest, changes')" using 2(2) by (simp add: Let_def)
    then show ?thesis using 2(1) [OF _ refl refl] 2(3,4) True by (auto simp: Let_def)
  next
    case False
    then show ?thesis using 2(2-4) by (auto simp: Let_def split: if_splits)
  qed
qed auto

lemma depth_pending:
  assumes "queue_depth time displayed queue = Some queue'" and "pending_ok queue"
  shows "pending_ok queue'"
proof -
  obtain r credits where m: "match_changes (max 0 (pq_displayed queue - displayed)) (pq_credits (queue_advance time queue)) = (r, credits)"
    by fastforce
  note pend = pending_advance [OF assms(2), of time]
  with queue_depth_Some [OF assms(1) refl, of r credits] match_pending [OF m] m show ?thesis
    by (auto simp: pending_ok_def add_change_def split: if_splits dest: set_dropWhileD)
qed

lemma trade_pending:
  assumes "queue_trade time quantity remaining queue = Some (filled, queue')" and "pending_ok queue" and "0 \<le> quantity"
  shows "pending_ok queue'"
proof -
  obtain u reductions where m: "match_changes quantity (pq_reductions (queue_advance time queue)) = (u, reductions)"
    by fastforce
  note pend = pending_advance [OF assms(2), of time]
  with queue_trade_Some [OF assms(1) refl m] match_pending [OF m] assms(3) show ?thesis
    by (auto simp: pending_ok_def add_change_def split: if_splits dest: set_dropWhileD)
qed

lemma favors_same:
  assumes "favors fav queue"
  shows "pq_reductions fav = pq_reductions queue" "pq_credits fav = pq_credits queue" "pq_window fav = pq_window queue"
      "pq_displayed fav = pq_displayed queue" "pq_favorable fav" "\<not> pq_favorable queue" "pq_ahead fav \<le> pq_ahead queue"
  using assms by (simp_all add: favors_def)

lemma favorsI:
  "pq_reductions fav = pq_reductions queue \<Longrightarrow> pq_credits fav = pq_credits queue \<Longrightarrow> pq_window fav = pq_window queue \<Longrightarrow>
   pq_displayed fav = pq_displayed queue \<Longrightarrow> pq_favorable fav \<Longrightarrow> \<not> pq_favorable queue \<Longrightarrow> pq_ahead fav \<le> pq_ahead queue \<Longrightarrow>
   favors fav queue"
  by (simp add: favors_def)

lemma favors_advance: "pending_ok fav \<Longrightarrow> favors fav queue \<Longrightarrow> favors (queue_advance time fav) (queue_advance time queue)"
  using pending_advance [of fav time] favors_same [of fav queue]
  by (intro favorsI) (simp_all add: advance_unfavorable)

lemma favors_depth:
  assumes "favors fav queue" and "pending_ok fav"
    and "queue_depth time displayed fav = Some fav'" and "queue_depth time displayed queue = Some queue'"
  shows "favors fav' queue'"
proof -
  note adv = favors_advance [OF assms(2,1), of time]
  note same = favors_same [OF adv]
  obtain r credits where m: "match_changes (max 0 (pq_displayed queue - displayed)) (pq_credits (queue_advance time queue)) = (r, credits)"
    by fastforce
  have "fav' = (queue_advance time fav)\<lparr>pq_displayed := displayed, pq_credits := credits, pq_reductions := add_change time r (pq_reductions (queue_advance time fav))\<rparr>"
    using queue_depth_Some [OF assms(3) refl, of r credits] m same favors_same [OF assms(1)] by simp
  moreover have "queue' = (queue_advance time queue)\<lparr>pq_displayed := displayed, pq_credits := credits, pq_reductions := add_change time r (pq_reductions (queue_advance time queue))\<rparr>"
    using queue_depth_Some [OF assms(4) refl, of r credits] m by simp
  ultimately show ?thesis by (intro favorsI) (simp_all add: same del: advance_simps)
qed

lemma favors_trade:
  assumes "favors fav queue" and "pending_ok fav"
    and "queue_trade time quantity remaining fav = Some (f, fav')" and "queue_trade time quantity remaining' queue = Some (g, queue')"
  shows "favors fav' queue'"
proof -
  note adv = favors_advance [OF assms(2,1), of time]
  note same = favors_same [OF adv]
  obtain u reductions where m: "match_changes quantity (pq_reductions (queue_advance time queue)) = (u, reductions)" by fastforce
  have m': "match_changes quantity (pq_reductions (queue_advance time fav)) = (u, reductions)" using m same by simp
  have "pq_ahead (queue_advance time fav) - min (pq_ahead (queue_advance time fav)) quantity \<le>
      pq_ahead (queue_advance time queue) - min (pq_ahead (queue_advance time queue)) quantity"
    using same(7) by linarith
  with queue_trade_Some [OF assms(3) refl m'] queue_trade_Some [OF assms(4) refl m]
  show ?thesis by (intro favorsI) (simp_all add: same del: advance_simps)
qed

lemma favorable_step:
  fixes wanted :: int
  assumes "g \<le> f" and "f \<le> wanted" and "a \<le> b" and "0 \<le> a" and "0 \<le> quantity"
  shows "g + min (wanted - g) (quantity - min b quantity) \<le> f + min (wanted - f) (quantity - min a quantity)"
    and "f + min (wanted - f) (quantity - min a quantity) \<le> f + quantity"
    and "f + min (wanted - f) (quantity - min a quantity) \<le> wanted"
  using assms by linarith+

text \<open>
  The two scenarios bracket: over the same events the favorable one fills at least as
  much as the other, and never more than was traded or wanted.
\<close>

theorem favorable_fills_bracket:
  assumes "queue_run wanted (0, new_queue displayed True window) events = Some (f, fav)"
    and "queue_run wanted (0, new_queue displayed False window) events = Some (g, queue)"
    and "0 \<le> displayed" and "0 \<le> wanted" and "trades_ok events"
  shows "g \<le> f \<and> f \<le> min wanted (traded events) \<and> pq_ahead fav \<le> pq_ahead queue"
proof -
  have "g \<le> f \<and> f \<le> wanted \<and> f \<le> f0 + traded events \<and> pq_ahead fav \<le> pq_ahead queue"
    if "queue_run wanted (f0, fav0) events = Some (f, fav)" "queue_run wanted (g0, queue0) events = Some (g, queue)"
      "favors fav0 queue0" "pending_ok fav0" "g0 \<le> f0" "f0 \<le> wanted" "trades_ok events" for f0 g0 fav0 queue0
    using that
  proof (induction events arbitrary: f0 g0 fav0 queue0)
    case Nil
    then show ?case using favors_same by simp
  next
    case (Cons event events)
    show ?case
    proof (cases event)
      case (Depth_Change time shown)
      then obtain fav1 queue1 where step: "queue_depth time shown fav0 = Some fav1" "queue_run wanted (f0, fav1) events = Some (f, fav)"
        "queue_depth time shown queue0 = Some queue1" "queue_run wanted (g0, queue1) events = Some (g, queue)"
        using Cons.prems(1,2) by (auto simp: bind_eq_Some_conv)
      then show ?thesis
        using Cons.IH [OF step(2,4)] favors_depth [OF Cons.prems(3,4) step(1,3)] depth_pending [OF step(1)] Cons.prems Depth_Change
        by simp
    next
      case (Public_Trade time quantity)
      then obtain x fav1 y queue1 where step:
        "queue_trade time quantity (wanted - f0) fav0 = Some (x, fav1)" "queue_run wanted (f0 + x, fav1) events = Some (f, fav)"
        "queue_trade time quantity (wanted - g0) queue0 = Some (y, queue1)" "queue_run wanted (g0 + y, queue1) events = Some (g, queue)"
        using Cons.prems(1,2) by (auto simp: bind_eq_Some_conv)
      have ok: "0 \<le> quantity" "trades_ok events" using Cons.prems(7) by (simp_all add: Public_Trade)
      have ahead: "pq_ahead (queue_advance time fav0) \<le> pq_ahead (queue_advance time queue0)" "0 \<le> pq_ahead (queue_advance time fav0)"
        using favors_same [OF favors_advance [OF Cons.prems(4,3)]] pending_advance [OF Cons.prems(4)] by (auto simp: pending_ok_def)
      note arith = favorable_step [OF Cons.prems(5,6) ahead ok(1)]
      have "g \<le> f \<and> f \<le> wanted \<and> f \<le> f0 + x + traded events \<and> pq_ahead fav \<le> pq_ahead queue"
        using arith trade_frame [OF step(1)] trade_frame [OF step(3)] ok(2)
          favors_trade [OF Cons.prems(3,4) step(1,3)] trade_pending [OF step(1) Cons.prems(4) ok(1)]
        by (intro Cons.IH [OF step(2,4)]) simp_all
      moreover have "f0 + x \<le> f0 + quantity" using arith(2) trade_frame [OF step(1)] by simp
      ultimately show ?thesis by (simp add: Public_Trade)
    qed
  qed
  from this [OF assms(1,2)] assms show ?thesis
    by (simp add: favors_def pending_ok_def new_queue_def)
qed

lemma favorable_fills_bracket_witness:
  "\<exists>f fav. queue_run 10 (0, new_queue 2 True 100) [Public_Trade 2 5] = Some (f, fav) \<and> 3 \<le> f \<and> f \<le> 5"
proof -
  have ok: "trades_ok [Public_Trade 2 5]" by simp
  obtain f fav where f: "queue_run 10 (0, new_queue 2 True 100) [Public_Trade 2 5] = Some (f, fav)"
    by (simp add: queue_trade_def queue_advance_def new_queue_def append_change_def Let_def)
  have "queue_run 10 (0, new_queue 2 False 100) [Public_Trade 2 5] =
      Some (3, (new_queue 2 False 100)\<lparr>pq_ahead := 0, pq_credits := [\<lparr>ch_time = 2, ch_quantity = 5\<rparr>]\<rparr>)"
    by (simp add: queue_trade_def queue_advance_def new_queue_def append_change_def Let_def)
  from favorable_fills_bracket [OF f this _ _ ok] f show ?thesis by simp
qed

end
