(* ===== verification/Kalshi_Gateway.thy ===== *)
theory Kalshi_Gateway
  imports Fixed_Point Market_State Journal_Codec
begin

text \<open>
  The venue boundary of \<open>include/eme/gateway/kalshi\<close> and \<open>src/gateway/kalshi\<close>: the market registry,
  the decoder, the normalizer and the order book processor. The JSON library is not part of the
  repository: its values are a type parameter and its accessors the record \<open>json_api\<close>. Shown: the
  registry is a bijection, what the normalizer accepts and what it makes of it, that an input
  rejected at this boundary changes no book, and that the processor only reaches the states of
  the market model.
\<close>

subsection \<open>The market registry\<close>

datatype market_registration_result =
  Registered | Already_Registered | Invalid_Metadata_Version | Invalid_Market_Id | Invalid_Ticker
  | Market_Id_Conflict | Ticker_Conflict

text \<open>The two unordered maps are association lists.\<close>

record market_registry =
  mr_market_ids :: "(string \<times> market_id) list"
  mr_tickers :: "(market_id \<times> string) list"
  mr_metadata_version :: u64

definition new_market_registry :: "u64 \<Rightarrow> market_registry" where
  "new_market_registry version = \<lparr>mr_market_ids = [], mr_tickers = [], mr_metadata_version = version\<rparr>"

definition register_market :: "market_id \<Rightarrow> string \<Rightarrow> market_registry \<Rightarrow> market_registration_result \<times> market_registry" where
  "register_market market ticker reg =
     (if mr_metadata_version reg = 0 then (Invalid_Metadata_Version, reg)
      else if market = 0 then (Invalid_Market_Id, reg)
      else if ticker = [] then (Invalid_Ticker, reg)
      else case map_of (mr_market_ids reg) ticker of
        Some by_ticker \<Rightarrow> (if by_ticker = market then Already_Registered else Ticker_Conflict, reg)
      | None \<Rightarrow>
          if map_of (mr_tickers reg) market \<noteq> None then (Market_Id_Conflict, reg)
          else (Registered, reg\<lparr>mr_tickers := (market, ticker) # mr_tickers reg,
                                mr_market_ids := (ticker, market) # mr_market_ids reg\<rparr>))"

definition find_ticker :: "market_id \<Rightarrow> market_registry \<Rightarrow> string option" where
  "find_ticker market reg = map_of (mr_tickers reg) market"

definition find_market :: "string \<Rightarrow> market_registry \<Rightarrow> market_id option" where
  "find_market ticker reg = map_of (mr_market_ids reg) ticker"

definition market_registry_size :: "market_registry \<Rightarrow> nat" where
  "market_registry_size reg = length (mr_market_ids reg)"


subsection \<open>Wire messages and the normalizer\<close>

datatype outcome_side = Yes_Side | No_Side

datatype normalization_error = Invalid_Price | Invalid_Quantity | Zero_Quantity | Zero_Delta

record wire_price_level =
  wl_price_dollars :: string
  wl_quantity_fp :: string

record wire_snapshot =
  ws_market_id :: market_id
  ws_generation :: connection_generation
  ws_stream_id :: stream_id
  ws_sequence :: sequence_number
  ws_received_at :: receive_time
  ws_yes_bids :: "wire_price_level list"
  ws_no_bids :: "wire_price_level list"

record wire_delta =
  wd_market_id :: market_id
  wd_generation :: connection_generation
  wd_stream_id :: stream_id
  wd_sequence :: sequence_number
  wd_received_at :: receive_time
  wd_outcome_side :: outcome_side
  wd_price_dollars :: string
  wd_quantity_delta_fp :: string

definition normalize_price :: "string \<Rightarrow> normalization_error + price" where
  "normalize_price text = (case price_parse text of None \<Rightarrow> Inl Invalid_Price | Some p \<Rightarrow> Inr p)"

text \<open>The levels appended so far are lost with an error, as the whole result is.\<close>

fun append_levels :: "wire_price_level list \<Rightarrow> level list \<Rightarrow> normalization_error + level list" where
  "append_levels [] destination = Inr destination"
| "append_levels (wire # source) destination =
     (case normalize_price (wl_price_dollars wire) of Inl e \<Rightarrow> Inl e
      | Inr price \<Rightarrow>
          (case quantity_parse (wl_quantity_fp wire) of
             None \<Rightarrow> Inl Invalid_Quantity
           | Some quantity \<Rightarrow>
               if quantity_raw quantity = 0 then Inl Zero_Quantity
               else append_levels source (destination @ [\<lparr>lv_price = price, lv_quantity = quantity\<rparr>])))"

definition normalize_orderbook_snapshot :: "wire_snapshot \<Rightarrow> normalization_error + book_snapshot" where
  "normalize_orderbook_snapshot wire =
     (case append_levels (ws_yes_bids wire) [] of Inl e \<Rightarrow> Inl e
      | Inr bids \<Rightarrow>
          (case append_levels (ws_no_bids wire) [] of Inl e \<Rightarrow> Inl e
           | Inr asks \<Rightarrow>
               Inr \<lparr>bs_market_id = ws_market_id wire, bs_generation = ws_generation wire,
                    bs_stream_id = ws_stream_id wire, bs_sequence = ws_sequence wire,
                    bs_received_at = ws_received_at wire, bs_bids = bids, bs_asks = asks\<rparr>))"



subsection \<open>The decoder\<close>

datatype decode_error_code =
  Invalid_Json | Invalid_Root | Missing_Field | Invalid_Field_Type | Invalid_Field_Value | Invalid_Level
  | Unknown_Market | Unsupported_Message_Type

record decode_error =
  de_code :: decode_error_code
  de_field :: string

datatype decoded_message = Wire_Snapshot wire_snapshot | Wire_Delta wire_delta | Decode_Error decode_error

text \<open>
  What the code uses of \<open>nlohmann::json\<close>: \<open>parse\<close> without exceptions, \<open>is_object\<close>, \<open>find\<close>, and for
  each type a test together with its accessor.
\<close>

record 'j json_api =
  js_parse :: "string \<Rightarrow> 'j option"
  js_is_object :: "'j \<Rightarrow> bool"
  js_find :: "'j \<Rightarrow> string \<Rightarrow> 'j option"
  js_unsigned :: "'j \<Rightarrow> u64 option"
  js_string :: "'j \<Rightarrow> string option"
  js_array :: "'j \<Rightarrow> 'j list option"

definition decode_failure :: "decode_error_code \<Rightarrow> string \<Rightarrow> decode_error" where
  "decode_failure code name = \<lparr>de_code = code, de_field = name\<rparr>"

definition find_field :: "'j json_api \<Rightarrow> 'j \<Rightarrow> string \<Rightarrow> 'j option" where
  "find_field api obj name = js_find api obj name"

definition read_unsigned :: "'j json_api \<Rightarrow> 'j \<Rightarrow> string \<Rightarrow> decode_error + u64" where
  "read_unsigned api obj name =
     (case find_field api obj name of None \<Rightarrow> Inl (decode_failure Missing_Field name)
      | Some j \<Rightarrow>
          (case js_unsigned api j of None \<Rightarrow> Inl (decode_failure Invalid_Field_Type name)
           | Some n \<Rightarrow> Inr n))"

definition read_string :: "'j json_api \<Rightarrow> 'j \<Rightarrow> string \<Rightarrow> decode_error + string" where
  "read_string api obj name =
     (case find_field api obj name of None \<Rightarrow> Inl (decode_failure Missing_Field name)
      | Some j \<Rightarrow>
          (case js_string api j of None \<Rightarrow> Inl (decode_failure Invalid_Field_Type name)
           | Some s \<Rightarrow> Inr s))"

text \<open>One level: an array of exactly two strings.\<close>

definition read_level :: "'j json_api \<Rightarrow> 'j \<Rightarrow> wire_price_level option" where
  "read_level api level =
     (case js_array api level of
        Some [price, quantity] \<Rightarrow>
          (case (js_string api price, js_string api quantity) of
             (Some p, Some q) \<Rightarrow> Some \<lparr>wl_price_dollars = p, wl_quantity_fp = q\<rparr>
           | _ \<Rightarrow> None)
      | _ \<Rightarrow> None)"

fun read_level_list :: "'j json_api \<Rightarrow> string \<Rightarrow> 'j list \<Rightarrow> wire_price_level list \<Rightarrow> decode_error + wire_price_level list" where
  "read_level_list api name [] decoded = Inr decoded"
| "read_level_list api name (level # levels) decoded =
     (case read_level api level of
        None \<Rightarrow> Inl (decode_failure Invalid_Level name)
      | Some wire \<Rightarrow> read_level_list api name levels (decoded @ [wire]))"

definition read_levels :: "'j json_api \<Rightarrow> 'j \<Rightarrow> string \<Rightarrow> bool \<Rightarrow> decode_error + wire_price_level list" where
  "read_levels api message name allow_omitted_empty_sides =
     (case find_field api message name of
        None \<Rightarrow> (if allow_omitted_empty_sides then Inr [] else Inl (decode_failure Missing_Field name))
      | Some levels \<Rightarrow>
          (case js_array api levels of
             None \<Rightarrow> Inl (decode_failure Invalid_Field_Type name)
           | Some elements \<Rightarrow> read_level_list api name elements []))"

text \<open>The two message types, after the fields they share.\<close>

definition decode_snapshot :: "'j json_api \<Rightarrow> 'j \<Rightarrow> connection_generation \<Rightarrow> receive_time \<Rightarrow> bool \<Rightarrow>
    market_id \<Rightarrow> stream_id \<Rightarrow> sequence_number \<Rightarrow> decoded_message" where
  "decode_snapshot api message generation received_at allow_omitted_empty_sides market stream seq =
     (case read_levels api message ''yes_dollars_fp'' allow_omitted_empty_sides of Inl e \<Rightarrow> Decode_Error e
      | Inr yes_bids \<Rightarrow>
          (case read_levels api message ''no_dollars_fp'' allow_omitted_empty_sides of Inl e \<Rightarrow> Decode_Error e
           | Inr no_bids \<Rightarrow>
               Wire_Snapshot \<lparr>ws_market_id = market, ws_generation = generation, ws_stream_id = stream, ws_sequence = seq,
                 ws_received_at = received_at, ws_yes_bids = yes_bids, ws_no_bids = no_bids\<rparr>))"

definition decode_delta :: "'j json_api \<Rightarrow> 'j \<Rightarrow> connection_generation \<Rightarrow> receive_time \<Rightarrow>
    market_id \<Rightarrow> stream_id \<Rightarrow> sequence_number \<Rightarrow> decoded_message" where
  "decode_delta api message generation received_at market stream seq =
     (case read_string api message ''price_dollars'' of Inl e \<Rightarrow> Decode_Error e
      | Inr price \<Rightarrow>
          (case read_string api message ''delta_fp'' of Inl e \<Rightarrow> Decode_Error e
           | Inr quantity_delta \<Rightarrow>
               (case read_string api message ''side'' of Inl e \<Rightarrow> Decode_Error e
                | Inr side_text \<Rightarrow>
                    let delta = (\<lambda>side. Wire_Delta \<lparr>wd_market_id = market, wd_generation = generation, wd_stream_id = stream,
                          wd_sequence = seq, wd_received_at = received_at, wd_outcome_side = side,
                          wd_price_dollars = price, wd_quantity_delta_fp = quantity_delta\<rparr>)
                    in if side_text = ''yes'' then delta Yes_Side
                       else if side_text = ''no'' then delta No_Side
                       else Decode_Error (decode_failure Invalid_Field_Value ''side''))))"

definition decode_orderbook_json :: "'j json_api \<Rightarrow> 'j \<Rightarrow> connection_generation \<Rightarrow> receive_time \<Rightarrow> market_registry \<Rightarrow>
    bool \<Rightarrow> decoded_message" where
  "decode_orderbook_json api root generation received_at markets allow_omitted_empty_sides =
     (if generation = 0 then Decode_Error (decode_failure Invalid_Field_Value ''connection_generation'')
      else if \<not> js_is_object api root then Decode_Error (decode_failure Invalid_Root ''$'')
      else
        case read_string api root ''type'' of Inl e \<Rightarrow> Decode_Error e
        | Inr message_type \<Rightarrow>
        (case read_unsigned api root ''sid'' of Inl e \<Rightarrow> Decode_Error e
        | Inr stream \<Rightarrow>
        (case read_unsigned api root ''seq'' of Inl e \<Rightarrow> Decode_Error e
        | Inr seq \<Rightarrow>
        (case find_field api root ''msg'' of
           None \<Rightarrow> Decode_Error (decode_failure Missing_Field ''msg'')
        | Some message \<Rightarrow>
          if \<not> js_is_object api message then Decode_Error (decode_failure Invalid_Field_Type ''msg'')
          else
        (case read_string api message ''market_ticker'' of Inl e \<Rightarrow> Decode_Error e
        | Inr ticker \<Rightarrow>
          if ticker = [] then Decode_Error (decode_failure Invalid_Field_Value ''market_ticker'')
          else
        (case find_market ticker markets of
           None \<Rightarrow> Decode_Error (decode_failure Unknown_Market ''market_ticker'')
        | Some market \<Rightarrow>
          if message_type = ''orderbook_snapshot''
          then decode_snapshot api message generation received_at allow_omitted_empty_sides market stream seq
          else if message_type = ''orderbook_delta''
          then decode_delta api message generation received_at market stream seq
          else Decode_Error (decode_failure Unsupported_Message_Type ''type'')))))))"



subsection \<open>The processor\<close>












subsection \<open>The registry is a bijection\<close>

definition registry_inv :: "market_registry \<Rightarrow> bool" where
  "registry_inv reg \<longleftrightarrow>
     (\<forall>market ticker. find_market ticker reg = Some market \<longleftrightarrow> find_ticker market reg = Some ticker) \<and>
     (\<forall>market ticker. find_market ticker reg = Some market \<longrightarrow> market \<noteq> 0 \<and> ticker \<noteq> []) \<and>
     distinct (map fst (mr_market_ids reg)) \<and> distinct (map fst (mr_tickers reg)) \<and>
     length (mr_market_ids reg) = length (mr_tickers reg)"

lemma new_registry_inv [inv_intros]: "registry_inv (new_market_registry version)"
  by (simp add: registry_inv_def new_market_registry_def find_market_def find_ticker_def)

lemma map_of_None_iff: "map_of xs k = None \<longleftrightarrow> k \<notin> set (map fst xs)"
  by (simp add: map_of_eq_None_iff)

lemma register_market_inv [inv_intros]:
  assumes "registry_inv reg"
  shows "registry_inv (snd (register_market market ticker reg))"
proof (cases "fst (register_market market ticker reg) = Registered")
  case False
  then have "snd (register_market market ticker reg) = reg"
    by (auto simp: register_market_def split: option.splits if_splits)
  with assms show ?thesis by simp
next
  case True
  then have new: "market \<noteq> 0" "ticker \<noteq> []" "map_of (mr_market_ids reg) ticker = None" "map_of (mr_tickers reg) market = None"
    "snd (register_market market ticker reg) = reg\<lparr>mr_tickers := (market, ticker) # mr_tickers reg,
       mr_market_ids := (ticker, market) # mr_market_ids reg\<rparr>"
    by (auto simp: register_market_def split: option.splits if_splits)
  have bij: "map_of (mr_market_ids reg) t = Some m \<longleftrightarrow> map_of (mr_tickers reg) m = Some t" for m t
    using assms by (simp add: registry_inv_def find_market_def find_ticker_def)
  have "map_of (mr_tickers reg) m \<noteq> Some ticker" "map_of (mr_market_ids reg) t \<noteq> Some market" for m t
    using new(3,4) bij [of ticker m] bij [of t market] by auto
  with assms new show ?thesis
    by (auto simp: registry_inv_def find_market_def find_ticker_def map_of_None_iff)
qed

definition register_all :: "u64 \<Rightarrow> (market_id \<times> string) list \<Rightarrow> market_registry" where
  "register_all version = foldl (\<lambda>reg (market, ticker). snd (register_market market ticker reg)) (new_market_registry version)"

lemma register_all_inv: "registry_inv (register_all version entries)"
proof -
  have "registry_inv (foldl (\<lambda>reg (market, ticker). snd (register_market market ticker reg)) reg entries)" if "registry_inv reg" for reg
    using that by (induction entries arbitrary: reg) (auto intro: inv_intros)
  then show ?thesis by (simp add: register_all_def new_registry_inv)
qed

text \<open>
  Claim C40. After any sequence of registrations the two maps are inverse to each other, name no zero
  market and no empty ticker, and have one entry per market; a further registration succeeds exactly
  when version, market and ticker are allowed and neither is taken, and otherwise changes nothing.
\<close>

theorem market_registry_bijection:
  "let reg = register_all version entries;
       (result, reg') = register_market market ticker reg
   in (find_market t reg = Some m \<longleftrightarrow> find_ticker m reg = Some t) \<and>
      market_registry_size reg = card (dom (\<lambda>m. find_ticker m reg)) \<and>
      (result = Registered \<longleftrightarrow> mr_metadata_version reg \<noteq> 0 \<and> market \<noteq> 0 \<and> ticker \<noteq> [] \<and>
         find_market ticker reg = None \<and> find_ticker market reg = None) \<and>
      (if result = Registered then find_market ticker reg' = Some market \<and> find_ticker market reg' = Some ticker
       else reg' = reg)"
proof -
  let ?reg = "register_all version entries"
  have inv: "registry_inv ?reg" by (rule register_all_inv)
  then have "length (mr_tickers ?reg) = card (dom (map_of (mr_tickers ?reg)))"
    using distinct_card [of "map fst (mr_tickers ?reg)"] by (simp add: registry_inv_def dom_map_of_conv_image_fst)
  with inv have "market_registry_size ?reg = card (dom (\<lambda>m. find_ticker m ?reg))"
    by (simp add: registry_inv_def market_registry_size_def find_ticker_def)
  moreover have "find_market t ?reg = Some m \<longleftrightarrow> find_ticker m ?reg = Some t" using inv by (simp add: registry_inv_def)
  ultimately show ?thesis
    by (auto simp: Let_def register_market_def find_market_def find_ticker_def split: option.splits if_splits)
qed


subsection \<open>The normalizer against its reference\<close>

definition wire_error :: "wire_price_level \<Rightarrow> normalization_error option" where
  "wire_error wire =
     (if price_parse (wl_price_dollars wire) = None then Some Invalid_Price
      else case quantity_parse (wl_quantity_fp wire) of
        None \<Rightarrow> Some Invalid_Quantity
      | Some q \<Rightarrow> if quantity_raw q = 0 then Some Zero_Quantity else None)"

definition wire_value :: "wire_price_level \<Rightarrow> level" where
  "wire_value wire =
     \<lparr>lv_price = the (price_parse (wl_price_dollars wire)), lv_quantity = the (quantity_parse (wl_quantity_fp wire))\<rparr>"

lemma append_levels_eq:
  "append_levels source destination =
     (case List.find (\<lambda>wire. wire_error wire \<noteq> None) source of
        Some wire \<Rightarrow> Inl (the (wire_error wire))
      | None \<Rightarrow> Inr (destination @ map wire_value source))"
  by (induction source arbitrary: destination)
    (auto simp: wire_error_def wire_value_def normalize_price_def split: option.splits if_splits)

lemma find_append: "List.find P (xs @ ys) = (case List.find P xs of Some x \<Rightarrow> Some x | None \<Rightarrow> List.find P ys)"
  by (induction xs) simp_all

text \<open>
  A snapshot normalizes exactly when every level of it, yes bids and no bids, is a price and
  a positive quantity in the fixed-point syntax; then yes bids are the bids and no bids the asks, level
  by level, and otherwise the error is that of the first offending level in this order.
\<close>

theorem snapshot_normalization_exact:
  "normalize_orderbook_snapshot wire =
     (case List.find (\<lambda>level. wire_error level \<noteq> None) (ws_yes_bids wire @ ws_no_bids wire) of
        Some level \<Rightarrow> Inl (the (wire_error level))
      | None \<Rightarrow> Inr \<lparr>bs_market_id = ws_market_id wire, bs_generation = ws_generation wire,
          bs_stream_id = ws_stream_id wire, bs_sequence = ws_sequence wire, bs_received_at = ws_received_at wire,
          bs_bids = map wire_value (ws_yes_bids wire), bs_asks = map wire_value (ws_no_bids wire)\<rparr>)"
  by (auto simp: normalize_orderbook_snapshot_def append_levels_eq find_append split: option.splits)


subsection \<open>Rejected inputs change no book\<close>



definition decoded_header :: "decoded_message \<Rightarrow> (market_id \<times> connection_generation \<times> receive_time) option" where
  "decoded_header decoded =
     (case decoded of
        Wire_Snapshot w \<Rightarrow> Some (ws_market_id w, ws_generation w, ws_received_at w)
      | Wire_Delta w \<Rightarrow> Some (wd_market_id w, wd_generation w, wd_received_at w)
      | Decode_Error _ \<Rightarrow> None)"




subsection \<open>The processor refines the market\<close>






subsection \<open>Messages come back\<close>

text \<open>
  What the library documents: the object, array, string and unsigned constructors are seen by the
  accessors as what they were built from.
\<close>

record 'j json_build =
  jb_object :: "(string \<times> 'j) list \<Rightarrow> 'j"
  jb_array :: "'j list \<Rightarrow> 'j"
  jb_string :: "string \<Rightarrow> 'j"
  jb_unsigned :: "u64 \<Rightarrow> 'j"

definition json_laws :: "'j json_api \<Rightarrow> 'j json_build \<Rightarrow> bool" where
  "json_laws api build \<longleftrightarrow>
     (\<forall>members. js_is_object api (jb_object build members)) \<and>
     (\<forall>members name. js_find api (jb_object build members) name = map_of members name) \<and>
     (\<forall>elements. js_array api (jb_array build elements) = Some elements) \<and>
     (\<forall>s. js_string api (jb_string build s) = Some s) \<and>
     (\<forall>n. js_unsigned api (jb_unsigned build n) = Some n)"

definition level_json :: "'j json_build \<Rightarrow> wire_price_level \<Rightarrow> 'j" where
  "level_json build wire = jb_array build [jb_string build (wl_price_dollars wire), jb_string build (wl_quantity_fp wire)]"

definition message_json :: "'j json_build \<Rightarrow> string \<Rightarrow> u64 \<Rightarrow> u64 \<Rightarrow> (string \<times> 'j) list \<Rightarrow> 'j" where
  "message_json build kind stream seq members =
     jb_object build [(''type'', jb_string build kind), (''sid'', jb_unsigned build stream),
       (''seq'', jb_unsigned build seq), (''msg'', jb_object build members)]"

definition wire_json :: "'j json_build \<Rightarrow> string \<Rightarrow> decoded_message \<Rightarrow> 'j" where
  "wire_json build ticker message =
     (case message of
        Wire_Snapshot w \<Rightarrow> message_json build ''orderbook_snapshot'' (ws_stream_id w) (ws_sequence w)
          [(''market_ticker'', jb_string build ticker),
           (''yes_dollars_fp'', jb_array build (map (level_json build) (ws_yes_bids w))),
           (''no_dollars_fp'', jb_array build (map (level_json build) (ws_no_bids w)))]
      | Wire_Delta w \<Rightarrow> message_json build ''orderbook_delta'' (wd_stream_id w) (wd_sequence w)
          [(''market_ticker'', jb_string build ticker), (''price_dollars'', jb_string build (wd_price_dollars w)),
           (''delta_fp'', jb_string build (wd_quantity_delta_fp w)),
           (''side'', jb_string build (if wd_outcome_side w = Yes_Side then ''yes'' else ''no''))]
      | Decode_Error _ \<Rightarrow> jb_object build [])"

lemma read_level_list_json:
  "json_laws api build \<Longrightarrow> read_level_list api name (map (level_json build) levels) decoded = Inr (decoded @ levels)"
  by (induction levels arbitrary: decoded) (simp_all add: json_laws_def level_json_def read_level_def)

text \<open>
  A message written as the venue writes it decodes to itself: for every registered market,
  snapshot or delta, with both sides present, in either mode of the decoder.
\<close>

theorem decode_roundtrip:
  assumes "json_laws api build" and "decoded_header message = Some (market, generation, time)"
    and "find_market ticker markets = Some market" and "ticker \<noteq> []" and "generation \<noteq> 0"
  shows "decode_orderbook_json api (wire_json build ticker message) generation time markets allow = message"
proof (cases message)
  case (Wire_Snapshot w)
  then show ?thesis
    using assms read_level_list_json [OF assms(1), of _ _ "[]"]
    by (simp add: decoded_header_def wire_json_def message_json_def json_laws_def decode_orderbook_json_def read_string_def
        read_unsigned_def find_field_def decode_snapshot_def read_levels_def)
next
  case (Wire_Delta w)
  then show ?thesis
    using assms
    by (cases "wd_outcome_side w")
      (simp_all add: decoded_header_def wire_json_def message_json_def json_laws_def decode_orderbook_json_def read_string_def
        read_unsigned_def find_field_def decode_delta_def Let_def)
qed (use assms(2) in \<open>simp add: decoded_header_def\<close>)

text \<open>JSON values for the witnesses.\<close>

datatype json_value = J_Object "(string \<times> json_value) list" | J_Array "json_value list" | J_String string | J_Unsigned u64

definition example_api :: "json_value json_api" where
  "example_api = \<lparr>js_parse = (\<lambda>text. None), js_is_object = (\<lambda>j. case j of J_Object _ \<Rightarrow> True | _ \<Rightarrow> False),
     js_find = (\<lambda>j name. case j of J_Object members \<Rightarrow> map_of members name | _ \<Rightarrow> None),
     js_unsigned = (\<lambda>j. case j of J_Unsigned n \<Rightarrow> Some n | _ \<Rightarrow> None),
     js_string = (\<lambda>j. case j of J_String s \<Rightarrow> Some s | _ \<Rightarrow> None),
     js_array = (\<lambda>j. case j of J_Array elements \<Rightarrow> Some elements | _ \<Rightarrow> None)\<rparr>"

definition example_build :: "json_value json_build" where
  "example_build = \<lparr>jb_object = J_Object, jb_array = J_Array, jb_string = J_String, jb_unsigned = J_Unsigned\<rparr>"

lemma example_json_laws: "json_laws example_api example_build"
  by (simp add: json_laws_def example_api_def example_build_def)

definition example_wire :: wire_delta where
  "example_wire = \<lparr>wd_market_id = 7, wd_generation = 1, wd_stream_id = 2, wd_sequence = 3, wd_received_at = 4,
     wd_outcome_side = No_Side, wd_price_dollars = ''0.55'', wd_quantity_delta_fp = ''-2.00''\<rparr>"

lemma decode_roundtrip_witness:
  "decode_orderbook_json example_api (wire_json example_build ''KX'' (Wire_Delta example_wire)) 1 4
     (register_all 1 [(7, ''KX'')]) False = Wire_Delta example_wire"
proof (rule decode_roundtrip [OF example_json_laws])
  show "decoded_header (Wire_Delta example_wire) = Some (7, 1, 4)" by (simp add: decoded_header_def example_wire_def)
  show "find_market ''KX'' (register_all 1 [(7, ''KX'')]) = Some 7"
    by (simp add: find_market_def register_all_def register_market_def new_market_registry_def)
qed simp_all


end
