(* ===== verification/Replay_Types.thy ===== *)
theory Replay_Types
  imports Market_State
begin

text \<open>
  What the observers of a replay share: the frame they are called with (\<open>ReplayFrame\<close> of
  \<open>include/eme/session/replay.hpp\<close>), and exceptions. An exception (\<open>detail::invalid\<close>, \<open>at\<close>) is \<open>Inl\<close> of
  its text; it ends the replay, so the state it leaves behind is of no interest.
\<close>

subsection \<open>Frames\<close>

record public_trade =
  pt_market_id :: market_id
  pt_trade_id :: string
  pt_yes_price :: int
  pt_quantity :: int
  pt_exchange_time_ms :: u64
  pt_taker_yes :: bool
  pt_block_trade :: "bool option"

record replay_frame =
  fr_time :: int
  fr_market_id :: "market_id option"
  fr_applied :: bool
  fr_trade :: "public_trade option"
  fr_observed_wall :: "int option"


subsection \<open>Exceptions\<close>

definition and_then :: "'e + 'a \<Rightarrow> ('a \<Rightarrow> 'e + 'b) \<Rightarrow> 'e + 'b" where
  "and_then r f = (case r of Inl e \<Rightarrow> Inl e | Inr x \<Rightarrow> f x)"

lemma and_then_simps [simp]:
  "and_then (Inl e) f = Inl e" "and_then (Inr x) f = f x"
  by (simp_all add: and_then_def)

lemma and_then_Inr: "and_then r f = Inr y \<longleftrightarrow> (\<exists>x. r = Inr x \<and> f x = Inr y)"
  by (cases r) simp_all

text \<open>A loop over the elements of a list.\<close>

fun and_fold :: "('x \<Rightarrow> 's \<Rightarrow> 'e + 's) \<Rightarrow> 'x list \<Rightarrow> 's \<Rightarrow> 'e + 's" where
  "and_fold f [] s = Inr s"
| "and_fold f (x # xs) s = and_then (f x s) (and_fold f xs)"

text \<open>The result of a computation, with its exceptions within a set and its values in another.\<close>

definition yields :: "('e \<Rightarrow> bool) \<Rightarrow> ('a \<Rightarrow> bool) \<Rightarrow> 'e + 'a \<Rightarrow> bool" where
  "yields E P r = (case r of Inl e \<Rightarrow> E e | Inr x \<Rightarrow> P x)"

lemma yields_simps [simp]: "yields E P (Inr x) = P x" "yields E P (Inl e) = E e"
  by (simp_all add: yields_def)

lemma yields_and_then: "yields E Q r \<Longrightarrow> (\<And>x. Q x \<Longrightarrow> yields E P (f x)) \<Longrightarrow> yields E P (and_then r f)"
  by (cases r) simp_all

lemma yields_mono: "yields E Q r \<Longrightarrow> (\<And>x. Q x \<Longrightarrow> P x) \<Longrightarrow> yields E P r"
  by (cases r) simp_all

lemma yields_errors: "yields E P r \<Longrightarrow> (\<And>e. E e \<Longrightarrow> F e) \<Longrightarrow> yields F P r"
  by (cases r) simp_all

lemma yields_fold:
  assumes "\<And>x s. x \<in> set xs \<Longrightarrow> P s \<Longrightarrow> yields E P (f x s)"
  shows "P s \<Longrightarrow> yields E P (and_fold f xs s)"
  using assms by (induction xs arbitrary: s) (auto intro!: yields_and_then)

end
