(* ===== verification/Basket_Observation.thy ===== *)
theory Basket_Observation
  imports Basket_Sizing Kalshi_Gateway Replay_Types
begin

text \<open>
  The observation of three-leg baskets of \<open>include/eme/session/basket_observation.hpp\<close> and
  \<open>src/session/basket_observation.cpp\<close>: the binding of the parsed policy to markets and baskets, the depth
  caches, the status of every basket with its durations, and the episodes in which a basket
  shows a positive quote. The policy's JSON is read by a library; the model starts from its
  fields. An array of two sides, or of one cell per status, is a function; side 0 is the
  purchase of yes, side 1 of no. The output stream is a list of rows.
\<close>

subsection \<open>Data\<close>

datatype basket_status =
  Book_Unavailable | Book_Crossed | Policy_Expired | Depth_Missing | Cash_Missing | Margin_Missing | Quote_Positive

record cached_market =
  cm_id :: market_id
  cm_fee :: fee_policy
  cm_needed :: "nat \<Rightarrow> bool"
  cm_depth :: "nat \<Rightarrow> buy_level list"
  cm_available :: "nat \<Rightarrow> int"
  cm_dependencies :: "nat list"
  cm_last_update :: int
  cm_valid :: bool
  cm_crossed :: bool

record basket_witness =
  wi_quote :: sized_basket
  wi_time :: int
  wi_maximum_book_age :: int
  wi_book_update_skew :: int
  wi_available :: "int list"

record observed_basket =
  bk_id :: u32
  bk_key :: string
  bk_markets :: "nat list"
  bk_status :: basket_status
  bk_counts :: "basket_status \<Rightarrow> u64"
  bk_durations :: "basket_status \<Rightarrow> u64"
  bk_status_since :: int
  bk_opened_at :: int
  bk_episode_min_margin :: int
  bk_evaluations :: u64
  bk_quantities :: u64
  bk_episodes :: u64
  bk_closed_episodes :: u64
  bk_left_censored :: u64
  bk_right_censored :: u64
  bk_episode_evaluations :: u64
  bk_eligible_before :: bool
  bk_active :: bool
  bk_opening_left_censored :: bool
  bk_best_one :: "basket_witness option"
  bk_episode_peak :: "basket_witness option"

record basket_episode =
  ep_basket_id :: u32
  ep_episode :: u64
  ep_time :: int
  ep_quote :: sized_basket
  ep_left_censored :: bool

datatype basket_row_out =
  Basket_Start bool
| Episode_Open u32 string u64 int bool basket_witness
| Episode_Close u32 u64 int int int "basket_status option" bool bool u64 int "basket_witness option"
| Basket_Status int u64 u64 u64 u64 u64 bool

text \<open>What the policy fixes, and whether the stream is good after a number of rows.\<close>

record observation_config =
  oc_valid_from :: int
  oc_valid_until :: int
  oc_maximum_events :: u64
  oc_total_budget :: u64
  oc_limits :: sizing_limits
  oc_indexes :: "market_id \<rightharpoonup> nat"
  oc_writes :: "nat \<Rightarrow> bool"

record observation =
  os_records :: u64
  os_book_updates :: u64
  os_trades :: u64
  os_evaluations :: u64
  os_quantities :: u64
  os_events :: u64
  os_active :: u64
  os_maximum_active :: u64
  os_positive_union :: u64
  os_union_since :: int
  os_markets :: "cached_market list"
  os_baskets :: "observed_basket list"
  os_first_time :: "int option"
  os_last_time :: "int option"
  os_deadline :: "int option"
  os_generation :: "connection_generation option"
  os_expired :: bool
  os_finished :: bool
  os_output :: "basket_row_out list"
  os_signals :: "basket_episode list"

definition new_basket :: "u32 \<Rightarrow> string \<Rightarrow> nat list \<Rightarrow> observed_basket" where
  "new_basket i key markets =
     \<lparr>bk_id = i, bk_key = key, bk_markets = markets, bk_status = Book_Unavailable, bk_counts = (\<lambda>_. 0), bk_durations = (\<lambda>_. 0),
      bk_status_since = 0, bk_opened_at = 0, bk_episode_min_margin = 0, bk_evaluations = 0, bk_quantities = 0, bk_episodes = 0,
      bk_closed_episodes = 0, bk_left_censored = 0, bk_right_censored = 0, bk_episode_evaluations = 0, bk_eligible_before = False,
      bk_active = False, bk_opening_left_censored = False, bk_best_one = None, bk_episode_peak = None\<rparr>"

definition new_cached_market :: "market_id \<Rightarrow> cached_market" where
  "new_cached_market market =
     \<lparr>cm_id = market, cm_fee = \<lparr>coefficient_ppm = 0, balance_quantum_micro = 0\<rparr>, cm_needed = (\<lambda>_. False), cm_depth = (\<lambda>_. []),
      cm_available = (\<lambda>_. 0), cm_dependencies = [], cm_last_update = 0, cm_valid = False, cm_crossed = False\<rparr>"


subsection \<open>The screen of the policy\<close>

record basket_row =
  rw_id :: u64
  rw_key :: string
  rw_lower_market :: u64
  rw_upper_market :: u64
  rw_range_market :: u64
  rw_lower_threshold :: u64
  rw_upper_threshold :: u64
  rw_interval_lower :: u64
  rw_interval_upper :: u64

record fee_row =
  fw_market_id :: u64
  fw_coefficient_ppm :: u64
  fw_balance_quantum_micro :: u64

definition positive_id :: "string \<Rightarrow> u64 \<Rightarrow> string + u32" where
  "positive_id name i = (if 4294967295 < i \<or> i = 0 then Inl name else Inr (ucast i))"

text \<open>The markets of the screen, each bound to the ticker the metadata has for it.\<close>

fun bind_markets :: "market_registry \<Rightarrow> (u64 \<times> string) list \<Rightarrow> (market_id \<rightharpoonup> nat) \<times> cached_market list \<Rightarrow>
    string + (market_id \<rightharpoonup> nat) \<times> cached_market list" where
  "bind_markets metadata [] tables = Inr tables"
| "bind_markets metadata ((i, row_ticker) # rows) (indexes, markets) =
     and_then (positive_id ''id'' i) (\<lambda>market.
       if find_ticker market metadata \<noteq> Some row_ticker \<or> indexes market \<noteq> None then Inl ''basket market binding''
       else bind_markets metadata rows (indexes(market \<mapsto> length markets), markets @ [new_cached_market market]))"

fun bind_fees :: "(market_id \<rightharpoonup> nat) \<Rightarrow> fee_row list \<Rightarrow> market_id list \<Rightarrow> cached_market list \<Rightarrow> string + cached_market list" where
  "bind_fees indexes [] fee_ids markets = Inr markets"
| "bind_fees indexes (row # rows) fee_ids markets =
     and_then (positive_id ''market_id'' (fw_market_id row)) (\<lambda>market.
       case indexes market of
         None \<Rightarrow> Inl ''basket fee market''
       | Some k \<Rightarrow>
           if market \<in> set fee_ids then Inl ''basket fee market''
           else if 1000000 < fw_coefficient_ppm row then Inl ''coefficient_ppm''
           else if 10000 < fw_balance_quantum_micro row then Inl ''balance_quantum_micro''
           else
             let fee = \<lparr>coefficient_ppm = ucast (fw_coefficient_ppm row), balance_quantum_micro = ucast (fw_balance_quantum_micro row)\<rparr>
             in if balance_quantum_micro fee \<noteq> 100 \<and> balance_quantum_micro fee \<noteq> 10000 then Inl ''basket balance precision''
                else bind_fees indexes rows (market # fee_ids) (markets[k := (markets ! k)\<lparr>cm_fee := fee\<rparr>]))"

text \<open>
  The rows of baskets: two thresholds with an interval between them, and every market with one
  meaning. The key of a triple of markets is the triple.
\<close>

record screen_tables =
  st_ids :: "u32 list"
  st_keys :: "string list"
  st_triples :: "u32 list list"
  st_semantics :: "market_id \<rightharpoonup> u64 \<times> u64 \<times> u64"
  st_baskets :: "observed_basket list"

fun bind_legs :: "(market_id \<rightharpoonup> nat) \<Rightarrow> (market_id \<times> u64 \<times> u64 \<times> u64) list \<Rightarrow> nat list \<Rightarrow> screen_tables \<Rightarrow>
    string + nat list \<times> screen_tables" where
  "bind_legs indexes [] legs tables = Inr (legs, tables)"
| "bind_legs indexes ((market, meaning) # rest) legs tables =
     (case indexes market of
        None \<Rightarrow> Inl ''basket leg market''
      | Some k \<Rightarrow>
          (case st_semantics tables market of
             Some known \<Rightarrow> if known \<noteq> meaning then Inl ''inconsistent basket market semantics''
                           else bind_legs indexes rest (legs @ [k]) tables
           | None \<Rightarrow> bind_legs indexes rest (legs @ [k]) (tables\<lparr>st_semantics := (st_semantics tables)(market \<mapsto> meaning)\<rparr>)))"

definition geometry_ok :: "basket_row \<Rightarrow> bool" where
  "geometry_ok row \<longleftrightarrow> rw_lower_threshold row < rw_interval_lower row \<and> rw_interval_lower row \<le> rw_interval_upper row \<and>
     rw_interval_upper row \<le> rw_upper_threshold row"

definition bind_basket :: "(market_id \<rightharpoonup> nat) \<Rightarrow> basket_row \<Rightarrow> screen_tables \<Rightarrow> string + screen_tables" where
  "bind_basket indexes row tables =
     and_then (positive_id ''id'' (rw_id row)) (\<lambda>i.
     and_then (positive_id ''lower_market_id'' (rw_lower_market row)) (\<lambda>m0.
     and_then (positive_id ''upper_market_id'' (rw_upper_market row)) (\<lambda>m1.
     and_then (positive_id ''range_market_id'' (rw_range_market row)) (\<lambda>m2.
       if \<not> geometry_ok row \<or> m0 = m1 \<or> m0 = m2 \<or> m1 = m2 then Inl ''basket conditional payoff geometry''
       else if i \<in> set (st_ids tables) \<or> rw_key row \<in> set (st_keys tables) \<or> [m0, m1, m2] \<in> set (st_triples tables)
       then Inl ''duplicate observed basket''
       else
         let a = rw_lower_threshold row; b = rw_upper_threshold row;
             meanings = [(m0, 0, a, a), (m1, 0, b, b), (m2, 1, rw_interval_lower row, rw_interval_upper row)];
             tables = tables\<lparr>st_ids := i # st_ids tables, st_keys := rw_key row # st_keys tables,
                             st_triples := [m0, m1, m2] # st_triples tables\<rparr>
         in and_then (bind_legs indexes meanings [] tables) (\<lambda>(legs, tables).
              Inr (tables\<lparr>st_baskets := st_baskets tables @ [new_basket i (rw_key row) legs]\<rparr>))))))"

text \<open>The legs of the sorted baskets mark the sides their markets need.\<close>

definition link_leg :: "nat \<Rightarrow> nat \<times> nat \<Rightarrow> cached_market list \<Rightarrow> cached_market list" where
  "link_leg i = (\<lambda>(leg, k) markets.
     let m = markets ! k
     in markets[k := m\<lparr>cm_needed := (cm_needed m)((if leg = 0 then 0 else 1) := True),
                       cm_dependencies := cm_dependencies m @ [i]\<rparr>])"

definition link_baskets :: "observed_basket list \<Rightarrow> cached_market list \<Rightarrow> cached_market list" where
  "link_baskets baskets markets =
     fold (\<lambda>(i, b). fold (link_leg i) (enumerate 0 (bk_markets b))) (enumerate 0 baskets) markets"

definition bind_screen :: "market_registry \<Rightarrow> (u64 \<times> string) list \<Rightarrow> fee_row list \<Rightarrow> basket_row list \<Rightarrow>
    string + (market_id \<rightharpoonup> nat) \<times> observation" where
  "bind_screen metadata market_rows fee_rows basket_rows =
     (if market_rows = [] \<or> 64 < length market_rows \<or> length market_rows \<noteq> market_registry_size metadata
      then Inl ''basket capture markets''
      else and_then (bind_markets metadata market_rows (Map.empty, [])) (\<lambda>(indexes, markets).
        if length fee_rows \<noteq> length markets then Inl ''basket fee coverage''
        else and_then (bind_fees indexes fee_rows [] markets) (\<lambda>markets.
          if basket_rows = [] \<or> 100 < length basket_rows then Inl ''basket observation count''
          else and_then (and_fold (bind_basket indexes) basket_rows
                 \<lparr>st_ids = [], st_keys = [], st_triples = [], st_semantics = Map.empty, st_baskets = []\<rparr>) (\<lambda>tables.
            let baskets = sort_key bk_id (st_baskets tables);
                markets = link_baskets baskets markets
            in if \<exists>m \<in> set markets. cm_dependencies m = [] then Inl ''unused basket capture market''
               else Inr (indexes,
                 \<lparr>os_records = 0, os_book_updates = 0, os_trades = 0, os_evaluations = 0, os_quantities = 0, os_events = 0,
                  os_active = 0, os_maximum_active = 0, os_positive_union = 0, os_union_since = 0, os_markets = markets,
                  os_baskets = baskets, os_first_time = None, os_last_time = None, os_deadline = None, os_generation = None,
                  os_expired = False, os_finished = False, os_output = [], os_signals = []\<rparr>)))))"

record sizing_row =
  sw_cap :: u64
  sw_step :: u64
  sw_available_cash :: u64
  sw_minimum_margin :: u64
  sw_max_evaluations :: u64

definition bind_sizing :: "u64 \<Rightarrow> sizing_row \<Rightarrow> string + sizing_limits" where
  "bind_sizing total_budget row =
     (if 10000000 < total_budget then Inl ''max_total_evaluations''
      else if 10000 < sw_cap row then Inl ''cap_centicontracts''
      else if sw_cap row < 100 \<or> sw_cap row mod 100 \<noteq> 0 \<or> sw_step row \<noteq> 100 then Inl ''basket quantity grid''
      else if 1000000000000000 < sw_available_cash row then Inl ''available_cash_micro''
      else if 1000000000000000 < sw_minimum_margin row then Inl ''minimum_margin_micro''
      else if 10000000 < sw_max_evaluations row then Inl ''max_evaluations''
      else if total_budget = 0 \<or> sw_max_evaluations row = 0 then Inl ''basket evaluation budget''
      else Inr \<lparr>sl_cap = quantity_value (uint (sw_cap row)), sl_step = quantity_value 100,
                sl_available = cash_at (uint (sw_available_cash row)), sl_minimum_margin = cash_at (uint (sw_minimum_margin row)),
                sl_max_evaluations = sw_max_evaluations row\<rparr>)"

definition maximum_wall_ms :: u64 where "maximum_wall_ms = 9223372036854775807 div 1000000"

text \<open>The window and the event budget: nanoseconds from milliseconds.\<close>

definition bind_window :: "u64 \<Rightarrow> u64 \<Rightarrow> u64 \<Rightarrow> string + int \<times> int" where
  "bind_window from_ms until_ms maximum_events =
     (if maximum_wall_ms < from_ms then Inl ''valid_from_unix_ms''
      else if maximum_wall_ms < until_ms then Inl ''valid_until_unix_ms''
      else if 1000000 < maximum_events then Inl ''max_episode_events''
      else
        let valid_from = uint from_ms * 1000000; valid_until = uint until_ms * 1000000
        in if valid_until \<le> valid_from \<or> maximum_events = 0 then Inl ''basket observation window/budget''
           else Inr (valid_from, valid_until))"

definition make_observation :: "u64 \<Rightarrow> u64 \<Rightarrow> u64 \<Rightarrow> u64 \<Rightarrow> sizing_row \<Rightarrow> market_registry \<Rightarrow> (u64 \<times> string) list \<Rightarrow>
    fee_row list \<Rightarrow> basket_row list \<Rightarrow> (nat \<Rightarrow> bool) \<Rightarrow> string + observation_config \<times> observation" where
  "make_observation from_ms until_ms maximum_events total_budget sizing metadata market_rows fee_rows basket_rows writes =
     and_then (bind_window from_ms until_ms maximum_events) (\<lambda>(valid_from, valid_until).
     and_then (bind_sizing total_budget sizing) (\<lambda>limits.
     and_then (bind_screen metadata market_rows fee_rows basket_rows) (\<lambda>(indexes, os).
       Inr (\<lparr>oc_valid_from = valid_from, oc_valid_until = valid_until, oc_maximum_events = maximum_events,
             oc_total_budget = total_budget, oc_limits = limits, oc_indexes = indexes, oc_writes = writes\<rparr>, os))))"


subsection \<open>Time and status\<close>

definition put_basket :: "nat \<Rightarrow> observed_basket \<Rightarrow> observation \<Rightarrow> observation" where
  "put_basket i b os = os\<lparr>os_baskets := (os_baskets os)[i := b]\<rparr>"

definition account_time :: "nat \<Rightarrow> int \<Rightarrow> observation \<Rightarrow> string + observation" where
  "account_time i time os =
     (if os_first_time os = None then Inr os
      else
        let b = os_baskets os ! i
        in if time < bk_status_since b then Inl ''basket interval clock regression''
           else Inr (put_basket i (b\<lparr>
             bk_durations := (bk_durations b)(bk_status b := bk_durations b (bk_status b) + of_int (time - bk_status_since b)),
             bk_status_since := time\<rparr>) os))"

definition set_status :: "nat \<Rightarrow> basket_status \<Rightarrow> int \<Rightarrow> observation \<Rightarrow> string + observation" where
  "set_status i status time os =
     and_then (account_time i time os) (\<lambda>os.
       let b = os_baskets os ! i
       in Inr (put_basket i (b\<lparr>bk_status := status, bk_counts := (bk_counts b)(status := bk_counts b status + 1)\<rparr>) os))"

definition account_union :: "int \<Rightarrow> observation \<Rightarrow> string + observation" where
  "account_union time os =
     (if os_first_time os = None then Inr os
      else if time < os_union_since os then Inl ''basket union clock regression''
      else Inr (os\<lparr>os_positive_union := (if os_active os \<noteq> 0 then os_positive_union os + of_int (time - os_union_since os)
                                        else os_positive_union os),
                  os_union_since := time\<rparr>))"

definition observation_emit :: "observation_config \<Rightarrow> basket_row_out \<Rightarrow> observation \<Rightarrow> string + observation" where
  "observation_emit cfg row os =
     (let os = os\<lparr>os_output := os_output os @ [row]\<rparr>
      in if oc_writes cfg (length (os_output os)) then Inr os else Inl ''basket observation output failed'')"

definition episode_event :: "observation_config \<Rightarrow> basket_row_out \<Rightarrow> observation \<Rightarrow> string + observation" where
  "episode_event cfg row os =
     (if os_events os = oc_maximum_events cfg then Inl ''basket episode event budget exceeded''
      else observation_emit cfg row (os\<lparr>os_events := os_events os + 1\<rparr>))"

text \<open>The reason of a close is the name of a status, or the end of the observation (\<open>None\<close>).\<close>

definition close_basket :: "observation_config \<Rightarrow> nat \<Rightarrow> int \<Rightarrow> basket_status option \<Rightarrow> bool \<Rightarrow> observation \<Rightarrow>
    string + observation" where
  "close_basket cfg i time reason censored os =
     (let b = os_baskets os ! i
      in if \<not> bk_active b then Inr os
         else
           and_then (episode_event cfg (Episode_Close (bk_id b) (bk_episodes b) time (bk_opened_at b) (time - bk_opened_at b) reason
                       censored (bk_opening_left_censored b) (bk_episode_evaluations b) (bk_episode_min_margin b)
                       (bk_episode_peak b)) os) (\<lambda>os.
           and_then (account_union time os) (\<lambda>os.
             let os = os\<lparr>os_active := os_active os - 1\<rparr>
             in Inr (put_basket i (b\<lparr>bk_active := False, bk_closed_episodes := bk_closed_episodes b + 1,
                       bk_right_censored := (if censored then bk_right_censored b + 1 else bk_right_censored b)\<rparr>) os))))"

definition unavailable :: "observation_config \<Rightarrow> int \<Rightarrow> basket_status \<Rightarrow> nat \<Rightarrow> observation \<Rightarrow> string + observation" where
  "unavailable cfg time reason i os =
     and_then (close_basket cfg i time (Some reason) True os) (\<lambda>os.
     and_then (set_status i reason time os) (\<lambda>os.
       Inr (put_basket i ((os_baskets os ! i)\<lparr>bk_eligible_before := False\<rparr>) os)))"

definition expire :: "observation_config \<Rightarrow> int \<Rightarrow> observation \<Rightarrow> string + observation" where
  "expire cfg time os =
     and_fold (unavailable cfg time Policy_Expired) [0 ..< length (os_baskets os)]
       (os\<lparr>os_expired := True, os_deadline := None\<rparr>)"


subsection \<open>Depth caches\<close>

definition crossed_book :: "order_book \<Rightarrow> bool" where
  "crossed_book book \<longleftrightarrow>
     (case (best_bid book, best_ask book) of
        (Some bid, Some ask) \<Rightarrow> price_raw ask < price_raw bid
      | _ \<Rightarrow> False)"

text \<open>The visitor of one side: levels up to the cap, in the price of the outcome bought.\<close>

definition take_level :: "int \<Rightarrow> nat \<Rightarrow> level \<Rightarrow> buy_level list \<times> int \<Rightarrow> bool \<times> buy_level list \<times> int" where
  "take_level cap side l = (\<lambda>(taken, available).
     let q = min (quantity_raw (lv_quantity l)) (cap - available);
         (taken, available) =
           (if 0 < q
            then (taken @ [\<lparr>bl_price = the (price_from_raw (if side = 0 then price_raw (lv_price l) else 10000 - price_raw (lv_price l))),
                            bl_quantity = quantity_value q\<rparr>], available + q)
            else (taken, available))
     in (available < cap, taken, available))"

definition refill_side :: "int \<Rightarrow> order_book option \<Rightarrow> nat \<Rightarrow> cached_market \<Rightarrow> cached_market" where
  "refill_side cap book side m =
     (if \<not> cm_needed m side then m
      else
        let (taken, available) =
          (case book of
             Some bk \<Rightarrow> if cm_valid m \<and> \<not> cm_crossed m
               then visit_levels (if side = 0 then Ask else Bid) (take_level cap side) bk ([], 0) else ([], 0)
           | None \<Rightarrow> ([], 0))
        in m\<lparr>cm_depth := (cm_depth m)(side := taken), cm_available := (cm_available m)(side := available)\<rparr>)"

definition update_cache :: "observation_config \<Rightarrow> int \<Rightarrow> market_state \<Rightarrow> cached_market \<Rightarrow> cached_market" where
  "update_cache cfg time state m =
     (let book = find_book (cm_id m) state;
          valid = (case book of Some bk \<Rightarrow> ob_state bk = Valid | None \<Rightarrow> False);
          m = m\<lparr>cm_valid := valid, cm_crossed := (valid \<and> (case book of Some bk \<Rightarrow> crossed_book bk | None \<Rightarrow> False)),
                cm_last_update := time\<rparr>;
          cap = quantity_raw (sl_cap (oc_limits cfg))
      in refill_side cap book 1 (refill_side cap book 0 m))"

definition make_witness :: "sized_basket \<Rightarrow> observed_basket \<Rightarrow> int \<Rightarrow> observation \<Rightarrow> basket_witness" where
  "make_witness quote b time os =
     (let markets = map (\<lambda>k. os_markets os ! k) (bk_markets b);
          oldest = fold (\<lambda>m t. min t (cm_last_update m)) markets time;
          newest = fold (\<lambda>m t. max t (cm_last_update m)) markets 0
      in \<lparr>wi_quote = quote, wi_time = time, wi_maximum_book_age = time - oldest, wi_book_update_skew = newest - oldest,
          wi_available = map (\<lambda>(i, m). cm_available m (if i = 0 then 0 else 1)) (enumerate 0 markets)\<rparr>)"


subsection \<open>Evaluating a basket\<close>

text \<open>The first of its markets without a usable book.\<close>

fun blocked_by :: "cached_market list \<Rightarrow> basket_status option" where
  "blocked_by [] = None"
| "blocked_by (m # ms) = (if \<not> cm_valid m then Some Book_Unavailable else if cm_crossed m then Some Book_Crossed else blocked_by ms)"

definition legs_of :: "observed_basket \<Rightarrow> observation \<Rightarrow> buy_depth list" where
  "legs_of b os = map (\<lambda>(i, k). let m = os_markets os ! k in \<lparr>bd_levels = cm_depth m (if i = 0 then 0 else 1), bd_fees = cm_fee m\<rparr>)
     (enumerate (0 :: nat) (bk_markets b))"

definition open_episode :: "observation_config \<Rightarrow> nat \<Rightarrow> int \<Rightarrow> basket_witness \<Rightarrow> observation \<Rightarrow> string + observation" where
  "open_episode cfg i time w os =
     and_then (account_union time os) (\<lambda>os.
       let os = os\<lparr>os_active := os_active os + 1\<rparr>;
           b = os_baskets os ! i;
           left_censored = (\<not> bk_eligible_before b);
           b = b\<lparr>bk_active := True, bk_episodes := bk_episodes b + 1, bk_opened_at := time, bk_opening_left_censored := left_censored,
                 bk_left_censored := (if left_censored then bk_left_censored b + 1 else bk_left_censored b),
                 bk_episode_evaluations := 0, bk_episode_peak := Some w,
                 bk_episode_min_margin := sb_net_margin_micro (wi_quote w)\<rparr>
       in and_then (episode_event cfg (Episode_Open (bk_id b) (bk_key b) (bk_episodes b) time left_censored w) (put_basket i b os))
            (\<lambda>os. Inr (os\<lparr>os_signals := os_signals os @ [\<lparr>ep_basket_id = bk_id b, ep_episode = bk_episodes b, ep_time = time,
                            ep_quote = wi_quote w, ep_left_censored = left_censored\<rparr>]\<rparr>)))"

definition positive_quote :: "observation_config \<Rightarrow> nat \<Rightarrow> int \<Rightarrow> basket_witness \<Rightarrow> observation \<Rightarrow> string + observation" where
  "positive_quote cfg i time w os =
     and_then (if bk_active (os_baskets os ! i) then Inr os else open_episode cfg i time w os) (\<lambda>os.
       let b = os_baskets os ! i;
           margin = sb_net_margin_micro (wi_quote w);
           higher = (case bk_episode_peak b of None \<Rightarrow> True | Some peak \<Rightarrow> sb_net_margin_micro (wi_quote peak) < margin)
       in Inr (put_basket i (b\<lparr>bk_episode_evaluations := bk_episode_evaluations b + 1,
                 bk_episode_min_margin := min (bk_episode_min_margin b) margin,
                 bk_episode_peak := (if higher then Some w else bk_episode_peak b)\<rparr>) os))"

definition classify :: "basket_sizing_result \<Rightarrow> basket_status" where
  "classify result =
     (if br_quote result \<noteq> None then Quote_Positive
      else if br_status result = No_Depth then Depth_Missing
      else if br_status result = Insufficient_Cash then Cash_Missing else Margin_Missing)"

definition note_best_one :: "nat \<Rightarrow> int \<Rightarrow> basket_sizing_result \<Rightarrow> observation \<Rightarrow> observation" where
  "note_best_one i time result os =
     (let b = os_baskets os ! i
      in case br_one_contract_diagnostic result of None \<Rightarrow> os
         | Some q \<Rightarrow>
             if (case bk_best_one b of None \<Rightarrow> True | Some best \<Rightarrow> sb_net_margin_micro (wi_quote best) < sb_net_margin_micro q)
             then put_basket i (b\<lparr>bk_best_one := Some (make_witness q b time os)\<rparr>) os else os)"

definition evaluate_basket :: "observation_config \<Rightarrow> int \<Rightarrow> nat \<Rightarrow> u64 \<times> observation \<Rightarrow> string + u64 \<times> observation" where
  "evaluate_basket cfg time i = (\<lambda>(budget, os).
     let b = os_baskets os ! i;
         os = put_basket i (b\<lparr>bk_evaluations := bk_evaluations b + 1\<rparr>) (os\<lparr>os_evaluations := os_evaluations os + 1\<rparr>)
     in case blocked_by (map (\<lambda>k. os_markets os ! k) (bk_markets b)) of
          Some reason \<Rightarrow> and_then (unavailable cfg time reason i os) (\<lambda>os. Inr (budget, os))
        | None \<Rightarrow>
            if budget = 0 then Inl ''basket update evaluation budget exceeded''
            else
              let limits = oc_limits cfg;
                  result = size_buy_basket (legs_of b os) (limits\<lparr>sl_max_evaluations := min budget (sl_max_evaluations limits)\<rparr>);
                  budget = budget - br_evaluated_quantities result;
                  b = os_baskets os ! i;
                  os = put_basket i (b\<lparr>bk_quantities := bk_quantities b + br_evaluated_quantities result\<rparr>)
                         (os\<lparr>os_quantities := os_quantities os + br_evaluated_quantities result\<rparr>)
              in if br_status result = Search_Budget_Exceeded \<or> br_status result = Invalid_Input \<or> br_status result = Arithmetic_Error
                 then Inl ''basket sizing incomplete or invalid''
                 else
                   let os = note_best_one i time result os
                   in and_then
                        (case br_quote result of
                           None \<Rightarrow> close_basket cfg i time (Some (classify result)) False os
                         | Some q \<Rightarrow> positive_quote cfg i time (make_witness q (os_baskets os ! i) time os) os) (\<lambda>os.
                      and_then (set_status i (classify result) time os) (\<lambda>os.
                        Inr (budget, put_basket i ((os_baskets os ! i)\<lparr>bk_eligible_before := True\<rparr>) os))))"


subsection \<open>The observer\<close>

definition observation_start :: "observation_config \<Rightarrow> bool \<Rightarrow> observation \<Rightarrow> string + observation" where
  "observation_start cfg live os = observation_emit cfg (Basket_Start live) os"

definition observation_before :: "observation_config \<Rightarrow> int \<Rightarrow> observation \<Rightarrow> string + observation" where
  "observation_before cfg time os =
     (if time < 0 \<or> (case os_last_time os of None \<Rightarrow> False | Some t \<Rightarrow> time < t) then Inl ''basket observation clock regression''
      else case os_deadline os of
        None \<Rightarrow> Inr os
      | Some deadline \<Rightarrow> if deadline \<le> time \<and> \<not> os_expired os then expire cfg deadline os else Inr os)"

text \<open>What a record fixes before its market is looked at: times, counts and the deadline.\<close>

definition begin_record :: "replay_frame \<Rightarrow> observation \<Rightarrow> observation" where
  "begin_record frame os =
     (let os = (if os_first_time os = None
                then os\<lparr>os_first_time := Some (fr_time frame), os_union_since := fr_time frame,
                       os_baskets := map (\<lambda>b. b\<lparr>bk_status_since := fr_time frame\<rparr>) (os_baskets os)\<rparr>
                else os)
      in os\<lparr>os_last_time := Some (fr_time frame), os_records := os_records os + 1,
            os_trades := (if fr_trade frame \<noteq> None then os_trades os + 1 else os_trades os)\<rparr>)"

definition policy_window :: "observation_config \<Rightarrow> int \<Rightarrow> int \<Rightarrow> observation \<Rightarrow> string + observation" where
  "policy_window cfg wall time os =
     (if oc_valid_until cfg \<le> wall then (if os_expired os then Inr os else expire cfg time os)
      else if os_expired os then Inr os
      else
        let remaining = oc_valid_until cfg - wall
        in if int64_max - remaining < time then Inl ''basket deadline overflow''
           else
             let mapped = time + remaining
             in Inr (os\<lparr>os_deadline := Some (case os_deadline os of None \<Rightarrow> mapped | Some d \<Rightarrow> min d mapped)\<rparr>))"

definition connection_check :: "observation_config \<Rightarrow> int \<Rightarrow> market_state \<Rightarrow> observation \<Rightarrow> string + observation" where
  "connection_check cfg time state os =
     (if \<not> ms_connected state \<or> ms_generation state \<noteq> os_generation os
      then and_fold (unavailable cfg time Book_Unavailable) [0 ..< length (os_baskets os)]
             (os\<lparr>os_generation := ms_generation state, os_markets := map (\<lambda>m. m\<lparr>cm_valid := False\<rparr>) (os_markets os)\<rparr>)
      else Inr os)"

definition observe_market :: "observation_config \<Rightarrow> replay_frame \<Rightarrow> market_state \<Rightarrow> nat \<Rightarrow> observation \<Rightarrow> string + observation" where
  "observe_market cfg frame state k os =
     (let m = os_markets os ! k
      in if \<not> fr_applied frame
         then
           if (case find_book (cm_id m) state of None \<Rightarrow> True | Some book \<Rightarrow> ob_state book \<noteq> Valid)
           then and_fold (unavailable cfg (fr_time frame) Book_Unavailable) (cm_dependencies m)
                  (os\<lparr>os_markets := (os_markets os)[k := m\<lparr>cm_valid := False\<rparr>]\<rparr>)
           else Inr os
         else
           let os = os\<lparr>os_markets := (os_markets os)[k := update_cache cfg (fr_time frame) state m],
                      os_book_updates := os_book_updates os + 1\<rparr>
           in and_then (and_fold (evaluate_basket cfg (fr_time frame)) (cm_dependencies m) (oc_total_budget cfg, os)) (\<lambda>(budget, os).
                Inr (os\<lparr>os_maximum_active := max (os_maximum_active os) (os_active os)\<rparr>)))"

definition observe_frame :: "observation_config \<Rightarrow> replay_frame \<Rightarrow> market_state \<Rightarrow> observation \<Rightarrow> string + observation" where
  "observe_frame cfg frame state os =
     (if os_expired os then Inr os
      else
        and_then (connection_check cfg (fr_time frame) state os) (\<lambda>os.
          if \<not> ms_connected state then Inr os
          else case fr_market_id frame of
            None \<Rightarrow> Inr os
          | Some market \<Rightarrow>
              (case oc_indexes cfg market of
                 None \<Rightarrow> Inl ''basket update outside frozen cohort''
               | Some k \<Rightarrow> observe_market cfg frame state k os)))"

definition observation_after :: "observation_config \<Rightarrow> replay_frame \<Rightarrow> market_state \<Rightarrow> observation \<Rightarrow> string + observation" where
  "observation_after cfg frame state os =
     and_then (observation_before cfg (fr_time frame) os) (\<lambda>os.
       case fr_observed_wall frame of
         None \<Rightarrow> Inl ''basket policy wall-clock binding''
       | Some wall \<Rightarrow>
           if os_finished os \<or> wall < oc_valid_from cfg then Inl ''basket policy wall-clock binding''
           else and_then (policy_window cfg wall (fr_time frame) (begin_record frame os)) (observe_frame cfg frame state))"

definition finish_basket :: "observation_config \<Rightarrow> int \<Rightarrow> nat \<Rightarrow> observation \<Rightarrow> string + observation" where
  "finish_basket cfg time i os = and_then (close_basket cfg i time None True os) (account_time i time)"

definition observation_finish :: "observation_config \<Rightarrow> int \<Rightarrow> observation \<Rightarrow> string + observation" where
  "observation_finish cfg time os =
     (if os_finished os then Inr os
      else
        and_then (observation_before cfg time os) (\<lambda>os.
        and_then (and_fold (finish_basket cfg time) [0 ..< length (os_baskets os)] os) (\<lambda>os.
        and_then (account_union time os) (\<lambda>os.
          Inr (os\<lparr>os_last_time := Some time, os_finished := True\<rparr>)))))"

definition observation_checkpoint :: "observation_config \<Rightarrow> int \<Rightarrow> observation \<Rightarrow> string + observation" where
  "observation_checkpoint cfg time os =
     observation_emit cfg (Basket_Status time (os_records os) (os_book_updates os) (os_evaluations os) (os_quantities os)
       (os_events os) (os_expired os)) os"

definition next_event_time :: "observation \<Rightarrow> int option" where
  "next_event_time os = (if os_expired os \<or> os_finished os then None else os_deadline os)"

text \<open>The times a report gives for a basket.\<close>

definition reported_no_data :: "observed_basket \<Rightarrow> u64" where
  "reported_no_data b = bk_durations b Book_Unavailable + bk_durations b Book_Crossed + bk_durations b Policy_Expired"

definition reported_eligible :: "observed_basket \<Rightarrow> u64" where
  "reported_eligible b =
     fold (\<lambda>status eligible. eligible + bk_durations b status) [Depth_Missing, Cash_Missing, Margin_Missing, Quote_Positive] 0"

end
