(* ===== verification/Basket_Episodes.thy ===== *)
theory Basket_Episodes
  imports Basket_Observation
begin

text \<open>
  What the basket observation reports: the durations of the statuses of a basket add up to the time
  observed, the time some basket was positive covers the positive time of each basket and is
  covered by them together, episodes open and close in turn with the status, and neither of the
  clock checks within can fail. An operation at a time keeps, for every basket and for the
  union, the positive time up to then; the time in between is added when the clock moves.
\<close>

subsection \<open>Clocks\<close>

definition all_statuses :: "basket_status list" where
  "all_statuses = [Book_Unavailable, Book_Crossed, Policy_Expired, Depth_Missing, Cash_Missing, Margin_Missing, Quote_Positive]"

definition eligible_status :: "basket_status \<Rightarrow> bool" where
  "eligible_status status \<longleftrightarrow> status \<in> {Depth_Missing, Cash_Missing, Margin_Missing, Quote_Positive}"

lemma eligible_status_simps [simp]:
  "\<not> eligible_status Book_Unavailable" "\<not> eligible_status Book_Crossed" "\<not> eligible_status Policy_Expired"
  "eligible_status Depth_Missing" "eligible_status Cash_Missing" "eligible_status Margin_Missing" "eligible_status Quote_Positive"
  by (simp_all add: eligible_status_def)

definition all_time :: "observed_basket \<Rightarrow> nat" where
  "all_time b = sum_list (map (\<lambda>status. unat (bk_durations b status)) all_statuses)"

definition positive_time :: "int \<Rightarrow> observed_basket \<Rightarrow> nat" where
  "positive_time now b =
     unat (bk_durations b Quote_Positive) + (if bk_status b = Quote_Positive then nat (now - bk_status_since b) else 0)"

definition union_time :: "int \<Rightarrow> observation \<Rightarrow> nat" where
  "union_time now os = unat (os_positive_union os) + (if os_active os \<noteq> 0 then nat (now - os_union_since os) else 0)"

definition clocked :: "int \<Rightarrow> int \<Rightarrow> observed_basket \<Rightarrow> bool" where
  "clocked first now b \<longleftrightarrow> first \<le> bk_status_since b \<and> bk_status_since b \<le> now \<and> all_time b = nat (bk_status_since b - first)"

definition union_clocked :: "int \<Rightarrow> int \<Rightarrow> observation \<Rightarrow> bool" where
  "union_clocked first now os \<longleftrightarrow> first \<le> os_union_since os \<and> os_union_since os \<le> now \<and>
     unat (os_positive_union os) \<le> nat (os_union_since os - first)"

text \<open>A time that fits: nothing that is added to a 64-bit duration overflows.\<close>

definition time_range :: "int \<Rightarrow> int \<Rightarrow> bool" where
  "time_range first now \<longleftrightarrow> 0 \<le> first \<and> first \<le> now \<and> now \<le> 9223372036854775807"

lemma nat_span: "(first :: int) \<le> since \<Longrightarrow> since \<le> now \<Longrightarrow> nat (since - first) + nat (now - since) = nat (now - first)"
  by (simp flip: nat_add_distrib)

lemma unat_of_int: "0 \<le> i \<Longrightarrow> i < 18446744073709551616 \<Longrightarrow> unat (of_int i :: u64) = nat i"
  using unat_word_of_int [of i] by simp

lemma add_duration:
  fixes d :: u64
  assumes "time_range first now" and "first \<le> since" and "since \<le> now" and "unat d \<le> nat (since - first)"
  shows "unat (d + of_int (now - since)) = unat d + nat (now - since)"
proof -
  have "unat (of_int (now - since) :: u64) = nat (now - since)"
    using assms(1-3) by (intro unat_of_int) (simp_all add: time_range_def)
  moreover have "unat d + nat (now - since) < 18446744073709551616"
  proof -
    have "unat d + nat (now - since) \<le> nat (now - first)" using assms(4) nat_span [OF assms(2,3)] by simp
    also have "\<dots> < 18446744073709551616" using assms(1) by (simp add: time_range_def nat_less_iff)
    finally show ?thesis .
  qed
  ultimately show ?thesis by (subst unat_add_lem [THEN iffD1]) simp_all
qed

text \<open>A basket whose time is accounted for.\<close>

definition accounted :: "int \<Rightarrow> observed_basket \<Rightarrow> observed_basket" where
  "accounted now b = b\<lparr>
     bk_durations := (bk_durations b)(bk_status b := bk_durations b (bk_status b) + of_int (now - bk_status_since b)),
     bk_status_since := now\<rparr>"

lemma accounted_simps [simp]:
  "bk_id (accounted now b) = bk_id b" "bk_markets (accounted now b) = bk_markets b" "bk_status (accounted now b) = bk_status b"
  "bk_status_since (accounted now b) = now" "bk_active (accounted now b) = bk_active b"
  "bk_eligible_before (accounted now b) = bk_eligible_before b" "bk_episodes (accounted now b) = bk_episodes b"
  "bk_closed_episodes (accounted now b) = bk_closed_episodes b" "bk_episode_peak (accounted now b) = bk_episode_peak b"
  by (simp_all add: accounted_def)

lemma duration_le_all: "unat (bk_durations b status) \<le> all_time b"
  by (cases status) (simp_all add: all_time_def all_statuses_def)

lemma accounted_duration:
  assumes "time_range first now" and "clocked first now b"
  shows "unat (bk_durations (accounted now b) status) =
    unat (bk_durations b status) + (if status = bk_status b then nat (now - bk_status_since b) else 0)"
  using assms add_duration [of first now "bk_status_since b" "bk_durations b (bk_status b)"] duration_le_all [of b "bk_status b"]
  by (auto simp: accounted_def clocked_def)

lemma accounted_clocked:
  assumes "time_range first now" and "clocked first now b"
  shows "clocked first now (accounted now b)" and "positive_time now (accounted now b) = positive_time now b"
proof -
  have "all_time (accounted now b) = all_time b + nat (now - bk_status_since b)"
    unfolding all_time_def all_statuses_def using accounted_duration [OF assms] by (cases "bk_status b") simp_all
  then show "clocked first now (accounted now b)"
    using assms nat_span [of first "bk_status_since b" now] by (simp add: clocked_def time_range_def)
  show "positive_time now (accounted now b) = positive_time now b"
    unfolding positive_time_def using accounted_duration [OF assms, of Quote_Positive] by simp
qed

lemma accounted_status:
  assumes "time_range first now" and "clocked first now b"
  shows "clocked first now ((accounted now b)\<lparr>bk_status := status, bk_counts := counts\<rparr>)"
    and "positive_time now ((accounted now b)\<lparr>bk_status := status, bk_counts := counts\<rparr>) = positive_time now b"
  using accounted_clocked [OF assms] by (simp_all add: clocked_def all_time_def positive_time_def split: if_splits)


subsection \<open>What an operation on one basket changes\<close>

text \<open>
  At a time, an operation replaces one basket and keeps the time of the union; the number of active
  baskets follows.
\<close>

definition touches :: "int \<Rightarrow> int \<Rightarrow> nat \<Rightarrow> observed_basket \<Rightarrow> observation \<Rightarrow> observation \<Rightarrow> bool" where
  "touches first now i b' os os' \<longleftrightarrow> os_first_time os' = os_first_time os \<and> os_baskets os' = (os_baskets os)[i := b'] \<and>
     os_markets os' = os_markets os \<and> os_last_time os' = os_last_time os \<and> os_deadline os' = os_deadline os \<and>
     os_expired os' = os_expired os \<and> os_finished os' = os_finished os \<and>
     union_clocked first now os' \<and> union_time now os' = union_time now os \<and>
     os_active os' = os_active os - of_bool (bk_active (os_baskets os ! i)) + of_bool (bk_active b')"

lemma touches_trans:
  assumes "touches first now i b os os'" and "touches first now i c os' os''" and "i < length (os_baskets os)"
  shows "touches first now i c os os''"
  using assms by (simp add: touches_def)

definition observation_error :: "string \<Rightarrow> bool" where
  "observation_error e \<longleftrightarrow> e \<in> {''basket observation clock regression'', ''basket policy wall-clock binding'',
     ''basket deadline overflow'', ''basket update outside frozen cohort'', ''basket update evaluation budget exceeded'',
     ''basket sizing incomplete or invalid'', ''basket episode event budget exceeded'', ''basket observation output failed''}"

text \<open>A place where operations on basket \<open>i\<close> start.\<close>

definition settled :: "int \<Rightarrow> int \<Rightarrow> nat \<Rightarrow> observation \<Rightarrow> bool" where
  "settled first now i os \<longleftrightarrow> os_first_time os = Some first \<and> time_range first now \<and> union_clocked first now os \<and>
     i < length (os_baskets os) \<and> clocked first now (os_baskets os ! i)"

lemma settled_touches: "settled first now i os \<Longrightarrow> touches first now i b os os' \<Longrightarrow> clocked first now b \<Longrightarrow> settled first now i os'"
  by (simp add: settled_def touches_def)

lemma touched: "settled first now i os \<Longrightarrow> touches first now i b os os' \<Longrightarrow> os_baskets os' ! i = b"
  by (simp add: settled_def touches_def)

lemma touches_put:
  "settled first now i os \<Longrightarrow> bk_active b = bk_active (os_baskets os ! i) \<Longrightarrow> touches first now i b os (put_basket i b os)"
  by (simp add: touches_def settled_def put_basket_def union_clocked_def union_time_def)

lemma account_time_touches:
  "settled first now i os \<Longrightarrow> \<exists>os'. account_time i now os = Inr os' \<and> touches first now i (accounted now (os_baskets os ! i)) os os'"
  using touches_put [of first now i os "accounted now (os_baskets os ! i)"]
  by (simp add: account_time_def settled_def clocked_def Let_def accounted_def)

lemma set_status_touches:
  assumes "settled first now i os"
  shows "\<exists>os' counts. set_status i status now os = Inr os' \<and>
    touches first now i ((accounted now (os_baskets os ! i))\<lparr>bk_status := status, bk_counts := counts\<rparr>) os os'"
proof -
  obtain os1 where os1: "account_time i now os = Inr os1" "touches first now i (accounted now (os_baskets os ! i)) os os1"
    using account_time_touches [OF assms] by blast
  have b: "os_baskets os1 ! i = accounted now (os_baskets os ! i)" by (rule touched [OF assms os1(2)])
  have "clocked first now (accounted now (os_baskets os ! i))" using assms accounted_clocked by (simp add: settled_def)
  then have "settled first now i os1" by (rule settled_touches [OF assms os1(2)])
  from touches_put [OF this, of "(accounted now (os_baskets os ! i))\<lparr>bk_status := status, bk_counts := counts\<rparr>" for counts]
  show ?thesis using os1 b assms by (auto simp: set_status_def Let_def settled_def intro: touches_trans)
qed

text \<open>Accounting for the union leaves its time as it was, however many baskets are active afterwards.\<close>

lemma account_union_keeps:
  assumes "os_first_time os = Some first" and "time_range first now" and "union_clocked first now os"
  shows "\<exists>p. account_union now os = Inr (os\<lparr>os_positive_union := p, os_union_since := now\<rparr>) \<and>
    unat p = union_time now os \<and> union_time now os \<le> nat (now - first)"
proof -
  have sum: "unat (os_positive_union os + of_int (now - os_union_since os)) = unat (os_positive_union os) + nat (now - os_union_since os)"
    using assms by (intro add_duration) (auto simp: union_clocked_def)
  moreover have "nat (os_union_since os - first) + nat (now - os_union_since os) = nat (now - first)"
    using assms(3) by (simp add: union_clocked_def nat_span)
  moreover have "nat (os_union_since os - first) \<le> nat (now - first)" using assms(3) by (intro nat_mono) (simp add: union_clocked_def)
  moreover have "account_union now os = Inr (os\<lparr>os_positive_union :=
      (if os_active os \<noteq> 0 then os_positive_union os + of_int (now - os_union_since os) else os_positive_union os), os_union_since := now\<rparr>)"
    using assms by (simp add: account_union_def union_clocked_def)
  ultimately show ?thesis
    using assms(3) by (auto simp: union_clocked_def union_time_def intro!: exI)
qed

lemma episode_event_yields:
  "yields observation_error (\<lambda>os'. \<exists>n out. os' = os\<lparr>os_events := n, os_output := out\<rparr>) (episode_event cfg row os)"
  by (auto simp: episode_event_def observation_emit_def Let_def observation_error_def)

text \<open>A basket closed or opened: an event, the union accounted for, and the number of active baskets.\<close>

lemma touches_active:
  assumes "settled first now i os" and "unat p = union_time now os" and "union_time now os \<le> nat (now - first)"
    and "n = os_active os - of_bool (bk_active (os_baskets os ! i)) + of_bool (bk_active b)"
  shows "touches first now i b os
    (put_basket i b (os\<lparr>os_events := e, os_output := out, os_positive_union := p, os_union_since := now, os_active := n, os_signals := signals\<rparr>))"
  using assms by (simp add: touches_def put_basket_def union_clocked_def union_time_def settled_def time_range_def)

definition closed_basket :: "bool \<Rightarrow> observed_basket \<Rightarrow> observed_basket" where
  "closed_basket censored b =
     (if bk_active b
      then b\<lparr>bk_active := False, bk_closed_episodes := bk_closed_episodes b + 1,
             bk_right_censored := (if censored then bk_right_censored b + 1 else bk_right_censored b)\<rparr>
      else b)"

lemma close_touches:
  assumes "settled first now i os"
  shows "yields observation_error (\<lambda>os'. touches first now i (closed_basket censored (os_baskets os ! i)) os os' \<and> os_signals os' = os_signals os)
    (close_basket cfg i now reason censored os)"
proof (cases "bk_active (os_baskets os ! i)")
  case False
  have "(os_baskets os)[i := os_baskets os ! i] = os_baskets os" by simp
  with False assms show ?thesis by (simp add: close_basket_def Let_def closed_basket_def touches_def settled_def)
next
  case True
  let ?b = "closed_basket censored (os_baskets os ! i)"
  have rest: "yields observation_error (\<lambda>os'. touches first now i ?b os os' \<and> os_signals os' = os_signals os)
      (and_then (account_union now (os\<lparr>os_events := n, os_output := out\<rparr>)) (\<lambda>os. Inr (put_basket i ?b (os\<lparr>os_active := os_active os - 1\<rparr>))))"
    for n out
  proof -
    obtain p where p: "account_union now (os\<lparr>os_events := n, os_output := out\<rparr>) =
        Inr (os\<lparr>os_events := n, os_output := out, os_positive_union := p, os_union_since := now\<rparr>)"
      "unat p = union_time now os" "union_time now os \<le> nat (now - first)"
      using account_union_keeps [of "os\<lparr>os_events := n, os_output := out\<rparr>" first now] assms
      by (auto simp: settled_def union_clocked_def union_time_def cong: if_cong)
    have "os_active os - 1 = os_active os - of_bool (bk_active (os_baskets os ! i)) + of_bool (bk_active ?b)"
      using True by (simp add: closed_basket_def)
    from touches_active [OF assms p(2,3) this, where e = n and out = out and signals = "os_signals os"]
    show ?thesis by (simp add: put_basket_def p(1))
  qed
  show ?thesis
    using True rest by (auto simp: close_basket_def Let_def closed_basket_def intro!: yields_and_then [OF episode_event_yields])
qed


subsection \<open>Status and episodes\<close>

text \<open>A basket whose status and episodes agree.\<close>

definition episodes_paired :: "observed_basket \<Rightarrow> bool" where
  "episodes_paired b \<longleftrightarrow> bk_episodes b = bk_closed_episodes b + of_bool (bk_active b) \<and> (bk_active b \<longrightarrow> bk_episode_peak b \<noteq> None)"

definition linked :: "observed_basket \<Rightarrow> bool" where
  "linked b \<longleftrightarrow> (bk_active b \<longleftrightarrow> bk_status b = Quote_Positive) \<and> (bk_eligible_before b \<longleftrightarrow> eligible_status (bk_status b)) \<and>
     episodes_paired b"

definition same_clock :: "observed_basket \<Rightarrow> observed_basket \<Rightarrow> bool" where
  "same_clock b c \<longleftrightarrow> bk_id c = bk_id b \<and> bk_markets c = bk_markets b \<and> bk_status c = bk_status b \<and>
     bk_durations c = bk_durations b \<and> bk_status_since c = bk_status_since b"

lemma same_clock_clocked: "same_clock b c \<Longrightarrow> clocked first now c = clocked first now b"
  by (simp add: same_clock_def clocked_def all_time_def)

lemma same_clock_positive: "same_clock b c \<Longrightarrow> positive_time now c = positive_time now b"
  by (simp add: same_clock_def positive_time_def)

lemma closed_basket_same [simp]:
  "same_clock b (closed_basket censored b)" "bk_active (closed_basket censored b) = False"
  "bk_eligible_before (closed_basket censored b) = bk_eligible_before b"
  "bk_episode_peak (closed_basket censored b) = bk_episode_peak b"
  by (simp_all add: closed_basket_def same_clock_def)

lemma closed_basket_paired: "episodes_paired b \<Longrightarrow> episodes_paired (closed_basket censored b)"
  by (simp add: closed_basket_def episodes_paired_def)

text \<open>What an operation on a basket at a time leaves of it.\<close>

definition succeeds :: "int \<Rightarrow> int \<Rightarrow> observed_basket \<Rightarrow> observed_basket \<Rightarrow> bool" where
  "succeeds first now b b' \<longleftrightarrow> clocked first now b' \<and> positive_time now b' = positive_time now b \<and> linked b' \<and>
     bk_id b' = bk_id b \<and> bk_markets b' = bk_markets b"

text \<open>A status set after the episode was opened or closed as the status says.\<close>

lemma set_status_succeeds:
  assumes "settled first now i os" and "same_clock b (os_baskets os ! i)" and "clocked first now b"
    and "bk_active (os_baskets os ! i) \<longleftrightarrow> status = Quote_Positive" and "episodes_paired (os_baskets os ! i)"
    and "eligible \<longleftrightarrow> eligible_status status"
  shows "yields observation_error (\<lambda>os'. \<exists>b'. touches first now i b' os os' \<and> succeeds first now b b' \<and> os_signals os' = os_signals os)
    (and_then (set_status i status now os) (\<lambda>os. Inr (put_basket i ((os_baskets os ! i)\<lparr>bk_eligible_before := eligible\<rparr>) os)))"
proof -
  let ?c = "os_baskets os ! i"
  obtain os1 counts where os1: "set_status i status now os = Inr os1"
    "touches first now i ((accounted now ?c)\<lparr>bk_status := status, bk_counts := counts\<rparr>) os os1"
    using set_status_touches [OF assms(1)] by blast
  let ?d = "(accounted now ?c)\<lparr>bk_status := status, bk_counts := counts\<rparr>"
  have range: "time_range first now" "clocked first now ?c" using assms(1) by (simp_all add: settled_def)
  note d = accounted_status [OF range, where status = status and counts = counts]
  have at: "os_baskets os1 ! i = ?d" by (rule touched [OF assms(1) os1(2)])
  have "touches first now i (?d\<lparr>bk_eligible_before := eligible\<rparr>) os1 (put_basket i (?d\<lparr>bk_eligible_before := eligible\<rparr>) os1)"
    using settled_touches [OF assms(1) os1(2) d(1)] by (rule touches_put) (simp add: at)
  then have "touches first now i (?d\<lparr>bk_eligible_before := eligible\<rparr>) os (put_basket i (?d\<lparr>bk_eligible_before := eligible\<rparr>) os1)"
    using touches_trans [OF os1(2)] assms(1) by (simp add: settled_def)
  moreover have "succeeds first now b (?d\<lparr>bk_eligible_before := eligible\<rparr>)"
  proof -
    have same: "same_clock ?d (?d\<lparr>bk_eligible_before := eligible\<rparr>)" by (simp add: same_clock_def)
    have "clocked first now (?d\<lparr>bk_eligible_before := eligible\<rparr>)" using same_clock_clocked [OF same] d(1) by simp
    moreover have "positive_time now (?d\<lparr>bk_eligible_before := eligible\<rparr>) = positive_time now b"
      using same_clock_positive [OF same] d(2) same_clock_positive [OF assms(2)] by simp
    ultimately show ?thesis using assms(2,4-6) by (simp add: succeeds_def linked_def episodes_paired_def same_clock_def)
  qed
  moreover have "os_signals os1 = os_signals os"
    using os1(1) by (auto simp: set_status_def account_time_def Let_def put_basket_def and_then_Inr split: if_splits)
  ultimately show ?thesis by (auto simp: os1(1) at put_basket_def)
qed

lemma unavailable_succeeds:
  assumes "settled first now i os" and "linked (os_baskets os ! i)" and "\<not> eligible_status reason"
  shows "yields observation_error (\<lambda>os'. \<exists>b'. touches first now i b' os os' \<and> succeeds first now (os_baskets os ! i) b' \<and> os_signals os' = os_signals os)
    (unavailable cfg now reason i os)"
  unfolding unavailable_def
proof (rule yields_and_then [OF close_touches [OF assms(1)]], elim conjE)
  fix os1
  let ?b = "os_baskets os ! i" and ?c = "closed_basket True (os_baskets os ! i)"
  assume os1: "touches first now i ?c os os1" "os_signals os1 = os_signals os"
  have clock: "clocked first now ?b" "clocked first now ?c" using assms(1) by (simp_all add: settled_def same_clock_clocked [of ?b])
  have at: "os_baskets os1 ! i = ?c" by (rule touched [OF assms(1) os1(1)])
  have "yields observation_error (\<lambda>os'. \<exists>b'. touches first now i b' os1 os' \<and> succeeds first now ?b b' \<and> os_signals os' = os_signals os1)
    (and_then (set_status i reason now os1) (\<lambda>os. Inr (put_basket i ((os_baskets os ! i)\<lparr>bk_eligible_before := False\<rparr>) os)))"
    using assms(2,3) clock by (intro set_status_succeeds settled_touches [OF assms(1) os1(1)]) (auto simp: at linked_def closed_basket_paired)
  then show "yields observation_error (\<lambda>os'. \<exists>b'. touches first now i b' os os' \<and> succeeds first now ?b b' \<and> os_signals os' = os_signals os)
    (and_then (set_status i reason now os1) (\<lambda>os. Inr (put_basket i ((os_baskets os ! i)\<lparr>bk_eligible_before := False\<rparr>) os)))"
    using touches_trans [OF os1(1)] assms(1) os1(2) by (elim yields_mono) (auto simp: settled_def)
qed


subsection \<open>Announcing an episode\<close>

definition announced :: "observed_basket \<Rightarrow> int \<Rightarrow> basket_episode list \<Rightarrow> basket_episode list \<Rightarrow> bool" where
  "announced b now old new \<longleftrightarrow> new = old \<or>
     (\<exists>ep. new = old @ [ep] \<and> ep_basket_id ep = bk_id b \<and> ep_time ep = now \<and> \<not> bk_active b \<and>
        (ep_left_censored ep \<longleftrightarrow> \<not> bk_eligible_before b))"

text \<open>A basket in an episode, its status yet to be set.\<close>

definition opened :: "observed_basket \<Rightarrow> observed_basket \<Rightarrow> bool" where
  "opened b c \<longleftrightarrow> same_clock b c \<and> bk_active c \<and> episodes_paired c"

lemma open_touches:
  assumes "settled first now i os" and "\<not> bk_active (os_baskets os ! i)" and "episodes_paired (os_baskets os ! i)"
  shows "yields observation_error (\<lambda>os'. \<exists>c. touches first now i c os os' \<and> opened (os_baskets os ! i) c \<and>
      announced (os_baskets os ! i) now (os_signals os) (os_signals os')) (open_episode cfg i now w os)"
proof -
  let ?b = "os_baskets os ! i"
  obtain p where p: "account_union now os = Inr (os\<lparr>os_positive_union := p, os_union_since := now\<rparr>)"
      "unat p = union_time now os" "union_time now os \<le> nat (now - first)"
    using account_union_keeps [of os first now] assms by (auto simp: settled_def)
  define c where "c = ?b\<lparr>bk_active := True, bk_episodes := bk_episodes ?b + 1, bk_opened_at := now,
      bk_opening_left_censored := \<not> bk_eligible_before ?b,
      bk_left_censored := (if \<not> bk_eligible_before ?b then bk_left_censored ?b + 1 else bk_left_censored ?b),
      bk_episode_evaluations := 0, bk_episode_peak := Some w, bk_episode_min_margin := sb_net_margin_micro (wi_quote w)\<rparr>"
  define ep where "ep = \<lparr>ep_basket_id = bk_id c, ep_episode = bk_episodes c, ep_time = now, ep_quote = wi_quote w,
      ep_left_censored = (\<not> bk_eligible_before ?b)\<rparr>"
  have c: "opened ?b c" "bk_active c" "bk_id c = bk_id ?b"
    using assms(2,3) by (simp_all add: opened_def c_def same_clock_def episodes_paired_def)
  let ?os = "\<lambda>n out. (put_basket i c (os\<lparr>os_positive_union := p, os_union_since := now, os_active := os_active os + 1\<rparr>))
      \<lparr>os_events := n, os_output := out, os_signals := os_signals os @ [ep]\<rparr>"
  have "touches first now i c os (?os n out)" for n out
    using touches_active [OF assms(1) p(2,3), of "os_active os + 1" c] assms(1,2) c(2)
    by (simp add: touches_def put_basket_def union_clocked_def union_time_def cong: if_cong)
  moreover have "announced ?b now (os_signals os) (os_signals (?os n out))" for n out
    using assms(2) by (simp add: announced_def ep_def c(3))
  ultimately have end_state: "\<exists>c. touches first now i c os (?os n out) \<and> opened ?b c \<and>
      announced ?b now (os_signals os) (os_signals (?os n out))" for n out using c(1) by blast
  have "open_episode cfg i now w os =
      and_then (episode_event cfg (Episode_Open (bk_id c) (bk_key c) (bk_episodes c) now (\<not> bk_eligible_before ?b) w)
        (put_basket i c (os\<lparr>os_positive_union := p, os_union_since := now, os_active := os_active os + 1\<rparr>)))
        (\<lambda>os. Inr (os\<lparr>os_signals := os_signals os @ [ep]\<rparr>))"
    by (simp add: open_episode_def p(1) Let_def c_def ep_def)
  then show ?thesis
    using end_state by (auto intro!: yields_and_then [OF episode_event_yields] simp: put_basket_def)
qed

lemma positive_quote_touches:
  assumes "settled first now i os" and "episodes_paired (os_baskets os ! i)"
  shows "yields observation_error (\<lambda>os'. \<exists>c. touches first now i c os os' \<and> opened (os_baskets os ! i) c \<and>
      announced (os_baskets os ! i) now (os_signals os) (os_signals os')) (positive_quote cfg i now w os)"
proof -
  let ?b = "os_baskets os ! i"
  let ?Q = "\<lambda>os'. \<exists>c. touches first now i c os os' \<and> opened ?b c \<and> announced ?b now (os_signals os) (os_signals os')"
  have "yields observation_error ?Q (if bk_active ?b then Inr os else open_episode cfg i now w os)"
  proof (cases "bk_active ?b")
    case True
    have "touches first now i ?b os os" using touches_put [OF assms(1), of ?b] assms(1) by (simp add: put_basket_def)
    moreover have "opened ?b ?b" using True assms(2) by (simp add: opened_def same_clock_def)
    ultimately show ?thesis using True by (auto simp: announced_def)
  next
    case False
    then show ?thesis using open_touches [OF assms(1) False assms(2)] by simp
  qed
  then show ?thesis
    unfolding positive_quote_def
  proof (rule yields_and_then)
    fix os1
    assume "?Q os1"
    then obtain c where c: "touches first now i c os os1" "opened ?b c" "announced ?b now (os_signals os) (os_signals os1)" by blast
    have at: "os_baskets os1 ! i = c" by (rule touched [OF assms(1) c(1)])
    have settled1: "settled first now i os1"
      using settled_touches [OF assms(1) c(1)] c(2) assms(1) same_clock_clocked [of ?b c] by (simp add: opened_def settled_def)
    have step: "touches first now i d os (put_basket i d os1)" if "bk_active d = bk_active c" for d
      using touches_put [OF settled1, of d] touches_trans [OF c(1)] that at assms(1) by (simp add: settled_def)
    have opened: "opened ?b (c\<lparr>bk_episode_evaluations := n, bk_episode_min_margin := m, bk_episode_peak := if higher then Some w else bk_episode_peak c\<rparr>)"
      for n m higher
      using c(2) by (simp add: opened_def same_clock_def episodes_paired_def)
    have put: "?Q (put_basket i d os1)" if d: "opened ?b d" for d
    proof (intro exI conjI)
      show "touches first now i d os (put_basket i d os1)" using step d c(2) by (simp add: opened_def)
      show "opened ?b d" by (rule d)
      show "announced ?b now (os_signals os) (os_signals (put_basket i d os1))" using c(3) by (simp add: put_basket_def)
    qed
    show "yields observation_error ?Q (let b = os_baskets os1 ! i; margin = sb_net_margin_micro (wi_quote w);
           higher = (case bk_episode_peak b of None \<Rightarrow> True | Some peak \<Rightarrow> sb_net_margin_micro (wi_quote peak) < margin)
       in Inr (put_basket i (b\<lparr>bk_episode_evaluations := bk_episode_evaluations b + 1,
                 bk_episode_min_margin := min (bk_episode_min_margin b) margin,
                 bk_episode_peak := (if higher then Some w else bk_episode_peak b)\<rparr>) os1))"
      unfolding at Let_def yields_simps by (rule put [OF opened])
  qed
qed


subsection \<open>Evaluating\<close>

text \<open>Two baskets that differ in counts and diagnostics only.\<close>

definition same_state :: "observed_basket \<Rightarrow> observed_basket \<Rightarrow> bool" where
  "same_state b c \<longleftrightarrow> same_clock b c \<and> bk_active c = bk_active b \<and> bk_eligible_before c = bk_eligible_before b \<and>
     bk_episodes c = bk_episodes b \<and> bk_closed_episodes c = bk_closed_episodes b \<and> bk_episode_peak c = bk_episode_peak b"

lemma same_state_refl [simp]: "same_state b b"
  by (simp add: same_state_def same_clock_def)

lemma same_state_trans: "same_state b c \<Longrightarrow> same_state c d \<Longrightarrow> same_state b d"
  by (simp add: same_state_def same_clock_def)

lemma same_state_linked: "same_state b c \<Longrightarrow> linked c = linked b"
  by (simp add: same_state_def same_clock_def linked_def episodes_paired_def)

lemma same_state_succeeds: "same_state b c \<Longrightarrow> succeeds first now c d \<Longrightarrow> succeeds first now b d"
  using same_clock_positive [of b c now] by (simp add: succeeds_def same_state_def same_clock_def)

lemma same_state_announced: "same_state b c \<Longrightarrow> announced c now old new = announced b now old new"
  by (simp add: announced_def same_state_def same_clock_def)

text \<open>The state before an operation, but for counts.\<close>

definition recounted :: "int \<Rightarrow> int \<Rightarrow> nat \<Rightarrow> observation \<Rightarrow> observation \<Rightarrow> bool" where
  "recounted first now i os os' \<longleftrightarrow> settled first now i os' \<and> os_signals os' = os_signals os \<and>
     (\<exists>c. touches first now i c os os' \<and> same_state (os_baskets os ! i) c)"

lemma recounted_put:
  assumes "settled first now i os" and "same_state (os_baskets os ! i) c"
    and "os' = os \<or> os' = os\<lparr>os_evaluations := n\<rparr> \<or> os' = os\<lparr>os_quantities := n\<rparr>"
  shows "recounted first now i os (put_basket i c os')"
proof -
  have "touches first now i c os (put_basket i c os')"
    using assms by (auto simp: touches_def settled_def put_basket_def union_clocked_def union_time_def same_state_def)
  moreover have "clocked first now c"
    using assms(1,2) same_clock_clocked [of "os_baskets os ! i" c] by (simp add: settled_def same_state_def)
  ultimately show ?thesis
    using settled_touches [OF assms(1)] assms(2,3) by (auto simp: recounted_def put_basket_def)
qed

lemma recounted_at: "settled first now i os \<Longrightarrow> recounted first now i os os' \<Longrightarrow> same_state (os_baskets os ! i) (os_baskets os' ! i)"
  using touched by (auto simp: recounted_def)

lemma recounted_trans:
  assumes "settled first now i os" and "recounted first now i os os'" and "recounted first now i os' os''"
  shows "recounted first now i os os''"
proof -
  obtain c d where cd: "touches first now i c os os'" "touches first now i d os' os''" "same_state (os_baskets os' ! i) d"
    using assms by (auto simp: recounted_def)
  have "same_state (os_baskets os ! i) d" using recounted_at [OF assms(1,2)] cd(3) by (rule same_state_trans)
  moreover have "touches first now i d os os''" using assms(1) by (intro touches_trans [OF cd(1,2)]) (simp add: settled_def)
  ultimately show ?thesis using assms(2,3) unfolding recounted_def by metis
qed

lemma recounted_refl: "settled first now i os \<Longrightarrow> recounted first now i os os"
  using recounted_put [of first now i os "os_baskets os ! i" os] by (simp add: put_basket_def)

lemma best_one_recounted:
  assumes "settled first now i os"
  shows "recounted first now i os (note_best_one i now result os)"
proof -
  have "recounted first now i os (put_basket i ((os_baskets os ! i)\<lparr>bk_best_one := w\<rparr>) os)" for w
    using assms by (rule recounted_put) (simp_all add: same_state_def same_clock_def)
  then show ?thesis using recounted_refl [OF assms] by (simp add: note_best_one_def Let_def split: option.split)
qed

definition evaluated_basket :: "int \<Rightarrow> int \<Rightarrow> nat \<Rightarrow> observation \<Rightarrow> observation \<Rightarrow> bool" where
  "evaluated_basket first now i os os' \<longleftrightarrow>
     (\<exists>b'. touches first now i b' os os' \<and> succeeds first now (os_baskets os ! i) b' \<and>
        announced (os_baskets os ! i) now (os_signals os) (os_signals os'))"

lemma recounted_evaluated:
  assumes "settled first now i os" and "recounted first now i os os1" and "evaluated_basket first now i os1 os2"
  shows "evaluated_basket first now i os os2"
proof -
  obtain b' where b': "touches first now i b' os1 os2" "succeeds first now (os_baskets os1 ! i) b'"
    "announced (os_baskets os1 ! i) now (os_signals os1) (os_signals os2)" using assms(3) by (auto simp: evaluated_basket_def)
  obtain c where c: "touches first now i c os os1" "os_signals os1 = os_signals os" using assms(2) by (auto simp: recounted_def)
  note same = recounted_at [OF assms(1,2)]
  show ?thesis
    unfolding evaluated_basket_def
    using touches_trans [OF c(1) b'(1)] same_state_succeeds [OF same b'(2)] b'(3) same_state_announced [OF same] c(2) assms(1)
    by (auto simp: settled_def)
qed

lemma unavailable_evaluated:
  assumes "settled first now i os" and "linked (os_baskets os ! i)" and "\<not> eligible_status reason"
  shows "yields observation_error (evaluated_basket first now i os) (unavailable cfg now reason i os)"
  using unavailable_succeeds [OF assms] by (rule yields_mono) (auto simp: evaluated_basket_def announced_def)

text \<open>An episode opened or closed as the result says, then its status.\<close>

lemma quote_evaluated:
  assumes "settled first now i os" and "linked (os_baskets os ! i)"
  shows "yields observation_error (\<lambda>(left, os'). evaluated_basket first now i os os')
    (and_then
      (case br_quote result of
         None \<Rightarrow> close_basket cfg i now (Some (classify result)) False os
       | Some q \<Rightarrow> positive_quote cfg i now (make_witness q (os_baskets os ! i) now os) os) (\<lambda>os.
    and_then (set_status i (classify result) now os) (\<lambda>os.
      Inr (budget, put_basket i ((os_baskets os ! i)\<lparr>bk_eligible_before := True\<rparr>) os))))"
proof -
  let ?b = "os_baskets os ! i"
  let ?Q = "\<lambda>os1. \<exists>c. touches first now i c os os1 \<and> same_clock ?b c \<and> (bk_active c \<longleftrightarrow> classify result = Quote_Positive) \<and>
      episodes_paired c \<and> announced ?b now (os_signals os) (os_signals os1)"
  have paired: "episodes_paired ?b" using assms(2) by (simp add: linked_def)
  have "yields observation_error ?Q (case br_quote result of
         None \<Rightarrow> close_basket cfg i now (Some (classify result)) False os
       | Some q \<Rightarrow> positive_quote cfg i now (make_witness q ?b now os) os)"
  proof (cases "br_quote result")
    case None
    then have "classify result \<noteq> Quote_Positive" by (simp add: classify_def)
    then have "yields observation_error ?Q (close_basket cfg i now (Some (classify result)) False os)"
      using closed_basket_paired [OF paired] by (intro yields_mono [OF close_touches [OF assms(1)]]) (auto simp: announced_def)
    with None show ?thesis by simp
  next
    case (Some q)
    then have "classify result = Quote_Positive" by (simp add: classify_def)
    then have "yields observation_error ?Q (positive_quote cfg i now w os)" for w
      by (intro yields_mono [OF positive_quote_touches [OF assms(1) paired]]) (auto simp: opened_def)
    with Some show ?thesis by simp
  qed
  then show ?thesis
  proof (rule yields_and_then)
    fix os1
    assume "?Q os1"
    then obtain c where c: "touches first now i c os os1" "same_clock ?b c" "bk_active c \<longleftrightarrow> classify result = Quote_Positive"
      "episodes_paired c" "announced ?b now (os_signals os) (os_signals os1)" by blast
    have at: "os_baskets os1 ! i = c" by (rule touched [OF assms(1) c(1)])
    have clock: "clocked first now ?b" "clocked first now c"
      using assms(1) same_clock_clocked [OF c(2)] by (simp_all add: settled_def)
    have "eligible_status (classify result)" by (simp add: classify_def)
    then have "yields observation_error (\<lambda>os'. \<exists>b'. touches first now i b' os1 os' \<and> succeeds first now ?b b' \<and> os_signals os' = os_signals os1)
      (and_then (set_status i (classify result) now os1) (\<lambda>os. Inr (put_basket i ((os_baskets os ! i)\<lparr>bk_eligible_before := True\<rparr>) os)))"
      using c(2-4) clock by (intro set_status_succeeds settled_touches [OF assms(1) c(1)]) (simp_all add: at)
    moreover have step: "touches first now i d os1 os' \<Longrightarrow> touches first now i d os os'" for d os'
      using touches_trans [OF c(1)] assms(1) by (simp add: settled_def)
    ultimately show "yields observation_error (\<lambda>(left, os'). evaluated_basket first now i os os')
      (and_then (set_status i (classify result) now os1) (\<lambda>os. Inr (budget, put_basket i ((os_baskets os ! i)\<lparr>bk_eligible_before := True\<rparr>) os)))"
    proof (cases "set_status i (classify result) now os1")
      case (Inr os2)
      assume "yields observation_error (\<lambda>os'. \<exists>b'. touches first now i b' os1 os' \<and> succeeds first now ?b b' \<and> os_signals os' = os_signals os1)
        (and_then (set_status i (classify result) now os1) (\<lambda>os. Inr (put_basket i ((os_baskets os ! i)\<lparr>bk_eligible_before := True\<rparr>) os)))"
      then obtain b' where b': "touches first now i b' os1 (put_basket i ((os_baskets os2 ! i)\<lparr>bk_eligible_before := True\<rparr>) os2)"
        "succeeds first now ?b b'" "os_signals (put_basket i ((os_baskets os2 ! i)\<lparr>bk_eligible_before := True\<rparr>) os2) = os_signals os1"
        using Inr by auto
      have "evaluated_basket first now i os (put_basket i ((os_baskets os2 ! i)\<lparr>bk_eligible_before := True\<rparr>) os2)"
        unfolding evaluated_basket_def b'(3) using step [OF b'(1)] b'(2) c(5) by blast
      then show ?thesis by (simp add: Inr)
    qed simp
  qed
qed

lemma blocked_ineligible: "blocked_by ms = Some reason \<Longrightarrow> \<not> eligible_status reason"
  by (induction ms) (auto split: if_splits)

lemma evaluate_succeeds:
  assumes "settled first now i os" and "linked (os_baskets os ! i)"
  shows "yields observation_error (\<lambda>(left, os'). evaluated_basket first now i os os') (evaluate_basket cfg now i (budget, os))"
proof -
  let ?b = "os_baskets os ! i"
  define os1 where "os1 = put_basket i (?b\<lparr>bk_evaluations := bk_evaluations ?b + 1\<rparr>) (os\<lparr>os_evaluations := os_evaluations os + 1\<rparr>)"
  have re1: "recounted first now i os os1"
    unfolding os1_def using assms(1) by (rule recounted_put [where n = "os_evaluations os + 1"]) (simp_all add: same_state_def same_clock_def)
  have ok1: "settled first now i os1" "linked (os_baskets os1 ! i)"
    using re1 recounted_at [OF assms(1) re1] assms(2) same_state_linked by (auto simp: recounted_def)
  have rest: "yields observation_error (\<lambda>(left, os'). evaluated_basket first now i os os') r"
    if "recounted first now i os os2" "yields observation_error (\<lambda>(left, os'). evaluated_basket first now i os2 os') r" for os2 r
    using that(2) by (rule yields_mono) (use recounted_evaluated [OF assms(1) that(1)] in auto)
  show ?thesis
  proof (cases "blocked_by (map (\<lambda>k. os_markets os1 ! k) (bk_markets (os_baskets os ! i)))")
    case (Some reason)
    have "yields observation_error (evaluated_basket first now i os1) (unavailable cfg now reason i os1)"
      using ok1 blocked_ineligible [OF Some] by (rule unavailable_evaluated)
    then have "yields observation_error (\<lambda>(left, os'). evaluated_basket first now i os1 os')
        (and_then (unavailable cfg now reason i os1) (\<lambda>os. Inr (budget, os)))"
      by (rule yields_and_then) simp
    then show ?thesis using rest [OF re1] Some by (simp add: evaluate_basket_def Let_def os1_def)
  next
    case None
    define limits where "limits = oc_limits cfg"
    define result where "result = size_buy_basket (legs_of (os_baskets os ! i) os1)
      (limits\<lparr>sl_max_evaluations := min budget (sl_max_evaluations limits)\<rparr>)"
    define os2 where "os2 = put_basket i ((os_baskets os1 ! i)\<lparr>bk_quantities := bk_quantities (os_baskets os1 ! i) + br_evaluated_quantities result\<rparr>)
      (os1\<lparr>os_quantities := os_quantities os1 + br_evaluated_quantities result\<rparr>)"
    define os3 where "os3 = note_best_one i now result os2"
    have re2: "recounted first now i os1 os2"
      unfolding os2_def using ok1(1)
      by (rule recounted_put [where n = "os_quantities os1 + br_evaluated_quantities result"]) (simp_all add: same_state_def same_clock_def)
    then have re3: "recounted first now i os1 os3"
      unfolding os3_def by (intro recounted_trans [OF ok1(1) re2] best_one_recounted) (simp add: recounted_def)
    have ok3: "settled first now i os3" "linked (os_baskets os3 ! i)"
      using re3 recounted_at [OF ok1(1) re3] ok1(2) same_state_linked by (auto simp: recounted_def)
    let ?failed = "br_status result = Search_Budget_Exceeded \<or> br_status result = Invalid_Input \<or> br_status result = Arithmetic_Error"
    have eq: "evaluate_basket cfg now i (budget, os) =
      (if budget = 0 then Inl ''basket update evaluation budget exceeded''
       else if ?failed then Inl ''basket sizing incomplete or invalid''
       else and_then
         (case br_quote result of
            None \<Rightarrow> close_basket cfg i now (Some (classify result)) False os3
          | Some q \<Rightarrow> positive_quote cfg i now (make_witness q (os_baskets os3 ! i) now os3) os3) (\<lambda>os.
        and_then (set_status i (classify result) now os) (\<lambda>os.
          Inr (budget - br_evaluated_quantities result, put_basket i ((os_baskets os ! i)\<lparr>bk_eligible_before := True\<rparr>) os))))"
      unfolding evaluate_basket_def Let_def prod.case os1_def [symmetric] limits_def [symmetric] None option.case
        result_def [symmetric] os2_def [symmetric] os3_def [symmetric] by (rule refl)
    show ?thesis
      unfolding eq using rest [OF recounted_trans [OF assms(1) re1 re3] quote_evaluated [OF ok3, where result = result and cfg = cfg
        and budget = "budget - br_evaluated_quantities result"]]
      by (auto simp: observation_error_def)
  qed
qed


subsection \<open>The invariant of the observation\<close>

text \<open>
  At a time, every basket is accounted for and agrees with its episodes, the active ones are counted,
  and the union covers each basket's positive time and no more than all of them together.
\<close>

definition in_step :: "int \<Rightarrow> int \<Rightarrow> observation \<Rightarrow> bool" where
  "in_step first now os \<longleftrightarrow> os_first_time os = Some first \<and> time_range first now \<and> union_clocked first now os \<and>
     length (os_baskets os) \<le> 100 \<and> (\<forall>b \<in> set (os_baskets os). clocked first now b \<and> linked b) \<and>
     os_active os = of_nat (length (filter bk_active (os_baskets os))) \<and>
     (\<forall>b \<in> set (os_baskets os). positive_time now b \<le> union_time now os) \<and>
     union_time now os \<le> sum_list (map (positive_time now) (os_baskets os))"

definition unmoved :: "observation \<Rightarrow> observation \<Rightarrow> bool" where
  "unmoved os os' \<longleftrightarrow> os_first_time os' = os_first_time os \<and> os_last_time os' = os_last_time os \<and> os_deadline os' = os_deadline os \<and>
     os_expired os' = os_expired os \<and> os_finished os' = os_finished os \<and> os_markets os' = os_markets os \<and>
     map bk_id (os_baskets os') = map bk_id (os_baskets os)"

definition advances :: "observation \<Rightarrow> observation \<Rightarrow> bool" where
  "advances os os' \<longleftrightarrow> unmoved os os' \<and>
     (\<exists>new. os_signals os' = os_signals os @ new \<and> (\<forall>ep \<in> set new. ep_basket_id ep \<in> bk_id ` set (os_baskets os)))"

lemma advances_refl [simp]: "advances os os"
  by (simp add: advances_def unmoved_def)

lemma advances_length: "advances os os' \<Longrightarrow> length (os_baskets os') = length (os_baskets os)"
  by (metis advances_def unmoved_def length_map)

lemma advances_trans: "advances os os' \<Longrightarrow> advances os' os'' \<Longrightarrow> advances os os''"
proof -
  assume steps: "advances os os'" "advances os' os''"
  have "set (map bk_id (os_baskets os')) = set (map bk_id (os_baskets os))" using steps(1) by (simp only: advances_def unmoved_def)
  then have ids: "bk_id ` set (os_baskets os') = bk_id ` set (os_baskets os)" by simp
  obtain new1 where new1: "os_signals os' = os_signals os @ new1" "\<forall>ep \<in> set new1. ep_basket_id ep \<in> bk_id ` set (os_baskets os)"
    using steps(1) unfolding advances_def by blast
  obtain new2 where new2: "os_signals os'' = os_signals os' @ new2" "\<forall>ep \<in> set new2. ep_basket_id ep \<in> bk_id ` set (os_baskets os')"
    using steps(2) unfolding advances_def by blast
  have "\<exists>new. os_signals os'' = os_signals os @ new \<and> (\<forall>ep \<in> set new. ep_basket_id ep \<in> bk_id ` set (os_baskets os))"
    using new1 new2 unfolding ids by (intro exI [of _ "new1 @ new2"]) auto
  moreover have "unmoved os os'" "unmoved os' os''" using steps unfolding advances_def by blast+
  then have "unmoved os os''" by (simp add: unmoved_def)
  ultimately show "advances os os''" unfolding advances_def by blast
qed

lemma touches_advances:
  assumes "touches first now i b' os os'" and "i < length (os_baskets os)" and "bk_id b' = bk_id (os_baskets os ! i)"
    and "announced (os_baskets os ! i) now (os_signals os) (os_signals os')"
  shows "advances os os'"
proof -
  have "map bk_id (os_baskets os') = map bk_id (os_baskets os)"
    using assms(1-3) by (simp add: touches_def map_update list_update_same_conv)
  moreover have "\<exists>new. os_signals os' = os_signals os @ new \<and> (\<forall>ep \<in> set new. ep_basket_id ep \<in> bk_id ` set (os_baskets os))"
    using assms(2,4) by (auto simp: announced_def)
  ultimately show ?thesis using assms(1) by (simp add: advances_def unmoved_def touches_def)
qed

lemma filter_update:
  assumes "i < length xs"
  shows "(of_nat (length (filter P (xs[i := y]))) :: u64) = of_nat (length (filter P xs)) - of_bool (P (xs ! i)) + of_bool (P y)"
proof -
  have "filter P xs = filter P (take i xs @ xs ! i # drop (Suc i) xs)" by (simp only: id_take_nth_drop [OF assms, symmetric])
  then have "length (filter P xs) = length (filter P (take i xs)) + of_bool (P (xs ! i)) + length (filter P (drop (Suc i) xs))"
    by simp
  moreover have "length (filter P (xs[i := y])) = length (filter P (take i xs)) + of_bool (P y) + length (filter P (drop (Suc i) xs))"
    using assms by (simp add: upd_conv_take_nth_drop)
  ultimately show ?thesis by simp
qed

lemma in_step_settled: "in_step first now os \<Longrightarrow> i < length (os_baskets os) \<Longrightarrow> settled first now i os \<and> linked (os_baskets os ! i)"
  by (simp add: in_step_def settled_def)

lemma in_step_touches:
  assumes "in_step first now os" and "i < length (os_baskets os)" and "touches first now i b' os os'"
    and "succeeds first now (os_baskets os ! i) b'"
  shows "in_step first now os'"
proof -
  have baskets: "os_baskets os' = (os_baskets os)[i := b']" and union: "union_time now os' = union_time now os"
    using assms(3) by (simp_all add: touches_def)
  have "map (positive_time now) (os_baskets os') = (map (positive_time now) (os_baskets os))[i := positive_time now b']"
    by (simp add: baskets map_update)
  also have "\<dots> = map (positive_time now) (os_baskets os)"
    using assms(2,4) by (simp add: succeeds_def list_update_same_conv)
  finally have positive: "map (positive_time now) (os_baskets os') = map (positive_time now) (os_baskets os)" .
  have "\<forall>t \<in> set (map (positive_time now) (os_baskets os')). t \<le> union_time now os'"
    unfolding positive union using assms(1) by (simp add: in_step_def)
  moreover have "\<forall>b \<in> set (os_baskets os'). clocked first now b \<and> linked b"
    using assms(1,2,4) set_update_subset_insert [of "os_baskets os" i b'] by (auto simp: baskets in_step_def succeeds_def)
  moreover have "os_active os' = of_nat (length (filter bk_active (os_baskets os')))"
    unfolding baskets filter_update [OF assms(2)] using assms(1,3) by (simp add: in_step_def touches_def)
  ultimately show ?thesis
    using assms(1,3) positive union baskets by (simp add: in_step_def touches_def)
qed

lemma unavailable_in_step:
  assumes "in_step first now os" and "i < length (os_baskets os)" and "\<not> eligible_status reason"
  shows "yields observation_error (\<lambda>os'. in_step first now os' \<and> advances os os') (unavailable cfg now reason i os)"
proof -
  have ok: "settled first now i os" "linked (os_baskets os ! i)" using in_step_settled [OF assms(1,2)] by simp_all
  show ?thesis
    using unavailable_succeeds [OF ok assms(3)]
  proof (rule yields_mono, elim exE conjE)
    fix os' b'
    assume b': "touches first now i b' os os'" "succeeds first now (os_baskets os ! i) b'" "os_signals os' = os_signals os"
    have "advances os os'" using b' by (intro touches_advances [OF b'(1) assms(2)]) (simp_all add: succeeds_def announced_def)
    then show "in_step first now os' \<and> advances os os'" using in_step_touches [OF assms(1,2) b'(1,2)] by simp
  qed
qed

lemma evaluate_in_step:
  assumes "in_step first now os" and "i < length (os_baskets os)"
  shows "yields observation_error (\<lambda>(left, os'). in_step first now os' \<and> advances os os') (evaluate_basket cfg now i (budget, os))"
proof -
  have ok: "settled first now i os" "linked (os_baskets os ! i)" using in_step_settled [OF assms(1,2)] by simp_all
  have "in_step first now os' \<and> advances os os'" if evaluated: "evaluated_basket first now i os os'" for os'
  proof -
    obtain b' where b': "touches first now i b' os os'" "succeeds first now (os_baskets os ! i) b'"
      "announced (os_baskets os ! i) now (os_signals os) (os_signals os')" using evaluated by (auto simp: evaluated_basket_def)
    have "advances os os'" using b' by (intro touches_advances [OF b'(1) assms(2)]) (simp_all add: succeeds_def)
    then show ?thesis using in_step_touches [OF assms(1,2) b'(1,2)] by simp
  qed
  then show ?thesis by (intro yields_mono [OF evaluate_succeeds [OF ok]]) auto
qed

lemma unavailable_all:
  assumes "in_step first now os" and "\<forall>i \<in> set is. i < length (os_baskets os)" and "\<not> eligible_status reason"
  shows "yields observation_error (\<lambda>os'. in_step first now os' \<and> advances os os') (and_fold (unavailable cfg now reason) is os)"
proof (rule yields_fold)
  fix i os1
  assume "i \<in> set is" and os1: "in_step first now os1 \<and> advances os os1"
  then have "yields observation_error (\<lambda>os'. in_step first now os' \<and> advances os1 os') (unavailable cfg now reason i os1)"
    using assms(2,3) advances_length [of os os1] by (intro unavailable_in_step) auto
  then show "yields observation_error (\<lambda>os'. in_step first now os' \<and> advances os os') (unavailable cfg now reason i os1)"
    by (rule yields_mono) (use os1 advances_trans in blast)
qed (simp add: assms(1))

lemma evaluate_all:
  assumes "in_step first now os" and "\<forall>i \<in> set is. i < length (os_baskets os)"
  shows "yields observation_error (\<lambda>(left :: u64, os'). in_step first now os' \<and> advances os os') (and_fold (evaluate_basket cfg now) is (budget, os))"
proof (rule yields_fold)
  fix i and s :: "u64 \<times> observation"
  assume i: "i \<in> set is" and s: "case s of (left, os1) \<Rightarrow> in_step first now os1 \<and> advances os os1"
  obtain left :: u64 and os1 where s_eq: "s = (left, os1)" by (cases s)
  have os1: "in_step first now os1" "advances os os1" using s by (simp_all add: s_eq)
  then have "yields observation_error (\<lambda>(left, os'). in_step first now os' \<and> advances os1 os') (evaluate_basket cfg now i (left, os1))"
    using i assms(2) advances_length [of os os1] by (intro evaluate_in_step) auto
  then show "yields observation_error (\<lambda>(left, os'). in_step first now os' \<and> advances os os') (evaluate_basket cfg now i s)"
    unfolding s_eq by (rule yields_mono) (use os1(2) advances_trans in blast)
qed (simp add: assms(1))


subsection \<open>Moving the clock\<close>

lemma active_none: "length bs \<le> 100 \<Longrightarrow> (of_nat (length (filter bk_active bs)) :: u64) = 0 \<longleftrightarrow> (\<forall>b \<in> set bs. \<not> bk_active b)"
proof -
  assume bound: "length bs \<le> 100"
  have "length (filter bk_active bs) \<le> 100" using length_filter_le [of bk_active bs] bound by linarith
  then have "unat (of_nat (length (filter bk_active bs)) :: u64) = length (filter bk_active bs)"
    by (simp add: unat_of_nat)
  then have "(of_nat (length (filter bk_active bs)) :: u64) = 0 \<longleftrightarrow> filter bk_active bs = []"
    by (metis length_0_conv unat_eq_zero)
  then show ?thesis by (simp add: filter_empty_conv)
qed

lemma positive_time_later:
  assumes "clocked first now b" and "linked b" and "now \<le> later"
  shows "positive_time later b = positive_time now b + (if bk_active b then nat (later - now) else 0)"
proof -
  have "nat (later - bk_status_since b) = nat (now - bk_status_since b) + nat (later - now)"
    using assms(1,3) by (simp add: clocked_def flip: nat_add_distrib)
  then show ?thesis using assms(2) by (simp add: positive_time_def linked_def)
qed

lemma sum_positive_later:
  "\<forall>b \<in> set bs. positive_time later b = positive_time now b + (if bk_active b then d else 0) \<Longrightarrow>
     sum_list (map (positive_time later) bs) = sum_list (map (positive_time now) bs) + d * length (filter bk_active bs)"
  by (induction bs) (auto simp: algebra_simps)

lemma in_step_later:
  assumes "in_step first now os" and "now \<le> later" and "later \<le> 9223372036854775807"
  shows "in_step first later os"
proof -
  let ?bs = "os_baskets os" and ?d = "nat (later - now)"
  have base: "time_range first now" "union_clocked first now os" "length ?bs \<le> 100"
    "\<forall>b \<in> set ?bs. clocked first now b \<and> linked b" "os_active os = of_nat (length (filter bk_active ?bs))"
    "\<forall>b \<in> set ?bs. positive_time now b \<le> union_time now os" "union_time now os \<le> sum_list (map (positive_time now) ?bs)"
    using assms(1) by (simp_all add: in_step_def)
  have none: "os_active os = 0 \<longleftrightarrow> (\<forall>b \<in> set ?bs. \<not> bk_active b)" using active_none [OF base(3)] base(5) by simp
  have each: "\<forall>b \<in> set ?bs. positive_time later b = positive_time now b + (if bk_active b then ?d else 0)"
    using base(4) positive_time_later assms(2) by blast
  have "nat (later - os_union_since os) = nat (now - os_union_since os) + ?d"
    using base(2) assms(2) by (simp add: union_clocked_def flip: nat_add_distrib)
  then have union: "union_time later os = union_time now os + (if os_active os \<noteq> 0 then ?d else 0)"
    by (simp add: union_time_def)
  have "\<forall>b \<in> set ?bs. positive_time later b \<le> union_time later os"
    using each base(6) none unfolding union by (auto split: if_splits)
  moreover have "union_time later os \<le> sum_list (map (positive_time later) ?bs)"
  proof (cases "os_active os = 0")
    case True
    then show ?thesis unfolding sum_positive_later [OF each] union using base(7) by simp
  next
    case False
    then have "filter bk_active ?bs \<noteq> []" using none by (simp add: filter_empty_conv)
    then have "?d * 1 \<le> ?d * length (filter bk_active ?bs)" by (intro mult_le_mono) (simp_all add: Suc_le_eq)
    then have "?d \<le> ?d * length (filter bk_active ?bs)" by (simp only: mult_1_right)
    with base(7) have "union_time now os + ?d \<le> sum_list (map (positive_time now) ?bs) + ?d * length (filter bk_active ?bs)"
      by (rule add_mono)
    then show ?thesis unfolding sum_positive_later [OF each] union using False by (simp only: if_True simp_thms)
  qed
  moreover have "\<forall>b \<in> set ?bs. clocked first later b \<and> linked b" using base(4) assms(2) by (auto simp: clocked_def)
  ultimately show ?thesis
    using assms base by (auto simp: in_step_def time_range_def union_clocked_def)
qed

text \<open>An observation before its first record.\<close>

definition pristine :: "observation \<Rightarrow> bool" where
  "pristine os \<longleftrightarrow> os_first_time os = None \<and> os_last_time os = None \<and> os_deadline os = None \<and> \<not> os_expired os \<and>
     os_active os = 0 \<and> os_positive_union os = 0 \<and> length (os_baskets os) \<le> 100 \<and>
     (\<forall>b \<in> set (os_baskets os). \<exists>i key ms. b = new_basket i key ms)"

lemma new_basket_clock:
  "all_time (new_basket i key ms) = 0" "linked (new_basket i key ms)" "bk_active (new_basket i key ms) = False"
  "bk_status (new_basket i key ms) = Book_Unavailable" "unat (bk_durations (new_basket i key ms) status) = 0"
  by (simp_all add: new_basket_def all_time_def all_statuses_def linked_def episodes_paired_def)

lemma begin_first:
  assumes "pristine os" and "0 \<le> fr_time frame" and "fr_time frame \<le> 9223372036854775807"
  shows "in_step (fr_time frame) (fr_time frame) (begin_record frame os)"
proof -
  let ?t = "fr_time frame"
  let ?bs = "map (\<lambda>b. b\<lparr>bk_status_since := ?t\<rparr>) (os_baskets os)"
  have "clocked ?t ?t b \<and> linked b \<and> \<not> bk_active b \<and> positive_time ?t b = 0" if mem: "b \<in> set ?bs" for b
  proof -
    obtain c where c: "c \<in> set (os_baskets os)" "b = c\<lparr>bk_status_since := ?t\<rparr>" using mem by auto
    obtain i key ms where "c = new_basket i key ms" using c(1) assms(1) unfolding pristine_def by blast
    then have b: "b = (new_basket i key ms)\<lparr>bk_status_since := ?t\<rparr>" using c(2) by simp
    show ?thesis using new_basket_clock [of i key ms]
      by (simp add: b clocked_def all_time_def linked_def episodes_paired_def positive_time_def)
  qed
  moreover from this have "filter bk_active ?bs = []" by (auto simp: filter_empty_conv)
  moreover have "os_first_time (begin_record frame os) = Some ?t" "os_baskets (begin_record frame os) = ?bs"
    "os_active (begin_record frame os) = 0" "os_positive_union (begin_record frame os) = 0" "os_union_since (begin_record frame os) = ?t"
    "length ?bs \<le> 100"
    using assms(1) by (simp_all add: begin_record_def Let_def pristine_def)
  ultimately show ?thesis
    using assms(2,3) by (simp add: in_step_def time_range_def union_clocked_def union_time_def)
qed

lemma in_step_cong:
  assumes "os_first_time os' = os_first_time os" and "os_baskets os' = os_baskets os" and "os_active os' = os_active os"
    and "os_positive_union os' = os_positive_union os" and "os_union_since os' = os_union_since os"
  shows "in_step first now os' = in_step first now os"
  using assms by (simp add: in_step_def union_clocked_def union_time_def)

lemma begin_later: "in_step first now os \<Longrightarrow> in_step first now (begin_record frame os)"
  by (subst in_step_cong [where os = os]) (simp_all add: begin_record_def Let_def in_step_def)


subsection \<open>The observer keeps the invariant\<close>

text \<open>What a call leaves as it was: the baskets by name, the dependencies, and the episodes announced before.\<close>

definition follows :: "observation \<Rightarrow> observation \<Rightarrow> bool" where
  "follows os os' \<longleftrightarrow> map bk_id (os_baskets os') = map bk_id (os_baskets os) \<and>
     map cm_dependencies (os_markets os') = map cm_dependencies (os_markets os) \<and>
     (\<exists>new. os_signals os' = os_signals os @ new \<and> (\<forall>ep \<in> set new. ep_basket_id ep \<in> bk_id ` set (os_baskets os)))"

lemma follows_same:
  "map bk_id (os_baskets os') = map bk_id (os_baskets os) \<Longrightarrow> map cm_dependencies (os_markets os') = map cm_dependencies (os_markets os) \<Longrightarrow>
     os_signals os' = os_signals os \<Longrightarrow> follows os os'"
  by (simp add: follows_def)

lemma advances_follows: "advances os os' \<Longrightarrow> follows os os'"
  unfolding advances_def follows_def unmoved_def by simp

lemma follows_trans:
  assumes "follows os os'" and "follows os' os''"
  shows "follows os os''"
proof -
  have "set (map bk_id (os_baskets os')) = set (map bk_id (os_baskets os))" using assms(1) by (simp only: follows_def)
  then have ids: "bk_id ` set (os_baskets os') = bk_id ` set (os_baskets os)" by simp
  obtain new1 where new1: "os_signals os' = os_signals os @ new1" "\<forall>ep \<in> set new1. ep_basket_id ep \<in> bk_id ` set (os_baskets os)"
    using assms(1) unfolding follows_def by blast
  obtain new2 where new2: "os_signals os'' = os_signals os' @ new2" "\<forall>ep \<in> set new2. ep_basket_id ep \<in> bk_id ` set (os_baskets os')"
    using assms(2) unfolding follows_def by blast
  have "\<exists>new. os_signals os'' = os_signals os @ new \<and> (\<forall>ep \<in> set new. ep_basket_id ep \<in> bk_id ` set (os_baskets os))"
    using new1 new2 unfolding ids by (intro exI [of _ "new1 @ new2"]) auto
  moreover have "map bk_id (os_baskets os'') = map bk_id (os_baskets os)" "map cm_dependencies (os_markets os'') = map cm_dependencies (os_markets os)"
    using assms by (simp_all only: follows_def)
  ultimately show ?thesis unfolding follows_def by blast
qed

definition dependencies_ok :: "observation \<Rightarrow> bool" where
  "dependencies_ok os \<longleftrightarrow> (\<forall>ds \<in> set (map cm_dependencies (os_markets os)). \<forall>i \<in> set ds. i < length (map bk_id (os_baskets os)))"

lemma follows_dependencies: "follows os os' \<Longrightarrow> dependencies_ok os \<Longrightarrow> dependencies_ok os'"
  unfolding dependencies_ok_def follows_def by simp

lemma dependencies_at: "dependencies_ok os \<Longrightarrow> k < length (os_markets os) \<Longrightarrow> \<forall>i \<in> set (cm_dependencies (os_markets os ! k)). i < length (os_baskets os)"
  unfolding dependencies_ok_def using nth_mem [of k "os_markets os"] by auto

text \<open>The state between calls: nothing recorded yet, or in step with the last call, with the deadline ahead.\<close>

definition observation_ok :: "int \<Rightarrow> observation \<Rightarrow> bool" where
  "observation_ok now os \<longleftrightarrow> dependencies_ok os \<and>
     (pristine os \<or>
      (\<exists>first. in_step first now os) \<and> (case os_last_time os of None \<Rightarrow> False | Some t \<Rightarrow> t \<le> now) \<and>
        (os_expired os \<or> (case os_deadline os of None \<Rightarrow> False | Some d \<Rightarrow> now < d)))"

lemma expire_in_step:
  assumes "in_step first now os"
  shows "yields observation_error (\<lambda>os'. in_step first now os' \<and> follows os os' \<and> os_expired os' \<and> os_last_time os' = os_last_time os \<and>
      os_finished os' = os_finished os) (expire cfg now os)"
proof -
  let ?os = "os\<lparr>os_expired := True, os_deadline := None\<rparr>"
  have "in_step first now ?os" using assms by (subst in_step_cong [where os = os]) simp_all
  then have all: "yields observation_error (\<lambda>os'. in_step first now os' \<and> advances ?os os')
      (and_fold (unavailable cfg now Policy_Expired) [0 ..< length (os_baskets os)] ?os)"
    by (rule unavailable_all) simp_all
  have "follows os ?os" by (simp add: follows_same)
  then show ?thesis
    unfolding expire_def using all follows_trans advances_follows
    by (elim yields_mono) (auto simp: advances_def unmoved_def)
qed

lemma before_ok:
  assumes ok: "observation_ok now os" and times: "now \<le> time" "0 \<le> time" "time \<le> 9223372036854775807"
  shows "yields observation_error (\<lambda>os'. observation_ok time os' \<and> follows os os' \<and> os_finished os' = os_finished os)
    (observation_before cfg time os)"
proof (cases "pristine os")
  case True
  then have "observation_ok time os" using ok by (simp add: observation_ok_def)
  then show ?thesis using True times(2) by (simp add: observation_before_def pristine_def follows_same)
next
  case False
  then obtain first t where st: "in_step first now os" "os_last_time os = Some t" "t \<le> now"
    "os_expired os \<or> (case os_deadline os of None \<Rightarrow> False | Some d \<Rightarrow> now < d)" and deps: "dependencies_ok os"
    using ok by (auto simp: observation_ok_def split: option.splits)
  have later: "in_step first time os" using in_step_later [OF st(1) times(1,3)] .
  show ?thesis
  proof (cases "\<exists>d. os_deadline os = Some d \<and> d \<le> time \<and> \<not> os_expired os")
    case True
    then obtain d where d: "os_deadline os = Some d" "d \<le> time" "\<not> os_expired os" by blast
    then have "now < d" using st(4) by simp
    then have "in_step first d os" using d(2) times(3) by (intro in_step_later [OF st(1)]) simp_all
    then have "yields observation_error (\<lambda>os'. in_step first d os' \<and> follows os os' \<and> os_expired os' \<and> os_last_time os' = os_last_time os \<and>
        os_finished os' = os_finished os) (expire cfg d os)"
      by (rule expire_in_step)
    then have "yields observation_error (\<lambda>os'. observation_ok time os' \<and> follows os os' \<and> os_finished os' = os_finished os) (expire cfg d os)"
      using in_step_later d(2) times st(2,3) follows_dependencies deps
      by (elim yields_mono) (fastforce simp: observation_ok_def)
    then show ?thesis using d st(2,3) times by (simp add: observation_before_def)
  next
    case False
    then have "observation_before cfg time os = Inr os"
      using st(2,3) times by (auto simp: observation_before_def split: option.splits)
    moreover have "observation_ok time os"
      using later st False times deps by (auto simp: observation_ok_def split: option.splits)
    ultimately show ?thesis by (simp add: follows_same)
  qed
qed

definition recorded :: "int \<Rightarrow> int \<Rightarrow> observation \<Rightarrow> bool" where
  "recorded first now os \<longleftrightarrow> in_step first now os \<and> os_last_time os = Some now \<and> dependencies_ok os \<and>
     (os_expired os \<or> (case os_deadline os of None \<Rightarrow> False | Some d \<Rightarrow> now < d))"

lemma recorded_ok: "recorded first now os \<Longrightarrow> observation_ok now os"
  by (auto simp: recorded_def observation_ok_def)

lemma recorded_advances: "recorded first now os \<Longrightarrow> in_step first now os' \<Longrightarrow> advances os os' \<Longrightarrow> recorded first now os'"
  using follows_dependencies [OF advances_follows [of os os']] by (simp add: recorded_def advances_def unmoved_def)

lemma recorded_cong:
  assumes "os_first_time os' = os_first_time os" and "os_baskets os' = os_baskets os" and "os_active os' = os_active os"
    and "os_positive_union os' = os_positive_union os" and "os_union_since os' = os_union_since os"
    and "os_last_time os' = os_last_time os" and "os_expired os' = os_expired os" and "os_deadline os' = os_deadline os"
    and "map cm_dependencies (os_markets os') = map cm_dependencies (os_markets os)"
  shows "recorded first now os' = recorded first now os"
  using in_step_cong [OF assms(1-5)] assms(2,6-9) by (simp add: recorded_def dependencies_ok_def del: list.set_map)

text \<open>A loop that keeps baskets in step, started from a state that differs in its markets.\<close>

lemma recorded_loop:
  assumes "yields observation_error (\<lambda>os'. in_step first now os' \<and> advances os1 os') r" and "recorded first now os1" and "follows os os1"
  shows "yields observation_error (\<lambda>os'. recorded first now os' \<and> follows os os') r"
  using assms(1)
  by (rule yields_mono) (use assms(2,3) recorded_advances advances_follows follows_trans in blast)

lemma begin_recorded:
  assumes "observation_ok now os" and "fr_time frame = now" and "0 \<le> now" and "now \<le> 9223372036854775807"
  shows "\<exists>first. in_step first now (begin_record frame os) \<and> os_last_time (begin_record frame os) = Some now \<and>
    follows os (begin_record frame os) \<and> os_expired (begin_record frame os) = os_expired os \<and>
    (os_expired os \<or> (case os_deadline (begin_record frame os) of None \<Rightarrow> True | Some d \<Rightarrow> now < d))"
proof -
  have ids: "map bk_id (map (\<lambda>b. b\<lparr>bk_status_since := now\<rparr>) bs) = map bk_id bs" for bs by simp
  have same: "os_last_time (begin_record frame os) = Some now" "follows os (begin_record frame os)"
    "os_expired (begin_record frame os) = os_expired os" "os_deadline (begin_record frame os) = os_deadline os"
    using assms(2) ids by (simp_all add: begin_record_def Let_def follows_same)
  show ?thesis
  proof (cases "pristine os")
    case True
    then show ?thesis using same begin_first [of os frame] assms by (auto simp: pristine_def)
  next
    case False
    then obtain first where "in_step first now os" "os_expired os \<or> (case os_deadline os of None \<Rightarrow> False | Some d \<Rightarrow> now < d)"
      using assms(1) by (auto simp: observation_ok_def)
    then show ?thesis using same begin_later [of first now os frame] by (auto split: option.splits)
  qed
qed

lemma window_recorded:
  assumes step: "in_step first now os" and last: "os_last_time os = Some now" and deps: "dependencies_ok os"
    and ahead: "os_expired os \<or> (case os_deadline os of None \<Rightarrow> True | Some d \<Rightarrow> now < d)"
  shows "yields observation_error (\<lambda>os'. recorded first now os' \<and> follows os os' \<and> os_finished os' = os_finished os) (policy_window cfg wall now os)"
proof (cases "oc_valid_until cfg \<le> wall \<and> \<not> os_expired os")
  case True
  have "yields observation_error (\<lambda>os'. recorded first now os' \<and> follows os os' \<and> os_finished os' = os_finished os) (expire cfg now os)"
    using last deps follows_dependencies
    by (intro yields_mono [OF expire_in_step [OF step]]) (auto simp: recorded_def)
  then show ?thesis using True by (simp add: policy_window_def)
next
  case False
  define d where "d = (case os_deadline os of None \<Rightarrow> now + (oc_valid_until cfg - wall) | Some d \<Rightarrow> min d (now + (oc_valid_until cfg - wall)))"
  have rec: "recorded first now (os\<lparr>os_deadline := Some d\<rparr>)" if "\<not> os_expired os"
  proof -
    have "now < d" using ahead that False by (auto simp: d_def split: option.splits)
    moreover have "in_step first now (os\<lparr>os_deadline := Some d\<rparr>)" using step by (subst in_step_cong [where os = os]) simp_all
    ultimately show ?thesis using last deps by (simp add: recorded_def dependencies_ok_def)
  qed
  have "recorded first now os" if "os_expired os" using that step last deps by (simp add: recorded_def)
  then show ?thesis
    using rec False by (auto simp: policy_window_def Let_def follows_same observation_error_def d_def)
qed

lemma connection_recorded:
  assumes "recorded first now os"
  shows "yields observation_error (\<lambda>os'. recorded first now os' \<and> follows os os') (connection_check cfg now state os)"
proof (cases "\<not> ms_connected state \<or> ms_generation state \<noteq> os_generation os")
  case True
  let ?os = "os\<lparr>os_generation := ms_generation state, os_markets := map (\<lambda>m. m\<lparr>cm_valid := False\<rparr>) (os_markets os)\<rparr>"
  have markets: "map cm_dependencies (map (\<lambda>m. m\<lparr>cm_valid := False\<rparr>) ms) = map cm_dependencies ms" for ms by simp
  have "recorded first now ?os" using assms markets by (subst recorded_cong [where os = os]) simp_all
  moreover from this have "yields observation_error (\<lambda>os'. in_step first now os' \<and> advances ?os os')
      (and_fold (unavailable cfg now Book_Unavailable) [0 ..< length (os_baskets os)] ?os)"
    by (intro unavailable_all) (simp_all add: recorded_def)
  moreover have "follows os ?os" using markets by (simp add: follows_same)
  ultimately show ?thesis using True recorded_loop by (simp add: connection_check_def)
next
  case False
  then show ?thesis using assms by (simp add: connection_check_def follows_same)
qed

lemma refill_dependencies [simp]: "cm_dependencies (refill_side cap book side m) = cm_dependencies m"
  by (simp add: refill_side_def Let_def split: prod.split)

lemma update_cache_dependencies [simp]: "cm_dependencies (update_cache cfg now state m) = cm_dependencies m"
  by (simp add: update_cache_def Let_def)

lemma market_recorded:
  assumes "recorded first now os" and "k < length (os_markets os)" and "fr_time frame = now"
  shows "yields observation_error (\<lambda>os'. recorded first now os' \<and> follows os os') (observe_market cfg frame state k os)"
proof -
  let ?m = "os_markets os ! k"
  have deps: "\<forall>i \<in> set (cm_dependencies ?m). i < length (os_baskets os)" using assms dependencies_at by (simp add: recorded_def)
  have same: "map cm_dependencies ((os_markets os)[k := m']) = map cm_dependencies (os_markets os)" if "cm_dependencies m' = cm_dependencies ?m" for m'
    using that assms(2) by (simp add: map_update list_update_same_conv)
  have rec: "recorded first now (os\<lparr>os_markets := (os_markets os)[k := m'], os_book_updates := n\<rparr>)"
    if "cm_dependencies m' = cm_dependencies ?m" for m' n
    by (subst recorded_cong [where os = os]) (simp_all add: assms(1) same [OF that])
  have fol: "follows os (os\<lparr>os_markets := (os_markets os)[k := m'], os_book_updates := n\<rparr>)"
    if "cm_dependencies m' = cm_dependencies ?m" for m' n
    by (simp add: follows_same same [OF that])
  show ?thesis
  proof (cases "fr_applied frame")
    case False
    let ?os = "os\<lparr>os_markets := (os_markets os)[k := ?m\<lparr>cm_valid := False\<rparr>]\<rparr>"
    have rec': "recorded first now ?os" "follows os ?os"
      using rec [of "?m\<lparr>cm_valid := False\<rparr>" "os_book_updates os"] fol [of "?m\<lparr>cm_valid := False\<rparr>" "os_book_updates os"] by simp_all
    then have "yields observation_error (\<lambda>os'. in_step first now os' \<and> advances ?os os')
        (and_fold (unavailable cfg now Book_Unavailable) (cm_dependencies ?m) ?os)"
      using deps by (intro unavailable_all) (simp_all add: recorded_def)
    then show ?thesis
      using False rec' recorded_loop assms(1,3) by (simp add: observe_market_def Let_def follows_same)
  next
    case True
    let ?os = "os\<lparr>os_markets := (os_markets os)[k := update_cache cfg now state ?m], os_book_updates := os_book_updates os + 1\<rparr>"
    have rec': "recorded first now ?os" "follows os ?os" by (simp_all add: rec fol)
    then have all: "yields observation_error (\<lambda>(left :: u64, os'). in_step first now os' \<and> advances ?os os')
        (and_fold (evaluate_basket cfg now) (cm_dependencies ?m) (oc_total_budget cfg, ?os))"
      using deps by (intro evaluate_all) (simp_all add: recorded_def)
    have ends: "recorded first now (os'\<lparr>os_maximum_active := n\<rparr>) \<and> follows os (os'\<lparr>os_maximum_active := n\<rparr>)"
      if "in_step first now os'" "advances ?os os'" for os' n
    proof -
      have r: "recorded first now os'" "follows os os'"
        using recorded_advances [OF rec'(1) that] follows_trans [OF rec'(2) advances_follows [OF that(2)]] by simp_all
      then show ?thesis by (subst recorded_cong [where os = os']) (simp_all add: follows_def)
    qed
    have "yields observation_error (\<lambda>os'. recorded first now os' \<and> follows os os')
        (and_then (and_fold (evaluate_basket cfg now) (cm_dependencies ?m) (oc_total_budget cfg, ?os)) (\<lambda>(budget, os).
          Inr (os\<lparr>os_maximum_active := max (os_maximum_active os) (os_active os)\<rparr>)))"
      by (rule yields_and_then [OF all]) (use ends in auto)
    then show ?thesis using True by (simp add: observe_market_def Let_def assms(3))
  qed
qed

definition indexed :: "observation_config \<Rightarrow> observation \<Rightarrow> bool" where
  "indexed cfg os \<longleftrightarrow> (\<forall>market k. oc_indexes cfg market = Some k \<longrightarrow> k < length (map cm_dependencies (os_markets os)))"

lemma follows_indexed: "follows os os' \<Longrightarrow> indexed cfg os \<Longrightarrow> indexed cfg os'"
  unfolding indexed_def follows_def by simp

lemma after_recorded:
  assumes ok: "observation_ok now os" and cfg: "indexed cfg os"
    and times: "now \<le> fr_time frame" "0 \<le> fr_time frame" "fr_time frame \<le> 9223372036854775807"
  shows "yields observation_error (\<lambda>os'. (\<exists>first. recorded first (fr_time frame) os') \<and> follows os os') (observation_after cfg frame state os)"
  unfolding observation_after_def
proof (rule yields_and_then [OF before_ok [OF ok times]], elim conjE)
  fix os1
  let ?t = "fr_time frame"
  assume os1: "observation_ok ?t os1" "follows os os1"
  obtain first where begun: "in_step first ?t (begin_record frame os1)" "os_last_time (begin_record frame os1) = Some ?t"
    "follows os1 (begin_record frame os1)"
    "os_expired (begin_record frame os1) \<or> (case os_deadline (begin_record frame os1) of None \<Rightarrow> True | Some d \<Rightarrow> ?t < d)"
    using begin_recorded [OF os1(1) refl times(2,3)] by auto
  have deps: "dependencies_ok (begin_record frame os1)"
    using follows_dependencies [OF begun(3)] os1(1) by (simp add: observation_ok_def)
  have to1: "follows os (begin_record frame os1)" by (rule follows_trans [OF os1(2) begun(3)])
  let ?P = "\<lambda>os'. recorded first ?t os' \<and> follows os os'"
  let ?Q = "\<lambda>os'. (\<exists>first. recorded first ?t os') \<and> follows os os'"
  have keep: "yields observation_error ?P r" if "yields observation_error (\<lambda>os'. recorded first ?t os' \<and> follows os2 os') r" "follows os os2" for os2 r
    using that(1) by (rule yields_mono) (use that(2) follows_trans in blast)
  have window: "yields observation_error ?P (policy_window cfg wall ?t (begin_record frame os1))" for wall
    using window_recorded [OF begun(1,2) deps begun(4), of cfg wall] by (rule yields_mono) (use to1 follows_trans in blast)
  have inner: "yields observation_error ?P (observe_frame cfg frame state os2)" if os2: "?P os2" for os2
  proof -
    have "yields observation_error ?P (connection_check cfg ?t state os2)"
      using os2 by (intro keep [OF connection_recorded]) simp_all
    moreover have "yields observation_error ?P (observe_market cfg frame state k os3)"
      if "?P os3" "oc_indexes cfg market = Some k" for os3 market k
      using that follows_indexed [OF _ cfg, of os3]
      by (intro keep [OF market_recorded]) (auto simp: indexed_def)
    ultimately show ?thesis
      using os2 by (auto simp: observe_frame_def observation_error_def intro!: yields_and_then split: option.split)
  qed
  have "yields observation_error ?Q (and_then (policy_window cfg wall ?t (begin_record frame os1)) (observe_frame cfg frame state))" for wall
    by (rule yields_mono [OF yields_and_then [OF window inner]]) auto
  then show "yields observation_error ?Q (case fr_observed_wall frame of
         None \<Rightarrow> Inl ''basket policy wall-clock binding''
       | Some wall \<Rightarrow>
           if os_finished os1 \<or> wall < oc_valid_from cfg then Inl ''basket policy wall-clock binding''
           else and_then (policy_window cfg wall ?t (begin_record frame os1)) (observe_frame cfg frame state))"
    by (auto simp: observation_error_def split: option.split)
qed


subsection \<open>The end of the observation\<close>

text \<open>While the observation finishes, episodes are closed ahead of their status; the clocks stay.\<close>

definition timed :: "int \<Rightarrow> int \<Rightarrow> observation \<Rightarrow> bool" where
  "timed first now os \<longleftrightarrow> os_first_time os = Some first \<and> time_range first now \<and> union_clocked first now os \<and>
     (\<forall>b \<in> set (os_baskets os). clocked first now b \<and> episodes_paired b) \<and>
     (\<forall>t \<in> set (map (positive_time now) (os_baskets os)). t \<le> union_time now os) \<and>
     union_time now os \<le> sum_list (map (positive_time now) (os_baskets os))"

lemma in_step_timed: "in_step first now os \<Longrightarrow> timed first now os"
  by (auto simp: in_step_def timed_def linked_def)

lemma timed_touches:
  assumes "timed first now os" and "i < length (os_baskets os)" and "touches first now i b' os os'"
    and "clocked first now b'" and "episodes_paired b'" and "positive_time now b' = positive_time now (os_baskets os ! i)"
  shows "timed first now os'"
proof -
  have baskets: "os_baskets os' = (os_baskets os)[i := b']" and union: "union_time now os' = union_time now os"
    using assms(3) by (simp_all add: touches_def)
  have "map (positive_time now) (os_baskets os') = (map (positive_time now) (os_baskets os))[i := positive_time now b']"
    by (simp add: baskets map_update)
  also have "\<dots> = map (positive_time now) (os_baskets os)"
    using assms(2,6) by (simp add: list_update_same_conv)
  finally have "map (positive_time now) (os_baskets os') = map (positive_time now) (os_baskets os)" .
  moreover have "\<forall>b \<in> set (os_baskets os'). clocked first now b \<and> episodes_paired b"
    using assms(1,2,4,5) set_update_subset_insert [of "os_baskets os" i b'] by (auto simp: baskets timed_def)
  ultimately show ?thesis using assms(1,3) union by (simp add: timed_def touches_def del: list.set_map)
qed

text \<open>The baskets before some index are closed and their time is up.\<close>

definition closed_below :: "int \<Rightarrow> nat \<Rightarrow> observation \<Rightarrow> bool" where
  "closed_below now n os \<longleftrightarrow> (\<forall>j < n. bk_status_since (os_baskets os ! j) = now \<and> \<not> bk_active (os_baskets os ! j))"

lemma finish_basket_closes:
  assumes "timed first now os" and "i < length (os_baskets os)" and "closed_below now i os"
  shows "yields observation_error (\<lambda>os'. timed first now os' \<and> closed_below now (Suc i) os' \<and> length (os_baskets os') = length (os_baskets os) \<and>
    os_finished os' = os_finished os) (finish_basket cfg now i os)"
proof -
  let ?b = "os_baskets os ! i" and ?c = "closed_basket True (os_baskets os ! i)"
  have settled: "settled first now i os" "episodes_paired ?b" using assms by (simp_all add: timed_def settled_def)
  show ?thesis
    unfolding finish_basket_def
  proof (rule yields_and_then [OF close_touches [OF settled(1)]], elim conjE)
    fix os1
    assume os1: "touches first now i ?c os os1"
    have clock: "clocked first now ?c" "positive_time now ?c = positive_time now ?b" "time_range first now"
      using settled(1) same_clock_clocked [of ?b ?c] same_clock_positive [of ?b ?c] by (simp_all add: settled_def)
    have at: "os_baskets os1 ! i = ?c" by (rule touched [OF settled(1) os1])
    obtain os2 where os2: "account_time i now os1 = Inr os2" "touches first now i (accounted now ?c) os1 os2"
      using account_time_touches [OF settled_touches [OF settled(1) os1 clock(1)]] unfolding at by blast
    have end_basket: "touches first now i (accounted now ?c) os os2"
      using touches_trans [OF os1 os2(2)] assms(2) by simp
    have paired: "episodes_paired (accounted now ?c)"
      using closed_basket_paired [OF settled(2), of True] by (simp add: episodes_paired_def)
    have "timed first now os2"
      using accounted_clocked [OF clock(3,1)] clock(2) paired by (intro timed_touches [OF assms(1,2) end_basket]) simp_all
    moreover have "closed_below now (Suc i) os2"
      using assms(2,3) end_basket by (auto simp: closed_below_def touches_def less_Suc_eq nth_list_update)
    ultimately show "yields observation_error (\<lambda>os'. timed first now os' \<and> closed_below now (Suc i) os' \<and>
        length (os_baskets os') = length (os_baskets os) \<and> os_finished os' = os_finished os) (account_time i now os1)"
      using os2(1) end_basket by (simp add: touches_def)
  qed
qed

lemma finish_all_closes:
  "timed first now os \<Longrightarrow> n \<le> length (os_baskets os) \<Longrightarrow>
     yields observation_error (\<lambda>os'. timed first now os' \<and> closed_below now n os' \<and> length (os_baskets os') = length (os_baskets os) \<and>
       os_finished os' = os_finished os) (and_fold (finish_basket cfg now) [0 ..< n] os)"
proof (induction n)
  case 0
  then show ?case by (simp add: closed_below_def)
next
  case (Suc n)
  have "and_fold f (xs @ [x]) s = and_then (and_fold f xs s) (f x)" for f :: "nat \<Rightarrow> observation \<Rightarrow> string + observation" and xs x s
    by (induction xs arbitrary: s) (auto simp: and_then_def split: sum.split)
  then have "and_fold (finish_basket cfg now) [0 ..< Suc n] os = and_then (and_fold (finish_basket cfg now) [0 ..< n] os) (finish_basket cfg now n)"
    by simp
  moreover have "yields observation_error (\<lambda>os'. timed first now os' \<and> closed_below now (Suc n) os' \<and> length (os_baskets os') = length (os_baskets os) \<and>
       os_finished os' = os_finished os) (finish_basket cfg now n os1)"
    if "timed first now os1 \<and> closed_below now n os1 \<and> length (os_baskets os1) = length (os_baskets os) \<and> os_finished os1 = os_finished os" for os1
    by (rule yields_mono [OF finish_basket_closes [of first now os1 n]]) (use that Suc.prems in auto)
  ultimately show ?case using Suc by (auto intro!: yields_and_then)
qed

text \<open>What the end leaves: every clock at the time of the end, and the positive times compared.\<close>

definition accounted_for :: "int \<Rightarrow> int \<Rightarrow> observation \<Rightarrow> bool" where
  "accounted_for first now os \<longleftrightarrow> time_range first now \<and>
     (\<forall>b \<in> set (os_baskets os). all_time b = nat (now - first) \<and> \<not> bk_active b \<and> bk_episodes b = bk_closed_episodes b \<and>
        unat (bk_durations b Quote_Positive) \<le> unat (os_positive_union os)) \<and>
     unat (os_positive_union os) \<le> nat (now - first) \<and>
     unat (os_positive_union os) \<le> sum_list (map (\<lambda>b. unat (bk_durations b Quote_Positive)) (os_baskets os))"

lemma finish_accounts:
  assumes ok: "observation_ok now os" and begun: "os_first_time os = Some first"
    and times: "now \<le> time" "0 \<le> time" "time \<le> 9223372036854775807" and running: "\<not> os_finished os"
  shows "yields observation_error (accounted_for first time) (observation_finish cfg time os)"
proof -
  have "yields observation_error (\<lambda>os'. in_step first time os') (observation_before cfg time os)"
  proof -
    obtain first' where st: "in_step first' now os" using ok begun by (auto simp: observation_ok_def pristine_def)
    then have first': "first' = first" using begun by (simp add: in_step_def)
    have step: "in_step first d os" if "now \<le> d" "d \<le> time" for d
      using in_step_later [OF st] that times(3) first' by simp
    have "yields observation_error (in_step first d) (expire cfg d os)" if "now < d" "d \<le> time" for d
      by (rule yields_mono [OF expire_in_step [OF step]]) (use that in auto)
    then have "yields observation_error (in_step first time) (expire cfg d os)" if "now < d" "d \<le> time" for d
      using that in_step_later times(3) by (fastforce elim!: yields_mono)
    moreover have "now < d" if "os_deadline os = Some d" "\<not> os_expired os" for d
      using ok begun that by (auto simp: observation_ok_def pristine_def split: option.splits)
    ultimately show ?thesis
      using step [OF times(1) order_refl] by (auto simp: observation_before_def observation_error_def split: option.split)
  qed
  moreover have "yields observation_error (accounted_for first time)
      (and_then (and_fold (finish_basket cfg time) [0 ..< length (os_baskets os1)] os1) (\<lambda>os.
        and_then (account_union time os) (\<lambda>os. Inr (os\<lparr>os_last_time := Some time, os_finished := True\<rparr>))))"
    if os1: "in_step first time os1" for os1
  proof (rule yields_and_then [OF finish_all_closes [OF in_step_timed [OF os1] order_refl]], elim conjE)
    fix os2
    assume os2: "timed first time os2" "closed_below time (length (os_baskets os1)) os2" "length (os_baskets os2) = length (os_baskets os1)"
    have base: "os_first_time os2 = Some first" "time_range first time" "union_clocked first time os2" using os2(1) by (simp_all add: timed_def)
    obtain p where p: "account_union time os2 = Inr (os2\<lparr>os_positive_union := p, os_union_since := time\<rparr>)"
      "unat p = union_time time os2" "union_time time os2 \<le> nat (time - first)" using account_union_keeps [OF base] by blast
    have closed: "bk_status_since b = time \<and> \<not> bk_active b" if "b \<in> set (os_baskets os2)" for b
      using that os2(2,3) by (auto simp: closed_below_def in_set_conv_nth)
    then have positive: "map (positive_time time) (os_baskets os2) = map (\<lambda>b. unat (bk_durations b Quote_Positive)) (os_baskets os2)"
      by (simp add: positive_time_def)
    have "\<forall>t \<in> set (map (\<lambda>b. unat (bk_durations b Quote_Positive)) (os_baskets os2)). t \<le> unat p"
      using os2(1) unfolding positive [symmetric] p(2) by (simp add: timed_def)
    moreover have "unat p \<le> sum_list (map (\<lambda>b. unat (bk_durations b Quote_Positive)) (os_baskets os2))"
      using os2(1) unfolding positive [symmetric] p(2) by (simp add: timed_def)
    moreover have "\<forall>b \<in> set (os_baskets os2). all_time b = nat (time - first) \<and> \<not> bk_active b \<and> bk_episodes b = bk_closed_episodes b"
      using os2(1) closed by (auto simp: timed_def clocked_def episodes_paired_def)
    ultimately show "yields observation_error (accounted_for first time)
        (and_then (account_union time os2) (\<lambda>os. Inr (os\<lparr>os_last_time := Some time, os_finished := True\<rparr>)))"
      using base(2) p by (simp add: accounted_for_def)
  qed
  ultimately have "yields observation_error (accounted_for first time) (and_then (observation_before cfg time os) (\<lambda>os.
      and_then (and_fold (finish_basket cfg time) [0 ..< length (os_baskets os)] os) (\<lambda>os.
      and_then (account_union time os) (\<lambda>os. Inr (os\<lparr>os_last_time := Some time, os_finished := True\<rparr>)))))"
    by (rule yields_and_then)
  then show ?thesis using running by (simp add: observation_finish_def)
qed


subsection \<open>The state the policy gives\<close>

definition depends_below :: "nat \<Rightarrow> cached_market list \<Rightarrow> bool" where
  "depends_below n ms \<longleftrightarrow> (\<forall>m \<in> set ms. \<forall>d \<in> set (cm_dependencies m). d < n)"

lemma link_leg_below: "depends_below n ms \<Longrightarrow> i < n \<Longrightarrow> depends_below n (link_leg i leg ms) \<and> length (link_leg i leg ms) = length ms"
proof (cases leg)
  case (Pair side k)
  assume ok: "depends_below n ms" "i < n"
  let ?m = "(ms ! k)\<lparr>cm_needed := (cm_needed (ms ! k))((if side = 0 then 0 else 1) := True), cm_dependencies := cm_dependencies (ms ! k) @ [i]\<rparr>"
  have eq: "link_leg i leg ms = ms[k := ?m]" by (simp add: Pair link_leg_def Let_def)
  show ?thesis
  proof (cases "k < length ms")
    case True
    then have "\<forall>d \<in> set (cm_dependencies ?m). d < n" using ok nth_mem [OF True] by (auto simp: depends_below_def)
    moreover have "set (ms[k := ?m]) \<subseteq> insert ?m (set ms)" by (rule set_update_subset_insert)
    ultimately show ?thesis using ok(1) unfolding eq depends_below_def by (simp only: length_list_update) blast
  qed (simp add: eq ok(1) list_update_beyond)
qed

lemma fold_link_below:
  "depends_below n ms \<Longrightarrow> i < n \<Longrightarrow> depends_below n (fold (link_leg i) legs ms) \<and> length (fold (link_leg i) legs ms) = length ms"
  by (induction legs arbitrary: ms) (simp_all add: link_leg_below)

lemma link_baskets_below:
  assumes "depends_below (length bs) ms"
  shows "depends_below (length bs) (link_baskets bs ms) \<and> length (link_baskets bs ms) = length ms"
proof -
  have "depends_below n (fold (\<lambda>(i, b). fold (link_leg i) (enumerate 0 (bk_markets b))) ibs ms) \<and>
      length (fold (\<lambda>(i, b). fold (link_leg i) (enumerate 0 (bk_markets b))) ibs ms) = length ms"
    if "depends_below n ms" "\<forall>(i, b) \<in> set ibs. i < n" for n and ibs :: "(nat \<times> observed_basket) list"
    using that by (induction ibs arbitrary: ms) (auto simp: fold_link_below split: prod.split)
  moreover have "\<forall>(i, b) \<in> set (enumerate 0 bs). i < length bs" by (auto simp: in_set_enumerate_eq)
  ultimately show ?thesis using assms by (simp add: link_baskets_def)
qed

text \<open>The binding of markets: every index is a place in the list, nothing depends on it yet.\<close>

lemma bind_markets_bound:
  "bind_markets metadata rows (indexes, ms) = Inr (indexes', ms') \<Longrightarrow> (\<forall>m k. indexes m = Some k \<longrightarrow> k < length ms) \<Longrightarrow>
     depends_below 0 ms \<Longrightarrow> (\<forall>m k. indexes' m = Some k \<longrightarrow> k < length ms') \<and> depends_below 0 ms'"
proof (induction rows arbitrary: indexes ms)
  case (Cons row rows)
  obtain i ticker where row: "row = (i, ticker)" by (cases row)
  obtain market where "bind_markets metadata rows (indexes(market \<mapsto> length ms), ms @ [new_cached_market market]) = Inr (indexes', ms')"
    using Cons.prems(1) by (auto simp: row and_then_Inr split: if_splits)
  from Cons.IH [OF this] Cons.prems(2,3) show ?case
    by (auto simp: depends_below_def new_cached_market_def less_Suc_eq split: if_splits)
qed simp

lemma bind_fees_keep:
  "bind_fees indexes rows ids ms = Inr ms' \<Longrightarrow> depends_below n ms \<Longrightarrow> length ms' = length ms \<and> depends_below n ms'"
proof (induction rows arbitrary: ids ms)
  case (Cons row rows)
  then obtain market k fee where step: "bind_fees indexes rows (market # ids) (ms[k := (ms ! k)\<lparr>cm_fee := fee\<rparr>]) = Inr ms'"
    by (auto simp: and_then_Inr Let_def split: if_splits option.splits)
  have "depends_below n (ms[k := (ms ! k)\<lparr>cm_fee := fee\<rparr>])"
  proof (cases "k < length ms")
    case True
    have "set (ms[k := (ms ! k)\<lparr>cm_fee := fee\<rparr>]) \<subseteq> insert ((ms ! k)\<lparr>cm_fee := fee\<rparr>) (set ms)" by (rule set_update_subset_insert)
    then show ?thesis using Cons.prems(2) nth_mem [OF True] unfolding depends_below_def by fastforce
  qed (simp add: Cons.prems(2) list_update_beyond)
  from Cons.IH [OF step this] show ?case by simp
qed simp

text \<open>The binding of a basket adds one new basket.\<close>

lemma bind_legs_baskets: "bind_legs indexes legs ks tables = Inr (ks', tables') \<Longrightarrow> st_baskets tables' = st_baskets tables"
  by (induction legs arbitrary: ks tables) (auto split: if_splits option.splits)

lemma bind_basket_adds:
  assumes "bind_basket indexes row tables = Inr tables'"
  shows "geometry_ok row \<and> (\<exists>i key ms. st_baskets tables' = st_baskets tables @ [new_basket i key ms])"
  using assms by (auto simp: bind_basket_def and_then_Inr Let_def simp del: bind_legs.simps dest!: bind_legs_baskets split: if_splits) blast

lemma bind_baskets_adds:
  "and_fold (bind_basket indexes) rows tables = Inr tables' \<Longrightarrow>
     \<exists>new. st_baskets tables' = st_baskets tables @ new \<and> length new = length rows \<and> (\<forall>b \<in> set new. \<exists>i key ms. b = new_basket i key ms)"
proof (induction rows arbitrary: tables)
  case (Cons row rows)
  then obtain tables1 where t1: "bind_basket indexes row tables = Inr tables1" "and_fold (bind_basket indexes) rows tables1 = Inr tables'"
    by (auto simp: and_then_Inr)
  obtain i key ms where one: "st_baskets tables1 = st_baskets tables @ [new_basket i key ms]" using bind_basket_adds [OF t1(1)] by blast
  obtain new where new: "st_baskets tables' = st_baskets tables1 @ new" "length new = length rows" "\<forall>b \<in> set new. \<exists>i key ms. b = new_basket i key ms"
    using Cons.IH [OF t1(2)] by blast
  show ?case using one new by (intro exI [of _ "new_basket i key ms # new"]) auto
qed simp

lemma make_observation_ok:
  assumes "make_observation from_ms until_ms maximum_events total_budget sizing metadata market_rows fee_rows basket_rows writes = Inr (cfg, os)"
  shows "pristine os \<and> observation_ok 0 os \<and> indexed cfg os \<and> os_signals os = [] \<and> \<not> os_finished os"
proof -
  obtain indexes where screen: "bind_screen metadata market_rows fee_rows basket_rows = Inr (indexes, os)" and cfg: "oc_indexes cfg = indexes"
    using assms by (auto simp: make_observation_def and_then_Inr split: prod.splits)
  obtain ms0 ms tables where ms0: "bind_markets metadata market_rows (Map.empty, []) = Inr (indexes, ms0)"
    and ms: "bind_fees indexes fee_rows [] ms0 = Inr ms"
    and tables: "and_fold (bind_basket indexes) basket_rows
        \<lparr>st_ids = [], st_keys = [], st_triples = [], st_semantics = Map.empty, st_baskets = []\<rparr> = Inr tables"
    and rows: "length basket_rows \<le> 100"
    and os: "os_baskets os = sort_key bk_id (st_baskets tables)" "os_markets os = link_baskets (sort_key bk_id (st_baskets tables)) ms"
      "os_first_time os = None" "os_last_time os = None" "os_deadline os = None" "\<not> os_expired os" "os_active os = 0"
      "os_positive_union os = 0" "os_signals os = []" "\<not> os_finished os"
    using screen by (auto simp: bind_screen_def and_then_Inr Let_def split: if_splits prod.splits)
  have new: "length (st_baskets tables) = length basket_rows" "\<forall>b \<in> set (st_baskets tables). \<exists>i key ms. b = new_basket i key ms"
    using bind_baskets_adds [OF tables] by auto
  have bound: "\<forall>m k. indexes m = Some k \<longrightarrow> k < length ms0" "depends_below 0 ms0"
    using bind_markets_bound [OF ms0] by (simp_all add: depends_below_def)
  then have "depends_below (length (os_baskets os)) ms0" by (auto simp: depends_below_def)
  then have fees: "length ms = length ms0" "depends_below (length (os_baskets os)) ms" using bind_fees_keep [OF ms] by auto
  have linked: "depends_below (length (os_baskets os)) (os_markets os)" "length (os_markets os) = length ms"
    using link_baskets_below [of "os_baskets os" ms] fees(2) by (simp_all add: os(1,2))
  have "pristine os" using os new rows by (simp add: pristine_def)
  moreover have "dependencies_ok os" using linked(1) by (auto simp: dependencies_ok_def depends_below_def)
  moreover have "indexed cfg os" using bound(1) linked(2) fees(1) by (simp add: indexed_def cfg)
  ultimately show ?thesis using os(9,10) by (simp add: observation_ok_def)
qed


subsection \<open>Reachable observations\<close>

text \<open>The calls a replay makes, in time order: a policy's observation, then records and the instants between them.\<close>

inductive observed :: "observation_config \<Rightarrow> observation \<Rightarrow> int \<Rightarrow> observation \<Rightarrow> bool"
  for cfg os0 where
  observed_new: "observed cfg os0 0 os0"
| observed_start: "observed cfg os0 now os \<Longrightarrow> observation_start cfg live os = Inr os' \<Longrightarrow> observed cfg os0 now os'"
| observed_checkpoint: "observed cfg os0 now os \<Longrightarrow> observation_checkpoint cfg time os = Inr os' \<Longrightarrow> observed cfg os0 now os'"
| observed_before: "observed cfg os0 now os \<Longrightarrow> now \<le> time \<Longrightarrow> time \<le> 9223372036854775807 \<Longrightarrow>
    observation_before cfg time os = Inr os' \<Longrightarrow> observed cfg os0 time os'"
| observed_after: "observed cfg os0 now os \<Longrightarrow> now \<le> fr_time frame \<Longrightarrow> fr_time frame \<le> 9223372036854775807 \<Longrightarrow>
    observation_after cfg frame state os = Inr os' \<Longrightarrow> observed cfg os0 (fr_time frame) os'"

lemma emit_keeps_ok:
  assumes "observation_emit cfg row os = Inr os'" and "observation_ok now os" and "indexed cfg os"
  shows "observation_ok now os' \<and> indexed cfg os'"
proof -
  have os': "os' = os\<lparr>os_output := os_output os @ [row]\<rparr>"
    using assms(1) by (auto simp: observation_emit_def Let_def split: if_splits)
  have "in_step first now os' = in_step first now os" for first unfolding os' by (rule in_step_cong) simp_all
  then show ?thesis
    using assms(2,3) by (simp add: observation_ok_def indexed_def dependencies_ok_def pristine_def os')
qed

lemma observed_ok:
  assumes "observed cfg os0 now os" and "observation_ok 0 os0" and "indexed cfg os0"
  shows "observation_ok now os \<and> indexed cfg os \<and> 0 \<le> now"
  using assms
proof (induction rule: observed.induct)
  case (observed_before now os time os')
  then have "yields observation_error (\<lambda>os'. observation_ok time os' \<and> follows os os' \<and> os_finished os' = os_finished os)
      (observation_before cfg time os)"
    by (intro before_ok) auto
  then show ?case using observed_before follows_indexed [of os os' cfg] by simp
next
  case (observed_after now os frame state os')
  then have "yields observation_error (\<lambda>os'. (\<exists>first. recorded first (fr_time frame) os') \<and> follows os os') (observation_after cfg frame state os)"
    by (intro after_recorded) auto
  then show ?case using observed_after follows_indexed [of os os' cfg] recorded_ok by auto
qed (auto simp: observation_start_def observation_checkpoint_def dest: emit_keeps_ok)

text \<open>Claim C27. In every state a replay reaches, a call in time order can fail only for a reason outside the
  accounting: the checks of the clocks of baskets and of the union cannot fire, on any order of records,
  connections, books, expiry and deadlines.\<close>

theorem observation_clocks_sound:
  assumes "make_observation from_ms until_ms maximum_events total_budget sizing metadata market_rows fee_rows basket_rows writes = Inr (cfg, os0)"
    and "observed cfg os0 now os" and "now \<le> fr_time frame" and "fr_time frame \<le> 9223372036854775807"
    and "observation_before cfg (fr_time frame) os = Inl e \<or> observation_after cfg frame state os = Inl e"
  shows "observation_error e \<and> e \<noteq> ''basket interval clock regression'' \<and> e \<noteq> ''basket union clock regression''"
proof -
  have ok: "observation_ok now os" "indexed cfg os" "0 \<le> now"
    using observed_ok [OF assms(2)] make_observation_ok [OF assms(1)] by simp_all
  then have "observation_error e"
    using before_ok [OF ok(1) assms(3) _ assms(4), of cfg] after_recorded [OF ok(1,2) assms(3) _ assms(4), of state] assms(3,5) by auto
  then show ?thesis by (auto simp: observation_error_def)
qed

text \<open>Claim C26. In every state a replay reaches, a basket is in an episode exactly while its status is a
  positive quote, it counts as seen before exactly when its status came from an evaluation of usable books,
  its episodes are the closed ones and the open one, and the number of active baskets is exact.\<close>

theorem episodes_follow_status:
  assumes "make_observation from_ms until_ms maximum_events total_budget sizing metadata market_rows fee_rows basket_rows writes = Inr (cfg, os0)"
    and "observed cfg os0 now os" and "b \<in> set (os_baskets os)"
  shows "(bk_active b \<longleftrightarrow> bk_status b = Quote_Positive) \<and>
    (bk_eligible_before b \<longleftrightarrow> bk_status b \<notin> {Book_Unavailable, Book_Crossed, Policy_Expired}) \<and>
    bk_episodes b = bk_closed_episodes b + of_bool (bk_active b) \<and>
    os_active os = of_nat (length (filter bk_active (os_baskets os)))"
proof -
  have "observation_ok now os" using observed_ok [OF assms(2)] make_observation_ok [OF assms(1)] by simp
  then consider "pristine os" | first where "in_step first now os" by (auto simp: observation_ok_def)
  then have "linked b \<and> os_active os = of_nat (length (filter bk_active (os_baskets os)))"
  proof cases
    case 1
    then have "filter bk_active (os_baskets os) = []" using new_basket_clock(3) by (fastforce simp: pristine_def filter_empty_conv)
    then show ?thesis using 1 assms(3) new_basket_clock(2) by (auto simp: pristine_def)
  next
    case 2
    then show ?thesis using assms(3) by (simp add: in_step_def)
  qed
  then show ?thesis by (cases "bk_status b") (auto simp: linked_def episodes_paired_def)
qed

text \<open>Evaluating a basket announces at most one episode, of this basket and at this time, only
  when it was not positive before; the episode is left-censored exactly when the status before did not
  come from usable books, so that an onset which is not left-censored was seen to begin.\<close>

theorem onset_announced:
  assumes "make_observation from_ms until_ms maximum_events total_budget sizing metadata market_rows fee_rows basket_rows writes = Inr (cfg, os0)"
    and "observed cfg os0 now os" and "os_first_time os = Some first" and "i < length (os_baskets os)"
    and "evaluate_basket cfg now i (budget, os) = Inr (left, os')"
  shows "os_signals os' = os_signals os \<or>
    (\<exists>ep. os_signals os' = os_signals os @ [ep] \<and> ep_basket_id ep = bk_id (os_baskets os ! i) \<and> ep_time ep = now \<and>
       bk_status (os_baskets os ! i) \<noteq> Quote_Positive \<and>
       (ep_left_censored ep \<longleftrightarrow> bk_status (os_baskets os ! i) \<in> {Book_Unavailable, Book_Crossed, Policy_Expired}))"
proof -
  have "observation_ok now os" using observed_ok [OF assms(2)] make_observation_ok [OF assms(1)] by simp
  then obtain first' where "in_step first' now os" using assms(3) by (auto simp: observation_ok_def pristine_def)
  then have ok: "settled first' now i os" "linked (os_baskets os ! i)" using in_step_settled assms(4) by blast+
  have "announced (os_baskets os ! i) now (os_signals os) (os_signals os')"
    using evaluate_succeeds [OF ok, of cfg budget] assms(5) by (auto simp: evaluated_basket_def)
  then show ?thesis using ok(2) by (cases "bk_status (os_baskets os ! i)") (auto simp: announced_def linked_def)
qed

lemma reported_times:
  assumes "all_time b = nat d" and "0 \<le> d" and "d \<le> 9223372036854775807"
  shows "uint (reported_no_data b) + uint (reported_eligible b) = d"
proof -
  let ?u = "\<lambda>status. unat (bk_durations b status)"
  have all: "?u Book_Unavailable + ?u Book_Crossed + ?u Policy_Expired + ?u Depth_Missing + ?u Cash_Missing + ?u Margin_Missing + ?u Quote_Positive = nat d"
    using assms(1) by (simp add: all_time_def all_statuses_def)
  have bound: "nat d < 18446744073709551616" using assms(2,3) by (simp add: nat_less_iff)
  have "unat (reported_no_data b) = ?u Book_Unavailable + ?u Book_Crossed + ?u Policy_Expired"
    using all bound by (simp add: reported_no_data_def unat_word_ariths)
  moreover have "unat (reported_eligible b) = ?u Depth_Missing + ?u Cash_Missing + ?u Margin_Missing + ?u Quote_Positive"
    using all bound by (simp add: reported_eligible_def unat_word_ariths)
  ultimately have "unat (reported_no_data b) + unat (reported_eligible b) = nat d" using all by simp
  then have "int (unat (reported_no_data b) + unat (reported_eligible b)) = d" using assms(2) by simp
  then show ?thesis by simp
qed

text \<open>Claim C25. When an observation ends, the time reported for a basket without data and the time it
  was eligible add up, in 64-bit words, to the time from the first record to the end, and every episode is closed.\<close>

theorem basket_time_accounted:
  assumes "make_observation from_ms until_ms maximum_events total_budget sizing metadata market_rows fee_rows basket_rows writes = Inr (cfg, os0)"
    and "observed cfg os0 now os" and "os_first_time os = Some first" and "\<not> os_finished os"
    and "now \<le> time" and "time \<le> 9223372036854775807" and "observation_finish cfg time os = Inr os'" and "b \<in> set (os_baskets os')"
  shows "uint (reported_no_data b) + uint (reported_eligible b) = time - first \<and> \<not> bk_active b \<and> bk_episodes b = bk_closed_episodes b"
proof -
  have ok: "observation_ok now os" "0 \<le> now" using observed_ok [OF assms(2)] make_observation_ok [OF assms(1)] by simp_all
  have "accounted_for first time os'"
    using finish_accounts [OF ok(1) assms(3,5) _ assms(6,4), of cfg] ok(2) assms(5,7) by simp
  then show ?thesis using assms(8) reported_times by (auto simp: accounted_for_def time_range_def)
qed

text \<open>Claim C24. When an observation ends, the time some basket was positive is at least the positive time
  of each basket, at most that of all of them together, and at most the time observed.\<close>

theorem positive_union_covers:
  assumes "make_observation from_ms until_ms maximum_events total_budget sizing metadata market_rows fee_rows basket_rows writes = Inr (cfg, os0)"
    and "observed cfg os0 now os" and "os_first_time os = Some first" and "\<not> os_finished os"
    and "now \<le> time" and "time \<le> 9223372036854775807" and "observation_finish cfg time os = Inr os'"
  shows "(\<forall>b \<in> set (os_baskets os'). bk_durations b Quote_Positive \<le> os_positive_union os') \<and>
    uint (os_positive_union os') \<le> time - first \<and>
    unat (os_positive_union os') \<le> sum_list (map (\<lambda>b. unat (bk_durations b Quote_Positive)) (os_baskets os'))"
proof -
  have ok: "observation_ok now os" "0 \<le> now" using observed_ok [OF assms(2)] make_observation_ok [OF assms(1)] by simp_all
  have "accounted_for first time os'"
    using finish_accounts [OF ok(1) assms(3,5) _ assms(6,4), of cfg] ok(2) assms(5,7) by simp
  then have "\<forall>b \<in> set (os_baskets os'). bk_durations b Quote_Positive \<le> os_positive_union os'"
    "int (unat (os_positive_union os')) \<le> time - first"
    "unat (os_positive_union os') \<le> sum_list (map (\<lambda>b. unat (bk_durations b Quote_Positive)) (os_baskets os'))"
    by (auto simp: accounted_for_def time_range_def word_le_nat_alt le_nat_iff)
  then show ?thesis by simp
qed


subsection \<open>What a basket pays\<close>





subsection \<open>A replay\<close>

text \<open>Three markets whose books arrive one after the other: the basket is positive from the third on.\<close>

definition example_registry :: market_registry where
  "example_registry = \<lparr>mr_market_ids = [(''A'', 1), (''B'', 2), (''C'', 3)], mr_tickers = [(1, ''A''), (2, ''B''), (3, ''C'')],
     mr_metadata_version = 1\<rparr>"

definition example_row :: basket_row where
  "example_row = \<lparr>rw_id = 7, rw_key = ''k'', rw_lower_market = 1, rw_upper_market = 2, rw_range_market = 3,
     rw_lower_threshold = 10, rw_upper_threshold = 20, rw_interval_lower = 11, rw_interval_upper = 20\<rparr>"

definition example_observation :: "string + observation_config \<times> observation" where
  "example_observation = make_observation 0 1 10 100
     \<lparr>sw_cap = 100, sw_step = 100, sw_available_cash = 1000000, sw_minimum_margin = 1, sw_max_evaluations = 10\<rparr>
     example_registry [(1, ''A''), (2, ''B''), (3, ''C'')]
     (map (\<lambda>m. \<lparr>fw_market_id = m, fw_coefficient_ppm = 0, fw_balance_quantum_micro = 100\<rparr>) [1, 2, 3]) [example_row] (\<lambda>_. True)"

definition example_book :: "nat \<Rightarrow> book_snapshot" where
  "example_book n = \<lparr>bs_market_id = of_nat n, bs_generation = 1, bs_stream_id = 1, bs_sequence = of_nat n, bs_received_at = 0,
     bs_bids = (if n = 1 then [] else [\<lparr>lv_price = price_of 9900, lv_quantity = quantity_of 100\<rparr>]),
     bs_asks = (if n = 1 then [\<lparr>lv_price = price_of 100, lv_quantity = quantity_of 100\<rparr>] else [])\<rparr>"

fun example_state :: "nat \<Rightarrow> market_state" where
  "example_state 0 = snd (open_connection 1 (new_market_state Shared_Stream))"
| "example_state (Suc n) = snd (apply_event (Snapshot_Event (example_book (Suc n))) (example_state n))"

definition example_frame :: "nat \<Rightarrow> replay_frame" where
  "example_frame n = \<lparr>fr_time = 4 + int n, fr_market_id = Some (of_nat n), fr_applied = True, fr_trade = None, fr_observed_wall = Some 3\<rparr>"

definition example_replay :: "nat list \<Rightarrow> string + (observation_config \<times> observation) \<times> observation" where
  "example_replay ns = and_then example_observation (\<lambda>(cfg, os0).
     and_then (and_fold (\<lambda>n. observation_after cfg (example_frame n) (example_state n)) ns os0) (\<lambda>os. Inr ((cfg, os0), os)))"

lemma example_replay_observed:
  assumes "and_fold (\<lambda>n. observation_after cfg (example_frame n) (example_state n)) ns os = Inr os'" and "observed cfg os0 now os"
    and "sorted ns" and "\<forall>n \<in> set ns. now \<le> 4 + int n \<and> n < 10" and "ns \<noteq> []"
  shows "observed cfg os0 (4 + int (last ns)) os'"
  using assms
proof (induction ns arbitrary: now os)
  case (Cons n ns)
  obtain os1 where os1: "observation_after cfg (example_frame n) (example_state n) os = Inr os1"
    "and_fold (\<lambda>n. observation_after cfg (example_frame n) (example_state n)) ns os1 = Inr os'"
    using Cons.prems(1) by (auto simp: and_then_Inr)
  have time: "fr_time (example_frame n) = 4 + int n" by (simp add: example_frame_def)
  have step: "observed cfg os0 (4 + int n) os1"
    using observed_after [OF Cons.prems(2) _ _ os1(1)] Cons.prems(4) time by simp
  show ?case
  proof (cases "ns = []")
    case True
    then show ?thesis using os1(2) step by simp
  next
    case False
    then show ?thesis using Cons.IH [OF os1(2) step] Cons.prems(3,4) by simp
  qed
qed simp

text \<open>The replay, evaluated.\<close>

lemma example_positive:
  "(case example_replay [1, 2, 3] of Inl e \<Rightarrow> False
    | Inr ((cfg, os0), os) \<Rightarrow> os_first_time os = Some 5 \<and> \<not> os_finished os \<and> os_active os = 1 \<and> length (os_baskets os) = 1 \<and>
        (case observation_finish cfg 9 os of Inl e \<Rightarrow> False
         | Inr os' \<Rightarrow> os_positive_union os' = 2 \<and> length (os_baskets os') = 1))"
  by code_simp

lemma example_onset:
  "(case example_replay [1, 2] of Inl e \<Rightarrow> False
    | Inr ((cfg, os0), os) \<Rightarrow> os_first_time os = Some 5 \<and> length (os_baskets os) = 1 \<and> os_signals os = [] \<and>
        (case evaluate_basket cfg 6 0 (10, os) of Inl e \<Rightarrow> False | Inr r \<Rightarrow> True))"
  by code_simp

lemma example_reached:
  assumes "ns \<in> {[1, 2], [1, 2, 3]}" and "example_replay ns = Inr ((cfg, os0), os)"
  shows "example_observation = Inr (cfg, os0) \<and> observed cfg os0 (4 + int (last ns)) os"
proof -
  have steps: "example_observation = Inr (cfg, os0)"
    "and_fold (\<lambda>n. observation_after cfg (example_frame n) (example_state n)) ns os0 = Inr os"
    using assms(2) by (auto simp: example_replay_def and_then_Inr)
  have "observed cfg os0 (4 + int (last ns)) os"
    using assms(1) by (intro example_replay_observed [OF steps(2) observed_new]) auto
  with steps(1) show ?thesis by simp
qed

lemma example_end:
  obtains cfg os0 os os' where "example_observation = Inr (cfg, os0)" and "observed cfg os0 7 os" and "os_first_time os = Some 5"
    and "\<not> os_finished os" and "os_active os = 1" and "length (os_baskets os) = 1" and "observation_finish cfg 9 os = Inr os'"
    and "os_positive_union os' = 2" and "length (os_baskets os') = 1"
proof -
  obtain cfg os0 os where run: "example_replay [1, 2, 3] = Inr ((cfg, os0), os)"
    using example_positive by (auto split: sum.splits prod.splits)
  then show thesis
    using that example_reached [OF _ run] example_positive by (auto split: sum.splits)
qed

lemma observation_clocks_sound_witness:
  "\<exists>e cfg os0. example_observation = Inr (cfg, os0) \<and> observation_error e \<and>
     observation_after cfg ((example_frame 1)\<lparr>fr_observed_wall := None\<rparr>) (example_state 0) os0 = Inl e"
proof -
  obtain cfg os0 os os' where ex: "example_observation = Inr (cfg, os0)" by (rule example_end)
  let ?frame = "(example_frame 1)\<lparr>fr_observed_wall := None\<rparr>"
  have "pristine os0" using make_observation_ok [OF ex [unfolded example_observation_def]] by simp
  then have fails: "observation_after cfg ?frame (example_state 0) os0 = Inl ''basket policy wall-clock binding''"
    by (simp add: observation_after_def observation_before_def pristine_def example_frame_def)
  have "observation_error ''basket policy wall-clock binding''"
    using observation_clocks_sound [OF ex [unfolded example_observation_def] observed_new _ _ disjI2 [OF fails]]
    by (simp add: example_frame_def)
  then show ?thesis using ex fails by blast
qed

lemma episodes_follow_status_witness:
  "\<exists>cfg os0 os b. example_observation = Inr (cfg, os0) \<and> observed cfg os0 7 os \<and> b \<in> set (os_baskets os) \<and>
     (bk_active b \<longleftrightarrow> bk_status b = Quote_Positive) \<and> os_active os = of_nat (length (filter bk_active (os_baskets os)))"
proof -
  obtain cfg os0 os where ex: "example_observation = Inr (cfg, os0)" "observed cfg os0 7 os" "length (os_baskets os) = 1"
    by (rule example_end)
  then obtain b where b: "b \<in> set (os_baskets os)" by (cases "os_baskets os") auto
  then show ?thesis using ex episodes_follow_status [OF ex(1) [unfolded example_observation_def] ex(2) b] by blast
qed

lemma onset_announced_witness:
  "\<exists>cfg os0 os left os'. example_observation = Inr (cfg, os0) \<and> observed cfg os0 6 os \<and>
     evaluate_basket cfg 6 0 (10, os) = Inr (left, os') \<and> length (os_signals os') \<le> 1"
proof -
  obtain cfg os0 os where run: "example_replay [1, 2] = Inr ((cfg, os0), os)"
    using example_onset by (auto split: sum.splits prod.splits)
  then have facts: "os_first_time os = Some 5" "length (os_baskets os) = 1" "os_signals os = []"
    "\<exists>r. evaluate_basket cfg 6 0 (10, os) = Inr r" using example_onset by (auto split: sum.splits)
  then obtain left os' where ev: "evaluate_basket cfg 6 0 (10, os) = Inr (left, os')" by auto
  have ex: "example_observation = Inr (cfg, os0)" "observed cfg os0 6 os" using example_reached [OF _ run] by simp_all
  have "length (os_signals os') \<le> 1"
    using onset_announced [OF ex(1) [unfolded example_observation_def] ex(2) facts(1) _ ev] facts(2,3) by auto
  then show ?thesis using ex ev by blast
qed

lemma basket_time_accounted_witness:
  "\<exists>cfg os0 os os' b. example_observation = Inr (cfg, os0) \<and> observed cfg os0 7 os \<and> observation_finish cfg 9 os = Inr os' \<and>
     b \<in> set (os_baskets os') \<and> uint (reported_no_data b) + uint (reported_eligible b) = 9 - 5"
proof -
  obtain cfg os0 os os' where ex: "example_observation = Inr (cfg, os0)" "observed cfg os0 7 os" "os_first_time os = Some 5"
    "\<not> os_finished os" "observation_finish cfg 9 os = Inr os'" "length (os_baskets os') = 1" by (rule example_end)
  then obtain b where b: "b \<in> set (os_baskets os')" by (cases "os_baskets os'") auto
  have "uint (reported_no_data b) + uint (reported_eligible b) = 9 - 5"
    using basket_time_accounted [OF ex(1) [unfolded example_observation_def] ex(2-4) _ _ ex(5) b] by simp
  then show ?thesis using ex b by blast
qed

lemma positive_union_covers_witness:
  "\<exists>cfg os0 os os'. example_observation = Inr (cfg, os0) \<and> observed cfg os0 7 os \<and> observation_finish cfg 9 os = Inr os' \<and>
     2 \<le> sum_list (map (\<lambda>b. unat (bk_durations b Quote_Positive)) (os_baskets os'))"
proof -
  obtain cfg os0 os os' where ex: "example_observation = Inr (cfg, os0)" "observed cfg os0 7 os" "os_first_time os = Some 5"
    "\<not> os_finished os" "observation_finish cfg 9 os = Inr os'" "os_positive_union os' = 2" by (rule example_end)
  have "unat (os_positive_union os') \<le> sum_list (map (\<lambda>b. unat (bk_durations b Quote_Positive)) (os_baskets os'))"
    using positive_union_covers [OF ex(1) [unfolded example_observation_def] ex(2-4) _ _ ex(5)] by simp
  then show ?thesis using ex by auto
qed



end
