(* ===== verification/Basket_Execution.thy ===== *)
theory Basket_Execution
  imports Basket_Observation
begin

text \<open>
  The chronological basket execution study of \<open>include/eme/session/basket_execution.hpp\<close> and
  \<open>src/session/basket_execution.cpp\<close>: per scenario one attempt at a time buys the three legs of a
  basket in turn, with a delay before each arrival and each response, and unwinds what it holds when
  it cannot go on. The output stream is a list of rows; whether the stream accepts a row is an
  input. Here are the operations on one scenario; the episodes they decide on come from the basket
  observation.
\<close>

subsection \<open>Data\<close>

record physical =
  ph_price :: int
  ph_quantity :: int

text \<open>The sides of a book: bids descending, asks ascending, in yes prices.\<close>

record cached =
  ca_fee :: fee_policy
  ca_bids :: "physical list"
  ca_asks :: "physical list"
  ca_valid :: bool

record basket =
  bt_id :: u32
  bt_ids :: "market_id list"

text \<open>Market, physical ask side, yes price.\<close>

type_synonym liquidity_key = "market_id \<times> bool \<times> int"

record fill =
  fl_quantity :: int
  fl_cash :: int
  fl_limit :: int
  fl_levels :: "(int \<times> int \<times> int) list"

datatype stage = Buy_Arrival | Buy_Response | Sell_Arrival | Sell_Response

record attempt =
  at_basket :: basket
  at_quantity :: int
  at_spent :: int
  at_received :: int
  at_due :: int
  at_limit :: int
  at_reserve :: int
  at_leg :: nat
  at_stage :: stage
  at_holdings :: "int list"
  at_reason :: string

record scenario =
  sc_delay :: int
  sc_cash :: int
  sc_spent :: int
  sc_received :: int
  sc_floor :: int
  sc_complete_cost :: int
  sc_unwind_net :: int
  sc_reserved :: int
  sc_peak_encumbered :: int
  sc_attempt :: "attempt option"
  sc_consumed :: "liquidity_key \<rightharpoonup> int"
  sc_attempts :: u64
  sc_completed :: u64
  sc_exited :: u64
  sc_empty :: u64
  sc_busy :: u64
  sc_rejected :: u64
  sc_budget_aborts :: u64
  sc_censored :: u64
  sc_final_budget_breaches :: u64
  sc_halted :: bool

text \<open>The rows written; a row that names a scenario starts with its index, its attempt and the time.\<close>

datatype exec_row =
  Start_Row
| Entry_Row nat u64 int u32 int int
| Submit_Row nat u64 int int nat bool int int "int option"
| Abort_Row nat u64 int string "int list"
| Exit_Complete_Row nat u64 int "int list" int bool
| Fill_Row nat u64 int nat bool int int "(int \<times> int \<times> int) list"
| Held_Row nat u64 int int int int int
| Censored_Row nat u64 int string "int list" int

record exec_log =
  lg_trace :: u64
  lg_rows :: "exec_row list"

text \<open>What the constructor fixes, and whether the stream is good after a number of rows.\<close>

record exec_config =
  ec_capital :: int
  ec_cap :: int
  ec_margin :: int
  ec_from :: int
  ec_until :: int
  ec_max_attempts :: u64
  ec_baskets :: "u32 \<rightharpoonup> basket"
  ec_writes :: "u64 \<Rightarrow> bool"

type_synonym market_cache = "market_id \<rightharpoonup> cached"

definition new_attempt :: "basket \<Rightarrow> int \<Rightarrow> attempt" where
  "new_attempt b quantity =
     \<lparr>at_basket = b, at_quantity = quantity, at_spent = 0, at_received = 0, at_due = 0, at_limit = 0, at_reserve = 0,
      at_leg = 0, at_stage = Buy_Arrival, at_holdings = [0, 0, 0], at_reason = []\<rparr>"

definition new_scenario :: "int \<Rightarrow> int \<Rightarrow> scenario" where
  "new_scenario delay cash =
     \<lparr>sc_delay = delay, sc_cash = cash, sc_spent = 0, sc_received = 0, sc_floor = 0, sc_complete_cost = 0,
      sc_unwind_net = 0, sc_reserved = 0, sc_peak_encumbered = 0, sc_attempt = None, sc_consumed = Map.empty,
      sc_attempts = 0, sc_completed = 0, sc_exited = 0, sc_empty = 0, sc_busy = 0, sc_rejected = 0,
      sc_budget_aborts = 0, sc_censored = 0, sc_final_budget_breaches = 0, sc_halted = False\<rparr>"

definition no_fill :: fill where
  "no_fill = \<lparr>fl_quantity = 0, fl_cash = 0, fl_limit = 0, fl_levels = []\<rparr>"


subsection \<open>Rows\<close>

definition emit :: "exec_config \<Rightarrow> exec_row \<Rightarrow> exec_log \<Rightarrow> string + exec_log" where
  "emit cfg row log =
     (let log = log\<lparr>lg_trace := lg_trace log + 1\<rparr> in
      if 100000 < lg_trace log then Inl ''execution trace budget''
      else
        let log = log\<lparr>lg_rows := lg_rows log @ [row]\<rparr>
        in if \<not> ec_writes cfg (lg_trace log) then Inl ''execution trace write'' else Inr log)"


subsection \<open>What a leg can take\<close>

definition market_at :: "market_cache \<Rightarrow> market_id \<Rightarrow> string + cached" where
  "market_at markets market = (case markets market of None \<Rightarrow> Inl ''unordered_map::at'' | Some m \<Rightarrow> Inr m)"

definition used_liquidity :: "scenario \<Rightarrow> liquidity_key \<Rightarrow> int" where
  "used_liquidity s key = (case sc_consumed s key of None \<Rightarrow> 0 | Some q \<Rightarrow> q)"

text \<open>The loop of \<open>levels\<close>: what earlier orders took stays taken, and the cap ends the loop.\<close>

fun collect_levels :: "int \<Rightarrow> (int \<Rightarrow> int) \<Rightarrow> bool \<Rightarrow> int \<Rightarrow> physical list \<Rightarrow> buy_level list" where
  "collect_levels cap used yes collected [] = []"
| "collect_levels cap used yes collected (l # ls) =
     (let q = max 0 (ph_quantity l - used (ph_price l));
          taken = min q (cap - collected)
      in if taken = 0 then collect_levels cap used yes collected ls
         else
           \<lparr>bl_price = the (price_from_raw (if yes then ph_price l else 10000 - ph_price l)), bl_quantity = quantity_value taken\<rparr> #
           (if collected + taken = cap then [] else collect_levels cap used yes (collected + taken) ls))"

definition levels :: "exec_config \<Rightarrow> market_cache \<Rightarrow> scenario \<Rightarrow> market_id \<Rightarrow> bool \<Rightarrow> bool \<Rightarrow> string + buy_level list" where
  "levels cfg markets s market yes sell =
     and_then (market_at markets market) (\<lambda>m.
       if \<not> ca_valid m then Inr []
       else
         let ask = (yes \<noteq> sell)
         in Inr (collect_levels (ec_cap cfg) (\<lambda>p. used_liquidity s (market, ask, p)) yes 0
                  (if ask then ca_asks m else ca_bids m)))"

text \<open>One charge or credit; its cash and the accumulator.\<close>

definition fill_cost :: "bool \<Rightarrow> int \<Rightarrow> price \<Rightarrow> fee_policy \<Rightarrow> fee_accumulator \<Rightarrow> string + int \<times> fee_accumulator" where
  "fill_cost sell q price fee acc =
     (if sell
      then case credit_sell_fill (quantity_value q) price fee acc of
             None \<Rightarrow> Inl ''sell cost''
           | Some (f, acc) \<Rightarrow> Inr (cash_raw (fr_credit f), acc)
      else case charge_buy_fill (quantity_value q) price fee acc of
             None \<Rightarrow> Inl ''buy cost''
           | Some (f, acc) \<Rightarrow> Inr (cash_raw (fc_debit f), acc))"

fun fill_levels :: "bool \<Rightarrow> fee_policy \<Rightarrow> int \<Rightarrow> int \<Rightarrow> buy_level list \<Rightarrow> fill \<Rightarrow> fee_accumulator \<Rightarrow> string + fill" where
  "fill_levels sell fee desired limit [] result acc = Inr result"
| "fill_levels sell fee desired limit (l # ls) result acc =
     (let p = price_raw (bl_price l) in
      if (\<not> sell \<and> limit < p) \<or> (sell \<and> p < limit) then Inr result
      else
        let q = min (desired - fl_quantity result) (quantity_raw (bl_quantity l))
        in if q = 0 then Inr result
           else
             case fill_cost sell q (bl_price l) fee acc of Inl e \<Rightarrow> Inl e
             | Inr (cash, acc) \<Rightarrow>
                 fill_levels sell fee desired limit ls
                   \<lparr>fl_quantity = fl_quantity result + q, fl_cash = fl_cash result + cash, fl_limit = p,
                    fl_levels = fl_levels result @ [(p, q, cash)]\<rparr> acc)"

text \<open>\<open>s.consumed[key] += q\<close> for each level of an applied fill.\<close>

fun consume_liquidity :: "market_id \<Rightarrow> bool \<Rightarrow> bool \<Rightarrow> (int \<times> int \<times> int) list \<Rightarrow> scenario \<Rightarrow> scenario" where
  "consume_liquidity market yes sell [] s = s"
| "consume_liquidity market yes sell ((p, q, cash) # taken) s =
     (let key = (market, yes \<noteq> sell, if yes then p else 10000 - p)
      in consume_liquidity market yes sell taken
           (s\<lparr>sc_consumed := (sc_consumed s)(key \<mapsto> used_liquidity s key + q)\<rparr>))"

definition fill_order :: "exec_config \<Rightarrow> market_cache \<Rightarrow> scenario \<Rightarrow> market_id \<Rightarrow> bool \<Rightarrow> bool \<Rightarrow> int \<Rightarrow> int \<Rightarrow> bool \<Rightarrow>
    string + fill \<times> scenario" where
  "fill_order cfg markets s market yes sell desired limit applied =
     and_then (levels cfg markets s market yes sell) (\<lambda>ls.
     and_then (market_at markets market) (\<lambda>m.
     and_then (fill_levels sell (ca_fee m) desired limit ls no_fill \<lparr>rounding_micro = 0\<rparr>) (\<lambda>result.
       Inr (result, if applied then consume_liquidity market yes sell (fl_levels result) s else s))))"


subsection \<open>Leaving an attempt\<close>

definition later :: "int \<Rightarrow> int \<Rightarrow> string + int" where
  "later time delay = (if int64_max - delay < time then Inl ''event time overflow'' else Inr (time + delay))"

function skip_empty :: "int list \<Rightarrow> nat \<Rightarrow> nat" where
  "skip_empty holdings leg = (if leg < 3 \<and> holdings ! leg = 0 then skip_empty holdings (Suc leg) else leg)"
  by pat_completeness auto
termination
  by (relation "measure (\<lambda>(_, leg). 3 - leg)") auto

declare skip_empty.simps [simp del]

text \<open>
  The operations on one scenario take its index, the time, the scenario with its attempt, and the
  log. \<open>send_exit\<close> submits the sale of the next leg held, or ends the attempt.
\<close>

definition send_exit :: "exec_config \<Rightarrow> nat \<Rightarrow> int \<Rightarrow> attempt \<Rightarrow> scenario \<Rightarrow> exec_log \<Rightarrow> string + scenario \<times> exec_log" where
  "send_exit cfg index time a s log =
     (let a = a\<lparr>at_leg := skip_empty (at_holdings a) (at_leg a)\<rparr>;
          s = s\<lparr>sc_attempt := Some a\<rparr>
      in if at_leg a = 3 then
           let residual = (\<exists>q \<in> set (at_holdings a). q \<noteq> 0)
           in and_then (emit cfg (Exit_Complete_Row index (sc_attempts s) time (at_holdings a)
                          (at_received a - at_spent a) residual) log) (\<lambda>log.
                if residual then Inr (s\<lparr>sc_halted := True\<rparr>, log)
                else
                  let s = (if at_spent a \<noteq> 0
                           then s\<lparr>sc_exited := sc_exited s + 1, sc_unwind_net := sc_unwind_net s + (at_received a - at_spent a)\<rparr>
                           else s\<lparr>sc_empty := sc_empty s + 1\<rparr>)
                  in Inr (s\<lparr>sc_attempt := None\<rparr>, log))
         else
           and_then (later time (sc_delay s)) (\<lambda>due.
             let a = a\<lparr>at_stage := Sell_Arrival, at_due := due\<rparr>
             in and_then (emit cfg (Submit_Row index (sc_attempts s) time due (at_leg a) True
                            (at_holdings a ! at_leg a) 0 None) log) (\<lambda>log.
                  Inr (s\<lparr>sc_attempt := Some a\<rparr>, log))))"

definition begin_exit :: "exec_config \<Rightarrow> nat \<Rightarrow> int \<Rightarrow> string \<Rightarrow> attempt \<Rightarrow> scenario \<Rightarrow> exec_log \<Rightarrow>
    string + scenario \<times> exec_log" where
  "begin_exit cfg index time reason a s log =
     (let a = a\<lparr>at_reason := reason, at_leg := 0\<rparr>;
          s = s\<lparr>sc_reserved := 0\<rparr>
      in and_then (emit cfg (Abort_Row index (sc_attempts s) time reason (at_holdings a)) log) (\<lambda>log.
           send_exit cfg index time a s log))"


subsection \<open>Sending a purchase\<close>

text \<open>
  The loop over the legs still to buy: what the rest of the basket would cost now, and the fill of
  the current leg; \<open>None\<close> when some leg has not the depth.
\<close>

function project_legs :: "exec_config \<Rightarrow> market_cache \<Rightarrow> scenario \<Rightarrow> attempt \<Rightarrow> nat \<Rightarrow> int \<Rightarrow> fill \<Rightarrow>
    string + (int \<times> fill) option" where
  "project_legs cfg markets s a leg projected current =
     (if leg < 3
      then and_then (fill_order cfg markets s (bt_ids (at_basket a) ! leg) (leg = 0) False (at_quantity a) 10000 False)
        (\<lambda>(f, _).
          if fl_quantity f \<noteq> at_quantity a then Inr None
          else project_legs cfg markets s a (Suc leg) (projected + fl_cash f) (if leg = at_leg a then f else current))
      else Inr (Some (projected, current)))"
  by pat_completeness auto
termination
  by (relation "measure (\<lambda>(_, _, _, _, leg, _, _). 3 - leg)") auto

declare project_legs.simps [simp del]

definition send_buy :: "exec_config \<Rightarrow> market_cache \<Rightarrow> nat \<Rightarrow> int \<Rightarrow> attempt \<Rightarrow> scenario \<Rightarrow> exec_log \<Rightarrow>
    string + scenario \<times> exec_log" where
  "send_buy cfg markets index time a s log =
     and_then (project_legs cfg markets s a (at_leg a) (at_spent a) no_fill) (\<lambda>projection.
       case projection of
         None \<Rightarrow> begin_exit cfg index time ''remaining_depth_missing'' a s log
       | Some (projected, current) \<Rightarrow>
           if at_quantity a * 20000 - ec_margin cfg < projected
           then begin_exit cfg index time ''basket_cost_budget'' a (s\<lparr>sc_budget_aborts := sc_budget_aborts s + 1\<rparr>) log
           else
             and_then (market_at markets (bt_ids (at_basket a) ! at_leg a)) (\<lambda>m.
               case buy_reservation (quantity_value (at_quantity a)) (quantity_value 1)
                      (the (price_from_raw (fl_limit current))) (ca_fee m) of
                 None \<Rightarrow> begin_exit cfg index time ''funding_guard'' a s log
               | Some reserve \<Rightarrow>
                   if sc_cash s < cash_raw reserve then begin_exit cfg index time ''funding_guard'' a s log
                   else
                     let a = a\<lparr>at_limit := fl_limit current, at_reserve := cash_raw reserve\<rparr>;
                         s = s\<lparr>sc_reserved := at_reserve a\<rparr>;
                         s = s\<lparr>sc_peak_encumbered := max (sc_peak_encumbered s) (ec_capital cfg - sc_cash s + sc_reserved s)\<rparr>;
                         a = a\<lparr>at_stage := Buy_Arrival\<rparr>
                     in and_then (later time (sc_delay s)) (\<lambda>due.
                          let a = a\<lparr>at_due := due\<rparr>
                          in and_then (emit cfg (Submit_Row index (sc_attempts s) time due (at_leg a) False
                                         (at_quantity a) (at_limit a) (Some projected)) log) (\<lambda>log.
                               Inr (s\<lparr>sc_attempt := Some a\<rparr>, log)))))"


subsection \<open>Arrivals and responses\<close>

text \<open>An order arrives: it fills against the books seen so far, and its response is due later.\<close>

definition order_arrival :: "exec_config \<Rightarrow> market_cache \<Rightarrow> nat \<Rightarrow> attempt \<Rightarrow> scenario \<Rightarrow> exec_log \<Rightarrow>
    string + scenario \<times> exec_log" where
  "order_arrival cfg markets index a s log =
     (let sell = (at_stage a = Sell_Arrival);
          at_time = at_due a
      in and_then (fill_order cfg markets s (bt_ids (at_basket a) ! at_leg a) (at_leg a = 0) sell
                     (if sell then at_holdings a ! at_leg a else at_quantity a) (if sell then 0 else at_limit a) True)
           (\<lambda>(f, s).
             and_then
               (if sell
                then Inr (a\<lparr>at_holdings := (at_holdings a)[at_leg a := at_holdings a ! at_leg a - fl_quantity f],
                            at_received := at_received a + fl_cash f\<rparr>,
                          s\<lparr>sc_cash := sc_cash s + fl_cash f, sc_received := sc_received s + fl_cash f\<rparr>)
                else if at_reserve a < fl_cash f \<or> sc_cash s < fl_cash f then Inl ''execution funding invariant''
                else Inr (a\<lparr>at_holdings := (at_holdings a)[at_leg a := at_holdings a ! at_leg a + fl_quantity f],
                            at_spent := at_spent a + fl_cash f\<rparr>,
                          s\<lparr>sc_cash := sc_cash s - fl_cash f, sc_spent := sc_spent s + fl_cash f,
                            sc_reserved := at_reserve a - fl_cash f\<rparr>))
               (\<lambda>(a, s).
                 and_then (emit cfg (Fill_Row index (sc_attempts s) at_time (at_leg a) sell (fl_quantity f) (fl_cash f)
                                (fl_levels f)) log) (\<lambda>log.
                 and_then (later at_time (sc_delay s)) (\<lambda>due.
                   Inr (s\<lparr>sc_attempt := Some (a\<lparr>at_stage := (if sell then Sell_Response else Buy_Response),
                          at_due := due\<rparr>)\<rparr>, log))))))"

text \<open>The response to a purchase: the next leg, the basket held, or the way out.\<close>

definition buy_response :: "exec_config \<Rightarrow> market_cache \<Rightarrow> nat \<Rightarrow> attempt \<Rightarrow> scenario \<Rightarrow> exec_log \<Rightarrow>
    string + scenario \<times> exec_log" where
  "buy_response cfg markets index a s log =
     (let at_time = at_due a;
          s = s\<lparr>sc_reserved := 0\<rparr>
      in if at_holdings a ! at_leg a \<noteq> at_quantity a then begin_exit cfg index at_time ''partial_buy'' a s log
         else
           let a = a\<lparr>at_leg := Suc (at_leg a)\<rparr>
           in if at_leg a = 3
              then
                let payout = at_quantity a * 20000;
                    margin = payout - at_spent a;
                    s = s\<lparr>sc_floor := sc_floor s + payout, sc_complete_cost := sc_complete_cost s + at_spent a,
                          sc_completed := sc_completed s + 1\<rparr>;
                    s = (if margin < ec_margin cfg then s\<lparr>sc_final_budget_breaches := sc_final_budget_breaches s + 1\<rparr> else s)
                in and_then (emit cfg (Held_Row index (sc_attempts s) at_time (at_quantity a) (at_spent a) payout margin) log)
                     (\<lambda>log. Inr (s\<lparr>sc_attempt := None\<rparr>, log))
              else send_buy cfg markets index at_time a s log)"

definition sell_response :: "exec_config \<Rightarrow> nat \<Rightarrow> attempt \<Rightarrow> scenario \<Rightarrow> exec_log \<Rightarrow> string + scenario \<times> exec_log" where
  "sell_response cfg index a s log = send_exit cfg index (at_due a) (a\<lparr>at_leg := Suc (at_leg a)\<rparr>) s log"

definition attempt_event :: "exec_config \<Rightarrow> market_cache \<Rightarrow> nat \<Rightarrow> attempt \<Rightarrow> scenario \<Rightarrow> exec_log \<Rightarrow>
    string + scenario \<times> exec_log" where
  "attempt_event cfg markets index a s log =
     (case at_stage a of
        Buy_Response \<Rightarrow> buy_response cfg markets index a s log
      | Sell_Response \<Rightarrow> sell_response cfg index a s log
      | _ \<Rightarrow> order_arrival cfg markets index a s log)"

definition ledger_broken :: "exec_config \<Rightarrow> scenario \<Rightarrow> bool" where
  "ledger_broken cfg s \<longleftrightarrow>
     sc_cash s \<noteq> ec_capital cfg - sc_spent s + sc_received s \<or> sc_cash s < 0 \<or> sc_reserved s < 0 \<or> sc_cash s < sc_reserved s"

text \<open>The loop of \<open>advance\<close>; \<open>None\<close> is a loop that does not end.\<close>

partial_function (option) advance_scenario ::
    "exec_config \<Rightarrow> market_cache \<Rightarrow> nat \<Rightarrow> int \<Rightarrow> scenario \<Rightarrow> exec_log \<Rightarrow> (string + scenario \<times> exec_log) option" where
  "advance_scenario cfg markets index time s log =
     (case sc_attempt s of
        None \<Rightarrow> Some (Inr (s, log))
      | Some a \<Rightarrow>
          if sc_halted s \<or> time < at_due a then Some (Inr (s, log))
          else
            case attempt_event cfg markets index a s log of
              Inl e \<Rightarrow> Some (Inl e)
            | Inr (s, log) \<Rightarrow>
                if ledger_broken cfg s then Some (Inl ''execution cash ledger'')
                else advance_scenario cfg markets index time s log)"

declare advance_scenario.simps [code]


subsection \<open>Deciding on an attempt\<close>

text \<open>The depth of the three legs of a basket, bought.\<close>

definition basket_depth :: "exec_config \<Rightarrow> market_cache \<Rightarrow> scenario \<Rightarrow> basket \<Rightarrow> string + buy_depth list" where
  "basket_depth cfg markets s b =
     (let leg = (\<lambda>i. and_then (levels cfg markets s (bt_ids b ! i) (i = 0) False) (\<lambda>ls.
                 and_then (market_at markets (bt_ids b ! i)) (\<lambda>m. Inr \<lparr>bd_levels = ls, bd_fees = ca_fee m\<rparr>)))
      in and_then (leg 0) (\<lambda>d0. and_then (leg (1 :: nat)) (\<lambda>d1. and_then (leg 2) (\<lambda>d2. Inr [d0, d1, d2]))))"

definition sizing_bounds :: "exec_config \<Rightarrow> scenario \<Rightarrow> sizing_limits" where
  "sizing_bounds cfg s =
     \<lparr>sl_cap = quantity_value (ec_cap cfg), sl_step = quantity_value 100, sl_available = cash_at (sc_cash s),
      sl_minimum_margin = cash_at (ec_margin cfg), sl_max_evaluations = 100\<rparr>"

fun choose_basket :: "exec_config \<Rightarrow> market_cache \<Rightarrow> basket_episode list \<Rightarrow> scenario \<Rightarrow> (sized_basket \<times> basket) option \<Rightarrow>
    string + scenario \<times> (sized_basket \<times> basket) option" where
  "choose_basket cfg markets [] s best = Inr (s, best)"
| "choose_basket cfg markets (signal # signals) s best =
     (if ep_left_censored signal
      then choose_basket cfg markets signals (s\<lparr>sc_rejected := sc_rejected s + 1\<rparr>) best
      else case ec_baskets cfg (ep_basket_id signal) of
        None \<Rightarrow> Inl ''map::at''
      | Some b \<Rightarrow>
          (case basket_depth cfg markets s b of Inl e \<Rightarrow> Inl e
           | Inr legs \<Rightarrow>
               let result = size_buy_basket legs (sizing_bounds cfg s)
               in if br_status result = Invalid_Input \<or> br_status result = Arithmetic_Error \<or>
                     br_status result = Search_Budget_Exceeded
                  then Inl ''execution sizing''
                  else case br_quote result of
                    None \<Rightarrow> choose_basket cfg markets signals (s\<lparr>sc_rejected := sc_rejected s + 1\<rparr>) best
                  | Some quote \<Rightarrow>
                      choose_basket cfg markets signals s
                        (case best of
                           None \<Rightarrow> Some (quote, b)
                         | Some (q0, b0) \<Rightarrow>
                             if sb_net_margin_micro q0 < sb_net_margin_micro quote \<or>
                                (sb_net_margin_micro quote = sb_net_margin_micro q0 \<and> bt_id b < bt_id b0)
                             then Some (quote, b) else best)))"

definition decide :: "exec_config \<Rightarrow> market_cache \<Rightarrow> basket_episode list \<Rightarrow> nat \<Rightarrow> int \<Rightarrow> scenario \<Rightarrow> exec_log \<Rightarrow>
    string + scenario \<times> exec_log" where
  "decide cfg markets signals index time s log =
     (if sc_halted s \<or> ec_max_attempts cfg \<le> sc_attempts s then Inr (s, log)
      else if sc_attempt s \<noteq> None then Inr (s\<lparr>sc_busy := sc_busy s + of_nat (length signals)\<rparr>, log)
      else
        and_then (choose_basket cfg markets signals s None) (\<lambda>(s, best).
          case best of
            None \<Rightarrow> Inr (s, log)
          | Some (quote, b) \<Rightarrow>
              let s = s\<lparr>sc_attempts := sc_attempts s + 1\<rparr>;
                  a = new_attempt b (quantity_raw (sb_quantity quote));
                  s = s\<lparr>sc_attempt := Some a\<rparr>
              in and_then (emit cfg (Entry_Row index (sc_attempts s) time (bt_id b) (at_quantity a) (sb_net_margin_micro quote)) log)
                   (\<lambda>log. send_buy cfg markets index time a s log)))"

definition censor :: "exec_config \<Rightarrow> nat \<Rightarrow> int \<Rightarrow> string \<Rightarrow> scenario \<Rightarrow> exec_log \<Rightarrow> string + scenario \<times> exec_log" where
  "censor cfg index time reason s log =
     (case sc_attempt s of
        None \<Rightarrow> Inr (s, log)
      | Some a \<Rightarrow>
          if sc_halted s then Inr (s, log)
          else
            let s = s\<lparr>sc_censored := sc_censored s + 1, sc_halted := True\<rparr>
            in and_then (emit cfg (Censored_Row index (sc_attempts s) time reason (at_holdings a) (sc_reserved s)) log)
                 (\<lambda>log. Inr (s, log)))"

end
