(* ===== verification/Execution_Ledger.thy ===== *)
theory Execution_Ledger
  imports Basket_Execution
begin

text \<open>
  Why the basket execution study keeps its ledger: the invariant of a scenario, that every operation
  keeps it, and that none of the code's own checks can fail. An order never costs more than its
  reserve, because the reserve covers every execution of it; a scenario never spends cash it does not have;
  and the loop over due events ends.
\<close>

subsection \<open>What a fill takes\<close>

lemma fill_bounds_step:
  "min (desired - r) q \<noteq> 0 \<Longrightarrow> r \<le> desired \<Longrightarrow> 0 < q \<Longrightarrow> 0 < min (desired - r) q \<and> r + min (desired - r) q \<le> (desired :: int)"
  by linarith

definition level_fills :: "(int \<times> int \<times> int) list \<Rightarrow> (quantity \<times> price) list" where
  "level_fills taken = map (\<lambda>(p, q, cash). (quantity_value q, the (price_from_raw p))) taken"

lemma the_price_of_raw [simp]: "the (price_from_raw (price_raw p)) = p"
  using price_raw_bounds [of p] by (simp add: price_from_raw_def limits)

lemma level_fills_snoc [simp]: "level_fills (taken @ [(p, q, cash)]) = level_fills taken @ [(quantity_value q, the (price_from_raw p))]"
  by (simp add: level_fills_def)

definition positive_levels :: "buy_level list \<Rightarrow> bool" where
  "positive_levels ls \<longleftrightarrow> (\<forall>l \<in> set ls. 0 < quantity_raw (bl_quantity l))"

lemma positive_levels_simps [simp]:
  "positive_levels []" "positive_levels (l # ls) \<longleftrightarrow> 0 < quantity_raw (bl_quantity l) \<and> positive_levels ls"
  by (simp_all add: positive_levels_def)

text \<open>A fill so far: its levels are a ladder of charges (or credits) within the limit and the quantity.\<close>

definition fill_ok :: "bool \<Rightarrow> fee_policy \<Rightarrow> int \<Rightarrow> int \<Rightarrow> fill \<Rightarrow> fee_accumulator \<Rightarrow> bool" where
  "fill_ok sell fee desired limit f acc \<longleftrightarrow>
     0 \<le> fl_quantity f \<and> fl_quantity f \<le> desired \<and> 0 \<le> fl_cash f \<and> 0 \<le> fl_limit f \<and> fl_limit f \<le> 10000 \<and>
     (\<forall>(p, q, cash) \<in> set (fl_levels f). 0 < q \<and> q \<le> desired \<and> 0 \<le> p \<and> p \<le> 10000 \<and> (if sell then limit \<le> p else p \<le> limit)) \<and>
     fills_quantity (level_fills (fl_levels f)) = fl_quantity f \<and>
     acc_nat acc \<le> 10000 * length (fl_levels f) \<and> (sell \<longrightarrow> fl_cash f \<le> 10000 * fl_quantity f) \<and>
     (\<not> sell \<longrightarrow> (\<exists>n. ladder charge_buy_fill fee (level_fills (fl_levels f)) \<lparr>rounding_micro = 0\<rparr> = Some (n, fl_cash f, acc)))"

lemma fill_ok_none [simp]: "0 \<le> desired \<Longrightarrow> fill_ok sell fee desired limit no_fill \<lparr>rounding_micro = 0\<rparr>"
  by (simp add: fill_ok_def no_fill_def level_fills_def)

lemma fills_quantity_append: "fills_quantity (xs @ ys) = fills_quantity xs + fills_quantity ys"
  by (simp add: fills_quantity_def)

lemma fill_ok_step:
  assumes ok: "fill_ok sell fee desired limit f acc" and pol: "policy_ok fee"
    and len: "length (fl_levels f) \<le> 100000" and bound: "desired \<le> 100000000"
    and q: "q = min (desired - fl_quantity f) (quantity_raw (bl_quantity l))" "q \<noteq> 0" "0 < quantity_raw (bl_quantity l)"
    and within: "if sell then limit \<le> price_raw (bl_price l) else price_raw (bl_price l) \<le> limit"
  shows "\<exists>cash acc'. fill_cost sell q (bl_price l) fee acc = Inr (cash, acc') \<and>
    fill_ok sell fee desired limit
      \<lparr>fl_quantity = fl_quantity f + q, fl_cash = fl_cash f + cash, fl_limit = price_raw (bl_price l),
       fl_levels = fl_levels f @ [(price_raw (bl_price l), q, cash)]\<rparr> acc'"
proof -
  have range: "0 < q" "fl_quantity f + q \<le> desired" "0 \<le> fl_quantity f"
    using fill_bounds_step [of desired "fl_quantity f" "quantity_raw (bl_quantity l)"] ok q by (simp_all add: fill_ok_def)
  then have qb: "q \<le> desired" "q \<le> 100000000" "quantity_raw (quantity_value q) = q" using bound by simp_all
  have acc: "acc_nat acc \<le> 1000000000000" using ok len by (simp add: fill_ok_def)
  have common: "fills_quantity (level_fills (fl_levels f @ [(price_raw (bl_price l), q, cash)])) = fl_quantity f + q" for cash
    using ok qb by (simp add: fill_ok_def fills_quantity_append)
  show ?thesis
  proof (cases sell)
    case True
    obtain c acc' where c: "credit_sell_fill (quantity_value q) (bl_price l) fee acc = Some (c, acc')" "acc_nat acc' \<le> acc_nat acc + 10000"
      using credit_total [OF pol _ _ acc, of "quantity_value q" "bl_price l"] range qb by auto
    have "cash_raw (fr_credit c) \<le> q * price_raw (bl_price l)" using credit_accounts [OF c(1)] qb by simp
    also have "\<dots> \<le> 10000 * q" using price_raw_bounds [of "bl_price l"] range by (simp add: mult.commute [of q] mult_right_mono)
    finally have credit: "fl_cash f + cash_raw (fr_credit c) \<le> 10000 * (fl_quantity f + q)"
      using ok True by (simp add: fill_ok_def)
    have "fill_ok sell fee desired limit
      \<lparr>fl_quantity = fl_quantity f + q, fl_cash = fl_cash f + cash_raw (fr_credit c), fl_limit = price_raw (bl_price l),
       fl_levels = fl_levels f @ [(price_raw (bl_price l), q, cash_raw (fr_credit c))]\<rparr> acc'"
      using ok common range qb c(2) within True credit unfolding fill_ok_def by auto
    then show ?thesis using c True by (simp add: fill_cost_def)
  next
    case False
    obtain n where lad: "ladder charge_buy_fill fee (level_fills (fl_levels f)) \<lparr>rounding_micro = 0\<rparr> = Some (n, fl_cash f, acc)"
      using ok False by (auto simp: fill_ok_def)
    obtain c acc' where c: "charge_buy_fill (quantity_value q) (bl_price l) fee acc = Some (c, acc')"
      using charge_total [OF pol _ _ acc, of "quantity_value q" "bl_price l"] range qb by auto
    have "ladder charge_buy_fill fee (level_fills (fl_levels f) @ [(quantity_value q, bl_price l)]) \<lparr>rounding_micro = 0\<rparr> =
        Some (n + cash_raw (fc_notional c), fl_cash f + cash_raw (fc_debit c), acc')"
      by (simp add: fees.ladder_append lad c)
    then have "fill_ok sell fee desired limit
      \<lparr>fl_quantity = fl_quantity f + q, fl_cash = fl_cash f + cash_raw (fc_debit c), fl_limit = price_raw (bl_price l),
       fl_levels = fl_levels f @ [(price_raw (bl_price l), q, cash_raw (fc_debit c))]\<rparr> acc'"
      using ok common range qb charge_acc_growth [OF c] within False unfolding fill_ok_def by auto
    then show ?thesis using c False by (simp add: fill_cost_def)
  qed
qed

lemma fill_levels_ok:
  "fill_ok sell fee desired limit f acc \<Longrightarrow> policy_ok fee \<Longrightarrow> length (fl_levels f) + length ls \<le> 100000 \<Longrightarrow> desired \<le> 100000000 \<Longrightarrow>
     positive_levels ls \<Longrightarrow> \<exists>f' acc'. fill_levels sell fee desired limit ls f acc = Inr f' \<and> fill_ok sell fee desired limit f' acc'"
proof (induction ls arbitrary: f acc)
  case (Cons l ls)
  let ?p = "price_raw (bl_price l)" and ?q = "min (desired - fl_quantity f) (quantity_raw (bl_quantity l))"
  show ?case
  proof (cases "(\<not> sell \<and> limit < ?p) \<or> (sell \<and> ?p < limit) \<or> ?q = 0")
    case True
    then show ?thesis using Cons.prems(1) by (auto simp: Let_def)
  next
    case False
    then have within: "if sell then limit \<le> ?p else ?p \<le> limit" by auto
    from fill_ok_step [OF Cons.prems(1,2) _ Cons.prems(4) refl _ _ within] False Cons.prems obtain cash acc' where
      step: "fill_cost sell ?q (bl_price l) fee acc = Inr (cash, acc')"
        "fill_ok sell fee desired limit \<lparr>fl_quantity = fl_quantity f + ?q, fl_cash = fl_cash f + cash, fl_limit = ?p,
           fl_levels = fl_levels f @ [(?p, ?q, cash)]\<rparr> acc'" by auto
    have "fill_levels sell fee desired limit (l # ls) f acc = fill_levels sell fee desired limit ls
        \<lparr>fl_quantity = fl_quantity f + ?q, fl_cash = fl_cash f + cash, fl_limit = ?p, fl_levels = fl_levels f @ [(?p, ?q, cash)]\<rparr> acc'"
      using False step(1) by (cases sell) (simp_all add: Let_def)
    with Cons.IH [OF step(2)] Cons.prems show ?thesis by simp
  qed
qed auto

text \<open>A purchase within its quantity and limit costs no more than the reserve of the whole order.\<close>

lemma fill_within_reserve:
  assumes "fill_ok False fee desired limit f acc" and "policy_ok fee" and "desired \<le> 100000000" and "0 \<le> limit" and "limit \<le> 10000"
  shows "fl_cash f \<le> reserve_amount fee 1 limit desired"
proof -
  obtain n where lad: "ladder charge_buy_fill fee (level_fills (fl_levels f)) \<lparr>rounding_micro = 0\<rparr> = Some (n, fl_cash f, acc)"
    using assms(1) by (auto simp: fill_ok_def)
  let ?q = "fl_quantity f" and ?limit = "the (price_from_raw limit)"
  have q: "0 \<le> ?q" "?q \<le> desired" using assms(1) by (simp_all add: fill_ok_def)
  have lim: "price_raw ?limit = limit" using assms(4,5) by (simp add: price_from_raw_def limits)
  have qv: "quantity_raw (quantity_value ?q) = ?q" "quantity_raw (quantity_value 1) = 1" using q assms(3) by simp_all
  have ok: "reserve_ok fee 1 ?q" "reserve_ok fee 1 desired" using assms(2,3) q by (simp_all add: reserve_ok_def)
  obtain r where r: "buy_reservation (quantity_value ?q) (quantity_value 1) ?limit fee = Some r" "cash_raw r = reserve_amount fee 1 limit ?q"
    using buy_reservation_raw [of fee "quantity_value 1" "quantity_value ?q" ?limit] ok by (auto simp: qv lim)
  have "fills_within 1 limit (level_fills (fl_levels f))"
    using assms(1,3) by (auto simp: fills_within_def level_fills_def fill_ok_def price_from_raw_def limits split: prod.splits)
  then have "fl_cash f \<le> cash_raw r"
    using reservation_covers_lemma [of "quantity_value 1" ?limit "level_fills (fl_levels f)" "quantity_value ?q" fee r] r(1) lad assms(1)
    by (simp add: qv lim fill_ok_def)
  also have "\<dots> \<le> reserve_amount fee 1 limit desired"
    unfolding r(2) using ok(2) q assms(4) by (intro reserve_amount_mono) simp_all
  finally show ?thesis .
qed


subsection \<open>What the levels offer\<close>

definition side_ok :: "bool \<Rightarrow> physical list \<Rightarrow> bool" where
  "side_ok ask side \<longleftrightarrow>
     sorted_wrt (\<lambda>x y. if ask then x < y else y < x) (map ph_price side) \<and>
     (\<forall>l \<in> set side. 0 \<le> ph_price l \<and> ph_price l \<le> 10000)"

definition cached_ok :: "cached \<Rightarrow> bool" where
  "cached_ok m \<longleftrightarrow> policy_ok (ca_fee m) \<and> side_ok False (ca_bids m) \<and> side_ok True (ca_asks m)"

definition cache_ok :: "market_cache \<Rightarrow> bool" where
  "cache_ok markets \<longleftrightarrow> (\<forall>m c. markets m = Some c \<longrightarrow> cached_ok c)"

text \<open>The price of a level on the side of its outcome.\<close>

lemma outcome_price:
  "0 \<le> p \<Longrightarrow> p \<le> 10000 \<Longrightarrow> price_raw (the (price_from_raw (if yes then p else 10000 - p))) = (if yes then p else 10000 - p)"
  by (simp add: price_from_raw_def limits)

lemma collect_levels_Cons:
  assumes "taken = min (max 0 (ph_quantity l - used (ph_price l))) (cap - collected)"
  shows "collect_levels cap used yes collected (l # side) =
    (if taken = 0 then collect_levels cap used yes collected side
     else
       \<lparr>bl_price = the (price_from_raw (if yes then ph_price l else 10000 - ph_price l)), bl_quantity = quantity_value taken\<rparr> #
       (if collected + taken = cap then [] else collect_levels cap used yes (collected + taken) side))"
  by (simp add: Let_def flip: assms)

declare collect_levels.simps(2) [simp del]

lemma collect_levels_ok:
  assumes "\<forall>l \<in> set side. 0 \<le> ph_price l \<and> ph_price l \<le> 10000" and "0 \<le> collected" and "collected < cap" and "cap \<le> 100000000"
  shows "positive_levels (collect_levels cap used yes collected side) \<and>
    length (collect_levels cap used yes collected side) \<le> length side \<and>
    collected + levels_total (collect_levels cap used yes collected side) \<le> cap \<and>
    (\<forall>x \<in> set (collect_levels cap used yes collected side). \<exists>l \<in> set side.
       price_raw (bl_price x) = (if yes then ph_price l else 10000 - ph_price l))"
  using assms
proof (induction side arbitrary: collected)
  case (Cons l side)
  define taken where "taken = min (max 0 (ph_quantity l - used (ph_price l))) (cap - collected)"
  have range: "0 \<le> taken" "collected + taken \<le> cap" using Cons.prems by (simp_all add: taken_def)
  have price: "0 \<le> ph_price l" "ph_price l \<le> 10000" using Cons.prems(1) by simp_all
  show ?case
  proof (cases "taken = 0")
    case True
    then have "collect_levels cap used yes collected (l # side) = collect_levels cap used yes collected side"
      by (simp add: collect_levels_Cons [where used = used, OF taken_def])
    then show ?thesis using Cons.IH [of collected] Cons.prems by auto
  next
    case False
    then have eq: "collect_levels cap used yes collected (l # side) =
        \<lparr>bl_price = the (price_from_raw (if yes then ph_price l else 10000 - ph_price l)), bl_quantity = quantity_value taken\<rparr> #
        (if collected + taken = cap then [] else collect_levels cap used yes (collected + taken) side)"
      by (simp add: collect_levels_Cons [where used = used, OF taken_def])
    have "quantity_raw (quantity_value taken) = taken" using range Cons.prems by simp
    then show ?thesis
      unfolding eq using Cons.IH [of "collected + taken"] Cons.prems range False outcome_price [OF price]
      by (cases "collected + taken = cap") auto
  qed
qed simp

lemma collect_levels_sorted:
  assumes "side_ok yes side" and "0 \<le> collected" and "collected < cap" and "cap \<le> 100000000"
  shows "sorted_wrt (<) (level_prices (collect_levels cap used yes collected side))"
  using assms
proof (induction side arbitrary: collected)
  case (Cons l side)
  define taken where "taken = min (max 0 (ph_quantity l - used (ph_price l))) (cap - collected)"
  have range: "0 \<le> taken" "collected + taken \<le> cap" using Cons.prems by (simp_all add: taken_def)
  have ok: "side_ok yes side" "0 \<le> ph_price l" "ph_price l \<le> 10000" "\<forall>l \<in> set side. 0 \<le> ph_price l \<and> ph_price l \<le> 10000"
    using Cons.prems(1) by (simp_all add: side_ok_def)
  show ?case
  proof (cases "taken = 0")
    case True
    then have "collect_levels cap used yes collected (l # side) = collect_levels cap used yes collected side"
      by (simp add: collect_levels_Cons [where used = used, OF taken_def])
    then show ?thesis using Cons.IH [OF ok(1)] Cons.prems by simp
  next
    case False
    then have eq: "collect_levels cap used yes collected (l # side) =
        \<lparr>bl_price = the (price_from_raw (if yes then ph_price l else 10000 - ph_price l)), bl_quantity = quantity_value taken\<rparr> #
        (if collected + taken = cap then [] else collect_levels cap used yes (collected + taken) side)"
      by (simp add: collect_levels_Cons [where used = used, OF taken_def])
    show ?thesis
    proof (cases "collected + taken = cap")
      case True
      then show ?thesis by (simp add: eq)
    next
      case less: False
      then have rest: "0 \<le> collected + taken" "collected + taken < cap" using range Cons.prems by simp_all
      have "\<forall>l' \<in> set side. (if yes then ph_price l < ph_price l' else ph_price l' < ph_price l)"
        using Cons.prems(1) by (auto simp: side_ok_def)
      then have "\<forall>p \<in> set (level_prices (collect_levels cap used yes (collected + taken) side)).
          (if yes then ph_price l else 10000 - ph_price l) < p"
        using collect_levels_ok [OF ok(4) rest Cons.prems(4), of used yes] by (cases yes) fastforce+
      then show ?thesis
        using Cons.IH [OF ok(1) rest Cons.prems(4)] less outcome_price [OF ok(2,3)] by (simp add: eq)
    qed
  qed
qed simp

lemma strict_prices_length:
  assumes "side_ok far side"
  shows "length side \<le> 10001"
proof -
  have "distinct (map ph_price side)"
    using assms by (cases far; induction side) (force simp: side_ok_def)+
  then have "length side = card (set (map ph_price side))" using distinct_card [of "map ph_price side"] by simp
  also have "\<dots> \<le> card {0 .. 10000 :: int}" using assms by (intro card_mono) (auto simp: side_ok_def)
  finally show ?thesis by simp
qed

lemma levels_ok:
  assumes "cache_ok markets" and "markets market = Some m" and "0 < ec_cap cfg" and "ec_cap cfg \<le> 10000"
  shows "\<exists>ls. levels cfg markets s market yes sell = Inr ls \<and> positive_levels ls \<and> length ls \<le> 10001 \<and>
    levels_total ls \<le> ec_cap cfg \<and> (\<not> sell \<longrightarrow> sorted_wrt (<) (level_prices ls))"
proof -
  have sides: "side_ok False (ca_bids m)" "side_ok True (ca_asks m)"
    using assms(1,2) by (auto simp: cache_ok_def cached_ok_def)
  then have prices: "\<forall>l \<in> set (if far then ca_asks m else ca_bids m). 0 \<le> ph_price l \<and> ph_price l \<le> 10000"
    "length (if far then ca_asks m else ca_bids m) \<le> 10001" for far
    using strict_prices_length [OF sides(1)] strict_prices_length [OF sides(2)] sides by (simp_all add: side_ok_def)
  define far where "far = (yes \<noteq> sell)"
  let ?side = "if far then ca_asks m else ca_bids m"
  let ?ls = "collect_levels (ec_cap cfg) (\<lambda>p. used_liquidity s (market, far, p)) yes 0 ?side"
  have ls: "levels cfg markets s market yes sell = Inr (if ca_valid m then ?ls else [])"
    using assms(2) by (simp add: levels_def market_at_def Let_def far_def)
  have "sorted_wrt (<) (level_prices ?ls)" if "\<not> sell"
    using that collect_levels_sorted [of yes ?side 0 "ec_cap cfg"] assms(3,4) sides by (cases yes) (simp_all add: far_def)
  then show ?thesis
    using ls collect_levels_ok [OF prices(1) order_refl assms(3), where used = "\<lambda>p. used_liquidity s (market, far, p)" and yes = yes and far2 = far]
      prices(2) [of far] assms(3,4) by auto
qed

lemma fill_order_ok:
  assumes "cache_ok markets" and "markets market = Some m" and "0 < ec_cap cfg" and "ec_cap cfg \<le> 10000"
    and "0 \<le> desired" and "desired \<le> 10000"
  shows "\<exists>f acc. fill_order cfg markets s market yes sell desired limit applied =
      Inr (f, if applied then consume_liquidity market yes sell (fl_levels f) s else s) \<and>
    fill_ok sell (ca_fee m) desired limit f acc"
proof -
  obtain ls where ls: "levels cfg markets s market yes sell = Inr ls" "positive_levels ls" "length ls \<le> 10001"
    using levels_ok [OF assms(1-4)] by blast
  have "policy_ok (ca_fee m)" using assms(1,2) by (auto simp: cache_ok_def cached_ok_def)
  then obtain f acc where "fill_levels sell (ca_fee m) desired limit ls no_fill \<lparr>rounding_micro = 0\<rparr> = Inr f"
    "fill_ok sell (ca_fee m) desired limit f acc"
    using fill_levels_ok [OF fill_ok_none [OF assms(5), of sell "ca_fee m" limit], of ls] ls(2,3) assms(6) by (auto simp: no_fill_def)
  then show ?thesis using ls(1) assms(2) by (auto simp: fill_order_def market_at_def)
qed


subsection \<open>The invariant of a scenario\<close>

definition known_legs :: "market_cache \<Rightarrow> basket \<Rightarrow> bool" where
  "known_legs markets b \<longleftrightarrow> length (bt_ids b) = 3 \<and> (\<forall>m \<in> set (bt_ids b). markets m \<noteq> None)"

definition config_ok :: "exec_config \<Rightarrow> market_cache \<Rightarrow> bool" where
  "config_ok cfg markets \<longleftrightarrow> 100 \<le> ec_cap cfg \<and> ec_cap cfg \<le> 10000 \<and> ec_cap cfg mod 100 = 0 \<and>
     0 \<le> ec_margin cfg \<and> ec_margin cfg \<le> 1000000000000000 \<and> cache_ok markets \<and>
     (\<forall>i b. ec_baskets cfg i = Some b \<longrightarrow> known_legs markets b)"

definition ledger_ok :: "exec_config \<Rightarrow> scenario \<Rightarrow> bool" where
  "ledger_ok cfg s \<longleftrightarrow> sc_cash s = ec_capital cfg - sc_spent s + sc_received s \<and> 0 \<le> sc_cash s \<and>
     0 \<le> sc_reserved s \<and> sc_reserved s \<le> sc_cash s"

lemma ledger_not_broken: "ledger_ok cfg s \<Longrightarrow> \<not> ledger_broken cfg s"
  by (simp add: ledger_ok_def ledger_broken_def)

definition outstanding :: "attempt option \<Rightarrow> int" where
  "outstanding attempt = (case attempt of None \<Rightarrow> 0 | Some a \<Rightarrow> at_spent a - at_received a)"

text \<open>What holds of an attempt under way, apart from its stage.\<close>

definition underway :: "exec_config \<Rightarrow> market_cache \<Rightarrow> attempt \<Rightarrow> scenario \<Rightarrow> bool" where
  "underway cfg markets a s \<longleftrightarrow> ledger_ok cfg s \<and> \<not> sc_halted s \<and> 0 < sc_delay s \<and> known_legs markets (at_basket a) \<and>
     0 < at_quantity a \<and> at_quantity a \<le> 10000 \<and> length (at_holdings a) = 3 \<and>
     (\<forall>i < 3. 0 \<le> at_holdings a ! i \<and> at_holdings a ! i \<le> at_quantity a) \<and> 0 \<le> at_spent a \<and> 0 \<le> at_received a \<and>
     ec_capital cfg - sc_complete_cost s + sc_unwind_net s - (at_spent a - at_received a) \<le> sc_cash s"

text \<open>A purchase in flight: what is reserved is the reserve of the order, and nothing later is held.\<close>

definition stage_ok :: "market_cache \<Rightarrow> attempt \<Rightarrow> scenario \<Rightarrow> bool" where
  "stage_ok markets a s \<longleftrightarrow> at_leg a < 3 \<and>
     (case at_stage a of
        Buy_Arrival \<Rightarrow> at_received a = 0 \<and> (\<forall>i < 3. at_leg a \<le> i \<longrightarrow> at_holdings a ! i = 0) \<and> sc_reserved s = at_reserve a \<and>
          0 \<le> at_limit a \<and> at_limit a \<le> 10000 \<and>
          (\<exists>m. markets (bt_ids (at_basket a) ! at_leg a) = Some m \<and>
            at_reserve a = reserve_amount (ca_fee m) 1 (at_limit a) (at_quantity a))
      | Buy_Response \<Rightarrow> at_received a = 0 \<and> (\<forall>i < 3. at_leg a < i \<longrightarrow> at_holdings a ! i = 0)
      | _ \<Rightarrow> sc_reserved s = 0)"

definition scenario_ok :: "exec_config \<Rightarrow> market_cache \<Rightarrow> scenario \<Rightarrow> bool" where
  "scenario_ok cfg markets s \<longleftrightarrow> ledger_ok cfg s \<and> 0 < sc_delay s \<and>
     ec_capital cfg - sc_complete_cost s + sc_unwind_net s - outstanding (sc_attempt s) \<le> sc_cash s \<and>
     (\<not> sc_halted s \<longrightarrow>
       (case sc_attempt s of None \<Rightarrow> sc_reserved s = 0 | Some a \<Rightarrow> underway cfg markets a s \<and> stage_ok markets a s))"

text \<open>The exceptions the environment can cause, as opposed to a broken ledger.\<close>

definition external_error :: "string \<Rightarrow> bool" where
  "external_error e \<longleftrightarrow> e \<in> {''event time overflow'', ''execution trace budget'', ''execution trace write''}"

definition returns :: "('a \<Rightarrow> bool) \<Rightarrow> string + 'a \<Rightarrow> bool" where
  "returns P r = (case r of Inl e \<Rightarrow> external_error e | Inr x \<Rightarrow> P x)"

lemma returns_simps [simp]: "returns P (Inr x) = P x" "returns P (Inl e) = external_error e"
  by (simp_all add: returns_def)

lemma returns_and_then: "returns Q r \<Longrightarrow> (\<And>x. Q x \<Longrightarrow> returns P (f x)) \<Longrightarrow> returns P (and_then r f)"
  by (cases r) simp_all

lemma returns_mono: "returns Q r \<Longrightarrow> (\<And>x. Q x \<Longrightarrow> P x) \<Longrightarrow> returns P r"
  by (cases r) simp_all

lemma emit_returns: "returns (\<lambda>log. True) (emit cfg row log)"
  by (simp add: emit_def Let_def external_error_def)

lemma later_returns: "returns (\<lambda>due. due = time + delay) (later time delay)"
  by (simp add: later_def external_error_def)

text \<open>After an event at some time: the invariant, and nothing more due before a delay has passed.\<close>

definition after_event :: "exec_config \<Rightarrow> market_cache \<Rightarrow> int \<Rightarrow> scenario \<Rightarrow> scenario \<times> exec_log \<Rightarrow> bool" where
  "after_event cfg markets time s r \<longleftrightarrow> scenario_ok cfg markets (fst r) \<and> sc_delay (fst r) = sc_delay s \<and>
     (\<forall>a. sc_attempt (fst r) = Some a \<longrightarrow> \<not> sc_halted (fst r) \<longrightarrow> at_due a = time + sc_delay s)"

lemma skip_empty_props:
  "leg \<le> 3 \<Longrightarrow> skip_empty holdings leg \<le> 3 \<and> (skip_empty holdings leg < 3 \<longrightarrow> holdings ! skip_empty holdings leg \<noteq> 0)"
proof (induction holdings leg rule: skip_empty.induct)
  case (1 holdings leg)
  then show ?case by (subst (1 2 3) skip_empty.simps) auto
qed

lemma underway_scenario:
  "underway cfg markets a s \<Longrightarrow> stage_ok markets a s \<Longrightarrow> scenario_ok cfg markets (s\<lparr>sc_attempt := Some a\<rparr>)"
  by (auto simp: scenario_ok_def underway_def stage_ok_def outstanding_def ledger_ok_def split: stage.splits)

lemma send_exit_returns:
  assumes run: "underway cfg markets a s" and leg: "at_leg a \<le> 3" and reserved: "sc_reserved s = 0"
  shows "returns (after_event cfg markets time s) (send_exit cfg index time a s log)"
proof -
  define leg' where "leg' = skip_empty (at_holdings a) (at_leg a)"
  have leg': "leg' \<le> 3" using skip_empty_props [OF leg] by (simp add: leg'_def)
  have base: "ledger_ok cfg s" "0 < sc_delay s" "0 \<le> at_received a"
    "ec_capital cfg - sc_complete_cost s + sc_unwind_net s - (at_spent a - at_received a) \<le> sc_cash s"
    using run by (simp_all add: underway_def)
  show ?thesis
  proof (cases "leg' = 3")
    case True
    then show ?thesis
      unfolding send_exit_def Let_def using base reserved leg'_def
      by (auto intro!: returns_and_then [OF emit_returns]
          simp: after_event_def scenario_ok_def ledger_ok_def outstanding_def)
  next
    case False
    let ?a = "\<lambda>due. a\<lparr>at_leg := leg', at_stage := Sell_Arrival, at_due := due\<rparr>"
    have ok: "scenario_ok cfg markets (s\<lparr>sc_attempt := Some (?a due)\<rparr>)" for due
      using run leg' False reserved by (intro underway_scenario) (simp_all add: underway_def stage_ok_def)
    show ?thesis
      unfolding send_exit_def Let_def using False ok leg'_def
      by (auto intro!: returns_and_then [OF later_returns] returns_and_then [OF emit_returns] simp: after_event_def)
  qed
qed

lemma begin_exit_returns:
  assumes "underway cfg markets a s"
  shows "returns (after_event cfg markets time s) (begin_exit cfg index time reason a s log)"
proof -
  let ?a = "a\<lparr>at_reason := reason, at_leg := 0\<rparr>" and ?s = "s\<lparr>sc_reserved := 0\<rparr>"
  have "underway cfg markets ?a ?s" using assms by (simp add: underway_def ledger_ok_def)
  then have "returns (after_event cfg markets time ?s) (send_exit cfg index time ?a ?s log')" for log'
    by (intro send_exit_returns) simp_all
  moreover have "after_event cfg markets time ?s = after_event cfg markets time s"
    by (simp add: after_event_def fun_eq_iff)
  ultimately show ?thesis
    unfolding begin_exit_def Let_def by (intro returns_and_then [OF emit_returns]) simp
qed


subsection \<open>Every event keeps the invariant\<close>

lemma config_cap: "config_ok cfg markets \<Longrightarrow> cache_ok markets \<and> 0 < ec_cap cfg \<and> ec_cap cfg \<le> 10000"
  by (simp add: config_ok_def)

lemma known_market:
  assumes "known_legs markets b" and "i < 3"
  shows "\<exists>m. markets (bt_ids b ! i) = Some m"
  using assms by (auto simp: known_legs_def dest: bspec [of _ _ "bt_ids b ! i"])

lemma after_event_cong: "sc_delay s = sc_delay s' \<Longrightarrow> after_event cfg markets time s = after_event cfg markets time s'"
  by (simp add: after_event_def fun_eq_iff)

lemma attempt_fill:
  assumes "config_ok cfg markets" and "markets market = Some m" and "0 \<le> desired" and "desired \<le> 10000"
  shows "\<exists>f acc. fill_order cfg markets s market yes sell desired limit applied =
      Inr (f, if applied then consume_liquidity market yes sell (fl_levels f) s else s) \<and>
    fill_ok sell (ca_fee m) desired limit f acc"
  using fill_order_ok [where markets = markets and market = market and m = m] config_cap [OF assms(1)] assms(2-) by blast

lemma project_later:
  "config_ok cfg markets \<Longrightarrow> known_legs markets (at_basket a) \<Longrightarrow> 0 \<le> at_quantity a \<Longrightarrow> at_quantity a \<le> 10000 \<Longrightarrow>
     at_leg a < leg \<Longrightarrow> project_legs cfg markets s a leg projected current = Inr None \<or>
       (\<exists>p. project_legs cfg markets s a leg projected current = Inr (Some (p, current)))"
proof (induction cfg markets s a leg projected current rule: project_legs.induct)
  case (1 cfg markets s a leg projected current)
  show ?case
  proof (cases "leg < 3")
    case True
    obtain m where m: "markets (bt_ids (at_basket a) ! leg) = Some m" using known_market [OF "1.prems"(2) True] by blast
    obtain f acc where f: "fill_order cfg markets s (bt_ids (at_basket a) ! leg) (leg = 0) False (at_quantity a) 10000 False = Inr (f, s)"
      using attempt_fill [of cfg markets "bt_ids (at_basket a) ! leg" m "at_quantity a" s "leg = 0" False 10000 False] m "1.prems" by auto
    have "project_legs cfg markets s a leg projected current =
      (if fl_quantity f \<noteq> at_quantity a then Inr None
       else project_legs cfg markets s a (Suc leg) (projected + fl_cash f) (if leg = at_leg a then f else current))"
      using True f by (subst project_legs.simps) simp
    moreover have "leg \<noteq> at_leg a" using "1.prems"(5) by simp
    ultimately show ?thesis using "1.IH" [of f] "1.prems" True by (auto split: if_splits)
  qed (simp add: project_legs.simps)
qed

lemma project_current:
  assumes cfg: "config_ok cfg markets" and known: "known_legs markets (at_basket a)" and q: "0 < at_quantity a" "at_quantity a \<le> 10000"
    and leg: "at_leg a < 3" and m: "markets (bt_ids (at_basket a) ! at_leg a) = Some m"
  shows "project_legs cfg markets s a (at_leg a) projected no_fill = Inr None \<or>
    (\<exists>p f acc. project_legs cfg markets s a (at_leg a) projected no_fill = Inr (Some (p, f)) \<and>
       fill_ok False (ca_fee m) (at_quantity a) 10000 f acc)"
proof -
  obtain f acc where f: "fill_order cfg markets s (bt_ids (at_basket a) ! at_leg a) (at_leg a = 0) False (at_quantity a) 10000 False = Inr (f, s)"
    "fill_ok False (ca_fee m) (at_quantity a) 10000 f acc"
    using attempt_fill [of cfg markets "bt_ids (at_basket a) ! at_leg a" m "at_quantity a" s "at_leg a = 0" False 10000 False] m cfg q by auto
  show ?thesis
    using project_later [OF cfg known, of "Suc (at_leg a)" s "projected + fl_cash f" f] q leg f
    by (subst (1 2) project_legs.simps) auto
qed

lemma send_buy_returns:
  assumes cfg: "config_ok cfg markets" and run: "underway cfg markets a s" and leg: "at_leg a < 3" and reserved: "sc_reserved s = 0"
    and none: "at_received a = 0" "\<forall>i < 3. at_leg a \<le> i \<longrightarrow> at_holdings a ! i = 0"
  shows "returns (after_event cfg markets time s) (send_buy cfg markets index time a s log)"
proof -
  have known: "known_legs markets (at_basket a)" and q: "0 < at_quantity a" "at_quantity a \<le> 10000"
    using run by (simp_all add: underway_def)
  obtain m where m: "markets (bt_ids (at_basket a) ! at_leg a) = Some m" using known_market [OF known leg] by blast
  have pol: "policy_ok (ca_fee m)" using cfg m by (auto simp: config_ok_def cache_ok_def cached_ok_def)
  note exit = begin_exit_returns [OF run, of time index]
  from project_current [OF cfg known q leg m, of s "at_spent a"] show ?thesis
  proof (elim disjE exE conjE)
    assume "project_legs cfg markets s a (at_leg a) (at_spent a) no_fill = Inr None"
    then show ?thesis using exit by (simp add: send_buy_def)
  next
    fix p f acc
    assume proj: "project_legs cfg markets s a (at_leg a) (at_spent a) no_fill = Inr (Some (p, f))"
      and fill: "fill_ok False (ca_fee m) (at_quantity a) 10000 f acc"
    let ?limit = "the (price_from_raw (fl_limit f))"
    have lim: "0 \<le> fl_limit f" "fl_limit f \<le> 10000" "price_raw ?limit = fl_limit f"
      using fill by (simp_all add: fill_ok_def price_from_raw_def limits)
    have qv: "quantity_raw (quantity_value (at_quantity a)) = at_quantity a" "quantity_raw (quantity_value 1) = 1" using q by simp_all
    have "reserve_ok (ca_fee m) 1 (at_quantity a)" using pol q by (simp add: reserve_ok_def)
    then obtain r where r: "buy_reservation (quantity_value (at_quantity a)) (quantity_value 1) ?limit (ca_fee m) = Some r"
      "cash_raw r = reserve_amount (ca_fee m) 1 (fl_limit f) (at_quantity a)"
      using buy_reservation_raw [of "ca_fee m" "quantity_value 1" "quantity_value (at_quantity a)" ?limit] by (auto simp: qv lim)
    show ?thesis
    proof (cases "at_quantity a * 20000 - ec_margin cfg < p")
      case True
      have "underway cfg markets a (s\<lparr>sc_budget_aborts := sc_budget_aborts s + 1\<rparr>)"
        using run by (simp add: underway_def ledger_ok_def)
      from begin_exit_returns [OF this, of time index "''basket_cost_budget''" log] show ?thesis
        using proj True after_event_cong [of "s\<lparr>sc_budget_aborts := sc_budget_aborts s + 1\<rparr>" s] by (simp add: send_buy_def)
    next
      case False
      show ?thesis
      proof (cases "sc_cash s < cash_raw r")
        case True
        then show ?thesis using exit proj False m r(1) by (simp add: send_buy_def market_at_def)
      next
        case fund: False
        define peak where "peak = max (sc_peak_encumbered s) (ec_capital cfg - sc_cash s + cash_raw r)"
        let ?s = "s\<lparr>sc_reserved := cash_raw r, sc_peak_encumbered := peak\<rparr>"
        let ?a = "\<lambda>due. a\<lparr>at_limit := fl_limit f, at_reserve := cash_raw r, at_stage := Buy_Arrival, at_due := due\<rparr>"
        have ok: "scenario_ok cfg markets (?s\<lparr>sc_attempt := Some (?a due)\<rparr>)" for due
          using run none leg fund lim m r(2) cash_raw_bounds(1) [of r]
          by (intro underway_scenario) (simp_all add: underway_def stage_ok_def ledger_ok_def)
        have eq: "send_buy cfg markets index time a s log =
          and_then (later time (sc_delay s)) (\<lambda>due. and_then (emit cfg (Submit_Row index (sc_attempts s) time due (at_leg a) False
             (at_quantity a) (fl_limit f) (Some p)) log) (\<lambda>log. Inr (?s\<lparr>sc_attempt := Some (?a due)\<rparr>, log)))"
          using proj False fund m r(1) by (simp add: send_buy_def market_at_def Let_def peak_def)
        show ?thesis
          unfolding eq using ok
          by (auto intro!: returns_and_then [OF later_returns] returns_and_then [OF emit_returns] simp: after_event_def)
      qed
    qed
  qed
qed

lemma consume_frame [simp]:
  "ledger_ok cfg (consume_liquidity market yes sell taken s) = ledger_ok cfg s"
  "sc_delay (consume_liquidity market yes sell taken s) = sc_delay s"
  "sc_cash (consume_liquidity market yes sell taken s) = sc_cash s"
  "sc_spent (consume_liquidity market yes sell taken s) = sc_spent s"
  "sc_received (consume_liquidity market yes sell taken s) = sc_received s"
  "sc_reserved (consume_liquidity market yes sell taken s) = sc_reserved s"
  "sc_halted (consume_liquidity market yes sell taken s) = sc_halted s"
  "sc_complete_cost (consume_liquidity market yes sell taken s) = sc_complete_cost s"
  "sc_unwind_net (consume_liquidity market yes sell taken s) = sc_unwind_net s"
  "sc_attempts (consume_liquidity market yes sell taken s) = sc_attempts s"
  by (induction market yes sell taken s rule: consume_liquidity.induct) (simp_all add: Let_def ledger_ok_def)

lemma order_arrival_returns:
  assumes cfg: "config_ok cfg markets" and run: "underway cfg markets a s" and stage: "stage_ok markets a s"
    and arrival: "at_stage a = Buy_Arrival \<or> at_stage a = Sell_Arrival"
  shows "returns (after_event cfg markets (at_due a) s) (order_arrival cfg markets index a s log)"
proof -
  define sell where "sell \<longleftrightarrow> at_stage a = Sell_Arrival"
  have known: "known_legs markets (at_basket a)" and q: "0 < at_quantity a" "at_quantity a \<le> 10000" and leg: "at_leg a < 3"
    and h: "length (at_holdings a) = 3" "\<forall>i < 3. 0 \<le> at_holdings a ! i \<and> at_holdings a ! i \<le> at_quantity a"
    using run stage by (simp_all add: underway_def stage_ok_def)
  obtain m where m: "markets (bt_ids (at_basket a) ! at_leg a) = Some m" using known_market [OF known leg] by blast
  have pol: "policy_ok (ca_fee m)" using cfg m by (auto simp: config_ok_def cache_ok_def cached_ok_def)
  define desired where "desired = (if sell then at_holdings a ! at_leg a else at_quantity a)"
  define lim where "lim = (if sell then 0 else at_limit a)"
  have desired: "0 \<le> desired" "desired \<le> 10000" using h leg q by (auto simp: desired_def order_trans [of _ "at_quantity a"])
  obtain f acc where f: "fill_order cfg markets s (bt_ids (at_basket a) ! at_leg a) (at_leg a = 0) sell desired lim True =
      Inr (f, consume_liquidity (bt_ids (at_basket a) ! at_leg a) (at_leg a = 0) sell (fl_levels f) s)"
    and ok: "fill_ok sell (ca_fee m) desired lim f acc"
    using attempt_fill [of cfg markets "bt_ids (at_basket a) ! at_leg a" m desired s "at_leg a = 0" sell lim True] m cfg desired by auto
  have fq: "0 \<le> fl_quantity f" "fl_quantity f \<le> desired" "0 \<le> fl_cash f" using ok by (simp_all add: fill_ok_def)
  let ?s = "consume_liquidity (bt_ids (at_basket a) ! at_leg a) (at_leg a = 0) sell (fl_levels f) s"
  have run': "underway cfg markets a ?s" using run by (simp add: underway_def)
  show ?thesis
  proof (cases sell)
    case True
    let ?s' = "?s\<lparr>sc_cash := sc_cash s + fl_cash f, sc_received := sc_received s + fl_cash f\<rparr>"
    let ?a = "\<lambda>due. a\<lparr>at_holdings := (at_holdings a)[at_leg a := at_holdings a ! at_leg a - fl_quantity f],
        at_received := at_received a + fl_cash f, at_stage := Sell_Response, at_due := due\<rparr>"
    have "underway cfg markets (?a due) ?s'" for due
      using run' fq h leg True by (auto simp: underway_def ledger_ok_def desired_def nth_list_update)
    moreover have "stage_ok markets (?a due) ?s'" for due using stage True by (simp add: stage_ok_def sell_def)
    ultimately have res: "scenario_ok cfg markets (?s'\<lparr>sc_attempt := Some (?a due)\<rparr>)" for due by (rule underway_scenario)
    have eq: "order_arrival cfg markets index a s log =
      and_then (emit cfg (Fill_Row index (sc_attempts s) (at_due a) (at_leg a) True (fl_quantity f) (fl_cash f) (fl_levels f)) log) (\<lambda>log.
      and_then (later (at_due a) (sc_delay s)) (\<lambda>due. Inr (?s'\<lparr>sc_attempt := Some (?a due)\<rparr>, log)))"
      using f True arrival by (simp add: order_arrival_def Let_def sell_def desired_def lim_def)
    show ?thesis
      unfolding eq using res
      by (auto intro!: returns_and_then [OF later_returns] returns_and_then [OF emit_returns] simp: after_event_def)
  next
    case False
    then have st: "at_stage a = Buy_Arrival" using arrival by (simp add: sell_def)
    have buy: "at_received a = 0" "\<forall>i < 3. at_leg a \<le> i \<longrightarrow> at_holdings a ! i = 0" "sc_reserved s = at_reserve a"
      "0 \<le> at_limit a" "at_limit a \<le> 10000" "at_reserve a = reserve_amount (ca_fee m) 1 (at_limit a) (at_quantity a)"
      using stage st m by (auto simp: stage_ok_def)
    have fee: "fl_cash f \<le> at_reserve a"
      using fill_within_reserve [of "ca_fee m" desired lim f acc] pol q buy(4-6) False ok by (simp add: desired_def lim_def)
    have funded: "fl_cash f \<le> sc_cash s" "at_reserve a \<le> sc_cash s" "0 \<le> at_reserve a"
      using run fee buy(3) by (auto simp: underway_def ledger_ok_def)
    let ?s' = "?s\<lparr>sc_cash := sc_cash s - fl_cash f, sc_spent := sc_spent s + fl_cash f, sc_reserved := at_reserve a - fl_cash f\<rparr>"
    let ?a = "\<lambda>due. a\<lparr>at_holdings := (at_holdings a)[at_leg a := at_holdings a ! at_leg a + fl_quantity f],
        at_spent := at_spent a + fl_cash f, at_stage := Buy_Response, at_due := due\<rparr>"
    have "underway cfg markets (?a due) ?s'" for due
      using run' fq h leg False buy fee funded by (auto simp: underway_def ledger_ok_def desired_def nth_list_update)
    moreover have "stage_ok markets (?a due) ?s'" for due using buy leg by (simp add: stage_ok_def)
    ultimately have res: "scenario_ok cfg markets (?s'\<lparr>sc_attempt := Some (?a due)\<rparr>)" for due by (rule underway_scenario)
    have eq: "order_arrival cfg markets index a s log =
      and_then (emit cfg (Fill_Row index (sc_attempts s) (at_due a) (at_leg a) False (fl_quantity f) (fl_cash f) (fl_levels f)) log) (\<lambda>log.
      and_then (later (at_due a) (sc_delay s)) (\<lambda>due. Inr (?s'\<lparr>sc_attempt := Some (?a due)\<rparr>, log)))"
      using f False st fee funded by (simp add: order_arrival_def Let_def sell_def desired_def lim_def)
    show ?thesis
      unfolding eq using res
      by (auto intro!: returns_and_then [OF later_returns] returns_and_then [OF emit_returns] simp: after_event_def)
  qed
qed

lemma buy_response_returns:
  assumes cfg: "config_ok cfg markets" and run: "underway cfg markets a s" and stage: "stage_ok markets a s"
    and response: "at_stage a = Buy_Response"
  shows "returns (after_event cfg markets (at_due a) s) (buy_response cfg markets index a s log)"
proof -
  let ?s = "s\<lparr>sc_reserved := 0\<rparr>"
  have run': "underway cfg markets a ?s" using run by (simp add: underway_def ledger_ok_def)
  have buy: "at_received a = 0" "\<forall>i < 3. at_leg a < i \<longrightarrow> at_holdings a ! i = 0" "at_leg a < 3"
    using stage response by (simp_all add: stage_ok_def)
  have cong: "after_event cfg markets (at_due a) ?s = after_event cfg markets (at_due a) s" by (rule after_event_cong) simp
  show ?thesis
  proof (cases "at_holdings a ! at_leg a = at_quantity a")
    case False
    then show ?thesis using begin_exit_returns [OF run', of "at_due a" index "''partial_buy''" log]
      by (simp add: buy_response_def Let_def cong)
  next
    case full: True
    let ?a = "a\<lparr>at_leg := Suc (at_leg a)\<rparr>"
    show ?thesis
    proof (cases "Suc (at_leg a) = 3")
      case True
      have base: "ledger_ok cfg ?s" "0 < sc_delay s" "ec_capital cfg - sc_complete_cost s + sc_unwind_net s - at_spent a \<le> sc_cash s"
        using run' buy(1) by (simp_all add: underway_def)
      show ?thesis
        unfolding buy_response_def Let_def using full True base
        by (auto intro!: returns_and_then [OF emit_returns] simp: after_event_def scenario_ok_def ledger_ok_def outstanding_def)
    next
      case False
      then have "returns (after_event cfg markets (at_due a) ?s) (send_buy cfg markets index (at_due a) ?a ?s log)"
        using run' buy by (intro send_buy_returns [OF cfg]) (simp_all add: underway_def)
      then show ?thesis using full False by (simp add: buy_response_def Let_def cong)
    qed
  qed
qed

lemma attempt_event_returns:
  assumes "config_ok cfg markets" and "underway cfg markets a s" and "stage_ok markets a s"
  shows "returns (after_event cfg markets (at_due a) s) (attempt_event cfg markets index a s log)"
proof (cases "at_stage a")
  case Sell_Response
  let ?a = "a\<lparr>at_leg := Suc (at_leg a)\<rparr>"
  have "at_leg a < 3" "sc_reserved s = 0" using assms(3) Sell_Response by (simp_all add: stage_ok_def)
  moreover have "underway cfg markets ?a s" using assms(2) by (simp add: underway_def)
  ultimately show ?thesis using send_exit_returns [of cfg markets ?a s "at_due a" index log]
    by (simp add: attempt_event_def Sell_Response sell_response_def)
qed (use buy_response_returns [OF assms] order_arrival_returns [OF assms] in \<open>simp_all add: attempt_event_def\<close>)

subsection \<open>What an event can bring in\<close>

text \<open>Cash grows only by the rows written, and no row brings more than one order can sell for.\<close>

abbreviation trace_count :: "exec_log \<Rightarrow> int" where
  "trace_count log \<equiv> uint (lg_trace log)"

definition grows :: "scenario \<Rightarrow> exec_log \<Rightarrow> scenario \<times> exec_log \<Rightarrow> bool" where
  "grows s log r \<longleftrightarrow> (trace_count log \<le> 100000 \<longrightarrow> trace_count log \<le> trace_count (snd r) \<and> trace_count (snd r) \<le> 100000 \<and>
     sc_cash (fst r) \<le> sc_cash s + 100000000 * (trace_count (snd r) - trace_count log))"

lemma grows_refl: "sc_cash s' = sc_cash s \<Longrightarrow> grows s log (s', log)"
  by (simp add: grows_def)

lemma grows_trans: "grows s log r \<Longrightarrow> grows (fst r) (snd r) r' \<Longrightarrow> grows s log r'"
  by (auto simp: grows_def)

lemma grows_cong: "sc_cash s' = sc_cash s \<Longrightarrow> grows s' log r \<Longrightarrow> grows s log r"
  by (simp add: grows_def)

abbreviation any_error :: "string \<Rightarrow> bool" where
  "any_error \<equiv> \<lambda>e. True"

lemma any_error [simp]: "yields any_error P (Inl e)"
  by simp

lemma emit_grows: "yields any_error (\<lambda>log'. \<forall>s'. sc_cash s' \<le> sc_cash s + 100000000 \<longrightarrow> grows s log (s', log')) (emit cfg row log)"
proof (cases "emit cfg row log")
  case (Inr log')
  have log': "lg_trace log' = lg_trace log + 1" "lg_trace log + 1 \<le> 100000"
    using Inr by (auto simp: emit_def Let_def not_less split: if_splits)
  have "trace_count log' = trace_count log + 1 \<and> trace_count log' \<le> 100000" if "trace_count log \<le> 100000"
  proof -
    have "trace_count log' = trace_count log + 1" using that unfolding log' by (simp add: uint_word_ariths)
    moreover have "trace_count log' \<le> 100000" using log' by (simp add: word_le_def)
    ultimately show ?thesis by blast
  qed
  then show ?thesis using Inr by (auto simp: grows_def)
qed simp

lemma later_any: "yields any_error (\<lambda>due. True) (later time delay)"
  by (simp add: later_def)

lemma send_exit_grows: "yields any_error (grows s log) (send_exit cfg index time a s log)"
  unfolding send_exit_def Let_def
  by (auto intro!: yields_and_then [OF emit_grows [of s]] yields_and_then [OF later_any])

lemma begin_exit_grows: "yields any_error (grows s log) (begin_exit cfg index time reason a s log)"
  unfolding begin_exit_def Let_def
proof (rule yields_and_then [OF emit_grows [of s]])
  fix log' :: exec_log
  assume "\<forall>s'. sc_cash s' \<le> sc_cash s + 100000000 \<longrightarrow> grows s log (s', log')"
  then have "grows s log (s\<lparr>sc_reserved := 0\<rparr>, log')" by simp
  then show "yields any_error (grows s log) (send_exit cfg index time (a\<lparr>at_reason := reason, at_leg := 0\<rparr>) (s\<lparr>sc_reserved := 0\<rparr>) log')"
    using grows_trans by (intro yields_mono [OF send_exit_grows]) fastforce
qed

lemma send_buy_grows: "yields any_error (grows s log) (send_buy cfg markets index time a s log)"
proof -
  have aborted: "yields any_error (grows s log) (begin_exit cfg index time reason a (s\<lparr>sc_budget_aborts := n\<rparr>) log)" for reason n
    by (rule yields_mono [OF begin_exit_grows grows_cong]) simp_all
  show ?thesis
    unfolding send_buy_def Let_def
    by (rule yields_and_then [where Q = "\<lambda>_. True"])
      (auto simp: yields_def [of _ _ "project_legs cfg markets s a (at_leg a) (at_spent a) no_fill"] split: sum.splits option.splits prod.splits
        intro!: yields_and_then [where r = "market_at m i" and Q = "\<lambda>_. True" for m i] yields_and_then [OF emit_grows [of s]]
          yields_and_then [OF later_any] begin_exit_grows aborted simp: market_at_def)
qed

lemma buy_response_grows: "yields any_error (grows s log) (buy_response cfg markets index a s log)"
proof -
  have idle: "yields any_error (grows s log) (begin_exit cfg index time reason b (s\<lparr>sc_reserved := 0\<rparr>) log)"
    "yields any_error (grows s log) (send_buy cfg markets index time b (s\<lparr>sc_reserved := 0\<rparr>) log)" for reason time b
    by (rule yields_mono [OF begin_exit_grows grows_cong] yields_mono [OF send_buy_grows grows_cong]; simp)+
  show ?thesis
    unfolding buy_response_def Let_def by (auto intro!: idle yields_and_then [OF emit_grows [of s]])
qed

lemma order_arrival_grows:
  assumes cfg: "config_ok cfg markets" and run: "underway cfg markets a s" and stage: "stage_ok markets a s"
  shows "yields any_error (grows s log) (order_arrival cfg markets index a s log)"
proof -
  define sell where "sell \<longleftrightarrow> at_stage a = Sell_Arrival"
  define desired where "desired = (if sell then at_holdings a ! at_leg a else at_quantity a)"
  define lim where "lim = (if sell then 0 else at_limit a)"
  have known: "known_legs markets (at_basket a)" and leg: "at_leg a < 3"
    and desired: "0 \<le> desired" "desired \<le> 10000"
    using run stage by (auto simp: underway_def stage_ok_def desired_def order_trans [of _ "at_quantity a"])
  obtain m where m: "markets (bt_ids (at_basket a) ! at_leg a) = Some m" using known_market [OF known leg] by blast
  obtain f acc where f: "fill_order cfg markets s (bt_ids (at_basket a) ! at_leg a) (at_leg a = 0) sell desired lim True =
      Inr (f, consume_liquidity (bt_ids (at_basket a) ! at_leg a) (at_leg a = 0) sell (fl_levels f) s)"
    and ok: "fill_ok sell (ca_fee m) desired lim f acc"
    using attempt_fill [of cfg markets "bt_ids (at_basket a) ! at_leg a" m desired s "at_leg a = 0" sell lim True] m cfg desired by auto
  have cash: "0 \<le> fl_cash f" "sell \<longrightarrow> fl_cash f \<le> 100000000" using ok desired by (auto simp: fill_ok_def)
  show ?thesis
    unfolding order_arrival_def Let_def using cash f
    by (auto simp: sell_def desired_def lim_def intro!: yields_and_then [OF emit_grows [of s]] yields_and_then [OF later_any])
qed

lemma attempt_event_grows:
  assumes "config_ok cfg markets" and "underway cfg markets a s" and "stage_ok markets a s"
  shows "yields any_error (grows s log) (attempt_event cfg markets index a s log)"
  using order_arrival_grows [OF assms, of log index] buy_response_grows send_exit_grows
  by (simp add: attempt_event_def sell_response_def split: stage.splits)


subsection \<open>The loop over due events\<close>

text \<open>The loop ends, with nothing due any more, and only the environment can make it fail.\<close>

definition advanced :: "exec_config \<Rightarrow> market_cache \<Rightarrow> int \<Rightarrow> scenario \<Rightarrow> exec_log \<Rightarrow> scenario \<times> exec_log \<Rightarrow> bool" where
  "advanced cfg markets time s log r \<longleftrightarrow> scenario_ok cfg markets (fst r) \<and> grows s log r \<and>
     (\<forall>a. sc_attempt (fst r) = Some a \<longrightarrow> \<not> sc_halted (fst r) \<longrightarrow> time < at_due a)"

lemma advanced_later: "grows s log (s', log') \<Longrightarrow> advanced cfg markets time s' log' r \<Longrightarrow> advanced cfg markets time s log r"
  using grows_trans [of s log "(s', log')" r] by (simp add: advanced_def)

lemma advance_returns:
  assumes cfg: "config_ok cfg markets"
  shows "scenario_ok cfg markets s \<Longrightarrow>
    \<exists>r. advance_scenario cfg markets index time s log = Some r \<and> returns (advanced cfg markets time s log) r"
proof (induction "nat (time + 1 - (case sc_attempt s of None \<Rightarrow> time + 1 | Some a \<Rightarrow> at_due a))" arbitrary: s log rule: less_induct)
  case less
  show ?case
  proof (cases "sc_attempt s")
    case None
    then show ?thesis using less.prems by (subst advance_scenario.simps) (simp add: advanced_def grows_refl)
  next
    case (Some a)
    show ?thesis
    proof (cases "sc_halted s \<or> time < at_due a")
      case True
      then show ?thesis using less.prems Some by (subst advance_scenario.simps) (auto simp: advanced_def grows_refl)
    next
      case False
      then have run: "underway cfg markets a s" "stage_ok markets a s" "0 < sc_delay s"
        using less.prems Some by (simp_all add: scenario_ok_def)
      show ?thesis
      proof (cases "attempt_event cfg markets index a s log")
        case (Inl e)
        then show ?thesis using attempt_event_returns [OF cfg run(1,2), of index log] Some False
          by (subst advance_scenario.simps) simp
      next
        case (Inr r)
        obtain s' log' where r: "r = (s', log')" by (cases r)
        have after: "scenario_ok cfg markets s'" "\<And>a'. sc_attempt s' = Some a' \<Longrightarrow> \<not> sc_halted s' \<Longrightarrow> at_due a' = at_due a + sc_delay s"
          using attempt_event_returns [OF cfg run(1,2), of index log] Inr by (auto simp: r after_event_def)
        then have sound: "\<not> ledger_broken cfg s'" by (intro ledger_not_broken) (simp add: scenario_ok_def)
        have grown: "grows s log (s', log')" using attempt_event_grows [OF cfg run(1,2), of log index] Inr by (simp add: r)
        have step: "advance_scenario cfg markets index time s log = advance_scenario cfg markets index time s' log'"
          using Some False Inr sound by (subst advance_scenario.simps) (simp add: r)
        show ?thesis
        proof (cases "sc_halted s' \<or> sc_attempt s' = None")
          case True
          have "advance_scenario cfg markets index time s' log' = Some (Inr (s', log'))"
            using True by (subst advance_scenario.simps) (auto split: option.splits)
          then show ?thesis using step after(1) True grown by (auto simp: advanced_def)
        next
          case going: False
          then obtain a' where a': "sc_attempt s' = Some a'" by blast
          then have "at_due a' = at_due a + sc_delay s" using after(2) going by blast
          then have "\<exists>r. advance_scenario cfg markets index time s' log' = Some r \<and> returns (advanced cfg markets time s' log') r"
            using less.hyps [OF _ after(1)] Some False a' run(3) by simp
          then show ?thesis
            unfolding step using returns_mono advanced_later [OF grown] by blast
        qed
      qed
    qed
  qed
qed


subsection \<open>Deciding keeps the invariant\<close>

lemma cash_at_max: "0 \<le> v \<Longrightarrow> v \<le> 1000000000000000 \<Longrightarrow> cash_raw (cash_at v) = v"
  by simp

lemma basket_depth_ok:
  assumes "config_ok cfg markets" and "known_legs markets b"
  shows "\<exists>legs. basket_depth cfg markets s b = Inr legs \<and> (\<forall>leg \<in> set legs. leg_ok leg)"
proof -
  have leg: "\<exists>ls m. levels cfg markets s (bt_ids b ! i) (i = 0) False = Inr ls \<and> market_at markets (bt_ids b ! i) = Inr m \<and>
      leg_ok \<lparr>bd_levels = ls, bd_fees = ca_fee m\<rparr>" if i: "i < 3" for i
  proof -
    obtain m where m: "markets (bt_ids b ! i) = Some m" using known_market [OF assms(2) i] by blast
    have "policy_ok (ca_fee m)" using assms(1) m by (auto simp: config_ok_def cache_ok_def cached_ok_def)
    moreover obtain ls where "levels cfg markets s (bt_ids b ! i) (i = 0) False = Inr ls" "positive_levels ls" "length ls \<le> 10001"
      "sorted_wrt (<) (level_prices ls)"
      using levels_ok [where markets = markets and market = "bt_ids b ! i" and m = m and yes = "i = 0" and sell = False] m config_cap [OF assms(1)] by blast
    ultimately show ?thesis using m by (auto simp: market_at_def leg_ok_def positive_levels_def)
  qed
  obtain ls0 m0 where l0: "levels cfg markets s (bt_ids b ! 0) True False = Inr ls0" "market_at markets (bt_ids b ! 0) = Inr m0"
      "leg_ok \<lparr>bd_levels = ls0, bd_fees = ca_fee m0\<rparr>" using leg [of 0] by auto
  obtain ls1 m1 where l1: "levels cfg markets s (bt_ids b ! 1) False False = Inr ls1" "market_at markets (bt_ids b ! 1) = Inr m1"
      "leg_ok \<lparr>bd_levels = ls1, bd_fees = ca_fee m1\<rparr>" using leg [of 1] by auto
  obtain ls2 m2 where l2: "levels cfg markets s (bt_ids b ! 2) False False = Inr ls2" "market_at markets (bt_ids b ! 2) = Inr m2"
      "leg_ok \<lparr>bd_levels = ls2, bd_fees = ca_fee m2\<rparr>" using leg [of 2] by auto
  show ?thesis using l0 l1 l2 by (simp add: basket_depth_def Let_def)
qed

lemma sizing_status_ok:
  assumes cfg: "config_ok cfg markets" and legs: "\<forall>leg \<in> set legs. leg_ok leg"
    and cash: "0 \<le> sc_cash s" "sc_cash s \<le> 1000000000000000"
  shows "br_status (size_buy_basket legs (sizing_bounds cfg s)) \<notin> {Invalid_Input, Arithmetic_Error, Search_Budget_Exceeded}"
    and "br_quote (size_buy_basket legs (sizing_bounds cfg s)) = Some quote \<Longrightarrow>
      0 < quantity_raw (sb_quantity quote) \<and> quantity_raw (sb_quantity quote) \<le> 10000"
proof -
  let ?limits = "sizing_bounds cfg s" and ?r = "size_buy_basket legs (sizing_bounds cfg s)"
  have raw: "quantity_raw (sl_cap ?limits) = ec_cap cfg" "quantity_raw (sl_step ?limits) = 100" "cash_raw (sl_available ?limits) = sc_cash s"
    "cash_raw (sl_minimum_margin ?limits) = ec_margin cfg" "sl_max_evaluations ?limits = 100"
    using cfg cash by (simp_all add: sizing_bounds_def config_ok_def)
  have inputs: "basket_inputs_ok legs ?limits"
    using cfg cash legs raw by (simp add: basket_inputs_ok_def config_ok_def)
  have outcome: "basket_outcome legs ?limits ?r" by (rule size_buy_basket_outcome)
  have "\<not> basket_grid legs ?limits 10100"
    using cfg raw by (simp add: basket_grid_def config_ok_def)
  then show "br_status ?r \<notin> {Invalid_Input, Arithmetic_Error, Search_Budget_Exceeded}"
    using outcome inputs raw(5) by (cases "br_status ?r") (simp_all add: basket_outcome_def)
  then show "0 < quantity_raw (sb_quantity quote) \<and> quantity_raw (sb_quantity quote) \<le> 10000" if "br_quote ?r = Some quote"
    using outcome that cfg raw(1)
    by (cases "br_status ?r") (auto simp: basket_outcome_def basket_candidate_def basket_grid_def basket_value_def config_ok_def)
qed

definition episodes_known :: "exec_config \<Rightarrow> basket_episode list \<Rightarrow> bool" where
  "episodes_known cfg signals \<longleftrightarrow> (\<forall>signal \<in> set signals. ec_baskets cfg (ep_basket_id signal) \<noteq> None)"

definition chosen_ok :: "market_cache \<Rightarrow> (sized_basket \<times> basket) option \<Rightarrow> bool" where
  "chosen_ok markets best \<longleftrightarrow>
     (\<forall>quote b. best = Some (quote, b) \<longrightarrow> known_legs markets b \<and> 0 < quantity_raw (sb_quantity quote) \<and> quantity_raw (sb_quantity quote) \<le> 10000)"

lemma choose_basket_returns:
  assumes cfg: "config_ok cfg markets"
  shows "episodes_known cfg signals \<Longrightarrow> 0 \<le> sc_cash s \<Longrightarrow> sc_cash s \<le> 1000000000000000 \<Longrightarrow> chosen_ok markets best \<Longrightarrow>
    \<exists>n best'. choose_basket cfg markets signals s best = Inr (s\<lparr>sc_rejected := n\<rparr>, best') \<and> chosen_ok markets best'"
proof (induction signals arbitrary: s best)
  case Nil
  then show ?case by (auto intro!: exI [of _ "sc_rejected s"])
next
  case (Cons signal signals)
  have known: "episodes_known cfg signals" using Cons.prems(1) by (simp add: episodes_known_def)
  have reject: "\<exists>n best'. choose_basket cfg markets signals (s\<lparr>sc_rejected := sc_rejected s + 1\<rparr>) best =
      Inr (s\<lparr>sc_rejected := n\<rparr>, best') \<and> chosen_ok markets best'"
    using Cons.IH [OF known, of "s\<lparr>sc_rejected := sc_rejected s + 1\<rparr>" best] Cons.prems by auto
  show ?case
  proof (cases "ep_left_censored signal")
    case True
    then show ?thesis using reject by simp
  next
    case False
    obtain b where b: "ec_baskets cfg (ep_basket_id signal) = Some b" using Cons.prems(1) by (auto simp: episodes_known_def)
    then have kb: "known_legs markets b" using cfg by (simp add: config_ok_def)
    obtain legs where legs: "basket_depth cfg markets s b = Inr legs" "\<forall>leg \<in> set legs. leg_ok leg"
      using basket_depth_ok [OF cfg kb] by blast
    note sized = sizing_status_ok [OF cfg legs(2) Cons.prems(2,3)]
    show ?thesis
    proof (cases "br_quote (size_buy_basket legs (sizing_bounds cfg s))")
      case None
      then show ?thesis using reject False b legs(1) sized(1) by (simp add: Let_def)
    next
      case (Some quote)
      have new: "chosen_ok markets (Some (quote, b))" using kb sized(2) [OF Some] by (simp add: chosen_ok_def)
      define best1 where "best1 = (case best of None \<Rightarrow> Some (quote, b)
         | Some (q0, b0) \<Rightarrow> if sb_net_margin_micro q0 < sb_net_margin_micro quote \<or>
                                (sb_net_margin_micro quote = sb_net_margin_micro q0 \<and> bt_id b < bt_id b0)
                             then Some (quote, b) else best)"
      have "chosen_ok markets best1" using new Cons.prems(4) by (auto simp: best1_def split: option.splits prod.splits)
      moreover have "choose_basket cfg markets (signal # signals) s best = choose_basket cfg markets signals s best1"
        using False b legs(1) sized(1) Some by (simp add: Let_def best1_def)
      ultimately show ?thesis using Cons.IH [OF known Cons.prems(2,3)] by simp
    qed
  qed
qed

lemma decide_returns:
  assumes cfg: "config_ok cfg markets" and ok: "scenario_ok cfg markets s" and known: "episodes_known cfg signals"
    and cash: "sc_cash s \<le> 1000000000000000"
  shows "returns (\<lambda>r. scenario_ok cfg markets (fst r)) (decide cfg markets signals index time s log)"
proof (cases "sc_halted s \<or> ec_max_attempts cfg \<le> sc_attempts s \<or> sc_attempt s \<noteq> None")
  case True
  have "scenario_ok cfg markets (s\<lparr>sc_busy := n\<rparr>)" for n
    using ok by (auto simp: scenario_ok_def ledger_ok_def underway_def stage_ok_def split: option.splits stage.splits)
  with True ok show ?thesis by (auto simp: decide_def)
next
  case False
  have c: "0 \<le> sc_cash s" using ok by (simp add: scenario_ok_def ledger_ok_def)
  obtain n best where chosen: "choose_basket cfg markets signals s None = Inr (s\<lparr>sc_rejected := n\<rparr>, best)" "chosen_ok markets best"
    using choose_basket_returns [OF cfg known c cash, of None] by (auto simp: chosen_ok_def)
  let ?s = "s\<lparr>sc_rejected := n\<rparr>"
  have ok': "ledger_ok cfg s" "sc_reserved s = 0" "0 < sc_delay s" "ec_capital cfg - sc_complete_cost s + sc_unwind_net s \<le> sc_cash s"
    using ok False by (simp_all add: scenario_ok_def outstanding_def)
  show ?thesis
  proof (cases best)
    case None
    have "scenario_ok cfg markets ?s" using ok False by (simp add: scenario_ok_def ledger_ok_def)
    then show ?thesis using False chosen None by (simp add: decide_def)
  next
    case (Some qb)
    obtain quote b where qb: "best = Some (quote, b)" using Some by (cases qb) simp
    let ?a = "new_attempt b (quantity_raw (sb_quantity quote))"
    let ?t = "?s\<lparr>sc_attempts := sc_attempts s + 1, sc_attempt := Some ?a\<rparr>"
    have "underway cfg markets ?a ?t"
      using chosen(2) qb ok' False
      by (auto simp: underway_def new_attempt_def chosen_ok_def ledger_ok_def less_Suc_eq numeral_3_eq_3)
    then have "returns (after_event cfg markets time ?t) (send_buy cfg markets index time ?a ?t log')" for log'
      using ok' by (intro send_buy_returns [OF cfg]) (simp_all add: new_attempt_def less_Suc_eq numeral_3_eq_3)
    then have sent: "returns (\<lambda>r. scenario_ok cfg markets (fst r)) (send_buy cfg markets index time ?a ?t log')" for log'
      by (rule returns_mono) (simp add: after_event_def)
    have "decide cfg markets signals index time s log =
      and_then (emit cfg (Entry_Row index (sc_attempts s + 1) time (bt_id b) (at_quantity ?a) (sb_net_margin_micro quote)) log)
        (\<lambda>log. send_buy cfg markets index time ?a ?t log)"
      using False chosen(1) qb by (simp add: decide_def Let_def)
    then show ?thesis using sent by (auto intro!: returns_and_then [OF emit_returns])
  qed
qed

lemma censor_returns:
  assumes "scenario_ok cfg markets s"
  shows "returns (\<lambda>r. scenario_ok cfg markets (fst r) \<and> (sc_attempt (fst r) \<noteq> None \<longrightarrow> sc_halted (fst r)))
    (censor cfg index time reason s log)"
  using assms
  by (auto simp: censor_def Let_def scenario_ok_def ledger_ok_def split: option.splits intro!: returns_and_then [OF emit_returns])

lemma choose_basket_cash: "yields any_error (\<lambda>r. sc_cash (fst r) = sc_cash s) (choose_basket cfg markets signals s best)"
proof (induction signals arbitrary: s best)
  case (Cons signal signals)
  show ?case
    using Cons [of "s\<lparr>sc_rejected := sc_rejected s + 1\<rparr>"] Cons [of s] by (auto simp: Let_def split: option.splits sum.splits)
qed simp

lemma decide_grows: "yields any_error (grows s log) (decide cfg markets signals index time s log)"
proof (cases "sc_halted s \<or> ec_max_attempts cfg \<le> sc_attempts s \<or> sc_attempt s \<noteq> None")
  case True
  then show ?thesis by (auto simp: decide_def grows_refl)
next
  case False
  have sent: "yields any_error (grows s log) (and_then (emit cfg row log) (\<lambda>log. send_buy cfg markets index time a t log))"
    if "sc_cash t = sc_cash s" for row a t
  proof (rule yields_and_then [OF emit_grows [of s]])
    fix log' :: exec_log
    assume "\<forall>s'. sc_cash s' \<le> sc_cash s + 100000000 \<longrightarrow> grows s log (s', log')"
    then have "grows s log (t, log')" using that by simp
    then show "yields any_error (grows s log) (send_buy cfg markets index time a t log')"
      using grows_trans by (intro yields_mono [OF send_buy_grows]) fastforce
  qed
  have going: "(sc_halted s \<or> ec_max_attempts cfg \<le> sc_attempts s) = False" "(sc_attempt s \<noteq> None) = False" using False by simp_all
  have "decide cfg markets signals index time s log = and_then (choose_basket cfg markets signals s None) (\<lambda>(s, best).
      case best of None \<Rightarrow> Inr (s, log)
      | Some (quote, b) \<Rightarrow>
          let s = s\<lparr>sc_attempts := sc_attempts s + 1\<rparr>; a = new_attempt b (quantity_raw (sb_quantity quote)); s = s\<lparr>sc_attempt := Some a\<rparr>
          in and_then (emit cfg (Entry_Row index (sc_attempts s) time (bt_id b) (at_quantity a) (sb_net_margin_micro quote)) log)
               (\<lambda>log. send_buy cfg markets index time a s log))"
    unfolding decide_def going by (simp only: simp_thms if_False)
  then show ?thesis
    by (auto simp: Let_def grows_refl split: option.splits prod.splits intro!: yields_and_then [OF choose_basket_cash] sent)
qed

lemma censor_grows: "yields any_error (grows s log) (censor cfg index time reason s log)"
  unfolding censor_def Let_def
  by (auto split: option.splits intro!: yields_and_then [OF emit_grows [of s]] grows_refl)

text \<open>A halted scenario is never touched again.\<close>

lemma halted_still:
  assumes "sc_halted s"
  shows "censor cfg index time reason s log = Inr (s, log)" and "decide cfg markets signals index time s log = Inr (s, log)"
    and "advance_scenario cfg markets index time s log = Some (Inr (s, log))"
  using assms by (auto simp: censor_def decide_def split: option.splits) (subst advance_scenario.simps, auto split: option.splits)

lemma new_scenario_ok:
  assumes "0 < delay" and "0 \<le> ec_capital cfg"
  shows "scenario_ok cfg markets (new_scenario delay (ec_capital cfg))"
  using assms by (simp add: scenario_ok_def new_scenario_def ledger_ok_def outstanding_def)

end
