(* ===== verification/Basket_Study.thy ===== *)
theory Basket_Study
  imports Execution_Ledger Basket_Episodes
begin

text \<open>
  The basket execution study as an observer of a replay (\<open>Study\<close> of \<open>src/session/basket_execution.cpp\<close>):
  all scenarios over one cache of books, with the basket observation as their control. Each record first
  censors what it makes unknowable, then lets due orders arrive against the books of earlier records, then
  updates the books, then decides on the episodes it announces. In every reachable study the code's own
  checks hold, and the loop over due events returns.
\<close>

subsection \<open>State and construction\<close>

record exec_study =
  xs_control :: observation
  xs_markets :: market_cache
  xs_scenarios :: "scenario list"
  xs_log :: exec_log
  xs_records :: u64
  xs_episodes :: u64
  xs_last_time :: "int option"
  xs_last_wall :: "int option"
  xs_generation :: "connection_generation option"
  xs_broken :: bool
  xs_expired :: bool
  xs_finished :: bool

text \<open>The policy's fields; a delay is a number the JSON library reads as unsigned, or something else.\<close>

record exec_policy =
  xp_schema_version :: u64
  xp_kind :: string
  xp_basket_sha256 :: string
  xp_delays :: "u64 option list"
  xp_minimum_margin :: u64
  xp_max_attempts :: u64

definition nanoseconds_per_ms :: int where "nanoseconds_per_ms = 1000000"

fun bind_delays :: "int \<Rightarrow> u64 option list \<Rightarrow> int list \<Rightarrow> scenario list \<Rightarrow> string + scenario list" where
  "bind_delays capital [] seen scenarios = Inr scenarios"
| "bind_delays capital (None # delays) seen scenarios = Inl ''delay type''"
| "bind_delays capital (Some delay # delays) seen scenarios =
     (let d = sint delay
      in if d < 1 \<or> 1000 < d \<or> d \<in> set seen then Inl ''delay bound''
         else bind_delays capital delays (d # seen) (scenarios @ [new_scenario (d * nanoseconds_per_ms) capital]))"

definition bind_limits :: "exec_policy \<Rightarrow> string \<Rightarrow> string + unit" where
  "bind_limits policy basket_sha256 =
     (if 1 < xp_schema_version policy then Inl ''schema_version''
      else if xp_schema_version policy \<noteq> 1 \<or> xp_kind policy \<noteq> ''chronological_basket_execution'' \<or>
         xp_basket_sha256 policy \<noteq> basket_sha256
      then Inl ''execution policy binding''
      else if 1000000 < xp_minimum_margin policy then Inl ''minimum_margin_micro''
      else if 1000 < xp_max_attempts policy then Inl ''max_attempts''
      else if xp_minimum_margin policy = 0 \<or> xp_max_attempts policy = 0 then Inl ''execution limits''
      else if xp_delays policy = [] \<or> 6 < length (xp_delays policy) then Inl ''delay grid''
      else Inr ())"

text \<open>The cache has an empty entry for each market with a fee; a later row of a market or basket replaces an earlier one.\<close>

definition cached_fee :: "fee_row \<Rightarrow> cached" where
  "cached_fee row = \<lparr>ca_fee = \<lparr>coefficient_ppm = ucast (fw_coefficient_ppm row), balance_quantum_micro = ucast (fw_balance_quantum_micro row)\<rparr>,
     ca_bids = [], ca_asks = [], ca_valid = False\<rparr>"

definition bind_cache :: "fee_row list \<Rightarrow> market_cache" where
  "bind_cache rows = fold (\<lambda>row markets. markets(ucast (fw_market_id row) \<mapsto> cached_fee row)) rows Map.empty"

definition exec_basket :: "basket_row \<Rightarrow> basket" where
  "exec_basket row = \<lparr>bt_id = ucast (rw_id row), bt_ids = [ucast (rw_lower_market row), ucast (rw_upper_market row), ucast (rw_range_market row)]\<rparr>"

definition bind_exec_baskets :: "basket_row list \<Rightarrow> u32 \<rightharpoonup> basket" where
  "bind_exec_baskets rows = fold (\<lambda>row baskets. baskets(ucast (rw_id row) \<mapsto> exec_basket row)) rows Map.empty"

definition make_exec_study :: "exec_policy \<Rightarrow> string \<Rightarrow> (u64 \<Rightarrow> bool) \<Rightarrow> u64 \<Rightarrow> u64 \<Rightarrow> u64 \<Rightarrow> u64 \<Rightarrow> sizing_row \<Rightarrow> market_registry \<Rightarrow>
    (u64 \<times> string) list \<Rightarrow> fee_row list \<Rightarrow> basket_row list \<Rightarrow> (nat \<Rightarrow> bool) \<Rightarrow>
    string + (exec_config \<times> observation_config) \<times> exec_study" where
  "make_exec_study policy basket_sha256 accepted from_ms until_ms maximum_events total_budget sizing metadata market_rows fee_rows basket_rows writes =
     and_then (bind_limits policy basket_sha256) (\<lambda>_.
     and_then (make_observation from_ms until_ms maximum_events total_budget sizing metadata market_rows fee_rows basket_rows writes)
       (\<lambda>(ocfg, os).
        let capital = uint (sw_available_cash sizing);
            cfg = \<lparr>ec_capital = capital, ec_cap = uint (sw_cap sizing), ec_margin = uint (xp_minimum_margin policy),
                   ec_from = uint from_ms * nanoseconds_per_ms, ec_until = uint until_ms * nanoseconds_per_ms,
                   ec_max_attempts = xp_max_attempts policy, ec_baskets = bind_exec_baskets basket_rows, ec_writes = accepted\<rparr>
        in and_then (bind_delays capital (xp_delays policy) [] []) (\<lambda>scenarios.
           and_then (observation_start ocfg False os) (\<lambda>os.
           and_then (emit cfg Start_Row \<lparr>lg_trace = 0, lg_rows = []\<rparr>) (\<lambda>log.
             Inr ((cfg, ocfg),
               \<lparr>xs_control = os, xs_markets = bind_cache fee_rows, xs_scenarios = scenarios, xs_log = log, xs_records = 0,
                xs_episodes = 0, xs_last_time = None, xs_last_wall = None, xs_generation = None, xs_broken = False,
                xs_expired = False, xs_finished = False\<rparr>))))))"


subsection \<open>Every scenario in turn\<close>

definition put_scenario :: "nat \<Rightarrow> scenario \<times> exec_log \<Rightarrow> exec_study \<Rightarrow> exec_study" where
  "put_scenario i = (\<lambda>(s, log) xs. xs\<lparr>xs_scenarios := (xs_scenarios xs)[i := s], xs_log := log\<rparr>)"

definition each_scenario :: "(nat \<Rightarrow> scenario \<Rightarrow> exec_log \<Rightarrow> string + scenario \<times> exec_log) \<Rightarrow> exec_study \<Rightarrow> string + exec_study" where
  "each_scenario f xs =
     and_fold (\<lambda>i xs. and_then (f i (xs_scenarios xs ! i) (xs_log xs)) (\<lambda>r. Inr (put_scenario i r xs)))
       [0 ..< length (xs_scenarios xs)] xs"

definition censor_all :: "exec_config \<Rightarrow> int \<Rightarrow> string \<Rightarrow> exec_study \<Rightarrow> string + exec_study" where
  "censor_all cfg time reason = each_scenario (\<lambda>i. censor cfg i time reason)"

definition break_continuity :: "exec_config \<Rightarrow> int \<Rightarrow> string \<Rightarrow> exec_study \<Rightarrow> string + exec_study" where
  "break_continuity cfg time reason xs = censor_all cfg time reason (xs\<lparr>xs_broken := True\<rparr>)"

text \<open>The loop of \<open>after\<close> over \<open>advance\<close>; \<open>None\<close> is a loop that does not end.\<close>

fun advance_each :: "exec_config \<Rightarrow> int \<Rightarrow> nat list \<Rightarrow> exec_study \<Rightarrow> (string + exec_study) option" where
  "advance_each cfg time [] xs = Some (Inr xs)"
| "advance_each cfg time (i # indexes) xs =
     (case advance_scenario cfg (xs_markets xs) i time (xs_scenarios xs ! i) (xs_log xs) of
        None \<Rightarrow> None
      | Some (Inl e) \<Rightarrow> Some (Inl e)
      | Some (Inr r) \<Rightarrow> advance_each cfg time indexes (put_scenario i r xs))"


subsection \<open>The observer\<close>

definition continuity_ns :: int where "continuity_ns = 15000000000"

definition study_before :: "exec_config \<Rightarrow> observation_config \<Rightarrow> int \<Rightarrow> exec_study \<Rightarrow> string + exec_study" where
  "study_before cfg ocfg time xs =
     (if time < 0 \<or> (case xs_last_time xs of None \<Rightarrow> False | Some t \<Rightarrow> time < t) then Inl ''execution clock regression''
      else
        and_then (if case xs_last_time xs of None \<Rightarrow> False | Some t \<Rightarrow> continuity_ns < time - t
                  then break_continuity cfg time ''record_gap'' xs else Inr xs) (\<lambda>xs.
        and_then (observation_before ocfg time (xs_control xs)) (\<lambda>os. Inr (xs\<lparr>xs_control := os\<rparr>))))"

text \<open>The clocks of a record: wall time within the policy, going forward and without a gap.\<close>

definition check_wall :: "exec_config \<Rightarrow> replay_frame \<Rightarrow> exec_study \<Rightarrow> string + exec_study" where
  "check_wall cfg frame xs =
     (case fr_observed_wall frame of
        None \<Rightarrow> Inl ''execution wall binding''
      | Some wall \<Rightarrow>
          if wall < ec_from cfg then Inl ''execution wall binding''
          else
            and_then (if case xs_last_wall xs of None \<Rightarrow> False | Some w \<Rightarrow> wall < w \<or> continuity_ns < wall - w
                      then break_continuity cfg (fr_time frame) ''wall_clock_discontinuity'' xs else Inr xs) (\<lambda>xs.
              if ec_until cfg \<le> wall then censor_all cfg (fr_time frame) ''policy_expired'' (xs\<lparr>xs_expired := True\<rparr>)
              else Inr xs))"

definition disconnected :: "market_state \<Rightarrow> exec_study \<Rightarrow> bool" where
  "disconnected state xs \<longleftrightarrow> \<not> ms_connected state \<or> (xs_generation xs \<noteq> None \<and> xs_generation xs \<noteq> ms_generation state)"

definition check_connection :: "exec_config \<Rightarrow> replay_frame \<Rightarrow> market_state \<Rightarrow> exec_study \<Rightarrow> string + exec_study" where
  "check_connection cfg frame state xs =
     (if disconnected state xs
      then and_then (censor_all cfg (fr_time frame) ''connection_change'' xs) (\<lambda>xs.
             Inr (xs\<lparr>xs_markets := (\<lambda>m. map_option (\<lambda>c. c\<lparr>ca_valid := False\<rparr>) (xs_markets xs m))\<rparr>))
      else Inr xs)"

definition usable_book :: "market_id \<Rightarrow> market_state \<Rightarrow> order_book option" where
  "usable_book market state =
     (case find_book market state of
        None \<Rightarrow> None
      | Some book \<Rightarrow> if ob_state book \<noteq> Valid \<or> crossed_book book then None else Some book)"

definition check_book :: "exec_config \<Rightarrow> replay_frame \<Rightarrow> market_state \<Rightarrow> exec_study \<Rightarrow> string + exec_study" where
  "check_book cfg frame state xs =
     (case fr_market_id frame of
        None \<Rightarrow> Inr xs
      | Some market \<Rightarrow>
          (case xs_markets xs market of
             None \<Rightarrow> Inr xs
           | Some m \<Rightarrow>
               if usable_book market state = None
               then censor_all cfg (fr_time frame) ''invalid_book''
                      (xs\<lparr>xs_markets := (xs_markets xs)(market \<mapsto> m\<lparr>ca_valid := False\<rparr>)\<rparr>)
               else Inr xs))"

definition cache_level :: "level \<Rightarrow> physical list \<Rightarrow> bool \<times> physical list" where
  "cache_level l taken = (True, taken @ [\<lparr>ph_price = price_raw (lv_price l), ph_quantity = quantity_raw (lv_quantity l)\<rparr>])"

definition cache_book :: "replay_frame \<Rightarrow> market_state \<Rightarrow> exec_study \<Rightarrow> exec_study" where
  "cache_book frame state xs =
     (if \<not> fr_applied frame then xs
      else case fr_market_id frame of
        None \<Rightarrow> xs
      | Some market \<Rightarrow>
          (case (xs_markets xs market, usable_book market state) of
             (Some m, Some book) \<Rightarrow>
               xs\<lparr>xs_markets := (xs_markets xs)(market \<mapsto>
                 m\<lparr>ca_valid := True, ca_bids := visit_levels Bid cache_level book [], ca_asks := visit_levels Ask cache_level book []\<rparr>)\<rparr>
           | _ \<Rightarrow> xs))"

text \<open>The rest of a record: the books, the control, and the decisions on what it announced.\<close>

definition decide_all :: "exec_config \<Rightarrow> int \<Rightarrow> basket_episode list \<Rightarrow> exec_study \<Rightarrow> string + exec_study" where
  "decide_all cfg time signals xs = each_scenario (\<lambda>i. decide cfg (xs_markets xs) signals i time) xs"

definition conclude_record :: "exec_config \<Rightarrow> observation_config \<Rightarrow> replay_frame \<Rightarrow> market_state \<Rightarrow> exec_study \<Rightarrow> string + exec_study" where
  "conclude_record cfg ocfg frame state xs =
     (let xs = cache_book frame state xs
      in and_then (observation_after ocfg frame state ((xs_control xs)\<lparr>os_signals := []\<rparr>)) (\<lambda>os.
           let signals = os_signals os;
               xs = xs\<lparr>xs_control := os, xs_episodes := xs_episodes xs + of_nat (length signals)\<rparr>
           in and_then (if \<not> xs_broken xs \<and> \<not> xs_expired xs \<and> ms_connected state \<and> signals \<noteq> []
                        then decide_all cfg (fr_time frame) signals xs else Inr xs) (\<lambda>xs.
                Inr (xs\<lparr>xs_last_time := Some (fr_time frame), xs_last_wall := fr_observed_wall frame,
                        xs_generation := ms_generation state\<rparr>))))"

definition study_after :: "exec_config \<Rightarrow> observation_config \<Rightarrow> replay_frame \<Rightarrow> market_state \<Rightarrow> exec_study \<Rightarrow>
    (string + exec_study) option" where
  "study_after cfg ocfg frame state xs0 =
     (case and_then (check_wall cfg frame (xs0\<lparr>xs_records := xs_records xs0 + 1\<rparr>)) (\<lambda>xs.
             and_then (check_connection cfg frame state xs) (check_book cfg frame state)) of
        Inl e \<Rightarrow> Some (Inl e)
      | Inr xs \<Rightarrow>
          (case (if \<not> xs_broken xs \<and> \<not> xs_expired xs \<and> \<not> disconnected state xs0
                 then advance_each cfg (fr_time frame) [0 ..< length (xs_scenarios xs)] xs else Some (Inr xs)) of
             None \<Rightarrow> None
           | Some r \<Rightarrow> Some (and_then r (conclude_record cfg ocfg frame state))))"

definition study_finish :: "exec_config \<Rightarrow> observation_config \<Rightarrow> int \<Rightarrow> exec_study \<Rightarrow> string + exec_study" where
  "study_finish cfg ocfg time xs =
     and_then (censor_all cfg time ''end_of_observation'' xs) (\<lambda>xs.
     and_then (observation_finish ocfg time (xs_control xs)) (\<lambda>os.
       Inr (xs\<lparr>xs_control := os, xs_finished := True\<rparr>)))"


subsection \<open>The report\<close>

record report_row =
  rr_scenario :: nat
  rr_delay_ms :: int
  rr_counts :: "u64 list"
  rr_halted :: bool
  rr_cash :: int
  rr_unreleased :: int
  rr_buy_debits :: int
  rr_sell_credits :: int
  rr_conditional_floor :: int
  rr_completed_cost :: int
  rr_unwind_pnl :: int
  rr_inventory :: "(market_id \<times> bool \<times> int) list"
  rr_conditional_net :: "int option"
  rr_stress_net :: int
  rr_peak_encumbered :: int
  rr_cash_identity :: bool

definition inventory_of :: "attempt \<Rightarrow> (market_id \<times> bool \<times> int) list" where
  "inventory_of a = concat (map (\<lambda>leg. if at_holdings a ! leg \<noteq> 0
      then [(bt_ids (at_basket a) ! leg, leg = 0, at_holdings a ! leg)] else []) [0 ..< 3])"

definition report_scenario :: "exec_config \<Rightarrow> nat \<Rightarrow> scenario \<Rightarrow> report_row" where
  "report_scenario cfg i s =
     (let inventory = (case sc_attempt s of None \<Rightarrow> [] | Some a \<Rightarrow> inventory_of a)
      in \<lparr>rr_scenario = i, rr_delay_ms = sc_delay s div nanoseconds_per_ms,
          rr_counts = [sc_attempts s, sc_completed s, sc_exited s, sc_empty s, sc_busy s, sc_rejected s, sc_budget_aborts s,
            sc_censored s, sc_final_budget_breaches s],
          rr_halted = sc_halted s, rr_cash = sc_cash s, rr_unreleased = sc_reserved s, rr_buy_debits = sc_spent s,
          rr_sell_credits = sc_received s, rr_conditional_floor = sc_floor s, rr_completed_cost = sc_complete_cost s,
          rr_unwind_pnl = sc_unwind_net s, rr_inventory = inventory,
          rr_conditional_net = (if inventory = [] \<and> sc_attempt s = None then Some (sc_cash s + sc_floor s - ec_capital cfg) else None),
          rr_stress_net = sc_cash s + sc_floor s - ec_capital cfg - sc_reserved s,
          rr_peak_encumbered = sc_peak_encumbered s,
          rr_cash_identity = (sc_cash s = ec_capital cfg - sc_spent s + sc_received s)\<rparr>)"

text \<open>The rows of a report, after the control's own.\<close>

definition study_report :: "exec_config \<Rightarrow> exec_study \<Rightarrow> string + report_row list" where
  "study_report cfg xs =
     (if \<not> xs_finished xs then Inl ''execution report before finish''
      else if \<not> os_finished (xs_control xs) then Inl ''basket observation not finished''
      else Inr (map (\<lambda>i. report_scenario cfg i (xs_scenarios xs ! i)) [0 ..< length (xs_scenarios xs)]))"

end
