(* ===== verification/Study_Ledger.thy ===== *)
theory Study_Ledger
  imports Basket_Study
begin

text \<open>
  Why a basket execution study is sound: the invariant of all its scenarios, the cached books and the control,
  kept by every call of the observer in time order on reachable market states. None of the checks
  inside the study can fail, the loop over due events returns, and a scenario that was halted stays as it is.
\<close>

subsection \<open>Cached books\<close>

lemma visit_entries_cache:
  "visit_entries cache_level es taken = taken @ map (\<lambda>e. \<lparr>ph_price = price_raw (lv_price (entry_level e)),
     ph_quantity = quantity_raw (lv_quantity (entry_level e))\<rparr>) es"
  by (induction es arbitrary: taken) (auto simp: cache_level_def)

lemma cached_side_ok:
  assumes "book_ok book"
  shows "side_ok False (visit_levels Bid cache_level book [])" and "side_ok True (visit_levels Ask cache_level book [])"
proof -
  have ok: "levels_ok (ob_bids book)" "levels_ok (ob_asks book)" using assms by (simp_all add: book_ok_def)
  then show "side_ok False (visit_levels Bid cache_level book [])" "side_ok True (visit_levels Ask cache_level book [])"
    using levels_sorted [OF ok(1)] levels_sorted [OF ok(2)] levels_ok_find price_raw_bounds
    by (auto simp: side_ok_def visit_levels_def visit_entries_cache sorted_wrt_map sorted_wrt_rev comp_def)
qed

definition same_fees :: "market_cache \<Rightarrow> market_cache \<Rightarrow> bool" where
  "same_fees markets markets' \<longleftrightarrow> (\<forall>m. map_option ca_fee (markets' m) = map_option ca_fee (markets m))"

lemma same_fees_at: "same_fees markets markets' \<Longrightarrow> markets m = Some c \<Longrightarrow> \<exists>c'. markets' m = Some c' \<and> ca_fee c' = ca_fee c"
  by (cases "markets' m") (auto simp: same_fees_def dest!: spec [of _ m])

lemma same_fees_known: "same_fees markets markets' \<Longrightarrow> known_legs markets b \<Longrightarrow> known_legs markets' b"
  using same_fees_at by (fastforce simp: known_legs_def)

lemma same_fees_config: "same_fees markets markets' \<Longrightarrow> config_ok cfg markets \<Longrightarrow> cache_ok markets' \<Longrightarrow> config_ok cfg markets'"
  using same_fees_known by (simp add: config_ok_def)

lemma same_fees_scenario:
  assumes "same_fees markets markets'" and "scenario_ok cfg markets s"
  shows "scenario_ok cfg markets' s"
proof (cases "sc_halted s \<or> sc_attempt s = None")
  case True
  then show ?thesis using assms(2) by (auto simp: scenario_ok_def)
next
  case False
  then obtain a where a: "sc_attempt s = Some a" "\<not> sc_halted s" by blast
  have "underway cfg markets' a s" using assms a same_fees_known by (auto simp: scenario_ok_def underway_def)
  moreover have "stage_ok markets' a s"
    using assms(2) a same_fees_at [OF assms(1)] by (fastforce simp: scenario_ok_def stage_ok_def split: stage.splits)
  ultimately show ?thesis using assms(2) a by (simp add: scenario_ok_def)
qed


subsection \<open>The invariant of the scenarios\<close>

definition scenarios_ok :: "exec_config \<Rightarrow> exec_study \<Rightarrow> bool" where
  "scenarios_ok cfg xs \<longleftrightarrow> config_ok cfg (xs_markets xs) \<and> trace_count (xs_log xs) \<le> 100000 \<and>
     (\<forall>s \<in> set (xs_scenarios xs). scenario_ok cfg (xs_markets xs) s \<and>
        sc_cash s \<le> ec_capital cfg + 100000000 * trace_count (xs_log xs))"

text \<open>What a loop over the scenarios leaves as it was.\<close>

definition rescored :: "exec_study \<Rightarrow> exec_study \<Rightarrow> bool" where
  "rescored xs xs' \<longleftrightarrow> (\<exists>ss log. length ss = length (xs_scenarios xs) \<and> xs' = xs\<lparr>xs_scenarios := ss, xs_log := log\<rparr> \<and>
     (\<forall>i < length ss. sc_halted (xs_scenarios xs ! i) \<longrightarrow> ss ! i = xs_scenarios xs ! i))"

lemma rescored_refl: "rescored xs xs"
  by (auto simp: rescored_def intro!: exI [of _ "xs_scenarios xs"] exI [of _ "xs_log xs"])

lemma rescored_fields:
  assumes "rescored xs xs'"
  shows "xs_control xs' = xs_control xs" "xs_markets xs' = xs_markets xs" "length (xs_scenarios xs') = length (xs_scenarios xs)"
    "xs_last_time xs' = xs_last_time xs" "xs_last_wall xs' = xs_last_wall xs" "xs_broken xs' = xs_broken xs"
    "xs_expired xs' = xs_expired xs" "xs_generation xs' = xs_generation xs" "xs_finished xs' = xs_finished xs"
  using assms by (auto simp: rescored_def)

lemma rescored_trans:
  assumes "rescored xs xs'" and "rescored xs' xs''"
  shows "rescored xs xs''"
proof -
  obtain ss log where one: "length ss = length (xs_scenarios xs)" "xs' = xs\<lparr>xs_scenarios := ss, xs_log := log\<rparr>"
    "\<forall>i < length ss. sc_halted (xs_scenarios xs ! i) \<longrightarrow> ss ! i = xs_scenarios xs ! i" using assms(1) by (auto simp: rescored_def)
  obtain ss' log' where two: "length ss' = length ss" "xs'' = xs\<lparr>xs_scenarios := ss', xs_log := log'\<rparr>"
    "\<forall>i < length ss'. sc_halted (ss ! i) \<longrightarrow> ss' ! i = ss ! i" using assms(2) by (auto simp: rescored_def one)
  have "\<forall>i < length ss'. sc_halted (xs_scenarios xs ! i) \<longrightarrow> ss' ! i = xs_scenarios xs ! i" using one(3) two by simp
  then show ?thesis using one(1) two(1,2) by (auto simp: rescored_def intro!: exI [of _ ss'] exI [of _ log'])
qed

definition kept :: "exec_config \<Rightarrow> exec_study \<Rightarrow> exec_study \<Rightarrow> bool" where
  "kept cfg xs xs' \<longleftrightarrow> scenarios_ok cfg xs' \<and> rescored xs xs'"

lemma kept_trans: "kept cfg xs xs' \<Longrightarrow> kept cfg xs' xs'' \<Longrightarrow> kept cfg xs xs''"
  using rescored_trans by (auto simp: kept_def)

lemma put_scenario_kept:
  assumes ok: "scenarios_ok cfg xs" and i: "i < length (xs_scenarios xs)"
    and s: "scenario_ok cfg (xs_markets xs) (fst r)" and grown: "grows (xs_scenarios xs ! i) (xs_log xs) r"
    and still: "sc_halted (xs_scenarios xs ! i) \<Longrightarrow> fst r = xs_scenarios xs ! i"
  shows "kept cfg xs (put_scenario i r xs)"
proof -
  obtain s' log' where r: "r = (s', log')" by (cases r)
  have g: "trace_count (xs_log xs) \<le> trace_count log'" "trace_count log' \<le> 100000"
    "sc_cash s' \<le> sc_cash (xs_scenarios xs ! i) + 100000000 * (trace_count log' - trace_count (xs_log xs))"
    using grown ok by (auto simp: grows_def r scenarios_ok_def)
  have old: "scenario_ok cfg (xs_markets xs) s \<and> sc_cash s \<le> ec_capital cfg + 100000000 * trace_count log'"
    if "s \<in> set (xs_scenarios xs)" for s
    using ok that g(1) by (force simp: scenarios_ok_def)
  have "sc_cash (xs_scenarios xs ! i) \<le> ec_capital cfg + 100000000 * trace_count (xs_log xs)"
    using ok i by (simp add: scenarios_ok_def)
  then have "sc_cash s' \<le> ec_capital cfg + 100000000 * trace_count log'" using g(3) by (simp add: right_diff_distrib)
  then have "scenarios_ok cfg (put_scenario i r xs)"
    using old s g(2) ok set_update_subset_insert [of "xs_scenarios xs" i s'] by (fastforce simp: scenarios_ok_def put_scenario_def r)
  moreover have "(xs_scenarios xs)[i := s'] ! j = xs_scenarios xs ! j" if "sc_halted (xs_scenarios xs ! j)" for j
    using still that by (cases "j = i") (simp_all add: r)
  then have "rescored xs (put_scenario i r xs)"
    unfolding rescored_def put_scenario_def
    by (intro exI [of _ "(xs_scenarios xs)[i := s']"] exI [of _ log']) (simp add: r)
  ultimately show ?thesis by (simp add: kept_def)
qed

lemma each_scenario_kept:
  assumes "scenarios_ok cfg xs"
    and "\<And>i s log. scenario_ok cfg (xs_markets xs) s \<Longrightarrow> sc_cash s \<le> ec_capital cfg + 10000000000000 \<Longrightarrow>
      yields E (\<lambda>r. scenario_ok cfg (xs_markets xs) (fst r)) (f i s log) \<and> yields any_error (grows s log) (f i s log) \<and>
      (sc_halted s \<longrightarrow> f i s log = Inr (s, log))"
  shows "yields E (kept cfg xs) (each_scenario f xs)"
  unfolding each_scenario_def
proof (rule yields_fold)
  show "kept cfg xs xs" using assms(1) rescored_refl by (simp add: kept_def)
next
  fix i xs'
  assume i: "i \<in> set [0 ..< length (xs_scenarios xs)]" and k: "kept cfg xs xs'"
  let ?s = "xs_scenarios xs' ! i"
  have same: "scenarios_ok cfg xs'" "xs_markets xs' = xs_markets xs" "i < length (xs_scenarios xs')"
    using k i rescored_fields by (auto simp: kept_def)
  have "scenario_ok cfg (xs_markets xs) ?s" "sc_cash ?s \<le> ec_capital cfg + 100000000 * trace_count (xs_log xs')" "trace_count (xs_log xs') \<le> 100000"
    using same nth_mem [OF same(3)] by (simp_all add: scenarios_ok_def)
  then have s: "scenario_ok cfg (xs_markets xs) ?s" "sc_cash ?s \<le> ec_capital cfg + 10000000000000" by linarith+
  note step = assms(2) [OF s, of i "xs_log xs'"]
  show "yields E (kept cfg xs) (and_then (f i ?s (xs_log xs')) (\<lambda>r. Inr (put_scenario i r xs')))"
  proof (cases "f i ?s (xs_log xs')")
    case (Inr r)
    then have "kept cfg xs' (put_scenario i r xs')"
      using put_scenario_kept [OF same(1,3), of r] step same(2) by auto
    then show ?thesis using kept_trans [OF k] Inr by simp
  qed (use step in auto)
qed


subsection \<open>The parts of a record\<close>

lemma returns_yields: "returns P r = yields external_error P r"
  by (simp add: returns_def yields_def)

definition study_error :: "string \<Rightarrow> bool" where
  "study_error e \<longleftrightarrow> external_error e \<or> observation_error e \<or> e \<in> {''execution clock regression'', ''execution wall binding''}"

lemma study_errors: "external_error e \<Longrightarrow> study_error e" "observation_error e \<Longrightarrow> study_error e"
  by (simp_all add: study_error_def)

lemma returns_study: "returns P r \<Longrightarrow> yields study_error P r"
  using yields_errors [of external_error P r study_error] study_errors(1) by (simp add: returns_yields)

lemma observation_study: "yields observation_error P r \<Longrightarrow> yields study_error P r"
  using yields_errors [of observation_error P r study_error] study_errors(2) by simp

lemma censor_all_kept:
  assumes "scenarios_ok cfg xs"
  shows "yields study_error (\<lambda>xs'. kept cfg xs xs') (censor_all cfg time reason xs)"
  unfolding censor_all_def
  using assms
  by (rule each_scenario_kept)
    (auto intro!: returns_study returns_mono [OF censor_returns] censor_grows simp: halted_still(1))

lemma break_continuity_kept:
  assumes "scenarios_ok cfg xs"
  shows "yields study_error (\<lambda>xs'. kept cfg (xs\<lparr>xs_broken := True\<rparr>) xs') (break_continuity cfg time reason xs)"
  unfolding break_continuity_def using assms by (intro censor_all_kept) (simp add: scenarios_ok_def)

lemma decide_all_kept:
  assumes ok: "scenarios_ok cfg xs" and known: "episodes_known cfg signals" and capital: "ec_capital cfg \<le> 990000000000000"
  shows "yields study_error (kept cfg xs) (decide_all cfg time signals xs)"
  unfolding decide_all_def
proof (rule each_scenario_kept [OF ok])
  fix i s log
  assume s: "scenario_ok cfg (xs_markets xs) s" "sc_cash s \<le> ec_capital cfg + 10000000000000"
  have "returns (\<lambda>r. scenario_ok cfg (xs_markets xs) (fst r)) (decide cfg (xs_markets xs) signals i time s log)"
    using ok s capital known by (intro decide_returns) (simp_all add: scenarios_ok_def)
  then show "yields study_error (\<lambda>r. scenario_ok cfg (xs_markets xs) (fst r)) (decide cfg (xs_markets xs) signals i time s log) \<and>
    yields any_error (grows s log) (decide cfg (xs_markets xs) signals i time s log) \<and>
    (sc_halted s \<longrightarrow> decide cfg (xs_markets xs) signals i time s log = Inr (s, log))"
    using returns_study decide_grows halted_still(2) by auto
qed

text \<open>The loop over the due events of all scenarios returns.\<close>

lemma advance_each_kept:
  assumes "scenarios_ok cfg xs" and "\<forall>i \<in> set indexes. i < length (xs_scenarios xs)"
  shows "\<exists>r. advance_each cfg time indexes xs = Some r \<and> yields study_error (kept cfg xs) r"
  using assms
proof (induction indexes arbitrary: xs)
  case Nil
  then show ?case using rescored_refl by (simp add: kept_def)
next
  case (Cons i indexes)
  let ?s = "xs_scenarios xs ! i"
  have ok: "scenario_ok cfg (xs_markets xs) ?s" "config_ok cfg (xs_markets xs)" using Cons.prems by (simp_all add: scenarios_ok_def)
  obtain r where r: "advance_scenario cfg (xs_markets xs) i time ?s (xs_log xs) = Some r"
    "returns (advanced cfg (xs_markets xs) time ?s (xs_log xs)) r"
    using advance_returns [OF ok(2,1)] by blast
  show ?case
  proof (cases r)
    case (Inl e)
    then show ?thesis using r study_errors(1) by simp
  next
    case (Inr x)
    have still: "fst x = ?s" if "sc_halted ?s" using halted_still(3) [OF that] r(1) Inr by fastforce
    have k: "kept cfg xs (put_scenario i x xs)"
      using put_scenario_kept [OF Cons.prems(1) _ _ _ still] Cons.prems(2) r(2) Inr by (simp add: advanced_def)
    then have "\<exists>r. advance_each cfg time indexes (put_scenario i x xs) = Some r \<and> yields study_error (kept cfg (put_scenario i x xs)) r"
      using Cons.prems(2) rescored_fields(3) [of xs "put_scenario i x xs"] by (intro Cons.IH) (simp_all add: kept_def)
    then obtain r' where r': "advance_each cfg time indexes (put_scenario i x xs) = Some r'"
      "yields study_error (kept cfg (put_scenario i x xs)) r'" by blast
    have "yields study_error (kept cfg xs) r'" using r'(2) kept_trans [OF k] by (rule yields_mono)
    then show ?thesis using r(1) Inr r'(1) by simp
  qed
qed

text \<open>Changing only the books, or their validity.\<close>

lemma scenarios_ok_markets:
  assumes "scenarios_ok cfg xs" and "same_fees (xs_markets xs) (xs_markets xs')" and "cache_ok (xs_markets xs')"
    and "xs_scenarios xs' = xs_scenarios xs" and "xs_log xs' = xs_log xs"
  shows "scenarios_ok cfg xs'"
  using assms same_fees_config same_fees_scenario by (auto simp: scenarios_ok_def)

lemma invalidate_markets:
  assumes "cache_ok markets"
  shows "same_fees markets (\<lambda>m. map_option (\<lambda>c. c\<lparr>ca_valid := False\<rparr>) (markets m)) \<and>
    cache_ok (\<lambda>m. map_option (\<lambda>c. c\<lparr>ca_valid := False\<rparr>) (markets m))"
  using assms by (auto simp: same_fees_def cache_ok_def cached_ok_def option.map_comp comp_def)

lemma update_market:
  assumes "cache_ok markets" and "markets m = Some c" and "ca_fee c' = ca_fee c" and "side_ok False (ca_bids c')" and "side_ok True (ca_asks c')"
  shows "same_fees markets (markets(m \<mapsto> c')) \<and> cache_ok (markets(m \<mapsto> c'))"
  using assms by (auto simp: same_fees_def cache_ok_def cached_ok_def)


subsection \<open>The observer keeps the invariant\<close>

text \<open>The scenarios of a later study: the same ones, the halted ones unchanged.\<close>

definition frozen :: "exec_study \<Rightarrow> exec_study \<Rightarrow> bool" where
  "frozen xs xs' \<longleftrightarrow> length (xs_scenarios xs') = length (xs_scenarios xs) \<and>
     (\<forall>i < length (xs_scenarios xs). sc_halted (xs_scenarios xs ! i) \<longrightarrow> xs_scenarios xs' ! i = xs_scenarios xs ! i)"

lemma frozen_trans: "frozen xs xs' \<Longrightarrow> frozen xs' xs'' \<Longrightarrow> frozen xs xs''"
  by (simp add: frozen_def)

lemma rescored_frozen: "rescored xs xs' \<Longrightarrow> frozen xs xs'"
  by (auto simp: rescored_def frozen_def)

definition carried :: "exec_config \<Rightarrow> exec_study \<Rightarrow> exec_study \<Rightarrow> bool" where
  "carried cfg xs xs' \<longleftrightarrow> scenarios_ok cfg xs' \<and> xs_control xs' = xs_control xs \<and> frozen xs xs'"

lemma carried_refl: "scenarios_ok cfg xs \<Longrightarrow> carried cfg xs xs"
  by (simp add: carried_def frozen_def)

lemma carried_trans: "carried cfg xs xs' \<Longrightarrow> carried cfg xs' xs'' \<Longrightarrow> carried cfg xs xs''"
  using frozen_trans by (auto simp: carried_def)

lemma kept_carried: "kept cfg xs' xs'' \<Longrightarrow> xs_control xs' = xs_control xs \<Longrightarrow> xs_scenarios xs' = xs_scenarios xs \<Longrightarrow> carried cfg xs xs''"
  by (auto simp: kept_def carried_def rescored_def frozen_def)

lemma markets_carried:
  assumes "scenarios_ok cfg xs" and "same_fees (xs_markets xs) markets \<and> cache_ok markets"
  shows "carried cfg xs (xs\<lparr>xs_markets := markets\<rparr>)"
  using assms scenarios_ok_markets [of cfg xs "xs\<lparr>xs_markets := markets\<rparr>"] by (simp add: carried_def frozen_def)

lemma censor_all_carried:
  assumes "scenarios_ok cfg xs'" and "xs_control xs' = xs_control xs" and "xs_scenarios xs' = xs_scenarios xs"
  shows "yields study_error (carried cfg xs) (censor_all cfg time reason xs')"
  using censor_all_kept [OF assms(1)] kept_carried [OF _ assms(2,3)] by (rule yields_mono)

lemma break_carried:
  assumes "scenarios_ok cfg xs" and "scenarios_ok cfg xs \<Longrightarrow> carried cfg ys xs"
  shows "yields study_error (carried cfg ys) (if b then break_continuity cfg time reason xs else Inr xs)"
proof -
  have "yields study_error (carried cfg xs) (break_continuity cfg time reason xs)"
    using break_continuity_kept [OF assms(1)] by (rule yields_mono) (erule kept_carried; simp)
  then have "yields study_error (carried cfg ys) (break_continuity cfg time reason xs)"
    using carried_trans [OF assms(2) [OF assms(1)]] by (rule yields_mono)
  then show ?thesis using assms by simp
qed

lemma check_wall_carried:
  assumes ok: "scenarios_ok cfg xs"
  shows "yields study_error (carried cfg xs) (check_wall cfg frame xs)"
proof (cases "fr_observed_wall frame")
  case (Some wall)
  have rest: "yields study_error (carried cfg xs)
      (if ec_until cfg \<le> wall then censor_all cfg (fr_time frame) ''policy_expired'' (xs1\<lparr>xs_expired := True\<rparr>) else Inr xs1)"
    if "carried cfg xs xs1" for xs1
  proof -
    have "scenarios_ok cfg (xs1\<lparr>xs_expired := True\<rparr>)" using that by (simp add: carried_def scenarios_ok_def)
    then have "yields study_error (carried cfg xs1) (censor_all cfg (fr_time frame) ''policy_expired'' (xs1\<lparr>xs_expired := True\<rparr>))"
      by (rule censor_all_carried) simp_all
    then have "yields study_error (carried cfg xs) (censor_all cfg (fr_time frame) ''policy_expired'' (xs1\<lparr>xs_expired := True\<rparr>))"
      using carried_trans [OF that] by (rule yields_mono)
    then show ?thesis using that by simp
  qed
  show ?thesis
    unfolding check_wall_def Some using yields_and_then [OF break_carried [OF ok carried_refl] rest] by (simp add: study_error_def)
qed (simp add: check_wall_def study_error_def)

lemma check_connection_carried:
  assumes ok: "scenarios_ok cfg xs"
  shows "yields study_error (carried cfg xs) (check_connection cfg frame state xs)"
proof -
  have "yields study_error (carried cfg xs) (and_then (censor_all cfg (fr_time frame) ''connection_change'' xs) (\<lambda>xs.
             Inr (xs\<lparr>xs_markets := (\<lambda>m. map_option (\<lambda>c. c\<lparr>ca_valid := False\<rparr>) (xs_markets xs m))\<rparr>)))"
  proof (rule yields_and_then [OF censor_all_carried [OF ok refl refl]])
    fix xs1
    assume c: "carried cfg xs xs1"
    then have "scenarios_ok cfg xs1" "cache_ok (xs_markets xs1)" by (simp_all add: carried_def scenarios_ok_def config_ok_def)
    from markets_carried [OF this(1) invalidate_markets [OF this(2)]] carried_trans [OF c]
    show "yields study_error (carried cfg xs) (Inr (xs1\<lparr>xs_markets := (\<lambda>m. map_option (\<lambda>c. c\<lparr>ca_valid := False\<rparr>) (xs_markets xs1 m))\<rparr>))"
      by simp
  qed
  then show ?thesis using carried_refl [OF ok] by (simp add: check_connection_def)
qed

lemma check_book_carried:
  assumes ok: "scenarios_ok cfg xs"
  shows "yields study_error (carried cfg xs) (check_book cfg frame state xs)"
proof -
  have "yields study_error (carried cfg xs) (censor_all cfg (fr_time frame) ''invalid_book''
      (xs\<lparr>xs_markets := (xs_markets xs)(market \<mapsto> m\<lparr>ca_valid := False\<rparr>)\<rparr>))" if "xs_markets xs market = Some m" for market m
  proof -
    have cache: "cache_ok (xs_markets xs)" using ok by (simp add: scenarios_ok_def config_ok_def)
    then have "same_fees (xs_markets xs) ((xs_markets xs)(market \<mapsto> m\<lparr>ca_valid := False\<rparr>)) \<and>
        cache_ok ((xs_markets xs)(market \<mapsto> m\<lparr>ca_valid := False\<rparr>))"
      using that by (intro update_market [OF cache that]) (auto simp: cache_ok_def cached_ok_def)
    from markets_carried [OF ok this] have "scenarios_ok cfg (xs\<lparr>xs_markets := (xs_markets xs)(market \<mapsto> m\<lparr>ca_valid := False\<rparr>)\<rparr>)"
      by (simp add: carried_def)
    then show ?thesis by (rule censor_all_carried) simp_all
  qed
  then show ?thesis using carried_refl [OF ok] by (simp add: check_book_def split: option.split)
qed

lemma cache_book_carried:
  assumes ok: "scenarios_ok cfg xs" and market: "market_ok state"
  shows "carried cfg xs (cache_book frame state xs)"
proof -
  have "carried cfg xs (xs\<lparr>xs_markets := (xs_markets xs)(m \<mapsto> c\<lparr>ca_valid := True, ca_bids := visit_levels Bid cache_level book [],
      ca_asks := visit_levels Ask cache_level book []\<rparr>)\<rparr>)" if c: "xs_markets xs m = Some c" and usable: "usable_book m state = Some book" for m c book
  proof -
    have "map_of (ms_books state) m = Some book"
      using usable by (auto simp: usable_book_def find_book_def split: option.splits if_splits)
    then have "book_ok book" using market market_ok_find by blast
    moreover have "cache_ok (xs_markets xs)" using ok by (simp add: scenarios_ok_def config_ok_def)
    ultimately show ?thesis
      using c cached_side_ok [of book] by (intro markets_carried [OF ok] update_market [where c = c]) simp_all
  qed
  then show ?thesis using carried_refl [OF ok] by (simp add: cache_book_def split: option.split)
qed


text \<open>Between calls: the scenarios, and the control with its baskets known to the study.\<close>

definition control_ok :: "exec_config \<Rightarrow> observation_config \<Rightarrow> int \<Rightarrow> observation \<Rightarrow> bool" where
  "control_ok cfg ocfg now os \<longleftrightarrow> observation_ok now os \<and> indexed ocfg os \<and>
     (\<forall>i \<in> set (map bk_id (os_baskets os)). ec_baskets cfg i \<noteq> None)"

definition study_ok :: "exec_config \<Rightarrow> observation_config \<Rightarrow> int \<Rightarrow> exec_study \<Rightarrow> bool" where
  "study_ok cfg ocfg now xs \<longleftrightarrow> scenarios_ok cfg xs \<and> control_ok cfg ocfg now (xs_control xs)"

lemma follows_control:
  "follows os os' \<Longrightarrow> control_ok cfg ocfg now os \<Longrightarrow> observation_ok time os' \<Longrightarrow> control_ok cfg ocfg time os'"
  using follows_indexed by (auto simp: control_ok_def follows_def simp del: set_map)

lemma clear_signals_ok: "observation_ok now os \<Longrightarrow> observation_ok now (os\<lparr>os_signals := []\<rparr>)"
  using in_step_cong [of "os\<lparr>os_signals := []\<rparr>" os] by (simp add: observation_ok_def dependencies_ok_def pristine_def)

lemma study_before_ok:
  assumes ok: "study_ok cfg ocfg now xs" and times: "now \<le> time" "0 \<le> time" "time \<le> 9223372036854775807"
  shows "yields study_error (\<lambda>xs'. study_ok cfg ocfg time xs' \<and> frozen xs xs') (study_before cfg ocfg time xs)"
proof -
  have base: "scenarios_ok cfg xs" "control_ok cfg ocfg now (xs_control xs)" using ok by (simp_all add: study_ok_def)
  have control: "yields study_error (\<lambda>xs'. study_ok cfg ocfg time xs' \<and> frozen xs xs')
      (and_then (observation_before ocfg time (xs_control xs1)) (\<lambda>os. Inr (xs1\<lparr>xs_control := os\<rparr>)))"
    if c: "carried cfg xs xs1" for xs1
  proof -
    have obs: "yields observation_error (\<lambda>os'. observation_ok time os' \<and> follows (xs_control xs1) os' \<and> os_finished os' = os_finished (xs_control xs1))
        (observation_before ocfg time (xs_control xs1))"
      using c base times by (intro before_ok) (auto simp: carried_def control_ok_def)
    show ?thesis
    proof (rule yields_and_then [OF observation_study [OF obs]], elim conjE)
      fix os'
      assume os': "observation_ok time os'" "follows (xs_control xs1) os'"
      then have "control_ok cfg ocfg time os'" using follows_control c base by (auto simp: carried_def)
      then show "yields study_error (\<lambda>xs'. study_ok cfg ocfg time xs' \<and> frozen xs xs') (Inr (xs1\<lparr>xs_control := os'\<rparr>))"
        using c by (simp add: study_ok_def carried_def scenarios_ok_def frozen_def)
    qed
  qed
  show ?thesis
    unfolding study_before_def using yields_and_then [OF break_carried [OF base(1) carried_refl] control] by (simp add: study_error_def)
qed

lemma conclude_record_ok:
  assumes base: "scenarios_ok cfg xs" "control_ok cfg ocfg now (xs_control xs)"
    and times: "now \<le> fr_time frame" "0 \<le> fr_time frame" "fr_time frame \<le> 9223372036854775807"
    and market: "market_ok state" and capital: "ec_capital cfg \<le> 990000000000000"
  shows "yields study_error (\<lambda>xs'. study_ok cfg ocfg (fr_time frame) xs' \<and> frozen xs xs') (conclude_record cfg ocfg frame state xs)"
proof -
  let ?t = "fr_time frame"
  define ys where "ys = cache_book frame state xs"
  have c: "carried cfg xs ys" using cache_book_carried [OF base(1) market] by (simp add: ys_def)
  let ?os = "(xs_control ys)\<lparr>os_signals := []\<rparr>"
  have os: "control_ok cfg ocfg now ?os"
    using base(2) c clear_signals_ok by (simp add: carried_def control_ok_def indexed_def)
  have obs: "yields observation_error (\<lambda>os'. (\<exists>first. recorded first ?t os') \<and> follows ?os os') (observation_after ocfg frame state ?os)"
    using os times by (intro after_recorded) (auto simp: control_ok_def)
  define rest where "rest os = (let signals = os_signals os;
               xs = ys\<lparr>xs_control := os, xs_episodes := xs_episodes ys + of_nat (length signals)\<rparr>
           in and_then (if \<not> xs_broken xs \<and> \<not> xs_expired xs \<and> ms_connected state \<and> signals \<noteq> []
                        then decide_all cfg ?t signals xs else Inr xs) (\<lambda>xs.
                Inr (xs\<lparr>xs_last_time := Some ?t, xs_last_wall := fr_observed_wall frame,
                        xs_generation := ms_generation state\<rparr>)))" for os
  have "yields study_error (\<lambda>xs'. study_ok cfg ocfg ?t xs' \<and> frozen xs xs') (rest os')"
    if os': "(\<exists>first. recorded first ?t os') \<and> follows ?os os'" for os'
  proof -
    let ?xs = "ys\<lparr>xs_control := os', xs_episodes := xs_episodes ys + of_nat (length (os_signals os'))\<rparr>"
    have control: "control_ok cfg ocfg ?t os'" using os' os follows_control recorded_ok by blast
    have known: "episodes_known cfg (os_signals os')"
      using os' os unfolding follows_def episodes_known_def control_ok_def by auto
    have ok: "scenarios_ok cfg ?xs" using c by (simp add: carried_def scenarios_ok_def)
    have same: "study_ok cfg ocfg ?t xs' \<and> frozen xs xs'" if "kept cfg ?xs xs'" for xs'
    proof -
      have "frozen ?xs xs'" "xs_control xs' = os'" "scenarios_ok cfg xs'"
        using that rescored_frozen [of ?xs xs'] rescored_fields(1) [of ?xs xs'] by (simp_all add: kept_def)
      moreover from this(1) have "frozen ys xs'" by (simp add: frozen_def)
      then have "frozen xs xs'" using c frozen_trans [of xs ys xs'] by (simp add: carried_def)
      ultimately show ?thesis using control by (simp add: study_ok_def)
    qed
    have step: "yields study_error (kept cfg ?xs) (if \<not> xs_broken ?xs \<and> \<not> xs_expired ?xs \<and> ms_connected state \<and> os_signals os' \<noteq> []
        then decide_all cfg ?t (os_signals os') ?xs else Inr ?xs)"
      using decide_all_kept [OF ok known capital] ok rescored_refl by (simp add: kept_def)
    have "study_ok cfg ocfg ?t (xs'\<lparr>xs_last_time := a, xs_last_wall := b, xs_generation := g\<rparr>) \<and>
        frozen xs (xs'\<lparr>xs_last_time := a, xs_last_wall := b, xs_generation := g\<rparr>)" if "kept cfg ?xs xs'" for xs' a b g
      using same [OF that] by (simp add: study_ok_def scenarios_ok_def frozen_def)
    then show ?thesis unfolding rest_def Let_def by (intro yields_and_then [OF step]) simp
  qed
  then have "yields study_error (\<lambda>xs'. study_ok cfg ocfg ?t xs' \<and> frozen xs xs') (and_then (observation_after ocfg frame state ?os) rest)"
    by (rule yields_and_then [OF observation_study [OF obs]])
  then show ?thesis by (simp add: conclude_record_def rest_def [abs_def] ys_def Let_def)
qed

lemma study_after_ok:
  assumes ok: "study_ok cfg ocfg now xs" and times: "now \<le> fr_time frame" "0 \<le> fr_time frame" "fr_time frame \<le> 9223372036854775807"
    and market: "market_ok state" and capital: "ec_capital cfg \<le> 990000000000000"
  shows "\<exists>r. study_after cfg ocfg frame state xs = Some r \<and>
    yields study_error (\<lambda>xs'. study_ok cfg ocfg (fr_time frame) xs' \<and> frozen xs xs') r"
proof -
  let ?xs = "xs\<lparr>xs_records := xs_records xs + 1\<rparr>"
  have base: "scenarios_ok cfg ?xs" "control_ok cfg ocfg now (xs_control xs)" using ok by (simp_all add: study_ok_def scenarios_ok_def)
  have next_step: "yields study_error (carried cfg ?xs) (f ys)"
    if "carried cfg ?xs ys" "scenarios_ok cfg ys \<Longrightarrow> yields study_error (carried cfg ys) (f ys)" for f :: "exec_study \<Rightarrow> string + exec_study" and ys
  proof (rule yields_mono)
    show "yields study_error (carried cfg ys) (f ys)" using that by (simp add: carried_def)
    show "carried cfg ys zs \<Longrightarrow> carried cfg ?xs zs" for zs using carried_trans [OF that(1)] .
  qed
  have checked: "yields study_error (carried cfg ?xs) (and_then (check_wall cfg frame ?xs) (\<lambda>xs.
             and_then (check_connection cfg frame state xs) (check_book cfg frame state)))"
    by (intro yields_and_then [OF check_wall_carried [OF base(1)]] yields_and_then [where Q = "carried cfg ?xs"] next_step
        check_connection_carried check_book_carried)
  show ?thesis
  proof (cases "and_then (check_wall cfg frame ?xs) (\<lambda>xs. and_then (check_connection cfg frame state xs) (check_book cfg frame state))")
    case (Inl e)
    then show ?thesis using checked by (simp add: study_after_def)
  next
    case (Inr ys)
    then have c: "carried cfg ?xs ys" using checked by simp
    have "\<exists>r. (if \<not> xs_broken ys \<and> \<not> xs_expired ys \<and> \<not> disconnected state xs
        then advance_each cfg (fr_time frame) [0 ..< length (xs_scenarios ys)] ys else Some (Inr ys)) = Some r \<and>
      yields study_error (kept cfg ys) r"
      using advance_each_kept [of cfg ys "[0 ..< length (xs_scenarios ys)]"] c rescored_refl by (auto simp: carried_def kept_def)
    then obtain r where r: "(if \<not> xs_broken ys \<and> \<not> xs_expired ys \<and> \<not> disconnected state xs
        then advance_each cfg (fr_time frame) [0 ..< length (xs_scenarios ys)] ys else Some (Inr ys)) = Some r"
      "yields study_error (kept cfg ys) r" by blast
    have "yields study_error (\<lambda>xs'. study_ok cfg ocfg (fr_time frame) xs' \<and> frozen xs xs') (and_then r (conclude_record cfg ocfg frame state))"
    proof (rule yields_and_then [OF r(2)])
      fix zs
      assume "kept cfg ys zs"
      then have z: "carried cfg ?xs zs" using kept_carried [of cfg ys zs ys] carried_trans [OF c] by simp
      then have "scenarios_ok cfg zs" "control_ok cfg ocfg now (xs_control zs)" "frozen xs zs"
        using base(2) by (simp_all add: carried_def frozen_def)
      then show "yields study_error (\<lambda>xs'. study_ok cfg ocfg (fr_time frame) xs' \<and> frozen xs xs') (conclude_record cfg ocfg frame state zs)"
        using frozen_trans by (intro yields_mono [OF conclude_record_ok [OF _ _ times market capital]]) auto
    qed
    moreover have "study_after cfg ocfg frame state xs = Some (and_then r (conclude_record cfg ocfg frame state))"
      using Inr r(1) by (simp add: study_after_def)
    ultimately show ?thesis by blast
  qed
qed


subsection \<open>The study the policies give\<close>

abbreviation fee_market :: "fee_row \<Rightarrow> market_id" where
  "fee_market row \<equiv> ucast (fw_market_id row)"

lemma bind_markets_card:
  "bind_markets metadata rows (indexes, ms) = Inr (indexes', ms') \<Longrightarrow> finite (dom indexes) \<Longrightarrow> card (dom indexes) = length ms \<Longrightarrow>
     finite (dom indexes') \<and> card (dom indexes') = length ms'"
proof (induction rows arbitrary: indexes ms)
  case (Cons row rows)
  obtain i ticker where row: "row = (i, ticker)" by (cases row)
  obtain market where "bind_markets metadata rows (indexes(market \<mapsto> length ms), ms @ [new_cached_market market]) = Inr (indexes', ms')"
    "indexes market = None"
    using Cons.prems(1) by (auto simp: row and_then_Inr split: if_splits)
  moreover from this(2) have "dom (indexes(market \<mapsto> length ms)) = insert market (dom indexes)" "market \<notin> dom indexes" by auto
  ultimately show ?case using Cons.IH [of "indexes(market \<mapsto> length ms)" "ms @ [new_cached_market market]"] Cons.prems(2,3)
    by (simp del: fun_upd_apply dom_fun_upd)
qed simp

lemma bind_fees_covers:
  "bind_fees indexes rows ids ms = Inr ms' \<Longrightarrow> distinct ids \<Longrightarrow> set ids \<subseteq> dom indexes \<Longrightarrow>
     distinct (rev (map fee_market rows) @ ids) \<and> set (map fee_market rows) \<subseteq> dom indexes \<and>
     (\<forall>row \<in> set rows. policy_ok (ca_fee (cached_fee row)))"
proof (induction rows arbitrary: ids ms)
  case (Cons row rows)
  obtain k where k: "indexes (fee_market row) = Some k" "fee_market row \<notin> set ids" "fw_coefficient_ppm row \<le> 1000000"
    "balance_quantum_micro (ca_fee (cached_fee row)) \<in> {100, 10000}"
    and step: "bind_fees indexes rows (fee_market row # ids) (ms[k := (ms ! k)\<lparr>cm_fee := ca_fee (cached_fee row)\<rparr>]) = Inr ms'"
    using Cons.prems(1) by (auto simp: and_then_Inr Let_def positive_id_def cached_fee_def not_less split: if_splits option.splits)
  have "coefficient_ppm (ca_fee (cached_fee row)) \<le> 1000000"
    using k(3) by (simp add: cached_fee_def word_le_nat_alt unsigned_ucast_eq) (metis take_bit_nat_less_eq_self order_trans)
  then have "policy_ok (ca_fee (cached_fee row))" using k(4) by (auto simp: policy_ok_def)
  then show ?case using Cons.IH [OF step] Cons.prems(2,3) k(1,2) by auto
qed simp

lemma fold_updates:
  "(fold (\<lambda>x m. m(k x \<mapsto> v x)) xs m0 i = None \<longleftrightarrow> i \<notin> k ` set xs \<and> m0 i = None) \<and>
     (\<forall>c. fold (\<lambda>x m. m(k x \<mapsto> v x)) xs m0 i = Some c \<longrightarrow> c \<in> v ` set xs \<or> m0 i = Some c)"
proof (induction xs arbitrary: m0)
  case (Cons x xs)
  show ?case using Cons.IH [of "m0(k x \<mapsto> v x)"] by (cases "i = k x") auto
qed simp

lemma bind_cache_rows:
  "(bind_cache rows m = None \<longleftrightarrow> m \<notin> set (map fee_market rows)) \<and> (\<forall>c. bind_cache rows m = Some c \<longrightarrow> (\<exists>row \<in> set rows. c = cached_fee row))"
  using fold_updates [of fee_market cached_fee rows Map.empty m] by (auto simp: bind_cache_def)

lemma bind_exec_baskets_rows:
  "(\<forall>row \<in> set rows. bind_exec_baskets rows (ucast (rw_id row)) \<noteq> None) \<and>
     (\<forall>i b. bind_exec_baskets rows i = Some b \<longrightarrow> (\<exists>row \<in> set rows. b = exec_basket row))"
  using fold_updates [of "\<lambda>row. ucast (rw_id row)" exec_basket rows Map.empty] by (fastforce simp: bind_exec_baskets_def)

lemma bind_legs_known:
  "bind_legs indexes legs ks tables = Inr (ks', tables') \<Longrightarrow> \<forall>leg \<in> set legs. indexes (fst leg) \<noteq> None"
proof (induction legs arbitrary: ks tables)
  case (Cons leg legs)
  obtain market meaning where leg: "leg = (market, meaning)" by (cases leg)
  obtain k ks1 tables1 where "indexes market = Some k" "bind_legs indexes legs ks1 tables1 = Inr (ks', tables')"
    using Cons.prems by (cases meaning) (auto simp: leg split: if_splits option.splits)
  then show ?case using Cons.IH by (simp add: leg)
qed simp

lemma bind_basket_row:
  assumes "bind_basket indexes row tables = Inr tables'"
  shows "map bk_id (st_baskets tables') = map bk_id (st_baskets tables) @ [ucast (rw_id row)] \<and>
    set (bt_ids (exec_basket row)) \<subseteq> dom indexes"
  using assms
  by (auto simp: bind_basket_def and_then_Inr Let_def positive_id_def exec_basket_def new_basket_def simp del: bind_legs.simps split: if_splits
      dest: bind_legs_known bind_legs_baskets)

lemma bind_baskets_rows:
  "and_fold (bind_basket indexes) rows tables = Inr tables' \<Longrightarrow>
     map bk_id (st_baskets tables') = map bk_id (st_baskets tables) @ map (\<lambda>row. ucast (rw_id row)) rows \<and>
     (\<forall>row \<in> set rows. set (bt_ids (exec_basket row)) \<subseteq> dom indexes)"
proof (induction rows arbitrary: tables)
  case (Cons row rows)
  then obtain tables1 where t1: "bind_basket indexes row tables = Inr tables1" "and_fold (bind_basket indexes) rows tables1 = Inr tables'"
    by (auto simp: and_then_Inr)
  then show ?case using Cons.IH [OF t1(2)] bind_basket_row [OF t1(1)] by simp
qed simp


lemma bind_delays_new:
  "bind_delays capital delays seen scenarios = Inr scenarios' \<Longrightarrow> \<forall>s \<in> set scenarios. \<exists>d. 0 < d \<and> s = new_scenario d capital \<Longrightarrow>
     (\<forall>s \<in> set scenarios'. \<exists>d. 0 < d \<and> s = new_scenario d capital) \<and> length scenarios' = length scenarios + length delays"
proof (induction delays arbitrary: seen scenarios)
  case (Cons delay delays)
  obtain d where d: "delay = Some d" "1 \<le> sint d"
    "bind_delays capital delays (sint d # seen) (scenarios @ [new_scenario (sint d * nanoseconds_per_ms) capital]) = Inr scenarios'"
    using Cons.prems(1) by (cases delay) (auto simp: Let_def split: if_splits)
  from Cons.IH [OF d(3)] Cons.prems(2) d(2) show ?case by (fastforce simp: nanoseconds_per_ms_def)
qed simp

lemma emit_first: "emit cfg row \<lparr>lg_trace = 0, lg_rows = []\<rparr> = Inr log \<Longrightarrow> lg_trace log = 1"
  by (auto simp: emit_def Let_def split: if_splits)

lemma make_exec_study_ok:
  assumes "make_exec_study policy basket_sha256 accepted from_ms until_ms maximum_events total_budget sizing metadata market_rows fee_rows basket_rows writes =
      Inr ((cfg, ocfg), xs)"
  shows "study_ok cfg ocfg 0 xs \<and> ec_capital cfg = uint (sw_available_cash sizing) \<and>
    (\<forall>s \<in> set (xs_scenarios xs). \<exists>d. 0 < d \<and> s = new_scenario d (ec_capital cfg)) \<and>
    0 < length (xs_scenarios xs) \<and> length (xs_scenarios xs) \<le> 6"
proof -
  obtain os0 os scenarios log where limits: "bind_limits policy basket_sha256 = Inr ()"
    and obs: "make_observation from_ms until_ms maximum_events total_budget sizing metadata market_rows fee_rows basket_rows writes = Inr (ocfg, os0)"
    and scenarios: "bind_delays (ec_capital cfg) (xp_delays policy) [] [] = Inr scenarios"
    and start: "observation_start ocfg False os0 = Inr os" and log: "lg_trace log = 1"
    and cfg: "ec_capital cfg = uint (sw_available_cash sizing)" "ec_cap cfg = uint (sw_cap sizing)"
      "ec_margin cfg = uint (xp_minimum_margin policy)" "ec_baskets cfg = bind_exec_baskets basket_rows"
    and xs: "xs_control xs = os" "xs_markets xs = bind_cache fee_rows" "xs_scenarios xs = scenarios" "xs_log xs = log"
    using assms by (auto simp: make_exec_study_def and_then_Inr Let_def dest!: emit_first)
  obtain indexes ms0 ms tables where screen: "bind_markets metadata market_rows (Map.empty, []) = Inr (indexes, ms0)"
      "bind_fees indexes fee_rows [] ms0 = Inr ms" "length fee_rows = length ms0"
      "and_fold (bind_basket indexes) basket_rows
         \<lparr>st_ids = [], st_keys = [], st_triples = [], st_semantics = Map.empty, st_baskets = []\<rparr> = Inr tables"
      "os_baskets os0 = sort_key bk_id (st_baskets tables)"
    and sizing: "sw_cap sizing \<le> 10000" "100 \<le> sw_cap sizing" "sw_cap sizing mod 100 = 0"
    using obs by (auto simp: make_observation_def bind_screen_def bind_sizing_def and_then_Inr Let_def not_less split: if_splits prod.splits)
  have control: "observation_ok 0 os" "indexed ocfg os" "os_baskets os = os_baskets os0"
    using make_observation_ok [OF obs] emit_keeps_ok [OF start [unfolded observation_start_def]] start
    by (auto simp: observation_start_def observation_emit_def Let_def split: if_splits)
  note fees = bind_fees_covers [OF screen(2)] and baskets = bind_baskets_rows [OF screen(4)]
  have "set (map fee_market fee_rows) = dom indexes"
  proof (rule card_subset_eq)
    have markets: "finite (dom indexes)" "card (dom indexes) = length ms0" using bind_markets_card [OF screen(1)] by simp_all
    then show "finite (dom indexes)" by simp
    show "set (map fee_market fee_rows) \<subseteq> dom indexes" using fees by simp
    show "card (set (map fee_market fee_rows)) = card (dom indexes)"
      using fees markets screen(3) distinct_card [of "map fee_market fee_rows"] by simp
  qed
  then have covered: "bind_cache fee_rows m \<noteq> None" if "m \<in> dom indexes" for m using that bind_cache_rows [of fee_rows m] by simp
  have known: "known_legs (bind_cache fee_rows) (exec_basket row)" if "row \<in> set basket_rows" for row
    unfolding known_legs_def
  proof
    show "length (bt_ids (exec_basket row)) = 3" by (simp add: exec_basket_def)
    have "set (bt_ids (exec_basket row)) \<subseteq> dom indexes" using baskets that by blast
    then show "\<forall>m \<in> set (bt_ids (exec_basket row)). bind_cache fee_rows m \<noteq> None" using covered by blast
  qed
  have "cached_ok c" if entry: "bind_cache fee_rows m = Some c" for m c
  proof -
    obtain row where "row \<in> set fee_rows" "c = cached_fee row" using entry bind_cache_rows [of fee_rows m] by blast
    then show ?thesis using fees by (simp add: cached_ok_def cached_fee_def side_ok_def)
  qed
  then have cache: "cache_ok (bind_cache fee_rows)" by (simp add: cache_ok_def)
  have margin: "xp_minimum_margin policy \<le> 1000000" "0 < length (xp_delays policy)" "length (xp_delays policy) \<le> 6"
    using limits by (auto simp: bind_limits_def not_less split: if_splits)
  have "uint (sw_cap sizing mod 100) = uint (sw_cap sizing) mod 100" by (simp add: uint_mod)
  then have "100 \<le> uint (sw_cap sizing)" "uint (sw_cap sizing) \<le> 10000" "uint (sw_cap sizing) mod 100 = 0" "uint (xp_minimum_margin policy) \<le> 1000000"
    using sizing(1,2) margin(1) by (simp_all add: word_le_def sizing(3))
  then have config: "config_ok cfg (bind_cache fee_rows)"
    unfolding config_ok_def cfg using cache known bind_exec_baskets_rows [of basket_rows] by simp blast
  have new: "\<forall>s \<in> set scenarios. \<exists>d. 0 < d \<and> s = new_scenario d (ec_capital cfg)" "length scenarios = length (xp_delays policy)"
    using bind_delays_new [OF scenarios] by simp_all
  have "scenarios_ok cfg xs"
    unfolding scenarios_ok_def xs log
  proof (intro conjI ballI)
    fix s
    assume "s \<in> set scenarios"
    then obtain d where d: "0 < d" "s = new_scenario d (ec_capital cfg)" using new(1) by blast
    then show "scenario_ok cfg (bind_cache fee_rows) s" using new_scenario_ok [OF d(1), of cfg] cfg(1) by simp
    show "sc_cash s \<le> ec_capital cfg + 100000000 * uint (1 :: u64)" by (simp add: d(2) new_scenario_def)
  qed (use config in simp_all)
  moreover have "control_ok cfg ocfg 0 os"
    unfolding control_ok_def cfg
  proof (intro conjI ballI)
    fix i
    assume "i \<in> set (map bk_id (os_baskets os))"
    then have "i \<in> set (map bk_id (st_baskets tables))" by (simp add: control(3) screen(5))
    then have "i \<in> set (map (\<lambda>row. ucast (rw_id row)) basket_rows)" using baskets by simp
    then show "bind_exec_baskets basket_rows i \<noteq> None" using bind_exec_baskets_rows [of basket_rows] by auto
  qed (use control in simp_all)
  ultimately show ?thesis using new margin cfg(1) xs by (simp add: study_ok_def)
qed


subsection \<open>Reachable studies\<close>

text \<open>The calls of a replay in time order, with the market states the market model reaches.\<close>

inductive studied :: "exec_config \<Rightarrow> observation_config \<Rightarrow> exec_study \<Rightarrow> int \<Rightarrow> exec_study \<Rightarrow> bool"
  for cfg ocfg xs0 where
  studied_new: "studied cfg ocfg xs0 0 xs0"
| studied_before: "studied cfg ocfg xs0 now xs \<Longrightarrow> now \<le> time \<Longrightarrow> time \<le> 9223372036854775807 \<Longrightarrow>
    study_before cfg ocfg time xs = Inr xs' \<Longrightarrow> studied cfg ocfg xs0 time xs'"
| studied_after: "studied cfg ocfg xs0 now xs \<Longrightarrow> now \<le> fr_time frame \<Longrightarrow> fr_time frame \<le> 9223372036854775807 \<Longrightarrow>
    reachable_market scope state \<Longrightarrow> study_after cfg ocfg frame state xs = Some (Inr xs') \<Longrightarrow>
    studied cfg ocfg xs0 (fr_time frame) xs'"

lemma studied_ok:
  assumes "studied cfg ocfg xs0 now xs" and "study_ok cfg ocfg 0 xs0" and "ec_capital cfg \<le> 990000000000000"
  shows "study_ok cfg ocfg now xs \<and> 0 \<le> now \<and> frozen xs0 xs"
  using assms
proof (induction rule: studied.induct)
  case studied_new
  then show ?case by (simp add: frozen_def)
next
  case (studied_before now xs time xs')
  then have base: "study_ok cfg ocfg now xs" "0 \<le> now" "frozen xs0 xs" by simp_all
  have "yields study_error (\<lambda>xs'. study_ok cfg ocfg time xs' \<and> frozen xs xs') (study_before cfg ocfg time xs)"
    using base studied_before(2,3) by (intro study_before_ok) simp_all
  then show ?case using base frozen_trans [OF base(3)] studied_before(2,4) by simp
next
  case (studied_after now xs frame scope state xs')
  then have base: "study_ok cfg ocfg now xs" "0 \<le> now" "frozen xs0 xs" by simp_all
  have "\<exists>r. study_after cfg ocfg frame state xs = Some r \<and>
      yields study_error (\<lambda>xs'. study_ok cfg ocfg (fr_time frame) xs' \<and> frozen xs xs') r"
    using base studied_after(2,3,8) reachable_market_ok [OF studied_after(4)] by (intro study_after_ok) simp_all
  then show ?case using base frozen_trans [OF base(3)] studied_after(2,5) by simp
qed

lemma reached_ok:
  assumes "make_exec_study policy basket_sha256 accepted from_ms until_ms maximum_events total_budget sizing metadata market_rows fee_rows basket_rows writes =
      Inr ((cfg, ocfg), xs0)"
    and "sw_available_cash sizing \<le> 990000000000000" and "studied cfg ocfg xs0 now xs"
  shows "study_ok cfg ocfg now xs \<and> 0 \<le> now \<and> ec_capital cfg \<le> 990000000000000"
proof -
  have "uint (sw_available_cash sizing) \<le> 990000000000000" using assms(2) by (simp add: word_le_def)
  then show ?thesis using make_exec_study_ok [OF assms(1)] studied_ok [OF assms(3)] by simp
qed


text \<open>Claim C9. The loop over the due events of a scenario ends in every study a replay reaches, for any time it
  is called with: when it does not fail, no running order of the scenario is due any more.\<close>

theorem due_events_end:
  assumes "make_exec_study policy basket_sha256 accepted from_ms until_ms maximum_events total_budget sizing metadata market_rows fee_rows basket_rows writes =
      Inr ((cfg, ocfg), xs0)"
    and "sw_available_cash sizing \<le> 990000000000000" and "studied cfg ocfg xs0 now xs" and "i < length (xs_scenarios xs)"
  shows "\<exists>r. advance_scenario cfg (xs_markets xs) i time (xs_scenarios xs ! i) log = Some r \<and>
    (case r of Inl e \<Rightarrow> external_error e
     | Inr (s, log') \<Rightarrow> (\<forall>a. sc_attempt s = Some a \<longrightarrow> \<not> sc_halted s \<longrightarrow> time < at_due a))"
proof -
  have "config_ok cfg (xs_markets xs)" "scenario_ok cfg (xs_markets xs) (xs_scenarios xs ! i)"
    using reached_ok [OF assms(1-3)] nth_mem [OF assms(4)] by (simp_all add: study_ok_def scenarios_ok_def)
  then obtain r where "advance_scenario cfg (xs_markets xs) i time (xs_scenarios xs ! i) log = Some r"
    "returns (advanced cfg (xs_markets xs) time (xs_scenarios xs ! i) log) r" using advance_returns by blast
  then show ?thesis by (auto simp: advanced_def returns_def split: sum.splits)
qed

text \<open>Claim C11. In every study a replay reaches, the cash of a scenario is the capital less what was spent and plus
  what was received, what is reserved is within the cash, and the cash is at least the capital less the cost of completed
  baskets, plus the net of the unwound attempts, less what the attempt under way has spent beyond what it received.\<close>

theorem execution_ledger_exact:
  assumes "make_exec_study policy basket_sha256 accepted from_ms until_ms maximum_events total_budget sizing metadata market_rows fee_rows basket_rows writes =
      Inr ((cfg, ocfg), xs0)"
    and "sw_available_cash sizing \<le> 990000000000000" and "studied cfg ocfg xs0 now xs" and "s \<in> set (xs_scenarios xs)"
  shows "sc_cash s = ec_capital cfg - sc_spent s + sc_received s \<and> 0 \<le> sc_reserved s \<and> sc_reserved s \<le> sc_cash s \<and>
    ec_capital cfg - sc_complete_cost s + sc_unwind_net s -
      (case sc_attempt s of None \<Rightarrow> 0 | Some a \<Rightarrow> at_spent a - at_received a) \<le> sc_cash s"
  using reached_ok [OF assms(1-3)] assms(4)
  by (auto simp: study_ok_def scenarios_ok_def scenario_ok_def ledger_ok_def outstanding_def)

text \<open>Claim C12. In every study a replay reaches, an attempt under way is well formed: it names three markets of the
  cache, its leg is one of them, it holds of each leg between nothing and its quantity, and a purchase in flight has
  exactly its reserve set aside, with nothing of the legs after it.\<close>

theorem attempts_well_formed:
  assumes "make_exec_study policy basket_sha256 accepted from_ms until_ms maximum_events total_budget sizing metadata market_rows fee_rows basket_rows writes =
      Inr ((cfg, ocfg), xs0)"
    and "sw_available_cash sizing \<le> 990000000000000" and "studied cfg ocfg xs0 now xs" and "s \<in> set (xs_scenarios xs)"
    and "sc_attempt s = Some a" and "\<not> sc_halted s"
  shows "length (bt_ids (at_basket a)) = 3 \<and> (\<forall>m \<in> set (bt_ids (at_basket a)). xs_markets xs m \<noteq> None) \<and> at_leg a < 3 \<and>
    0 < at_quantity a \<and> at_quantity a \<le> 10000 \<and> length (at_holdings a) = 3 \<and>
    (\<forall>i < 3. 0 \<le> at_holdings a ! i \<and> at_holdings a ! i \<le> at_quantity a) \<and>
    (at_stage a = Buy_Arrival \<longrightarrow> sc_reserved s = at_reserve a \<and> at_received a = 0 \<and>
       (\<forall>i < 3. at_leg a \<le> i \<longrightarrow> at_holdings a ! i = 0))"
  using reached_ok [OF assms(1-3)] assms(4-)
  by (auto simp: study_ok_def scenarios_ok_def scenario_ok_def underway_def stage_ok_def known_legs_def)

text \<open>A scenario that was halted, by a censored attempt or by inventory it could not sell, is
  never touched again: no later call changes its cash, its holdings or its counters.\<close>

theorem halted_scenarios_frozen:
  assumes "make_exec_study policy basket_sha256 accepted from_ms until_ms maximum_events total_budget sizing metadata market_rows fee_rows basket_rows writes =
      Inr ((cfg, ocfg), xs0)"
    and "sw_available_cash sizing \<le> 990000000000000" and "studied cfg ocfg xs0 now xs"
    and "now \<le> fr_time frame" and "fr_time frame \<le> 9223372036854775807" and "reachable_market scope state"
    and "study_before cfg ocfg (fr_time frame) xs = Inr xs' \<or> study_after cfg ocfg frame state xs = Some (Inr xs')"
    and "i < length (xs_scenarios xs)" and "sc_halted (xs_scenarios xs ! i)"
  shows "xs_scenarios xs' ! i = xs_scenarios xs ! i"
proof -
  note ok = reached_ok [OF assms(1-3)]
  have "\<exists>r. study_after cfg ocfg frame state xs = Some r \<and>
      yields study_error (\<lambda>xs'. study_ok cfg ocfg (fr_time frame) xs' \<and> frozen xs xs') r"
    using ok assms(4,5) reachable_market_ok [OF assms(6)] by (intro study_after_ok [where now = now]) simp_all
  moreover have "yields study_error (\<lambda>xs'. study_ok cfg ocfg (fr_time frame) xs' \<and> frozen xs xs') (study_before cfg ocfg (fr_time frame) xs)"
    using ok assms(4,5) by (intro study_before_ok [where now = now]) simp_all
  ultimately have "frozen xs xs'" using assms(7) by auto
  then show ?thesis using assms(8,9) by (simp add: frozen_def)
qed


subsection \<open>Displayed liquidity is taken once\<close>

definition physical_price :: "bool \<Rightarrow> int \<Rightarrow> int" where
  "physical_price yes p = (if yes then p else 10000 - p)"

definition offered_at :: "bool \<Rightarrow> int \<Rightarrow> buy_level list \<Rightarrow> int" where
  "offered_at yes p ls = sum_list (map (\<lambda>l. if physical_price yes (price_raw (bl_price l)) = p then quantity_raw (bl_quantity l) else 0) ls)"

definition taken_at :: "bool \<Rightarrow> int \<Rightarrow> (int \<times> int \<times> int) list \<Rightarrow> int" where
  "taken_at yes p taken = sum_list (map (\<lambda>(price, q, cash). if physical_price yes price = p then q else 0) taken)"

lemma offered_at_simps [simp]:
  "offered_at yes p [] = 0"
  "offered_at yes p (l # ls) = (if physical_price yes (price_raw (bl_price l)) = p then quantity_raw (bl_quantity l) else 0) + offered_at yes p ls"
  by (simp_all add: offered_at_def)

lemma taken_at_simps [simp]:
  "taken_at yes p [] = 0" "taken_at yes p (xs @ ys) = taken_at yes p xs + taken_at yes p ys"
  "taken_at yes p ((price, q, cash) # taken) = (if physical_price yes price = p then q else 0) + taken_at yes p taken"
  by (simp_all add: taken_at_def)










subsection \<open>The end and the report\<close>

lemma and_fold_snoc: "and_fold f (xs @ [x]) s = and_then (and_fold f xs s) (f x)"
  by (induction xs arbitrary: s) (auto simp: and_then_def split: sum.split)

lemma each_scenario_all:
  assumes "each_scenario f xs = Inr xs'" and "\<And>i s log r. f i s log = Inr r \<Longrightarrow> Q (fst r)"
  shows "length (xs_scenarios xs') = length (xs_scenarios xs) \<and> (\<forall>s \<in> set (xs_scenarios xs'). Q s)"
proof -
  let ?g = "\<lambda>i xs. and_then (f i (xs_scenarios xs ! i) (xs_log xs)) (\<lambda>r. Inr (put_scenario i r xs))"
  have "and_fold ?g [0 ..< n] xs = Inr ys \<Longrightarrow> n \<le> length (xs_scenarios xs) \<Longrightarrow>
      length (xs_scenarios ys) = length (xs_scenarios xs) \<and> (\<forall>i < n. Q (xs_scenarios ys ! i))" for n ys
  proof (induction n arbitrary: ys)
    case (Suc n)
    obtain zs r where z: "and_fold ?g [0 ..< n] xs = Inr zs" "f n (xs_scenarios zs ! n) (xs_log zs) = Inr r" "ys = put_scenario n r zs"
      using Suc.prems(1) by (auto simp: and_fold_snoc and_then_Inr)
    then show ?case
      using Suc.IH [OF z(1)] Suc.prems(2) assms(2) [OF z(2)]
      by (auto simp: put_scenario_def nth_list_update less_Suc_eq split: prod.splits)
  qed simp
  from this [of "length (xs_scenarios xs)" xs'] show ?thesis using assms(1) by (auto simp: each_scenario_def in_set_conv_nth)
qed

lemma censor_halts: "censor cfg i time reason s log = Inr r \<Longrightarrow> sc_attempt (fst r) \<noteq> None \<longrightarrow> sc_halted (fst r)"
  by (auto simp: censor_def Let_def and_then_Inr split: option.splits if_splits)

text \<open>Claim C13. A finished study reports one row per scenario. In each the cash identity holds, no order is left
  running, what is still reserved is within the cash, and a conditional net is given exactly when the scenario holds no
  attempt; it is then at least what its completed baskets and its unwound attempts earned.\<close>

theorem execution_report_sound:
  assumes "make_exec_study policy basket_sha256 accepted from_ms until_ms maximum_events total_budget sizing metadata market_rows fee_rows basket_rows writes =
      Inr ((cfg, ocfg), xs0)"
    and "sw_available_cash sizing \<le> 990000000000000" and "studied cfg ocfg xs0 now xs" and "study_finish cfg ocfg time xs = Inr xs'"
    and "\<not> os_finished (xs_control xs)"
  shows "\<exists>rows. study_report cfg xs' = Inr rows \<and> length rows = length (xs_scenarios xs) \<and>
    (\<forall>s \<in> set (xs_scenarios xs'). sc_attempt s \<noteq> None \<longrightarrow> sc_halted s) \<and>
    (\<forall>row \<in> set rows. rr_cash_identity row \<and> 0 \<le> rr_unreleased row \<and> rr_unreleased row \<le> rr_cash row \<and>
       (\<forall>net. rr_conditional_net row = Some net \<longrightarrow> rr_inventory row = [] \<and>
          rr_conditional_floor row - rr_completed_cost row + rr_unwind_pnl row \<le> net))"
proof -
  obtain ys os where ys: "censor_all cfg time ''end_of_observation'' xs = Inr ys" "observation_finish ocfg time (xs_control ys) = Inr os"
    and xs': "xs' = ys\<lparr>xs_control := os, xs_finished := True\<rparr>"
    using assms(4) by (auto simp: study_finish_def and_then_Inr)
  have ok: "scenarios_ok cfg xs" using reached_ok [OF assms(1-3)] by (simp add: study_ok_def)
  then have kept: "kept cfg xs ys" using censor_all_kept [OF ok, of time "''end_of_observation''"] ys(1) by simp
  then have "\<not> os_finished (xs_control ys)" using assms(5) rescored_fields(1) [of xs ys] by (simp add: kept_def)
  then have fin: "os_finished os" using ys(2) by (auto simp: observation_finish_def and_then_Inr)
  have halted: "\<forall>s \<in> set (xs_scenarios ys). sc_attempt s \<noteq> None \<longrightarrow> sc_halted s"
    using each_scenario_all [OF ys(1) [unfolded censor_all_def], of "\<lambda>s. sc_attempt s \<noteq> None \<longrightarrow> sc_halted s"] censor_halts by blast
  let ?rows = "map (\<lambda>i. report_scenario cfg i (xs_scenarios ys ! i)) [0 ..< length (xs_scenarios ys)]"
  have rows: "study_report cfg xs' = Inr ?rows" using fin by (simp add: study_report_def xs')
  have row: "rr_cash_identity r \<and> 0 \<le> rr_unreleased r \<and> rr_unreleased r \<le> rr_cash r \<and>
      (\<forall>net. rr_conditional_net r = Some net \<longrightarrow> rr_inventory r = [] \<and>
         rr_conditional_floor r - rr_completed_cost r + rr_unwind_pnl r \<le> net)" if mem: "r \<in> set ?rows" for r
  proof -
    obtain i where i: "i < length (xs_scenarios ys)" "r = report_scenario cfg i (xs_scenarios ys ! i)" using mem by auto
    then have "scenario_ok cfg (xs_markets ys) (xs_scenarios ys ! i)" using kept by (simp add: kept_def scenarios_ok_def)
    then show ?thesis
      by (auto simp: i(2) report_scenario_def Let_def scenario_ok_def ledger_ok_def outstanding_def split: option.splits if_splits)
  qed
  show ?thesis
  proof (intro exI [of _ ?rows] conjI)
    show "length ?rows = length (xs_scenarios xs)" using kept rescored_fields(3) [of xs ys] by (simp add: kept_def)
  qed (use rows row halted in \<open>simp_all add: xs'\<close>)
qed

end
