(* ===== verification/Study_Replay.thy ===== *)
theory Study_Replay
  imports Study_Ledger
begin

text \<open>
  A basket execution study replayed: a policy, five records and the states of the market model after them,
  evaluated. The properties of \<open>Study_Ledger\<close> are applied to it.
\<close>

subsection \<open>A study\<close>

text \<open>
  The basket of \<open>Basket_Episodes\<close> with a third market that shows no bids until a fourth record: the onset is seen
  to begin, the scenario sends its first order, and the end of the connection censors it.
\<close>

definition study_sizing :: sizing_row where
  "study_sizing = \<lparr>sw_cap = 100, sw_step = 100, sw_available_cash = 2000000, sw_minimum_margin = 1, sw_max_evaluations = 10\<rparr>"

definition example_policy :: exec_policy where
  "example_policy = \<lparr>xp_schema_version = 1, xp_kind = ''chronological_basket_execution'', xp_basket_sha256 = ''b'',
     xp_delays = [Some 1], xp_minimum_margin = 1, xp_max_attempts = 2\<rparr>"

definition study_fees :: "fee_row list" where
  "study_fees = map (\<lambda>m. \<lparr>fw_market_id = m, fw_coefficient_ppm = 0, fw_balance_quantum_micro = 100\<rparr>) [1, 2, 3]"

definition example_study :: "string + (exec_config \<times> observation_config) \<times> exec_study" where
  "example_study = make_exec_study example_policy ''b'' (\<lambda>_. True) 0 1000 10 100 study_sizing
     example_registry [(1, ''A''), (2, ''B''), (3, ''C'')] study_fees [example_row] (\<lambda>_. True)"

definition study_book :: "nat \<Rightarrow> book_snapshot" where
  "study_book n = \<lparr>bs_market_id = of_nat n, bs_generation = 1, bs_stream_id = 1, bs_sequence = of_nat n, bs_received_at = 0,
     bs_bids = (if n = 2 then [\<lparr>lv_price = price_of 9900, lv_quantity = quantity_of 100\<rparr>] else []),
     bs_asks = (if n = 1 then [\<lparr>lv_price = price_of 100, lv_quantity = quantity_of 100\<rparr>] else [])\<rparr>"

definition study_delta :: book_delta where
  "study_delta = \<lparr>bd_market_id = 3, bd_generation = 1, bd_stream_id = 1, bd_sequence = 4, bd_received_at = 0, bd_side = Bid,
     bd_price = price_of 9900, bd_quantity_delta = delta_of 100\<rparr>"

definition study_states :: "market_state list" where
  "study_states =
     (let s0 = snd (open_connection 1 (new_market_state Shared_Stream));
          s1 = snd (apply_event (Snapshot_Event (study_book 1)) s0);
          s2 = snd (apply_event (Snapshot_Event (study_book 2)) s1);
          s3 = snd (apply_event (Snapshot_Event (study_book 3)) s2);
          s4 = snd (apply_event (Delta_Event study_delta) s3)
      in [s1, s2, s3, s4, snd (close_connection 1 s4)])"

definition study_frames :: "replay_frame list" where
  "study_frames =
     map (\<lambda>(t, m). \<lparr>fr_time = t, fr_market_id = m, fr_applied = (m \<noteq> None), fr_trade = None, fr_observed_wall = Some t\<rparr>)
       [(5, Some 1), (6, Some 2), (7, Some 3), (8, Some 3), (9, None)]"

fun replay_study :: "exec_config \<Rightarrow> observation_config \<Rightarrow> (replay_frame \<times> market_state) list \<Rightarrow> exec_study \<Rightarrow> (string + exec_study) option" where
  "replay_study cfg ocfg [] xs = Some (Inr xs)"
| "replay_study cfg ocfg ((frame, state) # records) xs =
     (case study_after cfg ocfg frame state xs of
        None \<Rightarrow> None | Some (Inl e) \<Rightarrow> Some (Inl e) | Some (Inr xs) \<Rightarrow> replay_study cfg ocfg records xs)"

definition study_run :: "nat \<Rightarrow> ((exec_config \<times> observation_config) \<times> exec_study \<times> exec_study) option" where
  "study_run n = (case example_study of Inl e \<Rightarrow> None
     | Inr ((cfg, ocfg), xs0) \<Rightarrow>
         (case replay_study cfg ocfg (take n (zip study_frames study_states)) xs0 of
            Some (Inr xs) \<Rightarrow> Some ((cfg, ocfg), xs0, xs) | _ \<Rightarrow> None))"


lemma study_states_reachable: "state \<in> set study_states \<Longrightarrow> reachable_market Shared_Stream state"
  unfolding study_states_def Let_def
  by (auto intro!: reach_market_step [OF _ market_step_open] reach_market_step [OF _ market_step_close]
      reach_market_step [OF _ market_step_event] reach_market_new)

fun timed_records :: "int \<Rightarrow> (replay_frame \<times> market_state) list \<Rightarrow> bool" where
  "timed_records now [] = True"
| "timed_records now ((frame, state) # records) \<longleftrightarrow> now \<le> fr_time frame \<and> fr_time frame \<le> 9223372036854775807 \<and>
     timed_records (fr_time frame) records"

lemma replay_studied:
  "replay_study cfg ocfg records xs = Some (Inr xs') \<Longrightarrow> studied cfg ocfg xs0 now xs \<Longrightarrow> timed_records now records \<Longrightarrow>
     \<forall>(frame, state) \<in> set records. reachable_market Shared_Stream state \<Longrightarrow>
     studied cfg ocfg xs0 (if records = [] then now else fr_time (fst (last records))) xs'"
proof (induction records arbitrary: xs now)
  case (Cons r records)
  obtain frame state where r: "r = (frame, state)" by (cases r)
  obtain xs1 where xs1: "study_after cfg ocfg frame state xs = Some (Inr xs1)" "replay_study cfg ocfg records xs1 = Some (Inr xs')"
    using Cons.prems(1) by (auto simp: r split: option.splits sum.splits)
  have "studied cfg ocfg xs0 (fr_time frame) xs1"
    using studied_after [OF Cons.prems(2) _ _ _ xs1(1)] Cons.prems(3,4) by (auto simp: r)
  from Cons.IH [OF xs1(2) this] Cons.prems(3,4) show ?case by (auto simp: r split: if_splits)
qed simp

lemma study_evaluated:
  "(case study_run 4 of None \<Rightarrow> False
    | Some ((cfg, ocfg), xs0, xs) \<Rightarrow> length (xs_scenarios xs) = 1 \<and> sc_attempt (xs_scenarios xs ! 0) \<noteq> None \<and>
        \<not> sc_halted (xs_scenarios xs ! 0) \<and>
        (case xs_markets xs 1 of None \<Rightarrow> False | Some m \<Rightarrow> map ph_quantity (ca_asks m) = [100]) \<and>
        (case fill_order cfg (xs_markets xs) (xs_scenarios xs ! 0) 1 True False 100 100 True of Inl e \<Rightarrow> False
         | Inr (f, s) \<Rightarrow> fl_quantity f = 100) \<and>
        (case study_after cfg ocfg (study_frames ! 4) (study_states ! 4) xs of None \<Rightarrow> False
         | Some (Inl e) \<Rightarrow> False
         | Some (Inr ys) \<Rightarrow> length (xs_scenarios ys) = 1 \<and> sc_halted (xs_scenarios ys ! 0) \<and> \<not> os_finished (xs_control ys) \<and>
             (case study_before cfg ocfg 10 ys of Inl e \<Rightarrow> False | Inr xs' \<Rightarrow> True) \<and>
             (case study_finish cfg ocfg 11 ys of Inl e \<Rightarrow> False | Inr xs' \<Rightarrow> True)))"
  by code_simp

lemma study_records: "length study_frames = 5" "length study_states = 5" "map fr_time study_frames = [5, 6, 7, 8, 9]"
  by (simp_all add: study_frames_def study_states_def Let_def)

lemma study_reached:
  assumes "study_run 4 = Some ((cfg, ocfg), xs0, xs)"
  shows "example_study = Inr ((cfg, ocfg), xs0) \<and> studied cfg ocfg xs0 8 xs"
proof -
  let ?records = "take 4 (zip study_frames study_states)"
  have run: "example_study = Inr ((cfg, ocfg), xs0)" "replay_study cfg ocfg ?records xs0 = Some (Inr xs)"
    using assms by (auto simp: study_run_def split: sum.splits option.splits prod.splits)
  have "timed_records 0 ?records" "fr_time (fst (last ?records)) = 8" "?records \<noteq> []"
    by (simp_all add: study_frames_def study_states_def Let_def)
  moreover have "\<forall>(frame, state) \<in> set ?records. reachable_market Shared_Stream state"
    using study_states_reachable by (auto dest!: in_set_takeD set_zip_rightD)
  ultimately have "studied cfg ocfg xs0 8 xs"
    using replay_studied [OF run(2) studied_new] by (metis (mono_tags))
  with run show ?thesis by simp
qed

lemma study_example:
  obtains cfg ocfg xs0 xs a m f s ys xs1 xs2 where "example_study = Inr ((cfg, ocfg), xs0)" and "studied cfg ocfg xs0 8 xs"
    and "xs_scenarios xs \<noteq> []" and "sc_attempt (hd (xs_scenarios xs)) = Some a" and "\<not> sc_halted (hd (xs_scenarios xs))"
    and "xs_markets xs 1 = Some m" and "map ph_quantity (ca_asks m) = [100]"
    and "fill_order cfg (xs_markets xs) (hd (xs_scenarios xs)) 1 True False 100 100 True = Inr (f, s)"
    and "studied cfg ocfg xs0 9 ys" and "xs_scenarios ys \<noteq> []" and "sc_halted (hd (xs_scenarios ys))" and "\<not> os_finished (xs_control ys)"
    and "study_before cfg ocfg 10 ys = Inr xs1" and "study_finish cfg ocfg 11 ys = Inr xs2"
proof -
  obtain cfg ocfg xs0 xs where run: "study_run 4 = Some ((cfg, ocfg), xs0, xs)"
    using study_evaluated by (auto split: option.splits prod.splits)
  note facts = study_evaluated [unfolded run option.case prod.case]
  obtain ys where ys: "study_after cfg ocfg (study_frames ! 4) (study_states ! 4) xs = Some (Inr ys)"
    using facts by (auto split: option.splits sum.splits)
  have reached: "example_study = Inr ((cfg, ocfg), xs0)" "studied cfg ocfg xs0 8 xs" using study_reached [OF run] by simp_all
  have time: "fr_time (study_frames ! 4) = 9" by (simp add: study_frames_def)
  have "reachable_market Shared_Stream (study_states ! 4)" by (rule study_states_reachable) (simp add: study_records)
  from studied_after [OF reached(2) _ _ this ys] time have "studied cfg ocfg xs0 9 ys" by simp
  then show thesis
    using that [OF reached] facts ys by (fastforce simp: hd_conv_nth split: option.splits sum.splits prod.splits)
qed


subsection \<open>The properties on the replayed study\<close>

lemma study_cash: "sw_available_cash study_sizing \<le> 990000000000000"
  by (simp add: study_sizing_def)

lemmas study_made = example_study_def [THEN eq_reflection]


lemma due_events_end_witness:
  "\<exists>cfg ocfg xs0 xs r. example_study = Inr ((cfg, ocfg), xs0) \<and> studied cfg ocfg xs0 8 xs \<and>
     advance_scenario cfg (xs_markets xs) 0 6000008 (xs_scenarios xs ! 0) (xs_log xs) = Some r"
proof -
  obtain cfg ocfg xs0 xs where ex: "example_study = Inr ((cfg, ocfg), xs0)" "studied cfg ocfg xs0 8 xs" "xs_scenarios xs \<noteq> []"
    by (rule study_example)
  then obtain r where "advance_scenario cfg (xs_markets xs) 0 6000008 (xs_scenarios xs ! 0) (xs_log xs) = Some r"
    using due_events_end [OF ex(1) [unfolded study_made] study_cash ex(2), of 0 6000008 "xs_log xs"] by auto
  then show ?thesis using ex by blast
qed

lemma execution_ledger_exact_witness:
  "\<exists>cfg ocfg xs0 ys s. example_study = Inr ((cfg, ocfg), xs0) \<and> studied cfg ocfg xs0 9 ys \<and> s \<in> set (xs_scenarios ys) \<and>
     sc_cash s = ec_capital cfg - sc_spent s + sc_received s \<and> sc_reserved s \<le> sc_cash s"
proof -
  obtain cfg ocfg xs0 ys where ex: "example_study = Inr ((cfg, ocfg), xs0)" "studied cfg ocfg xs0 9 ys" "xs_scenarios ys \<noteq> []"
    by (rule study_example)
  then have "hd (xs_scenarios ys) \<in> set (xs_scenarios ys)" by simp
  then show ?thesis using execution_ledger_exact [OF ex(1) [unfolded study_made] study_cash ex(2)] ex by blast
qed

lemma attempts_well_formed_witness:
  "\<exists>cfg ocfg xs0 xs s a. example_study = Inr ((cfg, ocfg), xs0) \<and> studied cfg ocfg xs0 8 xs \<and> s \<in> set (xs_scenarios xs) \<and>
     sc_attempt s = Some a \<and> at_leg a < 3 \<and> 0 < at_quantity a \<and> length (at_holdings a) = 3"
proof -
  obtain cfg ocfg xs0 xs a where ex: "example_study = Inr ((cfg, ocfg), xs0)" "studied cfg ocfg xs0 8 xs" "xs_scenarios xs \<noteq> []"
    "sc_attempt (hd (xs_scenarios xs)) = Some a" "\<not> sc_halted (hd (xs_scenarios xs))" by (rule study_example)
  have mem: "hd (xs_scenarios xs) \<in> set (xs_scenarios xs)" using ex(3) by simp
  show ?thesis using attempts_well_formed [OF ex(1) [unfolded study_made] study_cash ex(2) mem ex(4,5)] ex mem by blast
qed

lemma halted_scenarios_frozen_witness:
  "\<exists>cfg ocfg xs0 ys xs'. example_study = Inr ((cfg, ocfg), xs0) \<and> studied cfg ocfg xs0 9 ys \<and>
     study_before cfg ocfg 10 ys = Inr xs' \<and> xs_scenarios xs' ! 0 = xs_scenarios ys ! 0"
proof -
  obtain cfg ocfg xs0 ys xs1 where ex: "example_study = Inr ((cfg, ocfg), xs0)" "studied cfg ocfg xs0 9 ys" "xs_scenarios ys \<noteq> []"
    "sc_halted (hd (xs_scenarios ys))" "study_before cfg ocfg 10 ys = Inr xs1" by (rule study_example)
  let ?frame = "(study_frames ! 4)\<lparr>fr_time := 10\<rparr>"
  have reach: "reachable_market Shared_Stream (study_states ! 3)" by (rule study_states_reachable) (simp add: study_records)
  have "xs_scenarios xs1 ! 0 = xs_scenarios ys ! 0"
    using halted_scenarios_frozen [OF ex(1) [unfolded study_made] study_cash ex(2), of ?frame _ _ xs1 0, OF _ _ reach] ex(3-5)
    by (simp add: hd_conv_nth)
  then show ?thesis using ex by blast
qed


lemma execution_report_sound_witness:
  "\<exists>cfg ocfg xs0 ys xs' rows. example_study = Inr ((cfg, ocfg), xs0) \<and> studied cfg ocfg xs0 9 ys \<and>
     study_finish cfg ocfg 11 ys = Inr xs' \<and> study_report cfg xs' = Inr rows \<and> rows \<noteq> [] \<and> (\<forall>row \<in> set rows. rr_cash_identity row)"
proof -
  obtain cfg ocfg xs0 ys xs2 where ex: "example_study = Inr ((cfg, ocfg), xs0)" "studied cfg ocfg xs0 9 ys" "xs_scenarios ys \<noteq> []"
    "\<not> os_finished (xs_control ys)" "study_finish cfg ocfg 11 ys = Inr xs2" by (rule study_example)
  obtain rows where "study_report cfg xs2 = Inr rows" "length rows = length (xs_scenarios ys)" "\<forall>row \<in> set rows. rr_cash_identity row"
    using execution_report_sound [OF ex(1) [unfolded study_made] study_cash ex(2,5,4)] by auto
  moreover from this(2) have "rows \<noteq> []" using ex(3) by auto
  ultimately show ?thesis using ex by blast
qed

end
