(* ===== verification/Study_Positions.thy ===== *)
theory Study_Positions
  imports Payoff Replay_Types "HOL-Library.Multiset"
begin

text \<open>
  The positions of the paired execution study (\<open>src/session/study_positions.hpp\<close>): capital time in
  its base of \<open>10 ^ 9\<close>, and the lots of each attempt's two legs, kept in one vector and linked by index
  first in, first out. \<open>none\<close> is \<open>None\<close>. A lot index outside the vector is undefined in the code; the
  invariant \<open>positions_ok\<close> keeps every link inside. The loop of \<open>close_position\<close> has no bound of its
  own: it is a partial function, shown to return. \<open>fifo_take\<close> is the specification: the lots of one
  position as a plain list of quantity, cost and time of acquisition.
\<close>

subsection \<open>Data\<close>

definition cash_limit :: int where "cash_limit = 1000000000000000"
definition quantity_limit :: int where "quantity_limit = 100000000"

declare cash_limit_def [limits] quantity_limit_def [limits]

record capital_time =
  ct_seconds :: u64
  ct_fraction :: u64

record market_settlement =
  st_market_id :: market_id
  st_yes_wins :: bool
  st_time :: int

record lot =
  lo_quantity :: int
  lo_debit :: int
  lo_acquired :: int
  lo_next :: "nat option"

record position =
  ps_leg :: leg_template
  ps_quantity :: int
  ps_head :: "nat option"
  ps_tail :: "nat option"

record study_positions =
  sp_positions :: "position list"
  sp_lots :: "lot list"
  sp_time :: capital_time

definition no_capital_time :: capital_time where
  "no_capital_time = \<lparr>ct_seconds = 0, ct_fraction = 0\<rparr>"

definition empty_position :: position where
  "empty_position = \<lparr>ps_leg = \<lparr>lt_market = 0, lt_outcome = Outcome_Yes\<rparr>, ps_quantity = 0, ps_head = None, ps_tail = None\<rparr>"

definition no_positions :: study_positions where
  "no_positions = \<lparr>sp_positions = [], sp_lots = [], sp_time = no_capital_time\<rparr>"


subsection \<open>Operations\<close>

definition capital_add :: "int \<Rightarrow> int \<Rightarrow> capital_time \<Rightarrow> string + capital_time" where
  "capital_add cash nanoseconds ct =
     (if cash < 0 \<or> nanoseconds < 0 then Inl ''negative capital-time input''
      else
        let amount = word_of_int cash :: u64;
            time = word_of_int nanoseconds :: u64;
            seconds = time div 1000000000;
            ns = time mod 1000000000
        in if seconds \<noteq> 0 \<and> uint64_max div seconds < amount then Inl ''capital-time overflow''
           else
             let whole = amount * seconds;
                 fractional = (amount mod 1000000000) * ns + ct_fraction ct;
                 extra = (amount div 1000000000) * ns + fractional div 1000000000
             in if uint64_max - extra < whole \<or> uint64_max - whole - extra < ct_seconds ct
                then Inl ''capital-time overflow''
                else Inr \<lparr>ct_seconds = ct_seconds ct + (whole + extra), ct_fraction = fractional mod 1000000000\<rparr>)"

text \<open>\<open>resize\<close> keeps what is there and fills up with default positions.\<close>

definition reserve_positions :: "nat \<Rightarrow> study_positions \<Rightarrow> study_positions" where
  "reserve_positions attempts sp =
     sp\<lparr>sp_positions := take (attempts * 2) (sp_positions sp) @
        replicate (attempts * 2 - length (sp_positions sp)) empty_position\<rparr>"

definition position_index :: "nat \<Rightarrow> nat \<Rightarrow> study_positions \<Rightarrow> string + nat" where
  "position_index attempt leg sp =
     (if attempt * 2 + leg < length (sp_positions sp) then Inr (attempt * 2 + leg) else Inl ''vector::at'')"

definition acquire :: "nat \<Rightarrow> nat \<Rightarrow> leg_template \<Rightarrow> int \<Rightarrow> int \<Rightarrow> int \<Rightarrow> study_positions \<Rightarrow> string + study_positions" where
  "acquire attempt leg_index leg quantity debit time sp =
     and_then (position_index attempt leg_index sp) (\<lambda>i.
       let p = sp_positions sp ! i; n = length (sp_lots sp) in
       if quantity \<le> 0 \<or> quantity_limit - ps_quantity p < quantity \<or> debit < 0 \<or> cash_limit < debit
       then Inl ''position acquisition bound''
       else
         let lots = (case ps_tail p of None \<Rightarrow> sp_lots sp | Some t \<Rightarrow> (sp_lots sp)[t := (sp_lots sp ! t)\<lparr>lo_next := Some n\<rparr>]);
             p = p\<lparr>ps_leg := leg, ps_quantity := ps_quantity p + quantity,
                   ps_head := (case ps_head p of None \<Rightarrow> Some n | Some h \<Rightarrow> Some h), ps_tail := Some n\<rparr>
         in Inr (sp\<lparr>sp_positions := (sp_positions sp)[i := p],
                    sp_lots := lots @ [\<lparr>lo_quantity = quantity, lo_debit = debit, lo_acquired = time, lo_next = None\<rparr>]\<rparr>))"

definition held_quantity :: "nat \<Rightarrow> nat \<Rightarrow> study_positions \<Rightarrow> string + int" where
  "held_quantity attempt leg sp = and_then (position_index attempt leg sp) (\<lambda>i. Inr (ps_quantity (sp_positions sp ! i)))"

definition lot_basis :: "int \<Rightarrow> lot \<Rightarrow> int" where
  "lot_basis taken l =
     (if taken = lo_quantity l then lo_debit l
      else (lo_debit l div lo_quantity l) * taken + (lo_debit l mod lo_quantity l) * taken div lo_quantity l)"

text \<open>The \<open>while\<close> loop of \<open>close_position\<close>, on the position at index \<open>i\<close>.\<close>

partial_function (option) close_loop ::
  "nat \<Rightarrow> int \<Rightarrow> int \<Rightarrow> int \<Rightarrow> study_positions \<Rightarrow> (string + int \<times> study_positions) option" where
  "close_loop i time remaining released sp =
     (if remaining = 0 then Some (Inr (released, sp))
      else
        case ps_head (sp_positions sp ! i) of
          None \<Rightarrow> Some (Inl ''position lot accounting'')
        | Some h \<Rightarrow>
            let l = sp_lots sp ! h;
                taken = min remaining (lo_quantity l);
                basis = lot_basis taken l
            in case capital_add basis (time - lo_acquired l) (sp_time sp) of
                 Inl e \<Rightarrow> Some (Inl e)
               | Inr ct \<Rightarrow>
                   let l = l\<lparr>lo_quantity := lo_quantity l - taken, lo_debit := lo_debit l - basis\<rparr>;
                       sp = sp\<lparr>sp_lots := (sp_lots sp)[h := l], sp_time := ct\<rparr>
                   in if lo_quantity l = 0
                      then if lo_debit l \<noteq> 0 then Some (Inl ''closed lot cost remainder'')
                           else
                             let p = sp_positions sp ! i;
                                 p = p\<lparr>ps_head := lo_next l, ps_tail := (if lo_next l = None then None else ps_tail p)\<rparr>
                             in close_loop i time (remaining - taken) (released + basis)
                                  (sp\<lparr>sp_positions := (sp_positions sp)[i := p]\<rparr>)
                      else close_loop i time (remaining - taken) (released + basis) sp)"

declare close_loop.simps [code]

definition close_position :: "nat \<Rightarrow> int \<Rightarrow> int \<Rightarrow> study_positions \<Rightarrow> (string + int \<times> study_positions) option" where
  "close_position i quantity time sp =
     (if quantity < 0 \<or> ps_quantity (sp_positions sp ! i) < quantity then Some (Inl ''cannot close unowned position'')
      else
        map_option (\<lambda>r. and_then r (\<lambda>(released, sp).
          let p = sp_positions sp ! i
          in Inr (released, sp\<lparr>sp_positions := (sp_positions sp)[i := p\<lparr>ps_quantity := ps_quantity p - quantity\<rparr>]\<rparr>)))
        (close_loop i time quantity 0 sp))"

definition close :: "nat \<Rightarrow> nat \<Rightarrow> int \<Rightarrow> int \<Rightarrow> study_positions \<Rightarrow> (string + int \<times> study_positions) option" where
  "close attempt leg quantity time sp =
     (case position_index attempt leg sp of Inl e \<Rightarrow> Some (Inl e) | Inr i \<Rightarrow> close_position i quantity time sp)"

text \<open>\<open>settle\<close> visits the positions in order; its result is the quantity closed and the payout.\<close>

definition settle_position ::
  "market_settlement \<Rightarrow> nat \<Rightarrow> (int \<times> int) \<times> study_positions \<Rightarrow> (string + (int \<times> int) \<times> study_positions) option" where
  "settle_position st i s =
     (case s of ((closed, payout), sp) \<Rightarrow>
       let p = sp_positions sp ! i; q = ps_quantity p in
       if q = 0 \<or> lt_market (ps_leg p) \<noteq> st_market_id st then Some (Inr s)
       else if int64_max - closed < q then Some (Inl ''settled quantity overflow'')
       else
         let wins = ((lt_outcome (ps_leg p) = Outcome_Yes) = st_yes_wins st) in
         if wins \<and> cash_limit - payout < q * 10000 then Some (Inl ''settlement payout bound'')
         else map_option (\<lambda>r. and_then r (\<lambda>(released, sp).
                Inr ((closed + q, if wins then payout + q * 10000 else payout), sp)))
              (close_position i q (st_time st) sp))"

fun settle_positions ::
  "market_settlement \<Rightarrow> nat list \<Rightarrow> (int \<times> int) \<times> study_positions \<Rightarrow> (string + (int \<times> int) \<times> study_positions) option" where
  "settle_positions st [] s = Some (Inr s)"
| "settle_positions st (i # rest) s =
     (case settle_position st i s of None \<Rightarrow> None
      | Some (Inl e) \<Rightarrow> Some (Inl e)
      | Some (Inr s) \<Rightarrow> settle_positions st rest s)"

definition settle_market :: "market_settlement \<Rightarrow> study_positions \<Rightarrow> (string + (int \<times> int) \<times> study_positions) option" where
  "settle_market st sp = settle_positions st [0..<length (sp_positions sp)] ((0, 0), sp)"

definition finish_positions :: "int \<Rightarrow> study_positions \<Rightarrow> string + study_positions" where
  "finish_positions time sp =
     and_then (and_fold (\<lambda>l ct. if lo_quantity l \<noteq> 0 then capital_add (lo_debit l) (time - lo_acquired l) ct else Inr ct)
                (sp_lots sp) (sp_time sp)) (\<lambda>ct. Inr (sp\<lparr>sp_time := ct\<rparr>))"

definition unsettled_lots :: "study_positions \<Rightarrow> nat" where
  "unsettled_lots sp = length (filter (\<lambda>l. lo_quantity l \<noteq> 0) (sp_lots sp))"


subsection \<open>Capital time\<close>

text \<open>Capital time in micro-dollar nanoseconds.\<close>

definition capital_total :: "capital_time \<Rightarrow> int" where
  "capital_total ct = uint (ct_seconds ct) * 1000000000 + uint (ct_fraction ct)"

definition capital_ok :: "capital_time \<Rightarrow> bool" where
  "capital_ok ct \<longleftrightarrow> uint (ct_fraction ct) < 1000000000"

lemma uint_uint64_max: "uint uint64_max = 18446744073709551615"
  by (simp add: uint64_max_def)

lemma uint_nonneg: "0 \<le> uint (w :: u64)"
  by simp

lemma uint_word_of_int_u64: "0 \<le> x \<Longrightarrow> x < 18446744073709551616 \<Longrightarrow> uint (word_of_int x :: u64) = x"
  by (simp add: unsigned_of_int take_bit_int_eq_self_iff)

lemma uint_word_of_int64: "0 \<le> x \<Longrightarrow> x \<le> int64_max \<Longrightarrow> uint (word_of_int x :: u64) = x"
  by (simp add: uint_word_of_int_u64 int64_max_def)

lemma uint_add_u64: "uint x + uint y \<le> 18446744073709551615 \<Longrightarrow> uint (x + y :: u64) = uint x + uint y"
  by (subst uint_plus_simple_iff [symmetric]) (simp add: no_olen_add)

lemma uint_mult_u64: "uint x * uint y \<le> 18446744073709551615 \<Longrightarrow> uint (x * y :: u64) = uint x * uint y"
  by (simp add: uint_word_ariths(3) zmod_trivial_iff)

lemma uint_sub_u64: "y \<le> x \<Longrightarrow> uint (x - y :: u64) = uint x - uint y"
  by (rule uint_sub_lem [THEN iffD1]) (simp add: word_le_def)

text \<open>What \<open>add\<close> computes, over the integers.\<close>

definition capital_sum :: "int \<Rightarrow> int \<Rightarrow> capital_time \<Rightarrow> int" where
  "capital_sum cash ns ct =
     (cash * (ns div 1000000000) + (cash div 1000000000) * (ns mod 1000000000)) +
     (cash mod 1000000000 * (ns mod 1000000000) + uint (ct_fraction ct)) div 1000000000"

lemma split_product:
  "(c * s + d) * (t * s + n) = (c * s + d) * t * s + (c * n * s + d * n)" for c d s t n :: int
  by (simp add: algebra_simps)

lemma capital_total_sum:
  "capital_total ct + cash * ns =
   (uint (ct_seconds ct) + capital_sum cash ns ct) * 1000000000 +
   (cash mod 1000000000 * (ns mod 1000000000) + uint (ct_fraction ct)) mod 1000000000"
proof -
  let ?s = "1000000000 :: int"
  have "cash * ns = cash * (ns div ?s) * ?s + (cash div ?s * (ns mod ?s) * ?s + cash mod ?s * (ns mod ?s))"
    using split_product [of "cash div ?s" ?s "cash mod ?s" "ns div ?s" "ns mod ?s"] by simp
  then show ?thesis
    using div_mult_mod_eq [of "cash mod ?s * (ns mod ?s) + uint (ct_fraction ct)" ?s]
    by (simp add: capital_total_def capital_sum_def distrib_right)
qed

definition capital_of :: "int \<Rightarrow> capital_time" where
  "capital_of n = \<lparr>ct_seconds = word_of_int (n div 1000000000), ct_fraction = word_of_int (n mod 1000000000)\<rparr>"

definition capital_max :: int where
  "capital_max = 18446744073709551616 * 1000000000"

lemma capital_sum_nonneg:
  assumes "0 \<le> cash" "0 \<le> ns"
  shows "0 \<le> cash * (ns div 1000000000)"
    "0 \<le> cash div 1000000000 * (ns mod 1000000000)"
    "0 \<le> cash mod 1000000000 * (ns mod 1000000000)"
    "0 \<le> capital_sum cash ns ct"
  using assms
  by (simp_all add: capital_sum_def pos_imp_zdiv_nonneg_iff)

lemma capital_parts_bound:
  assumes "0 \<le> cash" "cash \<le> int64_max"
  shows "cash div 1000000000 * (ns mod 1000000000) \<le> 9223372036 * 999999999"
    "cash mod 1000000000 * (ns mod 1000000000) \<le> 999999999 * 999999999"
proof -
  have "cash div 1000000000 \<le> int64_max div 1000000000" using assms by (intro zdiv_mono1) auto
  then have "cash div 1000000000 \<le> 9223372036" by (simp add: int64_max_def)
  moreover have n: "0 \<le> ns mod 1000000000" "ns mod 1000000000 \<le> 999999999"
    using pos_mod_bound [of 1000000000 ns] by simp_all
  ultimately show "cash div 1000000000 * (ns mod 1000000000) \<le> 9223372036 * 999999999"
    using assms by (intro mult_mono) (auto simp: pos_imp_zdiv_nonneg_iff)
  have "cash mod 1000000000 \<le> 999999999" using pos_mod_bound [of 1000000000 cash] by simp
  with n show "cash mod 1000000000 * (ns mod 1000000000) \<le> 999999999 * 999999999"
    by (intro mult_mono) auto
qed

text \<open>The words of \<open>add\<close> do not wrap: the two products and the carry stay below \<open>2 ^ 64\<close>.\<close>

lemma capital_words:
  fixes amount time :: u64
  assumes "0 \<le> cash" "cash \<le> int64_max" "capital_ok ct" "uint amount = cash" "uint time = ns"
  defines "fractional \<equiv> (amount mod 1000000000) * (time mod 1000000000) + ct_fraction ct"
  shows "uint fractional = cash mod 1000000000 * (ns mod 1000000000) + uint (ct_fraction ct)"
    "uint ((amount div 1000000000) * (time mod 1000000000) + fractional div 1000000000) =
     cash div 1000000000 * (ns mod 1000000000) +
     (cash mod 1000000000 * (ns mod 1000000000) + uint (ct_fraction ct)) div 1000000000"
proof -
  note small = capital_parts_bound [OF assms(1,2), of ns]
  have am: "uint (amount mod 1000000000) = cash mod 1000000000" "uint (amount div 1000000000) = cash div 1000000000"
    and rest: "uint (time mod 1000000000) = ns mod 1000000000"
    by (simp_all add: uint_div uint_mod assms(4,5))
  have p: "uint ((amount mod 1000000000) * (time mod 1000000000)) = cash mod 1000000000 * (ns mod 1000000000)"
    using small by (subst uint_mult_u64) (simp_all add: am rest)
  show f: "uint fractional = cash mod 1000000000 * (ns mod 1000000000) + uint (ct_fraction ct)"
    unfolding fractional_def using assms(3) small by (subst uint_add_u64) (simp_all add: p capital_ok_def)
  have "(cash mod 1000000000 * (ns mod 1000000000) + uint (ct_fraction ct)) div 1000000000 < 1000000000"
    using small assms(3) by (subst int_div_less_iff) (simp_all add: capital_ok_def)
  moreover have g: "uint ((amount div 1000000000) * (time mod 1000000000)) = cash div 1000000000 * (ns mod 1000000000)"
    by (rule uint_mult_u64 [THEN trans]) (simp_all only: am rest order_trans [OF small(1)])
  moreover have h: "uint (fractional div 1000000000) =
      (cash mod 1000000000 * (ns mod 1000000000) + uint (ct_fraction ct)) div 1000000000"
    by (simp add: uint_div f)
  ultimately show "uint ((amount div 1000000000) * (time mod 1000000000) + fractional div 1000000000) =
     cash div 1000000000 * (ns mod 1000000000) +
     (cash mod 1000000000 * (ns mod 1000000000) + uint (ct_fraction ct)) div 1000000000"
    using small(1) by (intro uint_add_u64 [THEN trans]) (simp_all only: g h)
qed

lemma product_guard:
  "(seconds \<noteq> 0 \<and> uint64_max div seconds < amount) \<longleftrightarrow> 18446744073709551615 < uint amount * uint seconds"
proof (cases "seconds = 0")
  case False
  then have "uint seconds \<noteq> 0" by (simp add: word_uint_eq_iff)
  then have "0 < uint seconds" using uint_nonneg [of seconds] by linarith
  with False show ?thesis
    by (simp add: word_less_def uint_div uint_uint64_max int_div_less_iff)
qed simp

lemma capital_total_parts:
  assumes "n = uint (ct_seconds ct) + capital_sum cash ns ct"
    and "m = (cash mod 1000000000 * (ns mod 1000000000) + uint (ct_fraction ct)) mod 1000000000"
  shows "capital_total ct + cash * ns < capital_max \<longleftrightarrow> n \<le> 18446744073709551615"
    "capital_of (capital_total ct + cash * ns) = \<lparr>ct_seconds = word_of_int n, ct_fraction = word_of_int m\<rparr>"
proof -
  have m0: "0 \<le> m" "m < 1000000000" by (simp_all add: assms(2))
  have total: "capital_total ct + cash * ns = n * 1000000000 + m"
    by (simp only: assms capital_total_sum)
  show "capital_total ct + cash * ns < capital_max \<longleftrightarrow> n \<le> 18446744073709551615"
    using m0 unfolding total capital_max_def by auto
  have "(n * 1000000000 + m) div 1000000000 = n" "(n * 1000000000 + m) mod 1000000000 = m"
    using m0 by (simp_all add: div_add1_eq)
  then show "capital_of (capital_total ct + cash * ns) = \<lparr>ct_seconds = word_of_int n, ct_fraction = word_of_int m\<rparr>"
    by (simp add: total capital_of_def)
qed

text \<open>The sums of \<open>add\<close>, once the product of whole seconds fits: the guards find exactly the sums that do not.\<close>

lemma carry_guards:
  fixes whole extra total :: u64
  shows "(uint64_max - extra < whole \<or> uint64_max - whole - extra < total) \<longleftrightarrow>
         18446744073709551615 < uint total + (uint whole + uint extra)"
proof -
  have le: "extra \<le> uint64_max" using unat_u64_bound [of extra] by (simp add: word_le_nat_alt uint64_max_def)
  have g1: "uint64_max - extra < whole \<longleftrightarrow> 18446744073709551615 < uint whole + uint extra"
    unfolding word_less_def uint_sub_u64 [OF le] uint_uint64_max by linarith
  show ?thesis
  proof (cases "18446744073709551615 < uint whole + uint extra")
    case True
    with g1 show ?thesis using uint_nonneg [of total] by linarith
  next
    case False
    then have we: "uint (whole + extra) = uint whole + uint extra" by (simp add: uint_add_u64)
    with False have le2: "whole + extra \<le> uint64_max" by (simp add: word_le_def uint_uint64_max)
    have "uint64_max - whole - extra = uint64_max - (whole + extra)" by simp
    then have "uint64_max - whole - extra < total \<longleftrightarrow> 18446744073709551615 < uint total + (uint whole + uint extra)"
      by (simp only: word_less_def uint_sub_u64 [OF le2] uint_uint64_max we) linarith
    with False g1 show ?thesis by blast
  qed
qed

lemma capital_add_exact:
  assumes "0 \<le> cash" "cash \<le> int64_max" "0 \<le> ns" "ns \<le> int64_max" "capital_ok ct"
  shows "capital_add cash ns ct =
    (if capital_total ct + cash * ns < capital_max then Inr (capital_of (capital_total ct + cash * ns))
     else Inl ''capital-time overflow'')"
proof -
  define amount :: u64 where "amount = word_of_int cash"
  define time :: u64 where "time = word_of_int ns"
  define fractional where "fractional = (amount mod 1000000000) * (time mod 1000000000) + ct_fraction ct"
  define extra where "extra = (amount div 1000000000) * (time mod 1000000000) + fractional div 1000000000"
  define n where "n = uint (ct_seconds ct) + capital_sum cash ns ct"
  define m where "m = (cash mod 1000000000 * (ns mod 1000000000) + uint (ct_fraction ct)) mod 1000000000"
  have a: "uint amount = cash" and t: "uint time = ns"
    using assms by (simp_all add: amount_def time_def uint_word_of_int64)
  note words = capital_words [OF assms(1,2,5) a t, folded fractional_def, folded extra_def]
  note parts = capital_total_parts [OF n_def m_def]
  have sec: "uint (time div 1000000000) = ns div 1000000000" by (simp add: uint_div t)
  have sum: "capital_sum cash ns ct = cash * (ns div 1000000000) + uint extra"
    by (simp add: capital_sum_def words(2))
  have start: "capital_add cash ns ct =
     (if 18446744073709551615 < cash * (ns div 1000000000) then Inl ''capital-time overflow''
      else if 18446744073709551615 < uint (ct_seconds ct) + (uint (amount * (time div 1000000000)) + uint extra)
      then Inl ''capital-time overflow''
      else Inr \<lparr>ct_seconds = ct_seconds ct + (amount * (time div 1000000000) + extra), ct_fraction = fractional mod 1000000000\<rparr>)"
    using assms(1,3)
    by (simp only: capital_add_def Let_def amount_def [symmetric] time_def [symmetric] fractional_def [symmetric]
      extra_def [symmetric] product_guard carry_guards a sec not_less [symmetric] simp_thms if_False)
  show ?thesis
  proof (cases "18446744073709551615 < cash * (ns div 1000000000)")
    case True
    then have "\<not> n \<le> 18446744073709551615"
      using uint_nonneg [of extra] uint_nonneg [of "ct_seconds ct"] unfolding n_def sum by linarith
    with True start parts show ?thesis by simp
  next
    case False
    then have w: "uint (amount * (time div 1000000000)) = cash * (ns div 1000000000)"
      by (subst uint_mult_u64) (simp_all add: a sec)
    have n: "uint (ct_seconds ct) + (uint (amount * (time div 1000000000)) + uint extra) = n"
      by (simp add: w n_def sum)
    have n0: "0 \<le> n" unfolding n [symmetric] by simp
    have sn: "ct_seconds ct + (amount * (time div 1000000000) + extra) = word_of_int n" if "n \<le> 18446744073709551615"
      by (simp flip: n)
    have m0: "0 \<le> m" "m < 1000000000" by (simp_all add: m_def)
    have "fractional mod 1000000000 = word_of_int m"
      using m0 by (simp only: word_uint_eq_iff uint_mod words(1) uint_word_of_int_u64) (simp add: m_def)
    with False start n sn parts show ?thesis by auto
  qed
qed

lemma capital_of_total:
  assumes "0 \<le> n" "n < capital_max"
  shows "capital_total (capital_of n) = n" "capital_ok (capital_of n)"
proof -
  have d: "0 \<le> n div 1000000000" "n div 1000000000 < 18446744073709551616"
    using assms by (simp_all add: pos_imp_zdiv_nonneg_iff int_div_less_iff capital_max_def)
  have m: "0 \<le> n mod 1000000000" "n mod 1000000000 < 1000000000" by simp_all
  have "uint (ct_fraction (capital_of n)) = n mod 1000000000"
    unfolding capital_of_def capital_time.simps using m by (intro uint_word_of_int_u64) linarith+
  moreover have "uint (ct_seconds (capital_of n)) = n div 1000000000"
    unfolding capital_of_def capital_time.simps using d by (intro uint_word_of_int_u64)
  ultimately show "capital_total (capital_of n) = n" "capital_ok (capital_of n)"
    by (simp_all add: capital_total_def capital_ok_def)
qed

lemma capital_total_nonneg: "0 \<le> capital_total ct"
  by (simp add: capital_total_def)


text \<open>
  Claim C22. However many amounts are added, the two words hold the exact sum of the products; an
  overflow is reported exactly when the sum reaches \<open>2 ^ 64\<close> micro-dollar seconds.
\<close>

theorem capital_time_exact:
  assumes "\<forall>(cash, ns) \<in> set xs. 0 \<le> cash \<and> cash \<le> int64_max \<and> 0 \<le> ns \<and> ns \<le> int64_max"
  shows "and_fold (\<lambda>(cash, ns). capital_add cash ns) xs no_capital_time =
    (if (\<Sum>(cash, ns) \<leftarrow> xs. cash * ns) < capital_max
     then Inr (capital_of (\<Sum>(cash, ns) \<leftarrow> xs. cash * ns)) else Inl ''capital-time overflow'')"
proof -
  have nonneg: "0 \<le> (\<Sum>(cash, ns) \<leftarrow> xs. cash * ns)"
    if "\<forall>(cash, ns) \<in> set xs. 0 \<le> cash \<and> 0 \<le> ns" for xs :: "(int \<times> int) list"
    using that by (induction xs) auto
  have "and_fold (\<lambda>(cash, ns). capital_add cash ns) xs (capital_of n) =
      (if n + (\<Sum>(cash, ns) \<leftarrow> xs. cash * ns) < capital_max
       then Inr (capital_of (n + (\<Sum>(cash, ns) \<leftarrow> xs. cash * ns))) else Inl ''capital-time overflow'')"
    if "0 \<le> n" "n < capital_max" for n
    using assms that
  proof (induction xs arbitrary: n)
    case (Cons x xs)
    obtain cash ns where x: "x = (cash, ns)" by (cases x)
    have "0 \<le> (\<Sum>(cash, ns) \<leftarrow> xs. cash * ns)" "0 \<le> n + cash * ns"
      using Cons.prems x by (auto intro!: nonneg)
    with Cons x show ?case
      by (auto simp: capital_add_exact capital_of_total add.assoc)
  qed simp
  from this [of 0] show ?thesis
    by (simp add: capital_max_def capital_of_def no_capital_time_def)
qed

theorem capital_time_exact_witness:
  "and_fold (\<lambda>(cash, ns). capital_add cash ns) [(1999999999, 1500000001), (7, 999999999)] no_capital_time =
   Inr (capital_of (1999999999 * 1500000001 + 7 * 999999999)) \<and>
   capital_of (1999999999 * 1500000001 + 7 * 999999999) = \<lparr>ct_seconds = 3000000007, ct_fraction = 499999992\<rparr>"
  using capital_time_exact [of "[(1999999999, 1500000001), (7, 999999999)]"]
  by (simp add: capital_max_def capital_of_def int64_max_def)


subsection \<open>First in, first out: the specification\<close>

text \<open>
  A position's lots as a list of quantity, cost and time. Selling takes from the front; a lot sold in
  part gives up its cost in proportion, rounded down, and keeps the rest. The first component is what
  was taken.
\<close>

type_synonym held_lot = "int \<times> int \<times> int"

fun fifo_take :: "int \<Rightarrow> held_lot list \<Rightarrow> held_lot list \<times> held_lot list" where
  "fifo_take remaining [] = ([], [])"
| "fifo_take remaining ((q, d, t) # ls) =
     (if remaining = 0 then ([], (q, d, t) # ls)
      else if q \<le> remaining then (case fifo_take (remaining - q) ls of (taken, kept) \<Rightarrow> ((q, d, t) # taken, kept))
      else ([(remaining, d * remaining div q, t)], (q - remaining, d - d * remaining div q, t) # ls))"

definition lots_quantity :: "held_lot list \<Rightarrow> int" where
  "lots_quantity ls = sum_list (map fst ls)"

definition lots_cost :: "held_lot list \<Rightarrow> int" where
  "lots_cost ls = sum_list (map (fst \<circ> snd) ls)"

text \<open>Cost held over time until \<open>time\<close>.\<close>

definition lots_capital :: "int \<Rightarrow> held_lot list \<Rightarrow> int" where
  "lots_capital time ls = (\<Sum>(q, d, t) \<leftarrow> ls. d * (time - t))"

definition lots_ok :: "held_lot list \<Rightarrow> bool" where
  "lots_ok ls \<longleftrightarrow> (\<forall>(q, d, t) \<in> set ls. 0 < q \<and> 0 \<le> d \<and> d \<le> cash_limit \<and> 0 \<le> t \<and> t \<le> int64_max)"

lemma lots_simps [simp]:
  "lots_quantity [] = 0" "lots_quantity ((q, d, t) # ls) = q + lots_quantity ls"
  "lots_cost [] = 0" "lots_cost ((q, d, t) # ls) = d + lots_cost ls"
  "lots_capital time [] = 0" "lots_capital time ((q, d, t) # ls) = d * (time - t) + lots_capital time ls"
  "lots_ok []" "lots_ok ((q, d, t) # ls) \<longleftrightarrow> (0 < q \<and> 0 \<le> d \<and> d \<le> cash_limit \<and> 0 \<le> t \<and> t \<le> int64_max) \<and> lots_ok ls"
  by (simp_all add: lots_quantity_def lots_cost_def lots_capital_def lots_ok_def)

lemma lots_append [simp]:
  "lots_quantity (xs @ ys) = lots_quantity xs + lots_quantity ys"
  "lots_cost (xs @ ys) = lots_cost xs + lots_cost ys"
  "lots_ok (xs @ ys) \<longleftrightarrow> lots_ok xs \<and> lots_ok ys"
  by (simp_all add: lots_quantity_def lots_cost_def lots_ok_def ball_Un)

lemma lots_quantity_nonneg: "lots_ok ls \<Longrightarrow> 0 \<le> lots_quantity ls"
  by (induction ls) auto

lemma lots_quantity_0: "lots_ok ls \<Longrightarrow> lots_quantity ls = 0 \<longleftrightarrow> ls = []"
  using lots_quantity_nonneg [of "tl ls"] by (cases ls) auto

lemma lots_cost_nonneg: "lots_ok ls \<Longrightarrow> 0 \<le> lots_cost ls"
  by (induction ls) auto

lemma basis_bounds:
  assumes "0 < q" "0 \<le> r" "r \<le> q" "0 \<le> (d::int)"
  shows "0 \<le> d * r div q" "d * r div q \<le> d"
proof -
  show "0 \<le> d * r div q" using assms by (simp add: pos_imp_zdiv_nonneg_iff)
  have "d * r div q \<le> d * q div q" using assms by (intro zdiv_mono1 mult_left_mono) auto
  then show "d * r div q \<le> d" using assms by simp
qed

text \<open>What a sale conserves: quantity and cost, whatever the rounding, and the shape of the lots.\<close>

lemma fifo_take_conserves:
  assumes "lots_ok ls" "0 \<le> r" "r \<le> lots_quantity ls" "fifo_take r ls = (taken, kept)"
  shows "lots_quantity taken = r \<and> lots_quantity kept = lots_quantity ls - r \<and>
    lots_cost taken + lots_cost kept = lots_cost ls \<and> lots_ok taken \<and> lots_ok kept"
  using assms
proof (induction r ls arbitrary: taken kept rule: fifo_take.induct)
  case (2 r q d t ls)
  consider "r = 0" | "r \<noteq> 0" "q \<le> r" | "r \<noteq> 0" "\<not> q \<le> r" by blast
  then show ?case
  proof cases
    case 1
    with "2.prems" show ?thesis by auto
  next
    case 2
    obtain tk kp where rest: "fifo_take (r - q) ls = (tk, kp)" by fastforce
    with 2 "2.prems" have "taken = (q, d, t) # tk" "kept = kp" by simp_all
    with "2.IH" [OF 2 _ _ _ rest] 2 "2.prems" show ?thesis by simp
  next
    case 3
    then have "taken = [(r, d * r div q, t)]" "kept = (q - r, d - d * r div q, t) # ls" "0 < r"
      using "2.prems" by simp_all
    with 3 "2.prems" basis_bounds [of q r d] show ?thesis by simp
  qed
qed simp

text \<open>The code divides the cost before it multiplies; the basis is the same.\<close>

lemma lot_basis_eq:
  assumes "0 < lo_quantity l"
  shows "lot_basis taken l = lo_debit l * taken div lo_quantity l"
proof -
  let ?q = "lo_quantity l" and ?d = "lo_debit l"
  have "?d * taken = (?d mod ?q) * taken + (?d div ?q) * taken * ?q"
    by (metis (no_types, lifting) add.commute distrib_right div_mult_mod_eq mult.assoc mult.commute)
  then have "?d * taken div ?q = (?d div ?q) * taken + (?d mod ?q) * taken div ?q"
    using assms by simp
  then show ?thesis using assms by (simp add: lot_basis_def)
qed


subsection \<open>Linked lots\<close>

text \<open>The lots from \<open>start\<close> on, following the links for at most \<open>n\<close> steps.\<close>

fun follow :: "lot list \<Rightarrow> nat \<Rightarrow> nat option \<Rightarrow> nat list" where
  "follow lots 0 start = []"
| "follow lots (Suc n) None = []"
| "follow lots (Suc n) (Some k) = k # follow lots n (lo_next (lots ! k))"

definition owned :: "study_positions \<Rightarrow> nat \<Rightarrow> nat list" where
  "owned sp i = follow (sp_lots sp) (length (sp_lots sp)) (ps_head (sp_positions sp ! i))"

definition lot_view :: "lot \<Rightarrow> held_lot" where
  "lot_view l = (lo_quantity l, lo_debit l, lo_acquired l)"

definition lots_at :: "lot list \<Rightarrow> nat list \<Rightarrow> held_lot list" where
  "lots_at lots ks = map (\<lambda>k. lot_view (lots ! k)) ks"

text \<open>The abstraction: the lots of the position at index \<open>i\<close>, oldest first.\<close>

definition lots_of :: "study_positions \<Rightarrow> nat \<Rightarrow> held_lot list" where
  "lots_of sp i = lots_at (sp_lots sp) (owned sp i)"

fun chain :: "lot list \<Rightarrow> nat option \<Rightarrow> nat list \<Rightarrow> bool" where
  "chain lots start [] \<longleftrightarrow> start = None"
| "chain lots start (k # ks) \<longleftrightarrow> start = Some k \<and> k < length lots \<and> chain lots (lo_next (lots ! k)) ks"

text \<open>
  The representation: every position's lots are a chain of their own from its head to its tail; the
  lots in a chain hold something, the others were sold out.
\<close>

definition linked :: "study_positions \<Rightarrow> (nat \<Rightarrow> nat list) \<Rightarrow> bool" where
  "linked sp P \<longleftrightarrow>
     (\<forall>i < length (sp_positions sp).
        chain (sp_lots sp) (ps_head (sp_positions sp ! i)) (P i) \<and> distinct (P i) \<and>
        ps_tail (sp_positions sp ! i) = (if P i = [] then None else Some (last (P i))) \<and>
        lots_ok (lots_at (sp_lots sp) (P i)) \<and>
        (\<forall>j < length (sp_positions sp). i \<noteq> j \<longrightarrow> set (P i) \<inter> set (P j) = {})) \<and>
     (\<forall>k < length (sp_lots sp). (\<forall>i < length (sp_positions sp). k \<notin> set (P i)) \<longrightarrow> lo_quantity (sp_lots sp ! k) = 0) \<and>
     capital_ok (sp_time sp)"

definition positions_ok :: "study_positions \<Rightarrow> bool" where
  "positions_ok sp \<longleftrightarrow> linked sp (owned sp) \<and>
     (\<forall>i < length (sp_positions sp). ps_quantity (sp_positions sp ! i) = lots_quantity (lots_of sp i) \<and>
        ps_quantity (sp_positions sp ! i) \<le> quantity_limit)"

lemma follow_chain: "chain lots start ks \<Longrightarrow> length ks \<le> n \<Longrightarrow> follow lots n start = ks"
proof (induction lots start ks arbitrary: n rule: chain.induct)
  case (1 lots start)
  then show ?case by (cases n) auto
next
  case (2 lots start k ks)
  then show ?case by (cases n) auto
qed

lemma chain_range: "chain lots start ks \<Longrightarrow> set ks \<subseteq> {..<length lots}"
  by (induction lots start ks rule: chain.induct) auto

lemma chain_length: "chain lots start ks \<Longrightarrow> distinct ks \<Longrightarrow> length ks \<le> length lots"
  using card_mono [OF _ chain_range] by (metis card_lessThan distinct_card finite_lessThan)

text \<open>A chain sees the links only.\<close>

lemma chain_cong:
  "chain lots start ks \<Longrightarrow> length lots \<le> length lots' \<Longrightarrow>
   (\<And>k. k \<in> set ks \<Longrightarrow> lo_next (lots' ! k) = lo_next (lots ! k)) \<Longrightarrow> chain lots' start ks"
  by (induction lots start ks rule: chain.induct) auto

lemma lots_at_cong: "(\<And>k. k \<in> set ks \<Longrightarrow> lot_view (lots' ! k) = lot_view (lots ! k)) \<Longrightarrow> lots_at lots' ks = lots_at lots ks"
  by (simp add: lots_at_def)

lemma lots_at_simps [simp]:
  "lots_at lots [] = []" "lots_at lots (k # ks) = lot_view (lots ! k) # lots_at lots ks"
  "lots_at lots (xs @ ys) = lots_at lots xs @ lots_at lots ys"
  by (simp_all add: lots_at_def)

lemma lots_at_update [simp]: "k \<notin> set js \<Longrightarrow> lots_at (lots[k := l]) js = lots_at lots js"
  by (induction js) auto

lemma linked_owned: "linked sp P \<Longrightarrow> i < length (sp_positions sp) \<Longrightarrow> owned sp i = P i"
  unfolding owned_def by (rule follow_chain) (auto simp: linked_def intro: chain_length)

lemma linked_cong: "linked sp P \<Longrightarrow> (\<And>i. i < length (sp_positions sp) \<Longrightarrow> P' i = P i) \<Longrightarrow> linked sp P'"
  by (simp add: linked_def)

lemma positions_okI:
  assumes "linked sp P"
    and "\<And>i. i < length (sp_positions sp) \<Longrightarrow>
      ps_quantity (sp_positions sp ! i) = lots_quantity (lots_at (sp_lots sp) (P i)) \<and>
      ps_quantity (sp_positions sp ! i) \<le> quantity_limit"
  shows "positions_ok sp"
  unfolding positions_ok_def
proof (intro conjI allI impI)
  show "linked sp (owned sp)" by (rule linked_cong [OF assms(1) linked_owned [OF assms(1)]])
  fix i
  assume i: "i < length (sp_positions sp)"
  show "ps_quantity (sp_positions sp ! i) = lots_quantity (lots_of sp i)"
    using assms(2) [OF i] by (simp add: lots_of_def linked_owned [OF assms(1) i])
  show "ps_quantity (sp_positions sp ! i) \<le> quantity_limit"
    using assms(2) [OF i] by blast
qed


subsection \<open>Closing refines the queue\<close>

text \<open>Elimination of the invariant, clause by clause.\<close>

lemma linkedD:
  assumes "linked sp P" "i < length (sp_positions sp)"
  shows "chain (sp_lots sp) (ps_head (sp_positions sp ! i)) (P i)" "distinct (P i)"
    "ps_tail (sp_positions sp ! i) = (if P i = [] then None else Some (last (P i)))"
    "lots_ok (lots_at (sp_lots sp) (P i))" "set (P i) \<subseteq> {..<length (sp_lots sp)}"
    "\<And>j. j < length (sp_positions sp) \<Longrightarrow> i \<noteq> j \<Longrightarrow> set (P i) \<inter> set (P j) = {}"
  using assms chain_range by (auto simp: linked_def)

lemma linked_free:
  "linked sp P \<Longrightarrow> k < length (sp_lots sp) \<Longrightarrow> (\<And>i. i < length (sp_positions sp) \<Longrightarrow> k \<notin> set (P i)) \<Longrightarrow>
   lo_quantity (sp_lots sp ! k) = 0"
  by (simp add: linked_def)

lemma linked_capital: "linked sp P \<Longrightarrow> capital_ok (sp_time sp)"
  by (simp add: linked_def)

text \<open>The first lot loses a part of its quantity and of its cost.\<close>

lemma linked_sell:
  assumes ok: "linked sp P" and i: "i < length (sp_positions sp)" and P: "P i = k # ks" and ct: "capital_ok ct"
    and l: "l = (sp_lots sp ! k)\<lparr>lo_quantity := q, lo_debit := d\<rparr>" and q: "0 < q" "0 \<le> d" "d \<le> cash_limit"
  shows "linked (sp\<lparr>sp_lots := (sp_lots sp)[k := l], sp_time := ct\<rparr>) P" (is "linked ?sp P")
proof -
  have k: "k < length (sp_lots sp)" using linkedD(5) [OF ok i] P by auto
  have nx: "lo_next ((sp_lots sp)[k := l] ! j) = lo_next (sp_lots sp ! j)" for j
    using k by (cases "j = k") (simp_all add: l)
  have view: "lots_at ((sp_lots sp)[k := l]) (P j) =
      (if j = i then lot_view l # lots_at (sp_lots sp) ks else lots_at (sp_lots sp) (P j))"
    if j: "j < length (sp_positions sp)" for j
  proof (cases "j = i")
    case True
    have "k \<notin> set ks" using linkedD(2) [OF ok i] P by auto
    with True k P show ?thesis by simp
  next
    case False
    then have "k \<notin> set (P j)" using linkedD(6) [OF ok i j] P by auto
    with False show ?thesis by simp
  qed
  have lo: "lots_ok (lot_view l # lots_at (sp_lots sp) ks)"
    using linkedD(4) [OF ok i] P q by (simp add: l lot_view_def)
  have free: "lo_quantity ((sp_lots sp)[k := l] ! j) = 0"
    if "j < length (sp_lots sp)" "\<forall>i < length (sp_positions sp). j \<notin> set (P i)" for j
    using that linked_free [OF ok, of j] i P by (cases "j = k") auto
  show ?thesis
    unfolding linked_def
    using linkedD [OF ok] chain_cong [OF linkedD(1) [OF ok]] nx view lo free ct by auto
qed

text \<open>The first lot is sold out and leaves the chain.\<close>

lemma linked_pop:
  assumes ok: "linked sp P" and i: "i < length (sp_positions sp)" and P: "P i = k # ks" and ct: "capital_ok ct"
    and l: "l = (sp_lots sp ! k)\<lparr>lo_quantity := 0, lo_debit := 0\<rparr>"
    and p: "p = (sp_positions sp ! i)\<lparr>ps_head := lo_next l, ps_tail := (if lo_next l = None then None else ps_tail (sp_positions sp ! i))\<rparr>"
  shows "linked (sp\<lparr>sp_lots := (sp_lots sp)[k := l], sp_time := ct, sp_positions := (sp_positions sp)[i := p]\<rparr>) (P(i := ks))"
proof -
  have k: "k < length (sp_lots sp)" using linkedD(5) [OF ok i] P by auto
  have nx: "lo_next ((sp_lots sp)[k := l] ! j) = lo_next (sp_lots sp ! j)" for j
    using k by (cases "j = k") (simp_all add: l)
  have kks: "k \<notin> set ks" "distinct ks" using linkedD(2) [OF ok i] P by auto
  have other: "k \<notin> set (P j)" "set ks \<inter> set (P j) = {}" "set (P j) \<inter> set ks = {}"
    if "j < length (sp_positions sp)" "j \<noteq> i" for j
    using linkedD(6) [OF ok i that(1)] that P by auto
  have head: "chain (sp_lots sp) (lo_next (sp_lots sp ! k)) ks" using linkedD(1) [OF ok i] P by simp
  then have "lo_next (sp_lots sp ! k) = None \<longleftrightarrow> ks = []" by (cases ks) auto
  then have tail: "ps_tail p = (if ks = [] then None else Some (last ks))"
    using linkedD(3) [OF ok i] P by (simp add: p l)
  have chains: "chain ((sp_lots sp)[k := l]) (ps_head p) ks"
    using chain_cong [OF head, of "(sp_lots sp)[k := l]"] nx by (simp add: p l)
  have lo: "lots_ok (lots_at (sp_lots sp) ks)" using linkedD(4) [OF ok i] P by (cases "lot_view (sp_lots sp ! k)") simp
  have free: "lo_quantity ((sp_lots sp)[k := l] ! j) = 0"
    if "j < length (sp_lots sp)" "\<forall>m < length (sp_positions sp). j \<notin> set ((P(i := ks)) m)" for j
  proof (cases "j = k")
    case False
    then have "j \<notin> set (P m)" if "m < length (sp_positions sp)" for m
      using \<open>\<forall>m < length (sp_positions sp). j \<notin> set ((P(i := ks)) m)\<close> that P by (cases "m = i") auto
    with False that(1) linked_free [OF ok, of j] show ?thesis by simp
  qed (use k in \<open>simp add: l\<close>)
  show ?thesis
    unfolding linked_def
    using linkedD [OF ok] chain_cong [OF linkedD(1) [OF ok]] nx kks other tail chains lo free ct i
    by (auto simp: nth_list_update)
qed


text \<open>
  The only failures: a lot acquired after the time of the sale, and a capital time of \<open>2 ^ 64\<close>
  micro-dollar seconds or more.
\<close>

definition lots_capital_pos :: "int \<Rightarrow> held_lot list \<Rightarrow> int" where
  "lots_capital_pos time ls = (\<Sum>(q, d, t) \<leftarrow> ls. d * max 0 (time - t))"

definition capital_error :: "int \<Rightarrow> held_lot list \<Rightarrow> capital_time \<Rightarrow> string \<Rightarrow> bool" where
  "capital_error time ls ct e \<longleftrightarrow>
     (e = ''negative capital-time input'' \<and> (\<exists>(q, d, t) \<in> set ls. time < t)) \<or>
     (e = ''capital-time overflow'' \<and> capital_max \<le> capital_total ct + lots_capital_pos time ls)"

lemma lots_capital_pos_simps [simp]:
  "lots_capital_pos time [] = 0"
  "lots_capital_pos time ((q, d, t) # ls) = d * max 0 (time - t) + lots_capital_pos time ls"
  by (simp_all add: lots_capital_pos_def)

lemma lots_capital_pos_nonneg: "lots_ok ls \<Longrightarrow> 0 \<le> lots_capital_pos time ls"
  by (induction ls) auto

text \<open>One turn's addition of capital time.\<close>

lemma capital_add_lot:
  assumes "0 \<le> d" "d \<le> cash_limit" "0 \<le> t" "time \<le> int64_max" "capital_ok ct" "lots_ok ls"
  shows "yields (capital_error time ((q, d, t) # ls) ct)
    (\<lambda>ct'. capital_ok ct' \<and> t \<le> time \<and> capital_total ct' = capital_total ct + d * (time - t))
    (capital_add d (time - t) ct)"
proof (cases "time < t")
  case True
  then show ?thesis by (simp add: capital_add_def capital_error_def)
next
  case False
  have d: "d \<le> int64_max" using assms(2) by (simp add: limits)
  have n: "0 \<le> capital_total ct + d * (time - t)"
    using assms(1) False by (simp add: capital_total_nonneg)
  show ?thesis
    using False assms d capital_of_total [OF n] lots_capital_pos_nonneg [OF assms(6), of time]
    by (auto simp: capital_add_exact capital_error_def)
qed

lemma capital_error_later:
  assumes "capital_error time ls ct' e" "capital_total ct' = capital_total ct + d * (time - t)" "t \<le> time"
  shows "capital_error time ((q, d, t) # ls) ct e"
  using assms by (auto simp: capital_error_def max_def)

text \<open>What a close leaves alone.\<close>

definition kept_apart :: "study_positions \<Rightarrow> (nat \<Rightarrow> nat list) \<Rightarrow> nat \<Rightarrow> study_positions \<Rightarrow> (nat \<Rightarrow> nat list) \<Rightarrow> bool" where
  "kept_apart sp P i sp' P' \<longleftrightarrow>
     length (sp_positions sp') = length (sp_positions sp) \<and> length (sp_lots sp') = length (sp_lots sp) \<and>
     (\<forall>j < length (sp_positions sp). ps_leg (sp_positions sp' ! j) = ps_leg (sp_positions sp ! j) \<and>
        ps_quantity (sp_positions sp' ! j) = ps_quantity (sp_positions sp ! j)) \<and>
     (\<forall>j < length (sp_positions sp). j \<noteq> i \<longrightarrow>
        P' j = P j \<and> lots_at (sp_lots sp') (P j) = lots_at (sp_lots sp) (P j))"

lemma kept_apart_trans:
  "kept_apart sp P i sp' P' \<Longrightarrow> kept_apart sp' P' i sp'' P'' \<Longrightarrow> kept_apart sp P i sp'' P''"
  by (simp add: kept_apart_def)

lemma kept_apart_update:
  assumes "linked sp P" "i < length (sp_positions sp)" "k \<in> set (P i)"
    and "sp_lots sp' = (sp_lots sp)[k := l]" "sp_positions sp' = (sp_positions sp)[i := p]"
    and "ps_leg p = ps_leg (sp_positions sp ! i)" "ps_quantity p = ps_quantity (sp_positions sp ! i)"
    and "\<And>j. j \<noteq> i \<Longrightarrow> P' j = P j"
  shows "kept_apart sp P i sp' P'"
proof -
  have "k \<notin> set (P j)" if "j < length (sp_positions sp)" "j \<noteq> i" for j
    using linkedD(6) [OF assms(1,2) that(1)] that(2) assms(3) by auto
  with assms show ?thesis by (auto simp: kept_apart_def nth_list_update)
qed

text \<open>What a close from the chains \<open>P\<close> comes to.\<close>

definition closes ::
  "study_positions \<Rightarrow> (nat \<Rightarrow> nat list) \<Rightarrow> nat \<Rightarrow> int \<Rightarrow> int \<Rightarrow> held_lot list \<Rightarrow> held_lot list \<Rightarrow>
   (string + int \<times> study_positions) option \<Rightarrow> bool" where
  "closes sp P i time released taken kept result \<longleftrightarrow>
     (\<exists>res. result = Some res \<and>
       yields (capital_error time taken (sp_time sp))
         (\<lambda>(rel, sp'). rel = released + lots_cost taken \<and>
            capital_total (sp_time sp') = capital_total (sp_time sp) + lots_capital time taken \<and>
            (\<exists>P'. linked sp' P' \<and> kept_apart sp P i sp' P' \<and> lots_at (sp_lots sp') (P' i) = kept)) res)"

lemma first_lot:
  assumes "linked sp P" "i < length (sp_positions sp)" "P i = k # ks" "lot_view (sp_lots sp ! k) = (q, d, t)"
  shows "lo_quantity (sp_lots sp ! k) = q" "lo_debit (sp_lots sp ! k) = d" "lo_acquired (sp_lots sp ! k) = t"
    "k < length (sp_lots sp)" "ps_head (sp_positions sp ! i) = Some k" "k \<notin> set ks"
    "0 < q" "0 \<le> d" "d \<le> cash_limit" "0 \<le> t" "lots_ok (lots_at (sp_lots sp) ks)"
  using assms(4) linkedD(1,2,4) [OF assms(1,2)] assms(3) by (auto simp: lot_view_def)

text \<open>A turn of the loop that sells the first lot out, and the last turn, which sells a part of it.\<close>

lemma close_loop_pop:
  assumes ok: "linked sp P" and i: "i < length (sp_positions sp)" and P: "P i = k # ks"
    and view: "lot_view (sp_lots sp ! k) = (q, d, t)" and r: "0 < r" "q \<le> r" and time: "time \<le> int64_max"
    and tk: "lots_ok tk"
  shows "(\<exists>e. close_loop i time r released sp = Some (Inl e) \<and> capital_error time ((q, d, t) # tk) (sp_time sp) e) \<or>
    (\<exists>sp'. close_loop i time r released sp = close_loop i time (r - q) (released + d) sp' \<and>
       linked sp' (P(i := ks)) \<and> kept_apart sp P i sp' (P(i := ks)) \<and>
       lots_at (sp_lots sp') ks = lots_at (sp_lots sp) ks \<and> t \<le> time \<and>
       capital_total (sp_time sp') = capital_total (sp_time sp) + d * (time - t))"
proof -
  let ?l = "sp_lots sp ! k"
  note l = first_lot [OF ok i P view]
  have y: "yields (capital_error time ((q, d, t) # tk) (sp_time sp))
      (\<lambda>ct'. capital_ok ct' \<and> t \<le> time \<and> capital_total ct' = capital_total (sp_time sp) + d * (time - t))
      (capital_add d (time - t) (sp_time sp))"
    by (rule capital_add_lot [OF l(8,9,10) time linked_capital [OF ok] tk])
  show ?thesis
  proof (cases "capital_add d (time - t) (sp_time sp)")
    case (Inl e)
    with y show ?thesis using r l by (subst close_loop.simps) (simp add: Let_def lot_basis_def)
  next
    case (Inr ct')
    with y have ct': "capital_ok ct'" "t \<le> time" "capital_total ct' = capital_total (sp_time sp) + d * (time - t)"
      by simp_all
    define l' where "l' = ?l\<lparr>lo_quantity := 0, lo_debit := 0\<rparr>"
    define p' where "p' = (sp_positions sp ! i)\<lparr>ps_head := lo_next l',
      ps_tail := (if lo_next l' = None then None else ps_tail (sp_positions sp ! i))\<rparr>"
    define sp' where "sp' = sp\<lparr>sp_lots := (sp_lots sp)[k := l'], sp_time := ct', sp_positions := (sp_positions sp)[i := p']\<rparr>"
    have "close_loop i time r released sp = close_loop i time (r - q) (released + d) sp'"
      using r l Inr by (subst close_loop.simps)
        (simp add: Let_def lot_basis_def min_absorb2 sp'_def l'_def p'_def)
    moreover have "linked sp' (P(i := ks))"
      unfolding sp'_def by (rule linked_pop [OF ok i P ct'(1) l'_def p'_def])
    moreover have "kept_apart sp P i sp' (P(i := ks))"
      by (rule kept_apart_update [OF ok i, of k _ l' p']) (simp_all add: P sp'_def p'_def)
    ultimately show ?thesis using l(6) ct' by (auto simp: sp'_def)
  qed
qed

lemma close_loop_part:
  assumes ok: "linked sp P" and i: "i < length (sp_positions sp)" and P: "P i = k # ks"
    and view: "lot_view (sp_lots sp ! k) = (q, d, t)" and r: "0 < r" "r < q" and time: "time \<le> int64_max"
  defines "b \<equiv> d * r div q"
  shows "closes sp P i time released [(r, b, t)] ((q - r, d - b, t) # lots_at (sp_lots sp) ks)
    (close_loop i time r released sp)"
proof -
  let ?l = "sp_lots sp ! k"
  note l = first_lot [OF ok i P view]
  have b: "0 \<le> b" "b \<le> d" using basis_bounds [of q r d] r l by (simp_all add: b_def)
  have basis: "lot_basis r ?l = b" using l by (subst lot_basis_eq) (simp_all add: b_def)
  have y: "yields (capital_error time [(r, b, t)] (sp_time sp))
    (\<lambda>ct'. capital_ok ct' \<and> t \<le> time \<and> capital_total ct' = capital_total (sp_time sp) + b * (time - t))
    (capital_add b (time - t) (sp_time sp))"
    using l b linked_capital [OF ok] time by (intro capital_add_lot) simp_all
  show ?thesis
  proof (cases "capital_add b (time - t) (sp_time sp)")
    case (Inl e)
    with y show ?thesis using r l unfolding closes_def
      by (subst close_loop.simps) (simp add: Let_def basis)
  next
    case (Inr ct')
    with y have ct': "capital_ok ct'" "capital_total ct' = capital_total (sp_time sp) + b * (time - t)" by simp_all
    define l' where "l' = ?l\<lparr>lo_quantity := q - r, lo_debit := d - b\<rparr>"
    define sp' where "sp' = sp\<lparr>sp_lots := (sp_lots sp)[k := l'], sp_time := ct'\<rparr>"
    have "close_loop i time r released sp = Some (Inr (released + b, sp'))"
      using r l Inr by (subst close_loop.simps, subst close_loop.simps) (simp add: Let_def basis sp'_def l'_def)
    moreover have "linked sp' P"
      unfolding sp'_def using r b l by (intro linked_sell [OF ok i P ct'(1) l'_def]) simp_all
    moreover have "kept_apart sp P i sp' P"
      by (rule kept_apart_update [OF ok i, of k _ l' "sp_positions sp ! i"]) (simp_all add: P sp'_def)
    moreover have "lots_at (sp_lots sp') (P i) = (q - r, d - b, t) # lots_at (sp_lots sp) ks"
      using l P by (simp add: sp'_def l'_def lot_view_def)
    ultimately show ?thesis using ct' by (auto simp: closes_def sp'_def)
  qed
qed

lemma closes_later:
  assumes "closes sp' P' i time (released + d) tk kept result" "kept_apart sp P i sp' P'" "t \<le> time"
    and "capital_total (sp_time sp') = capital_total (sp_time sp) + d * (time - t)"
  shows "closes sp P i time released ((q, d, t) # tk) kept result"
proof -
  obtain res where res: "result = Some res"
    and y: "yields (capital_error time tk (sp_time sp'))
      (\<lambda>(rel, sp''). rel = released + d + lots_cost tk \<and>
         capital_total (sp_time sp'') = capital_total (sp_time sp') + lots_capital time tk \<and>
         (\<exists>P''. linked sp'' P'' \<and> kept_apart sp' P' i sp'' P'' \<and> lots_at (sp_lots sp'') (P'' i) = kept)) res"
    using assms(1) unfolding closes_def by blast
  show ?thesis
  proof (cases res)
    case (Inl e)
    with y res capital_error_later [OF _ assms(4,3)] show ?thesis by (simp add: closes_def)
  next
    case (Inr r)
    with y res assms(4) kept_apart_trans [OF assms(2)] show ?thesis by (auto simp: closes_def)
  qed
qed

lemma close_loop_refines:
  assumes "linked sp P" "i < length (sp_positions sp)" "0 \<le> r" "r \<le> lots_quantity (lots_at (sp_lots sp) (P i))"
    "time \<le> int64_max" "fifo_take r (lots_at (sp_lots sp) (P i)) = (taken, kept)"
  shows "closes sp P i time released taken kept (close_loop i time r released sp)"
  using assms
proof (induction "P i" arbitrary: sp P r released taken kept)
  case Nil
  then have "r = 0" "taken = []" "kept = []" by simp_all
  with Nil show ?case by (subst close_loop.simps) (auto simp: kept_apart_def closes_def)
next
  case (Cons k ks)
  note P = Cons.hyps(2) [symmetric]
  obtain q d t where view: "lot_view (sp_lots sp ! k) = (q, d, t)" by (cases "lot_view (sp_lots sp ! k)")
  note l = first_lot [OF Cons.prems(1,2) P view]
  consider "r = 0" | "0 < r" "q \<le> r" | "0 < r" "r < q" using Cons.prems(3) by linarith
  then show ?case
  proof cases
    case 1
    with Cons.prems(6) P view have "taken = []" "kept = lots_at (sp_lots sp) (P i)" by auto
    with 1 Cons.prems(1) show ?thesis by (subst close_loop.simps) (auto simp: kept_apart_def closes_def)
  next
    case 2
    obtain tk where tk: "fifo_take (r - q) (lots_at (sp_lots sp) ks) = (tk, kept)" and taken: "taken = (q, d, t) # tk"
      using Cons.prems(6) 2 P view by (auto split: prod.splits)
    have "lots_ok tk" using fifo_take_conserves [OF l(11) _ _ tk] 2 Cons.prems(4) P view by simp
    then consider e where "close_loop i time r released sp = Some (Inl e)" "capital_error time taken (sp_time sp) e"
      | sp' where "close_loop i time r released sp = close_loop i time (r - q) (released + d) sp'"
        "linked sp' (P(i := ks))" "kept_apart sp P i sp' (P(i := ks))"
        "lots_at (sp_lots sp') ks = lots_at (sp_lots sp) ks" "t \<le> time"
        "capital_total (sp_time sp') = capital_total (sp_time sp) + d * (time - t)"
      using close_loop_pop [OF Cons.prems(1,2) P view 2 Cons.prems(5), of tk released] unfolding taken by blast
    then show ?thesis
    proof cases
      case (2 sp')
      then have "closes sp' (P(i := ks)) i time (released + d) tk kept (close_loop i time (r - q) (released + d) sp')"
        using \<open>q \<le> r\<close> tk Cons.prems(2,4,5) P view
        by (intro Cons.hyps(1)) (simp_all add: kept_apart_def)
      then show ?thesis unfolding taken 2(1) by (rule closes_later [OF _ 2(3,5,6)])
    qed (simp add: closes_def)
  next
    case 3
    then have "taken = [(r, d * r div q, t)]" "kept = (q - r, d - d * r div q, t) # lots_at (sp_lots sp) ks"
      using Cons.prems(6) P view by auto
    then show ?thesis using close_loop_part [OF Cons.prems(1,2) P view 3 Cons.prems(5)] by simp
  qed
qed


subsection \<open>Each operation on the queues\<close>

text \<open>The other positions' lots, and the invariant, after a change of the lots of position \<open>i\<close>.\<close>

definition only_lots_of :: "nat \<Rightarrow> held_lot list \<Rightarrow> study_positions \<Rightarrow> study_positions \<Rightarrow> bool" where
  "only_lots_of i ls sp sp' \<longleftrightarrow>
     positions_ok sp' \<and> length (sp_positions sp') = length (sp_positions sp) \<and>
     (\<forall>j < length (sp_positions sp). lots_of sp' j = (if j = i then ls else lots_of sp j))"

lemma positions_okD:
  assumes "positions_ok sp"
  shows "linked sp (owned sp)" "capital_ok (sp_time sp)"
    "\<And>i. i < length (sp_positions sp) \<Longrightarrow> ps_quantity (sp_positions sp ! i) = lots_quantity (lots_of sp i)"
    "\<And>i. i < length (sp_positions sp) \<Longrightarrow> lots_quantity (lots_of sp i) \<le> quantity_limit"
    "\<And>i. i < length (sp_positions sp) \<Longrightarrow> lots_ok (lots_of sp i)"
  using assms linkedD(4) [of sp "owned sp"] by (auto simp: positions_ok_def lots_of_def linked_capital)

lemma linked_same:
  assumes "linked sp P" "sp_lots sp' = sp_lots sp" "sp_time sp' = sp_time sp"
    and "length (sp_positions sp') = length (sp_positions sp)"
    and "\<And>i. i < length (sp_positions sp) \<Longrightarrow> ps_head (sp_positions sp' ! i) = ps_head (sp_positions sp ! i) \<and>
      ps_tail (sp_positions sp' ! i) = ps_tail (sp_positions sp ! i)"
  shows "linked sp' P"
  using assms by (simp add: linked_def)

definition same_legs :: "study_positions \<Rightarrow> study_positions \<Rightarrow> bool" where
  "same_legs sp sp' \<longleftrightarrow> (\<forall>j < length (sp_positions sp). ps_leg (sp_positions sp' ! j) = ps_leg (sp_positions sp ! j))"

lemma close_position_refines:
  assumes ok: "positions_ok sp" and i: "i < length (sp_positions sp)"
    and q: "0 \<le> q" "q \<le> ps_quantity (sp_positions sp ! i)" and time: "time \<le> int64_max"
    and take: "fifo_take q (lots_of sp i) = (taken, kept)"
  shows "\<exists>res. close_position i q time sp = Some res \<and>
    yields (capital_error time taken (sp_time sp))
      (\<lambda>(released, sp'). released = lots_cost taken \<and> only_lots_of i kept sp sp' \<and> same_legs sp sp' \<and>
         capital_total (sp_time sp') = capital_total (sp_time sp) + lots_capital time taken) res"
proof -
  note inv = positions_okD [OF ok]
  have "closes sp (owned sp) i time 0 taken kept (close_loop i time q 0 sp)"
    using q inv(3) [OF i] take by (intro close_loop_refines [OF inv(1) i _ _ time]) (simp_all add: lots_of_def)
  then obtain res where res: "close_loop i time q 0 sp = Some res" and
    y: "yields (capital_error time taken (sp_time sp))
      (\<lambda>(rel, sp'). rel = 0 + lots_cost taken \<and>
         capital_total (sp_time sp') = capital_total (sp_time sp) + lots_capital time taken \<and>
         (\<exists>P'. linked sp' P' \<and> kept_apart sp (owned sp) i sp' P' \<and> lots_at (sp_lots sp') (P' i) = kept)) res"
    unfolding closes_def by blast
  show ?thesis
  proof (cases res)
    case (Inl e)
    with y res q show ?thesis by (simp add: close_position_def)
  next
    case (Inr r)
    obtain rel sp' where r: "r = (rel, sp')" by (cases r)
    obtain P' where sp': "linked sp' P'" "kept_apart sp (owned sp) i sp' P'" "lots_at (sp_lots sp') (P' i) = kept"
      and total: "rel = lots_cost taken" "capital_total (sp_time sp') = capital_total (sp_time sp) + lots_capital time taken"
      using y Inr r by auto
    define sp'' where "sp'' = sp'\<lparr>sp_positions := (sp_positions sp')[i :=
      (sp_positions sp' ! i)\<lparr>ps_quantity := ps_quantity (sp_positions sp' ! i) - q\<rparr>]\<rparr>"
    have linked: "linked sp'' P'"
      using i sp'(2) by (intro linked_same [OF sp'(1)]) (auto simp: sp''_def kept_apart_def nth_list_update)
    have len: "length (sp_positions sp'') = length (sp_positions sp)" using sp'(2) by (simp add: sp''_def kept_apart_def)
    have lots: "lots_at (sp_lots sp'') (P' j) = (if j = i then kept else lots_of sp j)" if "j < length (sp_positions sp)" for j
      using sp'(2,3) that by (simp add: sp''_def kept_apart_def lots_of_def)
    have quantity: "ps_quantity (sp_positions sp'' ! j) = (if j = i then ps_quantity (sp_positions sp ! j) - q else ps_quantity (sp_positions sp ! j))"
      if "j < length (sp_positions sp)" for j
      using sp'(2) that by (simp add: sp''_def kept_apart_def nth_list_update)
    have "lots_quantity kept = lots_quantity (lots_of sp i) - q"
      using fifo_take_conserves [OF inv(5) [OF i] _ _ take] q inv(3) [OF i] by simp
    then have "positions_ok sp''"
      using q inv(3,4) inv(4) [OF i] by (intro positions_okI [OF linked]) (auto simp: len lots quantity)
    then have "only_lots_of i kept sp sp''"
      using lots linked_owned [OF linked] by (auto simp: only_lots_of_def len lots_of_def)
    moreover have "same_legs sp sp''"
      using i sp'(2) by (simp add: same_legs_def sp''_def kept_apart_def nth_list_update)
    ultimately show ?thesis using total res q Inr r
      by (simp add: close_position_def sp''_def Let_def)
  qed
qed

lemma position_index_Inr: "position_index attempt leg sp = Inr i \<longleftrightarrow> i = attempt * 2 + leg \<and> i < length (sp_positions sp)"
  by (auto simp: position_index_def)

text \<open>Claim C19. A close sells the oldest lots first, exactly as the list specification, and returns.\<close>

theorem close_first_in_first_out:
  assumes "positions_ok sp" "attempt * 2 + leg < length (sp_positions sp)"
    and "0 \<le> q" "q \<le> lots_quantity (lots_of sp (attempt * 2 + leg))" "time \<le> int64_max"
    and "fifo_take q (lots_of sp (attempt * 2 + leg)) = (taken, kept)"
  shows "\<exists>res. close attempt leg q time sp = Some res \<and>
    yields (capital_error time taken (sp_time sp))
      (\<lambda>(released, sp'). released = lots_cost taken \<and> only_lots_of (attempt * 2 + leg) kept sp sp' \<and> same_legs sp sp' \<and>
         released + lots_cost (lots_of sp' (attempt * 2 + leg)) = lots_cost (lots_of sp (attempt * 2 + leg)) \<and>
         capital_total (sp_time sp') = capital_total (sp_time sp) + lots_capital time taken) res"
proof -
  note inv = positions_okD [OF assms(1)]
  have "q \<le> ps_quantity (sp_positions sp ! (attempt * 2 + leg))" using assms(4) inv(3) [OF assms(2)] by simp
  from close_position_refines [OF assms(1,2,3) this assms(5,6)]
  obtain res where res: "close_position (attempt * 2 + leg) q time sp = Some res" and
    y: "yields (capital_error time taken (sp_time sp))
      (\<lambda>(released, sp'). released = lots_cost taken \<and> only_lots_of (attempt * 2 + leg) kept sp sp' \<and> same_legs sp sp' \<and>
         capital_total (sp_time sp') = capital_total (sp_time sp) + lots_capital time taken) res"
    by blast
  have "lots_cost taken + lots_cost kept = lots_cost (lots_of sp (attempt * 2 + leg))"
    using fifo_take_conserves [OF inv(5) [OF assms(2)] assms(3,4,6)] by simp
  then have "yields (capital_error time taken (sp_time sp))
      (\<lambda>(released, sp'). released = lots_cost taken \<and> only_lots_of (attempt * 2 + leg) kept sp sp' \<and> same_legs sp sp' \<and>
         released + lots_cost (lots_of sp' (attempt * 2 + leg)) = lots_cost (lots_of sp (attempt * 2 + leg)) \<and>
         capital_total (sp_time sp') = capital_total (sp_time sp) + lots_capital time taken) res"
    using assms(2) by (intro yields_mono [OF y]) (auto simp: only_lots_of_def)
  then show ?thesis using res assms(2) by (simp add: close_def position_index_def)
qed


text \<open>Acquisition appends: the new lot is the last of the vector and of its chain.\<close>

lemma chain_snoc:
  assumes "chain lots start ks" "distinct ks" "length lots' = Suc (length lots)" "lo_next (lots' ! length lots) = None"
    and "\<And>k. k < length lots \<Longrightarrow> lo_next (lots' ! k) = (if ks \<noteq> [] \<and> k = last ks then Some (length lots) else lo_next (lots ! k))"
  shows "chain lots' (if ks = [] then Some (length lots) else start) (ks @ [length lots])"
  using assms(1,2,5)
proof (induction ks arbitrary: start)
  case (Cons k ks)
  then have k: "k < length lots" "start = Some k" "chain lots (lo_next (lots ! k)) ks" by auto
  show ?case
  proof (cases "ks = []")
    case True
    with k Cons.prems(3) [of k] assms(3,4) show ?thesis by simp
  next
    case False
    then have "chain lots' (lo_next (lots ! k)) (ks @ [length lots])"
      using Cons.IH [OF k(3)] Cons.prems(2,3) by simp
    moreover have "lo_next (lots' ! k) = lo_next (lots ! k)"
      using Cons.prems(2) Cons.prems(3) [of k] k(1) False last_in_set [OF False] by auto
    ultimately show ?thesis using k assms(3) by simp
  qed
qed (use assms(3,4) in simp)

definition with_lot :: "nat \<Rightarrow> leg_template \<Rightarrow> int \<Rightarrow> int \<Rightarrow> int \<Rightarrow> study_positions \<Rightarrow> study_positions" where
  "with_lot i leg q d time sp =
     (let p = sp_positions sp ! i; n = length (sp_lots sp) in
      sp\<lparr>sp_positions := (sp_positions sp)[i := p\<lparr>ps_leg := leg, ps_quantity := ps_quantity p + q,
            ps_head := (case ps_head p of None \<Rightarrow> Some n | Some h \<Rightarrow> Some h), ps_tail := Some n\<rparr>],
         sp_lots := (case ps_tail p of None \<Rightarrow> sp_lots sp | Some t \<Rightarrow> (sp_lots sp)[t := (sp_lots sp ! t)\<lparr>lo_next := Some n\<rparr>]) @
            [\<lparr>lo_quantity = q, lo_debit = d, lo_acquired = time, lo_next = None\<rparr>]\<rparr>)"

lemma acquire_eq:
  "attempt * 2 + leg < length (sp_positions sp) \<Longrightarrow>
   acquire attempt leg template q d time sp =
     (if q \<le> 0 \<or> quantity_limit - ps_quantity (sp_positions sp ! (attempt * 2 + leg)) < q \<or> d < 0 \<or> cash_limit < d
      then Inl ''position acquisition bound'' else Inr (with_lot (attempt * 2 + leg) template q d time sp))"
  by (simp add: acquire_def position_index_def with_lot_def Let_def)

lemma with_lot_lots:
  fixes leg q d time
  assumes ok: "linked sp P" and i: "i < length (sp_positions sp)"
  defines "sp' \<equiv> with_lot i leg q d time sp"
  shows "length (sp_lots sp') = Suc (length (sp_lots sp))" "length (sp_positions sp') = length (sp_positions sp)"
    "sp_time sp' = sp_time sp"
    "\<And>k. k < length (sp_lots sp) \<Longrightarrow> lot_view (sp_lots sp' ! k) = lot_view (sp_lots sp ! k)"
    "\<And>k. k < length (sp_lots sp) \<Longrightarrow> lo_next (sp_lots sp' ! k) =
       (if P i \<noteq> [] \<and> k = last (P i) then Some (length (sp_lots sp)) else lo_next (sp_lots sp ! k))"
    "sp_lots sp' ! length (sp_lots sp) = \<lparr>lo_quantity = q, lo_debit = d, lo_acquired = time, lo_next = None\<rparr>"
    "\<And>j. j < length (sp_positions sp) \<Longrightarrow> j \<noteq> i \<Longrightarrow> sp_positions sp' ! j = sp_positions sp ! j"
    "sp_positions sp' ! i = (sp_positions sp ! i)\<lparr>ps_leg := leg, ps_quantity := ps_quantity (sp_positions sp ! i) + q,
       ps_head := (if P i = [] then Some (length (sp_lots sp)) else ps_head (sp_positions sp ! i)),
       ps_tail := Some (length (sp_lots sp))\<rparr>"
proof -
  have head: "ps_head (sp_positions sp ! i) = None \<longleftrightarrow> P i = []"
    using linkedD(1) [OF ok i] by (cases "P i") auto
  have tail: "ps_tail (sp_positions sp ! i) = (if P i = [] then None else Some (last (P i)))"
    by (rule linkedD(3) [OF ok i])
  note defs = sp'_def with_lot_def Let_def
  show "length (sp_lots sp') = Suc (length (sp_lots sp))" "length (sp_positions sp') = length (sp_positions sp)"
    "sp_time sp' = sp_time sp"
    by (simp_all add: defs split: option.split)
  show "lot_view (sp_lots sp' ! k) = lot_view (sp_lots sp ! k)"
    "lo_next (sp_lots sp' ! k) = (if P i \<noteq> [] \<and> k = last (P i) then Some (length (sp_lots sp)) else lo_next (sp_lots sp ! k))"
    if "k < length (sp_lots sp)" for k
    using that by (cases "k = last (P i)"; auto simp: defs tail nth_append lot_view_def)+
  show "sp_lots sp' ! length (sp_lots sp) = \<lparr>lo_quantity = q, lo_debit = d, lo_acquired = time, lo_next = None\<rparr>"
    by (simp add: defs nth_append split: option.split)
  show "sp_positions sp' ! j = sp_positions sp ! j" if "j < length (sp_positions sp)" "j \<noteq> i" for j
    using that by (simp add: defs)
  show "sp_positions sp' ! i = (sp_positions sp ! i)\<lparr>ps_leg := leg, ps_quantity := ps_quantity (sp_positions sp ! i) + q,
       ps_head := (if P i = [] then Some (length (sp_lots sp)) else ps_head (sp_positions sp ! i)),
       ps_tail := Some (length (sp_lots sp))\<rparr>"
    using i head by (auto simp: defs split: option.split)
qed

lemma linked_with_lot:
  assumes ok: "linked sp P" and i: "i < length (sp_positions sp)"
    and lot: "0 < q" "0 \<le> d" "d \<le> cash_limit" "0 \<le> time" "time \<le> int64_max"
  shows "linked (with_lot i leg q d time sp) (P(i := P i @ [length (sp_lots sp)]))" (is "linked ?sp ?P")
proof -
  note new = with_lot_lots [OF ok i, where leg = leg and q = q and d = d and time = time]
  note old = linkedD [OF ok]
  let ?n = "length (sp_lots sp)"
  have fresh: "?n \<notin> set (P j)" if "j < length (sp_positions sp)" for j
    using old(5) [OF that] by auto
  have other: "chain (sp_lots ?sp) (ps_head (sp_positions sp ! j)) (P j)"
    if j: "j < length (sp_positions sp)" "j \<noteq> i" for j
  proof (rule chain_cong [OF old(1) [OF j(1)]])
    fix k assume k: "k \<in> set (P j)"
    then have "k < ?n" using old(5) [OF j(1)] by auto
    moreover have "P i \<noteq> [] \<Longrightarrow> k \<noteq> last (P i)" using old(6) [OF i j(1)] j(2) k last_in_set [of "P i"] by blast
    ultimately show "lo_next (sp_lots ?sp ! k) = lo_next (sp_lots sp ! k)" using new(5) by auto
  qed (simp add: new)
  have own: "chain (sp_lots ?sp) (ps_head (sp_positions ?sp ! i)) (P i @ [?n])"
    using chain_snoc [OF old(1,2) [OF i] new(1)] new(5,6) by (simp add: new(8))
  have view: "lots_at (sp_lots ?sp) (P j) = lots_at (sp_lots sp) (P j)" if "j < length (sp_positions sp)" for j
    using old(5) [OF that] new(4) by (intro lots_at_cong) auto
  have free: "lo_quantity (sp_lots ?sp ! k) = 0"
    if k: "k < Suc ?n" "\<forall>j < length (sp_positions sp). k \<notin> set (?P j)" for k
  proof -
    have "k \<noteq> ?n" using k(2) i by auto
    moreover have "k \<notin> set (P j)" if "j < length (sp_positions sp)" for j
      using k(2) that by (cases "j = i") auto
    ultimately show ?thesis using k(1) linked_free [OF ok, of k] new(4) [of k] by (simp add: lot_view_def)
  qed
  show ?thesis
    unfolding linked_def new(1,2,3)
  proof (intro conjI allI impI)
    fix j assume j: "j < length (sp_positions sp)"
    show "chain (sp_lots ?sp) (ps_head (sp_positions ?sp ! j)) (?P j)"
      using own other j new(7) by auto
    show "distinct (?P j)" using old(2) [OF j] fresh [OF j] by auto
    show "ps_tail (sp_positions ?sp ! j) = (if ?P j = [] then None else Some (last (?P j)))"
      using old(3) [OF j] new(7) j by (auto simp: new(8))
    show "lots_ok (lots_at (sp_lots ?sp) (?P j))"
      using old(4) [OF j] view [OF j] lot by (auto simp: new(6) lot_view_def)
    fix m assume "m < length (sp_positions sp)" "j \<noteq> m"
    then show "set (?P j) \<inter> set (?P m) = {}" using old(6) [OF j] fresh j by auto
  qed (use free linked_capital [OF ok] in auto)
qed

lemma with_lot_refines:
  assumes ok: "positions_ok sp" and i: "i < length (sp_positions sp)" and t: "0 \<le> time" "time \<le> int64_max"
    and q: "0 < q" "lots_quantity (lots_of sp i) + q \<le> quantity_limit" and d: "0 \<le> d" "d \<le> cash_limit"
  shows "only_lots_of i (lots_of sp i @ [(q, d, time)]) sp (with_lot i template q d time sp)"
proof -
  let ?sp = "with_lot i template q d time sp"
  note inv = positions_okD [OF ok]
  note new = with_lot_lots [OF inv(1) i, where leg = template and q = q and d = d and time = time]
  have linked: "linked ?sp ((owned sp)(i := owned sp i @ [length (sp_lots sp)]))"
    by (rule linked_with_lot [OF inv(1) i q(1) d t])
  have lots: "lots_at (sp_lots ?sp) (((owned sp)(i := owned sp i @ [length (sp_lots sp)])) j) =
      (if j = i then lots_of sp i @ [(q, d, time)] else lots_of sp j)" if j: "j < length (sp_positions sp)" for j
  proof -
    have "lots_at (sp_lots ?sp) (owned sp j) = lots_of sp j"
      unfolding lots_of_def using linkedD(5) [OF inv(1) j] new(4) by (intro lots_at_cong) auto
    then show ?thesis by (cases "j = i") (simp_all add: new(6) lot_view_def)
  qed
  have "positions_ok ?sp"
    using q inv(3,4) lots new by (intro positions_okI [OF linked]) (auto simp: new(2))
  then show ?thesis
    using lots linked_owned [OF linked] by (auto simp: only_lots_of_def new(2) lots_of_def)
qed

text \<open>An acquisition appends its lot to the position, and fails exactly beyond the bounds.\<close>

theorem acquire_appends:
  assumes ok: "positions_ok sp" and i: "attempt * 2 + leg < length (sp_positions sp)" and t: "0 \<le> time" "time \<le> int64_max"
  shows "if 0 < q \<and> lots_quantity (lots_of sp (attempt * 2 + leg)) + q \<le> quantity_limit \<and> 0 \<le> d \<and> d \<le> cash_limit
    then \<exists>sp'. acquire attempt leg template q d time sp = Inr sp' \<and> sp_time sp' = sp_time sp \<and>
       only_lots_of (attempt * 2 + leg) (lots_of sp (attempt * 2 + leg) @ [(q, d, time)]) sp sp' \<and>
       ps_leg (sp_positions sp' ! (attempt * 2 + leg)) = template
    else acquire attempt leg template q d time sp = Inl ''position acquisition bound''"
  using with_lot_refines [OF ok i t, of q d template]
    with_lot_lots(3,8) [OF positions_okD(1) [OF ok] i, where leg = template and q = q and d = d and time = time]
  by (auto simp: acquire_eq [OF i] positions_okD(3) [OF ok i])


subsection \<open>Settlement\<close>

lemma fifo_take_all: "lots_ok ls \<Longrightarrow> fifo_take (lots_quantity ls) ls = (ls, [])"
proof (induction ls)
  case (Cons l ls)
  then show ?case using lots_quantity_nonneg [of ls] by (cases l) auto
qed simp

definition due_position :: "market_settlement \<Rightarrow> study_positions \<Rightarrow> nat \<Rightarrow> bool" where
  "due_position st sp i \<longleftrightarrow> lt_market (ps_leg (sp_positions sp ! i)) = st_market_id st"

definition winning_position :: "market_settlement \<Rightarrow> study_positions \<Rightarrow> nat \<Rightarrow> bool" where
  "winning_position st sp i \<longleftrightarrow> due_position st sp i \<and> (lt_outcome (ps_leg (sp_positions sp ! i)) = Outcome_Yes) = st_yes_wins st"

definition settled_lots :: "market_settlement \<Rightarrow> study_positions \<Rightarrow> nat list \<Rightarrow> held_lot list" where
  "settled_lots st sp js = concat (map (lots_of sp) (filter (due_position st sp) js))"

definition winning_lots :: "market_settlement \<Rightarrow> study_positions \<Rightarrow> nat list \<Rightarrow> held_lot list" where
  "winning_lots st sp js = concat (map (lots_of sp) (filter (winning_position st sp) js))"

lemma lots_capital_append [simp]:
  "lots_capital time (xs @ ys) = lots_capital time xs + lots_capital time ys"
  "lots_capital_pos time (xs @ ys) = lots_capital_pos time xs + lots_capital_pos time ys"
  by (simp_all add: lots_capital_def lots_capital_pos_def)

lemma lots_capital_le_pos: "lots_ok ls \<Longrightarrow> lots_capital time ls \<le> lots_capital_pos time ls"
proof (induction ls)
  case (Cons l ls)
  obtain q d t where l: "l = (q, d, t)" by (cases l)
  have "d * (time - t) \<le> d * max 0 (time - t)" using Cons.prems l by (intro mult_left_mono) auto
  with Cons l show ?case by simp
qed simp

lemma capital_error_append1:
  "capital_error time xs ct e \<Longrightarrow> lots_ok ys \<Longrightarrow> capital_error time (xs @ ys) ct e"
  using lots_capital_pos_nonneg [of ys time] by (auto simp: capital_error_def)

lemma capital_error_append2:
  "capital_error time ys ct' e \<Longrightarrow> capital_total ct' = capital_total ct + lots_capital time xs \<Longrightarrow> lots_ok xs \<Longrightarrow>
   capital_error time (xs @ ys) ct e"
  using lots_capital_le_pos [of xs time] by (auto simp: capital_error_def)

lemma lots_ok_concat: "(\<And>i. i \<in> set js \<Longrightarrow> lots_ok (f i)) \<Longrightarrow> lots_ok (concat (map f js))"
  by (induction js) auto


lemma settled_simps [simp]:
  "settled_lots st sp [] = []" "winning_lots st sp [] = []"
  "settled_lots st sp (j # js) = (if due_position st sp j then lots_of sp j else []) @ settled_lots st sp js"
  "winning_lots st sp (j # js) = (if winning_position st sp j then lots_of sp j else []) @ winning_lots st sp js"
  by (simp_all add: settled_lots_def winning_lots_def)

lemma settled_ok:
  assumes "positions_ok sp" "set js \<subseteq> {..<length (sp_positions sp)}"
  shows "lots_ok (settled_lots st sp js)" "lots_ok (winning_lots st sp js)"
  using assms positions_okD(5) [OF assms(1)] by (auto simp: settled_lots_def winning_lots_def intro!: lots_ok_concat)

lemma settled_cong:
  assumes "same_legs sp sp'" "set js \<subseteq> {..<length (sp_positions sp)}" "\<And>j. j \<in> set js \<Longrightarrow> lots_of sp' j = lots_of sp j"
  shows "settled_lots st sp' js = settled_lots st sp js" "winning_lots st sp' js = winning_lots st sp js"
  using assms by (induction js) (auto simp: due_position_def winning_position_def same_legs_def)

text \<open>What settling the positions \<open>js\<close> comes to.\<close>

definition settle_error :: "market_settlement \<Rightarrow> study_positions \<Rightarrow> nat list \<Rightarrow> int \<Rightarrow> string \<Rightarrow> bool" where
  "settle_error st sp js payout e \<longleftrightarrow>
     (e = ''settlement payout bound'' \<and> cash_limit < payout + 10000 * lots_quantity (winning_lots st sp js)) \<or>
     capital_error (st_time st) (settled_lots st sp js) (sp_time sp) e"

definition settled ::
  "market_settlement \<Rightarrow> study_positions \<Rightarrow> nat list \<Rightarrow> int \<Rightarrow> int \<Rightarrow> (int \<times> int) \<times> study_positions \<Rightarrow> bool" where
  "settled st sp js closed payout result \<longleftrightarrow>
     (case result of ((c, p), sp') \<Rightarrow>
        c = closed + lots_quantity (settled_lots st sp js) \<and>
        p = payout + 10000 * lots_quantity (winning_lots st sp js) \<and>
        positions_ok sp' \<and> length (sp_positions sp') = length (sp_positions sp) \<and> same_legs sp sp' \<and>
        (\<forall>i < length (sp_positions sp). lots_of sp' i = (if i \<in> set js \<and> due_position st sp i then [] else lots_of sp i)) \<and>
        capital_total (sp_time sp') = capital_total (sp_time sp) + lots_capital (st_time st) (settled_lots st sp js))"

lemma settle_position_refines:
  assumes ok: "positions_ok sp" and i: "i < length (sp_positions sp)" and time: "st_time st \<le> int64_max"
    and room: "closed + lots_quantity (settled_lots st sp [i]) \<le> int64_max"
  shows "\<exists>res. settle_position st i ((closed, payout), sp) = Some res \<and>
    yields (settle_error st sp [i] payout) (settled st sp [i] closed payout) res"
proof -
  note inv = positions_okD [OF ok]
  let ?q = "ps_quantity (sp_positions sp ! i)"
  have q: "?q = lots_quantity (lots_of sp i)" "0 \<le> ?q"
    using inv(3,5) [OF i] lots_quantity_nonneg by auto
  consider "?q = 0" | "\<not> due_position st sp i" | "?q \<noteq> 0" "due_position st sp i" by blast
  then show ?thesis
  proof cases
    case 1
    then have "lots_of sp i = []" using q lots_quantity_0 [OF inv(5) [OF i]] by simp
    with 1 ok show ?thesis
      by (auto simp: settle_position_def settled_def same_legs_def Let_def)
  next
    case 2
    with ok show ?thesis
      by (auto simp: settle_position_def settled_def same_legs_def Let_def due_position_def winning_position_def)
  next
    case 3
    let ?wins = "(lt_outcome (ps_leg (sp_positions sp ! i)) = Outcome_Yes) = st_yes_wins st"
    have wins: "winning_position st sp i \<longleftrightarrow> ?wins" using 3 by (simp add: winning_position_def)
    have room': "\<not> int64_max - closed < ?q" using room 3 q by simp
    show ?thesis
    proof (cases "?wins \<and> cash_limit - payout < ?q * 10000")
      case True
      with 3 room' wins q show ?thesis
        by (auto simp: settle_position_def Let_def due_position_def settle_error_def)
    next
      case False
      have "fifo_take ?q (lots_of sp i) = (lots_of sp i, [])" using fifo_take_all [OF inv(5) [OF i]] q by simp
      from close_position_refines [OF ok i q(2) order_refl time this] obtain res where
        res: "close_position i ?q (st_time st) sp = Some res" and
        y: "yields (capital_error (st_time st) (lots_of sp i) (sp_time sp))
          (\<lambda>(released, sp'). released = lots_cost (lots_of sp i) \<and> only_lots_of i [] sp sp' \<and> same_legs sp sp' \<and>
             capital_total (sp_time sp') = capital_total (sp_time sp) + lots_capital (st_time st) (lots_of sp i)) res"
        by blast
      have go: "settle_position st i ((closed, payout), sp) = map_option (\<lambda>r. and_then r (\<lambda>(released, sp).
          Inr ((closed + ?q, if ?wins then payout + ?q * 10000 else payout), sp))) (close_position i ?q (st_time st) sp)"
        using 3 room' False by (auto simp: settle_position_def Let_def due_position_def)
      have "yields (settle_error st sp [i] payout) (settled st sp [i] closed payout)
          (and_then res (\<lambda>(released, sp). Inr ((closed + ?q, if ?wins then payout + ?q * 10000 else payout), sp)))"
        using 3 wins q
        by (intro yields_and_then [OF yields_errors [OF y]])
          (auto simp: settle_error_def settled_def only_lots_of_def split: if_split_asm)
      then show ?thesis by (simp add: go res)
    qed
  qed
qed


lemma settle_positions_refine:
  assumes "positions_ok sp" "set js \<subseteq> {..<length (sp_positions sp)}" "distinct js" "st_time st \<le> int64_max"
    and "closed + lots_quantity (settled_lots st sp js) \<le> int64_max"
  shows "\<exists>res. settle_positions st js ((closed, payout), sp) = Some res \<and>
    yields (settle_error st sp js payout) (settled st sp js closed payout) res"
  using assms
proof (induction js arbitrary: sp closed payout)
  case Nil
  then show ?case by (auto simp: settled_def same_legs_def)
next
  case (Cons j js)
  have j: "j < length (sp_positions sp)" using Cons.prems by simp
  have rest: "lots_ok (settled_lots st sp js)" "lots_ok (winning_lots st sp js)"
    using settled_ok [OF Cons.prems(1)] Cons.prems(2) by simp_all
  have first: "lots_ok (settled_lots st sp [j])" using settled_ok [OF Cons.prems(1), of "[j]"] j by simp
  have "closed + lots_quantity (settled_lots st sp [j]) \<le> int64_max"
    using Cons.prems(5) lots_quantity_nonneg [OF rest(1)] by simp
  from settle_position_refines [OF Cons.prems(1) j Cons.prems(4) this]
  obtain r where r: "settle_position st j ((closed, payout), sp) = Some r"
    "yields (settle_error st sp [j] payout) (settled st sp [j] closed payout) r" by blast
  show ?case
  proof (cases r)
    case (Inl e)
    have "settle_error st sp (j # js) payout e"
      using r(2) Inl lots_quantity_nonneg [OF rest(2)] capital_error_append1 [OF _ rest(1)]
      by (fastforce simp: settle_error_def)
    with Inl r(1) show ?thesis by simp
  next
    case (Inr x)
    obtain c p sp' where x: "x = ((c, p), sp')" by (metis prod.collapse)
    have s': "c = closed + lots_quantity (settled_lots st sp [j])" "p = payout + 10000 * lots_quantity (winning_lots st sp [j])"
      "positions_ok sp'" "length (sp_positions sp') = length (sp_positions sp)" "same_legs sp sp'"
      "\<And>i. i < length (sp_positions sp) \<Longrightarrow> lots_of sp' i = (if i = j \<and> due_position st sp i then [] else lots_of sp i)"
      "capital_total (sp_time sp') = capital_total (sp_time sp) + lots_capital (st_time st) (settled_lots st sp [j])"
      using r(2) Inr x by (auto simp: settled_def)
    have same: "settled_lots st sp' js = settled_lots st sp js" "winning_lots st sp' js = winning_lots st sp js"
      using Cons.prems(2,3) s'(6) by (intro settled_cong [OF s'(5)]; force)+
    have due: "due_position st sp' i = due_position st sp i" if "i < length (sp_positions sp)" for i
      using s'(5) that by (simp add: due_position_def same_legs_def)
    obtain res where res: "settle_positions st js ((c, p), sp') = Some res"
      "yields (settle_error st sp' js p) (settled st sp' js c p) res"
      using Cons.IH [OF s'(3), of c p] Cons.prems s'(1,4) same by auto
    have "yields (settle_error st sp (j # js) payout) (settled st sp (j # js) closed payout) res"
    proof (cases res)
      case (Inl e)
      then have "settle_error st sp' js p e" using res(2) by simp
      then have "settle_error st sp (j # js) payout e"
        using capital_error_append2 [OF _ s'(7) first] s'(2) by (auto simp: settle_error_def same)
      with Inl show ?thesis by simp
    next
      case (Inr y)
      with res(2) have "settled st sp' js c p y" by simp
      then have "settled st sp (j # js) closed payout y"
        using s' same due by (auto simp: settled_def same_legs_def split: prod.splits)
      with Inr show ?thesis by simp
    qed
    with res(1) r(1) Inr x show ?thesis by simp
  qed
qed

lemma settle_market_refines:
  assumes "positions_ok sp" "length (sp_positions sp) \<le> 92233720368" "st_time st \<le> int64_max"
  shows "\<exists>res. settle_market st sp = Some res \<and>
    yields (settle_error st sp [0..<length (sp_positions sp)] 0) (settled st sp [0..<length (sp_positions sp)] 0 0) res"
proof -
  have "lots_quantity (settled_lots st sp js) \<le> int (length js) * quantity_limit"
    if "set js \<subseteq> {..<length (sp_positions sp)}" for js
    using that
  proof (induction js)
    case (Cons j js)
    then show ?case using positions_okD(4) [OF assms(1), of j] by (auto simp: distrib_right quantity_limit_def)
  qed simp
  from this [of "[0..<length (sp_positions sp)]"]
  have "lots_quantity (settled_lots st sp [0..<length (sp_positions sp)]) \<le> int (length (sp_positions sp)) * quantity_limit"
    by (simp add: atLeast0LessThan)
  also have "\<dots> \<le> int64_max" using assms(2) by (simp add: limits)
  finally show ?thesis
    unfolding settle_market_def using assms by (intro settle_positions_refine) (simp_all add: atLeast0LessThan)
qed

text \<open>
  Claim C20. A settlement closes every lot of its market and no other, pays one dollar for each contract on
  the winning side, and returns.
\<close>

theorem settlement_exact:
  assumes "positions_ok sp" "length (sp_positions sp) \<le> 92233720368" "st_time st \<le> int64_max"
  shows "\<exists>res. settle_market st sp = Some res \<and>
    yields (settle_error st sp [0..<length (sp_positions sp)] 0) (settled st sp [0..<length (sp_positions sp)] 0 0) res"
  by (rule settle_market_refines [OF assms])


subsection \<open>The vector of lots and the queues\<close>

text \<open>The lots that hold something are those of the queues, once each.\<close>

definition held_lots :: "study_positions \<Rightarrow> held_lot list" where
  "held_lots sp = map lot_view (filter (\<lambda>l. lo_quantity l \<noteq> 0) (sp_lots sp))"

lemma held_lots_queues:
  assumes "positions_ok sp"
  shows "mset (held_lots sp) = mset (concat (map (lots_of sp) [0..<length (sp_positions sp)]))"
proof -
  note linked = positions_okD(1) [OF assms]
  let ?n = "length (sp_positions sp)"
  let ?ks = "filter (\<lambda>k. lo_quantity (sp_lots sp ! k) \<noteq> 0) [0..<length (sp_lots sp)]"
  let ?js = "concat (map (owned sp) [0..<?n])"
  have mem: "k \<in> set ?js \<longleftrightarrow> (\<exists>i < ?n. k \<in> set (owned sp i))" for k by auto
  have held: "lo_quantity (sp_lots sp ! k) \<noteq> 0" "k < length (sp_lots sp)" if "i < ?n" "k \<in> set (owned sp i)" for i k
    using linkedD(4,5) [OF linked that(1)] that(2) by (auto simp: lots_at_def lots_ok_def lot_view_def)
  have "k \<in> set ?ks \<longleftrightarrow> k \<in> set ?js" for k
    using linked_free [OF linked, of k] held [of _ k] unfolding mem by auto
  then have "set ?ks = set ?js" by blast
  moreover have "distinct (concat (map (owned sp) [0..<m]))" if "m \<le> ?n" for m
    using that
  proof (induction m)
    case (Suc m)
    have "x \<notin> set (owned sp i)" if "i < m" "x \<in> set (owned sp m)" for i x
      using linkedD(6) [OF linked, of i m] that Suc.prems by auto
    with Suc linkedD(2) [OF linked, of m] show ?case by auto
  qed simp
  ultimately have "mset ?ks = mset ?js" by (subst set_eq_iff_mset_eq_distinct [symmetric]) simp_all
  then have "mset (map (\<lambda>k. lot_view (sp_lots sp ! k)) ?ks) = mset (map (\<lambda>k. lot_view (sp_lots sp ! k)) ?js)"
    by simp
  moreover have "held_lots sp = map (\<lambda>k. lot_view (sp_lots sp ! k)) ?ks"
    using filter_map [of "\<lambda>l. lo_quantity l \<noteq> 0" "(!) (sp_lots sp)" "[0..<length (sp_lots sp)]"]
    by (simp add: held_lots_def map_nth comp_def)
  moreover have "concat (map (lots_of sp) [0..<?n]) = map (\<lambda>k. lot_view (sp_lots sp ! k)) ?js"
  proof -
    have "lots_of sp = (\<lambda>i. map (\<lambda>k. lot_view (sp_lots sp ! k)) (owned sp i))"
      by (simp add: fun_eq_iff lots_of_def lots_at_def)
    then show ?thesis by (simp add: map_concat comp_def)
  qed
  ultimately show ?thesis by simp
qed


text \<open>What is charged does not depend on the order of the lots.\<close>

lemma lots_permuted:
  assumes "mset xs = mset ys"
  shows "lots_ok xs = lots_ok ys" "lots_capital time xs = lots_capital time ys"
    "capital_error time xs ct e = capital_error time ys ct e" "length xs = length ys"
proof -
  have s: "set xs = set ys" by (rule mset_eq_setD [OF assms])
  have f: "sum_list (map f xs) = sum_list (map f ys)" for f :: "held_lot \<Rightarrow> int"
    using arg_cong [OF assms, of "\<lambda>m. sum_mset (image_mset f m)"] by (simp flip: mset_map sum_mset_sum_list)
  show "lots_ok xs = lots_ok ys" "lots_capital time xs = lots_capital time ys"
    "capital_error time xs ct e = capital_error time ys ct e"
    by (simp_all add: lots_ok_def s lots_capital_def lots_capital_pos_def f capital_error_def)
  show "length xs = length ys" by (rule mset_eq_length [OF assms])
qed

definition charge_lot :: "int \<Rightarrow> lot \<Rightarrow> capital_time \<Rightarrow> string + capital_time" where
  "charge_lot time l ct = (if lo_quantity l \<noteq> 0 then capital_add (lo_debit l) (time - lo_acquired l) ct else Inr ct)"

lemma charge_lots:
  assumes "time \<le> int64_max" "lots_ok (map lot_view (filter (\<lambda>l. lo_quantity l \<noteq> 0) ls))" "capital_ok ct"
  shows "yields (capital_error time (map lot_view (filter (\<lambda>l. lo_quantity l \<noteq> 0) ls)) ct)
      (\<lambda>ct'. capital_ok ct' \<and>
        capital_total ct' = capital_total ct + lots_capital time (map lot_view (filter (\<lambda>l. lo_quantity l \<noteq> 0) ls)))
      (and_fold (charge_lot time) ls ct)"
  using assms(2,3)
proof (induction ls arbitrary: ct)
  case (Cons l ls)
  let ?ls = "map lot_view (filter (\<lambda>l. lo_quantity l \<noteq> 0) ls)"
  have v: "lot_view l = (lo_quantity l, lo_debit l, lo_acquired l)" by (simp add: lot_view_def)
  show ?case
  proof (cases "lo_quantity l = 0")
    case True
    with Cons show ?thesis by (simp add: charge_lot_def)
  next
    case False
    have l: "0 \<le> lo_debit l" "lo_debit l \<le> cash_limit" "0 \<le> lo_acquired l" "lots_ok ?ls"
      using Cons.prems False by (simp_all add: v)
    note first = capital_add_lot [OF l(1-3) assms(1) Cons.prems(2) l(4), of "lo_quantity l"]
    have "yields (capital_error time ((lo_quantity l, lo_debit l, lo_acquired l) # ?ls) ct)
      (\<lambda>ct'. capital_ok ct' \<and>
        capital_total ct' = capital_total ct + lots_capital time ((lo_quantity l, lo_debit l, lo_acquired l) # ?ls))
      (and_then (capital_add (lo_debit l) (time - lo_acquired l) ct) (and_fold (charge_lot time) ls))"
    proof (rule yields_and_then [OF first])
      fix ct'
      assume ct': "capital_ok ct' \<and> lo_acquired l \<le> time \<and>
        capital_total ct' = capital_total ct + lo_debit l * (time - lo_acquired l)"
      have "yields (capital_error time ?ls ct') (\<lambda>ct''. capital_ok ct'' \<and> capital_total ct'' = capital_total ct' + lots_capital time ?ls)
          (and_fold (charge_lot time) ls ct')"
        using Cons.IH [OF l(4)] ct' by blast
      then show "yields (capital_error time ((lo_quantity l, lo_debit l, lo_acquired l) # ?ls) ct)
         (\<lambda>ct'. capital_ok ct' \<and>
            capital_total ct' = capital_total ct + lots_capital time ((lo_quantity l, lo_debit l, lo_acquired l) # ?ls))
         (and_fold (charge_lot time) ls ct')"
        using ct' capital_error_later by (cases "and_fold (charge_lot time) ls ct'") auto
    qed
    moreover have "charge_lot time l ct = capital_add (lo_debit l) (time - lo_acquired l) ct"
      using False by (simp add: charge_lot_def)
    ultimately show ?thesis using False by (simp add: v)
  qed
qed simp

lemma finish_positions_eq:
  "finish_positions time sp = and_then (and_fold (charge_lot time) (sp_lots sp) (sp_time sp)) (\<lambda>ct. Inr (sp\<lparr>sp_time := ct\<rparr>))"
  unfolding finish_positions_def charge_lot_def ..

lemma positions_ok_time: "positions_ok sp \<Longrightarrow> capital_ok ct \<Longrightarrow> positions_ok (sp\<lparr>sp_time := ct\<rparr>)"
  by (rule positions_okI [of _ "owned sp"])
    (auto simp: linked_def lots_of_def positions_ok_def)

lemma finish_positions_refine:
  assumes "positions_ok sp" "time \<le> int64_max"
  shows "unsettled_lots sp = length (concat (map (lots_of sp) [0..<length (sp_positions sp)])) \<and>
    yields (capital_error time (concat (map (lots_of sp) [0..<length (sp_positions sp)])) (sp_time sp))
      (\<lambda>sp'. sp_positions sp' = sp_positions sp \<and> sp_lots sp' = sp_lots sp \<and> positions_ok sp' \<and>
        capital_total (sp_time sp') = capital_total (sp_time sp) +
          lots_capital time (concat (map (lots_of sp) [0..<length (sp_positions sp)])))
      (finish_positions time sp)"
proof -
  let ?held = "concat (map (lots_of sp) [0..<length (sp_positions sp)])"
  note inv = positions_okD [OF assms(1)]
  note held = held_lots_queues [OF assms(1)]
  note perm = lots_permuted [OF held]
  have "lots_ok ?held" using inv(5) by (intro lots_ok_concat) simp
  then have "lots_ok (held_lots sp)" by (simp only: perm(1))
  then have "yields (capital_error time (held_lots sp) (sp_time sp))
      (\<lambda>ct. capital_ok ct \<and> capital_total ct = capital_total (sp_time sp) + lots_capital time (held_lots sp))
      (and_fold (charge_lot time) (sp_lots sp) (sp_time sp))"
    unfolding held_lots_def using inv(2) by (intro charge_lots [OF assms(2)])
  then have "yields (capital_error time ?held (sp_time sp))
      (\<lambda>ct. capital_ok ct \<and> capital_total ct = capital_total (sp_time sp) + lots_capital time ?held)
      (and_fold (charge_lot time) (sp_lots sp) (sp_time sp))"
    by (simp only: perm(2) ext [OF perm(3)])
  then have "yields (capital_error time ?held (sp_time sp))
      (\<lambda>sp'. sp_positions sp' = sp_positions sp \<and> sp_lots sp' = sp_lots sp \<and> positions_ok sp' \<and>
        capital_total (sp_time sp') = capital_total (sp_time sp) + lots_capital time ?held)
      (finish_positions time sp)"
    unfolding finish_positions_eq
    by (rule yields_and_then) (simp add: positions_ok_time [OF assms(1)])
  moreover have "unsettled_lots sp = length ?held"
    using perm(4) by (simp add: unsettled_lots_def held_lots_def)
  ultimately show ?thesis by blast
qed

text \<open>Claim C21. The end of the observation counts the lots still held and charges each up to that time.\<close>

theorem finish_exact:
  assumes "positions_ok sp" "time \<le> int64_max"
  shows "unsettled_lots sp = length (concat (map (lots_of sp) [0..<length (sp_positions sp)])) \<and>
    yields (capital_error time (concat (map (lots_of sp) [0..<length (sp_positions sp)])) (sp_time sp))
      (\<lambda>sp'. sp_positions sp' = sp_positions sp \<and> sp_lots sp' = sp_lots sp \<and> positions_ok sp' \<and>
        capital_total (sp_time sp') = capital_total (sp_time sp) +
          lots_capital time (concat (map (lots_of sp) [0..<length (sp_positions sp)])))
      (finish_positions time sp)"
  by (rule finish_positions_refine [OF assms])

lemma reserve_ok: "positions_ok (reserve_positions n no_positions)"
  by (rule positions_okI [of _ "\<lambda>i. []"])
    (simp_all add: linked_def reserve_positions_def no_positions_def empty_position_def no_capital_time_def
      capital_ok_def limits)


subsection \<open>An example\<close>

text \<open>Two lots of the first leg, one of the second: 3 contracts of market 7, then 2 of market 8.\<close>

definition example_positions :: study_positions where
  "example_positions =
     with_lot 1 \<lparr>lt_market = 8, lt_outcome = Outcome_No\<rparr> 200 900000 30
       (with_lot 0 \<lparr>lt_market = 7, lt_outcome = Outcome_Yes\<rparr> 200 860001 20
         (with_lot 0 \<lparr>lt_market = 7, lt_outcome = Outcome_Yes\<rparr> 100 410000 10 (reserve_positions 1 no_positions)))"

lemma example_positions_lots:
  "length (sp_positions example_positions) = 2"
  "lots_of example_positions 0 = [(100, 410000, 10), (200, 860001, 20)]"
  "lots_of example_positions 1 = [(200, 900000, 30)]"
  by code_simp+

lemma with_lot_ok:
  assumes "positions_ok sp" "i < length (sp_positions sp)" "0 \<le> time" "time \<le> int64_max"
    and "0 < q" "lots_quantity (lots_of sp i) + q \<le> quantity_limit" "0 \<le> d" "d \<le> cash_limit"
  shows "positions_ok (with_lot i template q d time sp)"
  using with_lot_refines [OF assms] by (simp add: only_lots_of_def)

lemma example_positions_ok: "positions_ok example_positions"
proof -
  define s0 where "s0 = reserve_positions 1 no_positions"
  define s1 where "s1 = with_lot 0 \<lparr>lt_market = 7, lt_outcome = Outcome_Yes\<rparr> 100 410000 10 s0"
  define s2 where "s2 = with_lot 0 \<lparr>lt_market = 7, lt_outcome = Outcome_Yes\<rparr> 200 860001 20 s1"
  have 0: "length (sp_positions s0) = 2" "lots_of s0 0 = []"
    unfolding s0_def by code_simp+
  have 1: "length (sp_positions s1) = 2" "lots_of s1 0 = [(100, 410000, 10)]"
    unfolding s1_def s0_def by code_simp+
  have 2: "length (sp_positions s2) = 2" "lots_of s2 1 = []"
    unfolding s2_def s1_def s0_def by code_simp+
  have "positions_ok s0" unfolding s0_def by (rule reserve_ok)
  then have "positions_ok s1" unfolding s1_def by (rule with_lot_ok) (simp_all add: 0 limits)
  then have "positions_ok s2" unfolding s2_def by (rule with_lot_ok) (simp_all add: 1 limits)
  then show ?thesis
    unfolding example_positions_def s0_def [symmetric] s1_def [symmetric] s2_def [symmetric]
    by (rule with_lot_ok) (simp_all add: 2 [simplified] limits)
qed

theorem close_first_in_first_out_witness:
  "\<exists>res. close 0 0 150 1000 example_positions = Some res \<and>
    yields (capital_error 1000 [(100, 410000, 10), (50, 215000, 20)] (sp_time example_positions))
      (\<lambda>(released, sp'). released = 625000 \<and>
         only_lots_of 0 [(150, 645001, 20)] example_positions sp' \<and> same_legs example_positions sp' \<and>
         released + lots_cost (lots_of sp' 0) = 1270001 \<and>
         capital_total (sp_time sp') = capital_total (sp_time example_positions) + (410000 * 990 + 215000 * 980)) res"
  using close_first_in_first_out [of example_positions 0 0 150 1000 "[(100, 410000, 10), (50, 215000, 20)]" "[(150, 645001, 20)]"]
  by (simp add: example_positions_ok example_positions_lots limits)

theorem acquire_appends_witness:
  "\<exists>sp'. acquire 0 1 \<lparr>lt_market = 8, lt_outcome = Outcome_No\<rparr> 100 500000 40 example_positions = Inr sp' \<and>
     sp_time sp' = sp_time example_positions \<and>
     only_lots_of 1 [(200, 900000, 30), (100, 500000, 40)] example_positions sp' \<and>
     ps_leg (sp_positions sp' ! 1) = \<lparr>lt_market = 8, lt_outcome = Outcome_No\<rparr>"
  using acquire_appends [of example_positions 0 1 40 100 500000 "\<lparr>lt_market = 8, lt_outcome = Outcome_No\<rparr>"]
  by (simp add: example_positions_ok example_positions_lots [simplified] limits)

theorem settlement_exact_witness:
  "\<exists>res. settle_market \<lparr>st_market_id = 7, st_yes_wins = True, st_time = 1000\<rparr> example_positions = Some res \<and>
    yields (settle_error \<lparr>st_market_id = 7, st_yes_wins = True, st_time = 1000\<rparr> example_positions [0..<2] 0)
      (settled \<lparr>st_market_id = 7, st_yes_wins = True, st_time = 1000\<rparr> example_positions [0..<2] 0 0) res \<and>
    lots_quantity (winning_lots \<lparr>st_market_id = 7, st_yes_wins = True, st_time = 1000\<rparr> example_positions [0..<2]) = 300"
proof -
  have "lots_quantity (winning_lots \<lparr>st_market_id = 7, st_yes_wins = True, st_time = 1000\<rparr> example_positions [0..<2]) = 300"
    by code_simp
  then show ?thesis
    using settlement_exact [of example_positions "\<lparr>st_market_id = 7, st_yes_wins = True, st_time = 1000\<rparr>"]
    by (simp only: example_positions_lots example_positions_ok simp_thms market_settlement.simps limits)
qed

theorem finish_exact_witness:
  "unsettled_lots example_positions = 3 \<and>
    yields (capital_error 50 [(100, 410000, 10), (200, 860001, 20), (200, 900000, 30)] (sp_time example_positions))
      (\<lambda>sp'. sp_positions sp' = sp_positions example_positions \<and> sp_lots sp' = sp_lots example_positions \<and>
        positions_ok sp' \<and>
        capital_total (sp_time sp') = capital_total (sp_time example_positions) + (410000 * 40 + 860001 * 30 + 900000 * 20))
      (finish_positions 50 example_positions)"
proof -
  have "concat (map (lots_of example_positions) [0..<2]) = [(100, 410000, 10), (200, 860001, 20), (200, 900000, 30)]"
    by (simp add: example_positions_lots [simplified] upt_rec numeral_2_eq_2)
  then show ?thesis
    using finish_exact [of example_positions 50] by (simp add: example_positions_ok example_positions_lots(1) limits)
qed

end
