(* ===== verification/Pair_Execution.thy ===== *)
theory Pair_Execution
  imports Pair_Sizing Study_Positions
begin

text \<open>
  The paired execution study of \<open>src/session/execution_study.cpp\<close>: at most one attempt per constraint
  buys the two legs of its guaranteed portfolio. Without a lifecycle policy both orders arrive after their
  latencies and are known at once; with one, arrivals and responses are events, the second leg may be
  completed step by step, what is left unpaired may be sold once, and markets settle by label. The
  policy record is that of \<open>session/study_policy.hpp\<close>; its JSON text and digest play no part.
  The output stream is the list of rows. A pair of the code's \<open>std::array<T, 2>\<close> is a pair.
  Results that may not return are options of sums.
\<close>

subsection \<open>Results\<close>

type_synonym 'a outcome = "(string + 'a) option"

definition run_then :: "'a outcome \<Rightarrow> ('a \<Rightarrow> 'b outcome) \<Rightarrow> 'b outcome" where
  "run_then r f = (case r of None \<Rightarrow> None | Some (Inl e) \<Rightarrow> Some (Inl e) | Some (Inr x) \<Rightarrow> f x)"

lemma run_then_simps [simp]:
  "run_then None f = None" "run_then (Some (Inl e)) f = Some (Inl e)" "run_then (Some (Inr x)) f = f x"
  by (simp_all add: run_then_def)

definition pick :: "nat \<Rightarrow> 'a \<times> 'a \<Rightarrow> 'a" where
  "pick leg p = (if leg = 0 then fst p else snd p)"

definition place :: "nat \<Rightarrow> 'a \<Rightarrow> 'a \<times> 'a \<Rightarrow> 'a \<times> 'a" where
  "place leg x p = (if leg = 0 then (x, snd p) else (fst p, x))"


subsection \<open>Policy\<close>

record lifecycle_policy =
  lp_sequential :: bool
  lp_reverse_legs :: bool
  lp_response_latency :: "int \<times> int"
  lp_completion_timeout :: int
  lp_completion_loss_limit :: int
  lp_maximum_completion_orders :: u64
  lp_settlements :: "market_settlement list"

record residual_exit_policy =
  re_reduce :: bool
  re_reject :: bool
  re_latency :: int
  re_response_latency :: int
  re_timeout :: int
  re_minimum_price :: int
  re_fill_bps :: int

record study_policy =
  sy_lifecycle :: "lifecycle_policy option"
  sy_residual_exit :: "residual_exit_policy option"
  sy_optimal_sizing :: bool
  sy_max_sizing_evaluations :: u64
  sy_capital :: int
  sy_operating_cost :: int
  sy_quantity_cap :: int
  sy_quantity_step :: int
  sy_min_margin :: int
  sy_max_age :: int
  sy_latency :: "int \<times> int"
  sy_reject :: "bool \<times> bool"
  sy_fill_bps :: int
  sy_fees :: "market_id \<rightharpoonup> fee_policy"


subsection \<open>State\<close>

type_synonym leg_pair = "leg_template \<times> leg_template"

record execution =
  ex_quantity :: int
  ex_notional :: int
  ex_debit :: int
  ex_credit :: int
  ex_worst_price :: int
  ex_levels :: u64

definition no_execution :: execution where
  "no_execution = \<lparr>ex_quantity = 0, ex_notional = 0, ex_debit = 0, ex_credit = 0, ex_worst_price = 0, ex_levels = 0\<rparr>"

type_synonym depletion_key = "market_id \<times> contract_outcome \<times> int"

record pair_attempt =
  pa_id :: constraint_id
  pa_legs :: leg_pair
  pa_generation :: connection_generation
  pa_quantity :: int
  pa_limit :: "int \<times> int"
  pa_reserve :: "int \<times> int"
  pa_fills :: "execution \<times> execution"
  pa_started :: int
  pa_completion_orders :: u64
  pa_pending_buys :: nat
  pa_exit_considered :: bool

record pending_order =
  pd_arrival :: int
  pd_attempt :: nat
  pd_leg :: nat

record lifecycle_order =
  or_attempt :: nat
  or_leg :: nat
  or_quantity :: int
  or_limit :: int
  or_reserve :: int
  or_fill :: execution
  or_arrived :: bool
  or_responded :: bool
  or_sell :: bool

record lifecycle_event =
  le_time :: int
  le_order :: nat
  le_response :: bool

datatype pair_row =
  Pair_Start_Row bool
| Decision_Row int constraint_id int "int \<times> int" int int int
| Pending_Arrival_Row constraint_id nat int
| Ioc_Complete_Row constraint_id nat int int int
| Buy_Fill_Row leg_template int int fill_charge
| Sell_Fill_Row leg_template int int fill_credit
| Intent_Row bool nat nat nat int int int int
| Arrival_Row bool nat constraint_id nat int
| Order_Response_Row nat int int int int
| Exit_Response_Row nat int int int int
| Acquisition_Row bool constraint_id string int
| Exit_Declined_Row constraint_id int string
| Exit_Execution_Row nat int int int int
| Settlement_Row market_id int bool int int
| Unobserved_Event_Row nat bool int int
| Unobserved_Order_Row constraint_id nat int int
| Paper_Status_Row int nat u64 "string \<rightharpoonup> u64" nat int int int "(constraint_id \<times> leg_template \<times> int) list"

record simulation =
  sm_available :: int
  sm_spent :: int
  sm_notional :: int
  sm_last_update :: "market_id \<rightharpoonup> int"
  sm_consumed :: "depletion_key \<rightharpoonup> int"
  sm_attempts :: "pair_attempt list"
  sm_attempted :: "constraint_id set"
  sm_pending :: "pending_order list"
  sm_declines :: "string \<rightharpoonup> u64"
  sm_evaluated :: u64
  sm_unobserved :: u64
  sm_sizing_evaluations :: u64
  sm_sizing_pruned :: u64
  sm_orders :: "lifecycle_order list"
  sm_events :: "lifecycle_event list"
  sm_positions :: study_positions
  sm_settled_markets :: "market_id set"
  sm_settlement_index :: nat
  sm_settlement_cash :: int
  sm_reserved_total :: int
  sm_unconfirmed_debit :: int
  sm_exit_credit :: int
  sm_exit_fees :: int
  sm_exit_quantity :: int
  sm_exit_basis :: int
  sm_unconfirmed_credit :: int
  sm_rows :: "pair_row list"

text \<open>What the constructor compiles once: the ordered legs and the constraints that depend on a market.\<close>

record pair_config =
  pc_policy :: study_policy
  pc_legs :: "constraint_id \<rightharpoonup> leg_pair"
  pc_dependencies :: "market_id \<rightharpoonup> constraint_id list"

definition compile_pair :: "study_policy \<Rightarrow> leg_template list \<Rightarrow> string + leg_pair" where
  "compile_pair policy legs =
     (if length legs \<noteq> 2 then Inl ''unsupported portfolio''
      else
        let legs = sort_key lt_market legs;
            reverse = (case sy_lifecycle policy of None \<Rightarrow> False | Some life \<Rightarrow> lp_reverse_legs life)
        in Inr (if reverse then (legs ! 1, legs ! 0) else (legs ! 0, legs ! 1)))"

definition compile_constraint_legs :: "constraint_registry \<Rightarrow> constraint_id \<Rightarrow> pair_config \<Rightarrow> string + pair_config" where
  "compile_constraint_legs constraints i cfg =
     (case registry_find i constraints of
        None \<Rightarrow> Inr cfg
      | Some c \<Rightarrow>
          and_then (compile_pair (pc_policy cfg) (cc_templates c)) (\<lambda>legs.
            Inr (cfg\<lparr>pc_legs := (pc_legs cfg)(i \<mapsto> legs),
                     pc_dependencies := fold (\<lambda>market deps. deps(market \<mapsto>
                       (case deps market of None \<Rightarrow> [] | Some ids \<Rightarrow> ids) @ [i])) (cc_dependent_markets c) (pc_dependencies cfg)\<rparr>)))"

definition new_simulation :: "int \<Rightarrow> study_positions \<Rightarrow> simulation" where
  "new_simulation capital positions =
     \<lparr>sm_available = capital, sm_spent = 0, sm_notional = 0, sm_last_update = Map.empty, sm_consumed = Map.empty,
      sm_attempts = [], sm_attempted = {}, sm_pending = [], sm_declines = Map.empty, sm_evaluated = 0, sm_unobserved = 0,
      sm_sizing_evaluations = 0, sm_sizing_pruned = 0, sm_orders = [], sm_events = [], sm_positions = positions,
      sm_settled_markets = {}, sm_settlement_index = 0, sm_settlement_cash = 0, sm_reserved_total = 0,
      sm_unconfirmed_debit = 0, sm_exit_credit = 0, sm_exit_fees = 0, sm_exit_quantity = 0, sm_exit_basis = 0,
      sm_unconfirmed_credit = 0, sm_rows = []\<rparr>"

definition make_simulation :: "constraint_registry \<Rightarrow> study_policy \<Rightarrow> string + pair_config \<times> simulation" where
  "make_simulation constraints policy =
     and_then (and_fold (compile_constraint_legs constraints) (registry_sorted_ids constraints)
       \<lparr>pc_policy = policy, pc_legs = Map.empty, pc_dependencies = Map.empty\<rparr>) (\<lambda>cfg.
       Inr (cfg, new_simulation (sy_capital policy)
         (if sy_lifecycle policy = None then no_positions
          else reserve_positions (registry_size constraints) no_positions)))"


subsection \<open>Rows, fresh books and the walk along a book\<close>

definition emit_row :: "pair_row \<Rightarrow> simulation \<Rightarrow> simulation" where
  "emit_row row s = s\<lparr>sm_rows := sm_rows s @ [row]\<rparr>"

definition fresh_book :: "pair_config \<Rightarrow> leg_template \<Rightarrow> int \<Rightarrow> market_state \<Rightarrow> simulation \<Rightarrow> bool" where
  "fresh_book cfg leg time state s =
     (ms_connected state \<and>
      (case find_book (lt_market leg) state of None \<Rightarrow> False | Some book \<Rightarrow> ob_state book = Valid) \<and>
      (case sm_last_update s (lt_market leg) of None \<Rightarrow> False
       | Some t \<Rightarrow> t \<le> time \<and> time - t \<le> sy_max_age (pc_policy cfg)))"

definition consumed_at :: "simulation \<Rightarrow> depletion_key \<Rightarrow> int" where
  "consumed_at s key = (case sm_consumed s key of None \<Rightarrow> 0 | Some q \<Rightarrow> q)"

text \<open>Selling an outcome takes the same physical liquidity as buying its complement.\<close>

definition walk_key :: "bool \<Rightarrow> leg_template \<Rightarrow> int \<Rightarrow> depletion_key" where
  "walk_key sell leg price =
     (lt_market leg,
      (if sell then (if lt_outcome leg = Outcome_Yes then Outcome_No else Outcome_Yes) else lt_outcome leg),
      if sell then 10000 - price else price)"

definition leg_price :: "leg_template \<Rightarrow> level \<Rightarrow> int" where
  "leg_price leg l = (if lt_outcome leg = Outcome_Yes then price_raw (lv_price l) else 10000 - price_raw (lv_price l))"

definition walk_available :: "pair_config \<Rightarrow> bool \<Rightarrow> bool \<Rightarrow> int \<Rightarrow> level \<Rightarrow> int" where
  "walk_available cfg sell execute used l =
     (let available = min (if used < quantity_raw (lv_quantity l) then quantity_raw (lv_quantity l) - used else 0) quantity_limit
      in if execute
         then available * (if sell then re_fill_bps (the (sy_residual_exit (pc_policy cfg))) else sy_fill_bps (pc_policy cfg)) div 10000
         else available)"

type_synonym walk_state = "string + execution \<times> fee_accumulator \<times> simulation"

definition market_fee :: "pair_config \<Rightarrow> market_id \<Rightarrow> string + fee_policy" where
  "market_fee cfg market = (case sy_fees (pc_policy cfg) market of None \<Rightarrow> Inl ''map::at'' | Some fee \<Rightarrow> Inr fee)"

text \<open>What an executed fill takes from the level.\<close>

definition deplete :: "depletion_key \<Rightarrow> int \<Rightarrow> int \<Rightarrow> pair_row \<Rightarrow> simulation \<Rightarrow> string + simulation" where
  "deplete key used taken row s =
     (if int64_max - taken < used then Inl ''liquidity overflow''
      else Inr (emit_row row (s\<lparr>sm_consumed := (sm_consumed s)(key \<mapsto> used + taken)\<rparr>)))"

definition walk_sell_level :: "pair_config \<Rightarrow> leg_template \<Rightarrow> bool \<Rightarrow> int \<Rightarrow> int \<Rightarrow> int \<Rightarrow>
    execution \<times> fee_accumulator \<times> simulation \<Rightarrow> walk_state" where
  "walk_sell_level cfg leg execute price used taken w =
     (case w of (result, acc, s) \<Rightarrow>
       and_then (market_fee cfg (lt_market leg)) (\<lambda>fee.
         case credit_sell_fill (quantity_value taken) (the (price_from_raw price)) fee acc of
           None \<Rightarrow> Inl ''sale credit overflow''
         | Some (credit, acc) \<Rightarrow>
             let result = result\<lparr>ex_quantity := ex_quantity result + taken,
                   ex_notional := ex_notional result + cash_raw (fr_notional credit),
                   ex_credit := ex_credit result + cash_raw (fr_credit credit),
                   ex_worst_price := price, ex_levels := ex_levels result + 1\<rparr>
             in if execute
                then and_then (deplete (walk_key True leg price) used taken (Sell_Fill_Row leg taken price credit) s)
                       (\<lambda>s. Inr (result, acc, s))
                else Inr (result, acc, s)))"

definition walk_buy_level :: "pair_config \<Rightarrow> leg_template \<Rightarrow> bool \<Rightarrow> int \<Rightarrow> int \<Rightarrow> int \<Rightarrow>
    execution \<times> fee_accumulator \<times> simulation \<Rightarrow> walk_state" where
  "walk_buy_level cfg leg execute price used taken w =
     (case w of (result, acc, s) \<Rightarrow>
       and_then (market_fee cfg (lt_market leg)) (\<lambda>fee.
         case charge_buy_fill (quantity_value taken) (the (price_from_raw price)) fee acc of
           None \<Rightarrow> Inl ''fill charge overflow''
         | Some (charge, acc) \<Rightarrow>
             let result = result\<lparr>ex_quantity := ex_quantity result + taken,
                   ex_notional := ex_notional result + cash_raw (fc_notional charge),
                   ex_debit := ex_debit result + cash_raw (fc_debit charge),
                   ex_worst_price := price, ex_levels := ex_levels result + 1\<rparr>
             in if execute
                then and_then (deplete (walk_key False leg price) used taken (Buy_Fill_Row leg taken price charge) s)
                       (\<lambda>s. Inr (result, acc, s))
                else Inr (result, acc, s)))"

text \<open>The visitor of \<open>walk\<close>: whether to go on, and the state.\<close>

definition walk_level :: "pair_config \<Rightarrow> bool \<Rightarrow> leg_template \<Rightarrow> int \<Rightarrow> int \<Rightarrow> bool \<Rightarrow> level \<Rightarrow> walk_state \<Rightarrow> bool \<times> walk_state" where
  "walk_level cfg sell leg quantity limit execute l w =
     (case w of Inl e \<Rightarrow> (False, w)
      | Inr (result, acc, s) \<Rightarrow>
          let price = leg_price leg l in
          if (if sell then price < limit else limit < price) then (False, w)
          else
            let used = consumed_at s (walk_key sell leg price);
                available = walk_available cfg sell execute used l;
                step = sy_quantity_step (pc_policy cfg);
                taken = min available (quantity - ex_quantity result) div step * step
            in if taken = 0 then (True, w)
               else
                 (case (if sell then walk_sell_level else walk_buy_level) cfg leg execute price used taken (result, acc, s) of
                    Inl e \<Rightarrow> (False, Inl e)
                  | Inr w \<Rightarrow> (ex_quantity (fst w) < quantity, Inr w)))"

definition walk_book :: "pair_config \<Rightarrow> bool \<Rightarrow> leg_template \<Rightarrow> int \<Rightarrow> int \<Rightarrow> market_state \<Rightarrow> bool \<Rightarrow> simulation \<Rightarrow>
    string + execution \<times> simulation" where
  "walk_book cfg sell leg quantity limit state execute s =
     (case find_book (lt_market leg) state of
        None \<Rightarrow> Inr (no_execution, s)
      | Some book \<Rightarrow>
          and_then (visit_levels (if (lt_outcome leg = Outcome_Yes) \<noteq> sell then Ask else Bid)
              (walk_level cfg sell leg quantity limit execute) book (Inr (no_execution, \<lparr>rounding_micro = 0\<rparr>, s)))
            (\<lambda>(result, acc, s). Inr (result, s)))"

definition order_reserve :: "pair_config \<Rightarrow> leg_template \<Rightarrow> int \<Rightarrow> int \<Rightarrow> string + int" where
  "order_reserve cfg leg q price =
     and_then (market_fee cfg (lt_market leg)) (\<lambda>fee.
       case buy_reservation (quantity_value q) (quantity_value (sy_quantity_step (pc_policy cfg))) (the (price_from_raw price)) fee of
         None \<Rightarrow> Inl ''reservation overflow''
       | Some r \<Rightarrow> Inr (cash_raw r))"


subsection \<open>Quotes\<close>

definition decline :: "string \<Rightarrow> simulation \<Rightarrow> simulation" where
  "decline reason s =
     s\<lparr>sm_declines := (sm_declines s)(reason \<mapsto> (case sm_declines s reason of None \<Rightarrow> 0 | Some n \<Rightarrow> n) + 1)\<rparr>"

text \<open>The visitor that collects the depth of a leg: the levels, and the total taken so far.\<close>

definition depth_level :: "pair_config \<Rightarrow> simulation \<Rightarrow> leg_template \<Rightarrow> level \<Rightarrow> buy_level list \<times> int \<Rightarrow>
    bool \<times> buy_level list \<times> int" where
  "depth_level cfg s leg l w =
     (case w of (levels, sum0) \<Rightarrow>
       let price = leg_price leg l;
           used = consumed_at s (lt_market leg, lt_outcome leg, price);
           available = (if used < quantity_raw (lv_quantity l) then quantity_raw (lv_quantity l) - used else 0);
           cap = sy_quantity_cap (pc_policy cfg); step = sy_quantity_step (pc_policy cfg);
           taken = min available (cap - sum0) div step * step;
           w = (if taken \<noteq> 0 then (levels @ [\<lparr>bl_price = the (price_from_raw price), bl_quantity = quantity_value taken\<rparr>], sum0 + taken)
                else (levels, sum0))
       in (snd w < cap div step * step, w))"

definition leg_depth :: "pair_config \<Rightarrow> market_state \<Rightarrow> simulation \<Rightarrow> leg_template \<Rightarrow> string + buy_depth" where
  "leg_depth cfg state s leg =
     and_then (market_fee cfg (lt_market leg)) (\<lambda>fee.
       Inr \<lparr>bd_levels = fst (visit_levels (if lt_outcome leg = Outcome_Yes then Ask else Bid) (depth_level cfg s leg)
              (the (find_book (lt_market leg) state)) ([], 0)), bd_fees = fee\<rparr>)"

definition pair_limits :: "pair_config \<Rightarrow> simulation \<Rightarrow> sizing_limits" where
  "pair_limits cfg s =
     \<lparr>sl_cap = quantity_value (sy_quantity_cap (pc_policy cfg)), sl_step = quantity_value (sy_quantity_step (pc_policy cfg)),
      sl_available = cash_at (sm_available s), sl_minimum_margin = cash_at (sy_min_margin (pc_policy cfg)),
      sl_max_evaluations = sy_max_sizing_evaluations (pc_policy cfg)\<rparr>"

definition count_sizing :: "sizing_result \<Rightarrow> simulation \<Rightarrow> string + simulation" where
  "count_sizing r s =
     (if uint64_max - sr_evaluated_quantities r < sm_sizing_evaluations s \<or>
         uint64_max - sr_intervals_pruned r < sm_sizing_pruned s
      then Inl ''sizing counter overflow''
      else Inr (s\<lparr>sm_sizing_evaluations := sm_sizing_evaluations s + sr_evaluated_quantities r,
                  sm_sizing_pruned := sm_sizing_pruned s + sr_intervals_pruned r\<rparr>))"

definition sizing_answer :: "sizing_result \<Rightarrow> simulation \<Rightarrow> string + sized_pair option \<times> simulation" where
  "sizing_answer r s =
     (case sr_status r of
        Optimal \<Rightarrow> Inr (sr_quote r, s)
      | No_Positive_Margin \<Rightarrow> Inr (None, decline ''non_positive_costed_margin'' s)
      | No_Depth \<Rightarrow> Inr (None, decline ''no_depth'' s)
      | Insufficient_Cash \<Rightarrow> Inr (None, decline ''insufficient_cash'' s)
      | Search_Budget_Exceeded \<Rightarrow> Inr (None, decline ''sizing_search_budget_exceeded'' s)
      | _ \<Rightarrow> Inl ''net sizing input/arithmetic invariant'')"

definition optimal_quote :: "pair_config \<Rightarrow> leg_pair \<Rightarrow> market_state \<Rightarrow> simulation \<Rightarrow> (sized_pair option \<times> simulation) outcome" where
  "optimal_quote cfg legs state s =
     run_then (Some (leg_depth cfg state s (fst legs))) (\<lambda>d0.
     run_then (Some (leg_depth cfg state s (snd legs))) (\<lambda>d1.
     case size_buy_pair (d0, d1) (pair_limits cfg s) of
       None \<Rightarrow> None
     | Some r \<Rightarrow> Some (and_then (count_sizing r s) (sizing_answer r))))"

text \<open>A walk that only looks; what both legs cost at a quantity, and the reserves of a quote.\<close>

definition quote_walk :: "pair_config \<Rightarrow> market_state \<Rightarrow> simulation \<Rightarrow> leg_template \<Rightarrow> int \<Rightarrow> string + execution" where
  "quote_walk cfg state s leg q = and_then (walk_book cfg False leg q 10000 state False s) (\<lambda>(result, s). Inr result)"

definition quote_both :: "pair_config \<Rightarrow> leg_pair \<Rightarrow> market_state \<Rightarrow> simulation \<Rightarrow> int \<Rightarrow> string + execution \<times> execution" where
  "quote_both cfg legs state s q =
     and_then (quote_walk cfg state s (fst legs) q) (\<lambda>a.
     and_then (quote_walk cfg state s (snd legs) q) (\<lambda>b. Inr (a, b)))"

definition reserve_both :: "pair_config \<Rightarrow> leg_pair \<Rightarrow> int \<Rightarrow> execution \<times> execution \<Rightarrow> string + int \<times> int" where
  "reserve_both cfg legs q quote =
     and_then (order_reserve cfg (fst legs) q (ex_worst_price (fst quote))) (\<lambda>a.
     and_then (order_reserve cfg (snd legs) q (ex_worst_price (snd quote))) (\<lambda>b. Inr (a, b)))"

text \<open>The search for the last funded quantity, in steps.\<close>

function funded_steps :: "pair_config \<Rightarrow> leg_pair \<Rightarrow> market_state \<Rightarrow> simulation \<Rightarrow> int \<Rightarrow> int \<Rightarrow> string + int" where
  "funded_steps cfg legs state s lo hi =
     (if lo < hi
      then
        let mid = lo + (hi - lo + 1) div 2; q = mid * sy_quantity_step (pc_policy cfg)
        in case and_then (quote_both cfg legs state s q) (reserve_both cfg legs q) of
             Inl e \<Rightarrow> Inl e
           | Inr needed \<Rightarrow>
               if fst needed + snd needed \<le> sm_available s then funded_steps cfg legs state s mid hi
               else funded_steps cfg legs state s lo (mid - 1)
      else Inr lo)"
  by pat_completeness auto
termination
  by (relation "measure (\<lambda>(cfg, legs, state, s, lo, hi). nat (hi - lo))") auto

declare funded_steps.simps [simp del]

definition sized_leg_of :: "execution \<Rightarrow> int \<Rightarrow> sized_leg" where
  "sized_leg_of quote reserve =
     \<lparr>sz_limit = the (price_from_raw (ex_worst_price quote)), sz_notional = cash_at (ex_notional quote),
      sz_debit = cash_at (ex_debit quote), sz_reservation = cash_at reserve\<rparr>"

text \<open>The end of \<open>legacy_quote\<close>: the margin of the quote, and the pair.\<close>

definition priced_quote :: "pair_config \<Rightarrow> leg_pair \<Rightarrow> int \<Rightarrow> execution \<times> execution \<Rightarrow> simulation \<Rightarrow>
    string + sized_pair option \<times> simulation" where
  "priced_quote cfg legs quantity quote s =
     (let cost = ex_debit (fst quote) + ex_debit (snd quote) in
      if quantity * 10000 - cost \<le> sy_min_margin (pc_policy cfg) then Inr (None, decline ''non_positive_costed_margin'' s)
      else and_then (reserve_both cfg legs quantity quote) (\<lambda>reserves.
        Inr (Some \<lparr>sp_quantity = quantity_value quantity,
               sp_legs = (sized_leg_of (fst quote) (fst reserves), sized_leg_of (snd quote) (snd reserves)),
               sp_payout_floor = cash_at (quantity * 10000), sp_net_margin = cash_at (quantity * 10000 - cost)\<rparr>, s)))"

definition fund_quote :: "pair_config \<Rightarrow> leg_pair \<Rightarrow> market_state \<Rightarrow> int \<Rightarrow> execution \<times> execution \<Rightarrow> simulation \<Rightarrow>
    string + sized_pair option \<times> simulation" where
  "fund_quote cfg legs state quantity quote s =
     and_then (reserve_both cfg legs quantity quote) (\<lambda>reserves.
       if sm_available s < fst reserves + snd reserves
       then and_then (funded_steps cfg legs state s 0 (quantity div sy_quantity_step (pc_policy cfg))) (\<lambda>lo.
              let quantity = lo * sy_quantity_step (pc_policy cfg) in
              if quantity = 0 then Inr (None, decline ''insufficient_cash'' s)
              else and_then (quote_both cfg legs state s quantity) (\<lambda>quote. priced_quote cfg legs quantity quote s))
       else priced_quote cfg legs quantity quote s)"

definition legacy_quote :: "pair_config \<Rightarrow> leg_pair \<Rightarrow> market_state \<Rightarrow> simulation \<Rightarrow> string + sized_pair option \<times> simulation" where
  "legacy_quote cfg legs state s =
     (let step = sy_quantity_step (pc_policy cfg); quantity = sy_quantity_cap (pc_policy cfg) div step * step
      in and_then (quote_both cfg legs state s quantity) (\<lambda>(depth0, depth1).
           let quantity = min (ex_quantity depth0) (ex_quantity depth1) in
           if quantity = 0 then Inr (None, decline ''no_depth'' s)
           else
             and_then (if ex_quantity depth0 = quantity then Inr depth0 else quote_walk cfg state s (fst legs) quantity) (\<lambda>q0.
             and_then (if ex_quantity depth1 = quantity then Inr depth1 else quote_walk cfg state s (snd legs) quantity) (\<lambda>q1.
               fund_quote cfg legs state quantity (q0, q1) s))))"


subsection \<open>Orders and decisions\<close>

definition event_before :: "lifecycle_event \<Rightarrow> lifecycle_event \<Rightarrow> bool" where
  "event_before a b \<longleftrightarrow>
     le_time a < le_time b \<or> (le_time a = le_time b \<and>
       (le_order a < le_order b \<or> (le_order a = le_order b \<and> \<not> le_response a \<and> le_response b)))"

text \<open>The priority queue as the list of its events in the order they leave it.\<close>

fun push_event :: "lifecycle_event \<Rightarrow> lifecycle_event list \<Rightarrow> lifecycle_event list" where
  "push_event e [] = [e]"
| "push_event e (x # xs) = (if event_before e x then e # x # xs else x # push_event e xs)"

definition check_cash :: "pair_config \<Rightarrow> simulation \<Rightarrow> string + simulation" where
  "check_cash cfg s =
     (if sm_available s < 0 \<or> sm_reserved_total s < 0 \<or> sm_unconfirmed_debit s < 0 \<or> sm_unconfirmed_credit s < 0 \<or>
         sm_available s + sm_reserved_total s - sm_unconfirmed_debit s + sm_unconfirmed_credit s \<noteq>
           sy_capital (pc_policy cfg) - sm_spent s + sm_settlement_cash s + sm_exit_credit s
      then Inl ''cash conservation'' else Inr s)"

definition submit :: "nat \<Rightarrow> nat \<Rightarrow> int \<Rightarrow> int \<Rightarrow> int \<Rightarrow> int \<Rightarrow> bool \<Rightarrow> simulation \<Rightarrow> simulation" where
  "submit attempt leg quantity limit reserve arrival sell s =
     (let n = length (sm_orders s) in
      emit_row (Intent_Row sell (n + 1) attempt leg quantity limit reserve arrival)
        (s\<lparr>sm_events := push_event \<lparr>le_time = arrival, le_order = n, le_response = False\<rparr> (sm_events s),
           sm_orders := sm_orders s @ [\<lparr>or_attempt = attempt, or_leg = leg, or_quantity = quantity, or_limit = limit,
             or_reserve = reserve, or_fill = no_execution, or_arrived = False, or_responded = False, or_sell = sell\<rparr>]\<rparr>))"

definition pending_before :: "pending_order \<Rightarrow> pending_order \<Rightarrow> bool" where
  "pending_before a b \<longleftrightarrow>
     pd_arrival a < pd_arrival b \<or> (pd_arrival a = pd_arrival b \<and>
       (pd_attempt a < pd_attempt b \<or> (pd_attempt a = pd_attempt b \<and> pd_leg a < pd_leg b)))"

text \<open>
  \<open>push_back\<close> and the sort after it: the list is sorted before, and the keys of the pending orders are
  distinct.
\<close>

fun insert_pending :: "pending_order \<Rightarrow> pending_order list \<Rightarrow> pending_order list" where
  "insert_pending p [] = [p]"
| "insert_pending p (x # xs) = (if pending_before p x then p # x # xs else x # insert_pending p xs)"

definition place_leg :: "pair_config \<Rightarrow> int \<Rightarrow> nat \<Rightarrow> pair_attempt \<times> simulation \<Rightarrow> string + pair_attempt \<times> simulation" where
  "place_leg cfg time leg w =
     (case w of (a, s) \<Rightarrow>
       let policy = pc_policy cfg; arrival = time + pick leg (sy_latency policy) in
       if int64_max - pick leg (sy_latency policy) < time then Inl ''arrival clock overflow''
       else
         let (a, s) = (case sy_lifecycle policy of
               Some life \<Rightarrow>
                 if \<not> lp_sequential life \<or> leg = 0
                 then (a\<lparr>pa_pending_buys := pa_pending_buys a + 1\<rparr>,
                       submit (length (sm_attempts s)) leg (pa_quantity a) (pick leg (pa_limit a)) (pick leg (pa_reserve a)) arrival False s)
                 else (a, s)
             | None \<Rightarrow> (a, s\<lparr>sm_pending := insert_pending
                   \<lparr>pd_arrival = arrival, pd_attempt = length (sm_attempts s), pd_leg = leg\<rparr> (sm_pending s)\<rparr>));
             s = s\<lparr>sm_available := sm_available s - pick leg (pa_reserve a)\<rparr>
         in Inr (a, if sy_lifecycle policy = None then s else s\<lparr>sm_reserved_total := sm_reserved_total s + pick leg (pa_reserve a)\<rparr>))"

definition new_pair_attempt :: "constraint_id \<Rightarrow> leg_pair \<Rightarrow> connection_generation \<Rightarrow> sized_pair \<Rightarrow> int \<Rightarrow> pair_attempt" where
  "new_pair_attempt i legs generation selected time =
     \<lparr>pa_id = i, pa_legs = legs, pa_generation = generation, pa_quantity = quantity_raw (sp_quantity selected),
      pa_limit = (price_raw (sz_limit (fst (sp_legs selected))), price_raw (sz_limit (snd (sp_legs selected)))),
      pa_reserve = (cash_raw (sz_reservation (fst (sp_legs selected))), cash_raw (sz_reservation (snd (sp_legs selected)))),
      pa_fills = (no_execution, no_execution), pa_started = time, pa_completion_orders = 0, pa_pending_buys = 0,
      pa_exit_considered = False\<rparr>"

definition open_attempt :: "pair_config \<Rightarrow> constraint_id \<Rightarrow> leg_pair \<Rightarrow> int \<Rightarrow> market_state \<Rightarrow> sized_pair \<Rightarrow> simulation \<Rightarrow>
    string + simulation" where
  "open_attempt cfg i legs time state selected s =
     (let a = new_pair_attempt i legs (the (ms_generation state)) selected time;
          cost = cash_raw (sz_debit (fst (sp_legs selected))) + cash_raw (sz_debit (snd (sp_legs selected)));
          s = emit_row (Decision_Row time i (pa_quantity a) (pa_limit a) cost (pa_quantity a * 10000 - cost)
                (fst (pa_reserve a) + snd (pa_reserve a))) s
      in and_then (place_leg cfg time 0 (a, s)) (\<lambda>w.
         and_then (place_leg cfg time 1 w) (\<lambda>(a, s).
           let s = s\<lparr>sm_attempted := insert i (sm_attempted s), sm_attempts := sm_attempts s @ [a]\<rparr>
           in if sy_lifecycle (pc_policy cfg) = None then Inr s else check_cash cfg s)))"

definition sim_decide :: "pair_config \<Rightarrow> int \<Rightarrow> market_state \<Rightarrow> constraint_id \<Rightarrow> simulation \<Rightarrow> simulation outcome" where
  "sim_decide cfg time state i s =
     (let s = s\<lparr>sm_evaluated := sm_evaluated s + 1\<rparr> in
      case pc_legs cfg i of
        None \<Rightarrow> Some (Inl ''map::at'')
      | Some legs \<Rightarrow>
          if \<not> fresh_book cfg (fst legs) time state s \<or> \<not> fresh_book cfg (snd legs) time state s
          then Some (Inr (decline ''stale_or_missing_book'' s))
          else if sy_lifecycle (pc_policy cfg) \<noteq> None \<and>
            (lt_market (fst legs) \<in> sm_settled_markets s \<or> lt_market (snd legs) \<in> sm_settled_markets s)
          then Some (Inr (decline ''settled_market'' s))
          else run_then (if sy_optimal_sizing (pc_policy cfg) then optimal_quote cfg legs state s
                         else Some (legacy_quote cfg legs state s)) (\<lambda>(selected, s).
            case selected of None \<Rightarrow> Some (Inr s)
            | Some selected \<Rightarrow> Some (open_attempt cfg i legs time state selected s)))"


subsection \<open>Orders that arrive at once\<close>

definition set_fill :: "nat \<Rightarrow> execution \<Rightarrow> pair_attempt \<Rightarrow> pair_attempt" where
  "set_fill leg fill a = a\<lparr>pa_fills := place leg fill (pa_fills a)\<rparr>"

definition put_attempt :: "nat \<Rightarrow> pair_attempt \<Rightarrow> simulation \<Rightarrow> simulation" where
  "put_attempt i a s = s\<lparr>sm_attempts := (sm_attempts s)[i := a]\<rparr>"

text \<open>One pending order that is due.\<close>

definition pending_arrival :: "pair_config \<Rightarrow> market_state \<Rightarrow> pending_order \<Rightarrow> simulation \<Rightarrow> string + simulation" where
  "pending_arrival cfg state p s =
     (let a = sm_attempts s ! pd_attempt p;
          leg = pick (pd_leg p) (pa_legs a);
          reserve = pick (pd_leg p) (pa_reserve a);
          s = emit_row (Pending_Arrival_Row (pa_id a) (pd_leg p) (pd_arrival p)) s
      in and_then (if \<not> pick (pd_leg p) (sy_reject (pc_policy cfg)) \<and> ms_generation state = Some (pa_generation a) \<and>
                fresh_book cfg leg (pd_arrival p) state s
              then walk_book cfg False leg (pa_quantity a) (pick (pd_leg p) (pa_limit a)) state True s
              else Inr (pick (pd_leg p) (pa_fills a), s)) (\<lambda>(fill, s).
           if reserve < ex_debit fill then Inl ''reservation invariant''
           else Inr (emit_row (Ioc_Complete_Row (pa_id a) (pd_leg p) (ex_quantity fill) (pa_quantity a - ex_quantity fill) (ex_debit fill))
                  (put_attempt (pd_attempt p) (set_fill (pd_leg p) fill a)
                    (s\<lparr>sm_available := sm_available s + (reserve - ex_debit fill), sm_spent := sm_spent s + ex_debit fill,
                       sm_notional := sm_notional s + ex_notional fill\<rparr>)))))"

fun drain_pending :: "pair_config \<Rightarrow> int \<Rightarrow> bool \<Rightarrow> market_state \<Rightarrow> pending_order list \<Rightarrow> simulation \<Rightarrow> string + simulation" where
  "drain_pending cfg time inclusive state [] s = Inr (s\<lparr>sm_pending := []\<rparr>)"
| "drain_pending cfg time inclusive state (p # ps) s =
     (if time < pd_arrival p \<or> (\<not> inclusive \<and> pd_arrival p = time) then Inr (s\<lparr>sm_pending := p # ps\<rparr>)
      else and_then (pending_arrival cfg state p s) (drain_pending cfg time inclusive state ps))"


subsection \<open>The end of an acquisition\<close>

definition skip_exit :: "pair_attempt \<Rightarrow> int \<Rightarrow> string \<Rightarrow> simulation \<Rightarrow> simulation" where
  "skip_exit a time reason s = emit_row (Exit_Declined_Row (pa_id a) time reason) s"

text \<open>The decision to sell what is unpaired, once the attempt is marked.\<close>

definition exit_difference :: "pair_attempt \<Rightarrow> int" where
  "exit_difference a = ex_quantity (fst (pa_fills a)) - ex_quantity (snd (pa_fills a))"

definition decide_exit :: "pair_config \<Rightarrow> residual_exit_policy \<Rightarrow> nat \<Rightarrow> int \<Rightarrow> market_state \<Rightarrow> simulation \<Rightarrow> string + simulation" where
  "decide_exit cfg config index time state s =
     (let a = sm_attempts s ! index;
          difference = exit_difference a;
          leg_index = (if 0 < difference then 0 else 1 :: nat);
          leg = pick leg_index (pa_legs a);
          skip = (\<lambda>reason. Inr (skip_exit a time reason s))
      in if difference = 0 then skip ''balanced''
         else if \<not> re_reduce config then skip ''hold_policy''
         else if time < pa_started a \<or> re_timeout config < time - pa_started a \<or>
           re_timeout config - (time - pa_started a) < re_latency config then skip ''exit_timeout''
         else if lt_market leg \<in> sm_settled_markets s then skip ''settled_market''
         else if \<not> fresh_book cfg leg time state s \<or> ms_generation state \<noteq> Some (pa_generation a) then skip ''unavailable_book''
         else and_then (held_quantity index leg_index (sm_positions s)) (\<lambda>owned.
           and_then (walk_book cfg True leg (min (if 0 < difference then difference else - difference) owned)
                (re_minimum_price config) state False s) (\<lambda>(quote, s).
             if ex_quantity quote = 0 then skip ''no_depth_at_exit_price''
             else if int64_max - re_latency config < time then Inl ''exit clock overflow''
             else Inr (submit index leg_index (ex_quantity quote) (ex_worst_price quote) 0 (time + re_latency config) True s))))"

definition consider_exit :: "pair_config \<Rightarrow> nat \<Rightarrow> int \<Rightarrow> market_state \<Rightarrow> simulation \<Rightarrow> string + simulation" where
  "consider_exit cfg index time state s =
     (case sy_residual_exit (pc_policy cfg) of
        None \<Rightarrow> Inr s
      | Some config \<Rightarrow>
          let a = sm_attempts s ! index in
          if pa_exit_considered a then Inl ''duplicate exit decision''
          else if pa_pending_buys a \<noteq> 0 then Inl ''exit before acquisition responses''
          else decide_exit cfg config index time state (put_attempt index (a\<lparr>pa_exit_considered := True\<rparr>) s))"

definition finish_acquisition :: "pair_config \<Rightarrow> nat \<Rightarrow> string \<Rightarrow> int \<Rightarrow> market_state \<Rightarrow> simulation \<Rightarrow> string + simulation" where
  "finish_acquisition cfg index reason time state s =
     (let a = sm_attempts s ! index; reserve = snd (pa_reserve a);
          s = put_attempt index (a\<lparr>pa_reserve := (fst (pa_reserve a), 0)\<rparr>)
                (s\<lparr>sm_reserved_total := sm_reserved_total s - reserve, sm_available := sm_available s + reserve\<rparr>)
      in consider_exit cfg index time state
           (emit_row (Acquisition_Row (sy_residual_exit (pc_policy cfg) \<noteq> None) (pa_id a) reason (exit_difference a)) s))"

text \<open>The next order for the second leg, with its reserve.\<close>

definition order_second :: "pair_config \<Rightarrow> nat \<Rightarrow> int \<Rightarrow> execution \<Rightarrow> int \<Rightarrow> simulation \<Rightarrow> string + simulation" where
  "order_second cfg index time quote needed s =
     (let a = sm_attempts s ! index; reserve = snd (pa_reserve a); latency = snd (sy_latency (pc_policy cfg));
          s = put_attempt index (a\<lparr>pa_reserve := (fst (pa_reserve a), needed), pa_completion_orders := pa_completion_orders a + 1,
                pa_pending_buys := pa_pending_buys a + 1\<rparr>)
              (s\<lparr>sm_reserved_total := sm_reserved_total s + (needed - reserve), sm_available := sm_available s + (reserve - needed)\<rparr>)
      in if int64_max - latency < time then Inl ''completion clock overflow''
         else Inr (submit index 1 (ex_quantity quote) (ex_worst_price quote) needed (time + latency) False s))"

definition complete_second :: "pair_config \<Rightarrow> lifecycle_policy \<Rightarrow> nat \<Rightarrow> int \<Rightarrow> market_state \<Rightarrow> simulation \<Rightarrow> string + simulation" where
  "complete_second cfg config index time state s =
     (let a = sm_attempts s ! index; remaining = exit_difference a; latency = snd (sy_latency (pc_policy cfg));
          leg = snd (pa_legs a); stop = (\<lambda>reason. finish_acquisition cfg index reason time state s)
      in if remaining \<le> 0 then stop ''balanced''
         else if time < pa_started a \<or> lp_completion_timeout config < time - pa_started a \<or>
           lp_completion_timeout config - (time - pa_started a) < latency \<or>
           lp_maximum_completion_orders config \<le> pa_completion_orders a then stop ''completion_budget''
         else if \<not> fresh_book cfg leg time state s \<or> ms_generation state \<noteq> Some (pa_generation a) \<or>
           lt_market leg \<in> sm_settled_markets s then stop ''unavailable_book''
         else and_then (quote_walk cfg state s leg remaining) (\<lambda>quote.
           if ex_quantity quote = 0 then stop ''no_depth''
           else
             let total_cost = ex_debit (fst (pa_fills a)) + ex_debit (snd (pa_fills a)) + ex_debit quote;
                 matched_payout = (ex_quantity (snd (pa_fills a)) + ex_quantity quote) * 10000
             in if lp_completion_loss_limit config < total_cost - matched_payout then stop ''completion_loss_limit''
                else and_then (order_reserve cfg leg (ex_quantity quote) (ex_worst_price quote)) (\<lambda>needed.
                  if sm_available s + snd (pa_reserve a) < needed then stop ''insufficient_cash''
                  else order_second cfg index time quote needed s)))"


subsection \<open>Events\<close>

definition sim_settle :: "pair_config \<Rightarrow> market_settlement \<Rightarrow> simulation \<Rightarrow> simulation outcome" where
  "sim_settle cfg st s =
     run_then (settle_market st (sm_positions s)) (\<lambda>((closed, payout), positions).
       Some (if cash_limit - sm_settlement_cash s < payout \<or> cash_limit - sm_available s < payout
         then Inl ''settlement cash bound''
         else and_then (check_cash cfg (s\<lparr>sm_settled_markets := insert (st_market_id st) (sm_settled_markets s),
                sm_positions := positions, sm_settlement_cash := sm_settlement_cash s + payout,
                sm_available := sm_available s + payout\<rparr>)) (\<lambda>s.
              Inr (emit_row (Settlement_Row (st_market_id st) (st_time st) (st_yes_wins st) closed payout) s))))"

definition put_order :: "nat \<Rightarrow> lifecycle_order \<Rightarrow> simulation \<Rightarrow> simulation" where
  "put_order n order s = s\<lparr>sm_orders := (sm_orders s)[n := order]\<rparr>"

text \<open>The two ways a response ends: a sale's cash becomes available, a purchase's reserve is released.\<close>

definition exit_response :: "pair_config \<Rightarrow> lifecycle_event \<Rightarrow> lifecycle_order \<Rightarrow> simulation \<Rightarrow> string + simulation" where
  "exit_response cfg ev order s =
     (let fill = or_fill order in
      if cash_limit - sm_available s < ex_credit fill then Inl ''available exit cash bound''
      else check_cash cfg (emit_row (Exit_Response_Row (le_order ev + 1) (le_time ev) (ex_quantity fill)
               (or_quantity order - ex_quantity fill) (ex_credit fill))
             (s\<lparr>sm_unconfirmed_credit := sm_unconfirmed_credit s - ex_credit fill, sm_available := sm_available s + ex_credit fill\<rparr>)))"

definition buy_order_response :: "pair_config \<Rightarrow> lifecycle_policy \<Rightarrow> lifecycle_event \<Rightarrow> lifecycle_order \<Rightarrow> market_state \<Rightarrow> simulation \<Rightarrow>
    string + simulation" where
  "buy_order_response cfg life ev order state s =
     (let a = sm_attempts s ! or_attempt order; fill = or_fill order in
      if pa_pending_buys a = 0 then Inl ''acquisition response count''
      else
        let a = a\<lparr>pa_pending_buys := pa_pending_buys a - 1, pa_reserve := place (or_leg order) 0 (pa_reserve a)\<rparr>;
            s = emit_row (Order_Response_Row (le_order ev + 1) (le_time ev) (ex_quantity fill) (or_quantity order - ex_quantity fill) (ex_debit fill))
                  (put_attempt (or_attempt order) a
                    (s\<lparr>sm_reserved_total := sm_reserved_total s - or_reserve order,
                       sm_unconfirmed_debit := sm_unconfirmed_debit s - ex_debit fill,
                       sm_available := sm_available s + (or_reserve order - ex_debit fill)\<rparr>))
        in and_then (if lp_sequential life then complete_second cfg life (or_attempt order) (le_time ev) state s
             else if pa_pending_buys a = 0 then consider_exit cfg (or_attempt order) (le_time ev) state s
             else Inr s) (check_cash cfg))"

definition order_response :: "pair_config \<Rightarrow> lifecycle_policy \<Rightarrow> lifecycle_event \<Rightarrow> market_state \<Rightarrow> simulation \<Rightarrow> string + simulation" where
  "order_response cfg life ev state s =
     (let order = sm_orders s ! le_order ev in
      if \<not> or_arrived order \<or> or_responded order then Inl ''response lifecycle''
      else
        let s = put_order (le_order ev) (order\<lparr>or_responded := True\<rparr>) s
        in if or_sell order then exit_response cfg ev order s else buy_order_response cfg life ev order state s)"

text \<open>\<open>arrive_exit\<close>: the sale, its lots, and its response event.\<close>

definition exit_fill :: "pair_config \<Rightarrow> residual_exit_policy \<Rightarrow> lifecycle_order \<Rightarrow> int \<Rightarrow> market_state \<Rightarrow> simulation \<Rightarrow>
    string + execution \<times> simulation" where
  "exit_fill cfg config order time state s =
     (let a = sm_attempts s ! or_attempt order; leg = pick (or_leg order) (pa_legs a) in
      if \<not> re_reject config \<and> lt_market leg \<notin> sm_settled_markets s \<and> ms_generation state = Some (pa_generation a) \<and>
        fresh_book cfg leg time state s
      then and_then (held_quantity (or_attempt order) (or_leg order) (sm_positions s)) (\<lambda>owned.
             if owned \<noteq> 0 then walk_book cfg True leg (min owned (or_quantity order)) (or_limit order) state True s
             else Inr (or_fill order, s))
      else Inr (or_fill order, s))"

definition arrive_exit :: "pair_config \<Rightarrow> residual_exit_policy \<Rightarrow> lifecycle_order \<Rightarrow> lifecycle_event \<Rightarrow> market_state \<Rightarrow> simulation \<Rightarrow>
    simulation outcome" where
  "arrive_exit cfg config order ev state s =
     run_then (Some (exit_fill cfg config order (le_time ev) state s)) (\<lambda>(fill, s).
       let fee = ex_notional fill - ex_credit fill;
           s = put_order (le_order ev) (order\<lparr>or_fill := fill\<rparr>) s
       in if cash_limit - sm_exit_credit s < ex_credit fill \<or> cash_limit - sm_exit_fees s < fee
          then Some (Inl ''exit cash bound'')
          else run_then (close (or_attempt order) (or_leg order) (ex_quantity fill) (le_time ev) (sm_positions s)) (\<lambda>(basis, positions).
            Some (check_cash cfg (emit_row (Exit_Execution_Row (le_order ev + 1) (le_time ev) (ex_quantity fill) basis (ex_credit fill))
              (s\<lparr>sm_positions := positions, sm_exit_credit := sm_exit_credit s + ex_credit fill,
                 sm_exit_fees := sm_exit_fees s + fee, sm_exit_basis := sm_exit_basis s + basis,
                 sm_exit_quantity := sm_exit_quantity s + ex_quantity fill,
                 sm_unconfirmed_credit := sm_unconfirmed_credit s + ex_credit fill\<rparr>)))))"

definition push_response :: "string \<Rightarrow> lifecycle_event \<Rightarrow> int \<Rightarrow> simulation \<Rightarrow> string + simulation" where
  "push_response overflow ev latency s =
     (if int64_max - latency < le_time ev then Inl overflow
      else Inr (s\<lparr>sm_events := push_event \<lparr>le_time = le_time ev + latency, le_order = le_order ev, le_response = True\<rparr> (sm_events s)\<rparr>))"

definition add_execution :: "execution \<Rightarrow> execution \<Rightarrow> execution" where
  "add_execution aggregate fill =
     aggregate\<lparr>ex_quantity := ex_quantity aggregate + ex_quantity fill, ex_notional := ex_notional aggregate + ex_notional fill,
       ex_debit := ex_debit aggregate + ex_debit fill, ex_worst_price := max (ex_worst_price aggregate) (ex_worst_price fill),
       ex_levels := ex_levels aggregate + ex_levels fill\<rparr>"

definition buy_arrival :: "pair_config \<Rightarrow> lifecycle_policy \<Rightarrow> lifecycle_order \<Rightarrow> lifecycle_event \<Rightarrow> market_state \<Rightarrow> simulation \<Rightarrow>
    string + simulation" where
  "buy_arrival cfg life order ev state s =
     (let a = sm_attempts s ! or_attempt order; leg = pick (or_leg order) (pa_legs a) in
      and_then (if \<not> pick (or_leg order) (sy_reject (pc_policy cfg)) \<and> lt_market leg \<notin> sm_settled_markets s \<and>
             ms_generation state = Some (pa_generation a) \<and> fresh_book cfg leg (le_time ev) state s
           then walk_book cfg False leg (or_quantity order) (or_limit order) state True s
           else Inr (or_fill order, s)) (\<lambda>(fill, s).
        if or_reserve order < ex_debit fill \<or> cash_limit - sm_spent s < ex_debit fill then Inl ''lifecycle cash reservation''
        else
          let s = put_attempt (or_attempt order) (set_fill (or_leg order) (add_execution (pick (or_leg order) (pa_fills a)) fill) a)
                (put_order (le_order ev) (order\<lparr>or_fill := fill\<rparr>)
                  (s\<lparr>sm_spent := sm_spent s + ex_debit fill, sm_notional := sm_notional s + ex_notional fill,
                     sm_unconfirmed_debit := sm_unconfirmed_debit s + ex_debit fill\<rparr>))
          in and_then (check_cash cfg s) (\<lambda>s.
             and_then (if ex_quantity fill \<noteq> 0
                then and_then (acquire (or_attempt order) (or_leg order) leg (ex_quantity fill) (ex_debit fill) (le_time ev) (sm_positions s))
                       (\<lambda>positions. Inr (s\<lparr>sm_positions := positions\<rparr>))
                else Inr s)
               (push_response ''response clock overflow'' ev (pick (or_leg order) (lp_response_latency life))))))"

definition order_arrives :: "pair_config \<Rightarrow> lifecycle_policy \<Rightarrow> lifecycle_event \<Rightarrow> market_state \<Rightarrow> simulation \<Rightarrow> simulation outcome" where
  "order_arrives cfg life ev state s =
     (let order = sm_orders s ! le_order ev; a = sm_attempts s ! or_attempt order in
      if or_arrived order then Some (Inl ''duplicate order arrival'')
      else
        let order = order\<lparr>or_arrived := True\<rparr>;
            s = emit_row (Arrival_Row (or_sell order) (le_order ev + 1) (pa_id a) (or_leg order) (le_time ev))
                  (put_order (le_order ev) order s)
        in if or_sell order
           then (case sy_residual_exit (pc_policy cfg) of
                   None \<Rightarrow> Some (Inl ''bad_optional_access'')
                 | Some config \<Rightarrow> run_then (arrive_exit cfg config order ev state s) (\<lambda>s.
                     Some (push_response ''exit response clock overflow'' ev (re_response_latency config) s)))
           else Some (buy_arrival cfg life order ev state s))"

text \<open>One turn of the loop: the settlement that is next, or the first event.\<close>

definition settlement_due :: "lifecycle_policy \<Rightarrow> int \<Rightarrow> simulation \<Rightarrow> bool" where
  "settlement_due life time s \<longleftrightarrow> sm_settlement_index s < length (lp_settlements life) \<and>
     st_time (lp_settlements life ! sm_settlement_index s) \<le> time"

definition order_due :: "int \<Rightarrow> bool \<Rightarrow> simulation \<Rightarrow> bool" where
  "order_due time inclusive s \<longleftrightarrow>
     (case sm_events s of [] \<Rightarrow> False | ev # evs \<Rightarrow> le_time ev < time \<or> (inclusive \<and> le_time ev = time))"

definition next_settlement :: "pair_config \<Rightarrow> lifecycle_policy \<Rightarrow> simulation \<Rightarrow> simulation outcome" where
  "next_settlement cfg life s =
     sim_settle cfg (lp_settlements life ! sm_settlement_index s) (s\<lparr>sm_settlement_index := sm_settlement_index s + 1\<rparr>)"

definition next_event :: "pair_config \<Rightarrow> lifecycle_policy \<Rightarrow> market_state \<Rightarrow> simulation \<Rightarrow> simulation outcome" where
  "next_event cfg life state s =
     (let ev = hd (sm_events s); s = s\<lparr>sm_events := tl (sm_events s)\<rparr>
      in if le_response ev then Some (order_response cfg life ev state s) else order_arrives cfg life ev state s)"

definition lifecycle_turn :: "pair_config \<Rightarrow> lifecycle_policy \<Rightarrow> int \<Rightarrow> bool \<Rightarrow> market_state \<Rightarrow> simulation \<Rightarrow> simulation outcome" where
  "lifecycle_turn cfg life time inclusive state s =
     (if settlement_due life time s \<and>
         (\<not> order_due time inclusive s \<or> st_time (lp_settlements life ! sm_settlement_index s) \<le> le_time (hd (sm_events s)))
      then next_settlement cfg life s else next_event cfg life state s)"

partial_function (option) drain_lifecycle ::
  "pair_config \<Rightarrow> lifecycle_policy \<Rightarrow> int \<Rightarrow> bool \<Rightarrow> market_state \<Rightarrow> simulation \<Rightarrow> simulation outcome" where
  "drain_lifecycle cfg life time inclusive state s =
     (if \<not> settlement_due life time s \<and> \<not> order_due time inclusive s then Some (Inr s)
      else
        case lifecycle_turn cfg life time inclusive state s of
          None \<Rightarrow> None
        | Some r \<Rightarrow> (case r of Inl e \<Rightarrow> Some (Inl e) | Inr s \<Rightarrow> drain_lifecycle cfg life time inclusive state s))"

declare drain_lifecycle.simps [code]

definition sim_drain :: "pair_config \<Rightarrow> int \<Rightarrow> bool \<Rightarrow> market_state \<Rightarrow> simulation \<Rightarrow> simulation outcome" where
  "sim_drain cfg time inclusive state s =
     (case sy_lifecycle (pc_policy cfg) of
        Some life \<Rightarrow> drain_lifecycle cfg life time inclusive state s
      | None \<Rightarrow> Some (drain_pending cfg time inclusive state (sm_pending s) s))"


subsection \<open>The observer\<close>

definition sim_start :: "bool \<Rightarrow> simulation \<Rightarrow> simulation" where
  "sim_start live s = emit_row (Pair_Start_Row live) s"

definition sim_before :: "pair_config \<Rightarrow> int \<Rightarrow> market_state \<Rightarrow> simulation \<Rightarrow> simulation outcome" where
  "sim_before cfg time state s = sim_drain cfg time False state s"

fun decide_each :: "pair_config \<Rightarrow> int \<Rightarrow> market_state \<Rightarrow> constraint_id list \<Rightarrow> simulation \<Rightarrow> simulation outcome" where
  "decide_each cfg time state [] s = Some (Inr s)"
| "decide_each cfg time state (i # rest) s =
     run_then (if i \<notin> sm_attempted s then sim_decide cfg time state i s else Some (Inr s)) (decide_each cfg time state rest)"

definition sim_after :: "pair_config \<Rightarrow> replay_frame \<Rightarrow> market_state \<Rightarrow> simulation \<Rightarrow> simulation outcome" where
  "sim_after cfg frame state s =
     (case fr_market_id frame of
        None \<Rightarrow> Some (Inr s)
      | Some market \<Rightarrow>
          if \<not> fr_applied frame then Some (Inr s)
          else
            let s = s\<lparr>sm_last_update := (sm_last_update s)(market \<mapsto> fr_time frame)\<rparr>
            in (case pc_dependencies cfg market of
                  None \<Rightarrow> Some (Inr s)
                | Some ids \<Rightarrow> decide_each cfg (fr_time frame) state ids s))"

text \<open>What is still under way at the end: events keep their reservations, pending orders release theirs.\<close>

fun unobserved_events :: "int \<Rightarrow> lifecycle_event list \<Rightarrow> simulation \<Rightarrow> simulation" where
  "unobserved_events time [] s = s\<lparr>sm_events := []\<rparr>"
| "unobserved_events time (ev # evs) s =
     unobserved_events time evs
       ((emit_row (Unobserved_Event_Row (le_order ev + 1) (le_response ev) (le_time ev) time) s)\<lparr>sm_unobserved := sm_unobserved s + 1\<rparr>)"

fun unobserved_orders :: "int \<Rightarrow> pending_order list \<Rightarrow> simulation \<Rightarrow> simulation" where
  "unobserved_orders time [] s = s\<lparr>sm_pending := []\<rparr>"
| "unobserved_orders time (p # ps) s =
     (let a = sm_attempts s ! pd_attempt p in
      unobserved_orders time ps
        ((emit_row (Unobserved_Order_Row (pa_id a) (pd_leg p) (pd_arrival p) time)
           (s\<lparr>sm_available := sm_available s + pick (pd_leg p) (pa_reserve a)\<rparr>))\<lparr>sm_unobserved := sm_unobserved s + 1\<rparr>))"

fun settle_rest :: "pair_config \<Rightarrow> market_settlement list \<Rightarrow> simulation \<Rightarrow> simulation outcome" where
  "settle_rest cfg [] s = Some (Inr s)"
| "settle_rest cfg (st # sts) s =
     run_then (sim_settle cfg st (s\<lparr>sm_settlement_index := sm_settlement_index s + 1\<rparr>)) (settle_rest cfg sts)"

definition sim_finish :: "pair_config \<Rightarrow> int \<Rightarrow> market_state \<Rightarrow> simulation \<Rightarrow> simulation outcome" where
  "sim_finish cfg time state s =
     run_then (sim_drain cfg time True state s) (\<lambda>s.
       case sy_lifecycle (pc_policy cfg) of
         None \<Rightarrow> Some (Inr (unobserved_orders time (sm_pending s) s))
       | Some life \<Rightarrow>
           run_then (settle_rest cfg (drop (sm_settlement_index s) (lp_settlements life)) (unobserved_events time (sm_events s) s)) (\<lambda>s.
             Some (and_then (finish_positions time (sm_positions s)) (\<lambda>positions. Inr (s\<lparr>sm_positions := positions\<rparr>)))))"


subsection \<open>Reports\<close>

record lifecycle_report =
  lr_orders :: nat
  lr_unknown :: nat
  lr_unsettled :: nat
  lr_reserved :: int
  lr_settlement_cash :: int
  lr_cash :: int
  lr_complete :: bool
  lr_net_pnl :: "int option"
  lr_capital_time :: capital_time

record pair_report =
  pr_attempts :: nat
  pr_completed :: nat
  pr_unbalanced :: nat
  pr_unobserved :: u64
  pr_evaluated :: u64
  pr_declines :: "string \<rightharpoonup> u64"
  pr_capital :: int
  pr_available :: int
  pr_notional :: int
  pr_fees :: int
  pr_spent :: int
  pr_floor :: int
  pr_net_bound :: int
  pr_sizing :: "(u64 \<times> u64) option"
  pr_lifecycle :: "lifecycle_report option"
  pr_residual_exit :: "int list option"

definition matched_payout :: "pair_attempt \<Rightarrow> int" where
  "matched_payout a = min (ex_quantity (fst (pa_fills a))) (ex_quantity (snd (pa_fills a))) * 10000"

fun payout_floor :: "pair_attempt list \<Rightarrow> int \<Rightarrow> string + int" where
  "payout_floor [] floor = Inr floor"
| "payout_floor (a # as) floor =
     (if cash_limit - matched_payout a < floor then Inl ''aggregate payout exceeds study bound''
      else payout_floor as (floor + matched_payout a))"

definition report_lifecycle :: "pair_config \<Rightarrow> simulation \<Rightarrow> string + lifecycle_report" where
  "report_lifecycle cfg s =
     (let unknown = length (filter (\<lambda>order. \<not> or_responded order) (sm_orders s));
          unresolved = unsettled_lots (sm_positions s);
          final_cash = sy_capital (pc_policy cfg) - sm_spent s + sm_settlement_cash s + sm_exit_credit s;
          reserved = (\<Sum>a \<leftarrow> sm_attempts s. fst (pa_reserve a) + snd (pa_reserve a));
          complete = (unresolved = 0 \<and> unknown = 0 \<and> reserved = 0)
      in if reserved \<noteq> sm_reserved_total s then Inl ''reservation ledger disagreement''
         else and_then (check_cash cfg s) (\<lambda>s.
           Inr \<lparr>lr_orders = length (sm_orders s), lr_unknown = unknown, lr_unsettled = unresolved, lr_reserved = reserved,
             lr_settlement_cash = sm_settlement_cash s, lr_cash = final_cash, lr_complete = complete,
             lr_net_pnl = (if complete then Some (final_cash - sy_capital (pc_policy cfg) - sy_operating_cost (pc_policy cfg)) else None),
             lr_capital_time = sp_time (sm_positions s)\<rparr>))"

definition sim_report :: "pair_config \<Rightarrow> simulation \<Rightarrow> string + pair_report" where
  "sim_report cfg s =
     (let policy = pc_policy cfg;
          complete = length (filter (\<lambda>a. ex_quantity (fst (pa_fills a)) = pa_quantity a \<and> ex_quantity (snd (pa_fills a)) = pa_quantity a) (sm_attempts s));
          legged = length (filter (\<lambda>a. ex_quantity (fst (pa_fills a)) \<noteq> ex_quantity (snd (pa_fills a))) (sm_attempts s))
      in and_then (payout_floor (sm_attempts s) 0) (\<lambda>floor.
         and_then (if sy_lifecycle policy = None then Inr None
                   else and_then (report_lifecycle cfg s) (\<lambda>r. Inr (Some r))) (\<lambda>life.
           let exits = sy_residual_exit policy \<noteq> None in
           Inr \<lparr>pr_attempts = length (sm_attempts s), pr_completed = complete, pr_unbalanced = legged,
             pr_unobserved = sm_unobserved s, pr_evaluated = sm_evaluated s, pr_declines = sm_declines s, pr_capital = sy_capital policy,
             pr_available = sm_available s, pr_notional = sm_notional s,
             pr_fees = sm_spent s - sm_notional s + (if exits then sm_exit_fees s else 0), pr_spent = sm_spent s, pr_floor = floor,
             pr_net_bound = floor - sm_spent s + (if exits then sm_exit_credit s else 0) - sy_operating_cost policy,
             pr_sizing = (if sy_optimal_sizing policy then Some (sm_sizing_evaluations s, sm_sizing_pruned s) else None),
             pr_lifecycle = life,
             pr_residual_exit = (if exits then Some [sm_exit_quantity s, sm_exit_credit s, sm_exit_fees s, sm_exit_basis s,
               sm_unconfirmed_credit s] else None)\<rparr>)))"

definition sim_next_event_time :: "pair_config \<Rightarrow> simulation \<Rightarrow> int option" where
  "sim_next_event_time cfg s =
     (case sy_lifecycle (pc_policy cfg) of
        Some life \<Rightarrow>
          let first = (case sm_events s of [] \<Rightarrow> None | ev # evs \<Rightarrow> Some (le_time ev))
          in if sm_settlement_index s < length (lp_settlements life)
             then let time = st_time (lp_settlements life ! sm_settlement_index s)
                  in Some (case first of None \<Rightarrow> time | Some t \<Rightarrow> min t time)
             else first
      | None \<Rightarrow> (case sm_pending s of [] \<Rightarrow> None | p # ps \<Rightarrow> Some (pd_arrival p)))"

fun holdings_from :: "nat \<Rightarrow> pair_attempt list \<Rightarrow> study_positions \<Rightarrow> string + (constraint_id \<times> leg_template \<times> int) list" where
  "holdings_from index [] positions = Inr []"
| "holdings_from index (a # as) positions =
     and_then (held_quantity index 0 positions) (\<lambda>q0.
     and_then (held_quantity index 1 positions) (\<lambda>q1.
     and_then (holdings_from (index + 1) as positions) (\<lambda>rest.
       Inr ((if q0 \<noteq> 0 then [(pa_id a, fst (pa_legs a), q0)] else []) @
            (if q1 \<noteq> 0 then [(pa_id a, snd (pa_legs a), q1)] else []) @ rest))))"

definition sim_checkpoint :: "pair_config \<Rightarrow> int \<Rightarrow> simulation \<Rightarrow> string + simulation" where
  "sim_checkpoint cfg time s =
     and_then (holdings_from 0 (sm_attempts s) (sm_positions s)) (\<lambda>holdings.
       Inr (emit_row (Paper_Status_Row time (length (sm_attempts s)) (sm_evaluated s) (sm_declines s) (length (sm_orders s))
         (sm_available s) (sm_reserved_total s) (sm_spent s) holdings) s))"

text \<open>Future settlement labels never enter a prospective simulation.\<close>

definition make_execution_simulation :: "constraint_registry \<Rightarrow> study_policy \<Rightarrow> bool \<Rightarrow> string + pair_config \<times> simulation" where
  "make_execution_simulation constraints policy live =
     (if live \<and> (case sy_lifecycle policy of None \<Rightarrow> True | Some life \<Rightarrow> lp_settlements life \<noteq> [])
      then Inl ''live paper requires lifecycle policy without settlement labels''
      else make_simulation constraints policy)"

end
