(* ===== verification/Pair_Fills.thy ===== *)
theory Pair_Fills
  imports Pair_Execution
begin

text \<open>
  What a walk along a book comes to in the paired study: it never fails on a book the market state can hold,
  takes whole steps within the quantity and the limit, costs no more than the reserve of what it took,
  and changes nothing but the depletion and the rows, and those only when it executes.
\<close>

subsection \<open>Sane policies\<close>

definition step_ok :: "int \<Rightarrow> bool" where
  "step_ok step \<longleftrightarrow> step = 1 \<or> step = 100"

definition bps_ok :: "int \<Rightarrow> bool" where
  "bps_ok bps \<longleftrightarrow> 0 \<le> bps \<and> bps \<le> 10000"

definition fills_policy :: "study_policy \<Rightarrow> bool" where
  "fills_policy p \<longleftrightarrow> step_ok (sy_quantity_step p) \<and> bps_ok (sy_fill_bps p) \<and>
     (\<forall>r. sy_residual_exit p = Some r \<longrightarrow> bps_ok (re_fill_bps r)) \<and> (\<forall>m fee. sy_fees p m = Some fee \<longrightarrow> policy_ok fee)"

lemma the_price_raw: "0 \<le> p \<Longrightarrow> p \<le> 10000 \<Longrightarrow> price_raw (the (price_from_raw p)) = p"
  by (simp add: price_from_raw_def limits)

lemma step_positive: "step_ok step \<Longrightarrow> 0 < step"
  by (auto simp: step_ok_def)


subsection \<open>Visiting a book\<close>

lemma visit_entries_invariant:
  assumes "\<And>e s. e \<in> set es \<Longrightarrow> P s \<Longrightarrow> P (snd (visitor (entry_level e) s))"
  shows "P s \<Longrightarrow> P (visit_entries visitor es s)"
  using assms
proof (induction es arbitrary: s)
  case (Cons e es)
  have "P (snd (visitor (entry_level e) s))" using Cons.prems by simp
  then show ?case using Cons.IH [of "snd (visitor (entry_level e) s)"] Cons.prems(2)
    by (cases "visitor (entry_level e) s") auto
qed simp

lemma visit_levels_invariant:
  assumes "book_ok book" "P s"
    and "\<And>l s. 0 < quantity_raw (lv_quantity l) \<Longrightarrow> P s \<Longrightarrow> P (snd (visitor l s))"
  shows "P (visit_levels side visitor book s)"
proof -
  have step: "P (visit_entries visitor es s)" if "levels_ok es" for es
    using assms(2)
  proof (rule visit_entries_invariant [rotated])
    fix e s assume e: "e \<in> set es" and P: "P s"
    have "quantity_raw (lv_quantity (entry_level e)) = snd e" using entry_level_raw [OF that e] by simp
    moreover have "0 < snd e" using that e by (cases e) (auto simp: levels_ok_def)
    ultimately show "P (snd (visitor (entry_level e) s))" using assms(3) P by simp
  qed
  have rev: "P (visit_entries visitor (rev es) s)" if "levels_ok es" for es
    using assms(2)
  proof (rule visit_entries_invariant [rotated])
    fix e s assume e: "e \<in> set (rev es)" and P: "P s"
    have "quantity_raw (lv_quantity (entry_level e)) = snd e" using entry_level_raw [OF that] e by simp
    moreover have "0 < snd e" using that e by (cases e) (auto simp: levels_ok_def)
    ultimately show "P (snd (visitor (entry_level e) s))" using assms(3) P by simp
  qed
  show ?thesis using assms(1,2) step rev by (auto simp: visit_levels_def book_ok_def split: side.splits)
qed


subsection \<open>The state of a walk\<close>

text \<open>The fills so far are a ladder of charges; a sale has its credits within its notional.\<close>

definition walked :: "fee_policy \<Rightarrow> int \<Rightarrow> bool \<Rightarrow> int \<Rightarrow> int \<Rightarrow> execution \<Rightarrow> fee_accumulator \<Rightarrow> (quantity \<times> price) list \<Rightarrow> bool" where
  "walked fee step sell quantity limit r acc fills \<longleftrightarrow>
     fills_within step (if sell then 10000 else limit) fills \<and> fills_quantity fills = ex_quantity r \<and>
     acc_nat acc \<le> 10000 * length fills \<and> ex_quantity r \<le> quantity \<and> step dvd ex_quantity r \<and>
     0 \<le> ex_debit r \<and> 0 \<le> ex_credit r \<and> ex_credit r \<le> ex_notional r \<and> 0 \<le> ex_worst_price r \<and> ex_worst_price r \<le> 10000 \<and>
     ex_notional r \<le> 10000 * ex_quantity r \<and>
     (ex_quantity r \<noteq> 0 \<longrightarrow> (if sell then limit \<le> ex_worst_price r else ex_worst_price r \<le> limit)) \<and>
     (sell \<longrightarrow> ex_debit r = 0) \<and>
     (\<not> sell \<longrightarrow> ex_credit r = 0 \<and> (\<exists>n. ladder charge_buy_fill fee fills \<lparr>rounding_micro = 0\<rparr> = Some (n, ex_debit r, acc)))"

definition same_but_depletion :: "bool \<Rightarrow> simulation \<Rightarrow> simulation \<Rightarrow> bool" where
  "same_but_depletion execute s s' \<longleftrightarrow>
     (if execute then s' = s\<lparr>sm_consumed := sm_consumed s', sm_rows := sm_rows s'\<rparr> else s' = s)"

lemma same_but_depletion_refl [simp]: "same_but_depletion execute s s"
  by (simp add: same_but_depletion_def)

lemma same_but_depletion_deplete:
  assumes "same_but_depletion True s s'" "deplete key used taken row s' = Inr s''"
  shows "same_but_depletion True s s''"
proof -
  obtain c0 r0 where s': "s' = s\<lparr>sm_consumed := c0, sm_rows := r0\<rparr>"
    using assms(1) that [of "sm_rows s'" "sm_consumed s'"] unfolding same_but_depletion_def by simp
  have "s'' = emit_row row (s'\<lparr>sm_consumed := (sm_consumed s')(key \<mapsto> used + taken)\<rparr>)"
    using assms(2) by (simp add: deplete_def split: if_splits)
  then show ?thesis by (simp add: s' same_but_depletion_def emit_row_def)
qed

definition walk_state_ok :: "fee_policy \<Rightarrow> int \<Rightarrow> bool \<Rightarrow> int \<Rightarrow> int \<Rightarrow> bool \<Rightarrow> simulation \<Rightarrow> walk_state \<Rightarrow> bool" where
  "walk_state_ok fee step sell quantity limit execute s0 w \<longleftrightarrow>
     (\<exists>r acc s. w = Inr (r, acc, s) \<and> same_but_depletion execute s0 s \<and>
        (\<exists>fills. walked fee step sell quantity limit r acc fills))"

lemma no_execution_simps [simp]:
  "ex_quantity no_execution = 0" "ex_notional no_execution = 0" "ex_debit no_execution = 0" "ex_credit no_execution = 0"
  "ex_worst_price no_execution = 0" "ex_levels no_execution = 0"
  by (simp_all add: no_execution_def)

lemma walked_start: "0 \<le> quantity \<Longrightarrow> walked fee step sell quantity limit no_execution \<lparr>rounding_micro = 0\<rparr> []"
  by (simp add: walked_def fills_quantity_def)

lemma walked_nonneg: "0 < step \<Longrightarrow> walked fee step sell quantity limit r acc fills \<Longrightarrow>
    0 \<le> ex_quantity r \<and> int (length fills) \<le> ex_quantity r"
proof -
  assume step: "0 < step" and w: "walked fee step sell quantity limit r acc fills"
  then have "fills_within step (if sell then 10000 else limit) fills" "fills_quantity fills = ex_quantity r"
    unfolding walked_def by blast+
  with fills_within_bounds [OF step this(1)] have b: "int (length fills) * step \<le> ex_quantity r" by simp
  have "int (length fills) * 1 \<le> int (length fills) * step" using step by (intro mult_left_mono) auto
  with b show ?thesis by linarith
qed

text \<open>One fill of a walk.\<close>

lemma walked_sell:
  assumes w: "walked fee step True quantity limit r acc fills" and step: "0 < step" and pol: "policy_ok fee"
    and q: "0 < q" "step dvd q" "ex_quantity r + q \<le> quantity" "quantity \<le> quantity_limit"
    and p: "0 \<le> p" "p \<le> 10000" "limit \<le> p"
  shows "\<exists>credit acc'. credit_sell_fill (quantity_value q) (the (price_from_raw p)) fee acc = Some (credit, acc') \<and>
    walked fee step True quantity limit (r\<lparr>ex_quantity := ex_quantity r + q, ex_notional := ex_notional r + cash_raw (fr_notional credit),
      ex_credit := ex_credit r + cash_raw (fr_credit credit), ex_worst_price := p, ex_levels := ex_levels r + 1\<rparr>) acc'
      (fills @ [(quantity_value q, the (price_from_raw p))])"
proof -
  note n = walked_nonneg [OF step w]
  have qr: "quantity_raw (quantity_value q) = q" using q n by (simp add: limits)
  have pr: "price_raw (the (price_from_raw p)) = p" by (rule the_price_raw [OF p(1,2)])
  have "acc_nat acc \<le> 1000000000000"
    using w n q by (simp add: walked_def limits)
  then obtain credit acc' where c: "credit_sell_fill (quantity_value q) (the (price_from_raw p)) fee acc = Some (credit, acc')"
      "acc_nat acc' \<le> acc_nat acc + 10000"
    using credit_total [OF pol, of "quantity_value q" acc "the (price_from_raw p)"] q n by (auto simp: qr limits)
  define v where "v = q * p"
  have cash: "cash_raw (fr_notional credit) = v" "cash_raw (fr_credit credit) \<le> cash_raw (fr_notional credit)"
    using credit_accounts [OF c(1)] by (simp_all add: qr pr v_def)
  have "v \<le> 10000 * q" using p q by (simp add: v_def mult.commute)
  with w c cash q p show ?thesis
    by (auto simp: walked_def fills_within_def fills_quantity_def qr pr mod_eq_0_iff_dvd distrib_left intro!: exI)
qed

lemma walked_buy:
  assumes w: "walked fee step False quantity limit r acc fills" and step: "0 < step" and pol: "policy_ok fee"
    and q: "0 < q" "step dvd q" "ex_quantity r + q \<le> quantity" "quantity \<le> quantity_limit"
    and p: "0 \<le> p" "p \<le> 10000" "p \<le> limit"
  shows "\<exists>charge acc'. charge_buy_fill (quantity_value q) (the (price_from_raw p)) fee acc = Some (charge, acc') \<and>
    walked fee step False quantity limit (r\<lparr>ex_quantity := ex_quantity r + q, ex_notional := ex_notional r + cash_raw (fc_notional charge),
      ex_debit := ex_debit r + cash_raw (fc_debit charge), ex_worst_price := p, ex_levels := ex_levels r + 1\<rparr>) acc'
      (fills @ [(quantity_value q, the (price_from_raw p))])"
proof -
  note n = walked_nonneg [OF step w]
  have qr: "quantity_raw (quantity_value q) = q" using q n by (simp add: limits)
  have pr: "price_raw (the (price_from_raw p)) = p" by (rule the_price_raw [OF p(1,2)])
  have "acc_nat acc \<le> 1000000000000"
    using w n q by (simp add: walked_def limits)
  then obtain charge acc' where c: "charge_buy_fill (quantity_value q) (the (price_from_raw p)) fee acc = Some (charge, acc')"
    using charge_total [OF pol, of "quantity_value q" acc "the (price_from_raw p)"] q n by (auto simp: qr limits)
  define v where "v = q * p"
  have cash: "cash_raw (fc_notional charge) = v" "acc_nat acc' \<le> acc_nat acc + 10000"
    using charge_accounts [OF c] charge_acc_growth [OF c] by (simp_all add: qr pr v_def)
  obtain m where lad: "ladder charge_buy_fill fee fills \<lparr>rounding_micro = 0\<rparr> = Some (m, ex_debit r, acc)"
    using w by (auto simp: walked_def)
  then have "ladder charge_buy_fill fee (fills @ [(quantity_value q, the (price_from_raw p))]) \<lparr>rounding_micro = 0\<rparr> =
      Some (m + cash_raw (fc_notional charge), ex_debit r + cash_raw (fc_debit charge), acc')"
    by (simp add: fees.ladder_append c)
  moreover have "v \<le> 10000 * q" "0 \<le> v" using p q by (simp_all add: v_def mult.commute)
  ultimately show ?thesis using w c cash q p
    by (auto simp: walked_def fills_within_def fills_quantity_def qr pr mod_eq_0_iff_dvd distrib_left intro!: exI)
qed


lemma leg_price_bounds: "0 \<le> leg_price leg l" "leg_price leg l \<le> 10000"
  using price_raw_bounds [of "lv_price l"] by (simp_all add: leg_price_def)

text \<open>What is available of a level, and the whole steps taken of it.\<close>

lemma scaled_le: "bps_ok bps \<Longrightarrow> 0 \<le> (a :: int) \<Longrightarrow> 0 \<le> a * bps div 10000 \<and> a * bps div 10000 \<le> a"
proof -
  assume b: "bps_ok bps" and a: "0 \<le> a"
  then have "a * bps \<le> a * 10000" by (intro mult_left_mono) (auto simp: bps_ok_def)
  then have "a * bps div 10000 \<le> a * 10000 div 10000" by (intro zdiv_mono1) auto
  with a b show ?thesis by (simp add: bps_ok_def pos_imp_zdiv_nonneg_iff)
qed

lemma walk_available_bounds:
  assumes "fills_policy (pc_policy cfg)" "sell \<and> execute \<Longrightarrow> sy_residual_exit (pc_policy cfg) \<noteq> None"
  shows "0 \<le> walk_available cfg sell execute used l" "walk_available cfg sell execute used l \<le> quantity_limit"
    "0 < walk_available cfg sell execute used l \<Longrightarrow>
     walk_available cfg sell execute used l + used \<le> quantity_raw (lv_quantity l)"
proof -
  define a where "a = min (if used < quantity_raw (lv_quantity l) then quantity_raw (lv_quantity l) - used else 0) quantity_limit"
  have a: "0 \<le> a" "a \<le> quantity_limit" "0 < a \<Longrightarrow> a + used \<le> quantity_raw (lv_quantity l)"
    by (auto simp: a_def limits min_def)
  define bps where "bps = (if sell then re_fill_bps (the (sy_residual_exit (pc_policy cfg))) else sy_fill_bps (pc_policy cfg))"
  have w: "walk_available cfg sell execute used l = (if execute then a * bps div 10000 else a)" "execute \<Longrightarrow> bps_ok bps"
    using assms by (auto simp: walk_available_def a_def bps_def fills_policy_def Let_def)
  have s: "execute \<Longrightarrow> 0 \<le> a * bps div 10000 \<and> a * bps div 10000 \<le> a" by (rule scaled_le [OF w(2) a(1)])
  show "0 \<le> walk_available cfg sell execute used l" "walk_available cfg sell execute used l \<le> quantity_limit"
    "0 < walk_available cfg sell execute used l \<Longrightarrow>
     walk_available cfg sell execute used l + used \<le> quantity_raw (lv_quantity l)"
    using s a unfolding w(1) by (auto split: if_splits)
qed

lemma whole_steps:
  assumes "step_ok step" "0 \<le> (n :: int)"
  shows "0 \<le> n div step * step" "n div step * step \<le> n" "step dvd n div step * step"
  using assms step_positive [OF assms(1)] int_le_div_iff [of step "n div step" n]
  by (simp_all add: pos_imp_zdiv_nonneg_iff)

lemma walk_level_keeps:
  assumes pol: "fills_policy (pc_policy cfg)" and exit: "sell \<and> execute \<Longrightarrow> sy_residual_exit (pc_policy cfg) \<noteq> None"
    and fee: "sy_fees (pc_policy cfg) (lt_market leg) = Some fee" and q: "quantity \<le> quantity_limit"
    and w: "walk_state_ok fee (sy_quantity_step (pc_policy cfg)) sell quantity limit execute s0 w"
  shows "walk_state_ok fee (sy_quantity_step (pc_policy cfg)) sell quantity limit execute s0
    (snd (walk_level cfg sell leg quantity limit execute l w))"
proof -
  let ?step = "sy_quantity_step (pc_policy cfg)" and ?p = "leg_price leg l"
  obtain r acc s fills where state: "w = Inr (r, acc, s)" "same_but_depletion execute s0 s"
    "walked fee ?step sell quantity limit r acc fills"
    using w unfolding walk_state_ok_def by blast
  have step: "step_ok ?step" and fok: "policy_ok fee" using pol fee by (auto simp: fills_policy_def)
  note p = leg_price_bounds [of leg l]
  define used where "used = consumed_at s (walk_key sell leg ?p)"
  define av where "av = walk_available cfg sell execute used l"
  define taken where "taken = min av (quantity - ex_quantity r) div ?step * ?step"
  have av: "0 \<le> av" "av \<le> quantity_limit" "0 < av \<Longrightarrow> av + used \<le> quantity_raw (lv_quantity l)"
    unfolding av_def by (rule walk_available_bounds [OF pol exit]; assumption?)+
  have room: "0 \<le> quantity - ex_quantity r" using state(3) by (simp add: walked_def)
  then have t: "0 \<le> taken" "taken \<le> min av (quantity - ex_quantity r)" "?step dvd taken"
    unfolding taken_def using whole_steps [OF step, of "min av (quantity - ex_quantity r)"] av(1) by simp_all
  show ?thesis
  proof (cases "(if sell then ?p < limit else limit < ?p) \<or> taken = 0")
    case True
    then have "snd (walk_level cfg sell leg quantity limit execute l w) = w"
      by (auto simp: walk_level_def state(1) Let_def used_def av_def taken_def)
    with w show ?thesis by simp
  next
    case False
    then have t0: "0 < taken" "ex_quantity r + taken \<le> quantity" using t by auto
    have fits: "\<not> int64_max - taken < used"
    proof -
      have "taken + used \<le> quantity_raw (lv_quantity l)" using av(3) t(2) t0(1) by linarith
      also have "\<dots> \<le> int64_max" using quantity_raw_bounds(2) [of "lv_quantity l"] by (simp only: limits)
      finally have "taken + used \<le> int64_max" .
      then show ?thesis by linarith
    qed
    have ok: "walk_state_ok fee ?step sell quantity limit execute s0
        ((if sell then walk_sell_level else walk_buy_level) cfg leg execute ?p used taken (r, acc, s))"
    proof (cases sell)
      case True
      have "walked fee ?step True quantity limit r acc fills" "limit \<le> ?p" using True state(3) False by auto
      from walked_sell [OF this(1) step_positive [OF step] fok t0(1) t(3) t0(2) q p this(2)]
      obtain credit acc' where c: "credit_sell_fill (quantity_value taken) (the (price_from_raw ?p)) fee acc = Some (credit, acc')"
        and ok: "walked fee ?step True quantity limit (r\<lparr>ex_quantity := ex_quantity r + taken,
          ex_notional := ex_notional r + cash_raw (fr_notional credit),
          ex_credit := ex_credit r + cash_raw (fr_credit credit), ex_worst_price := ?p, ex_levels := ex_levels r + 1\<rparr>) acc'
          (fills @ [(quantity_value taken, the (price_from_raw ?p))])" by blast
      show ?thesis
      proof (cases execute)
        case True
        obtain s' where s': "deplete (walk_key True leg ?p) used taken (Sell_Fill_Row leg taken ?p credit) s = Inr s'"
          using fits by (simp add: deplete_def)
        have "same_but_depletion True s0 s'" using state(2) True same_but_depletion_deplete [OF _ s'] by simp
        with \<open>sell\<close> True c ok s' show ?thesis
          by (auto simp: walk_sell_level_def walk_state_ok_def market_fee_def fee Let_def)
      next
        case False
        with \<open>sell\<close> c ok state(2) show ?thesis
          by (auto simp: walk_sell_level_def walk_state_ok_def market_fee_def fee Let_def)
      qed
    next
      case buy: False
      have "walked fee ?step False quantity limit r acc fills" "?p \<le> limit" using buy state(3) False by auto
      from walked_buy [OF this(1) step_positive [OF step] fok t0(1) t(3) t0(2) q p this(2)]
      obtain charge acc' where c: "charge_buy_fill (quantity_value taken) (the (price_from_raw ?p)) fee acc = Some (charge, acc')"
        and ok: "walked fee ?step False quantity limit (r\<lparr>ex_quantity := ex_quantity r + taken,
          ex_notional := ex_notional r + cash_raw (fc_notional charge),
          ex_debit := ex_debit r + cash_raw (fc_debit charge), ex_worst_price := ?p, ex_levels := ex_levels r + 1\<rparr>) acc'
          (fills @ [(quantity_value taken, the (price_from_raw ?p))])" by blast
      show ?thesis
      proof (cases execute)
        case True
        obtain s' where s': "deplete (walk_key False leg ?p) used taken (Buy_Fill_Row leg taken ?p charge) s = Inr s'"
          using fits by (simp add: deplete_def)
        have "same_but_depletion True s0 s'" using state(2) True same_but_depletion_deplete [OF _ s'] by simp
        with buy True c ok s' show ?thesis
          by (auto simp: walk_buy_level_def walk_state_ok_def market_fee_def fee Let_def)
      next
        case False
        with buy c ok state(2) show ?thesis
          by (auto simp: walk_buy_level_def walk_state_ok_def market_fee_def fee Let_def)
      qed
    qed
    then obtain x where x: "(if sell then walk_sell_level else walk_buy_level) cfg leg execute ?p used taken (r, acc, s) = Inr x"
      unfolding walk_state_ok_def by blast
    have "snd (walk_level cfg sell leg quantity limit execute l w) = Inr x"
      using False x by (auto simp: walk_level_def state(1) Let_def used_def av_def taken_def)
    with ok x show ?thesis by simp
  qed
qed

text \<open>The result of a walk.\<close>

definition execution_ok :: "fee_policy \<Rightarrow> int \<Rightarrow> bool \<Rightarrow> int \<Rightarrow> int \<Rightarrow> execution \<Rightarrow> bool" where
  "execution_ok fee step sell quantity limit r \<longleftrightarrow>
     0 \<le> ex_quantity r \<and> ex_quantity r \<le> quantity \<and> step dvd ex_quantity r \<and>
     0 \<le> ex_debit r \<and> 0 \<le> ex_credit r \<and> ex_credit r \<le> ex_notional r \<and> 0 \<le> ex_worst_price r \<and> ex_worst_price r \<le> 10000 \<and>
     ex_notional r \<le> 10000 * ex_quantity r \<and>
     (ex_quantity r \<noteq> 0 \<longrightarrow> (if sell then limit \<le> ex_worst_price r else ex_worst_price r \<le> limit)) \<and>
     (sell \<longrightarrow> ex_debit r = 0) \<and>
     (\<not> sell \<longrightarrow> ex_credit r = 0 \<and> ex_debit r \<le> reserve_amount fee step limit (ex_quantity r))"

lemma no_execution_ok [simp]: "0 \<le> quantity \<Longrightarrow> execution_ok fee step sell quantity limit no_execution"
  by (simp add: execution_ok_def reserve_amount_def)

lemma walked_execution:
  assumes w: "walked fee step sell quantity limit r acc fills" and step: "step_ok step" and fok: "policy_ok fee"
    and q: "quantity \<le> quantity_limit" and lim: "0 \<le> limit" "limit \<le> 10000"
  shows "execution_ok fee step sell quantity limit r"
proof -
  note n = walked_nonneg [OF step_positive [OF step] w]
  have "ex_debit r \<le> reserve_amount fee step limit (ex_quantity r)" if buy: "\<not> sell"
  proof -
    obtain m where lad: "ladder charge_buy_fill fee fills \<lparr>rounding_micro = 0\<rparr> = Some (m, ex_debit r, acc)"
      using w buy by (auto simp: walked_def)
    have bounds: "0 \<le> ex_quantity r" "ex_quantity r \<le> 100000000" "ex_quantity r mod step = 0" "fills_within step limit fills"
        "fills_quantity fills = ex_quantity r"
      using w n q buy by (auto simp: walked_def limits mod_eq_0_iff_dvd)
    have raw: "quantity_raw (quantity_value (ex_quantity r)) = ex_quantity r" "quantity_raw (quantity_value step) = step"
      "price_raw (the (price_from_raw limit)) = limit"
      using bounds step lim by (auto simp: step_ok_def the_price_raw)
    have "reserve_ok fee step (ex_quantity r)"
      using bounds step fok by (auto simp: reserve_ok_def step_ok_def)
    then obtain res where res: "buy_reservation (quantity_value (ex_quantity r)) (quantity_value step) (the (price_from_raw limit)) fee = Some res"
      "cash_raw res = reserve_amount fee step limit (ex_quantity r)"
      using buy_reservation_raw [of fee "quantity_value step" "quantity_value (ex_quantity r)" "the (price_from_raw limit)"] by (auto simp: raw)
    show ?thesis
      using reservation_covers_lemma [OF _ _ res(1) lad] bounds by (simp add: raw res(2))
  qed
  with w n show ?thesis by (auto simp: walked_def execution_ok_def)
qed

lemma walk_book_ok:
  assumes pol: "fills_policy (pc_policy cfg)" and exit: "sell \<and> execute \<Longrightarrow> sy_residual_exit (pc_policy cfg) \<noteq> None"
    and fee: "sy_fees (pc_policy cfg) (lt_market leg) = Some fee" and q: "0 \<le> quantity" "quantity \<le> quantity_limit"
    and lim: "0 \<le> limit" "limit \<le> 10000" and market: "market_ok state"
  shows "\<exists>r s'. walk_book cfg sell leg quantity limit state execute s = Inr (r, s') \<and>
    same_but_depletion execute s s' \<and> execution_ok fee (sy_quantity_step (pc_policy cfg)) sell quantity limit r"
proof (cases "find_book (lt_market leg) state")
  case None
  then show ?thesis using q by (simp add: walk_book_def)
next
  case (Some book)
  let ?step = "sy_quantity_step (pc_policy cfg)"
  have step: "step_ok ?step" and fok: "policy_ok fee" using pol fee by (auto simp: fills_policy_def)
  have "book_ok book" using market_ok_find [OF market] Some by (auto simp: find_book_def)
  then have "walk_state_ok fee ?step sell quantity limit execute s
      (visit_levels (if (lt_outcome leg = Outcome_Yes) \<noteq> sell then Ask else Bid)
        (walk_level cfg sell leg quantity limit execute) book (Inr (no_execution, \<lparr>rounding_micro = 0\<rparr>, s)))"
  proof (rule visit_levels_invariant)
    show "walk_state_ok fee ?step sell quantity limit execute s (Inr (no_execution, \<lparr>rounding_micro = 0\<rparr>, s))"
      using walked_start [OF q(1)] unfolding walk_state_ok_def by fastforce
    show "walk_state_ok fee ?step sell quantity limit execute s (snd (walk_level cfg sell leg quantity limit execute l w))"
      if "walk_state_ok fee ?step sell quantity limit execute s w" for l w
      by (rule walk_level_keeps [OF pol exit fee q(2) that]; assumption)
  qed
  then obtain r acc s' fills where r: "visit_levels (if (lt_outcome leg = Outcome_Yes) \<noteq> sell then Ask else Bid)
        (walk_level cfg sell leg quantity limit execute) book (Inr (no_execution, \<lparr>rounding_micro = 0\<rparr>, s)) = Inr (r, acc, s')"
      "same_but_depletion execute s s'" "walked fee ?step sell quantity limit r acc fills"
    unfolding walk_state_ok_def by blast
  have "execution_ok fee ?step sell quantity limit r" by (rule walked_execution [OF r(3) step fok q(2) lim])
  with r Some show ?thesis by (simp add: walk_book_def)
qed

end
