(* ===== verification/Pair_Quotes.thy ===== *)
theory Pair_Quotes
  imports Pair_Fills
begin

text \<open>
  What a quote of the paired study promises on a sane configuration: it never fails on a book of a good
  market state (but for the counters of the search), and the pair it selects takes whole steps within the
  quantity limit, its two reserves are the exact reservations of its limits, and together they are funded.
\<close>

subsection \<open>Selected pairs\<close>

definition selected_ok :: "pair_config \<Rightarrow> leg_pair \<Rightarrow> int \<Rightarrow> sized_pair \<Rightarrow> bool" where
  "selected_ok cfg legs available p \<longleftrightarrow>
     (\<exists>f0 f1. sy_fees (pc_policy cfg) (lt_market (fst legs)) = Some f0 \<and> sy_fees (pc_policy cfg) (lt_market (snd legs)) = Some f1 \<and>
        0 < quantity_raw (sp_quantity p) \<and> quantity_raw (sp_quantity p) \<le> quantity_limit \<and>
        sy_quantity_step (pc_policy cfg) dvd quantity_raw (sp_quantity p) \<and>
        cash_raw (sz_reservation (fst (sp_legs p))) =
          reserve_amount f0 (sy_quantity_step (pc_policy cfg)) (price_raw (sz_limit (fst (sp_legs p)))) (quantity_raw (sp_quantity p)) \<and>
        cash_raw (sz_reservation (snd (sp_legs p))) =
          reserve_amount f1 (sy_quantity_step (pc_policy cfg)) (price_raw (sz_limit (snd (sp_legs p)))) (quantity_raw (sp_quantity p)) \<and>
        cash_raw (sz_reservation (fst (sp_legs p))) + cash_raw (sz_reservation (snd (sp_legs p))) \<le> available)"

lemma leg_offer_reserve:
  assumes "leg_ok leg" "0 < q" "q \<le> 100000000" "q \<le> levels_total (bd_levels leg)" "stepped step leg" "q mod step = 0"
  shows "cash_raw (sz_reservation (the (leg_offer step leg q))) =
    reserve_amount (bd_fees leg) step (price_raw (sz_limit (the (leg_offer step leg q)))) q"
  using offer_reserve(1) [OF assms] by (simp add: offer_limit_def)

lemma sized_pair_selected:
  assumes "size_buy_pair ds limits = Some r" and "sr_quote r = Some p"
  shows "0 < quantity_raw (sp_quantity p) \<and> quantity_raw (sp_quantity p) \<le> quantity_limit \<and>
    quantity_raw (sl_step limits) dvd quantity_raw (sp_quantity p) \<and>
    cash_raw (sz_reservation (fst (sp_legs p))) =
      reserve_amount (bd_fees (fst ds)) (quantity_raw (sl_step limits)) (price_raw (sz_limit (fst (sp_legs p)))) (quantity_raw (sp_quantity p)) \<and>
    cash_raw (sz_reservation (snd (sp_legs p))) =
      reserve_amount (bd_fees (snd ds)) (quantity_raw (sl_step limits)) (price_raw (sz_limit (snd (sp_legs p)))) (quantity_raw (sp_quantity p)) \<and>
    cash_raw (sz_reservation (fst (sp_legs p))) + cash_raw (sz_reservation (snd (sp_legs p))) \<le> cash_raw (sl_available limits)"
proof -
  have ok: "pair_ok ds limits" using assms by (auto simp: valid_pair invalid_sizing_def split: if_splits)
  then have "pair_outcome ds limits r" using assms(1) search_run_spec [OF ok] by (auto simp: valid_pair)
  then obtain q where q: "pair_candidate ds limits q" "p = pair_value ds limits q"
    using assms(2) ok by (cases "sr_status r") (auto simp: pair_outcome_def pair_optimum_def)
  have grid: "pair_grid ds limits q" and funded: "pair_reserve ds limits q \<le> cash_raw (sl_available limits)"
    using q(1) by (simp_all add: pair_candidate_def pair_funded_def)
  have range: "0 < q" "q \<le> 100000000" "q mod pair_step limits = 0"
    using grid pair_ok_simps(5) [OF ok] by (simp_all add: pair_grid_def)
  have fields: "quantity_raw (sp_quantity p) = q" "sp_legs p = pair_offer ds limits q"
    using range(1,2) by (simp_all add: q(2) pair_value_def)
  have covers: "depth_covers (pair_step limits) (pair_legs ds limits) q" using grid by (simp add: pair_grid_def)
  have "pair_reserve ds limits q = cash_raw (sz_reservation (fst (pair_offer ds limits q))) +
      cash_raw (sz_reservation (snd (pair_offer ds limits q)))"
    by (simp add: pair_reserve_def pair_legs_def pair_offer_def)
  with funded range covers show ?thesis
    unfolding fields
    by (auto simp: depth_covers_def pair_legs_def pair_offer_def leg_offer_reserve limits mod_eq_0_iff_dvd)
qed


subsection \<open>Sane configurations\<close>

definition lifecycle_policy_ok :: "lifecycle_policy \<Rightarrow> bool" where
  "lifecycle_policy_ok life \<longleftrightarrow>
     0 \<le> fst (lp_response_latency life) \<and> 0 \<le> snd (lp_response_latency life) \<and>
     sorted (map st_time (lp_settlements life)) \<and> (\<forall>st \<in> set (lp_settlements life). 0 \<le> st_time st \<and> st_time st \<le> int64_max)"

definition residual_policy_ok :: "residual_exit_policy \<Rightarrow> bool" where
  "residual_policy_ok config \<longleftrightarrow> 0 \<le> re_latency config \<and> 0 \<le> re_response_latency config \<and>
     0 \<le> re_minimum_price config \<and> re_minimum_price config \<le> 10000"

definition study_policy_ok :: "study_policy \<Rightarrow> bool" where
  "study_policy_ok p \<longleftrightarrow> fills_policy p \<and> 0 \<le> sy_capital p \<and> sy_capital p \<le> cash_limit \<and>
     sy_quantity_step p \<le> sy_quantity_cap p \<and> sy_quantity_cap p \<le> quantity_limit \<and>
     0 \<le> sy_min_margin p \<and> sy_min_margin p \<le> cash_limit \<and> 0 \<le> fst (sy_latency p) \<and> 0 \<le> snd (sy_latency p) \<and>
     sy_max_sizing_evaluations p \<noteq> 0 \<and>
     (\<forall>life. sy_lifecycle p = Some life \<longrightarrow> lifecycle_policy_ok life) \<and>
     (\<forall>config. sy_residual_exit p = Some config \<longrightarrow> residual_policy_ok config)"

definition pair_config_ok :: "pair_config \<Rightarrow> bool" where
  "pair_config_ok cfg \<longleftrightarrow> study_policy_ok (pc_policy cfg) \<and>
     (\<forall>i legs. pc_legs cfg i = Some legs \<longrightarrow>
        sy_fees (pc_policy cfg) (lt_market (fst legs)) \<noteq> None \<and> sy_fees (pc_policy cfg) (lt_market (snd legs)) \<noteq> None) \<and>
     (\<forall>m ids. pc_dependencies cfg m = Some ids \<longrightarrow> (\<forall>i \<in> set ids. pc_legs cfg i \<noteq> None))"

lemma pair_config_okD:
  assumes "pair_config_ok cfg"
  shows "fills_policy (pc_policy cfg)" "step_ok (sy_quantity_step (pc_policy cfg))" "0 < sy_quantity_step (pc_policy cfg)"
    "sy_quantity_step (pc_policy cfg) \<le> sy_quantity_cap (pc_policy cfg)" "sy_quantity_cap (pc_policy cfg) \<le> quantity_limit"
    "\<And>m fee. sy_fees (pc_policy cfg) m = Some fee \<Longrightarrow> policy_ok fee"
  using assms step_positive by (auto simp: pair_config_ok_def study_policy_ok_def fills_policy_def)

lemma config_fees:
  assumes "pair_config_ok cfg" "pc_legs cfg i = Some legs"
  obtains f0 f1 where "sy_fees (pc_policy cfg) (lt_market (fst legs)) = Some f0" "sy_fees (pc_policy cfg) (lt_market (snd legs)) = Some f1"
  using assms unfolding pair_config_ok_def by blast

lemma reserve_ok_step: "step_ok step \<Longrightarrow> policy_ok fee \<Longrightarrow> 0 \<le> q \<Longrightarrow> q \<le> quantity_limit \<Longrightarrow> step dvd q \<Longrightarrow> reserve_ok fee step q"
  by (auto simp: reserve_ok_def step_ok_def limits)

lemma order_reserve_eq:
  assumes cfg: "pair_config_ok cfg" and fee: "sy_fees (pc_policy cfg) (lt_market leg) = Some fee"
    and q: "0 \<le> q" "q \<le> quantity_limit" "sy_quantity_step (pc_policy cfg) dvd q" and p: "0 \<le> p" "p \<le> 10000"
  shows "order_reserve cfg leg q p = Inr (reserve_amount fee (sy_quantity_step (pc_policy cfg)) p q)"
proof -
  have step: "step_ok (sy_quantity_step (pc_policy cfg))" by (rule pair_config_okD(2) [OF cfg])
  have raw: "quantity_raw (quantity_value q) = q"
    "quantity_raw (quantity_value (sy_quantity_step (pc_policy cfg))) = sy_quantity_step (pc_policy cfg)"
    "price_raw (the (price_from_raw p)) = p"
    using q p step by (auto simp: step_ok_def the_price_raw limits)
  have "reserve_ok fee (sy_quantity_step (pc_policy cfg)) q"
    using step pair_config_okD(6) [OF cfg fee] q by (rule reserve_ok_step)
  from reserve_amount_bounds [OF this p] this show ?thesis
    by (simp add: order_reserve_def market_fee_def fee buy_reservation_eq raw)
qed


subsection \<open>Quotes\<close>

definition same_but_counts :: "simulation \<Rightarrow> simulation \<Rightarrow> bool" where
  "same_but_counts s s' \<longleftrightarrow>
     s' = s\<lparr>sm_declines := sm_declines s', sm_sizing_evaluations := sm_sizing_evaluations s', sm_sizing_pruned := sm_sizing_pruned s'\<rparr>"

definition quote_error :: "simulation \<Rightarrow> string \<Rightarrow> bool" where
  "quote_error s e \<longleftrightarrow> e = ''sizing counter overflow'' \<or>
     (e = ''net sizing input/arithmetic invariant'' \<and> cash_limit < sm_available s)"

definition quoted :: "pair_config \<Rightarrow> leg_pair \<Rightarrow> simulation \<Rightarrow> sized_pair option \<times> simulation \<Rightarrow> bool" where
  "quoted cfg legs s r \<longleftrightarrow> same_but_counts s (snd r) \<and> (\<forall>p. fst r = Some p \<longrightarrow> selected_ok cfg legs (sm_available s) p)"

lemma same_but_counts_simps [simp]:
  "same_but_counts s s" "same_but_counts s (decline reason s)"
  by (simp_all add: same_but_counts_def decline_def)

lemma quote_walk_ok:
  assumes cfg: "pair_config_ok cfg" and fee: "sy_fees (pc_policy cfg) (lt_market leg) = Some fee"
    and q: "0 \<le> q" "q \<le> quantity_limit" and market: "market_ok state"
  shows "\<exists>r. quote_walk cfg state s leg q = Inr r \<and> execution_ok fee (sy_quantity_step (pc_policy cfg)) False q 10000 r"
proof -
  obtain r s' where "walk_book cfg False leg q 10000 state False s = Inr (r, s')"
    "execution_ok fee (sy_quantity_step (pc_policy cfg)) False q 10000 r"
    using walk_book_ok [OF pair_config_okD(1) [OF cfg] _ fee q _ _ market, of False False 10000 s] by auto
  then show ?thesis by (simp add: quote_walk_def)
qed


lemma quote_both_ok:
  assumes cfg: "pair_config_ok cfg" and fees: "sy_fees (pc_policy cfg) (lt_market (fst legs)) = Some f0"
      "sy_fees (pc_policy cfg) (lt_market (snd legs)) = Some f1"
    and q: "0 \<le> q" "q \<le> quantity_limit" "sy_quantity_step (pc_policy cfg) dvd q" and market: "market_ok state"
  shows "\<exists>a b. quote_both cfg legs state s q = Inr (a, b) \<and>
    execution_ok f0 (sy_quantity_step (pc_policy cfg)) False q 10000 a \<and>
    execution_ok f1 (sy_quantity_step (pc_policy cfg)) False q 10000 b"
  using quote_walk_ok [OF cfg fees(1) q(1,2) market, of s] quote_walk_ok [OF cfg fees(2) q(1,2) market, of s]
  by (auto simp: quote_both_def)

lemma reserve_both_ok:
  assumes cfg: "pair_config_ok cfg" and fees: "sy_fees (pc_policy cfg) (lt_market (fst legs)) = Some f0"
      "sy_fees (pc_policy cfg) (lt_market (snd legs)) = Some f1"
    and q: "0 \<le> q" "q \<le> quantity_limit" "sy_quantity_step (pc_policy cfg) dvd q"
    and quote: "execution_ok f0 (sy_quantity_step (pc_policy cfg)) False q0 10000 (fst quote)"
      "execution_ok f1 (sy_quantity_step (pc_policy cfg)) False q1 10000 (snd quote)"
  shows "reserve_both cfg legs q quote =
    Inr (reserve_amount f0 (sy_quantity_step (pc_policy cfg)) (ex_worst_price (fst quote)) q,
         reserve_amount f1 (sy_quantity_step (pc_policy cfg)) (ex_worst_price (snd quote)) q)"
  using quote order_reserve_eq [OF cfg fees(1) q] order_reserve_eq [OF cfg fees(2) q]
  by (simp add: reserve_both_def execution_ok_def)

definition funded_at :: "pair_config \<Rightarrow> leg_pair \<Rightarrow> market_state \<Rightarrow> simulation \<Rightarrow> int \<Rightarrow> bool" where
  "funded_at cfg legs state s n \<longleftrightarrow> n = 0 \<or>
     (\<exists>quote reserves. quote_both cfg legs state s (n * sy_quantity_step (pc_policy cfg)) = Inr quote \<and>
        reserve_both cfg legs (n * sy_quantity_step (pc_policy cfg)) quote = Inr reserves \<and>
        fst reserves + snd reserves \<le> sm_available s)"

lemma funded_steps_ok:
  assumes cfg: "pair_config_ok cfg" and fees: "sy_fees (pc_policy cfg) (lt_market (fst legs)) = Some f0"
      "sy_fees (pc_policy cfg) (lt_market (snd legs)) = Some f1" and market: "market_ok state"
  shows "0 \<le> lo \<Longrightarrow> lo \<le> hi \<Longrightarrow> hi * sy_quantity_step (pc_policy cfg) \<le> quantity_limit \<Longrightarrow> funded_at cfg legs state s lo \<Longrightarrow>
    \<exists>n. funded_steps cfg legs state s lo hi = Inr n \<and> 0 \<le> n \<and> n \<le> hi \<and> funded_at cfg legs state s n"
proof (induction "nat (hi - lo)" arbitrary: lo hi rule: less_induct)
  case less
  let ?step = "sy_quantity_step (pc_policy cfg)"
  show ?case
  proof (cases "lo < hi")
    case False
    with less.prems show ?thesis by (subst funded_steps.simps) auto
  next
    case True
    define mid where "mid = lo + (hi - lo + 1) div 2"
    have mid: "lo < mid" "mid \<le> hi" using True by (auto simp: mid_def)
    have step: "0 < ?step" by (rule pair_config_okD(3) [OF cfg])
    then have "mid * ?step \<le> hi * ?step" using mid by (intro mult_right_mono) auto
    then have q: "0 \<le> mid * ?step" "mid * ?step \<le> quantity_limit" "?step dvd mid * ?step"
      using less.prems(1,3) mid step by (simp, linarith, simp)
    obtain a b where quote: "quote_both cfg legs state s (mid * ?step) = Inr (a, b)"
      "execution_ok f0 ?step False (mid * ?step) 10000 a" "execution_ok f1 ?step False (mid * ?step) 10000 b"
      using quote_both_ok [OF cfg fees q market] by blast
    obtain reserves where reserves: "reserve_both cfg legs (mid * ?step) (a, b) = Inr reserves"
      using reserve_both_ok [OF cfg fees q, of _ "(a, b)"] quote(2,3) by auto
    have go: "funded_steps cfg legs state s lo hi =
        (if fst reserves + snd reserves \<le> sm_available s then funded_steps cfg legs state s mid hi
         else funded_steps cfg legs state s lo (mid - 1))"
      using True quote(1) reserves by (subst funded_steps.simps) (simp add: Let_def mid_def)
    show ?thesis
    proof (cases "fst reserves + snd reserves \<le> sm_available s")
      case True
      then have "funded_at cfg legs state s mid" using quote(1) reserves by (auto simp: funded_at_def)
      with less.hyps [of hi mid] less.prems mid True go show ?thesis by simp
    next
      case False
      have "(mid - 1) * ?step \<le> mid * ?step" using step by (simp add: left_diff_distrib)
      then have "(mid - 1) * ?step \<le> quantity_limit" using q by linarith
      with less.hyps [of "mid - 1" lo] less.prems mid False go show ?thesis by fastforce
    qed
  qed
qed

lemma selected_quote:
  assumes cfg: "pair_config_ok cfg" and fees: "sy_fees (pc_policy cfg) (lt_market (fst legs)) = Some f0"
      "sy_fees (pc_policy cfg) (lt_market (snd legs)) = Some f1"
    and q: "0 < q" "q \<le> quantity_limit" "sy_quantity_step (pc_policy cfg) dvd q"
    and quote: "execution_ok f0 (sy_quantity_step (pc_policy cfg)) False q0 10000 (fst quote)"
      "execution_ok f1 (sy_quantity_step (pc_policy cfg)) False q1 10000 (snd quote)"
    and funds: "reserve_both cfg legs q quote = Inr reserves" "fst reserves + snd reserves \<le> sm_available s"
  shows "\<exists>r. priced_quote cfg legs q quote s = Inr r \<and> quoted cfg legs s r"
proof -
  let ?step = "sy_quantity_step (pc_policy cfg)"
  have q0: "0 \<le> q" using q by simp
  note both = reserve_both_ok [OF cfg fees q0 q(2,3) quote]
  have p: "0 \<le> ex_worst_price (fst quote)" "ex_worst_price (fst quote) \<le> 10000"
    "0 \<le> ex_worst_price (snd quote)" "ex_worst_price (snd quote) \<le> 10000"
    using quote by (simp_all add: execution_ok_def)
  have ok: "reserve_ok f0 ?step q" "reserve_ok f1 ?step q"
    using reserve_ok_step [OF pair_config_okD(2) [OF cfg] _ q0 q(2,3)] pair_config_okD(6) [OF cfg] fees by blast+
  note b0 = reserve_amount_bounds [OF ok(1) p(1,2)] and b1 = reserve_amount_bounds [OF ok(2) p(3,4)]
  have qr: "quantity_raw (quantity_value q) = q" using q by (simp add: limits)
  have "selected_ok cfg legs (sm_available s) \<lparr>sp_quantity = quantity_value q,
      sp_legs = (sized_leg_of (fst quote) (fst reserves), sized_leg_of (snd quote) (snd reserves)),
      sp_payout_floor = x, sp_net_margin = y\<rparr>" for x y
    using fees q funds b0 b1 p unfolding both
    by (auto simp: selected_ok_def sized_leg_of_def qr the_price_raw)
  then show ?thesis using funds by (auto simp: priced_quote_def quoted_def Let_def)
qed

lemma legacy_quote_ok:
  assumes cfg: "pair_config_ok cfg" and legs: "pc_legs cfg i = Some legs" and market: "market_ok state" and avail: "0 \<le> sm_available s"
  shows "\<exists>r. legacy_quote cfg legs state s = Inr r \<and> quoted cfg legs s r"
proof -
  let ?step = "sy_quantity_step (pc_policy cfg)" and ?cap = "sy_quantity_cap (pc_policy cfg)"
  obtain f0 f1 where fees: "sy_fees (pc_policy cfg) (lt_market (fst legs)) = Some f0" "sy_fees (pc_policy cfg) (lt_market (snd legs)) = Some f1"
    by (rule config_fees [OF cfg legs])
  have step: "step_ok ?step" "0 < ?step" and cap: "?step \<le> ?cap" "?cap \<le> quantity_limit" using pair_config_okD [OF cfg] by simp_all
  define q where "q = ?cap div ?step * ?step"
  have q: "0 \<le> q" "q \<le> quantity_limit" "?step dvd q"
    using whole_steps [OF step(1), of ?cap] step(2) cap by (auto simp: q_def)
  obtain a b where quote: "quote_both cfg legs state s q = Inr (a, b)"
    "execution_ok f0 ?step False q 10000 a" "execution_ok f1 ?step False q 10000 b"
    using quote_both_ok [OF cfg fees q market] by blast
  define q' where "q' = min (ex_quantity a) (ex_quantity b)"
  have q': "0 \<le> q'" "q' \<le> quantity_limit" "?step dvd q'"
    using quote q by (auto simp: q'_def execution_ok_def min_def)
  show ?thesis
  proof (cases "q' = 0")
    case True
    then have "legacy_quote cfg legs state s = Inr (None, decline ''no_depth'' s)"
      using quote(1) by (simp add: legacy_quote_def Let_def q_def [symmetric] q'_def)
    then show ?thesis by (auto simp: quoted_def)
  next
    case False
    obtain a' where a': "quote_walk cfg state s (fst legs) q' = Inr a'" "execution_ok f0 ?step False q' 10000 a'"
      using quote_walk_ok [OF cfg fees(1) q'(1,2) market] by blast
    obtain b' where b': "quote_walk cfg state s (snd legs) q' = Inr b'" "execution_ok f1 ?step False q' 10000 b'"
      using quote_walk_ok [OF cfg fees(2) q'(1,2) market] by blast
    define quote' where "quote' = (if ex_quantity a = q' then a else a', if ex_quantity b = q' then b else b')"
    obtain qa qb where ok': "execution_ok f0 ?step False qa 10000 (fst quote')" "execution_ok f1 ?step False qb 10000 (snd quote')"
      using quote a' b' by (cases "ex_quantity a = q'"; cases "ex_quantity b = q'") (auto simp: quote'_def)
    have le: "q' \<le> ex_quantity a" "q' \<le> ex_quantity b" by (simp_all add: q'_def)
    have go: "legacy_quote cfg legs state s = fund_quote cfg legs state q' quote' s"
      using quote(1) False a' b' le by (simp add: legacy_quote_def Let_def q_def [symmetric] q'_def [symmetric] quote'_def min_absorb1 min_absorb2)
    obtain reserves where reserves: "reserve_both cfg legs q' quote' = Inr reserves"
      using reserve_both_ok [OF cfg fees q' ok'] by blast
    have pos: "0 < q'" using False q' by simp
    show ?thesis
    proof (cases "sm_available s < fst reserves + snd reserves")
      case False
      then have "fst reserves + snd reserves \<le> sm_available s" by simp
      from selected_quote [OF cfg fees pos q'(2,3) ok' reserves this] False show ?thesis
        unfolding go fund_quote_def reserves by simp
    next
      case True
      have "0 \<le> q' div ?step" "q' div ?step * ?step \<le> quantity_limit" using q' step(2) by (auto simp: pos_imp_zdiv_nonneg_iff)
      then obtain n where n: "funded_steps cfg legs state s 0 (q' div ?step) = Inr n" "0 \<le> n" "n \<le> q' div ?step" "funded_at cfg legs state s n"
        using funded_steps_ok [OF cfg fees market, of 0 "q' div ?step" s] by (auto simp: funded_at_def)
      have nq: "n * ?step \<le> quantity_limit"
      proof -
        have "n * ?step \<le> q' div ?step * ?step" using n(3) step(2) by (intro mult_right_mono) auto
        with q' show ?thesis by simp
      qed
      show ?thesis
      proof (cases "n = 0")
        case True
        then show ?thesis using \<open>sm_available s < _\<close> n(1) unfolding go fund_quote_def reserves by (auto simp: quoted_def)
      next
        case False
        then obtain q2 r2 where funded: "quote_both cfg legs state s (n * ?step) = Inr q2"
          "reserve_both cfg legs (n * ?step) q2 = Inr r2" "fst r2 + snd r2 \<le> sm_available s"
          using n(4) by (auto simp: funded_at_def)
        have n0: "0 \<le> n * ?step" "0 < n * ?step" using n(2) False step(2) by auto
        have ok2: "execution_ok f0 ?step False (n * ?step) 10000 (fst q2)" "execution_ok f1 ?step False (n * ?step) 10000 (snd q2)"
          using quote_both_ok [OF cfg fees n0(1) nq _ market, of s] funded(1) by auto
        from selected_quote [OF cfg fees n0(2) nq _ ok2 funded(2,3)] \<open>sm_available s < _\<close> n(1) funded(1) False step(2)
        show ?thesis unfolding go fund_quote_def reserves by (simp add: Let_def)
      qed
    qed
  qed
qed


text \<open>The depth of a leg ascends in price, so the sizing routine accepts it.\<close>

lemma depth_level_appends:
  "\<exists>continue taken n'. depth_level cfg s leg l (levels, n) = (continue, levels @ taken, n') \<and>
    (level_prices taken = [] \<or> level_prices taken = [leg_price leg l])"
proof -
  let ?t = "min (if consumed_at s (lt_market leg, lt_outcome leg, leg_price leg l) < quantity_raw (lv_quantity l)
      then quantity_raw (lv_quantity l) - consumed_at s (lt_market leg, lt_outcome leg, leg_price leg l) else 0)
    (sy_quantity_cap (pc_policy cfg) - n) div sy_quantity_step (pc_policy cfg) * sy_quantity_step (pc_policy cfg)"
  let ?level = "\<lparr>bl_price = the (price_from_raw (leg_price leg l)), bl_quantity = quantity_value ?t\<rparr>"
  have "level_prices (if ?t \<noteq> 0 then [?level] else []) = [] \<or> level_prices (if ?t \<noteq> 0 then [?level] else []) = [leg_price leg l]"
    using leg_price_bounds [of leg l] by (simp add: the_price_raw level_prices_def)
  moreover have "\<exists>continue n'. depth_level cfg s leg l (levels, n) = (continue, levels @ (if ?t \<noteq> 0 then [?level] else []), n')"
    unfolding depth_level_def Let_def by (simp del: mult_eq_0_iff)
  ultimately show ?thesis by blast
qed

lemma depth_visit_sorted:
  assumes "sorted_wrt (<) (map (leg_price leg \<circ> entry_level) es)"
  shows "\<exists>ls. fst (visit_entries (depth_level cfg s leg) es (levels, n)) = levels @ ls \<and>
    sorted_wrt (<) (level_prices ls) \<and> set (level_prices ls) \<subseteq> set (map (leg_price leg \<circ> entry_level) es)"
  using assms
proof (induction es arbitrary: levels n)
  case (Cons e es)
  let ?p = "leg_price leg (entry_level e)"
  have v: "\<exists>continue taken n'. depth_level cfg s leg (entry_level e) (levels, n) = (continue, levels @ taken, n') \<and>
      (level_prices taken = [] \<or> level_prices taken = [?p])"
    by (rule depth_level_appends)
  then obtain continue taken n' where v: "depth_level cfg s leg (entry_level e) (levels, n) = (continue, levels @ taken, n')"
    "level_prices taken = [] \<or> level_prices taken = [?p]"
    by blast
  have sorted: "sorted_wrt (<) (map (leg_price leg \<circ> entry_level) es)" "\<forall>x \<in> set es. ?p < leg_price leg (entry_level x)"
    using Cons.prems by (auto simp: comp_def)
  show ?case
  proof (cases continue)
    case True
    obtain ls where ls: "fst (visit_entries (depth_level cfg s leg) es (levels @ taken, n')) = (levels @ taken) @ ls"
      "sorted_wrt (<) (level_prices ls)" "set (level_prices ls) \<subseteq> set (map (leg_price leg \<circ> entry_level) es)"
      using Cons.IH [OF sorted(1), of "levels @ taken" n'] by blast
    have "\<forall>x \<in> set (level_prices ls). ?p < x" using ls(3) sorted(2) by auto
    with True v ls show ?thesis
      by (intro exI [of _ "taken @ ls"]) (auto simp: level_prices_def)
  next
    case False
    then have "fst (visit_entries (depth_level cfg s leg) (e # es) (levels, n)) = levels @ taken" using v(1) by simp
    moreover have "sorted_wrt (<) (level_prices taken)" using v(2) by auto
    moreover have "set (level_prices taken) \<subseteq> {?p}" using v(2) by (metis empty_set empty_subsetI list.set(2) subset_refl)
    then have "set (level_prices taken) \<subseteq> set (map (leg_price leg \<circ> entry_level) (e # es))" by (rule subset_trans) simp
    ultimately show ?thesis by blast
  qed
qed simp

lemma leg_depth_ok:
  assumes cfg: "pair_config_ok cfg" and fee: "sy_fees (pc_policy cfg) (lt_market leg) = Some fee" and market: "market_ok state"
    and book: "find_book (lt_market leg) state = Some book"
  shows "\<exists>d. leg_depth cfg state s leg = Inr d \<and> bd_fees d = fee \<and> valid_depth d"
proof -
  have ok: "levels_ok (ob_bids book)" "levels_ok (ob_asks book)"
    using market_ok_find [OF market] book by (auto simp: find_book_def book_ok_def)
  define es where "es = (if ob_state book \<noteq> Valid then [] else if lt_outcome leg = Outcome_Yes then ob_asks book else rev (ob_bids book))"
  have raw: "price_raw (lv_price (entry_level e)) = fst e" if "e \<in> set (ob_bids book) \<union> set (ob_asks book)" for e
    using that entry_level_raw [OF ok(1)] entry_level_raw [OF ok(2)] by (cases e) auto
  have asc: "sorted_wrt (<) (map fst (ob_bids book))" "sorted_wrt (<) (map fst (ob_asks book))"
    using ok by (simp_all add: levels_ok_def omap_ok_def)
  have sorted: "sorted_wrt (<) (map (leg_price leg \<circ> entry_level) es)"
  proof (cases "lt_outcome leg = Outcome_Yes")
    case True
    then have "map (leg_price leg \<circ> entry_level) es = map fst (if ob_state book \<noteq> Valid then [] else ob_asks book)"
      using raw by (auto simp: es_def leg_price_def)
    with asc show ?thesis by simp
  next
    case False
    then have "map (leg_price leg \<circ> entry_level) es = map (\<lambda>p. 10000 - p) (rev (map fst (if ob_state book \<noteq> Valid then [] else ob_bids book)))"
      using raw by (auto simp: es_def leg_price_def rev_map)
    moreover have "sorted_wrt (\<lambda>a b. a > b) (rev (map fst (ob_bids book)))" using asc by (simp add: sorted_wrt_rev)
    ultimately show ?thesis by (auto simp: sorted_wrt_map)
  qed
  obtain ls where ls: "fst (visit_entries (depth_level cfg s leg) es ([], 0)) = ls" "sorted_wrt (<) (level_prices ls)"
    "set (level_prices ls) \<subseteq> set (map (leg_price leg \<circ> entry_level) es)"
    using depth_visit_sorted [OF sorted, of cfg s "[]" 0] by auto
  have range: "set (level_prices ls) \<subseteq> {0 .. 10000}" using ls(3) leg_price_bounds [of leg] by fastforce
  have "distinct (level_prices ls)" using ls(2) by (simp add: strict_sorted_iff)
  then have "length ls = card (set (level_prices ls))" using distinct_card by (fastforce simp: level_prices_def)
  also have "\<dots> \<le> card {0 .. 10000 :: int}" using range by (intro card_mono) auto
  finally have len: "length ls \<le> 10001" by simp
  have "\<forall>x \<in> set (level_prices ls). (-1 :: int) < x" using range by fastforce
  then have "sorted_wrt (<) (-1 # level_prices ls)" using ls(2) by simp
  then have valid: "valid_depth \<lparr>bd_levels = ls, bd_fees = fee\<rparr>"
    using len pair_config_okD(6) [OF cfg fee] by (simp add: valid_depth_def ascending_prices_iff valid_fee_iff)
  have "fst (visit_levels (if lt_outcome leg = Outcome_Yes then Ask else Bid) (depth_level cfg s leg) book ([], 0)) = ls"
    using ls(1) by (auto simp: visit_levels_def es_def)
  then show ?thesis using valid fee book by (simp add: leg_depth_def market_fee_def)
qed

lemma sized_pair_outcome: "\<exists>r. size_buy_pair ds limits = Some r \<and> (pair_ok ds limits \<longrightarrow> pair_outcome ds limits r)"
proof (cases "pair_ok ds limits")
  case True
  from search_run_spec [OF this] True show ?thesis by (auto simp: valid_pair)
next
  case False
  then show ?thesis by (auto simp: valid_pair)
qed

lemma optimal_quote_ok:
  assumes cfg: "pair_config_ok cfg" and legs: "pc_legs cfg i = Some legs" and market: "market_ok state"
    and avail: "0 \<le> sm_available s" "sm_available s \<le> int64_max"
    and books: "find_book (lt_market (fst legs)) state = Some b0" "find_book (lt_market (snd legs)) state = Some b1"
  shows "\<exists>r. optimal_quote cfg legs state s = Some r \<and> yields (quote_error s) (quoted cfg legs s) r"
proof -
  obtain f0 f1 where fees: "sy_fees (pc_policy cfg) (lt_market (fst legs)) = Some f0" "sy_fees (pc_policy cfg) (lt_market (snd legs)) = Some f1"
    by (rule config_fees [OF cfg legs])
  obtain d0 where d0: "leg_depth cfg state s (fst legs) = Inr d0" "bd_fees d0 = f0" "valid_depth d0"
    using leg_depth_ok [OF cfg fees(1) market books(1)] by blast
  obtain d1 where d1: "leg_depth cfg state s (snd legs) = Inr d1" "bd_fees d1 = f1" "valid_depth d1"
    using leg_depth_ok [OF cfg fees(2) market books(2)] by blast
  let ?limits = "pair_limits cfg s"
  have pol: "0 \<le> sy_min_margin (pc_policy cfg)" "sy_min_margin (pc_policy cfg) \<le> cash_limit" "sy_max_sizing_evaluations (pc_policy cfg) \<noteq> 0"
    using cfg by (simp_all add: pair_config_ok_def study_policy_ok_def)
  have raw: "quantity_raw (sl_step ?limits) = sy_quantity_step (pc_policy cfg)" "quantity_raw (sl_cap ?limits) = sy_quantity_cap (pc_policy cfg)"
    "cash_raw (sl_available ?limits) = sm_available s"
    using pair_config_okD(3,4,5) [OF cfg] avail by (simp_all add: pair_limits_def limits)
  have "cash_raw (sl_minimum_margin ?limits) \<le> 1000000000000000"
    using pol by (simp add: pair_limits_def limits)
  moreover have "0 \<le> cash_raw (sl_minimum_margin ?limits)"
    using pol by (simp add: pair_limits_def limits)
  moreover have "sl_max_evaluations ?limits = sy_max_sizing_evaluations (pc_policy cfg)" by (simp add: pair_limits_def)
  ultimately have ok: "sm_available s \<le> cash_limit \<Longrightarrow> pair_ok (d0, d1) ?limits"
    using pair_config_okD(2,4,5) [OF cfg] d0(3) d1(3) pol avail
    by (auto simp: pair_ok_def grid_params_def raw step_ok_def limits)
  obtain r where r: "size_buy_pair (d0, d1) ?limits = Some r" "pair_ok (d0, d1) ?limits \<longrightarrow> pair_outcome (d0, d1) ?limits r"
    using sized_pair_outcome by blast
  have go: "optimal_quote cfg legs state s = Some (and_then (count_sizing r s) (sizing_answer r))"
    by (simp add: optimal_quote_def d0 d1 r)
  have bad: "sr_status r \<in> {Invalid_Input, Arithmetic_Error} \<Longrightarrow> cash_limit < sm_available s"
    using r(2) ok by (cases "sm_available s \<le> cash_limit") (auto simp: pair_outcome_def)
  have selected: "selected_ok cfg legs (sm_available s) p" if "sr_quote r = Some p" for p
    using sized_pair_selected [OF r(1) that] fees d0(2) d1(2) by (auto simp: selected_ok_def raw)
  have "yields (quote_error s) (quoted cfg legs s) (and_then (count_sizing r s) (sizing_answer r))"
  proof (cases "count_sizing r s")
    case (Inl e)
    then show ?thesis by (auto simp: count_sizing_def quote_error_def split: if_splits)
  next
    case (Inr s')
    then have "same_but_counts s s'" by (auto simp: count_sizing_def same_but_counts_def split: if_splits)
    moreover have "same_but_counts s (decline reason s')" for reason
      using Inr by (auto simp: count_sizing_def same_but_counts_def decline_def split: if_splits)
    ultimately show ?thesis
      using Inr bad selected by (cases "sr_status r") (auto simp: sizing_answer_def quoted_def quote_error_def)
  qed
  then show ?thesis using go by simp
qed

end
