(* ===== verification/Pair_Ledger.thy ===== *)
theory Pair_Ledger
  imports Pair_Quotes
begin

text \<open>
  The ledger of the paired study under a lifecycle policy: the invariant of its orders, events, attempts,
  cash and positions, and the elementary changes of state that keep it. The operations of the code are
  compositions of these changes.
\<close>

subsection \<open>Live orders\<close>

text \<open>
  An order is live until its response; \<open>live_buys os i\<close> are the purchases of attempt \<open>i\<close> still under way,
  \<open>awaiting os\<close> the orders that have arrived and whose response is under way.
\<close>

definition live_order :: "lifecycle_order list \<Rightarrow> nat \<Rightarrow> bool" where
  "live_order os k \<longleftrightarrow> k < length os \<and> \<not> or_responded (os ! k)"

definition live_buys :: "lifecycle_order list \<Rightarrow> nat \<Rightarrow> nat set" where
  "live_buys os i = {k. live_order os k \<and> \<not> or_sell (os ! k) \<and> or_attempt (os ! k) = i}"

definition awaiting :: "lifecycle_order list \<Rightarrow> nat set" where
  "awaiting os = {k. live_order os k \<and> or_arrived (os ! k)}"

lemma live_finite [simp]: "finite (live_buys os i)" "finite (awaiting os)"
  by (rule finite_subset [of _ "{..<length os}"]; auto simp: live_buys_def awaiting_def live_order_def)+

lemma live_in_range: "k \<in> live_buys os i \<Longrightarrow> k < length os" "k \<in> awaiting os \<Longrightarrow> k < length os"
  by (auto simp: live_buys_def awaiting_def live_order_def)

lemma live_order_update:
  "k < length os \<Longrightarrow> live_order (os[k := order]) n \<longleftrightarrow> (if n = k then \<not> or_responded order else live_order os n)"
  by (auto simp: live_order_def nth_list_update)

lemma live_order_append:
  "live_order (os @ [order]) n \<longleftrightarrow> (if n = length os then \<not> or_responded order else live_order os n)"
  by (auto simp: live_order_def nth_append)

text \<open>What becomes of the two sets when an order is submitted, arrives or is answered.\<close>

lemma live_buys_append:
  "or_responded order = False \<Longrightarrow> live_buys (os @ [order]) i =
     (if \<not> or_sell order \<and> or_attempt order = i then insert (length os) (live_buys os i) else live_buys os i)"
  by (auto simp: live_buys_def live_order_append nth_append live_order_def)

lemma awaiting_append: "or_arrived order = False \<Longrightarrow> awaiting (os @ [order]) = awaiting os"
  by (auto simp: awaiting_def live_order_append nth_append live_order_def)

lemma live_buys_arrive:
  "live_order os k \<Longrightarrow> or_responded order = False \<Longrightarrow> or_sell order = or_sell (os ! k) \<Longrightarrow> or_attempt order = or_attempt (os ! k) \<Longrightarrow>
   live_buys (os[k := order]) i = live_buys os i"
  by (auto simp: live_buys_def live_order_def nth_list_update)

lemma awaiting_arrive:
  "live_order os k \<Longrightarrow> or_responded order = False \<Longrightarrow> or_arrived order \<Longrightarrow> awaiting (os[k := order]) = insert k (awaiting os)"
  by (auto simp: awaiting_def live_order_def nth_list_update)

lemma live_buys_answer:
  "k < length os \<Longrightarrow> or_responded order \<Longrightarrow> live_buys (os[k := order]) i = live_buys os i - {k}"
  by (auto simp: live_buys_def live_order_def nth_list_update)

lemma awaiting_answer:
  "k < length os \<Longrightarrow> or_responded order \<Longrightarrow> awaiting (os[k := order]) = awaiting os - {k}"
  by (auto simp: awaiting_def live_order_def nth_list_update)

lemma sum_list_update_int:
  "i < length xs \<Longrightarrow> (\<Sum>x \<leftarrow> xs[i := y]. f x) = (\<Sum>x \<leftarrow> xs. f x) - f (xs ! i) + (f y :: int)"
proof (induction xs arbitrary: i)
  case (Cons x xs)
  then show ?case by (cases i) auto
qed simp

lemma pick_place [simp]:
  "pick l (place l x p) = x" "l < 2 \<Longrightarrow> l' < 2 \<Longrightarrow> l' \<noteq> l \<Longrightarrow> pick l' (place l x p) = pick l' p"
  by (auto simp: pick_def place_def)

lemma pick_simps [simp]: "pick 0 p = fst p" "pick (Suc 0) p = snd p"
  by (simp_all add: pick_def)

lemma place_fst_snd [simp]:
  "fst (place l x p) = (if l = 0 then x else fst p)" "snd (place l x p) = (if l = 0 then snd p else x)"
  by (simp_all add: place_def)


subsection \<open>The invariant\<close>

definition order_ok :: "pair_config \<Rightarrow> pair_attempt list \<Rightarrow> lifecycle_order \<Rightarrow> bool" where
  "order_ok cfg as order \<longleftrightarrow>
     or_attempt order < length as \<and> or_leg order < 2 \<and> 0 \<le> or_quantity order \<and> or_quantity order \<le> quantity_limit \<and>
     0 \<le> or_limit order \<and> or_limit order \<le> 10000 \<and>
     0 \<le> ex_quantity (or_fill order) \<and> ex_quantity (or_fill order) \<le> or_quantity order \<and>
     0 \<le> ex_debit (or_fill order) \<and> ex_debit (or_fill order) \<le> or_reserve order \<and> 0 \<le> ex_credit (or_fill order) \<and>
     (\<not> or_arrived order \<longrightarrow> or_fill order = no_execution \<and> \<not> or_responded order) \<and>
     (if or_sell order then or_reserve order = 0 \<and> sy_residual_exit (pc_policy cfg) \<noteq> None
      else ex_credit (or_fill order) = 0 \<and> sy_quantity_step (pc_policy cfg) dvd or_quantity order \<and>
        (\<exists>fee. sy_fees (pc_policy cfg) (lt_market (pick (or_leg order) (pa_legs (as ! or_attempt order)))) = Some fee \<and>
           or_reserve order = reserve_amount fee (sy_quantity_step (pc_policy cfg)) (or_limit order) (or_quantity order)))"

definition attempt_ok :: "pair_config \<Rightarrow> pair_attempt \<Rightarrow> bool" where
  "attempt_ok cfg a \<longleftrightarrow>
     pc_legs cfg (pa_id a) = Some (pa_legs a) \<and> 0 \<le> fst (pa_reserve a) \<and> 0 \<le> snd (pa_reserve a) \<and>
     0 \<le> pa_quantity a \<and> pa_quantity a \<le> quantity_limit \<and>
     (\<forall>l < 2. 0 \<le> ex_quantity (pick l (pa_fills a)) \<and> ex_quantity (pick l (pa_fills a)) \<le> pa_quantity a)"

text \<open>The purchases of an attempt that are under way, one for each leg at most, hold the reserves.\<close>

definition buys_ok :: "lifecycle_policy \<Rightarrow> lifecycle_order list \<Rightarrow> nat \<Rightarrow> pair_attempt \<Rightarrow> bool" where
  "buys_ok life os i a \<longleftrightarrow>
     pa_pending_buys a = card (live_buys os i) \<and>
     (pa_exit_considered a \<longrightarrow> live_buys os i = {}) \<and>
     (lp_sequential life \<longrightarrow> card (live_buys os i) \<le> 1) \<and>
     inj_on (\<lambda>k. or_leg (os ! k)) (live_buys os i) \<and>
     (\<forall>k \<in> live_buys os i. pick (or_leg (os ! k)) (pa_reserve a) = or_reserve (os ! k) \<and>
        (\<not> or_arrived (os ! k) \<longrightarrow>
          ex_quantity (pick (or_leg (os ! k)) (pa_fills a)) + or_quantity (os ! k) \<le> pa_quantity a))"

text \<open>Every live order has exactly one event, of the kind that is next for it; the queue is in order.\<close>

definition events_ok :: "lifecycle_order list \<Rightarrow> lifecycle_event list \<Rightarrow> bool" where
  "events_ok os evs \<longleftrightarrow>
     sorted_wrt event_before evs \<and> distinct (map le_order evs) \<and>
     (\<forall>k. k \<in> le_order ` set evs \<longleftrightarrow> live_order os k) \<and>
     (\<forall>ev \<in> set evs. le_response ev = or_arrived (os ! le_order ev) \<and> 0 \<le> le_time ev \<and> le_time ev \<le> int64_max)"

definition cash_ok :: "pair_config \<Rightarrow> simulation \<Rightarrow> bool" where
  "cash_ok cfg s \<longleftrightarrow>
     0 \<le> sm_available s \<and>
     sm_reserved_total s = (\<Sum>a \<leftarrow> sm_attempts s. fst (pa_reserve a) + snd (pa_reserve a)) \<and>
     sm_unconfirmed_debit s = (\<Sum>k \<in> awaiting (sm_orders s). ex_debit (or_fill (sm_orders s ! k))) \<and>
     sm_unconfirmed_credit s = (\<Sum>k \<in> awaiting (sm_orders s). ex_credit (or_fill (sm_orders s ! k))) \<and>
     sm_available s + sm_reserved_total s - sm_unconfirmed_debit s + sm_unconfirmed_credit s =
       sy_capital (pc_policy cfg) - sm_spent s + sm_settlement_cash s + sm_exit_credit s \<and>
     sm_unconfirmed_debit s \<le> sm_spent s \<and> sm_spent s \<le> cash_limit \<and>
     sm_settlement_cash s \<le> cash_limit \<and> sm_exit_credit s \<le> cash_limit"

text \<open>What is held of a leg has been filled for it; positions without an attempt are empty.\<close>

definition holdings_ok :: "pair_attempt list \<Rightarrow> study_positions \<Rightarrow> bool" where
  "holdings_ok as sp \<longleftrightarrow>
     positions_ok sp \<and> 2 * length as \<le> length (sp_positions sp) \<and>
     (\<forall>i < length as. \<forall>l < 2. ps_quantity (sp_positions sp ! (i * 2 + l)) \<le> ex_quantity (pick l (pa_fills (as ! i)))) \<and>
     (\<forall>j. 2 * length as \<le> j \<and> j < length (sp_positions sp) \<longrightarrow> ps_quantity (sp_positions sp ! j) = 0)"

definition attempted_ok :: "pair_config \<Rightarrow> simulation \<Rightarrow> bool" where
  "attempted_ok cfg s \<longleftrightarrow>
     distinct (map pa_id (sm_attempts s)) \<and> pa_id ` set (sm_attempts s) = sm_attempted s \<and>
     finite (dom (pc_legs cfg)) \<and> 2 * card (dom (pc_legs cfg)) \<le> length (sp_positions (sm_positions s)) \<and>
     length (sp_positions (sm_positions s)) \<le> 92233720368"

definition study_inv :: "pair_config \<Rightarrow> lifecycle_policy \<Rightarrow> simulation \<Rightarrow> bool" where
  "study_inv cfg life s \<longleftrightarrow>
     (\<forall>order \<in> set (sm_orders s). order_ok cfg (sm_attempts s) order) \<and>
     (\<forall>a \<in> set (sm_attempts s). attempt_ok cfg a) \<and>
     (\<forall>i < length (sm_attempts s). buys_ok life (sm_orders s) i (sm_attempts s ! i)) \<and>
     events_ok (sm_orders s) (sm_events s) \<and> cash_ok cfg s \<and> holdings_ok (sm_attempts s) (sm_positions s) \<and>
     attempted_ok cfg s"

lemma study_invD:
  assumes "study_inv cfg life s"
  shows "\<And>k. k < length (sm_orders s) \<Longrightarrow> order_ok cfg (sm_attempts s) (sm_orders s ! k)"
    "\<And>i. i < length (sm_attempts s) \<Longrightarrow> attempt_ok cfg (sm_attempts s ! i)"
    "\<And>i. i < length (sm_attempts s) \<Longrightarrow> buys_ok life (sm_orders s) i (sm_attempts s ! i)"
    "events_ok (sm_orders s) (sm_events s)" "cash_ok cfg s" "holdings_ok (sm_attempts s) (sm_positions s)"
    "attempted_ok cfg s"
  using assms by (simp_all add: study_inv_def)

lemma study_invI:
  assumes "\<And>k. k < length (sm_orders s) \<Longrightarrow> order_ok cfg (sm_attempts s) (sm_orders s ! k)"
    "\<And>i. i < length (sm_attempts s) \<Longrightarrow> attempt_ok cfg (sm_attempts s ! i)"
    "\<And>i. i < length (sm_attempts s) \<Longrightarrow> buys_ok life (sm_orders s) i (sm_attempts s ! i)"
    "events_ok (sm_orders s) (sm_events s)" "cash_ok cfg s" "holdings_ok (sm_attempts s) (sm_positions s)"
    "attempted_ok cfg s"
  shows "study_inv cfg life s"
  using assms unfolding study_inv_def by (auto simp only: in_set_conv_nth)

text \<open>The fields outside the ledger.\<close>

lemma study_inv_frame [simp]:
  "study_inv cfg life (s\<lparr>sm_rows := x1\<rparr>) = study_inv cfg life s"
  "study_inv cfg life (s\<lparr>sm_consumed := x2\<rparr>) = study_inv cfg life s"
  "study_inv cfg life (s\<lparr>sm_declines := x3\<rparr>) = study_inv cfg life s"
  "study_inv cfg life (s\<lparr>sm_evaluated := x4\<rparr>) = study_inv cfg life s"
  "study_inv cfg life (s\<lparr>sm_unobserved := x4\<rparr>) = study_inv cfg life s"
  "study_inv cfg life (s\<lparr>sm_sizing_evaluations := x4\<rparr>) = study_inv cfg life s"
  "study_inv cfg life (s\<lparr>sm_sizing_pruned := x4\<rparr>) = study_inv cfg life s"
  "study_inv cfg life (s\<lparr>sm_last_update := x5\<rparr>) = study_inv cfg life s"
  "study_inv cfg life (s\<lparr>sm_settled_markets := x6\<rparr>) = study_inv cfg life s"
  "study_inv cfg life (s\<lparr>sm_settlement_index := x7\<rparr>) = study_inv cfg life s"
  "study_inv cfg life (s\<lparr>sm_notional := x8\<rparr>) = study_inv cfg life s"
  "study_inv cfg life (s\<lparr>sm_exit_fees := x8\<rparr>) = study_inv cfg life s"
  "study_inv cfg life (s\<lparr>sm_exit_quantity := x8\<rparr>) = study_inv cfg life s"
  "study_inv cfg life (s\<lparr>sm_exit_basis := x8\<rparr>) = study_inv cfg life s"
  "study_inv cfg life (emit_row row s) = study_inv cfg life s"
  "study_inv cfg life (decline reason s) = study_inv cfg life s"
  by (simp_all add: study_inv_def cash_ok_def attempted_ok_def emit_row_def decline_def)

lemma study_inv_cong:
  "study_inv cfg life s \<Longrightarrow> same_but_depletion execute s s' \<Longrightarrow> study_inv cfg life s'"
  "study_inv cfg life s \<Longrightarrow> same_but_counts s s' \<Longrightarrow> study_inv cfg life s'"
proof -
  assume inv: "study_inv cfg life s"
  show "same_but_depletion execute s s' \<Longrightarrow> study_inv cfg life s'"
    using inv unfolding same_but_depletion_def by (cases execute) (metis study_inv_frame(1,2), simp)
  show "same_but_counts s s' \<Longrightarrow> study_inv cfg life s'"
    using inv unfolding same_but_counts_def by (metis study_inv_frame(3,6,7))
qed

lemma cash_check:
  assumes "study_inv cfg life s"
  shows "check_cash cfg s = Inr s"
proof -
  note cash = study_invD(5) [OF assms]
  have "0 \<le> sm_reserved_total s"
    using cash study_invD(2) [OF assms] by (auto simp: cash_ok_def attempt_ok_def in_set_conv_nth intro!: sum_list_nonneg)
  moreover have "0 \<le> sm_unconfirmed_debit s" "0 \<le> sm_unconfirmed_credit s"
    using cash study_invD(1) [OF assms] live_in_range(2)
    by (auto simp: cash_ok_def order_ok_def intro!: sum_nonneg)
  ultimately show ?thesis using cash by (simp add: check_cash_def cash_ok_def)
qed

lemma available_bound:
  assumes "study_inv cfg life s" "pair_config_ok cfg"
  shows "0 \<le> sm_available s" "sm_available s \<le> int64_max"
proof -
  have "0 \<le> sm_reserved_total s" "0 \<le> sm_unconfirmed_credit s"
    using cash_check [OF assms(1)] by (simp_all add: check_cash_def split: if_splits)
  moreover have "sy_capital (pc_policy cfg) \<le> cash_limit" using assms(2) by (simp add: pair_config_ok_def study_policy_ok_def)
  ultimately show "sm_available s \<le> int64_max"
    using study_invD(5) [OF assms(1)] by (simp add: cash_ok_def limits cash_limit_def)
  show "0 \<le> sm_available s" using study_invD(5) [OF assms(1)] by (simp add: cash_ok_def)
qed


subsection \<open>Events\<close>

lemma set_push_event [simp]: "set (push_event e evs) = insert e (set evs)"
  by (induction evs) auto

lemma event_before_trans: "event_before a b \<Longrightarrow> event_before b c \<Longrightarrow> event_before a c"
  by (auto simp: event_before_def)

lemma event_before_total: "le_order a \<noteq> le_order b \<Longrightarrow> event_before a b \<or> event_before b a"
  by (auto simp: event_before_def)

lemma push_event_sorted:
  "sorted_wrt event_before evs \<Longrightarrow> le_order e \<notin> le_order ` set evs \<Longrightarrow> sorted_wrt event_before (push_event e evs)"
proof (induction evs)
  case (Cons x xs)
  show ?case
  proof (cases "event_before e x")
    case True
    with Cons.prems show ?thesis using event_before_trans by auto
  next
    case False
    then have "event_before x e" using event_before_total [of e x] Cons.prems(2) by auto
    with False Cons show ?thesis by auto
  qed
qed simp

lemma distinct_push_event:
  "distinct (map le_order (push_event e evs)) \<longleftrightarrow> le_order e \<notin> le_order ` set evs \<and> distinct (map le_order evs)"
  by (induction evs) auto

lemma events_submit:
  assumes "events_ok os evs" "or_responded order = False" "or_arrived order = False" "0 \<le> t" "t \<le> int64_max"
  shows "events_ok (os @ [order]) (push_event \<lparr>le_time = t, le_order = length os, le_response = False\<rparr> evs)"
proof -
  have fresh: "length os \<notin> le_order ` set evs" using assms(1) by (auto simp: events_ok_def live_order_def)
  have old: "le_order ev < length os" if "ev \<in> set evs" for ev
    using assms(1) that by (auto simp: events_ok_def live_order_def)
  show ?thesis
    using assms fresh old push_event_sorted [of evs "\<lparr>le_time = t, le_order = length os, le_response = False\<rparr>"]
    unfolding events_ok_def distinct_push_event
    by (auto simp: live_order_append nth_append image_iff)
qed

lemma events_head:
  assumes "events_ok os (ev # evs)"
  shows "live_order os (le_order ev)" "le_response ev = or_arrived (os ! le_order ev)" "0 \<le> le_time ev" "le_time ev \<le> int64_max"
    "le_order ev \<notin> le_order ` set evs" "sorted_wrt event_before evs" "distinct (map le_order evs)"
    "\<And>k. k \<in> le_order ` set evs \<longleftrightarrow> live_order os k \<and> k \<noteq> le_order ev"
    "\<And>e. e \<in> set evs \<Longrightarrow> le_response e = or_arrived (os ! le_order e) \<and> 0 \<le> le_time e \<and> le_time e \<le> int64_max"
proof -
  have live: "\<And>k. k \<in> le_order ` set (ev # evs) \<longleftrightarrow> live_order os k" and d: "distinct (map le_order (ev # evs))"
    using assms by (simp_all only: events_ok_def)
  show "live_order os (le_order ev)" using live [of "le_order ev"] by simp
  show out: "le_order ev \<notin> le_order ` set evs" using d by simp
  show "k \<in> le_order ` set evs \<longleftrightarrow> live_order os k \<and> k \<noteq> le_order ev" for k
    using live [of k] out by (auto simp del: image_eqI)
qed (use assms in \<open>auto simp: events_ok_def\<close>)

lemma events_answer:
  assumes "events_ok os (ev # evs)" "or_responded order"
  shows "events_ok (os[le_order ev := order]) evs"
proof -
  note h = events_head [OF assms(1)]
  have k: "le_order ev < length os" using h(1) by (simp add: live_order_def)
  have "le_order e \<noteq> le_order ev" if "e \<in> set evs" for e using h(5) that by (metis imageI)
  then have same: "os[le_order ev := order] ! le_order e = os ! le_order e" if "e \<in> set evs" for e
    using that by (metis nth_list_update_neq)
  have keys: "n \<in> le_order ` set evs \<longleftrightarrow> live_order (os[le_order ev := order]) n" for n
    using h(1) h(8) [of n] assms(2) k by (auto simp: live_order_update)
  show ?thesis unfolding events_ok_def using h(6,7,9) keys same by simp
qed

lemma events_arrive:
  assumes "events_ok os (ev # evs)" "or_responded order = False" "or_arrived order" "0 \<le> t" "t \<le> int64_max"
  shows "events_ok (os[le_order ev := order]) (push_event \<lparr>le_time = t, le_order = le_order ev, le_response = True\<rparr> evs)"
proof -
  note h = events_head [OF assms(1)]
  have k: "le_order ev < length os" using h(1) by (simp add: live_order_def)
  have other: "le_order e \<noteq> le_order ev" if "e \<in> set evs" for e using h(5) that by (metis imageI)
  then have same: "os[le_order ev := order] ! le_order e = os ! le_order e" if "e \<in> set evs" for e
    using that by (metis nth_list_update_neq)
  have keys: "n \<in> insert (le_order ev) (le_order ` set evs) \<longleftrightarrow> live_order (os[le_order ev := order]) n" for n
    using h(1) h(8) [of n] assms(2) k by (auto simp: live_order_update)
  show ?thesis
    using h(5,6,7,9) assms(2-5) k same keys push_event_sorted [of evs "\<lparr>le_time = t, le_order = le_order ev, le_response = True\<rparr>"]
    unfolding events_ok_def distinct_push_event by (auto simp del: image_eqI)
qed


subsection \<open>Elementary changes\<close>

lemma put_attempt_simps [simp]:
  "sm_attempts (put_attempt i a s) = (sm_attempts s)[i := a]" "sm_orders (put_attempt i a s) = sm_orders s"
  "sm_events (put_attempt i a s) = sm_events s" "sm_positions (put_attempt i a s) = sm_positions s"
  "sm_available (put_attempt i a s) = sm_available s" "sm_attempted (put_attempt i a s) = sm_attempted s"
  "sm_reserved_total (put_attempt i a s) = sm_reserved_total s" "sm_spent (put_attempt i a s) = sm_spent s"
  "sm_unconfirmed_debit (put_attempt i a s) = sm_unconfirmed_debit s" "sm_unconfirmed_credit (put_attempt i a s) = sm_unconfirmed_credit s"
  "sm_settlement_cash (put_attempt i a s) = sm_settlement_cash s" "sm_exit_credit (put_attempt i a s) = sm_exit_credit s"
  by (simp_all add: put_attempt_def)

lemma put_order_simps [simp]:
  "sm_orders (put_order n order s) = (sm_orders s)[n := order]" "sm_attempts (put_order n order s) = sm_attempts s"
  "sm_events (put_order n order s) = sm_events s" "sm_positions (put_order n order s) = sm_positions s"
  by (simp_all add: put_order_def)

lemma order_ok_legs:
  "order_ok cfg as order \<Longrightarrow> length as' = length as \<Longrightarrow> pa_legs (as' ! or_attempt order) = pa_legs (as ! or_attempt order) \<Longrightarrow>
   order_ok cfg as' order"
  by (simp add: order_ok_def)

lemma order_ok_update:
  "order_ok cfg as order \<Longrightarrow> pa_legs a = pa_legs (as ! i) \<Longrightarrow> order_ok cfg (as[i := a]) order"
proof (erule order_ok_legs)
  assume legs: "pa_legs a = pa_legs (as ! i)"
  show "pa_legs (as[i := a] ! or_attempt order) = pa_legs (as ! or_attempt order)"
    using legs by (cases "i = or_attempt order"; cases "i < length as") (simp_all add: list_update_beyond)
qed simp

lemma ids_update:
  assumes "pa_id a = pa_id (as ! i)"
  shows "map pa_id (as[i := a]) = map pa_id as" "pa_id ` set (as[i := a]) = pa_id ` set as"
proof -
  show ids: "map pa_id (as[i := a]) = map pa_id as"
    using assms by (cases "i < length as") (auto intro!: nth_equalityI simp: nth_list_update list_update_beyond)
  show "pa_id ` set (as[i := a]) = pa_id ` set as" using arg_cong [OF ids, of set] by simp
qed

text \<open>An attempt's reserves and marks change; what it has bought does not.\<close>

lemma change_attempt:
  assumes inv: "study_inv cfg life s" and i: "i < length (sm_attempts s)"
    and same: "pa_id a = pa_id (sm_attempts s ! i)" "pa_legs a = pa_legs (sm_attempts s ! i)"
      "pa_quantity a = pa_quantity (sm_attempts s ! i)" "pa_fills a = pa_fills (sm_attempts s ! i)"
    and reserve: "0 \<le> fst (pa_reserve a)" "0 \<le> snd (pa_reserve a)"
    and buys: "buys_ok life (sm_orders s) i a"
    and cash: "reserved = sm_reserved_total s - (fst (pa_reserve (sm_attempts s ! i)) + snd (pa_reserve (sm_attempts s ! i))) +
        (fst (pa_reserve a) + snd (pa_reserve a))"
      "available + reserved = sm_available s + sm_reserved_total s" "0 \<le> available"
  shows "study_inv cfg life (put_attempt i a (s\<lparr>sm_available := available, sm_reserved_total := reserved\<rparr>))"
proof -
  let ?s = "put_attempt i a (s\<lparr>sm_available := available, sm_reserved_total := reserved\<rparr>)" and ?as = "(sm_attempts s)[i := a]"
  note d = study_invD [OF inv]
  have "order_ok cfg ?as (sm_orders s ! k)" if "k < length (sm_orders s)" for k
    by (rule order_ok_update [OF d(1) [OF that] same(2)])
  moreover have "attempt_ok cfg (?as ! j)" if "j < length (sm_attempts s)" for j
    using d(2) [OF that] d(2) [OF i] same reserve i that by (auto simp: nth_list_update attempt_ok_def)
  moreover have "buys_ok life (sm_orders s) j (?as ! j)" if "j < length (sm_attempts s)" for j
    using d(3) [OF that] buys i that by (auto simp: nth_list_update)
  moreover have "cash_ok cfg ?s"
    using d(5) cash i by (simp add: cash_ok_def sum_list_update_int)
  moreover have "holdings_ok ?as (sm_positions s)"
    using d(6) same(4) i by (auto simp: holdings_ok_def nth_list_update)
  moreover have "attempted_ok cfg ?s"
    using d(7) ids_update [OF same(1)] by (simp add: attempted_ok_def)
  ultimately show ?thesis using d(4) by (intro study_invI) simp_all
qed


text \<open>The purchases of an attempt see their orders only.\<close>

lemma buys_ok_cong:
  assumes "buys_ok life os i a" "live_buys os' i = live_buys os i" "\<And>k. k \<in> live_buys os i \<Longrightarrow> os' ! k = os ! k"
  shows "buys_ok life os' i a"
proof -
  have "inj_on (\<lambda>k. or_leg (os' ! k)) (live_buys os i) = inj_on (\<lambda>k. or_leg (os ! k)) (live_buys os i)"
    using assms(3) by (intro inj_on_cong) simp
  with assms show ?thesis by (simp add: buys_ok_def)
qed

lemma awaiting_sum_append:
  fixes f :: "lifecycle_order \<Rightarrow> int"
  shows "(\<Sum>k \<in> awaiting os. f ((os @ [order]) ! k)) = (\<Sum>k \<in> awaiting os. f (os ! k))"
  using live_in_range(2) [of _ os] by (intro sum.cong) (auto simp: nth_append)

lemma awaiting_sum_update:
  fixes f :: "lifecycle_order \<Rightarrow> int"
  assumes "k \<notin> S"
  shows "(\<Sum>n \<in> S. f (os[k := order] ! n)) = (\<Sum>n \<in> S. f (os ! n))"
  using assms by (intro sum.cong refl) (metis nth_list_update_neq)

lemma submit_simps [simp]:
  "sm_orders (submit i l q lim res t sell s) = sm_orders s @ [\<lparr>or_attempt = i, or_leg = l, or_quantity = q, or_limit = lim,
     or_reserve = res, or_fill = no_execution, or_arrived = False, or_responded = False, or_sell = sell\<rparr>]"
  "sm_events (submit i l q lim res t sell s) =
     push_event \<lparr>le_time = t, le_order = length (sm_orders s), le_response = False\<rparr> (sm_events s)"
  "sm_attempts (submit i l q lim res t sell s) = sm_attempts s" "sm_positions (submit i l q lim res t sell s) = sm_positions s"
  "sm_available (submit i l q lim res t sell s) = sm_available s" "sm_attempted (submit i l q lim res t sell s) = sm_attempted s"
  "sm_reserved_total (submit i l q lim res t sell s) = sm_reserved_total s" "sm_spent (submit i l q lim res t sell s) = sm_spent s"
  "sm_unconfirmed_debit (submit i l q lim res t sell s) = sm_unconfirmed_debit s"
  "sm_unconfirmed_credit (submit i l q lim res t sell s) = sm_unconfirmed_credit s"
  "sm_settlement_cash (submit i l q lim res t sell s) = sm_settlement_cash s" "sm_exit_credit (submit i l q lim res t sell s) = sm_exit_credit s"
  by (simp_all add: submit_def Let_def emit_row_def)

lemma submit_sell:
  assumes inv: "study_inv cfg life s" and i: "i < length (sm_attempts s)" and l: "l < 2"
    and q: "0 \<le> q" "q \<le> quantity_limit" and lim: "0 \<le> lim" "lim \<le> 10000" and t: "0 \<le> t" "t \<le> int64_max"
    and exits: "sy_residual_exit (pc_policy cfg) \<noteq> None"
  shows "study_inv cfg life (submit i l q lim 0 t True s)"
proof -
  note d = study_invD [OF inv]
  let ?order = "\<lparr>or_attempt = i, or_leg = l, or_quantity = q, or_limit = lim, or_reserve = 0, or_fill = no_execution,
    or_arrived = False, or_responded = False, or_sell = True\<rparr>"
  let ?os = "sm_orders s @ [?order]"
  have "order_ok cfg (sm_attempts s) (?os ! k)" if "k < length ?os" for k
    using d(1) [of k] that i l q lim exits by (cases "k < length (sm_orders s)") (auto simp: nth_append order_ok_def)
  moreover have "buys_ok life ?os j (sm_attempts s ! j)" if "j < length (sm_attempts s)" for j
    using live_in_range(1) [of _ "sm_orders s" j]
    by (intro buys_ok_cong [OF d(3) [OF that]]) (simp_all add: live_buys_append nth_append)
  moreover have "events_ok ?os (push_event \<lparr>le_time = t, le_order = length (sm_orders s), le_response = False\<rparr> (sm_events s))"
    using d(4) t by (intro events_submit) simp_all
  moreover have "cash_ok cfg (submit i l q lim 0 t True s)"
    using d(5) by (simp add: cash_ok_def awaiting_append awaiting_sum_append [where f = "\<lambda>order. ex_debit (or_fill order)"]
      awaiting_sum_append [where f = "\<lambda>order. ex_credit (or_fill order)"])
  ultimately show ?thesis using d(2,6,7) by (intro study_invI) (simp_all add: attempted_ok_def)
qed

text \<open>A purchase is submitted against the reserve of its leg.\<close>

lemma submit_buy:
  assumes inv: "study_inv cfg life s" and i: "i < length (sm_attempts s)" and l: "l < 2"
    and q: "0 \<le> q" "sy_quantity_step (pc_policy cfg) dvd q"
      "ex_quantity (pick l (pa_fills (sm_attempts s ! i))) + q \<le> pa_quantity (sm_attempts s ! i)"
    and lim: "0 \<le> lim" "lim \<le> 10000" and t: "0 \<le> t" "t \<le> int64_max"
    and fee: "sy_fees (pc_policy cfg) (lt_market (pick l (pa_legs (sm_attempts s ! i)))) = Some fee"
    and res: "res = reserve_amount fee (sy_quantity_step (pc_policy cfg)) lim q" "pick l (pa_reserve (sm_attempts s ! i)) = res"
    and idle: "\<And>k. k \<in> live_buys (sm_orders s) i \<Longrightarrow> or_leg (sm_orders s ! k) \<noteq> l" "\<not> pa_exit_considered (sm_attempts s ! i)"
      "lp_sequential life \<Longrightarrow> live_buys (sm_orders s) i = {}"
  shows "study_inv cfg life (submit i l q lim res t False
    (put_attempt i ((sm_attempts s ! i)\<lparr>pa_pending_buys := pa_pending_buys (sm_attempts s ! i) + 1\<rparr>) s))"
proof -
  note d = study_invD [OF inv]
  let ?a = "sm_attempts s ! i" and ?n = "length (sm_orders s)"
  let ?a' = "?a\<lparr>pa_pending_buys := pa_pending_buys ?a + 1\<rparr>"
  let ?order = "\<lparr>or_attempt = i, or_leg = l, or_quantity = q, or_limit = lim, or_reserve = res, or_fill = no_execution,
    or_arrived = False, or_responded = False, or_sell = False\<rparr>"
  let ?os = "sm_orders s @ [?order]" and ?as = "(sm_attempts s)[i := ?a']"
  let ?s = "submit i l q lim res t False (put_attempt i ?a' s)"
  have fills: "0 \<le> ex_quantity (pick l (pa_fills ?a))" and lim_a: "pa_quantity ?a \<le> quantity_limit"
    and reserve: "0 \<le> res"
    using d(2) [OF i] l res(2) by (auto simp: attempt_ok_def pick_def)
  have "order_ok cfg (sm_attempts s) (?os ! k)" if "k < length ?os" for k
    using d(1) [of k] that i l q lim fee res(1) reserve fills lim_a
    by (cases "k < length (sm_orders s)") (auto simp: nth_append order_ok_def)
  then have "order_ok cfg ?as (?os ! k)" if "k < length ?os" for k
    by (rule order_ok_update) (use that in simp_all)
  moreover have "attempt_ok cfg (?as ! j)" if "j < length (sm_attempts s)" for j
    using d(2) [OF that] i that by (auto simp: nth_list_update attempt_ok_def)
  moreover have "buys_ok life ?os j (?as ! j)" if j: "j < length (sm_attempts s)" for j
  proof (cases "j = i")
    case False
    have "buys_ok life ?os j (sm_attempts s ! j)"
      using d(3) [OF j] live_in_range(1) [of _ "sm_orders s" j] False
      by (intro buys_ok_cong [OF d(3) [OF j]]) (simp_all add: live_buys_append nth_append)
    with False show ?thesis by simp
  next
    case True
    have b: "buys_ok life (sm_orders s) i ?a" by (rule d(3) [OF i])
    have old: "?os ! k = sm_orders s ! k" "k \<noteq> ?n" if "k \<in> live_buys (sm_orders s) i" for k
      using live_in_range(1) [OF that] by (simp_all add: nth_append)
    have live: "live_buys ?os i = insert ?n (live_buys (sm_orders s) i)" by (simp add: live_buys_append)
    have out: "?n \<notin> live_buys (sm_orders s) i" using live_in_range(1) by blast
    have inj: "inj_on (\<lambda>k. or_leg (?os ! k)) (insert ?n (live_buys (sm_orders s) i))"
      unfolding inj_on_insert
    proof
      have "inj_on (\<lambda>k. or_leg (?os ! k)) (live_buys (sm_orders s) i) = inj_on (\<lambda>k. or_leg (sm_orders s ! k)) (live_buys (sm_orders s) i)"
        using old(1) by (intro inj_on_cong) simp
      with b show "inj_on (\<lambda>k. or_leg (?os ! k)) (live_buys (sm_orders s) i)" by (simp add: buys_ok_def)
      show "or_leg (?os ! ?n) \<notin> (\<lambda>k. or_leg (?os ! k)) ` (live_buys (sm_orders s) i - {?n})"
        using old(1) idle(1) by (auto simp: nth_append)
    qed
    have "card (live_buys ?os i) = card (live_buys (sm_orders s) i) + 1" using out by (simp add: live)
    moreover have "lp_sequential life \<Longrightarrow> card (live_buys ?os i) \<le> 1" using idle(3) by (simp add: live)
    ultimately have "buys_ok life ?os i ?a'"
      using b inj old(1) idle(2) res(2) q(3) unfolding buys_ok_def live by simp
    with True i show ?thesis by simp
  qed
  moreover have "events_ok ?os (push_event \<lparr>le_time = t, le_order = ?n, le_response = False\<rparr> (sm_events s))"
    using d(4) t by (intro events_submit) simp_all
  moreover have "cash_ok cfg ?s"
    using d(5) i by (simp add: cash_ok_def awaiting_append sum_list_update_int awaiting_sum_append [where f = "\<lambda>order. ex_debit (or_fill order)"]
      awaiting_sum_append [where f = "\<lambda>order. ex_credit (or_fill order)"])
  moreover have "holdings_ok ?as (sm_positions s)"
    using d(6) i by (auto simp: holdings_ok_def nth_list_update)
  moreover have "attempted_ok cfg ?s"
    using d(7) ids_update [of ?a' "sm_attempts s" i] by (simp add: attempted_ok_def)
  ultimately show ?thesis by (intro study_invI) simp_all
qed


text \<open>A new attempt takes its reserves out of the available cash.\<close>

lemma add_attempt:
  assumes inv: "study_inv cfg life s" and a: "attempt_ok cfg a" "pa_fills a = (no_execution, no_execution)"
      "pa_pending_buys a = 0" "\<not> pa_exit_considered a"
    and new: "pa_id a \<notin> sm_attempted s" and funds: "fst (pa_reserve a) + snd (pa_reserve a) \<le> sm_available s"
  shows "study_inv cfg life (s\<lparr>sm_available := sm_available s - (fst (pa_reserve a) + snd (pa_reserve a)),
    sm_reserved_total := sm_reserved_total s + (fst (pa_reserve a) + snd (pa_reserve a)),
    sm_attempted := insert (pa_id a) (sm_attempted s), sm_attempts := sm_attempts s @ [a]\<rparr>)" (is "study_inv cfg life ?s")
proof -
  note d = study_invD [OF inv]
  let ?as = "sm_attempts s @ [a]" and ?n = "length (sm_attempts s)" and ?sp = "sm_positions s"
  have range: "or_attempt (sm_orders s ! k) < ?n" if "k < length (sm_orders s)" for k
    using d(1) [OF that] by (simp add: order_ok_def)
  then have "live_buys (sm_orders s) ?n = {}" by (force simp: live_buys_def live_order_def)
  then have buys: "buys_ok life (sm_orders s) j (?as ! j)" if "j < length ?as" for j
    using d(3) [of j] that a(3,4) by (cases "j < ?n") (auto simp: nth_append buys_ok_def less_Suc_eq)
  have orders: "order_ok cfg ?as (sm_orders s ! k)" if k: "k < length (sm_orders s)" for k
    using d(1) [OF k] range [OF k] by (simp add: order_ok_def nth_append)
  have attempts: "attempt_ok cfg (?as ! j)" if "j < length ?as" for j
    using d(2) [of j] that a(1) by (cases "j < ?n") (auto simp: nth_append less_Suc_eq)
  have cash: "cash_ok cfg ?s" using d(5) funds by (simp add: cash_ok_def)
  have ids: "distinct (map pa_id ?as)" "pa_id ` set ?as = insert (pa_id a) (sm_attempted s)"
    using d(7) new by (auto simp: attempted_ok_def)
  then have attempted: "attempted_ok cfg ?s" using d(7) by (simp add: attempted_ok_def)
  have "\<forall>x \<in> set ?as. attempt_ok cfg x" using inv a(1) by (simp add: study_inv_def)
  then have "pa_id ` set ?as \<subseteq> dom (pc_legs cfg)" by (force simp: attempt_ok_def)
  then have "card (set (map pa_id ?as)) \<le> card (dom (pc_legs cfg))"
    using d(7) by (intro card_mono) (auto simp: attempted_ok_def)
  then have "?n + 1 \<le> card (dom (pc_legs cfg))"
    using distinct_card [OF ids(1)] by simp
  then have room: "2 * (?n + 1) \<le> length (sp_positions ?sp)" using d(7) by (simp add: attempted_ok_def)
  have "ps_quantity (sp_positions ?sp ! (?n * 2 + l)) = 0" if "l < 2" for l
    using d(6) room that by (simp add: holdings_ok_def)
  then have "holdings_ok ?as ?sp"
    using d(6) room a(2) by (auto simp: holdings_ok_def nth_append less_Suc_eq numeral_2_eq_2)
  with d(4) orders attempts buys cash attempted show ?thesis by (intro study_invI) simp_all
qed


subsection \<open>Responses\<close>

text \<open>The response of a sale makes its credit available.\<close>

lemma answer_sell:
  assumes inv: "study_inv cfg life s" and evs: "sm_events s = ev # evs" and response: "le_response ev"
    and sell: "or_sell (sm_orders s ! le_order ev)"
  shows "study_inv cfg life (put_order (le_order ev) ((sm_orders s ! le_order ev)\<lparr>or_responded := True\<rparr>)
    (s\<lparr>sm_events := evs, sm_unconfirmed_credit := sm_unconfirmed_credit s - ex_credit (or_fill (sm_orders s ! le_order ev)),
       sm_available := sm_available s + ex_credit (or_fill (sm_orders s ! le_order ev))\<rparr>))" (is "study_inv cfg life ?s")
proof -
  note d = study_invD [OF inv]
  let ?k = "le_order ev" and ?os = "(sm_orders s)[le_order ev := (sm_orders s ! le_order ev)\<lparr>or_responded := True\<rparr>]"
  have head: "live_order (sm_orders s) ?k" "or_arrived (sm_orders s ! ?k)"
    using events_head(1,2) [OF d(4) [unfolded evs]] response by simp_all
  then have k: "?k < length (sm_orders s)" by (simp add: live_order_def)
  have ok: "order_ok cfg (sm_attempts s) (sm_orders s ! ?k)" by (rule d(1) [OF k])
  then have zero: "ex_debit (or_fill (sm_orders s ! ?k)) = 0" "0 \<le> ex_credit (or_fill (sm_orders s ! ?k))"
    using sell by (auto simp: order_ok_def)
  have wait: "?k \<in> awaiting (sm_orders s)" using head by (simp add: awaiting_def)
  have out: "?k \<notin> live_buys (sm_orders s) i" for i using sell by (simp add: live_buys_def)
  have orders: "order_ok cfg (sm_attempts s) (?os ! n)" if "n < length (sm_orders s)" for n
    using d(1) [OF that] ok head(2) that by (cases "n = ?k") (simp_all add: order_ok_def)
  have buys: "buys_ok life ?os i (sm_attempts s ! i)" if "i < length (sm_attempts s)" for i
  proof (rule buys_ok_cong [OF d(3) [OF that]])
    show "live_buys ?os i = live_buys (sm_orders s) i" using out [of i] k by (simp add: live_buys_answer)
    show "?os ! n = sm_orders s ! n" if "n \<in> live_buys (sm_orders s) i" for n
      using out [of i] that by (metis nth_list_update_neq)
  qed
  have sums: "(\<Sum>n \<in> awaiting ?os. f (or_fill (?os ! n))) = (\<Sum>n \<in> awaiting (sm_orders s). f (or_fill (sm_orders s ! n))) - f (or_fill (sm_orders s ! ?k))"
    for f :: "execution \<Rightarrow> int"
    using k by (simp add: awaiting_answer awaiting_sum_update [where f = "\<lambda>order. f (or_fill order)"] sum_diff1 wait)
  have "cash_ok cfg ?s"
    using d(5) zero sums [of ex_debit] sums [of ex_credit] by (simp add: cash_ok_def put_order_def)
  with d(2,6,7) orders buys events_answer [OF d(4) [unfolded evs]] show ?thesis
    by (intro study_invI) (simp_all add: attempted_ok_def put_order_def)
qed

text \<open>The response of a purchase releases its reserve but for the debit.\<close>

lemma answer_buy:
  assumes inv: "study_inv cfg life s" and evs: "sm_events s = ev # evs" and response: "le_response ev"
    and buy: "\<not> or_sell (sm_orders s ! le_order ev)"
  defines "k \<equiv> le_order ev" and "order \<equiv> sm_orders s ! le_order ev"
  defines "i \<equiv> or_attempt order" and "a \<equiv> sm_attempts s ! or_attempt order"
  defines "s' \<equiv> put_attempt i (a\<lparr>pa_pending_buys := pa_pending_buys a - 1, pa_reserve := place (or_leg order) 0 (pa_reserve a)\<rparr>)
    (put_order k (order\<lparr>or_responded := True\<rparr>)
      (s\<lparr>sm_events := evs, sm_reserved_total := sm_reserved_total s - or_reserve order,
         sm_unconfirmed_debit := sm_unconfirmed_debit s - ex_debit (or_fill order),
         sm_available := sm_available s + (or_reserve order - ex_debit (or_fill order))\<rparr>))"
  shows "study_inv cfg life s'" "pa_pending_buys a \<noteq> 0" "\<not> pa_exit_considered a" "i < length (sm_attempts s)"
    "lp_sequential life \<Longrightarrow> pa_pending_buys a = 1" "live_buys (sm_orders s') i = live_buys (sm_orders s) i - {k}"
proof -
  note d = study_invD [OF inv]
  let ?a = "a\<lparr>pa_pending_buys := pa_pending_buys a - 1, pa_reserve := place (or_leg order) 0 (pa_reserve a)\<rparr>"
  let ?os = "(sm_orders s)[k := order\<lparr>or_responded := True\<rparr>]" and ?as = "(sm_attempts s)[i := ?a]"
  have head: "live_order (sm_orders s) k" "or_arrived order"
    using events_head(1,2) [OF d(4) [unfolded evs]] response by (simp_all add: k_def order_def)
  then have k: "k < length (sm_orders s)" and order: "sm_orders s ! k = order" by (simp_all add: live_order_def k_def order_def)
  have ok: "order_ok cfg (sm_attempts s) order" using d(1) [OF k] by (simp add: order)
  then have i: "i < length (sm_attempts s)" and l: "or_leg order < 2" and money: "ex_credit (or_fill order) = 0" "ex_debit (or_fill order) \<le> or_reserve order"
      "0 \<le> ex_debit (or_fill order)"
    using buy by (auto simp: order_ok_def i_def order_def)
  have wait: "k \<in> awaiting (sm_orders s)" using head order by (simp add: awaiting_def)
  have live: "k \<in> live_buys (sm_orders s) i" using head buy by (simp add: live_buys_def i_def order k_def order_def)
  have b: "buys_ok life (sm_orders s) i a" using d(3) [OF i] by (simp add: a_def i_def)
  have pos: "card (live_buys (sm_orders s) i) \<noteq> 0" using live by auto
  have reserve: "pick (or_leg order) (pa_reserve a) = or_reserve order" using b live by (auto simp: buys_ok_def order)
  show "pa_pending_buys a \<noteq> 0" "\<not> pa_exit_considered a" using b pos by (auto simp: buys_ok_def)
  show "lp_sequential life \<Longrightarrow> pa_pending_buys a = 1"
    using b pos unfolding buys_ok_def by linarith
  show "i < length (sm_attempts s)" by (rule i)
  show gone: "live_buys (sm_orders s') i = live_buys (sm_orders s) i - {k}"
    using k by (simp add: s'_def live_buys_answer)
  have "order_ok cfg (sm_attempts s) (?os ! n)" if "n < length (sm_orders s)" for n
    using d(1) [OF that] ok head(2) that by (cases "n = k") (simp_all add: order_ok_def)
  then have orders: "order_ok cfg ?as (?os ! n)" if "n < length (sm_orders s)" for n
    by (rule order_ok_update) (simp_all add: that a_def i_def)
  have attempts: "attempt_ok cfg (?as ! j)" if "j < length (sm_attempts s)" for j
    using d(2) [OF that] d(2) [OF i] i that by (auto simp: nth_list_update attempt_ok_def a_def i_def)
  have buys: "buys_ok life ?os j (?as ! j)" if j: "j < length (sm_attempts s)" for j
  proof (cases "j = i")
    case False
    then have "k \<notin> live_buys (sm_orders s) j" by (simp add: live_buys_def order i_def)
    then have "buys_ok life ?os j (sm_attempts s ! j)"
    proof (intro buys_ok_cong [OF d(3) [OF j]])
      show "?os ! n = sm_orders s ! n" if "k \<notin> live_buys (sm_orders s) j" "n \<in> live_buys (sm_orders s) j" for n
        using that by (metis nth_list_update_neq)
    qed (simp_all add: live_buys_answer k)
    with False show ?thesis by simp
  next
    case True
    let ?S = "live_buys (sm_orders s) i"
    have same: "?os ! n = sm_orders s ! n" if "n \<in> ?S - {k}" for n using that by (metis DiffD2 insertI1 nth_list_update_neq)
    have legs: "or_leg (sm_orders s ! n) < 2 \<and> or_leg (sm_orders s ! n) \<noteq> or_leg order" if n: "n \<in> ?S - {k}" for n
    proof
      show "or_leg (sm_orders s ! n) < 2" using d(1) [of n] n live_in_range(1) by (auto simp: order_ok_def)
      have "inj_on (\<lambda>n. or_leg (sm_orders s ! n)) ?S" using b by (simp add: buys_ok_def)
      then show "or_leg (sm_orders s ! n) \<noteq> or_leg order" using n live unfolding inj_on_def by (metis DiffD1 DiffD2 insertI1 order)
    qed
    have "inj_on (\<lambda>n. or_leg (?os ! n)) (?S - {k}) = inj_on (\<lambda>n. or_leg (sm_orders s ! n)) (?S - {k})"
      using same by (intro inj_on_cong) simp
    moreover have "inj_on (\<lambda>n. or_leg (sm_orders s ! n)) (?S - {k})"
      using b by (auto simp: buys_ok_def intro: inj_on_subset)
    moreover have "card (?S - {k}) = card ?S - 1" using live by simp
    ultimately have "buys_ok life ?os i ?a"
      using b same legs l k unfolding buys_ok_def by (auto simp: live_buys_answer)
    with True i show ?thesis by simp
  qed
  have sums: "(\<Sum>n \<in> awaiting ?os. f (or_fill (?os ! n))) = (\<Sum>n \<in> awaiting (sm_orders s). f (or_fill (sm_orders s ! n))) - f (or_fill order)"
    for f :: "execution \<Rightarrow> int"
    using k by (simp add: awaiting_answer awaiting_sum_update [where f = "\<lambda>order. f (or_fill order)"] sum_diff1 wait order)
  have "or_leg order = 0 \<or> or_leg order = 1" using l by auto
  then have "fst (place (or_leg order) 0 (pa_reserve a)) + snd (place (or_leg order) 0 (pa_reserve a)) =
      fst (pa_reserve a) + snd (pa_reserve a) - or_reserve order"
    using reserve by auto
  then have cash: "cash_ok cfg s'"
    using d(5) i money sums [of ex_debit] sums [of ex_credit]
    by (simp add: cash_ok_def s'_def put_order_def sum_list_update_int a_def i_def)
  have holdings: "holdings_ok ?as (sm_positions s)"
    using d(6) i by (auto simp: holdings_ok_def nth_list_update a_def i_def)
  have "attempted_ok cfg s'"
    using d(7) ids_update [of ?a "sm_attempts s" i] by (simp add: attempted_ok_def s'_def put_order_def a_def i_def)
  with orders attempts buys cash holdings events_answer [OF d(4) [unfolded evs]] show "study_inv cfg life s'"
    by (intro study_invI) (simp_all add: s'_def put_order_def k_def)
qed


subsection \<open>Arrivals\<close>

lemma two_apart: "i * 2 + l = j * 2 + m \<Longrightarrow> l < 2 \<Longrightarrow> m < 2 \<Longrightarrow> i = j \<and> l = (m :: nat)"
  by presburger

lemma only_lots_quantity:
  assumes "only_lots_of n ls sp sp'" "positions_ok sp" "j < length (sp_positions sp)"
  shows "ps_quantity (sp_positions sp' ! j) = (if j = n then lots_quantity ls else ps_quantity (sp_positions sp ! j))"
  using assms positions_okD(3) [of sp j] positions_okD(3) [of sp' j] by (simp add: only_lots_of_def)

text \<open>One position changes, and the fills of its leg with it.\<close>

lemma holdings_change:
  assumes h: "holdings_ok as sp" and i: "i < length as" and l: "l < 2"
    and lots: "only_lots_of (i * 2 + l) ls sp sp'" "lots_quantity ls \<le> ex_quantity (pick l (pa_fills a))"
    and other: "\<And>m. m < 2 \<Longrightarrow> m \<noteq> l \<Longrightarrow> pick m (pa_fills a) = pick m (pa_fills (as ! i))"
  shows "holdings_ok (as[i := a]) sp'"
proof -
  have ok: "positions_ok sp" and room: "2 * length as \<le> length (sp_positions sp)" using h by (simp_all add: holdings_ok_def)
  note q = only_lots_quantity [OF lots(1) ok]
  have "ps_quantity (sp_positions sp' ! (j * 2 + m)) \<le> ex_quantity (pick m (pa_fills (as[i := a] ! j)))"
    if jm: "j < length as" "m < 2" for j m
  proof (cases "j * 2 + m = i * 2 + l")
    case True
    then have "j = i" "m = l" using two_apart [OF True] jm l by auto
    then show ?thesis using q [of "i * 2 + l"] lots(2) i l room by simp
  next
    case False
    then have "ps_quantity (sp_positions sp' ! (j * 2 + m)) = ps_quantity (sp_positions sp ! (j * 2 + m))"
      using q [of "j * 2 + m"] jm room by simp
    moreover have "pick m (pa_fills (as[i := a] ! j)) = pick m (pa_fills (as ! j))"
      using False other [OF jm(2)] i by (cases "j = i") auto
    ultimately show ?thesis using h jm by (simp add: holdings_ok_def)
  qed
  moreover have "ps_quantity (sp_positions sp' ! j) = 0" if j: "2 * length as \<le> j" "j < length (sp_positions sp)" for j
  proof -
    have "i * 2 + l < 2 * length as" using i l by linarith
    then have "j \<noteq> i * 2 + l" using j(1) by linarith
    then show ?thesis using q [OF j(2)] h j by (simp add: holdings_ok_def)
  qed
  ultimately show ?thesis using lots(1) room by (simp add: holdings_ok_def only_lots_of_def)
qed

text \<open>A sale arrives: its credit is owed until the response.\<close>

lemma arrive_sell:
  assumes inv: "study_inv cfg life s" and evs: "sm_events s = ev # evs" and arrival: "\<not> le_response ev"
    and sell: "or_sell (sm_orders s ! le_order ev)"
    and fill: "0 \<le> ex_quantity f" "ex_quantity f \<le> or_quantity (sm_orders s ! le_order ev)" "ex_debit f = 0" "0 \<le> ex_credit f"
    and bound: "sm_exit_credit s + ex_credit f \<le> cash_limit" and t: "0 \<le> t" "t \<le> int64_max"
    and holdings: "holdings_ok (sm_attempts s) sp" "length (sp_positions sp) = length (sp_positions (sm_positions s))"
  shows "study_inv cfg life (put_order (le_order ev) ((sm_orders s ! le_order ev)\<lparr>or_arrived := True, or_fill := f\<rparr>)
    (s\<lparr>sm_events := push_event \<lparr>le_time = t, le_order = le_order ev, le_response = True\<rparr> evs, sm_positions := sp,
       sm_exit_credit := sm_exit_credit s + ex_credit f, sm_unconfirmed_credit := sm_unconfirmed_credit s + ex_credit f\<rparr>))"
    (is "study_inv cfg life ?s")
proof -
  note d = study_invD [OF inv]
  let ?k = "le_order ev" and ?order = "(sm_orders s ! le_order ev)\<lparr>or_arrived := True, or_fill := f\<rparr>"
  let ?os = "(sm_orders s)[le_order ev := ?order]"
  have head: "live_order (sm_orders s) ?k" "\<not> or_arrived (sm_orders s ! ?k)"
    using events_head(1,2) [OF d(4) [unfolded evs]] arrival by simp_all
  then have k: "?k < length (sm_orders s)" by (simp add: live_order_def)
  have ok: "order_ok cfg (sm_attempts s) (sm_orders s ! ?k)" by (rule d(1) [OF k])
  have fresh: "?k \<notin> awaiting (sm_orders s)" using head by (simp add: awaiting_def)
  have out: "?k \<notin> live_buys (sm_orders s) i" for i using sell by (simp add: live_buys_def)
  have orders: "order_ok cfg (sm_attempts s) (?os ! n)" if "n < length (sm_orders s)" for n
    using d(1) [OF that] ok fill sell that by (cases "n = ?k") (simp_all add: order_ok_def)
  have buys: "buys_ok life ?os i (sm_attempts s ! i)" if "i < length (sm_attempts s)" for i
  proof (rule buys_ok_cong [OF d(3) [OF that]])
    show "live_buys ?os i = live_buys (sm_orders s) i" using head by (intro live_buys_arrive) (simp_all add: live_order_def)
    show "?os ! n = sm_orders s ! n" if "n \<in> live_buys (sm_orders s) i" for n
      using out [of i] that by (metis nth_list_update_neq)
  qed
  have wait: "awaiting ?os = insert ?k (awaiting (sm_orders s))"
    using head by (intro awaiting_arrive) (simp_all add: live_order_def)
  have sums: "(\<Sum>n \<in> awaiting ?os. g (or_fill (?os ! n))) = (\<Sum>n \<in> awaiting (sm_orders s). g (or_fill (sm_orders s ! n))) + g f"
    for g :: "execution \<Rightarrow> int"
    using k fresh by (simp add: wait awaiting_sum_update [OF fresh, where f = "\<lambda>order. g (or_fill order)"])
  have "cash_ok cfg ?s"
    using d(5) fill bound sums [of ex_debit] sums [of ex_credit] by (simp add: cash_ok_def put_order_def)
  moreover have "events_ok ?os (push_event \<lparr>le_time = t, le_order = ?k, le_response = True\<rparr> evs)"
    using events_arrive [OF d(4) [unfolded evs] _ _ t, of ?order] head by (simp add: live_order_def)
  ultimately show ?thesis using d(2,7) orders buys holdings
    by (intro study_invI) (simp_all add: attempted_ok_def put_order_def)
qed

text \<open>A purchase arrives: its debit is spent, and still reserved until the response.\<close>

lemma arrive_buy:
  assumes inv: "study_inv cfg life s" and evs: "sm_events s = ev # evs" and arrival: "\<not> le_response ev"
    and buy: "\<not> or_sell (sm_orders s ! le_order ev)"
    and fill: "0 \<le> ex_quantity f" "ex_quantity f \<le> or_quantity (sm_orders s ! le_order ev)" "0 \<le> ex_debit f"
      "ex_debit f \<le> or_reserve (sm_orders s ! le_order ev)" "ex_credit f = 0"
    and bound: "sm_spent s + ex_debit f \<le> cash_limit" and t: "0 \<le> t" "t \<le> int64_max"
  defines "order \<equiv> sm_orders s ! le_order ev"
  defines "i \<equiv> or_attempt order" and "l \<equiv> or_leg order" and "a \<equiv> sm_attempts s ! or_attempt order"
  defines "a' \<equiv> set_fill l (add_execution (pick l (pa_fills a)) f) a"
  assumes lots: "holdings_ok ((sm_attempts s)[i := a']) sp" "length (sp_positions sp) = length (sp_positions (sm_positions s))"
  shows "study_inv cfg life (put_attempt i a' (put_order (le_order ev) (order\<lparr>or_arrived := True, or_fill := f\<rparr>)
    (s\<lparr>sm_events := push_event \<lparr>le_time = t, le_order = le_order ev, le_response = True\<rparr> evs, sm_positions := sp,
       sm_spent := sm_spent s + ex_debit f, sm_unconfirmed_debit := sm_unconfirmed_debit s + ex_debit f\<rparr>)))"
    (is "study_inv cfg life ?s")
proof -
  note d = study_invD [OF inv]
  let ?k = "le_order ev" and ?order = "order\<lparr>or_arrived := True, or_fill := f\<rparr>"
  let ?os = "(sm_orders s)[le_order ev := ?order]" and ?as = "(sm_attempts s)[i := a']"
  have head: "live_order (sm_orders s) ?k" "\<not> or_arrived order"
    using events_head(1,2) [OF d(4) [unfolded evs]] arrival by (simp_all add: order_def)
  then have k: "?k < length (sm_orders s)" by (simp add: live_order_def)
  have ok: "order_ok cfg (sm_attempts s) order" using d(1) [OF k] by (simp add: order_def)
  then have i: "i < length (sm_attempts s)" and l: "l < 2" by (simp_all add: order_ok_def i_def l_def)
  have fresh: "?k \<notin> awaiting (sm_orders s)" using head by (simp add: awaiting_def order_def)
  have live: "?k \<in> live_buys (sm_orders s) i" using head buy by (simp add: live_buys_def i_def order_def)
  have b: "buys_ok life (sm_orders s) i a" using d(3) [OF i] by (simp add: a_def i_def)
  have room: "ex_quantity (pick l (pa_fills a)) + or_quantity order \<le> pa_quantity a"
    using b live head by (auto simp: buys_ok_def l_def order_def)
  have a': "pa_id a' = pa_id a" "pa_legs a' = pa_legs a" "pa_quantity a' = pa_quantity a" "pa_reserve a' = pa_reserve a"
    "pa_pending_buys a' = pa_pending_buys a" "pa_exit_considered a' = pa_exit_considered a"
    "ex_quantity (pick l (pa_fills a')) = ex_quantity (pick l (pa_fills a)) + ex_quantity f"
    "\<And>m. m < 2 \<Longrightarrow> m \<noteq> l \<Longrightarrow> pick m (pa_fills a') = pick m (pa_fills a)"
    using l by (simp_all add: a'_def set_fill_def add_execution_def)
  have order': "order_ok cfg (sm_attempts s) ?order"
    using ok fill buy by (simp add: order_ok_def order_def)
  have "order_ok cfg (sm_attempts s) (?os ! n)" if "n < length (sm_orders s)" for n
    using d(1) [OF that] order' that by (cases "n = ?k") simp_all
  then have orders: "order_ok cfg ?as (?os ! n)" if "n < length (sm_orders s)" for n
    by (rule order_ok_update) (simp_all add: that a' a_def i_def)
  have "attempt_ok cfg a" using d(2) [OF i] by (simp add: a_def i_def)
  then have "attempt_ok cfg a'"
    using a' room fill(1,2) l unfolding attempt_ok_def order_def [symmetric] by (metis add_mono_thms_linordered_semiring(2) add_nonneg_nonneg order_trans)
  then have attempts: "attempt_ok cfg (?as ! j)" if "j < length (sm_attempts s)" for j
    using d(2) [OF that] that by (cases "j = i") simp_all
  have same: "live_buys ?os j = live_buys (sm_orders s) j" for j
    using head by (intro live_buys_arrive) (simp_all add: live_order_def order_def)
  have buys: "buys_ok life ?os j (?as ! j)" if j: "j < length (sm_attempts s)" for j
  proof (cases "j = i")
    case False
    then have out: "?k \<notin> live_buys (sm_orders s) j" by (simp add: live_buys_def i_def order_def)
    have "buys_ok life ?os j (sm_attempts s ! j)"
    proof (rule buys_ok_cong [OF d(3) [OF j] same])
      show "?os ! n = sm_orders s ! n" if "n \<in> live_buys (sm_orders s) j" for n
        using out that by (metis nth_list_update_neq)
    qed
    with False show ?thesis by simp
  next
    case True
    let ?S = "live_buys (sm_orders s) i"
    have fields: "or_leg (?os ! n) = or_leg (sm_orders s ! n)" "or_reserve (?os ! n) = or_reserve (sm_orders s ! n)" for n
      using k by (cases "n = ?k"; simp add: order_def)+
    have inj: "inj_on (\<lambda>n. or_leg (sm_orders s ! n)) ?S" using b by (simp add: buys_ok_def)
    have "ex_quantity (pick (or_leg (?os ! n)) (pa_fills a')) + or_quantity (?os ! n) \<le> pa_quantity a'"
      if n: "n \<in> ?S" "\<not> or_arrived (?os ! n)" for n
    proof -
      have nk: "n \<noteq> ?k" using n(2) k by (metis (no_types) nth_list_update_eq lifecycle_order.select_convs(7) lifecycle_order.surjective lifecycle_order.update_convs(7) lifecycle_order.update_convs(6))
      then have "?os ! n = sm_orders s ! n" by simp
      moreover have "or_leg (sm_orders s ! n) \<noteq> l" using inj n(1) live nk by (auto simp: inj_on_def l_def order_def)
      moreover have "or_leg (sm_orders s ! n) < 2" using d(1) [of n] live_in_range(1) [OF n(1)] by (simp add: order_ok_def)
      ultimately show ?thesis using b n a'(3,8) by (simp add: buys_ok_def)
    qed
    then have "buys_ok life ?os i a'"
      using b a' unfolding buys_ok_def same fields by simp
    with True i show ?thesis by simp
  qed
  have wait: "awaiting ?os = insert ?k (awaiting (sm_orders s))"
    using head by (intro awaiting_arrive) (simp_all add: live_order_def order_def)
  have sums: "(\<Sum>n \<in> awaiting ?os. g (or_fill (?os ! n))) = (\<Sum>n \<in> awaiting (sm_orders s). g (or_fill (sm_orders s ! n))) + g f"
    for g :: "execution \<Rightarrow> int"
    using k fresh by (simp add: wait awaiting_sum_update [OF fresh, where f = "\<lambda>order. g (or_fill order)"])
  have cash: "cash_ok cfg ?s"
    using d(5) i fill bound sums [of ex_debit] sums [of ex_credit] a'(4)
    by (simp add: cash_ok_def put_order_def sum_list_update_int a_def i_def)
  have events: "events_ok ?os (push_event \<lparr>le_time = t, le_order = ?k, le_response = True\<rparr> evs)"
    using events_arrive [OF d(4) [unfolded evs] _ _ t, of ?order] head by (simp add: live_order_def order_def)
  have "attempted_ok cfg ?s"
    using d(7) ids_update [of a' "sm_attempts s" i] a'(1) lots(2) by (simp add: attempted_ok_def put_order_def a_def i_def)
  with orders attempts buys cash lots(1) events show ?thesis
    by (intro study_invI) (simp_all add: put_order_def)
qed

end
