(* ===== verification/Pair_Lifecycle.thy ===== *)
theory Pair_Lifecycle
  imports Pair_Ledger
begin

text \<open>
  The operations of the paired study under a lifecycle policy: each keeps the ledger's invariant, fails
  only where a clock, a counter or a cash bound is exhausted, and it returns. What is left to do decreases with every
  turn of \<open>drain_lifecycle\<close>, so the drain ends, with nothing due.
\<close>

subsection \<open>Limits\<close>

text \<open>
  The errors a sane study can meet. All the code's other checks (of the ledger, of the order and event
  life cycle, of indices and look-ups) can never fail.
\<close>

definition clock_limit :: "string \<Rightarrow> bool" where
  "clock_limit e \<longleftrightarrow> e \<in> {''arrival clock overflow'', ''completion clock overflow'', ''exit clock overflow'',
     ''response clock overflow'', ''exit response clock overflow''}"

definition cash_bound_limit :: "string \<Rightarrow> bool" where
  "cash_bound_limit e \<longleftrightarrow> e \<in> {''lifecycle cash reservation'', ''settlement cash bound'', ''settlement payout bound'',
     ''available exit cash bound'', ''exit cash bound''}"

definition runtime_limit :: "string \<Rightarrow> bool" where
  "runtime_limit e \<longleftrightarrow> clock_limit e \<or> cash_bound_limit e \<or> e = ''capital-time overflow'' \<or> e = ''sizing counter overflow'' \<or>
     e = ''net sizing input/arithmetic invariant''"

lemma limit_simps [simp]:
  "clock_limit ''arrival clock overflow''" "clock_limit ''completion clock overflow''" "clock_limit ''exit clock overflow''"
  "clock_limit ''response clock overflow''" "clock_limit ''exit response clock overflow''"
  "cash_bound_limit ''lifecycle cash reservation''" "cash_bound_limit ''settlement cash bound''"
  "cash_bound_limit ''settlement payout bound''" "cash_bound_limit ''available exit cash bound''" "cash_bound_limit ''exit cash bound''"
  by (simp_all add: clock_limit_def cash_bound_limit_def)

lemma runtime_limits [intro]:
  "clock_limit e \<Longrightarrow> runtime_limit e" "cash_bound_limit e \<Longrightarrow> runtime_limit e" "runtime_limit ''capital-time overflow''"
  by (simp_all add: runtime_limit_def)

lemma quote_error_limit: "quote_error s e \<Longrightarrow> runtime_limit e"
  by (auto simp: quote_error_def runtime_limit_def)


subsection \<open>What is left to do\<close>

text \<open>
  An attempt may still order its second leg within the completion budget, and sell once; an order has an
  arrival and a response ahead, or its response only.
\<close>

definition attempt_work :: "lifecycle_policy \<Rightarrow> pair_attempt \<Rightarrow> nat" where
  "attempt_work life a = 2 * (unat (lp_maximum_completion_orders life) - unat (pa_completion_orders a)) +
     (if pa_exit_considered a then 0 else 2)"

definition event_work :: "lifecycle_event \<Rightarrow> nat" where
  "event_work ev = (if le_response ev then 1 else 2)"

definition study_work :: "lifecycle_policy \<Rightarrow> simulation \<Rightarrow> nat" where
  "study_work life s = (\<Sum>a \<leftarrow> sm_attempts s. attempt_work life a) + (\<Sum>ev \<leftarrow> sm_events s. event_work ev) +
     (length (lp_settlements life) - sm_settlement_index s)"

lemma push_event_work [simp]: "(\<Sum>ev \<leftarrow> push_event e evs. event_work ev) = event_work e + (\<Sum>ev \<leftarrow> evs. event_work ev)"
  by (induction evs) auto

lemma attempts_work_update:
  "i < length as \<Longrightarrow> (\<Sum>a \<leftarrow> as[i := a]. attempt_work life a) + attempt_work life (as ! i) =
     (\<Sum>a \<leftarrow> as. attempt_work life a) + attempt_work life a"
proof (induction as arbitrary: i)
  case (Cons x as)
  show ?case
  proof (cases i)
    case (Suc j)
    with Cons show ?thesis using Cons.IH [of j] by simp
  qed simp
qed simp

lemma study_work_frame [simp]:
  "study_work life (emit_row row s) = study_work life s" "study_work life (decline reason s) = study_work life s"
  by (simp_all add: study_work_def emit_row_def decline_def)

lemma study_work_attempt:
  assumes "i < length (sm_attempts s)" "sm_events s' = sm_events s" "sm_settlement_index s' = sm_settlement_index s"
    "sm_attempts s' = (sm_attempts s)[i := a]"
  shows "study_work life s' + attempt_work life (sm_attempts s ! i) = study_work life s + attempt_work life a"
  using attempts_work_update [OF assms(1), of life a] assms(2-4) by (simp add: study_work_def)

lemma study_work_submit [simp]: "study_work life (submit i l q lim res t sell s) = study_work life s + 2"
  by (simp add: study_work_def submit_def emit_row_def Let_def) (simp add: event_work_def)


subsection \<open>Frames\<close>

text \<open>New orders come after the old ones, with an event no earlier than \<open>t\<close>; nothing is bought or settled.\<close>

definition extends :: "int \<Rightarrow> simulation \<Rightarrow> simulation \<Rightarrow> bool" where
  "extends t s s' \<longleftrightarrow>
     (\<exists>new. sm_orders s' = sm_orders s @ new) \<and>
     (\<forall>ev \<in> set (sm_events s'). ev \<in> set (sm_events s) \<or> length (sm_orders s) \<le> le_order ev \<and> t \<le> le_time ev) \<and>
     sm_positions s' = sm_positions s \<and> sm_settlement_index s' = sm_settlement_index s"

lemma extends_refl: "extends t s s"
  by (simp add: extends_def)

lemma extends_trans:
  assumes "extends t s s'" "extends t s' s''"
  shows "extends t s s''"
proof -
  obtain new new' where orders: "sm_orders s' = sm_orders s @ new" "sm_orders s'' = sm_orders s' @ new'"
    using assms by (auto simp: extends_def)
  then have "length (sm_orders s) \<le> length (sm_orders s')" by simp
  moreover have "ev \<in> set (sm_events s') \<or> length (sm_orders s') \<le> le_order ev \<and> t \<le> le_time ev" if "ev \<in> set (sm_events s'')" for ev
    using assms(2) that by (simp add: extends_def)
  moreover have "ev \<in> set (sm_events s) \<or> length (sm_orders s) \<le> le_order ev \<and> t \<le> le_time ev" if "ev \<in> set (sm_events s')" for ev
    using assms(1) that by (simp add: extends_def)
  ultimately have "ev \<in> set (sm_events s) \<or> length (sm_orders s) \<le> le_order ev \<and> t \<le> le_time ev" if "ev \<in> set (sm_events s'')" for ev
    using that order_trans by blast
  then show ?thesis using assms orders by (simp add: extends_def)
qed

lemma extends_same:
  "sm_orders s' = sm_orders s \<Longrightarrow> sm_events s' = sm_events s \<Longrightarrow> sm_positions s' = sm_positions s \<Longrightarrow>
   sm_settlement_index s' = sm_settlement_index s \<Longrightarrow> extends t s s'"
  by (simp add: extends_def)

lemma extends_submit: "t \<le> arrival \<Longrightarrow> extends t s (submit i l q lim res arrival sell s)"
  by (auto simp: extends_def submit_def emit_row_def Let_def)

lemma extends_frame:
  "extends t s (emit_row row s)" "extends t s (decline reason s)" "extends t s (put_attempt i a s)"
  "extends t s (s\<lparr>sm_available := x, sm_reserved_total := y\<rparr>)"
  by (simp_all add: extends_def emit_row_def decline_def put_attempt_def)

text \<open>The result of an operation between two events.\<close>

definition step_keeps :: "pair_config \<Rightarrow> lifecycle_policy \<Rightarrow> int \<Rightarrow> simulation \<Rightarrow> simulation \<Rightarrow> bool" where
  "step_keeps cfg life t s s' \<longleftrightarrow> study_inv cfg life s' \<and> extends t s s' \<and> study_work life s' \<le> study_work life s"

lemma step_keeps_refl: "study_inv cfg life s \<Longrightarrow> step_keeps cfg life t s s"
  by (simp add: step_keeps_def extends_refl)

lemma step_keeps_trans: "step_keeps cfg life t s s' \<Longrightarrow> step_keeps cfg life t s' s'' \<Longrightarrow> step_keeps cfg life t s s''"
  unfolding step_keeps_def using extends_trans by (meson order_trans)


subsection \<open>The exit decision\<close>

lemma attempt_fees:
  assumes cfg: "pair_config_ok cfg" and inv: "study_inv cfg life s" and i: "i < length (sm_attempts s)" and l: "l < 2"
  obtains fee where "sy_fees (pc_policy cfg) (lt_market (pick l (pa_legs (sm_attempts s ! i)))) = Some fee"
proof -
  have "pc_legs cfg (pa_id (sm_attempts s ! i)) = Some (pa_legs (sm_attempts s ! i))"
    using study_invD(2) [OF inv i] by (simp add: attempt_ok_def)
  from config_fees [OF cfg this] show ?thesis
    using that l by (metis less_2_cases pick_simps(1) pick_simps(2) One_nat_def)
qed

lemma held_ok:
  assumes inv: "study_inv cfg life s" and i: "i < length (sm_attempts s)" and l: "l < 2"
  shows "held_quantity i l (sm_positions s) = Inr (ps_quantity (sp_positions (sm_positions s) ! (i * 2 + l)))"
    "0 \<le> ps_quantity (sp_positions (sm_positions s) ! (i * 2 + l))"
    "ps_quantity (sp_positions (sm_positions s) ! (i * 2 + l)) \<le> ex_quantity (pick l (pa_fills (sm_attempts s ! i)))"
    "i * 2 + l < length (sp_positions (sm_positions s))" "positions_ok (sm_positions s)"
proof -
  have h: "holdings_ok (sm_attempts s) (sm_positions s)" by (rule study_invD(6) [OF inv])
  then show range: "i * 2 + l < length (sp_positions (sm_positions s))" and ok: "positions_ok (sm_positions s)"
    using i l by (simp_all add: holdings_ok_def)
  then show "held_quantity i l (sm_positions s) = Inr (ps_quantity (sp_positions (sm_positions s) ! (i * 2 + l)))"
    by (simp add: held_quantity_def position_index_def)
  show "0 \<le> ps_quantity (sp_positions (sm_positions s) ! (i * 2 + l))"
    using positions_okD(3,5) [OF ok range] lots_quantity_nonneg by simp
  show "ps_quantity (sp_positions (sm_positions s) ! (i * 2 + l)) \<le> ex_quantity (pick l (pa_fills (sm_attempts s ! i)))"
    using h i l by (simp add: holdings_ok_def)
qed

text \<open>Once the attempt is marked, the decision sells or says why not.\<close>

lemma decide_exit_ok:
  assumes cfg: "pair_config_ok cfg" and config: "sy_residual_exit (pc_policy cfg) = Some config" and inv: "study_inv cfg life s"
    and i: "i < length (sm_attempts s)" and t: "0 \<le> time" "time \<le> int64_max" and market: "market_ok state"
  shows "yields runtime_limit
    (\<lambda>s'. study_inv cfg life s' \<and> extends time s s' \<and> study_work life s' \<le> study_work life s + 2 \<and> sm_attempts s' = sm_attempts s)
    (decide_exit cfg config i time state s)"
proof -
  let ?a = "sm_attempts s ! i"
  define l where "l = (if 0 < exit_difference ?a then 0 else 1 :: nat)"
  have l: "l < 2" by (simp add: l_def)
  have pol: "0 \<le> re_latency config" "0 \<le> re_minimum_price config" "re_minimum_price config \<le> 10000"
    using cfg config by (auto simp: pair_config_ok_def study_policy_ok_def residual_policy_ok_def)
  note held = held_ok [OF inv i l]
  define holding where "holding = ps_quantity (sp_positions (sm_positions s) ! (i * 2 + l))"
  define q where "q = min (if 0 < exit_difference ?a then exit_difference ?a else - exit_difference ?a) holding"
  have fills: "ex_quantity (pick l (pa_fills ?a)) \<le> quantity_limit"
    using study_invD(2) [OF inv i] l by (force simp: attempt_ok_def)
  have q: "0 \<le> q" "q \<le> quantity_limit" using held fills by (auto simp: q_def holding_def)
  obtain fee where fee: "sy_fees (pc_policy cfg) (lt_market (pick l (pa_legs ?a))) = Some fee"
    by (rule attempt_fees [OF cfg inv i l])
  obtain quote where quote: "walk_book cfg True (pick l (pa_legs ?a)) q (re_minimum_price config) state False s = Inr (quote, s)"
    "execution_ok fee (sy_quantity_step (pc_policy cfg)) True q (re_minimum_price config) quote"
    using walk_book_ok [OF pair_config_okD(1) [OF cfg] _ fee q pol(2,3) market, of True False s] by (auto simp: same_but_depletion_def)
  have skip: "study_inv cfg life (skip_exit ?a time reason s) \<and> extends time s (skip_exit ?a time reason s) \<and>
      study_work life (skip_exit ?a time reason s) \<le> study_work life s + 2 \<and>
      sm_attempts (skip_exit ?a time reason s) = sm_attempts s" for reason
    using inv extends_frame(1) by (simp add: skip_exit_def emit_row_def study_work_def extends_def)
  have sold: "time + re_latency config \<le> int64_max \<Longrightarrow>
      study_inv cfg life (submit i l (ex_quantity quote) (ex_worst_price quote) 0 (time + re_latency config) True s)"
    using quote(2) q pol t config by (intro submit_sell [OF inv i l]) (auto simp: execution_ok_def)
  show ?thesis
    unfolding decide_exit_def Let_def l_def [symmetric]
    using skip sold quote(1) pol(1) extends_submit [of time "time + re_latency config" s]
    by (auto simp: held(1) holding_def [symmetric] q_def [symmetric])
qed

lemma consider_exit_ok:
  assumes cfg: "pair_config_ok cfg" and inv: "study_inv cfg life s"
    and i: "i < length (sm_attempts s)" and t: "0 \<le> time" "time \<le> int64_max" and market: "market_ok state"
    and idle: "\<not> pa_exit_considered (sm_attempts s ! i)" "pa_pending_buys (sm_attempts s ! i) = 0"
  shows "yields runtime_limit (step_keeps cfg life time s) (consider_exit cfg i time state s)"
proof (cases "sy_residual_exit (pc_policy cfg)")
  case None
  then show ?thesis using step_keeps_refl [OF inv] by (simp add: consider_exit_def)
next
  case (Some config)
  let ?a = "sm_attempts s ! i" and ?s = "put_attempt i ((sm_attempts s ! i)\<lparr>pa_exit_considered := True\<rparr>) s"
  have b: "buys_ok life (sm_orders s) i ?a" by (rule study_invD(3) [OF inv i])
  then have "live_buys (sm_orders s) i = {}" using idle by (simp add: buys_ok_def)
  with b have "buys_ok life (sm_orders s) i (?a\<lparr>pa_exit_considered := True\<rparr>)" by (simp add: buys_ok_def)
  then have "study_inv cfg life (put_attempt i (?a\<lparr>pa_exit_considered := True\<rparr>)
      (s\<lparr>sm_available := sm_available s, sm_reserved_total := sm_reserved_total s\<rparr>))"
    using study_invD(2) [OF inv i] study_invD(5) [OF inv] by (intro change_attempt [OF inv i]) (simp_all add: attempt_ok_def cash_ok_def)
  then have inv': "study_inv cfg life ?s" by simp
  have work: "study_work life ?s + 2 = study_work life s"
    using study_work_attempt [OF i, of ?s "?a\<lparr>pa_exit_considered := True\<rparr>" life] idle(1)
    by (simp add: attempt_work_def put_attempt_def)
  have "yields runtime_limit (step_keeps cfg life time s) (decide_exit cfg config i time state ?s)"
    using i inv' decide_exit_ok [OF cfg Some inv' _ t market] work extends_trans [OF extends_frame(3)]
    by (intro yields_mono [OF decide_exit_ok [OF cfg Some inv' _ t market]]) (auto simp: step_keeps_def)
  then show ?thesis using Some idle by (simp add: consider_exit_def)
qed


subsection \<open>The second leg\<close>

lemma attempt_fills:
  assumes "attempt_ok cfg a"
  shows "0 \<le> ex_quantity (fst (pa_fills a))" "0 \<le> ex_quantity (snd (pa_fills a))"
    "ex_quantity (fst (pa_fills a)) \<le> pa_quantity a" "ex_quantity (snd (pa_fills a)) \<le> pa_quantity a"
    "pa_quantity a \<le> quantity_limit"
proof -
  have "0 \<le> ex_quantity (pick l (pa_fills a)) \<and> ex_quantity (pick l (pa_fills a)) \<le> pa_quantity a" if "l < 2" for l
    using assms that by (simp add: attempt_ok_def)
  from this [of 0] this [of 1] assms show "0 \<le> ex_quantity (fst (pa_fills a))" "0 \<le> ex_quantity (snd (pa_fills a))"
    "ex_quantity (fst (pa_fills a)) \<le> pa_quantity a" "ex_quantity (snd (pa_fills a)) \<le> pa_quantity a"
    "pa_quantity a \<le> quantity_limit"
    by (simp_all add: attempt_ok_def)
qed

text \<open>With no purchase under way the reserve of the second leg can change freely.\<close>

lemma change_reserve:
  fixes n :: u64
  assumes inv: "study_inv cfg life s" and i: "i < length (sm_attempts s)"
    and idle: "pa_pending_buys (sm_attempts s ! i) = 0" and x: "0 \<le> x" "x \<le> sm_available s + snd (pa_reserve (sm_attempts s ! i))"
  defines "a \<equiv> (sm_attempts s ! i)\<lparr>pa_reserve := (fst (pa_reserve (sm_attempts s ! i)), x), pa_completion_orders := n\<rparr>"
  shows "study_inv cfg life (put_attempt i a (s\<lparr>sm_available := sm_available s + (snd (pa_reserve (sm_attempts s ! i)) - x),
    sm_reserved_total := sm_reserved_total s + (x - snd (pa_reserve (sm_attempts s ! i)))\<rparr>))"
proof (rule change_attempt [OF inv i])
  have b: "buys_ok life (sm_orders s) i (sm_attempts s ! i)" by (rule study_invD(3) [OF inv i])
  then have "live_buys (sm_orders s) i = {}" using idle by (simp add: buys_ok_def)
  with b show "buys_ok life (sm_orders s) i a" by (simp add: buys_ok_def a_def)
  show "0 \<le> fst (pa_reserve a)" "0 \<le> snd (pa_reserve a)"
    using study_invD(2) [OF inv i] x(1) by (simp_all add: attempt_ok_def a_def)
qed (use x in \<open>simp_all add: a_def\<close>)

lemma finish_acquisition_ok:
  assumes cfg: "pair_config_ok cfg" and inv: "study_inv cfg life s"
    and i: "i < length (sm_attempts s)" and t: "0 \<le> time" "time \<le> int64_max" and market: "market_ok state"
    and idle: "\<not> pa_exit_considered (sm_attempts s ! i)" "pa_pending_buys (sm_attempts s ! i) = 0"
  shows "yields runtime_limit (step_keeps cfg life time s) (finish_acquisition cfg i reason time state s)"
proof -
  let ?a = "sm_attempts s ! i"
  let ?a' = "?a\<lparr>pa_reserve := (fst (pa_reserve ?a), 0)\<rparr>"
  let ?s = "put_attempt i ?a' (s\<lparr>sm_available := sm_available s + snd (pa_reserve ?a),
    sm_reserved_total := sm_reserved_total s - snd (pa_reserve ?a)\<rparr>)"
  let ?row = "Acquisition_Row (sy_residual_exit (pc_policy cfg) \<noteq> None) (pa_id ?a) reason (exit_difference ?a)"
  have "0 \<le> sm_available s" "0 \<le> snd (pa_reserve ?a)"
    using study_invD(5) [OF inv] study_invD(2) [OF inv i] by (simp_all add: cash_ok_def attempt_ok_def)
  then have inv': "study_inv cfg life (emit_row ?row ?s)"
    using change_reserve [OF inv i idle(2), of 0 "pa_completion_orders ?a"] by simp
  have work: "study_work life ?s = study_work life s"
    using study_work_attempt [OF i, of ?s ?a' life] by (simp add: put_attempt_def attempt_work_def)
  have ext: "extends time s (emit_row ?row ?s)" by (simp add: extends_def emit_row_def put_attempt_def)
  have "yields runtime_limit (step_keeps cfg life time (emit_row ?row ?s)) (consider_exit cfg i time state (emit_row ?row ?s))"
    using i idle by (intro consider_exit_ok [OF cfg inv' _ t market]) (simp_all add: emit_row_def put_attempt_def)
  then have "yields runtime_limit (step_keeps cfg life time s) (consider_exit cfg i time state (emit_row ?row ?s))"
    using inv' ext work by (elim yields_mono) (auto simp: step_keeps_def intro: extends_trans)
  moreover have "put_attempt i ?a' (s\<lparr>sm_reserved_total := sm_reserved_total s - snd (pa_reserve ?a),
      sm_available := sm_available s + snd (pa_reserve ?a)\<rparr>) = ?s"
    by (simp add: put_attempt_def)
  ultimately show ?thesis by (simp add: finish_acquisition_def Let_def)
qed

lemma order_second_ok:
  assumes cfg: "pair_config_ok cfg" and inv: "study_inv cfg life s"
    and i: "i < length (sm_attempts s)" and t: "0 \<le> time" "time \<le> int64_max"
    and idle: "\<not> pa_exit_considered (sm_attempts s ! i)" "pa_pending_buys (sm_attempts s ! i) = 0"
    and budget: "pa_completion_orders (sm_attempts s ! i) < lp_maximum_completion_orders life"
    and fee: "sy_fees (pc_policy cfg) (lt_market (snd (pa_legs (sm_attempts s ! i)))) = Some fee"
    and quote: "execution_ok fee (sy_quantity_step (pc_policy cfg)) False (exit_difference (sm_attempts s ! i)) 10000 quote"
    and needed: "needed = reserve_amount fee (sy_quantity_step (pc_policy cfg)) (ex_worst_price quote) (ex_quantity quote)"
      "0 \<le> needed" "needed \<le> sm_available s + snd (pa_reserve (sm_attempts s ! i))"
  shows "yields runtime_limit (step_keeps cfg life time s) (order_second cfg i time quote needed s)"
proof -
  let ?a = "sm_attempts s ! i" and ?latency = "snd (sy_latency (pc_policy cfg))"
  let ?a1 = "?a\<lparr>pa_reserve := (fst (pa_reserve ?a), needed), pa_completion_orders := pa_completion_orders ?a + 1\<rparr>"
  let ?a2 = "?a1\<lparr>pa_pending_buys := pa_pending_buys ?a1 + 1\<rparr>"
  let ?s1 = "put_attempt i ?a1 (s\<lparr>sm_available := sm_available s + (snd (pa_reserve ?a) - needed),
    sm_reserved_total := sm_reserved_total s + (needed - snd (pa_reserve ?a))\<rparr>)"
  have latency: "0 \<le> ?latency" using cfg by (simp add: pair_config_ok_def study_policy_ok_def)
  show ?thesis
  proof (cases "int64_max - ?latency < time")
    case True
    then show ?thesis by (simp add: order_second_def Let_def runtime_limits)
  next
    case False
    let ?s2 = "submit i 1 (ex_quantity quote) (ex_worst_price quote) needed (time + ?latency) False (put_attempt i ?a2 ?s1)"
    have inv1: "study_inv cfg life ?s1" by (rule change_reserve [OF inv i idle(2) needed(2,3)])
    have s1: "sm_attempts ?s1 ! i = ?a1" "i < length (sm_attempts ?s1)" "sm_orders ?s1 = sm_orders s"
      using i by simp_all
    have b: "live_buys (sm_orders s) i = {}" using study_invD(3) [OF inv i] idle by (simp add: buys_ok_def)
    have fills: "ex_quantity (snd (pa_fills ?a)) + exit_difference ?a \<le> pa_quantity ?a"
      using attempt_fills [OF study_invD(2) [OF inv i]] by (simp add: exit_difference_def)
    have q: "0 \<le> ex_quantity quote" "ex_quantity quote \<le> exit_difference ?a" "sy_quantity_step (pc_policy cfg) dvd ex_quantity quote"
      "0 \<le> ex_worst_price quote" "ex_worst_price quote \<le> 10000"
      using quote by (simp_all add: execution_ok_def)
    have "study_inv cfg life (submit i 1 (ex_quantity quote) (ex_worst_price quote) needed (time + ?latency) False
        (put_attempt i ((sm_attempts ?s1 ! i)\<lparr>pa_pending_buys := pa_pending_buys (sm_attempts ?s1 ! i) + 1\<rparr>) ?s1))"
      using q fills fee needed(1) b idle(1) t latency False i
      by (intro submit_buy [OF inv1 s1(2), where fee = fee]) simp_all
    then have inv2: "study_inv cfg life ?s2" unfolding s1 .
    have "attempt_work life ?a2 + 2 = attempt_work life ?a"
    proof -
      have "unat (pa_completion_orders ?a + 1) = unat (pa_completion_orders ?a) + 1"
        using budget unat_u64_bound [of "lp_maximum_completion_orders life"]
        by (simp add: word_less_nat_alt unat_word_ariths)
      moreover have "unat (pa_completion_orders ?a) < unat (lp_maximum_completion_orders life)"
        using budget by (simp add: word_less_nat_alt)
      ultimately show ?thesis by (simp add: attempt_work_def)
    qed
    then have "study_work life ?s2 = study_work life s"
      using study_work_attempt [OF i, of "put_attempt i ?a2 ?s1" ?a2 life] by (simp add: put_attempt_def)
    moreover have "extends time s ?s2"
      using latency by (intro extends_trans [OF _ extends_submit]) (simp_all add: extends_def put_attempt_def)
    ultimately have "step_keeps cfg life time s ?s2" using inv2 by (simp add: step_keeps_def)
    moreover have "put_attempt i (?a\<lparr>pa_reserve := (fst (pa_reserve ?a), needed), pa_completion_orders := pa_completion_orders ?a + 1,
          pa_pending_buys := pa_pending_buys ?a + 1\<rparr>)
        (s\<lparr>sm_reserved_total := sm_reserved_total s + (needed - snd (pa_reserve ?a)),
           sm_available := sm_available s + (snd (pa_reserve ?a) - needed)\<rparr>) = put_attempt i ?a2 ?s1"
      by (simp add: put_attempt_def)
    then have "order_second cfg i time quote needed s = Inr ?s2"
      using False by (simp only: order_second_def Let_def if_False)
    ultimately show ?thesis by simp
  qed
qed

lemma complete_second_ok:
  assumes cfg: "pair_config_ok cfg" and inv: "study_inv cfg life s"
    and i: "i < length (sm_attempts s)" and t: "0 \<le> time" "time \<le> int64_max" and market: "market_ok state"
    and idle: "\<not> pa_exit_considered (sm_attempts s ! i)" "pa_pending_buys (sm_attempts s ! i) = 0"
  shows "yields runtime_limit (step_keeps cfg life time s) (complete_second cfg life i time state s)"
proof -
  let ?a = "sm_attempts s ! i" and ?step = "sy_quantity_step (pc_policy cfg)"
  note stop = finish_acquisition_ok [OF cfg inv i t market idle]
  obtain fee where fee: "sy_fees (pc_policy cfg) (lt_market (snd (pa_legs ?a))) = Some fee"
    using attempt_fees [OF cfg inv i, of 1] by auto
  have fills: "exit_difference ?a \<le> quantity_limit"
    using attempt_fills [OF study_invD(2) [OF inv i]] by (simp add: exit_difference_def)
  show ?thesis
  proof (cases "exit_difference ?a \<le> 0 \<or> lp_maximum_completion_orders life \<le> pa_completion_orders ?a")
    case True
    then show ?thesis using stop by (auto simp: complete_second_def Let_def)
  next
    case False
    obtain quote where quote: "quote_walk cfg state s (snd (pa_legs ?a)) (exit_difference ?a) = Inr quote"
      "execution_ok fee ?step False (exit_difference ?a) 10000 quote"
      using quote_walk_ok [OF cfg fee _ fills market] False by force
    have q: "0 \<le> ex_quantity quote" "ex_quantity quote \<le> quantity_limit" "?step dvd ex_quantity quote"
      "0 \<le> ex_worst_price quote" "ex_worst_price quote \<le> 10000"
      using quote(2) fills by (simp_all add: execution_ok_def)
    define needed where "needed = reserve_amount fee ?step (ex_worst_price quote) (ex_quantity quote)"
    have reserve: "order_reserve cfg (snd (pa_legs ?a)) (ex_quantity quote) (ex_worst_price quote) = Inr needed"
      unfolding needed_def by (rule order_reserve_eq [OF cfg fee q])
    have "reserve_ok fee ?step (ex_quantity quote)"
      by (rule reserve_ok_step [OF pair_config_okD(2) [OF cfg] pair_config_okD(6) [OF cfg fee] q(1-3)])
    from reserve_amount_bounds [OF this q(4,5)] have needed: "0 \<le> needed" by (simp add: needed_def)
    have go: "yields runtime_limit (step_keeps cfg life time s) (order_second cfg i time quote needed s)"
      if "needed \<le> sm_available s + snd (pa_reserve ?a)"
      using False by (intro order_second_ok [OF cfg inv i t idle _ fee quote(2) needed_def needed that]) (simp add: not_le)
    show ?thesis
      using stop go quote(1) reserve by (auto simp: complete_second_def Let_def not_less)
  qed
qed

end
