(* ===== verification/Pair_Drain.thy ===== *)
theory Pair_Drain
  imports Pair_Lifecycle
begin

text \<open>
  The event loop of the paired study: every turn of \<open>drain_lifecycle\<close> keeps the ledger and the clock, leaves
  less to do, and moves each order from its arrival to its response. Hence the drain completes, with nothing
  due, and every order whose response falls before its end has been answered.
\<close>

subsection \<open>Turns\<close>

definition response_delay :: "pair_config \<Rightarrow> lifecycle_policy \<Rightarrow> lifecycle_order \<Rightarrow> int" where
  "response_delay cfg life order =
     (if or_sell order then re_response_latency (the (sy_residual_exit (pc_policy cfg)))
      else pick (or_leg order) (lp_response_latency life))"

text \<open>Where the events after a turn come from: they were there, belong to a new order, or answer an arrival.\<close>

definition event_from :: "pair_config \<Rightarrow> lifecycle_policy \<Rightarrow> int \<Rightarrow> simulation \<Rightarrow> lifecycle_event \<Rightarrow> bool" where
  "event_from cfg life t s e \<longleftrightarrow>
     e \<in> set (sm_events s) \<or>
     t \<le> le_time e \<and>
       (length (sm_orders s) \<le> le_order e \<or>
        (\<exists>ev \<in> set (sm_events s). \<not> le_response ev \<and> e =
           \<lparr>le_time = le_time ev + response_delay cfg life (sm_orders s ! le_order ev), le_order = le_order ev, le_response = True\<rparr>))"

definition lots_before :: "int \<Rightarrow> study_positions \<Rightarrow> bool" where
  "lots_before now sp \<longleftrightarrow> (\<forall>j < length (sp_positions sp). \<forall>lot \<in> set (lots_of sp j). snd (snd lot) \<le> now)"

definition turn_keeps :: "pair_config \<Rightarrow> lifecycle_policy \<Rightarrow> int \<Rightarrow> simulation \<Rightarrow> simulation \<Rightarrow> bool" where
  "turn_keeps cfg life t s s' \<longleftrightarrow>
     study_inv cfg life s' \<and> study_work life s' < study_work life s \<and>
     sm_settlement_index s' = sm_settlement_index s \<and> length (sm_orders s) \<le> length (sm_orders s') \<and>
     (\<forall>k < length (sm_orders s). or_sell (sm_orders s' ! k) = or_sell (sm_orders s ! k) \<and>
        or_leg (sm_orders s' ! k) = or_leg (sm_orders s ! k)) \<and>
     (\<forall>e \<in> set (sm_events s'). event_from cfg life t s e) \<and>
     (lots_before t (sm_positions s) \<longrightarrow> lots_before t (sm_positions s'))"

lemma check_cash_same:
  assumes "check_cash cfg x = Inr x" "sm_available s = sm_available x" "sm_reserved_total s = sm_reserved_total x"
    "sm_unconfirmed_debit s = sm_unconfirmed_debit x" "sm_unconfirmed_credit s = sm_unconfirmed_credit x"
    "sm_spent s = sm_spent x" "sm_settlement_cash s = sm_settlement_cash x" "sm_exit_credit s = sm_exit_credit x"
  shows "check_cash cfg s = Inr s"
  using assms by (simp add: check_cash_def split: if_splits)


lemma put_order_more [simp]:
  "sm_available (put_order n order s) = sm_available s" "sm_reserved_total (put_order n order s) = sm_reserved_total s"
  "sm_unconfirmed_debit (put_order n order s) = sm_unconfirmed_debit s"
  "sm_unconfirmed_credit (put_order n order s) = sm_unconfirmed_credit s"
  "sm_spent (put_order n order s) = sm_spent s" "sm_notional (put_order n order s) = sm_notional s"
  "sm_exit_credit (put_order n order s) = sm_exit_credit s" "sm_settled_markets (put_order n order s) = sm_settled_markets s"
  "sm_exit_fees (put_order n order s) = sm_exit_fees s" "sm_exit_basis (put_order n order s) = sm_exit_basis s"
  "sm_exit_quantity (put_order n order s) = sm_exit_quantity s" "sm_settlement_cash (put_order n order s) = sm_settlement_cash s"
  by (simp_all add: put_order_def)


subsection \<open>A response\<close>

text \<open>From the answered state on, an operation that only adds orders makes a turn.\<close>

lemma answered_turn:
  assumes evs: "sm_events s = ev # evs" and k: "le_order ev < length (sm_orders s)"
    and s1: "sm_events s1 = evs" "sm_orders s1 = (sm_orders s)[le_order ev := order]" "sm_positions s1 = sm_positions s"
      "sm_settlement_index s1 = sm_settlement_index s" "or_sell order = or_sell (sm_orders s ! le_order ev)" "or_leg order = or_leg (sm_orders s ! le_order ev)"
    and work: "study_work life s1 < study_work life s" and keeps: "step_keeps cfg life t s1 s'"
  shows "turn_keeps cfg life t s s'"
proof -
  obtain new where orders: "sm_orders s' = sm_orders s1 @ new"
    and from1: "\<And>e. e \<in> set (sm_events s') \<Longrightarrow> e \<in> set (sm_events s1) \<or> length (sm_orders s1) \<le> le_order e \<and> t \<le> le_time e"
    and pos: "sm_positions s' = sm_positions s1" "sm_settlement_index s' = sm_settlement_index s1" and inv: "study_inv cfg life s'" and w: "study_work life s' \<le> study_work life s1"
    using keeps unfolding step_keeps_def extends_def by blast
  have "or_sell (sm_orders s' ! n) = or_sell (sm_orders s ! n) \<and> or_leg (sm_orders s' ! n) = or_leg (sm_orders s ! n)"
    if "n < length (sm_orders s)" for n
    using that s1(5,6) by (cases "n = le_order ev") (simp_all add: orders s1(2) nth_append)
  moreover have "event_from cfg life t s e" if "e \<in> set (sm_events s')" for e
    using from1 [OF that] s1(1,2) evs by (auto simp: event_from_def)
  ultimately show ?thesis
    using inv w work orders pos s1(2,3,4) by (simp add: turn_keeps_def)
qed

lemma order_response_ok:
  assumes cfg: "pair_config_ok cfg" and inv: "study_inv cfg life s" and evs: "sm_events s = ev # evs" and response: "le_response ev"
    and market: "market_ok state"
  shows "yields runtime_limit (turn_keeps cfg life (le_time ev) s) (order_response cfg life ev state (s\<lparr>sm_events := evs\<rparr>))"
proof -
  note d = study_invD [OF inv]
  let ?order = "sm_orders s ! le_order ev"
  note head = events_head(1-4) [OF d(4) [unfolded evs]]
  have k: "le_order ev < length (sm_orders s)" and live: "or_arrived ?order" "\<not> or_responded ?order"
    using head response by (simp_all add: live_order_def)
  have t: "0 \<le> le_time ev" "le_time ev \<le> int64_max" using head by simp_all
  have event: "event_work ev = 1" using response by (simp add: event_work_def)
  let ?answered = "?order\<lparr>or_responded := True\<rparr>"
  show ?thesis
  proof (cases "or_sell ?order")
    case True
    let ?fill = "or_fill ?order"
    let ?s1 = "put_order (le_order ev) ?answered
      (s\<lparr>sm_events := evs, sm_unconfirmed_credit := sm_unconfirmed_credit s - ex_credit ?fill,
         sm_available := sm_available s + ex_credit ?fill\<rparr>)"
    let ?row = "Exit_Response_Row (le_order ev + 1) (le_time ev) (ex_quantity ?fill) (or_quantity ?order - ex_quantity ?fill) (ex_credit ?fill)"
    have inv1: "study_inv cfg life (emit_row ?row ?s1)" using answer_sell [OF inv evs response True] by simp
    have "study_work life ?s1 + 1 = study_work life s"
      using event evs by (simp add: study_work_def put_order_def)
    then have "study_work life (emit_row ?row ?s1) < study_work life s" by simp
    from answered_turn [OF evs k _ _ _ _ _ _ this step_keeps_refl [OF inv1], of ?answered]
    have "turn_keeps cfg life (le_time ev) s (emit_row ?row ?s1)"
      by (simp add: emit_row_def put_order_def)
    moreover have "order_response cfg life ev state (s\<lparr>sm_events := evs\<rparr>) =
        (if cash_limit - sm_available s < ex_credit ?fill then Inl ''available exit cash bound'' else check_cash cfg (emit_row ?row ?s1))"
    proof -
      have "emit_row ?row ?s1 = emit_row ?row ((put_order (le_order ev) ?answered (s\<lparr>sm_events := evs\<rparr>))
          \<lparr>sm_unconfirmed_credit := sm_unconfirmed_credit s - ex_credit ?fill, sm_available := sm_available s + ex_credit ?fill\<rparr>)"
        by (simp add: put_order_def emit_row_def)
      then show ?thesis
        using True live by (simp add: order_response_def exit_response_def Let_def put_order_def)
    qed
    ultimately show ?thesis using cash_check [OF inv1] by auto
  next
    case False
    let ?i = "or_attempt ?order" and ?fill = "or_fill ?order"
    let ?a = "sm_attempts s ! or_attempt ?order"
    let ?a' = "?a\<lparr>pa_pending_buys := pa_pending_buys ?a - 1, pa_reserve := place (or_leg ?order) 0 (pa_reserve ?a)\<rparr>"
    let ?s1 = "put_attempt ?i ?a' (put_order (le_order ev) ?answered
      (s\<lparr>sm_events := evs, sm_reserved_total := sm_reserved_total s - or_reserve ?order,
         sm_unconfirmed_debit := sm_unconfirmed_debit s - ex_debit ?fill,
         sm_available := sm_available s + (or_reserve ?order - ex_debit ?fill)\<rparr>))"
    let ?row = "Order_Response_Row (le_order ev + 1) (le_time ev) (ex_quantity ?fill) (or_quantity ?order - ex_quantity ?fill) (ex_debit ?fill)"
    note answer = answer_buy [OF inv evs response False]
    let ?s2 = "emit_row ?row ?s1"
    have inv2: "study_inv cfg life ?s2" using answer(1) by simp
    have i: "?i < length (sm_attempts ?s2)" "?i < length (sm_attempts s)" using answer(4) by (simp_all add: emit_row_def)
    have a2: "sm_attempts ?s2 ! ?i = ?a'" using i(2) by (simp add: emit_row_def)
    have idle: "\<not> pa_exit_considered (sm_attempts ?s2 ! ?i)" using answer(3) unfolding a2 by simp
    have "study_work life ?s1 + attempt_work life ?a + 1 = study_work life s + attempt_work life ?a'"
      using attempts_work_update [OF i(2), of life ?a'] event evs
      by (simp add: study_work_def put_order_def put_attempt_def)
    then have "study_work life ?s2 + 1 = study_work life s" by (simp add: attempt_work_def)
    then have turn: "turn_keeps cfg life (le_time ev) s s'" if "step_keeps cfg life (le_time ev) ?s2 s'" for s'
      using that by (intro answered_turn [OF evs k, of ?s2 ?answered]) (simp_all add: emit_row_def put_order_def put_attempt_def)
    define rest where "rest = (if lp_sequential life then complete_second cfg life ?i (le_time ev) state ?s2
      else if pa_pending_buys ?a' = 0 then consider_exit cfg ?i (le_time ev) state ?s2 else Inr ?s2)"
    have seq: "lp_sequential life \<Longrightarrow> pa_pending_buys (sm_attempts ?s2 ! ?i) = 0" using answer(5) unfolding a2 by simp
    have "yields runtime_limit (step_keeps cfg life (le_time ev) ?s2) rest"
      using complete_second_ok [OF cfg inv2 i(1) t market idle seq] consider_exit_ok [OF cfg inv2 i(1) t market idle] step_keeps_refl [OF inv2]
      unfolding rest_def a2 by simp
    then have "yields runtime_limit (turn_keeps cfg life (le_time ev) s) (and_then rest (check_cash cfg))"
    proof (rule yields_and_then)
      fix s' assume keeps: "step_keeps cfg life (le_time ev) ?s2 s'"
      then have "study_inv cfg life s'" by (simp only: step_keeps_def)
      from cash_check [OF this] turn [OF keeps] show "yields runtime_limit (turn_keeps cfg life (le_time ev) s) (check_cash cfg s')"
        by simp
    qed
    moreover have "order_response cfg life ev state (s\<lparr>sm_events := evs\<rparr>) = and_then rest (check_cash cfg)"
    proof -
      define s2 where "s2 = ?s2"
      define a' where "a' = ?a'"
      have "emit_row ?row (put_attempt ?i a'
         ((put_order (le_order ev) ?answered (s\<lparr>sm_events := evs\<rparr>))\<lparr>sm_reserved_total := sm_reserved_total s - or_reserve ?order,
            sm_unconfirmed_debit := sm_unconfirmed_debit s - ex_debit ?fill,
            sm_available := sm_available s + (or_reserve ?order - ex_debit ?fill)\<rparr>)) = s2"
        by (simp add: s2_def a'_def put_order_def put_attempt_def emit_row_def)
      then show ?thesis
        using False live answer(2) a'_def [symmetric] unfolding rest_def s2_def [symmetric]
        by (simp add: order_response_def buy_order_response_def Let_def)
    qed
    ultimately show ?thesis by simp
  qed
qed


subsection \<open>Positions over time\<close>

lemma fifo_take_times:
  "fifo_take q ls = (taken, kept) \<Longrightarrow> snd ` snd ` (set taken \<union> set kept) \<subseteq> snd ` snd ` set ls"
proof (induction q ls arbitrary: taken kept rule: fifo_take.induct)
  case (2 q q0 d t ls)
  then show ?case by (force split: if_splits prod.splits)
qed auto

lemma lots_before_change:
  assumes "lots_before t sp" "only_lots_of i ls sp sp'" "\<And>lot. lot \<in> set ls \<Longrightarrow> snd (snd lot) \<le> t"
  shows "lots_before t sp'"
  using assms by (auto simp: lots_before_def only_lots_of_def)

text \<open>A sale of owned contracts completes, and can fail only when the capital time overflows.\<close>

lemma close_ok:
  assumes ok: "positions_ok sp" and i: "i * 2 + l < length (sp_positions sp)"
    and q: "0 \<le> q" "q \<le> ps_quantity (sp_positions sp ! (i * 2 + l))" and t: "time \<le> int64_max" and before: "lots_before time sp"
  shows "\<exists>res. close i l q time sp = Some res \<and>
    yields (\<lambda>e. e = ''capital-time overflow'')
      (\<lambda>(released, sp'). \<exists>ls. only_lots_of (i * 2 + l) ls sp sp' \<and>
         lots_quantity ls = ps_quantity (sp_positions sp ! (i * 2 + l)) - q \<and> lots_before time sp') res"
proof -
  let ?j = "i * 2 + l"
  note inv = positions_okD [OF ok]
  obtain taken kept where take: "fifo_take q (lots_of sp ?j) = (taken, kept)" by (cases "fifo_take q (lots_of sp ?j)")
  obtain res where res: "close_position ?j q time sp = Some res" and
    y: "yields (capital_error time taken (sp_time sp))
      (\<lambda>(released, sp'). released = lots_cost taken \<and> only_lots_of ?j kept sp sp' \<and> same_legs sp sp' \<and>
         capital_total (sp_time sp') = capital_total (sp_time sp) + lots_capital time taken) res"
    using close_position_refines [OF ok i q t take] by blast
  have times: "snd (snd lot) \<le> time" if lot: "lot \<in> set taken \<union> set kept" for lot
  proof -
    have "snd (snd lot) \<in> snd ` snd ` set (lots_of sp ?j)" using fifo_take_times [OF take] lot by blast
    then obtain lot' where "lot' \<in> set (lots_of sp ?j)" "snd (snd lot) = snd (snd lot')" by auto
    with before i show ?thesis by (auto simp: lots_before_def)
  qed
  then have later: "lots_before time sp'" if "only_lots_of ?j kept sp sp'" for sp'
    by (intro lots_before_change [OF before that]) simp
  have error: "e = ''capital-time overflow''" if "capital_error time taken (sp_time sp) e" for e
    using that times by (fastforce simp: capital_error_def)
  have quantity: "lots_quantity kept = ps_quantity (sp_positions sp ! ?j) - q"
    using fifo_take_conserves [OF inv(5) [OF i] q(1) _ take] q(2) inv(3) [OF i] by simp
  have "yields (\<lambda>e. e = ''capital-time overflow'')
      (\<lambda>(released, sp'). \<exists>ls. only_lots_of ?j ls sp sp' \<and>
         lots_quantity ls = ps_quantity (sp_positions sp ! ?j) - q \<and> lots_before time sp') res"
    using quantity later
    by (intro yields_mono [OF yields_errors [OF y error]]) (auto intro!: exI [of _ kept])
  moreover have "position_index i l sp = Inr ?j" using i by (simp add: position_index_def)
  ultimately show ?thesis using res by (simp add: close_def)
qed


subsection \<open>An arrival of a sale\<close>

lemma exit_fill_ok:
  assumes cfg: "pair_config_ok cfg" and config: "sy_residual_exit (pc_policy cfg) = Some config" and inv: "study_inv cfg life s"
    and x: "sm_attempts x = sm_attempts s" "sm_positions x = sm_positions s"
    and order: "order_ok cfg (sm_attempts s) order" "or_fill order = no_execution" and market: "market_ok state"
  defines "holding \<equiv> ps_quantity (sp_positions (sm_positions s) ! (or_attempt order * 2 + or_leg order))"
  shows "\<exists>fill x'. exit_fill cfg config order time state x = Inr (fill, x') \<and> same_but_depletion True x x' \<and>
    0 \<le> ex_quantity fill \<and> ex_quantity fill \<le> holding \<and> ex_quantity fill \<le> or_quantity order \<and>
    ex_debit fill = 0 \<and> 0 \<le> ex_credit fill"
proof -
  let ?i = "or_attempt order" and ?l = "or_leg order"
  have i: "?i < length (sm_attempts s)" and l: "?l < 2" and q: "0 \<le> or_quantity order" "or_quantity order \<le> quantity_limit"
    and lim: "0 \<le> or_limit order" "or_limit order \<le> 10000"
    using order(1) by (simp_all add: order_ok_def)
  note held = held_ok(1,2) [OF inv i l, folded holding_def]
  obtain fee where fee: "sy_fees (pc_policy cfg) (lt_market (pick ?l (pa_legs (sm_attempts s ! ?i)))) = Some fee"
    by (rule attempt_fees [OF cfg inv i l])
  have "0 \<le> min holding (or_quantity order)" "min holding (or_quantity order) \<le> quantity_limit" using held q by auto
  then obtain r x' where r: "walk_book cfg True (pick ?l (pa_legs (sm_attempts s ! ?i))) (min holding (or_quantity order)) (or_limit order) state True x = Inr (r, x')"
    "same_but_depletion True x x'" "execution_ok fee (sy_quantity_step (pc_policy cfg)) True (min holding (or_quantity order)) (or_limit order) r"
    using walk_book_ok [OF pair_config_okD(1) [OF cfg] _ fee _ _ lim market, of True True "min holding (or_quantity order)" x] config by auto
  have sold: "0 \<le> ex_quantity r" "ex_quantity r \<le> holding" "ex_quantity r \<le> or_quantity order" "ex_debit r = 0" "0 \<le> ex_credit r"
    using r(3) by (auto simp: execution_ok_def)
  show ?thesis
    using r(1,2) sold held q order(2) by (auto simp: exit_fill_def Let_def x)
qed


text \<open>The outcome is there, with its errors within a set and its values in another.\<close>

definition completes :: "(string \<Rightarrow> bool) \<Rightarrow> ('a \<Rightarrow> bool) \<Rightarrow> 'a outcome \<Rightarrow> bool" where
  "completes E P r \<longleftrightarrow> (\<exists>res. r = Some res \<and> yields E P res)"

lemma completes_simps [simp]: "completes E P (Some res) = yields E P res" "completes E P None = False"
  by (simp_all add: completes_def)

lemma completes_then: "completes E Q r \<Longrightarrow> (\<And>x. Q x \<Longrightarrow> completes E P (f x)) \<Longrightarrow> completes E P (run_then r f)"
proof -
  assume r: "completes E Q r" and f: "\<And>x. Q x \<Longrightarrow> completes E P (f x)"
  then obtain res where "r = Some res" "yields E Q res" by (auto simp: completes_def)
  with f show ?thesis by (cases res) simp_all
qed

lemma completes_mono: "completes E Q r \<Longrightarrow> (\<And>x. Q x \<Longrightarrow> P x) \<Longrightarrow> completes E P r"
  by (auto simp: completes_def yields_def split: sum.splits)

lemma arrived_turn:
  assumes evs: "sm_events s = ev # evs" "\<not> le_response ev" and k: "le_order ev < length (sm_orders s)"
    and s': "study_inv cfg life s'" "sm_orders s' = (sm_orders s)[le_order ev := order]"
      "sm_events s' = push_event \<lparr>le_time = le_time ev + response_delay cfg life (sm_orders s ! le_order ev),
         le_order = le_order ev, le_response = True\<rparr> evs"
      "map (attempt_work life) (sm_attempts s') = map (attempt_work life) (sm_attempts s)"
      "sm_settlement_index s' = sm_settlement_index s"
    and order: "or_sell order = or_sell (sm_orders s ! le_order ev)" "or_leg order = or_leg (sm_orders s ! le_order ev)"
    and delay: "0 \<le> response_delay cfg life (sm_orders s ! le_order ev)"
    and lots: "lots_before (le_time ev) (sm_positions s) \<Longrightarrow> lots_before (le_time ev) (sm_positions s')"
  shows "turn_keeps cfg life (le_time ev) s s'"
proof -
  have "study_work life s' < study_work life s"
    unfolding study_work_def s'(3,4,5) push_event_work using evs by (simp add: event_work_def)
  moreover have "or_sell (sm_orders s' ! n) = or_sell (sm_orders s ! n) \<and> or_leg (sm_orders s' ! n) = or_leg (sm_orders s ! n)"
    if "n < length (sm_orders s)" for n
    using that order by (cases "n = le_order ev") (simp_all add: s'(2))
  moreover have "event_from cfg life (le_time ev) s e" if "e \<in> set (sm_events s')" for e
    using that evs delay by (auto simp: s'(3) event_from_def)
  ultimately show ?thesis using s'(1,2,5) lots by (simp add: turn_keeps_def)
qed

lemma sell_arrives:
  assumes cfg: "pair_config_ok cfg" and inv: "study_inv cfg life s" and evs: "sm_events s = ev # evs" and arrival: "\<not> le_response ev"
    and sell: "or_sell (sm_orders s ! le_order ev)" and market: "market_ok state" and before: "lots_before (le_time ev) (sm_positions s)"
  shows "completes runtime_limit (turn_keeps cfg life (le_time ev) s) (order_arrives cfg life ev state (s\<lparr>sm_events := evs\<rparr>))"
proof -
  note d = study_invD [OF inv]
  let ?order = "sm_orders s ! le_order ev" and ?arrived = "(sm_orders s ! le_order ev)\<lparr>or_arrived := True\<rparr>"
  let ?i = "or_attempt (sm_orders s ! le_order ev)" and ?l = "or_leg (sm_orders s ! le_order ev)"
  note head = events_head(1-4) [OF d(4) [unfolded evs]]
  have k: "le_order ev < length (sm_orders s)" and fresh: "\<not> or_arrived ?order" "\<not> or_responded ?order"
    using head arrival by (simp_all add: live_order_def)
  have ok: "order_ok cfg (sm_attempts s) ?order" by (rule d(1) [OF k])
  then have i: "?i < length (sm_attempts s)" and l: "?l < 2" and blank: "or_fill ?order = no_execution"
    using fresh by (simp_all add: order_ok_def)
  obtain config where config: "sy_residual_exit (pc_policy cfg) = Some config" using ok sell by (auto simp: order_ok_def)
  have delay: "response_delay cfg life ?order = re_response_latency config" "0 \<le> re_response_latency config"
    using cfg config sell by (auto simp: response_delay_def pair_config_ok_def study_policy_ok_def residual_policy_ok_def)
  note held = held_ok(2,3,4,5) [OF inv i l]
  let ?row = "Arrival_Row True (le_order ev + 1) (pa_id (sm_attempts s ! ?i)) ?l (le_time ev)"
  define x where "x = emit_row ?row (put_order (le_order ev) ?arrived (s\<lparr>sm_events := evs\<rparr>))"
  have xs: "sm_attempts x = sm_attempts s" "sm_positions x = sm_positions s" by (simp_all add: x_def emit_row_def)
  have arrived: "order_ok cfg (sm_attempts s) ?arrived" "or_fill ?arrived = no_execution"
    using ok blank by (simp_all add: order_ok_def)
  obtain fill x' where fill: "exit_fill cfg config ?arrived (le_time ev) state x = Inr (fill, x')" "same_but_depletion True x x'"
    "0 \<le> ex_quantity fill" "ex_quantity fill \<le> ps_quantity (sp_positions (sm_positions s) ! (?i * 2 + ?l))"
    "ex_quantity fill \<le> or_quantity ?order" "ex_debit fill = 0" "0 \<le> ex_credit fill"
    using exit_fill_ok [OF cfg config inv xs arrived market, of "le_time ev"] by auto
  obtain consumed rows where x': "x' = x\<lparr>sm_consumed := consumed, sm_rows := rows\<rparr>"
    using fill(2) unfolding same_but_depletion_def by (metis (full_types))
  obtain res where closing: "close ?i ?l (ex_quantity fill) (le_time ev) (sm_positions s) = Some res" and
    y: "yields (\<lambda>e. e = ''capital-time overflow'')
      (\<lambda>(released, sp'). \<exists>ls. only_lots_of (?i * 2 + ?l) ls (sm_positions s) sp' \<and>
         lots_quantity ls = ps_quantity (sp_positions (sm_positions s) ! (?i * 2 + ?l)) - ex_quantity fill \<and> lots_before (le_time ev) sp') res"
    using close_ok [OF held(4,3) fill(3,4) head(4) before] by blast
  define done_state where "done_state = (\<lambda>basis positions. (put_order (le_order ev) (?arrived\<lparr>or_fill := fill\<rparr>) x')\<lparr>sm_positions := positions,
       sm_exit_credit := sm_exit_credit s + ex_credit fill, sm_exit_fees := sm_exit_fees s + (ex_notional fill - ex_credit fill),
       sm_exit_basis := sm_exit_basis s + basis, sm_exit_quantity := sm_exit_quantity s + ex_quantity fill,
       sm_unconfirmed_credit := sm_unconfirmed_credit s + ex_credit fill\<rparr>)"
  define sold_row where "sold_row = (\<lambda>basis. Exit_Execution_Row (le_order ev + 1) (le_time ev) (ex_quantity fill) basis (ex_credit fill))"
  define answer where "answer = \<lparr>le_time = le_time ev + re_response_latency config, le_order = le_order ev, le_response = True\<rparr>"
  have go: "order_arrives cfg life ev state (s\<lparr>sm_events := evs\<rparr>) =
      (if cash_limit - sm_exit_credit s < ex_credit fill \<or> cash_limit - sm_exit_fees s < ex_notional fill - ex_credit fill
       then Some (Inl ''exit cash bound'')
       else Some (and_then (and_then res (\<lambda>(basis, positions). check_cash cfg (emit_row (sold_row basis) (done_state basis positions))))
              (push_response ''exit response clock overflow'' ev (re_response_latency config))))"
  proof -
    have fields: "sm_exit_credit x' = sm_exit_credit s" "sm_exit_fees x' = sm_exit_fees s" "sm_exit_basis x' = sm_exit_basis s"
      "sm_exit_quantity x' = sm_exit_quantity s" "sm_unconfirmed_credit x' = sm_unconfirmed_credit s" "sm_positions x' = sm_positions s"
      by (simp_all add: x' x_def emit_row_def)
    have "order_arrives cfg life ev state (s\<lparr>sm_events := evs\<rparr>) =
        run_then (arrive_exit cfg config ?arrived ev state x) (\<lambda>s. Some (push_response ''exit response clock overflow'' ev (re_response_latency config) s))"
      using fresh(1) sell config by (simp add: order_arrives_def x_def Let_def)
    also have "arrive_exit cfg config ?arrived ev state x =
        (if cash_limit - sm_exit_credit s < ex_credit fill \<or> cash_limit - sm_exit_fees s < ex_notional fill - ex_credit fill
         then Some (Inl ''exit cash bound'')
         else Some (and_then res (\<lambda>(basis, positions). check_cash cfg (emit_row (sold_row basis) (done_state basis positions)))))"
      unfolding arrive_exit_def fill(1)
      by (cases res) (auto simp: Let_def fields closing sold_row_def done_state_def)
    finally show ?thesis by (cases res) (auto simp: run_then_def and_then_def split: sum.splits)
  qed
  show ?thesis
  proof (cases "cash_limit - sm_exit_credit s < ex_credit fill \<or> cash_limit - sm_exit_fees s < ex_notional fill - ex_credit fill \<or>
      (\<exists>e. res = Inl e)")
    case True
    then show ?thesis using y by (auto simp: go runtime_limits)
  next
    case False
    then obtain basis sp where res: "res = Inr (basis, sp)" by (cases res) auto
    obtain ls where ls: "only_lots_of (?i * 2 + ?l) ls (sm_positions s) sp"
      "lots_quantity ls = ps_quantity (sp_positions (sm_positions s) ! (?i * 2 + ?l)) - ex_quantity fill" "lots_before (le_time ev) sp"
      using y res by auto
    have "holdings_ok ((sm_attempts s)[?i := sm_attempts s ! ?i]) sp"
      using ls(2) held(2) fill(3) by (intro holdings_change [OF d(6) i l ls(1)]) simp_all
    then have holdings: "holdings_ok (sm_attempts s) sp" "length (sp_positions sp) = length (sp_positions (sm_positions s))"
      using ls(1) by (simp_all add: only_lots_of_def)
    define s' where "s' = (\<lambda>t. (emit_row (sold_row basis) (done_state basis sp))
      \<lparr>sm_events := push_event \<lparr>le_time = t, le_order = le_order ev, le_response = True\<rparr> evs\<rparr>)"
    have inv': "study_inv cfg life (s' t)" if t: "0 \<le> t" "t \<le> int64_max" for t
    proof -
      let ?s' = "put_order (le_order ev) (?order\<lparr>or_arrived := True, or_fill := fill\<rparr>)
        (s\<lparr>sm_events := push_event \<lparr>le_time = t, le_order = le_order ev, le_response = True\<rparr> evs, sm_positions := sp,
           sm_exit_credit := sm_exit_credit s + ex_credit fill, sm_unconfirmed_credit := sm_unconfirmed_credit s + ex_credit fill\<rparr>)"
      have "study_inv cfg life ?s'"
        using False t by (intro arrive_sell [OF inv evs arrival sell fill(3,5,6,7) _ _ _ holdings]) simp_all
      moreover have "s' t = ?s'\<lparr>sm_consumed := consumed, sm_rows := sm_rows (s' t), sm_exit_fees := sm_exit_fees (s' t),
          sm_exit_basis := sm_exit_basis (s' t), sm_exit_quantity := sm_exit_quantity (s' t)\<rparr>"
        by (simp add: s'_def done_state_def x' x_def emit_row_def put_order_def)
      ultimately show ?thesis by (metis study_inv_frame(1,2,12,13,14))
    qed
    have check: "check_cash cfg (emit_row (sold_row basis) (done_state basis sp)) = Inr (emit_row (sold_row basis) (done_state basis sp))"
      by (rule check_cash_same [OF cash_check [OF inv' [OF head(3,4)]]]) (simp_all add: s'_def)
    show ?thesis
    proof (cases "int64_max - re_response_latency config < le_time ev")
      case True
      with False show ?thesis by (simp add: go res check push_response_def runtime_limits)
    next
      case nowrap: False
      let ?s' = "s' (le_time ev + re_response_latency config)"
      have "sm_events (emit_row (sold_row basis) (done_state basis sp)) = evs"
        by (simp add: done_state_def emit_row_def x' x_def put_order_def)
      then have "order_arrives cfg life ev state (s\<lparr>sm_events := evs\<rparr>) = Some (Inr ?s')"
        using False nowrap unfolding go res by (simp add: check push_response_def s'_def)
      moreover have "turn_keeps cfg life (le_time ev) s ?s'"
        using ls(3) delay nowrap head(3)
        by (intro arrived_turn [OF evs arrival k inv', of _ "?arrived\<lparr>or_fill := fill\<rparr>"])
          (simp_all add: s'_def done_state_def emit_row_def x' x_def put_order_def)
      ultimately show ?thesis by simp
    qed
  qed
qed


subsection \<open>An arrival of a purchase\<close>

text \<open>What the order can still fill has room in the attempt.\<close>

lemma arriving_room:
  assumes inv: "study_inv cfg life s" and k: "live_order (sm_orders s) k" "\<not> or_arrived (sm_orders s ! k)" "\<not> or_sell (sm_orders s ! k)"
  shows "ex_quantity (pick (or_leg (sm_orders s ! k)) (pa_fills (sm_attempts s ! or_attempt (sm_orders s ! k)))) + or_quantity (sm_orders s ! k)
    \<le> quantity_limit"
proof -
  let ?order = "sm_orders s ! k" and ?i = "or_attempt (sm_orders s ! k)"
  have ok: "order_ok cfg (sm_attempts s) ?order" using study_invD(1) [OF inv] k(1) by (simp add: live_order_def)
  then have i: "?i < length (sm_attempts s)" by (simp add: order_ok_def)
  have "k \<in> live_buys (sm_orders s) ?i" using k by (simp add: live_buys_def)
  then have "ex_quantity (pick (or_leg ?order) (pa_fills (sm_attempts s ! ?i))) + or_quantity ?order \<le> pa_quantity (sm_attempts s ! ?i)"
    using study_invD(3) [OF inv i] k(2) by (simp add: buys_ok_def)
  with attempt_fills(5) [OF study_invD(2) [OF inv i]] show ?thesis by linarith
qed

text \<open>The fill of an arriving purchase costs no more than its reserve.\<close>

lemma buy_fill_ok:
  assumes cfg: "pair_config_ok cfg" and order: "order_ok cfg as order" "\<not> or_sell order" "or_fill order = no_execution"
    and market: "market_ok state"
  shows "\<exists>fill x'. (if trading then walk_book cfg False (pick (or_leg order) (pa_legs (as ! or_attempt order)))
        (or_quantity order) (or_limit order) state True x else Inr (or_fill order, x)) = Inr (fill, x') \<and>
    same_but_depletion True x x' \<and> 0 \<le> ex_quantity fill \<and> ex_quantity fill \<le> or_quantity order \<and>
    0 \<le> ex_debit fill \<and> ex_debit fill \<le> or_reserve order \<and> ex_credit fill = 0"
proof -
  let ?step = "sy_quantity_step (pc_policy cfg)"
  obtain fee where fee: "sy_fees (pc_policy cfg) (lt_market (pick (or_leg order) (pa_legs (as ! or_attempt order)))) = Some fee"
    and reserve: "or_reserve order = reserve_amount fee ?step (or_limit order) (or_quantity order)"
    and dvd: "?step dvd or_quantity order" using order(1,2) by (auto simp: order_ok_def)
  have q: "0 \<le> or_quantity order" "or_quantity order \<le> quantity_limit" and lim: "0 \<le> or_limit order" "or_limit order \<le> 10000"
    and reserved: "0 \<le> or_reserve order"
    using order(1) by (simp_all add: order_ok_def)
  obtain r x' where r: "walk_book cfg False (pick (or_leg order) (pa_legs (as ! or_attempt order))) (or_quantity order) (or_limit order) state True x = Inr (r, x')"
    "same_but_depletion True x x'" "execution_ok fee ?step False (or_quantity order) (or_limit order) r"
    using walk_book_ok [OF pair_config_okD(1) [OF cfg] _ fee q lim market, of False True x] by auto
  have r0: "0 \<le> ex_quantity r" "ex_quantity r \<le> or_quantity order" "0 \<le> ex_debit r" "ex_credit r = 0" "?step dvd ex_quantity r"
    "ex_debit r \<le> reserve_amount fee ?step (or_limit order) (ex_quantity r)"
    using r(3) by (simp_all add: execution_ok_def)
  have step: "step_ok ?step" and fee_ok: "policy_ok fee" using pair_config_okD(2,6) [OF cfg] fee by auto
  have "ex_debit r \<le> or_reserve order"
    using r0(6) reserve_amount_mono [OF reserve_ok_step [OF step fee_ok q dvd] r0(1,2) lim(1) order_refl] by (simp add: reserve)
  with r(1,2) r0 order(3) q reserved show ?thesis by auto
qed


lemma buy_arrives:
  assumes cfg: "pair_config_ok cfg" and lifecycle: "sy_lifecycle (pc_policy cfg) = Some life"
    and inv: "study_inv cfg life s" and evs: "sm_events s = ev # evs" and arrival: "\<not> le_response ev"
    and buy: "\<not> or_sell (sm_orders s ! le_order ev)" and market: "market_ok state"
  shows "completes runtime_limit (turn_keeps cfg life (le_time ev) s) (order_arrives cfg life ev state (s\<lparr>sm_events := evs\<rparr>))"
proof -
  note d = study_invD [OF inv]
  let ?order = "sm_orders s ! le_order ev" and ?arrived = "(sm_orders s ! le_order ev)\<lparr>or_arrived := True\<rparr>"
  let ?i = "or_attempt (sm_orders s ! le_order ev)" and ?l = "or_leg (sm_orders s ! le_order ev)"
  let ?a = "sm_attempts s ! or_attempt (sm_orders s ! le_order ev)" and ?sp = "sm_positions s"
  note head = events_head(1-4) [OF d(4) [unfolded evs]]
  have k: "le_order ev < length (sm_orders s)" and fresh: "\<not> or_arrived ?order" "\<not> or_responded ?order"
    using head arrival by (simp_all add: live_order_def)
  have ok: "order_ok cfg (sm_attempts s) ?order" by (rule d(1) [OF k])
  then have i: "?i < length (sm_attempts s)" and l: "?l < 2" and blank: "or_fill ?order = no_execution"
    using fresh by (simp_all add: order_ok_def)
  define latency where "latency = pick ?l (lp_response_latency life)"
  have "lifecycle_policy_ok life" using cfg lifecycle by (simp add: pair_config_ok_def study_policy_ok_def)
  then have delay: "response_delay cfg life ?order = latency" "0 \<le> latency"
    using buy l by (auto simp: response_delay_def latency_def lifecycle_policy_ok_def pick_def)
  note held = held_ok(2,3,4,5) [OF inv i l]
  let ?row = "Arrival_Row False (le_order ev + 1) (pa_id ?a) ?l (le_time ev)"
  define x where "x = emit_row ?row (put_order (le_order ev) ?arrived (s\<lparr>sm_events := evs\<rparr>))"
  have xs: "sm_attempts x = sm_attempts s" by (simp add: x_def emit_row_def)
  have arrived: "order_ok cfg (sm_attempts x) ?arrived" "\<not> or_sell ?arrived" "or_fill ?arrived = no_execution"
    using ok blank buy by (simp_all add: order_ok_def xs)
  let ?b = "sm_attempts x ! or_attempt ?arrived"
  define trading where "trading \<longleftrightarrow> \<not> pick (or_leg ?arrived) (sy_reject (pc_policy cfg)) \<and>
    lt_market (pick (or_leg ?arrived) (pa_legs ?b)) \<notin> sm_settled_markets x \<and>
    ms_generation state = Some (pa_generation ?b) \<and> fresh_book cfg (pick (or_leg ?arrived) (pa_legs ?b)) (le_time ev) state x"
  obtain fill x' where filling: "(if trading then walk_book cfg False (pick (or_leg ?arrived) (pa_legs ?b))
        (or_quantity ?arrived) (or_limit ?arrived) state True x else Inr (or_fill ?arrived, x)) = Inr (fill, x')"
    and fill': "same_but_depletion True x x'" "0 \<le> ex_quantity fill" "ex_quantity fill \<le> or_quantity ?arrived"
      "0 \<le> ex_debit fill" "ex_debit fill \<le> or_reserve ?arrived" "ex_credit fill = 0"
    using buy_fill_ok [OF cfg arrived market, of trading x] by blast
  have fill: "same_but_depletion True x x'" "0 \<le> ex_quantity fill" "ex_quantity fill \<le> or_quantity ?order"
      "0 \<le> ex_debit fill" "ex_debit fill \<le> or_reserve ?order" "ex_credit fill = 0"
    using fill' by simp_all
  obtain consumed rows where x': "x' = x\<lparr>sm_consumed := consumed, sm_rows := rows\<rparr>"
    using fill(1) unfolding same_but_depletion_def by (metis (full_types))
  define a' where "a' = set_fill ?l (add_execution (pick ?l (pa_fills ?a)) fill) ?a"
  define filled where "filled = put_attempt ?i a' (put_order (le_order ev) (?arrived\<lparr>or_fill := fill\<rparr>)
    (x'\<lparr>sm_spent := sm_spent s + ex_debit fill, sm_notional := sm_notional s + ex_notional fill,
        sm_unconfirmed_debit := sm_unconfirmed_debit s + ex_debit fill\<rparr>))"
  define buying where "buying = (if ex_quantity fill \<noteq> 0 then acquire ?i ?l (pick ?l (pa_legs ?a)) (ex_quantity fill) (ex_debit fill) (le_time ev) ?sp
    else Inr ?sp)"
  have go: "order_arrives cfg life ev state (s\<lparr>sm_events := evs\<rparr>) =
      Some (if cash_limit - sm_spent s < ex_debit fill then Inl ''lifecycle cash reservation''
        else and_then (check_cash cfg filled) (\<lambda>s. and_then (if ex_quantity fill \<noteq> 0
            then and_then (acquire ?i ?l (pick ?l (pa_legs ?a)) (ex_quantity fill) (ex_debit fill) (le_time ev) (sm_positions s))
              (\<lambda>positions. Inr (s\<lparr>sm_positions := positions\<rparr>))
            else Inr s) (push_response ''response clock overflow'' ev latency)))"
  proof -
    have fields: "sm_spent x' = sm_spent s" "sm_notional x' = sm_notional s" "sm_unconfirmed_debit x' = sm_unconfirmed_debit s"
      "sm_attempts x = sm_attempts s" "sm_attempts x' = sm_attempts s"
      by (simp_all add: x' x_def emit_row_def)
    have "order_arrives cfg life ev state (s\<lparr>sm_events := evs\<rparr>) = Some (buy_arrival cfg life ?arrived ev state x)"
      using fresh(1) buy by (simp add: order_arrives_def x_def Let_def)
    also have "buy_arrival cfg life ?arrived ev state x =
        (if cash_limit - sm_spent s < ex_debit fill then Inl ''lifecycle cash reservation''
         else and_then (check_cash cfg filled) (\<lambda>s. and_then (if ex_quantity fill \<noteq> 0
            then and_then (acquire ?i ?l (pick ?l (pa_legs ?a)) (ex_quantity fill) (ex_debit fill) (le_time ev) (sm_positions s))
              (\<lambda>positions. Inr (s\<lparr>sm_positions := positions\<rparr>))
            else Inr s) (push_response ''response clock overflow'' ev latency)))"
      using fill(5) unfolding buy_arrival_def Let_def trading_def [symmetric] filling and_then_simps prod.case
      by (cases "ex_quantity fill = 0") (simp_all add: fields filled_def a'_def latency_def)
    finally show ?thesis .
  qed
  show ?thesis
  proof (cases "cash_limit - sm_spent s < ex_debit fill")
    case True
    then show ?thesis by (auto simp: go runtime_limits)
  next
    case False
    have spent: "0 \<le> sm_spent s"
      using d(5) cash_check [OF inv] by (simp add: cash_ok_def check_cash_def split: if_splits)
    have room: "ex_quantity (pick ?l (pa_fills ?a)) + or_quantity ?order \<le> quantity_limit"
      by (rule arriving_room [OF inv head(1) fresh(1) buy])
    have "\<exists>sp. buying = Inr sp \<and> holdings_ok ((sm_attempts s)[?i := a']) sp \<and> length (sp_positions sp) = length (sp_positions ?sp) \<and>
        (lots_before (le_time ev) ?sp \<longrightarrow> lots_before (le_time ev) sp)"
    proof -
      let ?j = "?i * 2 + ?l"
      have q: "lots_quantity (lots_of ?sp ?j) \<le> ex_quantity (pick ?l (pa_fills ?a))"
        using held(2) positions_okD(3) [OF held(4,3)] by simp
      have a': "ex_quantity (pick ?l (pa_fills a')) = ex_quantity (pick ?l (pa_fills ?a)) + ex_quantity fill"
        "\<And>m. m < 2 \<Longrightarrow> m \<noteq> ?l \<Longrightarrow> pick m (pa_fills a') = pick m (pa_fills ?a)"
        using l by (simp_all add: a'_def set_fill_def add_execution_def)
      have "\<exists>sp ls. buying = Inr sp \<and> only_lots_of ?j ls ?sp sp \<and> lots_quantity ls \<le> ex_quantity (pick ?l (pa_fills a')) \<and>
          (\<forall>lot \<in> set ls. lot \<in> set (lots_of ?sp ?j) \<or> snd (snd lot) = le_time ev)"
      proof (cases "ex_quantity fill = 0")
        case True
        have "only_lots_of ?j (lots_of ?sp ?j) ?sp ?sp" using held(4) by (simp add: only_lots_of_def)
        with True q show ?thesis unfolding buying_def by (intro exI [of _ ?sp] exI [of _ "lots_of ?sp ?j"]) (simp add: a'(1))
      next
        case nonzero: False
        have "only_lots_of ?j (lots_of ?sp ?j @ [(ex_quantity fill, ex_debit fill, le_time ev)]) ?sp
            (with_lot ?j (pick ?l (pa_legs ?a)) (ex_quantity fill) (ex_debit fill) (le_time ev) ?sp)"
          using nonzero fill False spent room q by (intro with_lot_refines [OF held(4,3) head(3,4)]) simp_all
        moreover have "acquire ?i ?l (pick ?l (pa_legs ?a)) (ex_quantity fill) (ex_debit fill) (le_time ev) ?sp =
            Inr (with_lot ?j (pick ?l (pa_legs ?a)) (ex_quantity fill) (ex_debit fill) (le_time ev) ?sp)"
          using nonzero fill False spent room held(2) by (simp add: acquire_eq [OF held(3)])
        ultimately show ?thesis using nonzero q a'(1) unfolding buying_def by (auto intro!: exI)
      qed
      then obtain sp ls where sp: "buying = Inr sp" "only_lots_of ?j ls ?sp sp" "lots_quantity ls \<le> ex_quantity (pick ?l (pa_fills a'))"
        "\<forall>lot \<in> set ls. lot \<in> set (lots_of ?sp ?j) \<or> snd (snd lot) = le_time ev" by blast
      have "holdings_ok ((sm_attempts s)[?i := a']) sp"
        using a'(2) by (intro holdings_change [OF d(6) i l sp(2,3)]) simp
      moreover have "lots_before (le_time ev) sp" if before: "lots_before (le_time ev) ?sp"
      proof (rule lots_before_change [OF before sp(2)])
        have "\<forall>lot \<in> set (lots_of ?sp ?j). snd (snd lot) \<le> le_time ev" using before held(3) unfolding lots_before_def by blast
        then show "snd (snd lot) \<le> le_time ev" if "lot \<in> set ls" for lot using sp(4) that by fastforce
      qed
      ultimately show ?thesis using sp(1,2) by (auto simp: only_lots_of_def)
    qed
    then obtain sp where sp: "buying = Inr sp" "holdings_ok ((sm_attempts s)[?i := a']) sp" "length (sp_positions sp) = length (sp_positions ?sp)"
      "lots_before (le_time ev) ?sp \<Longrightarrow> lots_before (le_time ev) sp" by blast
    have "sm_positions filled = ?sp" by (simp add: filled_def x' x_def emit_row_def)
    then have bought: "(if ex_quantity fill \<noteq> 0
        then and_then (acquire ?i ?l (pick ?l (pa_legs ?a)) (ex_quantity fill) (ex_debit fill) (le_time ev) (sm_positions filled))
          (\<lambda>positions. Inr (filled\<lparr>sm_positions := positions\<rparr>))
        else Inr filled) = Inr (filled\<lparr>sm_positions := sp\<rparr>)"
      using sp(1) by (cases "ex_quantity fill = 0") (simp_all add: buying_def)
    define s' where "s' = (\<lambda>t. filled\<lparr>sm_positions := sp,
      sm_events := push_event \<lparr>le_time = t, le_order = le_order ev, le_response = True\<rparr> evs\<rparr>)"
    have inv': "study_inv cfg life (s' t)" if t: "0 \<le> t" "t \<le> int64_max" for t
    proof -
      let ?s' = "put_attempt ?i a' (put_order (le_order ev) (?order\<lparr>or_arrived := True, or_fill := fill\<rparr>)
        (s\<lparr>sm_events := push_event \<lparr>le_time = t, le_order = le_order ev, le_response = True\<rparr> evs, sm_positions := sp,
           sm_spent := sm_spent s + ex_debit fill, sm_unconfirmed_debit := sm_unconfirmed_debit s + ex_debit fill\<rparr>))"
      have "study_inv cfg life ?s'"
        unfolding a'_def using False t sp(2,3) fill
        by (intro arrive_buy [OF inv evs arrival buy]) (simp_all add: a'_def)
      moreover have "s' t = ?s'\<lparr>sm_consumed := consumed, sm_rows := sm_rows (s' t), sm_notional := sm_notional (s' t)\<rparr>"
        by (simp add: s'_def filled_def x' x_def emit_row_def put_order_def put_attempt_def)
      ultimately show ?thesis by (metis study_inv_frame(1,2,11))
    qed
    have check: "check_cash cfg filled = Inr filled"
      by (rule check_cash_same [OF cash_check [OF inv' [OF head(3,4)]]]) (simp_all add: s'_def)
    show ?thesis
    proof (cases "int64_max - latency < le_time ev")
      case True
      with False show ?thesis by (simp only: go check and_then_simps bought if_False) (simp add: push_response_def runtime_limits)
    next
      case nowrap: False
      let ?s' = "s' (le_time ev + latency)"
      have "sm_events filled = evs"
        by (simp add: filled_def emit_row_def x' x_def put_order_def put_attempt_def)
      then have "order_arrives cfg life ev state (s\<lparr>sm_events := evs\<rparr>) = Some (Inr ?s')"
        using False nowrap unfolding go check and_then_simps bought by (simp add: push_response_def s'_def)
      moreover have "turn_keeps cfg life (le_time ev) s ?s'"
      proof (rule arrived_turn [OF evs arrival k inv', of _ "?arrived\<lparr>or_fill := fill\<rparr>"])
        have "attempt_work life a' = attempt_work life ?a" by (simp add: a'_def set_fill_def attempt_work_def)
        then show "map (attempt_work life) (sm_attempts ?s') = map (attempt_work life) (sm_attempts s)"
          using i by (simp add: s'_def filled_def x' x_def emit_row_def put_order_def put_attempt_def map_update list_update_same_conv)
      qed (use sp(4) delay nowrap head(3) in
          \<open>simp_all add: s'_def filled_def emit_row_def x' x_def put_order_def put_attempt_def\<close>)
      ultimately show ?thesis by simp
    qed
  qed
qed


subsection \<open>A settlement\<close>

lemma settled_lots_before:
  assumes "lots_before t sp" "settled st sp [0..<length (sp_positions sp)] 0 0 ((closed, payout), sp')"
  shows "lots_before t sp'"
  using assms by (auto simp: lots_before_def settled_def)

lemma settle_ok:
  assumes ok: "positions_ok sp" and size: "length (sp_positions sp) \<le> 92233720368" and time: "st_time st \<le> int64_max"
    and before: "lots_before (st_time st) sp"
  shows "completes (\<lambda>e. e = ''settlement payout bound'' \<or> e = ''capital-time overflow'')
    (\<lambda>((closed, payout), sp'). 0 \<le> payout \<and> settled st sp [0..<length (sp_positions sp)] 0 0 ((closed, payout), sp'))
    (settle_market st sp)"
proof -
  let ?js = "[0..<length (sp_positions sp)]"
  obtain res where res: "settle_market st sp = Some res" "yields (settle_error st sp ?js 0) (settled st sp ?js 0 0) res"
    using settle_market_refines [OF ok size time] by blast
  have "snd (snd lot) \<le> st_time st" if "lot \<in> set (settled_lots st sp ?js)" for lot
    using that before by (auto simp: settled_lots_def lots_before_def)
  then have "\<not> (\<exists>(q, d, t) \<in> set (settled_lots st sp ?js). st_time st < t)" by fastforce
  then have error: "e = ''settlement payout bound'' \<or> e = ''capital-time overflow''" if "settle_error st sp ?js 0 e" for e
    using that unfolding settle_error_def capital_error_def by blast
  have "lots_ok (winning_lots st sp ?js)" using settled_ok(2) [OF ok] by (simp add: atLeast0LessThan)
  then have "0 \<le> lots_quantity (winning_lots st sp ?js)" by (rule lots_quantity_nonneg)
  then have result: "(case r of ((closed, payout), sp') \<Rightarrow> 0 \<le> payout \<and> settled st sp ?js 0 0 ((closed, payout), sp'))"
    if "settled st sp ?js 0 0 r" for r
    using that by (auto simp: settled_def)
  have "yields (\<lambda>e. e = ''settlement payout bound'' \<or> e = ''capital-time overflow'') (settled st sp ?js 0 0) res"
    by (rule yields_errors [OF res(2)]) (rule error)
  then have "yields (\<lambda>e. e = ''settlement payout bound'' \<or> e = ''capital-time overflow'')
      (\<lambda>((closed, payout), sp'). 0 \<le> payout \<and> settled st sp ?js 0 0 ((closed, payout), sp')) res"
    by (rule yields_mono) (drule result, simp split: prod.splits)
  then show ?thesis using res(1) by simp
qed

text \<open>A settlement's payout is available at once.\<close>

lemma settlement_keeps:
  assumes inv: "study_inv cfg life s" and payout: "0 \<le> payout" "sm_settlement_cash s + payout \<le> cash_limit"
    and settled: "settled st (sm_positions s) [0..<length (sp_positions (sm_positions s))] 0 0 ((closed, payout'), sp)"
  shows "study_inv cfg life (s\<lparr>sm_positions := sp, sm_settlement_cash := sm_settlement_cash s + payout,
    sm_available := sm_available s + payout\<rparr>)"
proof -
  note d = study_invD [OF inv]
  let ?sp = "sm_positions s"
  have ok: "positions_ok ?sp" and ok': "positions_ok sp" and len: "length (sp_positions sp) = length (sp_positions ?sp)"
    and lots: "\<And>i. i < length (sp_positions ?sp) \<Longrightarrow> lots_of sp i = [] \<or> lots_of sp i = lots_of ?sp i"
    using settled d(6) by (auto simp: settled_def holdings_ok_def)
  have q: "ps_quantity (sp_positions sp ! i) = 0 \<or> ps_quantity (sp_positions sp ! i) = ps_quantity (sp_positions ?sp ! i)"
    if "i < length (sp_positions ?sp)" for i
    using lots [OF that] positions_okD(3) [OF ok that] positions_okD(3) [OF ok', of i] that len by auto
  have "holdings_ok (sm_attempts s) sp"
  proof -
    have "ps_quantity (sp_positions sp ! (i * 2 + l)) \<le> ex_quantity (pick l (pa_fills (sm_attempts s ! i)))"
      if i: "i < length (sm_attempts s)" and l: "l < 2" for i l
      using q [of "i * 2 + l"] held_ok(2,3,4) [OF inv i l] by auto
    moreover have "ps_quantity (sp_positions sp ! j) = 0" if "2 * length (sm_attempts s) \<le> j" "j < length (sp_positions ?sp)" for j
      using q [OF that(2)] d(6) that by (auto simp: holdings_ok_def)
    ultimately show ?thesis using d(6) ok' len by (simp add: holdings_ok_def)
  qed
  then show ?thesis
    using d(1-5,7) payout len by (intro study_invI) (simp_all add: cash_ok_def attempted_ok_def)
qed

lemma sim_settle_ok:
  assumes inv: "study_inv cfg life s" and time: "st_time st \<le> int64_max" and before: "lots_before (st_time st) (sm_positions s)"
  shows "completes runtime_limit (\<lambda>s'. study_inv cfg life s' \<and> sm_orders s' = sm_orders s \<and> sm_events s' = sm_events s \<and>
      sm_attempts s' = sm_attempts s \<and> sm_settlement_index s' = sm_settlement_index s \<and>
      (\<forall>t. lots_before t (sm_positions s) \<longrightarrow> lots_before t (sm_positions s')) \<and> st_market_id st \<in> sm_settled_markets s')
    (sim_settle cfg st s)"
proof -
  note d = study_invD [OF inv]
  have ok: "positions_ok (sm_positions s)" "length (sp_positions (sm_positions s)) \<le> 92233720368"
    using d(6,7) by (simp_all add: holdings_ok_def attempted_ok_def)
  obtain res where res: "settle_market st (sm_positions s) = Some res" and
    y: "yields (\<lambda>e. e = ''settlement payout bound'' \<or> e = ''capital-time overflow'')
      (\<lambda>((closed, payout), sp'). 0 \<le> payout \<and>
         settled st (sm_positions s) [0..<length (sp_positions (sm_positions s))] 0 0 ((closed, payout), sp')) res"
    using settle_ok [OF ok time before] by (auto simp: completes_def)
  show ?thesis
  proof (cases res)
    case (Inl e)
    with y res show ?thesis by (auto simp: sim_settle_def runtime_limits)
  next
    case (Inr r)
    obtain closed payout sp where r: "r = ((closed, payout), sp)" by (metis prod.collapse)
    have payout: "0 \<le> payout" and settled: "settled st (sm_positions s) [0..<length (sp_positions (sm_positions s))] 0 0 ((closed, payout), sp)"
      using y Inr r by simp_all
    let ?s = "s\<lparr>sm_settled_markets := insert (st_market_id st) (sm_settled_markets s), sm_positions := sp,
      sm_settlement_cash := sm_settlement_cash s + payout, sm_available := sm_available s + payout\<rparr>"
    show ?thesis
    proof (cases "cash_limit - sm_settlement_cash s < payout \<or> cash_limit - sm_available s < payout")
      case True
      with res Inr r show ?thesis by (auto simp: sim_settle_def runtime_limits)
    next
      case False
      have "study_inv cfg life ((s\<lparr>sm_settled_markets := insert (st_market_id st) (sm_settled_markets s)\<rparr>)
          \<lparr>sm_positions := sp, sm_settlement_cash := sm_settlement_cash s + payout, sm_available := sm_available s + payout\<rparr>)"
        using False payout settled settlement_keeps [of cfg life "s\<lparr>sm_settled_markets := insert (st_market_id st) (sm_settled_markets s)\<rparr>" payout] inv
        by simp
      then have inv': "study_inv cfg life ?s" by simp
      have "lots_before t (sm_positions s) \<Longrightarrow> lots_before t sp" for t by (rule settled_lots_before [OF _ settled])
      with False res Inr r inv' cash_check [OF inv'] show ?thesis
        by (simp add: sim_settle_def emit_row_def)
    qed
  qed
qed


subsection \<open>The clock\<close>

text \<open>All events, and all settlements still to come, lie at or after \<open>now\<close>; all lots were bought at or before it.\<close>

definition clock_ok :: "lifecycle_policy \<Rightarrow> int \<Rightarrow> simulation \<Rightarrow> bool" where
  "clock_ok life now s \<longleftrightarrow> (\<forall>ev \<in> set (sm_events s). now \<le> le_time ev) \<and> lots_before now (sm_positions s) \<and>
     (\<forall>st \<in> set (drop (sm_settlement_index s) (lp_settlements life)). now \<le> st_time st)"

text \<open>Order \<open>k\<close> is answered at the latest by \<open>t\<close>.\<close>

definition answered_by :: "pair_config \<Rightarrow> lifecycle_policy \<Rightarrow> nat \<Rightarrow> int \<Rightarrow> simulation \<Rightarrow> bool" where
  "answered_by cfg life k t s \<longleftrightarrow>
     (\<forall>ev \<in> set (sm_events s). le_order ev = k \<longrightarrow>
        le_time ev + (if le_response ev then 0 else response_delay cfg life (sm_orders s ! k)) \<le> t)"

text \<open>What any number of turns until \<open>time\<close> keep.\<close>

definition drains :: "pair_config \<Rightarrow> lifecycle_policy \<Rightarrow> int \<Rightarrow> simulation \<Rightarrow> simulation \<Rightarrow> bool" where
  "drains cfg life time s s' \<longleftrightarrow>
     study_inv cfg life s' \<and> (\<exists>now \<le> time. clock_ok life now s') \<and> study_work life s' \<le> study_work life s \<and>
     length (sm_orders s) \<le> length (sm_orders s') \<and>
     (\<forall>k < length (sm_orders s). \<forall>t. answered_by cfg life k t s \<longrightarrow> answered_by cfg life k t s')"

lemma drains_refl: "study_inv cfg life s \<Longrightarrow> now \<le> time \<Longrightarrow> clock_ok life now s \<Longrightarrow> drains cfg life time s s"
  by (auto simp: drains_def)

lemma drains_trans:
  assumes "drains cfg life time s s'" "drains cfg life time s' s''"
  shows "drains cfg life time s s''"
  using assms unfolding drains_def by (meson order_less_le_trans order_trans)

lemma lots_before_mono: "lots_before t sp \<Longrightarrow> t \<le> t' \<Longrightarrow> lots_before t' sp"
  by (force simp: lots_before_def)

lemma events_after_head:
  assumes "sorted_wrt event_before (ev # evs)" "e \<in> set (ev # evs)"
  shows "le_time ev \<le> le_time e"
  using assms by (auto simp: event_before_def)

lemma settlements_after:
  assumes "sorted (map st_time sts)" "n < length sts" "st \<in> set (drop n sts)"
  shows "st_time (sts ! n) \<le> st_time st"
proof -
  have "drop n sts = sts ! n # drop (Suc n) sts" using assms(2) by (rule Cons_nth_drop_Suc [symmetric])
  moreover have "sorted (map st_time (drop n sts))" using assms(1) by (simp add: drop_map sorted_wrt_drop flip: drop_map)
  ultimately show ?thesis using assms(3) by auto
qed

lemma answered_turn_by:
  assumes turn: "turn_keeps cfg life t s s'" and k: "k < length (sm_orders s)" and old: "answered_by cfg life k u s"
  shows "answered_by cfg life k u s'"
  unfolding answered_by_def
proof (intro ballI impI)
  fix e assume e: "e \<in> set (sm_events s')" "le_order e = k"
  have same: "response_delay cfg life (sm_orders s' ! k) = response_delay cfg life (sm_orders s ! k)"
    using turn k by (simp add: turn_keeps_def response_delay_def)
  have "event_from cfg life t s e" using turn e(1) by (simp add: turn_keeps_def)
  then consider "e \<in> set (sm_events s)"
    | ev where "ev \<in> set (sm_events s)" "\<not> le_response ev" "le_order ev = k" "le_response e"
        "le_time e = le_time ev + response_delay cfg life (sm_orders s ! k)"
    using k e(2) unfolding event_from_def by fastforce
  then show "le_time e + (if le_response e then 0 else response_delay cfg life (sm_orders s' ! k)) \<le> u"
  proof cases
    case 1
    with old e(2) same show ?thesis by (auto simp: answered_by_def)
  next
    case 2
    with old show ?thesis by (force simp: answered_by_def)
  qed
qed


subsection \<open>The loop\<close>

lemma next_event_ok:
  assumes cfg: "pair_config_ok cfg" and lifecycle: "sy_lifecycle (pc_policy cfg) = Some life"
    and inv: "study_inv cfg life s" and evs: "sm_events s = ev # evs" and market: "market_ok state"
    and before: "lots_before (le_time ev) (sm_positions s)"
  shows "completes runtime_limit (turn_keeps cfg life (le_time ev) s) (next_event cfg life state s)"
proof -
  have go: "next_event cfg life state s = (if le_response ev then Some (order_response cfg life ev state (s\<lparr>sm_events := evs\<rparr>))
      else order_arrives cfg life ev state (s\<lparr>sm_events := evs\<rparr>))"
    by (simp add: next_event_def evs)
  show ?thesis
    unfolding go using order_response_ok [OF cfg inv evs _ market] sell_arrives [OF cfg inv evs _ _ market before]
      buy_arrives [OF cfg lifecycle inv evs _ _ market]
    by auto
qed

lemma event_turn:
  assumes cfg: "pair_config_ok cfg" and lifecycle: "sy_lifecycle (pc_policy cfg) = Some life"
    and inv: "study_inv cfg life s" and clock: "clock_ok life now s" and market: "market_ok state"
    and evs: "sm_events s = ev # evs" and due: "le_time ev \<le> time"
    and first: "\<And>st. st \<in> set (drop (sm_settlement_index s) (lp_settlements life)) \<Longrightarrow> le_time ev \<le> st_time st"
  shows "completes runtime_limit (\<lambda>s'. drains cfg life time s s' \<and> study_work life s' < study_work life s) (next_event cfg life state s)"
proof -
  have "now \<le> le_time ev" "lots_before now (sm_positions s)" using clock evs by (simp_all add: clock_ok_def)
  then have before: "lots_before (le_time ev) (sm_positions s)" by (metis lots_before_mono)
  have sorted: "sorted_wrt event_before (ev # evs)" using study_invD(4) [OF inv] evs by (simp add: events_ok_def)
  have "drains cfg life time s s' \<and> study_work life s' < study_work life s" if turn: "turn_keeps cfg life (le_time ev) s s'" for s'
  proof -
    have "le_time ev \<le> le_time e" if e: "e \<in> set (sm_events s')" for e
    proof -
      have "event_from cfg life (le_time ev) s e" using turn e by (simp add: turn_keeps_def)
      then show ?thesis using events_after_head [OF sorted] evs by (auto simp: event_from_def)
    qed
    then have "clock_ok life (le_time ev) s'"
      using turn before first by (simp add: turn_keeps_def clock_ok_def)
    then show ?thesis using turn due answered_turn_by [OF turn] by (auto simp: turn_keeps_def drains_def)
  qed
  then show ?thesis by (rule completes_mono [OF next_event_ok [OF cfg lifecycle inv evs market before]])
qed

lemma settlement_turn:
  assumes cfg: "pair_config_ok cfg" and lifecycle: "sy_lifecycle (pc_policy cfg) = Some life"
    and inv: "study_inv cfg life s" and clock: "clock_ok life now s"
    and due: "settlement_due life time s"
    and first: "\<And>ev. ev \<in> set (sm_events s) \<Longrightarrow> st_time (lp_settlements life ! sm_settlement_index s) \<le> le_time ev"
  shows "completes runtime_limit (\<lambda>s'. drains cfg life time s s' \<and> study_work life s' < study_work life s) (next_settlement cfg life s)"
proof -
  let ?n = "sm_settlement_index s" and ?sts = "lp_settlements life"
  let ?st = "?sts ! ?n" and ?s = "s\<lparr>sm_settlement_index := ?n + 1\<rparr>"
  have n: "?n < length ?sts" "st_time ?st \<le> time" using due by (simp_all add: settlement_due_def)
  have life: "lifecycle_policy_ok life" using cfg lifecycle by (simp add: pair_config_ok_def study_policy_ok_def)
  then have time: "st_time ?st \<le> int64_max" and sorted: "sorted (map st_time ?sts)" using n(1) by (simp_all add: lifecycle_policy_ok_def)
  have drop: "drop ?n ?sts = ?st # drop (?n + 1) ?sts" using Cons_nth_drop_Suc [OF n(1)] by simp
  have "now \<le> st_time ?st" "lots_before now (sm_positions s)" using clock drop by (simp_all add: clock_ok_def)
  then have before: "lots_before (st_time ?st) (sm_positions ?s)" using lots_before_mono by simp
  have inv': "study_inv cfg life ?s" using inv by simp
  have later: "st_time ?st \<le> st_time st" if "st \<in> set (drop (?n + 1) ?sts)" for st
    using settlements_after [OF sorted n(1), of st] that drop by simp
  have "drains cfg life time s s' \<and> study_work life s' < study_work life s"
    if s': "study_inv cfg life s' \<and> sm_orders s' = sm_orders ?s \<and> sm_events s' = sm_events ?s \<and>
      sm_attempts s' = sm_attempts ?s \<and> sm_settlement_index s' = sm_settlement_index ?s \<and>
      (\<forall>t. lots_before t (sm_positions ?s) \<longrightarrow> lots_before t (sm_positions s')) \<and> st_market_id ?st \<in> sm_settled_markets s'" for s'
  proof -
    have "clock_ok life (st_time ?st) s'" using s' before first later by (simp add: clock_ok_def)
    moreover have "study_work life s' < study_work life s" using s' n(1) by (simp add: study_work_def)
    ultimately show ?thesis using s' n(2) by (auto simp: drains_def answered_by_def)
  qed
  then show ?thesis unfolding next_settlement_def by (rule completes_mono [OF sim_settle_ok [OF inv' time before]])
qed

lemma lifecycle_turn_ok:
  assumes cfg: "pair_config_ok cfg" and lifecycle: "sy_lifecycle (pc_policy cfg) = Some life"
    and inv: "study_inv cfg life s" and clock: "clock_ok life now s" and market: "market_ok state"
    and due: "settlement_due life time s \<or> order_due time inclusive s"
  shows "completes runtime_limit (\<lambda>s'. drains cfg life time s s' \<and> study_work life s' < study_work life s) (lifecycle_turn cfg life time inclusive state s)"
proof -
  let ?n = "sm_settlement_index s" and ?sts = "lp_settlements life"
  have sorted: "sorted_wrt event_before (sm_events s)" using study_invD(4) [OF inv] by (simp add: events_ok_def)
  have life: "lifecycle_policy_ok life" using cfg lifecycle by (simp add: pair_config_ok_def study_policy_ok_def)
  show ?thesis
  proof (cases "settlement_due life time s \<and> (\<not> order_due time inclusive s \<or> st_time (?sts ! ?n) \<le> le_time (hd (sm_events s)))")
    case True
    then have "st_time (?sts ! ?n) \<le> time" by (simp add: settlement_due_def)
    have "st_time (?sts ! ?n) \<le> le_time ev" if ev: "ev \<in> set (sm_events s)" for ev
    proof (cases "sm_events s")
      case Nil
      with ev show ?thesis by simp
    next
      case (Cons e es)
      then have "le_time e \<le> le_time ev" using events_after_head [of e es ev] sorted ev by simp
      moreover have "st_time (?sts ! ?n) \<le> le_time e"
        using True Cons \<open>st_time (?sts ! ?n) \<le> time\<close> by (auto simp: order_due_def)
      ultimately show ?thesis by simp
    qed
    with True show ?thesis
      unfolding lifecycle_turn_def by (simp add: settlement_turn [OF cfg lifecycle inv clock])
  next
    case False
    with due obtain ev evs where evs: "sm_events s = ev # evs" "le_time ev \<le> time"
      by (auto simp: order_due_def split: list.splits)
    have "le_time ev \<le> st_time st" if st: "st \<in> set (drop ?n ?sts)" for st
    proof -
      have n: "?n < length ?sts" using st by (cases "?n < length ?sts") auto
      have "st_time (?sts ! ?n) \<le> st_time st"
        using life n st by (intro settlements_after) (simp_all add: lifecycle_policy_ok_def)
      moreover have "le_time ev \<le> st_time (?sts ! ?n)"
        using False due evs n by (auto simp: settlement_due_def)
      ultimately show ?thesis by simp
    qed
    from event_turn [OF cfg lifecycle inv clock market evs this] False show ?thesis
      unfolding lifecycle_turn_def by auto
  qed
qed

text \<open>The drain completes, with nothing due.\<close>

lemma drain_lifecycle_ok:
  assumes cfg: "pair_config_ok cfg" and lifecycle: "sy_lifecycle (pc_policy cfg) = Some life" and market: "market_ok state"
  shows "study_inv cfg life s \<Longrightarrow> now \<le> time \<Longrightarrow> clock_ok life now s \<Longrightarrow>
    completes runtime_limit (\<lambda>s'. drains cfg life time s s' \<and> \<not> settlement_due life time s' \<and> \<not> order_due time inclusive s')
      (drain_lifecycle cfg life time inclusive state s)"
proof (induction "study_work life s" arbitrary: s now rule: less_induct)
  case less
  show ?case
  proof (cases "settlement_due life time s \<or> order_due time inclusive s")
    case False
    then show ?thesis
      using drains_refl [OF less.prems] by (subst drain_lifecycle.simps) simp
  next
    case True
    from lifecycle_turn_ok [OF cfg lifecycle less.prems(1,3) market True]
    obtain res where res: "lifecycle_turn cfg life time inclusive state s = Some res" and
      y: "yields runtime_limit (\<lambda>s'. drains cfg life time s s' \<and> study_work life s' < study_work life s) res"
      by (auto simp: completes_def)
    show ?thesis
    proof (cases res)
      case (Inl e)
      with True res y show ?thesis by (subst drain_lifecycle.simps) auto
    next
      case (Inr s1)
      then have s1: "drains cfg life time s s1" "study_work life s1 < study_work life s" using y by simp_all
      then obtain now1 where now1: "now1 \<le> time" "clock_ok life now1 s1" "study_inv cfg life s1" by (auto simp: drains_def)
      have "completes runtime_limit (\<lambda>s'. drains cfg life time s s' \<and> \<not> settlement_due life time s' \<and> \<not> order_due time inclusive s')
          (drain_lifecycle cfg life time inclusive state s1)"
        using drains_trans [OF s1(1)] by (intro completes_mono [OF less.hyps [OF s1(2) now1(3,1,2)]]) blast
      then show ?thesis using True res Inr by (subst drain_lifecycle.simps) auto
    qed
  qed
qed

end
