(* ===== verification/Pair_Study.thy ===== *)
theory Pair_Study
  imports Pair_Drain
begin

text \<open>
  The paired study as an observer: decisions open one attempt for each constraint, frames and checkpoints
  keep the invariant, the end of the observation settles what can be settled, and the report adds up.
  \<open>pair_study\<close> is the set of states a run can reach, with the time of its last frame.
\<close>

subsection \<open>Decisions\<close>

lemma add_order_simps [simp]:
  "(as @ [a])[length as := b] = as @ [b]"
  by simp

text \<open>The attempt a selected pair opens.\<close>

lemma new_attempt_ok:
  fixes g :: connection_generation and t :: int
  assumes cfg: "pair_config_ok cfg" and legs: "pc_legs cfg i = Some legs" and selected: "selected_ok cfg legs available p"
  defines "a \<equiv> new_pair_attempt i legs g p t"
  shows "attempt_ok cfg a" "fst (pa_reserve a) + snd (pa_reserve a) \<le> available"
    "l < 2 \<Longrightarrow> \<exists>fee. sy_fees (pc_policy cfg) (lt_market (pick l legs)) = Some fee \<and>
       pick l (pa_reserve a) = reserve_amount fee (sy_quantity_step (pc_policy cfg)) (pick l (pa_limit a)) (pa_quantity a)"
    "sy_quantity_step (pc_policy cfg) dvd pa_quantity a" "0 \<le> pick l (pa_limit a)" "pick l (pa_limit a) \<le> 10000"
proof -
  show "fst (pa_reserve a) + snd (pa_reserve a) \<le> available" "sy_quantity_step (pc_policy cfg) dvd pa_quantity a"
    using selected by (auto simp: selected_ok_def a_def new_pair_attempt_def)
  show "0 \<le> pick l (pa_limit a)" "pick l (pa_limit a) \<le> 10000"
    by (simp_all add: a_def new_pair_attempt_def pick_def price_raw_bounds)
  show "\<exists>fee. sy_fees (pc_policy cfg) (lt_market (pick l legs)) = Some fee \<and>
       pick l (pa_reserve a) = reserve_amount fee (sy_quantity_step (pc_policy cfg)) (pick l (pa_limit a)) (pa_quantity a)" if "l < 2"
    using selected that by (cases "l = 0") (auto simp: selected_ok_def a_def new_pair_attempt_def pick_def)
  have reserve: "0 \<le> cash_raw (sz_reservation (fst (sp_legs p)))" "0 \<le> cash_raw (sz_reservation (snd (sp_legs p)))"
  proof -
    obtain f0 f1 where fees: "sy_fees (pc_policy cfg) (lt_market (fst legs)) = Some f0" "sy_fees (pc_policy cfg) (lt_market (snd legs)) = Some f1"
      and eq: "cash_raw (sz_reservation (fst (sp_legs p))) =
          reserve_amount f0 (sy_quantity_step (pc_policy cfg)) (price_raw (sz_limit (fst (sp_legs p)))) (quantity_raw (sp_quantity p))"
        "cash_raw (sz_reservation (snd (sp_legs p))) =
          reserve_amount f1 (sy_quantity_step (pc_policy cfg)) (price_raw (sz_limit (snd (sp_legs p)))) (quantity_raw (sp_quantity p))"
      and q: "0 < quantity_raw (sp_quantity p)" "quantity_raw (sp_quantity p) \<le> quantity_limit"
        "sy_quantity_step (pc_policy cfg) dvd quantity_raw (sp_quantity p)"
      using selected by (auto simp: selected_ok_def)
    have q0: "0 \<le> quantity_raw (sp_quantity p)" using q by simp
    have "reserve_ok f0 (sy_quantity_step (pc_policy cfg)) (quantity_raw (sp_quantity p))"
      "reserve_ok f1 (sy_quantity_step (pc_policy cfg)) (quantity_raw (sp_quantity p))"
      using reserve_ok_step [OF pair_config_okD(2) [OF cfg] _ q0 q(2,3)] pair_config_okD(6) [OF cfg] fees by blast+
    then show "0 \<le> cash_raw (sz_reservation (fst (sp_legs p)))" "0 \<le> cash_raw (sz_reservation (snd (sp_legs p)))"
      unfolding eq using reserve_amount_bounds(1) price_raw_bounds by blast+
  qed
  then show "attempt_ok cfg a"
    using legs selected by (auto simp: attempt_ok_def selected_ok_def a_def new_pair_attempt_def pick_def)
qed

lemma open_attempt_ok:
  assumes cfg: "pair_config_ok cfg" and lifecycle: "sy_lifecycle (pc_policy cfg) = Some life" and inv: "study_inv cfg life s"
    and legs: "pc_legs cfg i = Some legs" and new: "i \<notin> sm_attempted s" and selected: "selected_ok cfg legs (sm_available s) p"
    and t: "0 \<le> time" "time \<le> int64_max"
  shows "yields runtime_limit (\<lambda>s'. study_inv cfg life s' \<and> extends time s s') (open_attempt cfg i legs time state p s)"
proof -
  define a where "a = new_pair_attempt i legs (the (ms_generation state)) p time"
  note a = new_attempt_ok [OF cfg legs selected, where g = "the (ms_generation state)" and t = time, folded a_def]
  have a0: "pa_fills a = (no_execution, no_execution)" "pa_pending_buys a = 0" "\<not> pa_exit_considered a" "pa_id a = i" "pa_legs a = legs"
    by (simp_all add: a_def new_pair_attempt_def)
  let ?n = "length (sm_attempts s)" and ?lat = "sy_latency (pc_policy cfg)"
  have lat: "0 \<le> fst ?lat" "0 \<le> snd ?lat" using cfg by (simp_all add: pair_config_ok_def study_policy_ok_def)
  define row where "row = Decision_Row time i (pa_quantity a) (pa_limit a)
    (cash_raw (sz_debit (fst (sp_legs p))) + cash_raw (sz_debit (snd (sp_legs p))))
    (pa_quantity a * 10000 - (cash_raw (sz_debit (fst (sp_legs p))) + cash_raw (sz_debit (snd (sp_legs p)))))
    (fst (pa_reserve a) + snd (pa_reserve a))"
  define s0 where "s0 = (emit_row row s)\<lparr>sm_available := sm_available s - (fst (pa_reserve a) + snd (pa_reserve a)),
    sm_reserved_total := sm_reserved_total s + (fst (pa_reserve a) + snd (pa_reserve a)),
    sm_attempted := insert i (sm_attempted s), sm_attempts := sm_attempts s @ [a]\<rparr>"
  have inv0: "study_inv cfg life s0"
    using add_attempt [of cfg life "emit_row row s" a] inv a(1,2) a0 new unfolding s0_def by (simp add: emit_row_def)
  have fields0: "sm_attempts s0 ! ?n = a" "?n < length (sm_attempts s0)" "sm_orders s0 = sm_orders s" "sm_events s0 = sm_events s"
    "sm_positions s0 = sm_positions s" "sm_settlement_index s0 = sm_settlement_index s"
    by (simp_all add: s0_def emit_row_def)
  have none: "live_buys (sm_orders s0) ?n = {}"
    using study_invD(1) [OF inv] by (force simp: fields0 live_buys_def live_order_def order_ok_def)
  define a1 where "a1 = a\<lparr>pa_pending_buys := pa_pending_buys a + 1\<rparr>"
  define s1 where "s1 = submit ?n 0 (pa_quantity a) (fst (pa_limit a)) (fst (pa_reserve a)) (time + fst ?lat) False (put_attempt ?n a1 s0)"
  define a2 where "a2 = a1\<lparr>pa_pending_buys := pa_pending_buys a1 + 1\<rparr>"
  define s2 where "s2 = submit ?n 1 (pa_quantity a) (snd (pa_limit a)) (snd (pa_reserve a)) (time + snd ?lat) False (put_attempt ?n a2 s1)"
  have q: "0 \<le> pa_quantity a" using a(1) by (simp add: attempt_ok_def)
  obtain f0 where f0: "sy_fees (pc_policy cfg) (lt_market (fst legs)) = Some f0"
    "fst (pa_reserve a) = reserve_amount f0 (sy_quantity_step (pc_policy cfg)) (fst (pa_limit a)) (pa_quantity a)"
    using a(3) [of 0] by auto
  obtain f1 where f1: "sy_fees (pc_policy cfg) (lt_market (snd legs)) = Some f1"
    "snd (pa_reserve a) = reserve_amount f1 (sy_quantity_step (pc_policy cfg)) (snd (pa_limit a)) (pa_quantity a)"
    using a(3) [of 1] by auto
  have lim: "0 \<le> fst (pa_limit a)" "fst (pa_limit a) \<le> 10000" "0 \<le> snd (pa_limit a)" "snd (pa_limit a) \<le> 10000"
    using a(5,6) [of 0] a(5,6) [of 1] by simp_all
  have inv1: "study_inv cfg life s1" if "time + fst ?lat \<le> int64_max"
    unfolding s1_def a1_def
    using submit_buy [OF inv0 fields0(2), where l = 0 and q = "pa_quantity a" and lim = "fst (pa_limit a)" and t = "time + fst ?lat"
        and fee = f0 and res = "fst (pa_reserve a)"] that q a(4) lim a0 f0 t lat none by (simp add: fields0)
  have fields1: "sm_attempts s1 ! ?n = a1" "?n < length (sm_attempts s1)"
    by (simp_all add: s1_def s0_def emit_row_def)
  have live1: "live_buys (sm_orders s1) ?n = {length (sm_orders s)}"
    using none by (simp add: s1_def live_buys_append fields0)
  have leg1: "or_leg (sm_orders s1 ! length (sm_orders s)) = 0" by (simp add: s1_def fields0)
  have inv2: "study_inv cfg life s2" if "time + fst ?lat \<le> int64_max" "time + snd ?lat \<le> int64_max" "\<not> lp_sequential life"
    unfolding s2_def a2_def
    using submit_buy [OF inv1 [OF that(1)] fields1(2), where l = 1 and q = "pa_quantity a" and lim = "snd (pa_limit a)" and t = "time + snd ?lat"
        and fee = f1 and res = "snd (pa_reserve a)"] that q a(4) lim a0 f1 t lat by (simp add: fields1 live1 leg1 a1_def)
  have ext1: "extends time s s1"
    unfolding s1_def using lat by (intro extends_trans [OF _ extends_submit]) (simp_all add: extends_def fields0 put_attempt_def)
  have ext2: "extends time s s2"
    unfolding s2_def using lat ext1
    by (intro extends_trans [OF _ extends_submit]) (auto intro: extends_trans [OF _ extends_frame(3)])
  define w0 where "w0 = (submit ?n 0 (pa_quantity a) (fst (pa_limit a)) (fst (pa_reserve a)) (time + fst ?lat) False (emit_row row s))
    \<lparr>sm_available := sm_available s - fst (pa_reserve a), sm_reserved_total := sm_reserved_total s + fst (pa_reserve a)\<rparr>"
  define w1 where "w1 = (if lp_sequential life then w0
      else submit ?n 1 (pa_quantity a) (snd (pa_limit a)) (snd (pa_reserve a)) (time + snd ?lat) False w0)
    \<lparr>sm_available := sm_available s - (fst (pa_reserve a) + snd (pa_reserve a)),
       sm_reserved_total := sm_reserved_total s + (fst (pa_reserve a) + snd (pa_reserve a))\<rparr>"
  have p0: "place_leg cfg time 0 (a, emit_row row s) =
      (if int64_max - fst ?lat < time then Inl ''arrival clock overflow'' else Inr (a1, w0))"
    by (simp add: place_leg_def lifecycle a1_def w0_def emit_row_def)
  have keep: "pa_reserve a1 = pa_reserve a" "pa_quantity a1 = pa_quantity a" "pa_limit a1 = pa_limit a"
    by (simp_all add: a1_def)
  have p1: "place_leg cfg time 1 (a1, w0) =
      (if int64_max - snd ?lat < time then Inl ''arrival clock overflow'' else Inr (if lp_sequential life then a1 else a2, w1))"
    by (simp add: place_leg_def lifecycle a2_def w0_def w1_def keep emit_row_def Let_def add.assoc diff_diff_eq)
  have final: "w1\<lparr>sm_attempted := insert i (sm_attempted w1), sm_attempts := sm_attempts w1 @ [if lp_sequential life then a1 else a2]\<rparr> =
      (if lp_sequential life then s1 else s2)"
    by (simp add: w1_def w0_def s1_def s2_def s0_def submit_def Let_def emit_row_def put_attempt_def)
  have "open_attempt cfg i legs time state p s =
      (if int64_max - fst ?lat < time \<or> int64_max - snd ?lat < time then Inl ''arrival clock overflow''
       else check_cash cfg (if lp_sequential life then s1 else s2))"
    unfolding open_attempt_def a_def [symmetric] Let_def row_def [symmetric] p0
    by (simp add: p1 [simplified] final lifecycle)
  then show ?thesis using inv1 inv2 ext1 ext2 cash_check [OF inv1] cash_check [OF inv2] by auto
qed


lemma fresh_find: "fresh_book cfg leg time state s \<Longrightarrow> \<exists>book. find_book (lt_market leg) state = Some book"
  by (auto simp: fresh_book_def split: option.splits)

text \<open>Both ways to quote return, and select a funded pair.\<close>

lemma quote_ok:
  assumes cfg: "pair_config_ok cfg" and inv: "study_inv cfg life s" and legs: "pc_legs cfg i = Some legs" and market: "market_ok state"
    and books: "fresh_book cfg (fst legs) time state s" "fresh_book cfg (snd legs) time state s"
  shows "completes runtime_limit (\<lambda>(selected, s'). same_but_counts s s' \<and>
      (\<forall>p. selected = Some p \<longrightarrow> selected_ok cfg legs (sm_available s) p))
    (if sy_optimal_sizing (pc_policy cfg) then optimal_quote cfg legs state s else Some (legacy_quote cfg legs state s))"
proof -
  note avail = available_bound [OF inv cfg]
  obtain b0 b1 where b: "find_book (lt_market (fst legs)) state = Some b0" "find_book (lt_market (snd legs)) state = Some b1"
    using books fresh_find by blast
  obtain r where r: "optimal_quote cfg legs state s = Some r" "yields (quote_error s) (quoted cfg legs s) r"
    using optimal_quote_ok [OF cfg legs market avail b] by blast
  obtain r' where r': "legacy_quote cfg legs state s = Inr r'" "quoted cfg legs s r'"
    using legacy_quote_ok [OF cfg legs market avail(1)] by blast
  have "yields runtime_limit (quoted cfg legs s) r"
    by (rule yields_errors [OF r(2)]) (rule quote_error_limit)
  then show ?thesis
    using r(1) r' by (auto simp: quoted_def completes_def yields_def split: sum.splits)
qed

lemma same_but_counts_fields:
  assumes "same_but_counts s s'"
  shows "sm_available s' = sm_available s" "sm_attempted s' = sm_attempted s" "extends t s s'" "extends t s' s'' \<Longrightarrow> extends t s s''"
proof -
  obtain d e f where s': "s' = s\<lparr>sm_declines := d, sm_sizing_evaluations := e, sm_sizing_pruned := f\<rparr>"
    using assms unfolding same_but_counts_def by blast
  show "sm_available s' = sm_available s" "sm_attempted s' = sm_attempted s" by (simp_all add: s')
  show ext: "extends t s s'" by (simp add: s' extends_def)
  show "extends t s' s'' \<Longrightarrow> extends t s s''" by (rule extends_trans [OF ext])
qed

lemma sim_decide_ok:
  assumes cfg: "pair_config_ok cfg" and lifecycle: "sy_lifecycle (pc_policy cfg) = Some life" and inv: "study_inv cfg life s"
    and legs: "pc_legs cfg i \<noteq> None" and new: "i \<notin> sm_attempted s"
    and t: "0 \<le> time" "time \<le> int64_max" and market: "market_ok state"
  shows "completes runtime_limit (\<lambda>s'. study_inv cfg life s' \<and> extends time s s') (sim_decide cfg time state i s)"
proof -
  let ?s = "s\<lparr>sm_evaluated := sm_evaluated s + 1\<rparr>"
  obtain pair where pair: "pc_legs cfg i = Some pair" using legs by auto
  have inv': "study_inv cfg life ?s" using inv by simp
  have counted: "extends time s' s'' \<Longrightarrow> extends time s s''" if "extends time s s'" for s' s''
    using extends_trans [OF that] .
  have ext: "extends time s ?s" by (simp add: extends_def)
  have declined: "study_inv cfg life (decline reason ?s) \<and> extends time s (decline reason ?s)" for reason
    using inv' extends_trans [OF ext extends_frame(2)] by simp
  show ?thesis
  proof (cases "\<not> fresh_book cfg (fst pair) time state ?s \<or> \<not> fresh_book cfg (snd pair) time state ?s \<or>
      lt_market (fst pair) \<in> sm_settled_markets ?s \<or> lt_market (snd pair) \<in> sm_settled_markets ?s")
    case True
    then show ?thesis using declined pair lifecycle by (auto simp: sim_decide_def Let_def)
  next
    case False
    have "completes runtime_limit (\<lambda>s'. study_inv cfg life s' \<and> extends time s s')
        (run_then (if sy_optimal_sizing (pc_policy cfg) then optimal_quote cfg pair state ?s else Some (legacy_quote cfg pair state ?s))
          (\<lambda>(selected, s). case selected of None \<Rightarrow> Some (Inr s)
            | Some selected \<Rightarrow> Some (open_attempt cfg i pair time state selected s)))"
    proof (rule completes_then [OF quote_ok [OF cfg inv' pair market]])
      show "fresh_book cfg (fst pair) time state ?s" "fresh_book cfg (snd pair) time state ?s" using False by auto
      fix r :: "sized_pair option \<times> simulation"
      assume r: "case r of (selected, s') \<Rightarrow> same_but_counts ?s s' \<and> (\<forall>p. selected = Some p \<longrightarrow> selected_ok cfg pair (sm_available ?s) p)"
      obtain selected s1 where r1: "r = (selected, s1)" by (cases r)
      have s1: "same_but_counts ?s s1" using r r1 by simp
      note f = same_but_counts_fields [OF s1]
      have inv1: "study_inv cfg life s1" by (rule study_inv_cong(2) [OF inv' s1])
      have ext1: "extends time s s1" by (rule extends_trans [OF ext f(3)])
      show "completes runtime_limit (\<lambda>s'. study_inv cfg life s' \<and> extends time s s')
        (case r of (selected, s) \<Rightarrow> case selected of None \<Rightarrow> Some (Inr s)
          | Some selected \<Rightarrow> Some (open_attempt cfg i pair time state selected s))"
      proof (cases selected)
        case None
        with inv1 ext1 r1 show ?thesis by simp
      next
        case (Some p)
        have "selected_ok cfg pair (sm_available s1) p" using r r1 Some f(1) by simp
        moreover have "i \<notin> sm_attempted s1" using new f(2) by simp
        ultimately have "yields runtime_limit (\<lambda>s'. study_inv cfg life s' \<and> extends time s1 s') (open_attempt cfg i pair time state p s1)"
          by (intro open_attempt_ok [OF cfg lifecycle inv1 pair _ _ t])
        then have "yields runtime_limit (\<lambda>s'. study_inv cfg life s' \<and> extends time s s') (open_attempt cfg i pair time state p s1)"
          by (rule yields_mono) (use extends_trans [OF ext1] in blast)
        with Some r1 show ?thesis by simp
      qed
    qed
    with False pair lifecycle show ?thesis by (auto simp: sim_decide_def Let_def)
  qed
qed

lemma decide_each_ok:
  assumes cfg: "pair_config_ok cfg" and lifecycle: "sy_lifecycle (pc_policy cfg) = Some life"
    and t: "0 \<le> time" "time \<le> int64_max" and market: "market_ok state"
  shows "study_inv cfg life s \<Longrightarrow> \<forall>i \<in> set ids. pc_legs cfg i \<noteq> None \<Longrightarrow>
    completes runtime_limit (\<lambda>s'. study_inv cfg life s' \<and> extends time s s') (decide_each cfg time state ids s)"
proof (induction ids arbitrary: s)
  case Nil
  then show ?case by (simp add: extends_refl)
next
  case (Cons i ids)
  have first: "completes runtime_limit (\<lambda>s'. study_inv cfg life s' \<and> extends time s s')
      (if i \<notin> sm_attempted s then sim_decide cfg time state i s else Some (Inr s))"
    using sim_decide_ok [OF cfg lifecycle Cons.prems(1) _ _ t market, of i] Cons.prems by (auto simp: extends_refl)
  show ?case
    unfolding decide_each.simps
  proof (rule completes_then [OF first])
    fix s1 assume s1: "study_inv cfg life s1 \<and> extends time s s1"
    have "completes runtime_limit (\<lambda>s'. study_inv cfg life s' \<and> extends time s1 s') (decide_each cfg time state ids s1)"
      using Cons.IH s1 Cons.prems(2) by simp
    then show "completes runtime_limit (\<lambda>s'. study_inv cfg life s' \<and> extends time s s') (decide_each cfg time state ids s1)"
      using s1 by (elim completes_mono) (auto intro: extends_trans)
  qed
qed


subsection \<open>Frames\<close>

text \<open>The invariant with the clock: what holds after a frame at \<open>time\<close>.\<close>

definition study_at :: "pair_config \<Rightarrow> lifecycle_policy \<Rightarrow> int \<Rightarrow> simulation \<Rightarrow> bool" where
  "study_at cfg life time s \<longleftrightarrow> study_inv cfg life s \<and> (\<exists>now \<le> time. clock_ok life now s)"

lemma study_at_later: "study_at cfg life t s \<Longrightarrow> t \<le> t' \<Longrightarrow> study_at cfg life t' s"
  unfolding study_at_def by (meson order_trans)

lemma extends_clock:
  assumes "clock_ok life now s" "now \<le> t" "extends t s s'"
  shows "clock_ok life now s'"
proof -
  have "now \<le> le_time ev" if "ev \<in> set (sm_events s')" for ev
    using assms that by (fastforce simp: clock_ok_def extends_def)
  then show ?thesis using assms by (simp add: clock_ok_def extends_def)
qed

lemma extends_answered:
  assumes "extends t s s'" "k < length (sm_orders s)" "answered_by cfg life k u s"
  shows "answered_by cfg life k u s'"
  using assms by (fastforce simp: extends_def answered_by_def nth_append)

lemma sim_before_ok:
  assumes cfg: "pair_config_ok cfg" and lifecycle: "sy_lifecycle (pc_policy cfg) = Some life" and market: "market_ok state"
    and at: "study_at cfg life t s" "t \<le> time"
  shows "completes runtime_limit (\<lambda>s'. study_at cfg life time s' \<and> drains cfg life time s s' \<and>
      \<not> settlement_due life time s' \<and> \<not> order_due time False s') (sim_before cfg time state s)"
proof -
  obtain now where now: "now \<le> time" "clock_ok life now s" "study_inv cfg life s" using study_at_later [OF at] by (auto simp: study_at_def)
  show ?thesis
    using drain_lifecycle_ok [OF cfg lifecycle market now(3,1,2), of False]
    by (auto simp: sim_before_def sim_drain_def lifecycle study_at_def drains_def elim: completes_mono)
qed

lemma sim_after_ok:
  assumes cfg: "pair_config_ok cfg" and lifecycle: "sy_lifecycle (pc_policy cfg) = Some life" and market: "market_ok state"
    and at: "study_at cfg life t s" "t \<le> fr_time frame" and time: "0 \<le> fr_time frame" "fr_time frame \<le> int64_max"
  shows "completes runtime_limit (\<lambda>s'. study_at cfg life (fr_time frame) s' \<and> extends (fr_time frame) s s') (sim_after cfg frame state s)"
proof -
  obtain now where now: "now \<le> fr_time frame" "clock_ok life now s" "study_inv cfg life s" using study_at_later [OF at] by (auto simp: study_at_def)
  let ?t = "fr_time frame"
  have keep: "study_at cfg life ?t s' \<and> extends ?t s s'" if "study_inv cfg life s' \<and> extends ?t s s'" for s'
    using that now extends_clock [OF now(2,1)] by (auto simp: study_at_def)
  have same: "study_at cfg life ?t s \<and> extends ?t s s" using now by (auto simp: study_at_def extends_refl)
  show ?thesis
  proof (cases "fr_market_id frame = None \<or> \<not> fr_applied frame")
    case True
    then show ?thesis using same by (auto simp: sim_after_def split: option.splits)
  next
    case False
    then obtain market where m: "fr_market_id frame = Some market" "fr_applied frame" by auto
    let ?s = "s\<lparr>sm_last_update := (sm_last_update s)(market \<mapsto> ?t)\<rparr>"
    have inv': "study_inv cfg life ?s" using now(3) by simp
    have ext: "extends ?t s ?s" by (simp add: extends_def)
    show ?thesis
    proof (cases "pc_dependencies cfg market")
      case None
      then show ?thesis using m keep [of ?s] inv' ext by (simp add: sim_after_def)
    next
      case (Some ids)
      then have "\<forall>i \<in> set ids. pc_legs cfg i \<noteq> None" using cfg by (simp add: pair_config_ok_def)
      from decide_each_ok [OF cfg lifecycle time \<open>market_ok state\<close> inv' this]
      have "completes runtime_limit (\<lambda>s'. study_at cfg life ?t s' \<and> extends ?t s s') (decide_each cfg ?t state ids ?s)"
        by (rule completes_mono) (use keep extends_trans [OF ext] in blast)
      then show ?thesis using m Some by (simp add: sim_after_def)
    qed
  qed
qed

end
