(* ===== verification/Pair_Example.thy ===== *)
theory Pair_Example
  imports Pair_Study
begin

text \<open>
  A small study for the witnesses: one implication between two markets, both legs at one cent, a hundred
  centicontracts deep, with both orders sent at once.
\<close>

definition pair_life :: lifecycle_policy where
  "pair_life = \<lparr>lp_sequential = False, lp_reverse_legs = False, lp_response_latency = (5, 5), lp_completion_timeout = 0,
     lp_completion_loss_limit = 0, lp_maximum_completion_orders = 0, lp_settlements = []\<rparr>"

definition pair_policy :: study_policy where
  "pair_policy = \<lparr>sy_lifecycle = Some pair_life, sy_residual_exit = None, sy_optimal_sizing = False, sy_max_sizing_evaluations = 1,
     sy_capital = 1000000, sy_operating_cost = 0, sy_quantity_cap = 100, sy_quantity_step = 100, sy_min_margin = 0,
     sy_max_age = 1000, sy_latency = (1, 1), sy_reject = (False, False), sy_fill_bps = 10000,
     sy_fees = (\<lambda>m. Some \<lparr>coefficient_ppm = 0, balance_quantum_micro = 100\<rparr>)\<rparr>"

definition cent_legs :: leg_pair where
  "cent_legs = (\<lparr>lt_market = 1, lt_outcome = Outcome_Yes\<rparr>, \<lparr>lt_market = 2, lt_outcome = Outcome_No\<rparr>)"

definition pair_cfg :: pair_config where
  "pair_cfg = \<lparr>pc_policy = pair_policy, pc_legs = [7 \<mapsto> cent_legs], pc_dependencies = [2 \<mapsto> [7], 1 \<mapsto> [7]]\<rparr>"

definition pair_books :: market_state where
  "pair_books = \<lparr>ms_generation = Some 1, ms_connected = True,
     ms_books = [(1, \<lparr>ob_state = Valid, ob_stream_id = Some 1, ob_last_sequence = Some 1, ob_bids = [], ob_asks = [(100, 100)]\<rparr>),
       (2, \<lparr>ob_state = Valid, ob_stream_id = Some 2, ob_last_sequence = Some 1, ob_bids = [(9900, 100)], ob_asks = []\<rparr>)],
     ms_scope = Per_Book, ms_stream_sequences = []\<rparr>"

definition pair_frame :: "market_id \<Rightarrow> int \<Rightarrow> replay_frame" where
  "pair_frame m t = \<lparr>fr_time = t, fr_market_id = Some m, fr_applied = True, fr_trade = None, fr_observed_wall = None\<rparr>"

definition pair_start :: simulation where
  "pair_start = new_simulation 1000000 (reserve_positions 1 no_positions)"

lemma pair_books_ok: "market_ok pair_books"
  by (simp add: market_ok_def pair_books_def omap_ok_def book_ok_def levels_ok_def limits)

lemma pair_made: "make_execution_simulation (registry_of [example_definition]) pair_policy True = Inr (pair_cfg, pair_start)"
  by (simp add: make_execution_simulation_def make_simulation_def example_registry registry_sorted_ids_def registry_find_def
      compile_constraint_legs_def compile_pair_def example_compiled_def pair_policy_def pair_life_def pair_cfg_def cent_legs_def
      pair_start_def registry_size_def)

definition pair_seen :: simulation where
  "pair_seen = pair_start\<lparr>sm_last_update := [2 \<mapsto> 10], sm_evaluated := 1, sm_declines := [''stale_or_missing_book'' \<mapsto> 1]\<rparr>"

lemma pair_first: "sim_after pair_cfg (pair_frame 2 10) pair_books pair_start = Some (Inr pair_seen)"
  by (simp add: sim_after_def pair_frame_def pair_start_def pair_cfg_def sim_decide_def fresh_book_def cent_legs_def
      new_simulation_def pair_seen_def decline_def)


text \<open>The quote of either leg, and its reserve.\<close>

definition cent_quote :: execution where
  "cent_quote = \<lparr>ex_quantity = 100, ex_notional = 10000, ex_debit = 10000, ex_credit = 0, ex_worst_price = 100, ex_levels = 1\<rparr>"

lemma hundred_quantity: "quantity_value 100 = quantity_of 100"
  by (simp add: quantity_value_def quantity_from_raw_def)

lemma cent_price: "the (price_from_raw 100) = price_of 100"
  by (simp add: price_from_raw_def limits)

definition pair_ready :: simulation where
  "pair_ready = pair_seen\<lparr>sm_last_update := (sm_last_update pair_seen)(1 \<mapsto> 11), sm_evaluated := 2\<rparr>"

lemma pair_walk:
  "leg \<in> {fst cent_legs, snd cent_legs} \<Longrightarrow> quote_walk pair_cfg pair_books pair_ready leg 100 = Inr cent_quote"
  using cent_charge
  by (auto simp: quote_walk_def walk_book_def cent_legs_def pair_books_def find_book_def visit_levels_def entry_level_def walk_level_def
      leg_price_def walk_key_def consumed_at_def pair_ready_def pair_seen_def pair_start_def new_simulation_def walk_available_def
      quantity_limit_def pair_cfg_def pair_policy_def walk_buy_level_def market_fee_def hundred_quantity cent_price no_execution_def cent_quote_def Let_def)


lemma pair_reserve:
  "leg \<in> {fst cent_legs, snd cent_legs} \<Longrightarrow> order_reserve pair_cfg leg 100 100 = Inr 10101"
  by (auto simp: order_reserve_def market_fee_def pair_cfg_def pair_policy_def hundred_quantity cent_price buy_reservation_eq
      reserve_ok_def policy_ok_def reserve_amount_def trade_fee_def)

text \<open>The second frame makes both books fresh: the pair is bought, and both orders are on their way.\<close>

definition pair_selected :: sized_pair where
  "pair_selected = \<lparr>sp_quantity = quantity_of 100, sp_legs = (sized_leg_of cent_quote 10101, sized_leg_of cent_quote 10101),
     sp_payout_floor = cash_at 1000000, sp_net_margin = cash_at 980000\<rparr>"

lemma pair_quoted: "legacy_quote pair_cfg cent_legs pair_books pair_ready = Inr (Some pair_selected, pair_ready)"
proof -
  have walks: "quote_walk pair_cfg pair_books pair_ready (fst cent_legs) 100 = Inr cent_quote"
    "quote_walk pair_cfg pair_books pair_ready (snd cent_legs) 100 = Inr cent_quote"
    "order_reserve pair_cfg (fst cent_legs) 100 100 = Inr 10101" "order_reserve pair_cfg (snd cent_legs) 100 100 = Inr 10101"
    using pair_walk pair_reserve by simp_all
  have fields: "ex_quantity cent_quote = 100" "ex_debit cent_quote = 10000" "ex_worst_price cent_quote = 100"
    "sy_quantity_step (pc_policy pair_cfg) = 100" "sy_quantity_cap (pc_policy pair_cfg) = 100" "sy_min_margin (pc_policy pair_cfg) = 0"
    "sm_available pair_ready = 1000000"
    by (simp_all add: cent_quote_def pair_cfg_def pair_policy_def pair_ready_def pair_seen_def pair_start_def new_simulation_def)
  show ?thesis
    by (simp add: legacy_quote_def quote_both_def walks fields fund_quote_def reserve_both_def priced_quote_def Let_def
        pair_selected_def hundred_quantity)
qed

lemma pair_second:
  obtains s where "sim_after pair_cfg (pair_frame 1 11) pair_books pair_seen = Some (Inr s)"
    "sm_events s = [\<lparr>le_time = 12, le_order = 0, le_response = False\<rparr>, \<lparr>le_time = 12, le_order = 1, le_response = False\<rparr>]"
    "length (sm_orders s) = 2" "sm_orders s ! 0 = \<lparr>or_attempt = 0, or_leg = 0, or_quantity = 100, or_limit = 100, or_reserve = 10101,
      or_fill = no_execution, or_arrived = False, or_responded = False, or_sell = False\<rparr>"
    "length (sm_attempts s) = 1" "sm_available s = 979798"
proof -
  have a: "pa_quantity a = 100" "pa_limit a = (100, 100)" "pa_reserve a = (10101, 10101)"
    if "a = new_pair_attempt 7 cent_legs g pair_selected t" for a g t
    by (simp_all add: that new_pair_attempt_def pair_selected_def sized_leg_of_def cent_quote_def cent_price)
  let ?s = "pair_seen\<lparr>sm_last_update := (sm_last_update pair_seen)(1 \<mapsto> 11)\<rparr>"
  have ready: "?s\<lparr>sm_evaluated := sm_evaluated ?s + 1\<rparr> = pair_ready"
    by (simp add: pair_ready_def pair_seen_def)
  have fresh: "fresh_book pair_cfg (fst cent_legs) 11 pair_books pair_ready" "fresh_book pair_cfg (snd cent_legs) 11 pair_books pair_ready"
    by (simp_all add: fresh_book_def pair_books_def find_book_def cent_legs_def pair_cfg_def pair_policy_def pair_ready_def pair_seen_def)
  have cfg: "pc_legs pair_cfg 7 = Some cent_legs" "\<not> sy_optimal_sizing (pc_policy pair_cfg)" "sm_settled_markets pair_ready = {}"
    "pc_dependencies pair_cfg 1 = Some [7]" "7 \<notin> sm_attempted ?s"
    by (simp_all add: pair_cfg_def pair_policy_def pair_ready_def pair_seen_def pair_start_def new_simulation_def)
  have "sim_decide pair_cfg 11 pair_books 7 ?s = Some (open_attempt pair_cfg 7 cent_legs 11 pair_books pair_selected pair_ready)"
    unfolding sim_decide_def ready Let_def by (simp add: cfg fresh pair_quoted)
  then have after: "sim_after pair_cfg (pair_frame 1 11) pair_books pair_seen =
      run_then (Some (open_attempt pair_cfg 7 cent_legs 11 pair_books pair_selected pair_ready)) (decide_each pair_cfg 11 pair_books [])"
    using cfg(4,5) by (simp add: sim_after_def pair_frame_def)
  obtain s where "open_attempt pair_cfg 7 cent_legs 11 pair_books pair_selected pair_ready = Inr s"
    "sm_events s = [\<lparr>le_time = 12, le_order = 0, le_response = False\<rparr>, \<lparr>le_time = 12, le_order = 1, le_response = False\<rparr>]"
    "length (sm_orders s) = 2" "sm_orders s ! 0 = \<lparr>or_attempt = 0, or_leg = 0, or_quantity = 100, or_limit = 100, or_reserve = 10101,
      or_fill = no_execution, or_arrived = False, or_responded = False, or_sell = False\<rparr>"
    "length (sm_attempts s) = 1" "sm_available s = 979798"
    by (simp add: open_attempt_def a [OF refl] place_leg_def pair_cfg_def pair_policy_def pair_life_def check_cash_def emit_row_def
        pair_ready_def pair_seen_def pair_start_def new_simulation_def submit_def event_before_def limits Let_def)
  then show ?thesis using that after by simp
qed

end
