(* ===== verification/Pair_Runs.thy ===== *)
theory Pair_Runs
  imports Pair_Example
begin

text \<open>
  Runs of the paired study under a lifecycle policy, from its construction to its report: what every reachable
  state keeps, that every call completes, that orders are answered, and that the report adds up.
\<close>

subsection \<open>Construction\<close>

text \<open>Every leg of the registry trades in a market whose fees the policy knows.\<close>

definition priced_registry :: "constraint_registry \<Rightarrow> study_policy \<Rightarrow> bool" where
  "priced_registry constraints policy \<longleftrightarrow>
     (\<forall>i c. registry_find i constraints = Some c \<longrightarrow> (\<forall>leg \<in> set (cc_templates c). sy_fees policy (lt_market leg) \<noteq> None))"

definition compiled_ok :: "study_policy \<Rightarrow> constraint_id set \<Rightarrow> pair_config \<Rightarrow> bool" where
  "compiled_ok policy ids cfg \<longleftrightarrow> pc_policy cfg = policy \<and> dom (pc_legs cfg) \<subseteq> ids \<and>
     (\<forall>i legs. pc_legs cfg i = Some legs \<longrightarrow> sy_fees policy (lt_market (fst legs)) \<noteq> None \<and> sy_fees policy (lt_market (snd legs)) \<noteq> None) \<and>
     (\<forall>m js. pc_dependencies cfg m = Some js \<longrightarrow> (\<forall>j \<in> set js. pc_legs cfg j \<noteq> None))"

lemma compile_pair_legs:
  assumes "compile_pair policy legs = Inr pair"
  shows "fst pair \<in> set legs" "snd pair \<in> set legs"
proof -
  have two: "length (sort_key lt_market legs) = 2" using assms by (simp add: compile_pair_def split: if_splits)
  then have "sort_key lt_market legs ! 0 \<in> set (sort_key lt_market legs)" "sort_key lt_market legs ! 1 \<in> set (sort_key lt_market legs)"
    by (simp_all only: nth_mem)
  then have in0: "sort_key lt_market legs ! 0 \<in> set legs" and in1: "sort_key lt_market legs ! Suc 0 \<in> set legs" by simp_all
  have "pair = (sort_key lt_market legs ! Suc 0, sort_key lt_market legs ! 0) \<or> pair = (sort_key lt_market legs ! 0, sort_key lt_market legs ! Suc 0)"
    using assms by (auto simp: compile_pair_def Let_def split: if_splits option.splits)
  then show "fst pair \<in> set legs" "snd pair \<in> set legs" using in0 in1 by auto
qed

lemma dependencies_fold:
  assumes "\<And>m js. deps m = Some js \<Longrightarrow> \<forall>j \<in> set js. P j" "P i"
  shows "fold (\<lambda>market deps. deps(market \<mapsto> (case deps market of None \<Rightarrow> [] | Some ids \<Rightarrow> ids) @ [i])) ms deps m = Some js \<Longrightarrow> j \<in> set js \<Longrightarrow> P j"
  using assms
proof (induction ms arbitrary: deps)
  case (Cons market ms)
  show ?case
  proof (rule Cons.IH)
    show "fold (\<lambda>market deps. deps(market \<mapsto> (case deps market of None \<Rightarrow> [] | Some ids \<Rightarrow> ids) @ [i])) ms
        (deps(market \<mapsto> (case deps market of None \<Rightarrow> [] | Some ids \<Rightarrow> ids) @ [i])) m = Some js" "j \<in> set js"
      using Cons.prems(1,2) by (simp_all only: fold_simps)
    show "\<forall>j \<in> set ks. P j" if "(deps(market \<mapsto> (case deps market of None \<Rightarrow> [] | Some ids \<Rightarrow> ids) @ [i])) n = Some ks" for n ks
      using that Cons.prems(3,4) by (auto split: if_splits option.splits)
  qed (rule Cons.prems(4))
qed auto

lemma compile_step:
  assumes priced: "priced_registry constraints policy" and ok: "compiled_ok policy ids cfg" and i: "i \<in> ids"
  shows "yields (\<lambda>e. e = ''unsupported portfolio'') (compiled_ok policy ids) (compile_constraint_legs constraints i cfg)"
proof (cases "registry_find i constraints")
  case None
  with ok show ?thesis by (simp add: compile_constraint_legs_def)
next
  case (Some c)
  show ?thesis
  proof (cases "compile_pair (pc_policy cfg) (cc_templates c)")
    case (Inl e)
    then have "e = ''unsupported portfolio''" by (auto simp: compile_pair_def Let_def split: if_splits)
    with Some Inl show ?thesis by (simp add: compile_constraint_legs_def)
  next
    case (Inr legs)
    have fees: "sy_fees policy (lt_market (fst legs)) \<noteq> None" "sy_fees policy (lt_market (snd legs)) \<noteq> None"
      using priced Some compile_pair_legs [OF Inr] unfolding priced_registry_def by blast+
    define deps where "deps = fold (\<lambda>market deps. deps(market \<mapsto>
        (case deps market of None \<Rightarrow> [] | Some ids \<Rightarrow> ids) @ [i])) (cc_dependent_markets c) (pc_dependencies cfg)"
    have "((pc_legs cfg)(i \<mapsto> legs)) j \<noteq> None" if "deps m = Some js" "j \<in> set js" for m js j
    proof (rule dependencies_fold [OF _ _ that(1) [unfolded deps_def] that(2)])
      show "\<forall>j \<in> set ks. ((pc_legs cfg)(i \<mapsto> legs)) j \<noteq> None" if "pc_dependencies cfg n = Some ks" for n ks
        using ok that unfolding compiled_ok_def by simp
    qed simp
    moreover have "sy_fees policy (lt_market (fst legs')) \<noteq> None \<and> sy_fees policy (lt_market (snd legs')) \<noteq> None"
      if "((pc_legs cfg)(i \<mapsto> legs)) j = Some legs'" for j legs'
      using ok fees that unfolding compiled_ok_def by (metis fun_upd_other fun_upd_same option.inject)
    moreover have "dom ((pc_legs cfg)(i \<mapsto> legs)) \<subseteq> ids" using ok i unfolding compiled_ok_def by simp
    ultimately have "compiled_ok policy ids (cfg\<lparr>pc_legs := (pc_legs cfg)(i \<mapsto> legs), pc_dependencies := deps\<rparr>)"
    proof -
      have fields: "pc_policy (cfg\<lparr>pc_legs := L, pc_dependencies := deps\<rparr>) = pc_policy cfg"
        "pc_legs (cfg\<lparr>pc_legs := L, pc_dependencies := deps\<rparr>) = L"
        "pc_dependencies (cfg\<lparr>pc_legs := L, pc_dependencies := deps\<rparr>) = deps" for L
        by simp_all
      assume "\<And>m js j. deps m = Some js \<Longrightarrow> j \<in> set js \<Longrightarrow> ((pc_legs cfg)(i \<mapsto> legs)) j \<noteq> None"
        "\<And>j legs'. ((pc_legs cfg)(i \<mapsto> legs)) j = Some legs' \<Longrightarrow>
          sy_fees policy (lt_market (fst legs')) \<noteq> None \<and> sy_fees policy (lt_market (snd legs')) \<noteq> None"
        "dom ((pc_legs cfg)(i \<mapsto> legs)) \<subseteq> ids"
      then show ?thesis using ok unfolding compiled_ok_def fields by blast
    qed
    then show ?thesis using Some Inr by (simp add: compile_constraint_legs_def deps_def)
  qed
qed

text \<open>What a run is assumed to start from.\<close>

definition sane_study :: "constraint_registry \<Rightarrow> study_policy \<Rightarrow> bool" where
  "sane_study constraints policy \<longleftrightarrow> study_policy_ok policy \<and> priced_registry constraints policy \<and>
     registry_size constraints \<le> 46116860184 \<and> sy_lifecycle policy \<noteq> None"

lemma make_simulation_ok:
  assumes sane: "sane_study constraints policy" and made: "make_simulation constraints policy = Inr (cfg, s)"
    and lifecycle: "sy_lifecycle policy = Some life"
  shows "pair_config_ok cfg" "pc_policy cfg = policy" "study_at cfg life 0 s"
proof -
  let ?ids = "set (registry_sorted_ids constraints)"
  let ?cfg0 = "\<lparr>pc_policy = policy, pc_legs = Map.empty, pc_dependencies = Map.empty\<rparr>"
  have priced: "priced_registry constraints policy" and pol: "study_policy_ok policy" and size: "registry_size constraints \<le> 46116860184"
    using sane by (simp_all add: sane_study_def)
  have "compiled_ok policy ?ids ?cfg0" by (simp add: compiled_ok_def)
  then have "yields (\<lambda>e. e = ''unsupported portfolio'') (compiled_ok policy ?ids)
      (and_fold (compile_constraint_legs constraints) (registry_sorted_ids constraints) ?cfg0)"
    by (rule yields_fold [rotated]) (rule compile_step [OF priced])
  moreover obtain cfg' where "and_fold (compile_constraint_legs constraints) (registry_sorted_ids constraints) ?cfg0 = Inr cfg'"
    and eq: "cfg = cfg'" "s = new_simulation (sy_capital policy) (reserve_positions (registry_size constraints) no_positions)"
    using made lifecycle
    by (cases "and_fold (compile_constraint_legs constraints) (registry_sorted_ids constraints) ?cfg0") (auto simp: make_simulation_def)
  ultimately have ok: "compiled_ok policy ?ids cfg" by simp
  then show policy: "pc_policy cfg = policy" by (simp add: compiled_ok_def)
  show cfg: "pair_config_ok cfg" using ok pol unfolding pair_config_ok_def compiled_ok_def by blast
  let ?sp = "reserve_positions (registry_size constraints) no_positions"
  have len: "length (sp_positions ?sp) = registry_size constraints * 2"
    by (simp add: reserve_positions_def no_positions_def)
  have q: "ps_quantity (sp_positions ?sp ! j) = 0" "lots_of ?sp j = []" if "j < registry_size constraints * 2" for j
  proof -
    show q0: "ps_quantity (sp_positions ?sp ! j) = 0" using that by (simp add: reserve_positions_def no_positions_def empty_position_def)
    have "j < length (sp_positions ?sp)" using that len by simp
    with positions_okD(3,5) [OF reserve_ok] q0 show "lots_of ?sp j = []" using lots_quantity_0 by metis
  qed
  have "card (dom (pc_legs cfg)) \<le> card ?ids" using ok by (intro card_mono) (auto simp: compiled_ok_def)
  also have "\<dots> \<le> registry_size constraints"
    using card_length [of "registry_sorted_ids constraints"] by (simp add: registry_sorted_ids_def registry_size_def)
  finally have "2 * card (dom (pc_legs cfg)) \<le> length (sp_positions ?sp)" by (simp add: len)
  moreover have "finite (dom (pc_legs cfg))" using ok finite_subset [of _ ?ids] by (auto simp: compiled_ok_def)
  ultimately have "study_inv cfg life s"
    using pol size len q reserve_ok
    by (intro study_invI)
      (simp_all add: eq(2) new_simulation_def events_ok_def live_order_def cash_ok_def awaiting_def policy holdings_ok_def attempted_ok_def
        study_policy_ok_def cash_limit_def)
  moreover have "lifecycle_policy_ok life" using pol lifecycle by (simp add: study_policy_ok_def)
  then have "clock_ok life 0 s"
    using q len by (auto simp: clock_ok_def lots_before_def lifecycle_policy_ok_def eq(2) new_simulation_def)
  ultimately show "study_at cfg life 0 s" by (auto simp: study_at_def)
qed


subsection \<open>Runs\<close>

text \<open>
  The states of a run, with the time of its last frame: the driver calls \<open>before\<close> and \<open>after\<close> with the frames
  in order of time, \<open>start\<close> and \<open>checkpoint\<close> only write rows.
\<close>

inductive pair_study :: "constraint_registry \<Rightarrow> study_policy \<Rightarrow> pair_config \<Rightarrow> int \<Rightarrow> simulation \<Rightarrow> bool"
  for constraints policy cfg where
  construct: "make_execution_simulation constraints policy live = Inr (cfg, s) \<Longrightarrow> pair_study constraints policy cfg 0 s"
| start: "pair_study constraints policy cfg t s \<Longrightarrow> pair_study constraints policy cfg t (sim_start live s)"
| before: "pair_study constraints policy cfg t s \<Longrightarrow> t \<le> time \<Longrightarrow> time \<le> int64_max \<Longrightarrow> market_ok state \<Longrightarrow>
    sim_before cfg time state s = Some (Inr s') \<Longrightarrow> pair_study constraints policy cfg time s'"
| after: "pair_study constraints policy cfg t s \<Longrightarrow> t \<le> fr_time frame \<Longrightarrow> fr_time frame \<le> int64_max \<Longrightarrow> market_ok state \<Longrightarrow>
    sim_after cfg frame state s = Some (Inr s') \<Longrightarrow> pair_study constraints policy cfg (fr_time frame) s'"
| checkpoint: "pair_study constraints policy cfg t s \<Longrightarrow> sim_checkpoint cfg time s = Inr s' \<Longrightarrow> pair_study constraints policy cfg t s'"

lemma study_at_rows: "study_at cfg life t (emit_row row s) = study_at cfg life t s"
  by (simp add: study_at_def clock_ok_def emit_row_def)

lemma pair_study_at:
  assumes "pair_study constraints policy cfg t s" "sane_study constraints policy" "sy_lifecycle policy = Some life"
  shows "pair_config_ok cfg \<and> pc_policy cfg = policy \<and> 0 \<le> t \<and> study_at cfg life t s"
  using assms
proof (induction rule: pair_study.induct)
  case (construct live s)
  then have "make_simulation constraints policy = Inr (cfg, s)" by (simp add: make_execution_simulation_def split: if_splits)
  from make_simulation_ok [OF construct.prems(1) this construct.prems(2)] show ?case by simp
next
  case (start t s live)
  then show ?case by (simp add: sim_start_def study_at_rows)
next
  case (before t s time state s')
  then have "completes runtime_limit (\<lambda>s'. study_at cfg life time s' \<and> drains cfg life time s s' \<and>
      \<not> settlement_due life time s' \<and> \<not> order_due time False s') (sim_before cfg time state s)"
    by (intro sim_before_ok) auto
  with before show ?case by auto
next
  case (after t s frame state s')
  then have "completes runtime_limit (\<lambda>s'. study_at cfg life (fr_time frame) s' \<and> extends (fr_time frame) s s') (sim_after cfg frame state s)"
    by (intro sim_after_ok) auto
  with after show ?case by auto
next
  case (checkpoint t s time s')
  then obtain row where "s' = emit_row row s" by (auto simp: sim_checkpoint_def and_then_def split: sum.splits)
  with checkpoint show ?case by (simp add: study_at_rows)
qed


subsection \<open>The end of the observation\<close>

text \<open>After the end the live orders have lost their events; the rest of the invariant stays.\<close>

definition study_ended :: "pair_config \<Rightarrow> lifecycle_policy \<Rightarrow> simulation \<Rightarrow> bool" where
  "study_ended cfg life s \<longleftrightarrow> (\<exists>evs. study_inv cfg life (s\<lparr>sm_events := evs\<rparr>))"

lemma unobserved_events_eq:
  "\<exists>rows n. unobserved_events time evs s = s\<lparr>sm_events := [], sm_rows := rows, sm_unobserved := n\<rparr>"
proof (induction evs arbitrary: s)
  case Nil
  have "unobserved_events time [] s = s\<lparr>sm_events := [], sm_rows := sm_rows s, sm_unobserved := sm_unobserved s\<rparr>" by simp
  then show ?case by blast
next
  case (Cons ev evs)
  let ?s = "(emit_row (Unobserved_Event_Row (le_order ev + 1) (le_response ev) (le_time ev) time) s)\<lparr>sm_unobserved := sm_unobserved s + 1\<rparr>"
  obtain rows n where "unobserved_events time evs ?s = ?s\<lparr>sm_events := [], sm_rows := rows, sm_unobserved := n\<rparr>"
    using Cons.IH [of ?s] by blast
  then have "unobserved_events time (ev # evs) s = s\<lparr>sm_events := [], sm_rows := rows, sm_unobserved := n\<rparr>"
    by (simp add: emit_row_def)
  then show ?case by blast
qed

text \<open>A settlement does not look at the events.\<close>

lemma sim_settle_events:
  "sim_settle cfg st (s\<lparr>sm_events := evs\<rparr>) = map_option (map_sum id (\<lambda>s. s\<lparr>sm_events := evs\<rparr>)) (sim_settle cfg st s)"
proof (cases "settle_market st (sm_positions s)")
  case (Some res)
  show ?thesis
  proof (cases res)
    case (Inr r)
    obtain closed payout sp where r: "r = ((closed, payout), sp)" by (metis prod.collapse)
    from Some Inr r show ?thesis by (simp add: sim_settle_def check_cash_def emit_row_def)
  qed (simp add: sim_settle_def Some)
qed (simp add: sim_settle_def)

lemma ended_settle_ok:
  assumes ended: "study_ended cfg life s" and time: "st_time st \<le> int64_max" and before: "lots_before (st_time st) (sm_positions s)"
  shows "completes runtime_limit (\<lambda>s'. study_ended cfg life s' \<and> (\<forall>t. lots_before t (sm_positions s) \<longrightarrow> lots_before t (sm_positions s')))
    (sim_settle cfg st s)"
proof -
  obtain evs where inv: "study_inv cfg life (s\<lparr>sm_events := evs\<rparr>)" using ended by (auto simp: study_ended_def)
  have "completes runtime_limit (\<lambda>s'. study_inv cfg life s' \<and> sm_events s' = evs \<and>
      (\<forall>t. lots_before t (sm_positions s) \<longrightarrow> lots_before t (sm_positions s'))) (sim_settle cfg st (s\<lparr>sm_events := evs\<rparr>))"
    using completes_mono [OF sim_settle_ok [OF inv time]] before by simp
  then obtain res where res: "sim_settle cfg st s = Some res" and
    y: "yields runtime_limit (\<lambda>s'. study_inv cfg life s' \<and> sm_events s' = evs \<and>
      (\<forall>t. lots_before t (sm_positions s) \<longrightarrow> lots_before t (sm_positions s'))) (map_sum id (\<lambda>s. s\<lparr>sm_events := evs\<rparr>) res)"
    by (auto simp: sim_settle_events completes_def)
  show ?thesis
    using res y by (cases res) (auto simp: study_ended_def)
qed

lemma settle_rest_ok:
  "study_ended cfg life s \<Longrightarrow> lots_before now (sm_positions s) \<Longrightarrow> \<forall>st \<in> set sts. now \<le> st_time st \<and> st_time st \<le> int64_max \<Longrightarrow>
   completes runtime_limit (\<lambda>s'. study_ended cfg life s' \<and> lots_before now (sm_positions s')) (settle_rest cfg sts s)"
proof (induction sts arbitrary: s)
  case (Cons st sts)
  let ?s = "s\<lparr>sm_settlement_index := sm_settlement_index s + 1\<rparr>"
  obtain evs where "study_inv cfg life (s\<lparr>sm_events := evs\<rparr>)" using Cons.prems(1) by (auto simp: study_ended_def)
  then have "study_inv cfg life ((s\<lparr>sm_events := evs\<rparr>)\<lparr>sm_settlement_index := sm_settlement_index s + 1\<rparr>)" by simp
  moreover have "?s\<lparr>sm_events := evs\<rparr> = (s\<lparr>sm_events := evs\<rparr>)\<lparr>sm_settlement_index := sm_settlement_index s + 1\<rparr>" by simp
  ultimately have "study_inv cfg life (?s\<lparr>sm_events := evs\<rparr>)" by (simp only:)
  then have ended: "study_ended cfg life ?s" by (auto simp: study_ended_def)
  have before: "lots_before (st_time st) (sm_positions ?s)" using Cons.prems(2,3) lots_before_mono by auto
  have time: "st_time st \<le> int64_max" using Cons.prems(3) by simp
  show ?case
    unfolding settle_rest.simps
  proof (rule completes_then [OF ended_settle_ok [OF ended time before]])
    fix s1 assume "study_ended cfg life s1 \<and> (\<forall>t. lots_before t (sm_positions ?s) \<longrightarrow> lots_before t (sm_positions s1))"
    then show "completes runtime_limit (\<lambda>s'. study_ended cfg life s' \<and> lots_before now (sm_positions s')) (settle_rest cfg sts s1)"
      using Cons.prems(2,3) by (intro Cons.IH) simp_all
  qed
qed simp

lemma finish_positions_ok:
  assumes ok: "positions_ok sp" and time: "time \<le> int64_max" and before: "lots_before time sp"
  shows "yields runtime_limit (\<lambda>sp'. positions_ok sp' \<and> sp_positions sp' = sp_positions sp) (finish_positions time sp)"
proof -
  let ?held = "concat (map (lots_of sp) [0..<length (sp_positions sp)])"
  have "\<not> (\<exists>(q, d, t) \<in> set ?held. time < t)" using before by (fastforce simp: lots_before_def)
  then have error: "runtime_limit e" if "capital_error time ?held (sp_time sp) e" for e
    using that unfolding capital_error_def by (auto simp: runtime_limits)
  have "yields (capital_error time ?held (sp_time sp))
      (\<lambda>sp'. sp_positions sp' = sp_positions sp \<and> sp_lots sp' = sp_lots sp \<and> positions_ok sp' \<and>
        capital_total (sp_time sp') = capital_total (sp_time sp) + lots_capital time ?held) (finish_positions time sp)"
    using finish_positions_refine [OF ok time] by blast
  from yields_errors [OF this error] show ?thesis by (rule yields_mono) simp_all
qed

lemma sim_finish_ok:
  assumes cfg: "pair_config_ok cfg" and lifecycle: "sy_lifecycle (pc_policy cfg) = Some life" and market: "market_ok state"
    and at: "study_at cfg life t s" "t \<le> time" and time: "time \<le> int64_max"
  shows "completes runtime_limit (study_ended cfg life) (sim_finish cfg time state s)"
proof -
  obtain now where now: "now \<le> time" "clock_ok life now s" "study_inv cfg life s" using study_at_later [OF at] by (auto simp: study_at_def)
  have life: "lifecycle_policy_ok life" using cfg lifecycle by (simp add: pair_config_ok_def study_policy_ok_def)
  have drained: "completes runtime_limit (drains cfg life time s) (sim_drain cfg time True state s)"
    using drain_lifecycle_ok [OF cfg lifecycle market now(3,1,2), of True] by (auto simp: sim_drain_def lifecycle elim: completes_mono)
  show ?thesis
    unfolding sim_finish_def
  proof (rule completes_then [OF drained])
    fix s1 assume "drains cfg life time s s1"
    then obtain now1 where s1: "study_inv cfg life s1" "now1 \<le> time" "clock_ok life now1 s1" by (auto simp: drains_def)
    let ?s = "unobserved_events time (sm_events s1) s1"
    obtain rows n where eq: "?s = s1\<lparr>sm_events := [], sm_rows := rows, sm_unobserved := n\<rparr>" using unobserved_events_eq by blast
    have "study_inv cfg life ((s1\<lparr>sm_rows := rows\<rparr>)\<lparr>sm_unobserved := n\<rparr>)" using s1(1) by simp
    moreover have "?s\<lparr>sm_events := sm_events s1\<rparr> = (s1\<lparr>sm_rows := rows\<rparr>)\<lparr>sm_unobserved := n\<rparr>" by (simp add: eq)
    ultimately have ended: "study_ended cfg life ?s" unfolding study_ended_def by metis
    have before: "lots_before now1 (sm_positions ?s)" using s1(3) by (simp add: eq clock_ok_def)
    have rest: "\<forall>st \<in> set (drop (sm_settlement_index s1) (lp_settlements life)). now1 \<le> st_time st \<and> st_time st \<le> int64_max"
      using s1(3) life in_set_dropD by (fastforce simp: clock_ok_def lifecycle_policy_ok_def)
    have "completes runtime_limit (study_ended cfg life) (run_then (settle_rest cfg (drop (sm_settlement_index s1) (lp_settlements life)) ?s)
        (\<lambda>s. Some (and_then (finish_positions time (sm_positions s)) (\<lambda>positions. Inr (s\<lparr>sm_positions := positions\<rparr>)))))"
    proof (rule completes_then [OF settle_rest_ok [OF ended before rest]])
      fix s2 assume s2: "study_ended cfg life s2 \<and> lots_before now1 (sm_positions s2)"
      then obtain evs where inv: "study_inv cfg life (s2\<lparr>sm_events := evs\<rparr>)" by (auto simp: study_ended_def)
      note d = study_invD [OF inv]
      have ok: "positions_ok (sm_positions s2)" using d(6) by (simp add: holdings_ok_def)
      have "study_ended cfg life (s2\<lparr>sm_positions := sp\<rparr>)"
        if sp: "positions_ok sp \<and> sp_positions sp = sp_positions (sm_positions s2)" for sp
      proof -
        have "study_inv cfg life ((s2\<lparr>sm_positions := sp\<rparr>)\<lparr>sm_events := evs\<rparr>)"
          using d sp by (intro study_invI) (simp_all add: cash_ok_def holdings_ok_def attempted_ok_def)
        then show ?thesis by (auto simp: study_ended_def)
      qed
      then show "completes runtime_limit (study_ended cfg life)
          (Some (and_then (finish_positions time (sm_positions s2)) (\<lambda>positions. Inr (s2\<lparr>sm_positions := positions\<rparr>))))"
        using s2 lots_before_mono [OF _ s1(2)]
        by (simp, intro yields_and_then [OF finish_positions_ok [OF ok time]]) simp_all
    qed
    then show "completes runtime_limit (study_ended cfg life)
       (case sy_lifecycle (pc_policy cfg) of None \<Rightarrow> Some (Inr (unobserved_orders time (sm_pending s1) s1))
        | Some life \<Rightarrow> run_then (settle_rest cfg (drop (sm_settlement_index s1) (lp_settlements life)) ?s)
            (\<lambda>s. Some (and_then (finish_positions time (sm_positions s)) (\<lambda>positions. Inr (s\<lparr>sm_positions := positions\<rparr>)))))"
      by (simp add: lifecycle)
  qed
qed


subsection \<open>The ledger of a run\<close>

text \<open>
  Claim C14. In every state of a run the cash adds up to the micro-dollar, the reserves are those of the
  attempts, no order has cost more than its reserve, no constraint has two attempts, and of no leg is more held than
  was filled, nor more filled than was decided: the study never sells what it does not own.
\<close>

theorem pair_study_ledger:
  assumes "pair_study constraints policy cfg t s" "sane_study constraints policy"
  shows "0 \<le> sm_available s \<and>
    sm_reserved_total s = (\<Sum>a \<leftarrow> sm_attempts s. fst (pa_reserve a) + snd (pa_reserve a)) \<and>
    sm_available s + sm_reserved_total s - sm_unconfirmed_debit s + sm_unconfirmed_credit s =
      sy_capital policy - sm_spent s + sm_settlement_cash s + sm_exit_credit s \<and>
    (\<forall>order \<in> set (sm_orders s). 0 \<le> ex_debit (or_fill order) \<and> ex_debit (or_fill order) \<le> or_reserve order \<and>
       0 \<le> ex_quantity (or_fill order) \<and> ex_quantity (or_fill order) \<le> or_quantity order) \<and>
    distinct (map pa_id (sm_attempts s)) \<and>
    (\<forall>i < length (sm_attempts s). \<forall>l < 2. \<exists>q. held_quantity i l (sm_positions s) = Inr q \<and> 0 \<le> q \<and>
       q \<le> ex_quantity (pick l (pa_fills (sm_attempts s ! i))) \<and>
       ex_quantity (pick l (pa_fills (sm_attempts s ! i))) \<le> pa_quantity (sm_attempts s ! i))"
proof -
  obtain life where life: "sy_lifecycle policy = Some life" using assms(2) by (auto simp: sane_study_def)
  have at: "study_at cfg life t s" "pc_policy cfg = policy" using pair_study_at [OF assms life] by simp_all
  then have inv: "study_inv cfg life s" by (simp add: study_at_def)
  note d = study_invD [OF inv]
  have orders: "\<forall>order \<in> set (sm_orders s). order_ok cfg (sm_attempts s) order" using inv by (simp add: study_inv_def)
  have "\<exists>q. held_quantity i l (sm_positions s) = Inr q \<and> 0 \<le> q \<and>
       q \<le> ex_quantity (pick l (pa_fills (sm_attempts s ! i))) \<and>
       ex_quantity (pick l (pa_fills (sm_attempts s ! i))) \<le> pa_quantity (sm_attempts s ! i)"
    if "i < length (sm_attempts s)" "l < 2" for i l
    using held_ok(1,2,3) [OF inv that] d(2) [OF that(1)] that(2) by (simp add: attempt_ok_def)
  then show ?thesis using d(5,7) orders at(2) by (auto simp: cash_ok_def attempted_ok_def order_ok_def)
qed


text \<open>
  Claim C16. Every order is answered: an order without its response has an event under way, and once the
  clock passes the time of its response (the arrival and the response delay, if it has not arrived) the
  next \<open>before\<close> has delivered it.
\<close>

theorem pair_orders_answered:
  assumes "pair_study constraints policy cfg t s" "sane_study constraints policy" "sy_lifecycle policy = Some life"
    and "k < length (sm_orders s)" "\<not> or_responded (sm_orders s ! k)"
  shows "\<exists>ev \<in> set (sm_events s). le_order ev = k \<and>
    (\<forall>time state. t \<le> time \<and> market_ok state \<and>
       le_time ev + (if le_response ev then 0 else response_delay cfg life (sm_orders s ! k)) < time \<longrightarrow>
       completes runtime_limit (\<lambda>s'. or_responded (sm_orders s' ! k)) (sim_before cfg time state s))"
proof -
  have at: "pair_config_ok cfg" "sy_lifecycle (pc_policy cfg) = Some life" "study_at cfg life t s"
    using pair_study_at [OF assms(1-3)] assms(3) by simp_all
  then have inv: "study_inv cfg life s" by (simp add: study_at_def)
  have events: "events_ok (sm_orders s) (sm_events s)" by (rule study_invD(4) [OF inv])
  moreover have "live_order (sm_orders s) k" using assms(4,5) by (simp add: live_order_def)
  ultimately have "k \<in> le_order ` set (sm_events s)" by (simp add: events_ok_def)
  then obtain ev where ev: "ev \<in> set (sm_events s)" "le_order ev = k" by auto
  let ?u = "le_time ev + (if le_response ev then 0 else response_delay cfg life (sm_orders s ! k))"
  have "e = ev" if "e \<in> set (sm_events s)" "le_order e = k" for e
    using events that ev by (auto simp: events_ok_def distinct_map inj_on_def)
  then have answered: "answered_by cfg life k ?u s" by (auto simp: answered_by_def)
  have "completes runtime_limit (\<lambda>s'. or_responded (sm_orders s' ! k)) (sim_before cfg time state s)"
    if time: "t \<le> time" "market_ok state" "?u < time" for time state
  proof (rule completes_mono [OF sim_before_ok [OF at(1,2) time(2) at(3) time(1)]])
    fix s' assume s': "study_at cfg life time s' \<and> drains cfg life time s s' \<and> \<not> settlement_due life time s' \<and> \<not> order_due time False s'"
    then have inv': "study_inv cfg life s'" and by': "answered_by cfg life k ?u s'" and k: "k < length (sm_orders s')"
      using answered assms(4) by (auto simp: study_at_def drains_def)
    have e': "events_ok (sm_orders s') (sm_events s')" by (rule study_invD(4) [OF inv'])
    show "or_responded (sm_orders s' ! k)"
    proof (rule ccontr)
      assume "\<not> or_responded (sm_orders s' ! k)"
      then have "k \<in> le_order ` set (sm_events s')" using e' k by (simp add: events_ok_def live_order_def)
      then obtain e where e: "e \<in> set (sm_events s')" "le_order e = k" by auto
      then obtain h es where h: "sm_events s' = h # es" by (cases "sm_events s'") auto
      have "le_time h \<le> le_time e" using events_after_head [of h es e] e' e(1) h by (simp add: events_ok_def)
      moreover have "time \<le> le_time h" using s' h by (simp add: order_due_def)
      moreover have "0 \<le> response_delay cfg life (sm_orders s' ! k)"
      proof -
        have "order_ok cfg (sm_attempts s') (sm_orders s' ! k)" by (rule study_invD(1) [OF inv' k])
        then show ?thesis using at(1,2)
          by (auto simp: response_delay_def order_ok_def pair_config_ok_def study_policy_ok_def lifecycle_policy_ok_def residual_policy_ok_def pick_def)
      qed
      then have "le_time e \<le> ?u" using by' e by (auto simp: answered_by_def split: if_splits)
      ultimately show False using time(3) by simp
    qed
  qed
  with ev show ?thesis by blast
qed


subsection \<open>The report\<close>

lemma payout_floor_eq:
  "\<forall>a \<in> set as. 0 \<le> matched_payout a \<Longrightarrow> floor \<le> cash_limit \<Longrightarrow> payout_floor as floor =
     (if floor + (\<Sum>a \<leftarrow> as. matched_payout a) \<le> cash_limit then Inr (floor + (\<Sum>a \<leftarrow> as. matched_payout a))
      else Inl ''aggregate payout exceeds study bound'')"
proof (induction as arbitrary: floor)
  case (Cons a as)
  have "0 \<le> (\<Sum>a \<leftarrow> as. matched_payout a)" using Cons.prems(1) by (intro sum_list_nonneg) auto
  then show ?case using Cons by (auto simp: algebra_simps)
qed simp

lemma ended_invD:
  assumes "study_ended cfg life s"
  shows "check_cash cfg s = Inr s" "sm_reserved_total s = (\<Sum>a \<leftarrow> sm_attempts s. fst (pa_reserve a) + snd (pa_reserve a))"
    "sm_unconfirmed_debit s = (\<Sum>k \<in> awaiting (sm_orders s). ex_debit (or_fill (sm_orders s ! k)))"
    "sm_unconfirmed_credit s = (\<Sum>k \<in> awaiting (sm_orders s). ex_credit (or_fill (sm_orders s ! k)))"
    "\<forall>a \<in> set (sm_attempts s). 0 \<le> matched_payout a"
proof -
  obtain evs where inv: "study_inv cfg life (s\<lparr>sm_events := evs\<rparr>)" using assms by (auto simp: study_ended_def)
  note d = study_invD [OF inv]
  show "check_cash cfg s = Inr s" by (rule check_cash_same [OF cash_check [OF inv]]) simp_all
  have "\<forall>a \<in> set (sm_attempts s). attempt_ok cfg a" using inv by (simp add: study_inv_def)
  then show "\<forall>a \<in> set (sm_attempts s). 0 \<le> matched_payout a" using attempt_fills by (fastforce simp: matched_payout_def)
  show "sm_reserved_total s = (\<Sum>a \<leftarrow> sm_attempts s. fst (pa_reserve a) + snd (pa_reserve a))"
    "sm_unconfirmed_debit s = (\<Sum>k \<in> awaiting (sm_orders s). ex_debit (or_fill (sm_orders s ! k)))"
    "sm_unconfirmed_credit s = (\<Sum>k \<in> awaiting (sm_orders s). ex_credit (or_fill (sm_orders s ! k)))"
    using d(5) by (simp_all add: cash_ok_def)
qed

lemma report_lifecycle_eq:
  assumes ended: "study_ended cfg life s"
  shows "\<exists>r. report_lifecycle cfg s = Inr r \<and>
    lr_reserved r = sm_reserved_total s \<and> lr_unsettled r = unsettled_lots (sm_positions s) \<and>
    lr_cash r = sm_available s + lr_reserved r - sm_unconfirmed_debit s + sm_unconfirmed_credit s \<and>
    lr_complete r = (lr_unsettled r = 0 \<and> (\<forall>order \<in> set (sm_orders s). or_responded order) \<and> lr_reserved r = 0) \<and>
    (lr_complete r \<longrightarrow> lr_cash r = sm_available s) \<and>
    lr_net_pnl r = (if lr_complete r then Some (sm_available s - sy_capital (pc_policy cfg) - sy_operating_cost (pc_policy cfg)) else None)"
proof -
  note e = ended_invD [OF ended]
  have cash: "sy_capital (pc_policy cfg) - sm_spent s + sm_settlement_cash s + sm_exit_credit s =
      sm_available s + sm_reserved_total s - sm_unconfirmed_debit s + sm_unconfirmed_credit s"
    using e(1) by (simp add: check_cash_def split: if_splits)
  have "awaiting (sm_orders s) = {}" if "\<forall>order \<in> set (sm_orders s). or_responded order"
    using that by (auto simp: awaiting_def live_order_def)
  then have none: "sm_unconfirmed_debit s = 0" "sm_unconfirmed_credit s = 0" if "\<forall>order \<in> set (sm_orders s). or_responded order"
    using that e(3,4) by simp_all
  have unknown: "filter (\<lambda>order. \<not> or_responded order) (sm_orders s) = [] \<longleftrightarrow> (\<forall>order \<in> set (sm_orders s). or_responded order)"
    by (simp add: filter_empty_conv)
  show ?thesis
    using e(1,2) cash none by (auto simp: report_lifecycle_def Let_def unknown)
qed

text \<open>
  Claim C18. After the end of a run the report adds up: it fails only when the guaranteed payouts exceed the
  study bound; the cash it shows is the available cash, the reserves and what is under way; and a profit
  is reported exactly when every order is answered, every lot settled and no cash reserved, and is then the
  available cash less capital and operating cost.
\<close>

theorem pair_report_exact:
  assumes "pair_study constraints policy cfg t s" "sane_study constraints policy" "t \<le> time" "time \<le> int64_max" "market_ok state"
    and "sim_finish cfg time state s = Some (Inr s')"
  shows "if (\<Sum>a \<leftarrow> sm_attempts s'. matched_payout a) \<le> cash_limit
    then \<exists>r lr. sim_report cfg s' = Inr r \<and> pr_lifecycle r = Some lr \<and>
      pr_floor r = (\<Sum>a \<leftarrow> sm_attempts s'. matched_payout a) \<and>
      lr_reserved lr = sm_reserved_total s' \<and> lr_unsettled lr = unsettled_lots (sm_positions s') \<and>
      lr_cash lr = sm_available s' + lr_reserved lr - sm_unconfirmed_debit s' + sm_unconfirmed_credit s' \<and>
      lr_complete lr = (lr_unsettled lr = 0 \<and> (\<forall>order \<in> set (sm_orders s'). or_responded order) \<and> lr_reserved lr = 0) \<and>
      (lr_complete lr \<longrightarrow> lr_cash lr = sm_available s') \<and>
      lr_net_pnl lr = (if lr_complete lr then Some (sm_available s' - sy_capital policy - sy_operating_cost policy) else None)
    else sim_report cfg s' = Inl ''aggregate payout exceeds study bound''"
proof -
  obtain life where life: "sy_lifecycle policy = Some life" using assms(2) by (auto simp: sane_study_def)
  have at: "pair_config_ok cfg" "pc_policy cfg = policy" "study_at cfg life t s" using pair_study_at [OF assms(1,2) life] by simp_all
  have ended: "study_ended cfg life s'"
    using sim_finish_ok [OF at(1) _ assms(5) at(3) assms(3,4)] assms(6) at(2) life by simp
  have floor: "payout_floor (sm_attempts s') 0 = (if (\<Sum>a \<leftarrow> sm_attempts s'. matched_payout a) \<le> cash_limit
      then Inr (\<Sum>a \<leftarrow> sm_attempts s'. matched_payout a) else Inl ''aggregate payout exceeds study bound'')"
    using payout_floor_eq [OF ended_invD(5) [OF ended], of 0] by (simp add: cash_limit_def)
  obtain lr where lr: "report_lifecycle cfg s' = Inr lr"
    "lr_reserved lr = sm_reserved_total s'" "lr_unsettled lr = unsettled_lots (sm_positions s')"
    "lr_cash lr = sm_available s' + lr_reserved lr - sm_unconfirmed_debit s' + sm_unconfirmed_credit s'"
    "lr_complete lr = (lr_unsettled lr = 0 \<and> (\<forall>order \<in> set (sm_orders s'). or_responded order) \<and> lr_reserved lr = 0)"
    "lr_complete lr \<longrightarrow> lr_cash lr = sm_available s'"
    "lr_net_pnl lr = (if lr_complete lr then Some (sm_available s' - sy_capital policy - sy_operating_cost policy) else None)"
    using report_lifecycle_eq [OF ended] at(2) by blast
  show ?thesis
  proof (cases "(\<Sum>a \<leftarrow> sm_attempts s'. matched_payout a) \<le> cash_limit")
    case False
    then show ?thesis by (simp add: sim_report_def Let_def floor)
  next
    case True
    have "\<exists>r. sim_report cfg s' = Inr r \<and> pr_lifecycle r = Some lr \<and> pr_floor r = (\<Sum>a \<leftarrow> sm_attempts s'. matched_payout a)"
      using life at(2) lr(1) True by (simp add: sim_report_def Let_def floor)
    then obtain r where r: "sim_report cfg s' = Inr r" "pr_lifecycle r = Some lr" "pr_floor r = (\<Sum>a \<leftarrow> sm_attempts s'. matched_payout a)"
      by blast
    show ?thesis by (subst if_P [OF True]) (intro exI conjI, (rule r lr)+)
  qed
qed


subsection \<open>Witnesses\<close>

lemma pair_sane: "sane_study (registry_of [example_definition]) pair_policy" "sy_lifecycle pair_policy = Some pair_life"
  by (auto simp: sane_study_def study_policy_ok_def fills_policy_def step_ok_def bps_ok_def policy_ok_def pair_policy_def pair_life_def
      lifecycle_policy_ok_def cash_limit_def quantity_limit_def priced_registry_def example_registry registry_size_def)

lemma pair_reached:
  obtains s where "pair_study (registry_of [example_definition]) pair_policy pair_cfg 11 s"
    "sm_events s = [\<lparr>le_time = 12, le_order = 0, le_response = False\<rparr>, \<lparr>le_time = 12, le_order = 1, le_response = False\<rparr>]"
    "length (sm_orders s) = 2" "sm_orders s ! 0 = \<lparr>or_attempt = 0, or_leg = 0, or_quantity = 100, or_limit = 100, or_reserve = 10101,
      or_fill = no_execution, or_arrived = False, or_responded = False, or_sell = False\<rparr>" "sm_available s = 979798"
proof -
  have "pair_study (registry_of [example_definition]) pair_policy pair_cfg 0 pair_start" by (rule construct [OF pair_made])
  from after [OF this _ _ pair_books_ok pair_first]
  have seen: "pair_study (registry_of [example_definition]) pair_policy pair_cfg 10 pair_seen" by (simp add: pair_frame_def limits)
  obtain s where s: "sim_after pair_cfg (pair_frame 1 11) pair_books pair_seen = Some (Inr s)"
    "sm_events s = [\<lparr>le_time = 12, le_order = 0, le_response = False\<rparr>, \<lparr>le_time = 12, le_order = 1, le_response = False\<rparr>]"
    "length (sm_orders s) = 2" "sm_orders s ! 0 = \<lparr>or_attempt = 0, or_leg = 0, or_quantity = 100, or_limit = 100, or_reserve = 10101,
      or_fill = no_execution, or_arrived = False, or_responded = False, or_sell = False\<rparr>" "sm_available s = 979798"
    by (rule pair_second)
  from after [OF seen _ _ pair_books_ok s(1)] s that show ?thesis by (simp add: pair_frame_def limits)
qed

lemma pair_study_ledger_witness:
  "\<exists>s. pair_study (registry_of [example_definition]) pair_policy pair_cfg 11 s \<and> sm_available s = 979798 \<and>
     sm_available s + sm_reserved_total s - sm_unconfirmed_debit s + sm_unconfirmed_credit s =
       sy_capital pair_policy - sm_spent s + sm_settlement_cash s + sm_exit_credit s"
proof -
  obtain s where s: "pair_study (registry_of [example_definition]) pair_policy pair_cfg 11 s" "sm_available s = 979798"
    by (rule pair_reached)
  show ?thesis using pair_study_ledger [OF s(1) pair_sane(1)] s by blast
qed


lemma pair_orders_answered_witness:
  "\<exists>s. pair_study (registry_of [example_definition]) pair_policy pair_cfg 11 s \<and> \<not> or_responded (sm_orders s ! 0) \<and>
     completes runtime_limit (\<lambda>s'. or_responded (sm_orders s' ! 0)) (sim_before pair_cfg 18 pair_books s)"
proof -
  obtain s where s: "pair_study (registry_of [example_definition]) pair_policy pair_cfg 11 s"
    "sm_events s = [\<lparr>le_time = 12, le_order = 0, le_response = False\<rparr>, \<lparr>le_time = 12, le_order = 1, le_response = False\<rparr>]"
    "length (sm_orders s) = 2" "sm_orders s ! 0 = \<lparr>or_attempt = 0, or_leg = 0, or_quantity = 100, or_limit = 100, or_reserve = 10101,
      or_fill = no_execution, or_arrived = False, or_responded = False, or_sell = False\<rparr>"
    by (rule pair_reached)
  have "response_delay pair_cfg pair_life (sm_orders s ! 0) = 5" by (simp add: s(4) response_delay_def pair_life_def)
  then have "completes runtime_limit (\<lambda>s'. or_responded (sm_orders s' ! 0)) (sim_before pair_cfg 18 pair_books s)"
    using pair_orders_answered [OF s(1) pair_sane, of 0] pair_books_ok s(2-4) by auto
  then show ?thesis using s by auto
qed

lemma pair_report_exact_witness:
  "\<exists>s' r lr. sim_finish pair_cfg 0 pair_books pair_start = Some (Inr s') \<and> sim_report pair_cfg s' = Inr r \<and>
     pr_lifecycle r = Some lr \<and> lr_net_pnl lr = Some 0"
proof -
  have s: "pair_study (registry_of [example_definition]) pair_policy pair_cfg 0 pair_start" by (rule construct [OF pair_made])
  let ?sp = "reserve_positions 1 no_positions"
  have idle: "drain_lifecycle pair_cfg pair_life 0 True pair_books pair_start = Some (Inr pair_start)"
    by (subst drain_lifecycle.simps) (simp add: settlement_due_def order_due_def pair_life_def pair_start_def new_simulation_def)
  have closed: "finish_positions 0 ?sp = Inr ?sp"
    by (simp add: finish_positions_def reserve_positions_def no_positions_def empty_position_def)
  have fin: "sim_finish pair_cfg 0 pair_books pair_start = Some (Inr pair_start)"
    using idle closed
    by (simp add: sim_finish_def sim_drain_def pair_cfg_def pair_policy_def pair_life_def pair_start_def new_simulation_def)
  have s': "sm_attempts pair_start = []" "sm_orders pair_start = []" "sm_available pair_start = 1000000"
      "sm_reserved_total pair_start = 0" "unsettled_lots (sm_positions pair_start) = 0"
    by (simp_all add: pair_start_def new_simulation_def unsettled_lots_def reserve_positions_def no_positions_def empty_position_def)
  have costs: "sy_capital pair_policy = 1000000" "sy_operating_cost pair_policy = 0" by (simp_all add: pair_policy_def)
  show ?thesis using pair_report_exact [OF s pair_sane(1) _ _ pair_books_ok fin] fin
    by (auto simp: s' costs limits)
qed


subsection \<open>Fills\<close>

text \<open>
  Claim C17. The reserve of a buy order covers what the market makes of it. An order whose reserve can be computed
  is walked through the book without failing, whatever was taken from the book before and whatever share of
  it fills; it fills in whole steps, never above its size nor its limit price, and its debit, fees included, stays
  within the reserve of the filled quantity. A quote changes nothing, a fill only the depleted liquidity and the rows.
\<close>

theorem pair_fill_within_reserve:
  assumes "fills_policy (pc_policy cfg)" "market_ok state" "0 \<le> q" "q \<le> quantity_limit" "0 \<le> limit" "limit \<le> 10000"
    and "order_reserve cfg leg q limit = Inr reserve"
  shows "\<exists>r s' filled. walk_book cfg False leg q limit state execute s = Inr (r, s') \<and>
    0 \<le> ex_quantity r \<and> ex_quantity r \<le> q \<and> sy_quantity_step (pc_policy cfg) dvd ex_quantity r \<and>
    (ex_quantity r \<noteq> 0 \<longrightarrow> ex_worst_price r \<le> limit) \<and>
    order_reserve cfg leg (ex_quantity r) limit = Inr filled \<and> 0 \<le> ex_debit r \<and> ex_debit r \<le> filled \<and> filled \<le> reserve \<and>
    (if execute then s' = s\<lparr>sm_consumed := sm_consumed s', sm_rows := sm_rows s'\<rparr> else s' = s)"
proof -
  let ?step = "sy_quantity_step (pc_policy cfg)"
  obtain fee where fee: "sy_fees (pc_policy cfg) (lt_market leg) = Some fee"
    using assms(7) by (auto simp: order_reserve_def market_fee_def split: option.splits)
  have step: "step_ok ?step" and pol: "policy_ok fee" using assms(1) fee by (auto simp: fills_policy_def)
  have raw: "quantity_raw (quantity_value ?step) = ?step" "price_raw (the (price_from_raw limit)) = limit"
    using step assms(5,6) by (auto simp: step_ok_def the_price_raw)
  have reserve: "reserve_ok fee ?step n \<Longrightarrow> order_reserve cfg leg n limit = Inr (reserve_amount fee ?step limit n)"
    if "0 \<le> n" "n \<le> quantity_limit" for n
    using that raw reserve_amount_bounds [of fee ?step n limit] assms(5,6)
    by (simp add: order_reserve_def market_fee_def fee buy_reservation_eq limits)
  have q: "reserve_ok fee ?step q"
    using assms(3,4,7) raw by (auto simp: order_reserve_def market_fee_def fee buy_reservation_eq limits split: if_splits)
  obtain r s' where walk: "walk_book cfg False leg q limit state execute s = Inr (r, s')"
    "same_but_depletion execute s s'" "execution_ok fee ?step False q limit r"
    using walk_book_ok [OF assms(1) _ fee assms(3-6,2), of False] by blast
  then have r: "0 \<le> ex_quantity r" "ex_quantity r \<le> q" "?step dvd ex_quantity r" "0 \<le> ex_debit r"
    "ex_debit r \<le> reserve_amount fee ?step limit (ex_quantity r)" "ex_quantity r \<noteq> 0 \<longrightarrow> ex_worst_price r \<le> limit"
    by (simp_all add: execution_ok_def)
  have "order_reserve cfg leg (ex_quantity r) limit = Inr (reserve_amount fee ?step limit (ex_quantity r))"
    using reserve [OF r(1)] reserve_ok_step [OF step pol r(1) _ r(3)] r(2) assms(4) by simp
  moreover have "reserve_amount fee ?step limit (ex_quantity r) \<le> reserve"
    using reserve_amount_mono [OF q r(1,2) assms(5) order_refl] reserve [OF assms(3,4) q] assms(7) by simp
  ultimately show ?thesis using walk(1,2) r unfolding same_but_depletion_def by blast
qed

lemma pair_fill_within_reserve_witness:
  "\<exists>r s'. walk_book pair_cfg False (fst cent_legs) 100 100 pair_books True pair_ready = Inr (r, s') \<and> ex_debit r \<le> 10101"
proof -
  have "fills_policy (pc_policy pair_cfg)" using pair_sane(1) by (simp add: sane_study_def study_policy_ok_def pair_cfg_def)
  from pair_fill_within_reserve [OF this pair_books_ok, of 100 100 "fst cent_legs" 10101 True pair_ready] pair_reserve [of "fst cent_legs"]
  show ?thesis by (auto simp: limits)
qed

end
