(* ===== verification/Spec2Isabelle.thy ===== *)
theory Spec2Isabelle
  imports Prelude Fixed_Point Execution_Cost Order_Book Market_State Payoff Candidate_Tracker
    Journal_Codec Raw_Journal Reservation Leg_Offer Basket_Sizing Net_Sizing Net_Optimum Pair_Sizing
    Passive_Queue Kalshi_Gateway Basket_Observation Basket_Episodes
    Basket_Execution Execution_Ledger Basket_Study Study_Ledger Study_Replay
    Study_Positions Pair_Execution Pair_Fills Pair_Quotes Pair_Ledger Pair_Lifecycle Pair_Drain Pair_Study
    Pair_Example Pair_Runs
begin

text \<open>
  A verification development of the event-market execution engine.

  The program reads a venue's order book feed, keeps the books, values portfolios over related
  markets, and studies on recorded sessions which of them could have been bought. It has no
  threads in its core: every component is an object whose operations are called in the order of the records.
  What flows through it, from the outside in:

    \<^item> A record of a journal (\<open>journal/\<close>) holds one message of the venue. \<open>gateway/kalshi\<close> decodes the message,
      normalizes it to a snapshot or a delta of one market, and hands it to the market state.
    \<^item> The market state (\<open>market/\<close>) owns the books (\<open>book/\<close>) of one connection and decides which updates
      are in order; anything out of order takes the books down until a snapshot.
    \<^item> Relationships between markets (\<open>constraint/\<close>) are compiled into the possible settlements; the
      oracle values a portfolio over all of them. The candidate tracker (\<open>opportunity/\<close>) keeps the price and the
      guaranteed payout of each candidate up to date after every event.
    \<^item> The sizing routines (\<open>core/\<close>) find the best quantity of a pair or a basket, with the venue's fees, the
      rounding of its balance and a reserve for each order.
    \<^item> The observers of a replay (\<open>session/\<close>) see the state before and after every record: the basket
      observation times the status of each basket and announces its episodes, the basket execution study
      tries to buy the announced baskets against the recorded books, and the paired execution study buys the two
      legs of each guaranteed portfolio with orders whose arrivals and responses are events of their own.

  \<^bold>\<open>Theories\<close>, in the order of the components:

    \<^item> \<open>Prelude\<close>: ordered maps as sorted association lists (the interface locale of \<open>std::map\<close>), lists, words, generic facts.
    \<^item> \<open>Fixed_Point\<close> (\<open>core/fixed_point.hpp\<close>): prices, quantities, quantity deltas and cash as types over their
      raw range, with the exact decimal parsers; parsing accepts exactly the decimal representations in range.
    \<^item> \<open>Execution_Cost\<close> (\<open>core/execution_cost\<close>): charges and credits of a fill on 64-bit words, the portable long
      division, and the locale of a fee routine that the ladders of fills rest on.
    \<^item> \<open>Order_Book\<close>, \<open>Market_State\<close>: the books and the connection, with their reachable states, and the refinement of a
      book to the sums of its stream.
    \<^item> \<open>Payoff\<close>, \<open>Candidate_Tracker\<close>: relationships, worlds, the oracle; candidates, quotes, events of a refresh,
      and the equality of the incremental with the global refresh.
    \<^item> \<open>Journal_Codec\<close>, \<open>Raw_Journal\<close>: records as bytes with their checksum; files as byte lists with a reader and a writer.
    \<^item> \<open>Reservation\<close>, \<open>Leg_Offer\<close>, \<open>Basket_Sizing\<close>, \<open>Net_Sizing\<close>, \<open>Net_Optimum\<close>, \<open>Pair_Sizing\<close> (\<open>core/basket_sizing\<close>,
      \<open>core/net_sizing\<close>): reserves that cover every execution, what a leg costs at a quantity, and both searches with
      their exactness against a search of the whole grid.
    \<^item> \<open>Passive_Queue\<close> (\<open>core/passive_queue\<close>): the queue ahead of a resting order, bracketed by two models.
    \<^item> \<open>Kalshi_Gateway\<close> (\<open>gateway/kalshi\<close>): the market registry, the decoder, the normalizer and the processor.
    \<^item> \<open>Replay_Types\<close>: replay frames, and exceptions as the left of a sum with their sequencing.
    \<^item> \<open>Basket_Observation\<close> (model) and \<open>Basket_Episodes\<close> (proofs), for \<open>session/basket_observation.cpp\<close>: binding of the
      policy, statuses and their durations, episodes, the union of positive time; all over the calls of an
      observer as an inductive relation.
    \<^item> \<open>Basket_Execution\<close> (model), \<open>Execution_Ledger\<close> (proofs) and \<open>Basket_Study\<close> (the study over all scenarios),
      for \<open>session/basket_execution.cpp\<close>: orders with delays, fills with cumulative deductions of what was taken,
      unwinding, the ledger of each scenario; none of the code's own checks can fail.
    \<^item> \<open>Study_Positions\<close> (\<open>session/study_positions.hpp\<close>): capital time in two words, and lots in one vector linked by
      index, shown to be the first-in-first-out queues of their positions under every operation.
    \<^item> \<open>Pair_Execution\<close> (model), for \<open>session/execution_study.cpp\<close> and the policy records of
      \<open>session/study_policy.hpp\<close>: the whole \<open>Simulation\<close>, from its constructor to its report. Its proofs follow the
      calls: \<open>Pair_Fills\<close> (the walk along a book, for purchases, sales and quotes), \<open>Pair_Quotes\<close> (reserves, the legacy
      and the optimal quote), \<open>Pair_Ledger\<close> (the invariant of cash, reserves, orders, events and holdings, and what each
      elementary change keeps of it), \<open>Pair_Lifecycle\<close> (the end of an acquisition, completion, exits; the errors a run
      can have; the work left), \<open>Pair_Drain\<close> (settlements, arrivals and responses, the loop over them), \<open>Pair_Study\<close>
      (decisions and the calls of the driver), \<open>Pair_Example\<close> (a small study), \<open>Pair_Runs\<close> (runs as an inductive
      relation, and the properties).

  \<^bold>\<open>Representation.\<close> A class is a record, its member functions take it and return it changed; an enum is a datatype
  with the source's constructors. Fixed-width integers are words wherever the code can wrap or tests for overflow
  (fees, capital time, counters, sequence numbers); the cash and price arithmetic of the execution study is \<open>int\<close>, since an
  amount of one order is below \<open>10 ^ 10\<close>, a study writes at most 100000 rows, and the amounts of a scenario are
  sums over its rows. A C++ exception is \<open>Inl\<close> of its text; an optional or an expected result is an
  option or a sum. A \<open>std::map\<close> is a sorted association list where its order is used and a map otherwise.

  \<^bold>\<open>Loops.\<close> Searches and cursors end by a measure. The loop over due events of a scenario
  (\<open>advance_scenario\<close>) is a partial function: that it returns is a theorem, since every event puts the next one a
  positive delay later. The loop of the paired study (\<open>drain_lifecycle\<close>) is one too, and its delays may be
  zero: it ends since the work left, counted over settlements, orders and their retries, falls with every turn.
  There is no fuel in the model except the evaluation budget the program itself
  has (\<open>max_evaluations\<close>), which is an input.

  \<^bold>\<open>Parameters.\<close> Whether an output stream accepts a row, the file contents a journal is opened on and where a write
  breaks are arguments. The JSON library is outside the repository: decoders and policies start from
  the tree or the fields it gives.

  \<^bold>\<open>Not modelled\<close>: network, signing and capture of live sessions (\<open>transport/\<close>, \<open>session/capture_session\<close>, \<open>async_capture\<close>),
  which are input and output around library calls; the command line; the parsing of JSON policies and of metadata; the replay
  driver, which reads sealed files and calls the modelled processor and observers; the passive probe, whose queue,
  reservation and fee kernels are modelled; benchmarks, research programs and the vendored hash. The paired
  study is modelled with and without a lifecycle policy; the theorems on its runs are about runs with one, and they
  assume what the policy loader checks (ranges of the numbers, settlements in order of time, a fee for every market).
\<close>

end
